(* ===== verification/L4Prelude.thy ===== *)
theory L4Prelude
  imports Main "HOL-Library.Word"
begin

text \<open>
  Shared vocabulary of the development: machine types of the x86 build, the
  result type of C functions that may leave defined behaviour, arrays as
  functions with \<open>memset\<close>, and the generic lemmas on words, lists and counting
  that the component theories use.
\<close>

unbundle bit_operations_syntax

section \<open>Machine types\<close>

text \<open>
  The modelled build is \<open>ARCH=x86\<close>, \<open>L4API=l4v2\<close>: \<open>unsigned long\<close>,
  \<open>l4_addr_t\<close>, \<open>l4_umword_t\<close> and \<open>l4_size_t\<close> have 32 bits.
\<close>

type_synonym u8 = "8 word"
type_synonym u16 = "16 word"
type_synonym u32 = "32 word"

named_theorems l4_const \<open>numeric constants of the C headers\<close>
named_theorems rt_simps \<open>selector and frame equations of the roottask operations\<close>

section \<open>Leaving defined behaviour\<close>

text \<open>
  A C function that indexes an array out of its bounds, panics, calls
  \<open>exit\<close>, shifts by more than the width of a type or stays in a loop for ever
  does not return a value. Such a function returns \<open>Inl fault\<close>.
\<close>

datatype c_fault = OutOfBounds | Panic | Exit | Undefined | Diverge

type_synonym 'a res = "c_fault + 'a"

definition bind_res :: "'a res \<Rightarrow> ('a \<Rightarrow> 'b res) \<Rightarrow> 'b res" where
  "bind_res m f = (case m of Inl e \<Rightarrow> Inl e | Inr a \<Rightarrow> f a)"

lemma bind_res_simps [simp]:
  "bind_res (Inl e) f = Inl e" "bind_res (Inr a) f = f a"
  by (simp_all add: bind_res_def)

lemma bind_res_Inr_iff:
  "bind_res m f = Inr b \<longleftrightarrow> (\<exists>a. m = Inr a \<and> f a = Inr b)"
  by (cases m) auto

lemma bind_res_assoc: "bind_res (bind_res m f) g = bind_res m (\<lambda>a. bind_res (f a) g)"
  by (cases m) auto

section \<open>Arrays\<close>

text \<open>A C array is a function on indices; \<open>memset\<close> writes a range of it.\<close>

definition memset_arr :: "(nat \<Rightarrow> 'a) \<Rightarrow> nat \<Rightarrow> 'a \<Rightarrow> nat \<Rightarrow> (nat \<Rightarrow> 'a)" where
  "memset_arr f start v n = (\<lambda>i. if start \<le> i \<and> i < start + n then v else f i)"

lemma memset_arr_in [simp]: "start \<le> i \<Longrightarrow> i < start + n \<Longrightarrow> memset_arr f start v n i = v"
  by (simp add: memset_arr_def)

lemma memset_arr_out [simp]: "i < start \<or> start + n \<le> i \<Longrightarrow> memset_arr f start v n i = f i"
  by (auto simp: memset_arr_def)

lemma memset_arr_const: "memset_arr (\<lambda>_. v) start v n = (\<lambda>_. v)"
  by (auto simp: memset_arr_def)

text \<open>The loops of the code that scan an array front to back for the first hit.\<close>

fun first_index :: "(nat \<Rightarrow> bool) \<Rightarrow> nat \<Rightarrow> nat \<Rightarrow> nat option" where
  "first_index P i 0 = None"
| "first_index P i (Suc n) = (if P i then Some i else first_index P (Suc i) n)"

lemma first_index_SomeD:
  "first_index P i n = Some j \<Longrightarrow> i \<le> j \<and> j < i + n \<and> P j \<and> (\<forall>k. i \<le> k \<and> k < j \<longrightarrow> \<not> P k)"
proof (induction P i n rule: first_index.induct)
  case (2 P i n)
  show ?case
  proof (cases "P i")
    case True
    with 2 show ?thesis by auto
  next
    case False
    with 2 have h: "Suc i \<le> j \<and> j < Suc i + n \<and> P j \<and> (\<forall>k. Suc i \<le> k \<and> k < j \<longrightarrow> \<not> P k)"
      by simp
    have "\<not> P k" if "i \<le> k" "k < j" for k
      using h that False by (cases "k = i") auto
    with h show ?thesis by auto
  qed
qed simp

lemma first_index_None_iff: "first_index P i n = None \<longleftrightarrow> (\<forall>k. i \<le> k \<and> k < i + n \<longrightarrow> \<not> P k)"
proof (induction P i n rule: first_index.induct)
  case (2 P i n)
  show ?case
  proof (cases "P i")
    case True
    then show ?thesis by auto
  next
    case False
    with 2 have IH: "first_index P i (Suc n) = None \<longleftrightarrow> (\<forall>k. Suc i \<le> k \<and> k < Suc i + n \<longrightarrow> \<not> P k)"
      by simp
    also have "(\<forall>k. Suc i \<le> k \<and> k < Suc i + n \<longrightarrow> \<not> P k) = (\<forall>k. i \<le> k \<and> k < i + Suc n \<longrightarrow> \<not> P k)"
    proof (intro iffI allI impI)
      fix k assume h: "\<forall>k. Suc i \<le> k \<and> k < Suc i + n \<longrightarrow> \<not> P k" and k: "i \<le> k \<and> k < i + Suc n"
      show "\<not> P k" using False h k by (cases "k = i") auto
    qed auto
    finally show ?thesis .
  qed
qed auto

lemma first_index_eq_Some_iff:
  "first_index P i n = Some j \<longleftrightarrow>
     i \<le> j \<and> j < i + n \<and> P j \<and> (\<forall>k. i \<le> k \<and> k < j \<longrightarrow> \<not> P k)"
proof
  assume "first_index P i n = Some j"
  then show "i \<le> j \<and> j < i + n \<and> P j \<and> (\<forall>k. i \<le> k \<and> k < j \<longrightarrow> \<not> P k)"
    by (rule first_index_SomeD)
next
  assume h: "i \<le> j \<and> j < i + n \<and> P j \<and> (\<forall>k. i \<le> k \<and> k < j \<longrightarrow> \<not> P k)"
  then obtain j' where j': "first_index P i n = Some j'"
    using first_index_None_iff [of P i n] by blast
  with first_index_SomeD [OF this] h have "j' = j"
    by (meson linorder_neqE_nat)
  with j' show "first_index P i n = Some j" by simp
qed

text \<open>\<open>all_from P i n\<close>: the loops that test a whole range and stop at the first failure.\<close>

fun all_from :: "(nat \<Rightarrow> bool) \<Rightarrow> nat \<Rightarrow> nat \<Rightarrow> bool" where
  "all_from P i 0 = True"
| "all_from P i (Suc n) = (if \<not> P i then False else all_from P (Suc i) n)"

lemma all_from_iff: "all_from P i n \<longleftrightarrow> (\<forall>k. i \<le> k \<and> k < i + n \<longrightarrow> P k)"
proof -
  have "all_from P i n \<longleftrightarrow> first_index (\<lambda>k. \<not> P k) i n = None"
    by (induction P i n rule: all_from.induct) auto
  then show ?thesis by (simp add: first_index_None_iff)
qed

section \<open>Counting in a range\<close>

definition count_in :: "(nat \<Rightarrow> bool) \<Rightarrow> nat \<Rightarrow> nat \<Rightarrow> nat" where
  "count_in P start n = card {i. start \<le> i \<and> i < start + n \<and> P i}"

lemma finite_range_filter [simp]: "finite {i::nat. a \<le> i \<and> i < b \<and> P i}"
  by (rule finite_subset [of _ "{..<b}"]) auto

lemma count_in_le: "count_in P start n \<le> n"
proof -
  have "count_in P start n \<le> card {start..<start + n}"
    unfolding count_in_def by (rule card_mono) auto
  then show ?thesis by simp
qed

lemma count_in_full_iff: "count_in P start n = n \<longleftrightarrow> (\<forall>i. start \<le> i \<and> i < start + n \<longrightarrow> P i)"
proof
  assume "count_in P start n = n"
  then have "card {i. start \<le> i \<and> i < start + n \<and> P i} = card {start..<start + n}"
    by (simp add: count_in_def)
  moreover have "{i. start \<le> i \<and> i < start + n \<and> P i} \<subseteq> {start..<start + n}" by auto
  ultimately have "{i. start \<le> i \<and> i < start + n \<and> P i} = {start..<start + n}"
    by (simp add: card_subset_eq)
  from equalityD2 [OF this] show "\<forall>i. start \<le> i \<and> i < start + n \<longrightarrow> P i" by auto
next
  assume "\<forall>i. start \<le> i \<and> i < start + n \<longrightarrow> P i"
  then have "{i. start \<le> i \<and> i < start + n \<and> P i} = {start..<start + n}" by auto
  then show "count_in P start n = n" by (simp add: count_in_def)
qed

lemma count_in_zero_iff: "count_in P start n = 0 \<longleftrightarrow> (\<forall>i. start \<le> i \<and> i < start + n \<longrightarrow> \<not> P i)"
  by (auto simp: count_in_def)

lemma count_in_upd_false:
  assumes "start \<le> p" "p < start + n" "P p" "\<And>i. i \<noteq> p \<Longrightarrow> Q i = P i" "\<not> Q p"
  shows "count_in P start n = Suc (count_in Q start n)"
proof -
  have "{i. start \<le> i \<and> i < start + n \<and> P i} = insert p {i. start \<le> i \<and> i < start + n \<and> Q i}"
  proof (rule set_eqI)
    fix i show "i \<in> {i. start \<le> i \<and> i < start + n \<and> P i} \<longleftrightarrow>
        i \<in> insert p {i. start \<le> i \<and> i < start + n \<and> Q i}"
      using assms by (cases "i = p") auto
  qed
  then show ?thesis using assms by (simp add: count_in_def)
qed

lemma count_in_cong:
  "(\<And>i. start \<le> i \<Longrightarrow> i < start + n \<Longrightarrow> P i = Q i) \<Longrightarrow> count_in P start n = count_in Q start n"
  unfolding count_in_def by (rule arg_cong [where f = card]) auto

section \<open>Words\<close>

lemma unat_sub_one [simp]: "x \<noteq> 0 \<Longrightarrow> unat (x - 1) = unat x - 1"
  for x :: "'a::len word"
  by (rule unat_minus_one)

lemma unat_add_lt:
  "unat x + unat y < 2 ^ LENGTH('a) \<Longrightarrow> unat (x + y) = unat x + unat y" for x y :: "'a::len word"
  by (simp add: unat_word_ariths)

lemma unat_sub_le: "y \<le> x \<Longrightarrow> unat (x - y) = unat x - unat y" for x y :: "'a::len word"
  by (rule unat_sub)

lemma word_less_unat: "x < y \<longleftrightarrow> unat x < unat y" for x y :: "'a::len word"
  by (rule word_less_nat_alt)

lemma word_le_unat: "x \<le> y \<longleftrightarrow> unat x \<le> unat y" for x y :: "'a::len word"
  by (rule word_le_nat_alt)

lemma unat_lt32 [simp]: "unat (x :: u32) < 4294967296"
  using unsigned_less [where ?'a = nat, of x] by simp

lemma unat_lt16 [simp]: "unat (x :: u16) < 65536"
  using unsigned_less [where ?'a = nat, of x] by simp

lemma unat_lt8 [simp]: "unat (x :: u8) < 256"
  using unsigned_less [where ?'a = nat, of x] by simp

lemma unat_of_nat_lt: "i < 2 ^ LENGTH('a) \<Longrightarrow> unat (of_nat i :: 'a::len word) = i"
  by (simp add: unsigned_of_nat take_bit_nat_eq_self)

lemma unat_take_bit_mod: "unat (take_bit m x) = unat x mod 2 ^ m" for x :: "'a::len word"
  unfolding unsigned_take_bit_eq by (rule take_bit_eq_mod)

lemma unat_exp32: "m < 32 \<Longrightarrow> unat (2 ^ m :: u32) = 2 ^ m"
proof -
  assume "m < 32"
  then have "(2 :: nat) ^ m < 2 ^ 32" by (rule power_strict_increasing) simp
  then have "unat (of_nat (2 ^ m) :: u32) = 2 ^ m" by (intro unat_of_nat_lt) simp
  then show ?thesis by simp
qed

text \<open>Promotion to 32 bits keeps the value.\<close>

lemma unat_ucast16 [simp]: "unat (ucast (x :: u16) :: u32) = unat x"
proof -
  have "unat x < 2 ^ 32" using unat_lt16 [of x] by (rule less_trans) simp
  then show ?thesis by (simp add: unsigned_ucast_eq take_bit_nat_eq_self)
qed

lemma unat_ucast8 [simp]: "unat (ucast (x :: u8) :: u32) = unat x"
proof -
  have "unat x < 2 ^ 32" using unat_lt8 [of x] by (rule less_trans) simp
  then show ?thesis by (simp add: unsigned_ucast_eq take_bit_nat_eq_self)
qed

lemma add_within: "unat c + unat n \<le> unat m \<Longrightarrow> c + n \<le> m" for c n m :: "'a::len word"
  using le_less_trans [OF _ unsigned_less [where ?'a = nat, of m]] by (simp add: word_le_unat unat_add_lt)

text \<open>Clearing the low \<open>n\<close> bits rounds down to a multiple of \<open>2 ^ n\<close>.\<close>

lemma and_not_mask_unat:
  "unat (x AND NOT (mask n)) = unat x div 2 ^ n * 2 ^ n" for x :: "'a::len word"
proof -
  have "x AND NOT (mask n) = push_bit n (drop_bit n x)"
    by (rule bit_word_eqI) (auto simp: bit_simps)
  also have "unat \<dots> = take_bit LENGTH('a) (push_bit n (drop_bit n (unat x)))"
    by (simp add: unsigned_push_bit_eq unsigned_drop_bit_eq take_bit_nat_eq_self)
  also have "\<dots> = unat x div 2 ^ n * 2 ^ n"
  proof -
    have "push_bit n (drop_bit n (unat x)) \<le> unat x"
      by (simp add: push_bit_eq_mult drop_bit_eq_div)
    also have "unat x < 2 ^ LENGTH('a)" by (rule unsigned_less)
    finally show ?thesis
      by (simp add: take_bit_nat_eq_self push_bit_eq_mult drop_bit_eq_div)
  qed
  finally show ?thesis .
qed

end
