(* ===== verification/L4Sys.thy ===== *)
theory L4Sys
  imports L4Prelude
begin

text \<open>
  The part of the L4 system interface (\<open>l4sys/include\<close>) that the servers use:
  page constants and rounding macros (\<open>consts.h\<close>), thread ids (\<open>types.h\<close>) and
  flexpages (\<open>__l4_fpage-32bit.h\<close>). Bit fields are read and written through the
  32-bit words they are packed in.
\<close>

type_synonym l4_addr_t = u32
type_synonym l4_umword_t = u32
type_synonym l4_threadid_t = u32
type_synonym l4_fpage_t = u32

section \<open>Pages\<close>

definition L4_PAGESHIFT :: nat where [l4_const]: "L4_PAGESHIFT = 12"
definition L4_SUPERPAGESHIFT :: nat where [l4_const]: "L4_SUPERPAGESHIFT = 22"
definition L4_PAGESIZE :: l4_addr_t where [l4_const]: "L4_PAGESIZE = 0x1000"
definition L4_SUPERPAGESIZE :: l4_addr_t where [l4_const]: "L4_SUPERPAGESIZE = 0x400000"
definition L4_PAGEMASK :: l4_addr_t where "L4_PAGEMASK = NOT (L4_PAGESIZE - 1)"
definition L4_SUPERPAGEMASK :: l4_addr_t where "L4_SUPERPAGEMASK = NOT (L4_SUPERPAGESIZE - 1)"

definition l4_trunc_page :: "l4_addr_t \<Rightarrow> l4_addr_t" where
  "l4_trunc_page x = x AND L4_PAGEMASK"

definition l4_round_page :: "l4_addr_t \<Rightarrow> l4_addr_t" where
  "l4_round_page x = (x + L4_PAGESIZE - 1) AND L4_PAGEMASK"

definition l4_trunc_superpage :: "l4_addr_t \<Rightarrow> l4_addr_t" where
  "l4_trunc_superpage x = x AND L4_SUPERPAGEMASK"

lemma L4_PAGEMASK_mask: "L4_PAGEMASK = NOT (mask 12)"
  by (simp add: L4_PAGEMASK_def L4_PAGESIZE_def mask_eq_exp_minus_1)

lemma L4_SUPERPAGEMASK_mask: "L4_SUPERPAGEMASK = NOT (mask 22)"
  by (simp add: L4_SUPERPAGEMASK_def L4_SUPERPAGESIZE_def mask_eq_exp_minus_1)

lemma unat_and_PAGEMASK: "unat (x AND L4_PAGEMASK) = unat x div 4096 * 4096"
  by (simp add: L4_PAGEMASK_mask and_not_mask_unat)

lemma unat_and_SUPERPAGEMASK: "unat (x AND L4_SUPERPAGEMASK) = unat x div 4194304 * 4194304"
  by (simp add: L4_SUPERPAGEMASK_mask and_not_mask_unat)

lemma unat_trunc_page: "unat (l4_trunc_page x) = unat x div 4096 * 4096"
  by (simp add: l4_trunc_page_def unat_and_PAGEMASK)

lemma unat_round_page:
  assumes "unat x \<le> 0xFFFFF000"
  shows "unat (l4_round_page x) = (unat x + 4095) div 4096 * 4096"
proof -
  have "l4_round_page x = (x + 0xFFF) AND L4_PAGEMASK"
    by (simp add: l4_round_page_def L4_PAGESIZE_def add.commute)
  moreover have "unat (x + 0xFFF) = unat x + 4095"
    using assms by (subst unat_add_lt) auto
  ultimately show ?thesis by (simp add: unat_and_PAGEMASK)
qed

section \<open>Thread ids\<close>

text \<open>
  \<open>l4_threadid_struct_t\<close>: \<open>version_low:10\<close>, \<open>lthread:7\<close>, \<open>task:11\<close>,
  \<open>version_high:4\<close>, from the least significant bit.
\<close>

definition L4_NIL_ID :: l4_threadid_t where "L4_NIL_ID = 0"
definition L4_INVALID_ID :: l4_threadid_t where "L4_INVALID_ID = 0xFFFFFFFF"

definition l4_is_nil_id :: "l4_threadid_t \<Rightarrow> bool" where
  "l4_is_nil_id i = (i = 0)"

definition l4_is_invalid_id :: "l4_threadid_t \<Rightarrow> bool" where
  "l4_is_invalid_id i = (i = 0xFFFFFFFF)"

definition id_task :: "l4_threadid_t \<Rightarrow> u32" where
  "id_task i = drop_bit 17 i AND 0x7FF"

definition id_lthread :: "l4_threadid_t \<Rightarrow> u32" where
  "id_lthread i = drop_bit 10 i AND 0x7F"

definition set_id_task :: "l4_threadid_t \<Rightarrow> u32 \<Rightarrow> l4_threadid_t" where
  "set_id_task i t = (i AND NOT (push_bit 17 0x7FF)) OR push_bit 17 (t AND 0x7FF)"

definition set_id_lthread :: "l4_threadid_t \<Rightarrow> u32 \<Rightarrow> l4_threadid_t" where
  "set_id_lthread i t = (i AND NOT (push_bit 10 0x7F)) OR push_bit 10 (t AND 0x7F)"

definition inc_version_low :: "l4_threadid_t \<Rightarrow> l4_threadid_t" where
  "inc_version_low i = (i AND NOT 0x3FF) OR ((i + 1) AND 0x3FF)"

definition l4_thread_equal :: "l4_threadid_t \<Rightarrow> l4_threadid_t \<Rightarrow> bool" where
  "l4_thread_equal a b = (a = b)"

definition l4_tasknum_equal :: "l4_threadid_t \<Rightarrow> l4_threadid_t \<Rightarrow> bool" where
  "l4_tasknum_equal a b = (id_task a = id_task b)"

text \<open>Threads of one task differ in the thread number only.\<close>

definition TASK_MASK :: u32 where [l4_const]: "TASK_MASK = 0xFFFE03FF"

definition l4_task_equal :: "l4_threadid_t \<Rightarrow> l4_threadid_t \<Rightarrow> bool" where
  "l4_task_equal a b = (a AND TASK_MASK = b AND TASK_MASK)"

text \<open>The error code of \<open>errno.h\<close> that all libraries use.\<close>

definition L4_EINVAL :: int where [l4_const]: "L4_EINVAL = 3"

lemma word_and_le_right: "x AND y \<le> y" for x y :: "'a::len word"
  by (rule word_and_le1)

lemma id_task_bound: "unat (id_task i) < 2048"
  using word_and_le_right [of "drop_bit 17 i" "0x7FF"]
  by (simp add: id_task_def word_le_unat)

lemma mask_11: "(0x7FF :: u32) = mask 11"
  by (simp add: mask_eq_exp_minus_1)

lemma mask_7: "(0x7F :: u32) = mask 7"
  by (simp add: mask_eq_exp_minus_1)

lemma id_task_set: "id_task (set_id_task i t) = t AND 0x7FF"
  unfolding id_task_def set_id_task_def mask_11
  by (rule bit_word_eqI) (auto simp: bit_simps)

lemma id_lthread_set_task: "id_lthread (set_id_task i t) = id_lthread i"
  unfolding id_lthread_def set_id_task_def mask_11 mask_7
  by (rule bit_word_eqI) (auto simp: bit_simps)

text \<open>The protocols a message tag can name (\<open>l4sys/include/types.h\<close>).\<close>

datatype l4_msgtag_protocol =
    L4_MSGTAG_IRQ | L4_MSGTAG_PAGE_FAULT | L4_MSGTAG_PREEMPTION | L4_MSGTAG_SYS_EXCEPTION
  | L4_MSGTAG_EXCEPTION | L4_MSGTAG_SIGMA0 | L4_MSGTAG_IO_PAGE_FAULT | L4_MSGTAG_CAP_FAULT
  | L4_MSGTAG_OTHER

definition L4_LOG2_PAGESIZE :: u32 where [l4_const]: "L4_LOG2_PAGESIZE = 12"

section \<open>Flexpages\<close>

text \<open>
  \<open>l4_fpage_struct_t\<close>: \<open>grant:1\<close>, \<open>write:1\<close>, \<open>size:6\<close>, \<open>zero:1\<close>,
  \<open>cache:3\<close>, \<open>page:20\<close>; \<open>l4_iofpage_struct_t\<close>: \<open>grant:1\<close>, \<open>zero1:1\<close>,
  \<open>iosize:6\<close>, \<open>zero2:4\<close>, \<open>iopage:16\<close>, \<open>f:4\<close>.
\<close>

definition L4_FPAGE_RO :: u8 where "L4_FPAGE_RO = 0"
definition L4_FPAGE_RW :: u8 where "L4_FPAGE_RW = 1"
definition L4_FPAGE_MAP :: u8 where "L4_FPAGE_MAP = 0"
definition L4_FPAGE_GRANT :: u8 where "L4_FPAGE_GRANT = 1"
definition L4_WHOLE_IOADDRESS_SPACE :: u32 where [l4_const]: "L4_WHOLE_IOADDRESS_SPACE = 16"

definition l4_fpage :: "l4_addr_t \<Rightarrow> u32 \<Rightarrow> u8 \<Rightarrow> u8 \<Rightarrow> l4_fpage_t" where
  "l4_fpage address sz write grant =
     (ucast grant AND 1) OR push_bit 1 (ucast write AND 1) OR push_bit 2 (sz AND 0x3F)
     OR push_bit 12 (drop_bit 12 (address AND L4_PAGEMASK))"

definition fp_size :: "l4_fpage_t \<Rightarrow> u32" where
  "fp_size f = drop_bit 2 f AND 0x3F"

definition fp_page :: "l4_fpage_t \<Rightarrow> u32" where
  "fp_page f = drop_bit 12 f"

definition iofp_iopage :: "l4_fpage_t \<Rightarrow> u32" where
  "iofp_iopage f = drop_bit 12 f AND 0xFFFF"

definition iofp_iosize :: "l4_fpage_t \<Rightarrow> u32" where
  "iofp_iosize f = drop_bit 2 f AND 0x3F"

definition l4_is_io_page_fault :: "l4_umword_t \<Rightarrow> bool" where
  "l4_is_io_page_fault a = (drop_bit 28 a = 0xF \<and> drop_bit 8 a AND 0xF = 0)"

definition l4_iofpage :: "u32 \<Rightarrow> u32 \<Rightarrow> u8 \<Rightarrow> l4_fpage_t" where
  "l4_iofpage port sz grant =
     (ucast grant AND 1) OR push_bit 2 (sz AND 0x3F) OR push_bit 12 (port AND 0xFFFF)
     OR push_bit 28 0xF"

lemma mask_6: "(0x3F :: u32) = mask 6"
  by (simp add: mask_eq_exp_minus_1)

lemma mask_16: "(0xFFFF :: u32) = mask 16"
  by (simp add: mask_eq_exp_minus_1)

lemma mask_4: "(0xF :: u32) = mask 4"
  by (simp add: mask_eq_exp_minus_1)

lemma mask_1: "(1 :: u32) = mask 1"
  by (simp add: mask_eq_exp_minus_1)

text \<open>The descriptor built by \<open>l4_fpage\<close> reads back as the size and page it was built from.\<close>

lemma fp_size_l4_fpage: "fp_size (l4_fpage a s w g) = s AND 0x3F"
  unfolding fp_size_def l4_fpage_def L4_PAGEMASK_mask mask_6 mask_1
  by (rule bit_word_eqI) (auto simp: bit_simps)

lemma fp_page_l4_fpage: "fp_page (l4_fpage a s w g) = drop_bit 12 a"
  unfolding fp_page_def l4_fpage_def L4_PAGEMASK_mask mask_6 mask_1
  by (rule bit_word_eqI) (auto simp: bit_simps dest: bit_imp_le_length)

lemma iofp_iopage_l4_iofpage: "iofp_iopage (l4_iofpage p s g) = p AND 0xFFFF"
  unfolding iofp_iopage_def l4_iofpage_def mask_16 mask_6 mask_4 mask_1
  by (rule bit_word_eqI) (auto simp: bit_simps)

lemma iofp_iosize_l4_iofpage: "iofp_iosize (l4_iofpage p s g) = s AND 0x3F"
  unfolding iofp_iosize_def l4_iofpage_def mask_16 mask_6 mask_4 mask_1
  by (rule bit_word_eqI) (auto simp: bit_simps)

end
