(* ===== verification/RtState.thy ===== *)
theory RtState
  imports L4Sys
begin

text \<open>
  The data of the roottask server (\<open>l4/pkg/roottask/server/src\<close>): its types and
  one record that holds the global and file-static variables of its modules. Arrays
  are functions on indices; the arrays that only ever grow at their end
  (\<open>cfg_quota\<close>, \<open>cfg_bootquota\<close>, \<open>module_names\<close>) are lists of their filled
  prefix. C strings are HOL strings without the terminating zero.
\<close>

section \<open>Owners (types.h)\<close>

type_synonym owner_t = u8

definition O_MAX :: u32 where [l4_const]: "O_MAX = 255"
definition O_FREE :: owner_t where [l4_const]: "O_FREE = 0"
definition O_RESERVED :: owner_t where [l4_const]: "O_RESERVED = 1"
definition O_DEBUG :: owner_t where [l4_const]: "O_DEBUG = 2"
definition O_USER :: owner_t where [l4_const]: "O_USER = 3"

text \<open>
  Passing \<open>id.task\<close>, an 11-bit task number, where an \<open>owner_t\<close> is expected
  truncates it to 8 bits.
\<close>

definition task_owner_t :: "l4_threadid_t \<Rightarrow> owner_t" where
  "task_owner_t i = ucast (id_task i)"

lemma owner_consts_distinct [simp]:
  "O_FREE \<noteq> O_RESERVED" "O_RESERVED \<noteq> O_FREE" "\<not> O_USER \<le> O_FREE" "\<not> O_USER \<le> O_RESERVED"
  by (simp_all add: O_FREE_def O_RESERVED_def O_USER_def word_le_unat)

section \<open>Sizes (rmgr.h, proto.h, memmap.h, region.h, vm.c)\<close>

definition RMGR_TASK_MAX :: nat where [l4_const]: "RMGR_TASK_MAX = 2048"
definition RMGR_IO_MAX :: nat where [l4_const]: "RMGR_IO_MAX = 65536"
definition RMGR_SMALL_MAX :: nat where [l4_const]: "RMGR_SMALL_MAX = 128"
definition RMGR_CFG_MAX :: nat where [l4_const]: "RMGR_CFG_MAX = 128"
definition RMGR_IRQ_MAX :: nat where [l4_const]: "RMGR_IRQ_MAX = 18"
definition RMGR_IRQ_LTHREAD :: nat where [l4_const]: "RMGR_IRQ_LTHREAD = 16"
definition PAGE_MAX :: nat where [l4_const]: "PAGE_MAX = 1048576"
definition SUPERPAGE_MAX :: nat where [l4_const]: "SUPERPAGE_MAX = 1024"
definition MAX_REGION :: nat where [l4_const]: "MAX_REGION = 64"
definition MODS_MAX :: nat where [l4_const]: "MODS_MAX = 64"
definition MOD_NAME_MAX :: nat where [l4_const]: "MOD_NAME_MAX = 1024"
definition VM_MAX :: nat where [l4_const]: "VM_MAX = 32"
definition ram_base :: l4_addr_t where [l4_const]: "ram_base = 0"

section \<open>Records\<close>

text \<open>
  \<open>addr_quota_t\<close>, \<open>u16_quota_t\<close> and \<open>u8_quota_t\<close> of quota.h differ only in the
  width of their fields.
\<close>

record 'w range_quota =
  rq_low :: 'w
  rq_high :: 'w
  rq_max :: 'w
  rq_current :: 'w

type_synonym addr_quota_t = "u32 range_quota"
type_synonym u16_quota_t = "u16 range_quota"
type_synonym u8_quota_t = "u8 range_quota"

record quota_t =
  q_mem :: addr_quota_t
  q_himem :: addr_quota_t
  q_task :: u16_quota_t
  q_small :: u8_quota_t
  q_irq :: u32
  q_log_mcp :: u16
  q_allow_cli :: u16
  q_offset :: u32

record cfg_quota_t =
  cq_name :: string
  cq_taskno :: u32
  cq_quota :: quota_t

record bootquota_t =
  bq_mcp :: u8
  bq_prio :: u8
  bq_small_space :: u8
  bq_mods :: u8

record superpage_t =
  sp_free_pages :: u16
  sp_owner :: owner_t
  sp_padding :: u8

record region_t =
  r_begin :: l4_addr_t
  r_end :: l4_addr_t
  r_name :: string

record vm_t =
  vm_task :: u32
  vm_start :: l4_addr_t
  vm_end :: l4_addr_t
  vm_offset :: l4_addr_t

record last_pf_t =
  lp_pfa :: l4_umword_t
  lp_eip :: l4_umword_t

text \<open>Requests to the kernel that change its state and are not answered by a value.\<close>

datatype unmap_mode = FlushOther | FlushAll

datatype sys_event =
    Fpage_unmap l4_fpage_t unmap_mode
  | Thread_schedule l4_threadid_t u32
  | Sigma0_call u32 u32

record rt_state =
  rs_quota :: "nat \<Rightarrow> quota_t"
  rs_cfg_quota :: "cfg_quota_t list"
  rs_bootquota :: "nat \<Rightarrow> bootquota_t"
  rs_cfg_bootquota :: "(string \<times> bootquota_t) list"
  rs_memmap :: "nat \<Rightarrow> owner_t"
  rs_memmap4mb :: "nat \<Rightarrow> superpage_t"
  rs_mem_high :: l4_addr_t
  rs_mem_lower :: l4_addr_t
  rs_task :: "nat \<Rightarrow> owner_t"
  rs_irq :: "nat \<Rightarrow> owner_t"
  rs_small :: "nat \<Rightarrow> owner_t"
  rs_iomap :: "nat \<Rightarrow> owner_t"
  rs_region :: "nat \<Rightarrow> region_t"
  rs_region_size :: nat
  rs_vm :: "nat \<Rightarrow> vm_t"
  rs_vm_size :: nat
  rs_names :: "(string \<times> l4_threadid_t) list"
  rs_last_pf :: "nat \<Rightarrow> last_pf_t"
  rs_have_io :: bool
  rs_no_pentium :: bool
  rs_small_space_size :: u32
  rs_myself :: l4_threadid_t
  rs_trace :: "sys_event list"

section \<open>Page numbers\<close>

text \<open>
  The index expressions \<open>(address - ram_base)/L4_PAGESIZE\<close> and
  \<open>(address - ram_base)/L4_SUPERPAGESIZE\<close> of memmap.c.
\<close>

definition page_no :: "l4_addr_t \<Rightarrow> nat" where
  "page_no a = unat ((a - ram_base) div L4_PAGESIZE)"

definition superpage_no :: "l4_addr_t \<Rightarrow> nat" where
  "superpage_no a = unat ((a - ram_base) div L4_SUPERPAGESIZE)"

text \<open>\<open>L4_SUPERPAGESIZE/L4_PAGESIZE\<close>\<close>

definition SP_PAGES :: nat where [l4_const]: "SP_PAGES = 1024"

lemma page_no_eq: "page_no a = unat a div 4096"
  by (simp add: page_no_def ram_base_def L4_PAGESIZE_def unat_div)

lemma superpage_no_eq: "superpage_no a = unat a div 4194304"
  by (simp add: superpage_no_def ram_base_def L4_SUPERPAGESIZE_def unat_div)

lemma page_no_lt_PAGE_MAX: "page_no a < PAGE_MAX"
  using unat_lt32 [of a] unfolding page_no_eq PAGE_MAX_def by arith

text \<open>With 32-bit addresses the guard against the end of \<open>__memmap4mb\<close> never fires.\<close>

lemma superpage_no_lt_MAX: "superpage_no a < SUPERPAGE_MAX"
  using unat_lt32 [of a] unfolding superpage_no_eq SUPERPAGE_MAX_def by arith

lemma superpage_no_page_no: "superpage_no a = page_no a div 1024"
  by (simp add: superpage_no_eq page_no_eq div_mult2_eq [symmetric])

lemma page_no_trunc_superpage: "page_no (l4_trunc_superpage a) = superpage_no a * 1024"
  by (simp add: page_no_eq superpage_no_eq l4_trunc_superpage_def unat_and_SUPERPAGEMASK)

lemma superpage_no_trunc_superpage [simp]: "superpage_no (l4_trunc_superpage a) = superpage_no a"
  by (simp add: superpage_no_eq l4_trunc_superpage_def unat_and_SUPERPAGEMASK)

lemma page_in_superpage:
  "superpage_no a * 1024 \<le> page_no a" "page_no a < superpage_no a * 1024 + 1024"
  by (simp_all add: superpage_no_page_no)

section \<open>A state for the witnesses\<close>

text \<open>16 MB of free memory, nothing allocated, every task with the default quota.\<close>

definition demo_quota :: quota_t where
  "demo_quota =
     \<lparr> q_mem = \<lparr>rq_low = 0, rq_high = -1, rq_max = -1, rq_current = 0\<rparr>,
       q_himem = \<lparr>rq_low = 0, rq_high = -1, rq_max = -1, rq_current = 0\<rparr>,
       q_task = \<lparr>rq_low = 0, rq_high = 0xFFFF, rq_max = 0xFFFF, rq_current = 0\<rparr>,
       q_small = \<lparr>rq_low = 0, rq_high = 0xFF, rq_max = 0xFF, rq_current = 0\<rparr>,
       q_irq = 0x3FFFF, q_log_mcp = -1, q_allow_cli = 0, q_offset = 0 \<rparr>"

definition demo_state :: rt_state where
  "demo_state =
     \<lparr> rs_quota = (\<lambda>_. demo_quota), rs_cfg_quota = [], rs_bootquota = (\<lambda>_. \<lparr>bq_mcp = 255, bq_prio = 0x10,
         bq_small_space = 0xff, bq_mods = 0\<rparr>), rs_cfg_bootquota = [],
       rs_memmap = (\<lambda>_. O_FREE),
       rs_memmap4mb = (\<lambda>_. \<lparr>sp_free_pages = 1024, sp_owner = O_FREE, sp_padding = 0\<rparr>),
       rs_mem_high = 0x1000000, rs_mem_lower = 0, rs_task = (\<lambda>_. O_FREE), rs_irq = (\<lambda>_. O_FREE),
       rs_small = (\<lambda>_. O_FREE), rs_iomap = (\<lambda>_. O_FREE),
       rs_region = (\<lambda>_. \<lparr>r_begin = 0, r_end = 0, r_name = []\<rparr>), rs_region_size = 1,
       rs_vm = (\<lambda>_. \<lparr>vm_task = 0, vm_start = 0, vm_end = 0, vm_offset = 0\<rparr>), rs_vm_size = 0,
       rs_names = [], rs_last_pf = (\<lambda>_. \<lparr>lp_pfa = 0, lp_eip = 0\<rparr>), rs_have_io = False,
       rs_no_pentium = False, rs_small_space_size = 0, rs_myself = 0, rs_trace = [] \<rparr>"

end
