(* ===== verification/Quota.thy ===== *)
theory Quota
  imports RtState
begin

text \<open>
  Task quotas: \<open>roottask/server/src/quota.c\<close> and \<open>bootquota.c\<close>, with
  \<open>is_program_in_cmdline\<close> of \<open>misc.c\<close>. The array \<open>quota\<close> is indexed by
  \<open>owner_t\<close> values in most functions, so every such access is inside its
  \<open>RMGR_TASK_MAX\<close> elements.
\<close>

section \<open>Definitions\<close>

subsection \<open>Program names (misc.c)\<close>

text \<open>\<open>isspace\<close> of the C locale.\<close>

definition c_isspace :: "char \<Rightarrow> bool" where
  "c_isspace c \<longleftrightarrow> c \<in> {CHR '' '', CHR 0x09, CHR 0x0A, CHR 0x0B, CHR 0x0C, CHR 0x0D}"

text \<open>
  The backwards comparison: the arguments are the two prefixes that are left,
  reversed, so that the loop walks down both lists. It returns what is left of both
  when one of them is empty, or \<open>None\<close> at the first difference.
\<close>

fun cmp_backwards :: "string \<Rightarrow> string \<Rightarrow> (string \<times> string) option" where
  "cmp_backwards (c # cs) (p # ps) = (if c \<noteq> p then None else cmp_backwards cs ps)"
| "cmp_backwards cs ps = Some (cs, ps)"

definition is_program_in_cmdline :: "string \<Rightarrow> string \<Rightarrow> bool" where
  "is_program_in_cmdline module_cmdline program =
     (let w = takeWhile (\<lambda>c. \<not> c_isspace c) module_cmdline in
      case cmp_backwards (rev w) (rev program) of
        None \<Rightarrow> False
      | Some (i, j) \<Rightarrow> if j \<noteq> [] then False
                        else if i \<noteq> [] \<and> hd i \<noteq> CHR ''/'' then False
                        else True)"

subsection \<open>Range checks\<close>

text \<open>
  The three check functions have the same body over fields of three widths; the
  fields are promoted to \<open>unsigned long\<close> before they are compared.
\<close>

definition range_check :: "u32 \<Rightarrow> u32 \<Rightarrow> u32 \<Rightarrow> u32 \<Rightarrow> l4_addr_t \<Rightarrow> u32 \<Rightarrow> bool" where
  "range_check low high mx current addr amount =
     (if mx \<ge> amount \<and> current \<le> mx - amount
      then (if low \<le> addr \<and> high \<ge> addr + amount - 1 then True else False)
      else False)"

definition quota_check_addr :: "addr_quota_t \<Rightarrow> l4_addr_t \<Rightarrow> u32 \<Rightarrow> bool" where
  "quota_check_addr q = range_check (rq_low q) (rq_high q) (rq_max q) (rq_current q)"

definition quota_check_u16 :: "u16_quota_t \<Rightarrow> l4_addr_t \<Rightarrow> u32 \<Rightarrow> bool" where
  "quota_check_u16 q = range_check (ucast (rq_low q)) (ucast (rq_high q))
                         (ucast (rq_max q)) (ucast (rq_current q))"

definition quota_check_u8 :: "u8_quota_t \<Rightarrow> l4_addr_t \<Rightarrow> u32 \<Rightarrow> bool" where
  "quota_check_u8 q = range_check (ucast (rq_low q)) (ucast (rq_high q))
                        (ucast (rq_max q)) (ucast (rq_current q))"

text \<open>
  The free functions take the quota structure by value: they decrement the copy and
  return its new \<open>current\<close>.
\<close>

definition quota_free_addr :: "addr_quota_t \<Rightarrow> u32 \<Rightarrow> u32" where
  "quota_free_addr q amount = rq_current (q\<lparr>rq_current := rq_current q - amount\<rparr>)"

definition quota_free_u16 :: "u16_quota_t \<Rightarrow> u32 \<Rightarrow> u16" where
  "quota_free_u16 q amount = rq_current (q\<lparr>rq_current := rq_current q - ucast amount\<rparr>)"

definition quota_free_u8 :: "u8_quota_t \<Rightarrow> u32 \<Rightarrow> u8" where
  "quota_free_u8 q amount = rq_current (q\<lparr>rq_current := rq_current q - ucast amount\<rparr>)"

subsection \<open>Initial and default quotas\<close>

definition quota_set_default :: "quota_t \<Rightarrow> quota_t" where
  "quota_set_default q =
     \<lparr> q_mem = \<lparr>rq_low = 0, rq_high = -1, rq_max = -1, rq_current = 0\<rparr>,
       q_himem = \<lparr>rq_low = 0, rq_high = -1, rq_max = -1, rq_current = 0\<rparr>,
       q_task = \<lparr>rq_low = 0, rq_high = -1, rq_max = -1, rq_current = 0\<rparr>,
       q_small = \<lparr>rq_low = 0, rq_high = -1, rq_max = -1, rq_current = 0\<rparr>,
       q_irq = push_bit RMGR_IRQ_MAX 1 - 1,
       q_log_mcp = -1,
       q_allow_cli = 0,
       q_offset = 0 \<rparr>"

text \<open>\<open>quota_init\<close> writes every field of each element except \<open>offset\<close>.\<close>

definition quota_init :: "rt_state \<Rightarrow> rt_state" where
  "quota_init s = s\<lparr>rs_quota := (\<lambda>i. if i < RMGR_TASK_MAX
      then (quota_set_default (rs_quota s i))\<lparr>q_offset := q_offset (rs_quota s i)\<rparr>
      else rs_quota s i)\<rparr>"

definition upd_quota :: "nat \<Rightarrow> (quota_t \<Rightarrow> quota_t) \<Rightarrow> rt_state \<Rightarrow> rt_state" where
  "upd_quota i f s = s\<lparr>rs_quota := (rs_quota s)(i := f (rs_quota s i))\<rparr>"

definition quota_init_log_mcp :: "u16 \<Rightarrow> rt_state \<Rightarrow> rt_state" where
  "quota_init_log_mcp log_mcp s = s\<lparr>rs_quota := (\<lambda>i. if i < RMGR_TASK_MAX
      then (rs_quota s i)\<lparr>q_log_mcp := log_mcp\<rparr> else rs_quota s i)\<rparr>"

definition quota_set :: "u32 \<Rightarrow> quota_t \<Rightarrow> rt_state \<Rightarrow> rt_state res" where
  "quota_set i q s =
     (if unat i < RMGR_TASK_MAX then Inr (upd_quota (unat i) (\<lambda>_. q) s) else Inl OutOfBounds)"

text \<open>\<open>snprintf (buf, MOD_NAME_MAX, "%s", name)\<close> keeps \<open>MOD_NAME_MAX - 1\<close> characters.\<close>

definition cfg_quota_set :: "string \<Rightarrow> u32 \<Rightarrow> quota_t \<Rightarrow> rt_state \<Rightarrow> rt_state \<times> string option" where
  "cfg_quota_set cfg_name taskno q s =
     (if length (rs_cfg_quota s) < RMGR_CFG_MAX
      then (let n = take (MOD_NAME_MAX - 1) cfg_name
            in (s\<lparr>rs_cfg_quota := rs_cfg_quota s @ [\<lparr>cq_name = n, cq_taskno = taskno, cq_quota = q\<rparr>]\<rparr>,
                Some n))
      else (s, None))"

fun cfg_quota_find :: "string \<Rightarrow> cfg_quota_t list \<Rightarrow> cfg_quota_t option" where
  "cfg_quota_find name [] = None"
| "cfg_quota_find name (c # cs) =
     (if is_program_in_cmdline name (cq_name c) then Some c else cfg_quota_find name cs)"

definition cfg_quota_copy :: "u32 \<Rightarrow> string \<Rightarrow> rt_state \<Rightarrow> (rt_state \<times> int) res" where
  "cfg_quota_copy i name s =
     (case cfg_quota_find name (rs_cfg_quota s) of
        Some c \<Rightarrow> bind_res (quota_set i (cq_quota c) s) (\<lambda>s'. Inr (s', 0))
      | None \<Rightarrow> Inr (s, -1))"

definition cfg_quota_search_taskno :: "string \<Rightarrow> rt_state \<Rightarrow> u32" where
  "cfg_quota_search_taskno name s =
     (case cfg_quota_find name (rs_cfg_quota s) of Some c \<Rightarrow> cq_taskno c | None \<Rightarrow> 0)"

definition quota_reset :: "owner_t \<Rightarrow> rt_state \<Rightarrow> rt_state" where
  "quota_reset task = upd_quota (unat task) (\<lambda>q. q\<lparr>
      q_mem := (q_mem q)\<lparr>rq_max := 0\<rparr>,
      q_himem := (q_himem q)\<lparr>rq_max := 0\<rparr>,
      q_task := (q_task q)\<lparr>rq_max := 0\<rparr>,
      q_small := (q_small q)\<lparr>rq_max := 0\<rparr>,
      q_irq := push_bit RMGR_IRQ_MAX 1 - 1,
      q_allow_cli := 0,
      q_log_mcp := 0\<rparr>)"

subsection \<open>Checking, charging and releasing\<close>

definition quota_check_mem :: "rt_state \<Rightarrow> owner_t \<Rightarrow> l4_addr_t \<Rightarrow> u32 \<Rightarrow> bool" where
  "quota_check_mem s t addr amount =
     (if addr < rs_mem_high s then quota_check_addr (q_mem (rs_quota s (unat t))) addr amount
      else quota_check_addr (q_himem (rs_quota s (unat t))) addr amount)"

definition quota_check_allow_cli :: "rt_state \<Rightarrow> u32 \<Rightarrow> bool" where
  "quota_check_allow_cli s taskno =
     (if unat taskno \<ge> RMGR_TASK_MAX then False
      else q_allow_cli (rs_quota s (unat taskno)) \<noteq> 0)"

definition quota_alloc_mem :: "owner_t \<Rightarrow> l4_addr_t \<Rightarrow> u32 \<Rightarrow> rt_state \<Rightarrow> rt_state \<times> bool" where
  "quota_alloc_mem t addr amount s =
     (if addr < rs_mem_high s
      then (if quota_check_addr (q_mem (rs_quota s (unat t))) addr amount
            then (upd_quota (unat t) (\<lambda>q. q\<lparr>q_mem := (q_mem q)\<lparr>rq_current := rq_current (q_mem q) + amount\<rparr>\<rparr>) s, True)
            else (s, False))
      else (if quota_check_addr (q_himem (rs_quota s (unat t))) addr amount
            then (upd_quota (unat t) (\<lambda>q. q\<lparr>q_himem := (q_himem q)\<lparr>rq_current := rq_current (q_himem q) + amount\<rparr>\<rparr>) s, True)
            else (s, False)))"

definition quota_alloc_task :: "owner_t \<Rightarrow> l4_addr_t \<Rightarrow> rt_state \<Rightarrow> rt_state \<times> bool" where
  "quota_alloc_task t addr s =
     (if quota_check_u16 (q_task (rs_quota s (unat t))) addr 1
      then (upd_quota (unat t) (\<lambda>q. q\<lparr>q_task := (q_task q)\<lparr>rq_current := rq_current (q_task q) + 1\<rparr>\<rparr>) s, True)
      else (s, False))"

definition quota_alloc_small :: "owner_t \<Rightarrow> l4_addr_t \<Rightarrow> rt_state \<Rightarrow> rt_state \<times> bool" where
  "quota_alloc_small t addr s =
     (if quota_check_u8 (q_small (rs_quota s (unat t))) addr 1
      then (upd_quota (unat t) (\<lambda>q. q\<lparr>q_small := (q_small q)\<lparr>rq_current := rq_current (q_small q) + 1\<rparr>\<rparr>) s, True)
      else (s, False))"

text \<open>The shift count is an interrupt number below \<open>RMGR_IRQ_MAX\<close> wherever this is called.\<close>

definition quota_alloc_irq :: "rt_state \<Rightarrow> owner_t \<Rightarrow> u32 \<Rightarrow> bool" where
  "quota_alloc_irq s t num =
     (if q_irq (rs_quota s (unat t)) AND push_bit (unat num) 1 \<noteq> 0 then True else False)"

definition quota_free_mem :: "owner_t \<Rightarrow> l4_addr_t \<Rightarrow> u32 \<Rightarrow> rt_state \<Rightarrow> rt_state \<times> u32" where
  "quota_free_mem t addr amount s =
     (if addr < rs_mem_high s
      then (s, quota_free_addr (q_mem (rs_quota s (unat t))) amount)
      else (s, quota_free_addr (q_himem (rs_quota s (unat t))) amount))"

definition quota_free_task :: "owner_t \<Rightarrow> l4_addr_t \<Rightarrow> rt_state \<Rightarrow> rt_state \<times> u16" where
  "quota_free_task t addr s = (s, quota_free_u16 (q_task (rs_quota s (unat t))) 1)"

definition quota_free_small :: "owner_t \<Rightarrow> l4_addr_t \<Rightarrow> rt_state \<Rightarrow> rt_state \<times> u8" where
  "quota_free_small t addr s = (s, quota_free_u8 (q_small (rs_quota s (unat t))) 1)"

definition quota_free_irq :: "owner_t \<Rightarrow> l4_addr_t \<Rightarrow> rt_state \<Rightarrow> rt_state \<times> int" where
  "quota_free_irq t addr s = (s, 0)"

definition quota_add_mem :: "owner_t \<Rightarrow> u32 \<Rightarrow> rt_state \<Rightarrow> rt_state" where
  "quota_add_mem t amount =
     upd_quota (unat t) (\<lambda>q. q\<lparr>q_mem := (q_mem q)\<lparr>rq_current := rq_current (q_mem q) + amount\<rparr>\<rparr>)"

definition quota_get_log_mcp :: "rt_state \<Rightarrow> owner_t \<Rightarrow> int" where
  "quota_get_log_mcp s t = uint (q_log_mcp (rs_quota s (unat t)))"

definition quota_get_offset :: "rt_state \<Rightarrow> owner_t \<Rightarrow> u32" where
  "quota_get_offset s t = q_offset (rs_quota s (unat t))"

subsection \<open>Defaults recognised\<close>

definition quota_is_default_mem :: "quota_t \<Rightarrow> bool" where
  "quota_is_default_mem q \<longleftrightarrow>
     rq_low (q_mem q) = 0 \<and> rq_high (q_mem q) = -1 \<and> rq_max (q_mem q) = -1"

definition quota_is_default_himem :: "quota_t \<Rightarrow> bool" where
  "quota_is_default_himem q \<longleftrightarrow>
     rq_low (q_himem q) = 0 \<and> rq_high (q_himem q) = -1 \<and> rq_max (q_himem q) = -1"

definition quota_is_default_task :: "quota_t \<Rightarrow> bool" where
  "quota_is_default_task q \<longleftrightarrow>
     rq_low (q_task q) = 0 \<and> rq_high (q_task q) = -1 \<and> rq_max (q_task q) = -1"

definition quota_is_default_small :: "quota_t \<Rightarrow> bool" where
  "quota_is_default_small q \<longleftrightarrow>
     rq_low (q_small q) = 0 \<and> rq_high (q_small q) = -1 \<and> rq_max (q_small q) = -1"

definition quota_is_default_misc :: "quota_t \<Rightarrow> bool" where
  "quota_is_default_misc q \<longleftrightarrow>
     q_irq q = push_bit RMGR_IRQ_MAX 1 - 1 \<and> q_allow_cli q = 0 \<and> q_log_mcp q = -1 \<and> q_offset q = 0"

subsection \<open>Boot quotas (bootquota.c)\<close>

definition bootquota_set_default :: "bootquota_t \<Rightarrow> bootquota_t" where
  "bootquota_set_default b = \<lparr>bq_mcp = 255, bq_prio = 0x10, bq_small_space = 0xff, bq_mods = 0\<rparr>"

definition bootquota_is_default :: "bootquota_t \<Rightarrow> bool" where
  "bootquota_is_default b \<longleftrightarrow>
     bq_mcp b = 255 \<and> bq_prio b = 0x10 \<and> bq_small_space b = 0xff \<and> bq_mods b = 0"

definition bootquota_init :: "rt_state \<Rightarrow> rt_state" where
  "bootquota_init s = s\<lparr>rs_bootquota := (\<lambda>i. if i < RMGR_TASK_MAX
      then \<lparr>bq_mcp = 255, bq_prio = 0x10, bq_small_space = 0xff, bq_mods = 0\<rparr>
      else rs_bootquota s i)\<rparr>"

definition bootquota_set :: "u32 \<Rightarrow> bootquota_t \<Rightarrow> rt_state \<Rightarrow> rt_state res" where
  "bootquota_set i b s =
     (if unat i < RMGR_TASK_MAX then Inr (s\<lparr>rs_bootquota := (rs_bootquota s)(unat i := b)\<rparr>)
      else Inl OutOfBounds)"

text \<open>The merge of \<open>cfg_bootquota_set\<close>: only values that differ from the default replace.\<close>

definition bootquota_merge :: "bootquota_t \<Rightarrow> bootquota_t \<Rightarrow> bootquota_t" where
  "bootquota_merge b c =
     \<lparr> bq_mcp = (if bq_mcp b \<noteq> 255 then bq_mcp b else bq_mcp c),
       bq_prio = (if bq_prio b \<noteq> 0x10 then bq_prio b else bq_prio c),
       bq_small_space = (if bq_small_space b \<noteq> 0xff then bq_small_space b else bq_small_space c),
       bq_mods = (if bq_mods b \<noteq> 0 then bq_mods b else bq_mods c) \<rparr>"

text \<open>The loop over the filled entries: \<open>None\<close> when no entry has the name.\<close>

fun cfg_bootquota_merge ::
  "string \<Rightarrow> bootquota_t \<Rightarrow> (string \<times> bootquota_t) list \<Rightarrow> (string \<times> bootquota_t) list option" where
  "cfg_bootquota_merge cfg_name b [] = None"
| "cfg_bootquota_merge cfg_name b ((n, c) # cs) =
     (if n = cfg_name then Some ((n, bootquota_merge b c) # cs)
      else map_option ((#) (n, c)) (cfg_bootquota_merge cfg_name b cs))"

definition cfg_bootquota_set :: "string \<Rightarrow> bootquota_t \<Rightarrow> rt_state \<Rightarrow> rt_state" where
  "cfg_bootquota_set cfg_name b s =
     (case cfg_bootquota_merge cfg_name b (rs_cfg_bootquota s) of
        Some cs \<Rightarrow> s\<lparr>rs_cfg_bootquota := cs\<rparr>
      | None \<Rightarrow> if length (rs_cfg_bootquota s) < RMGR_CFG_MAX
                then s\<lparr>rs_cfg_bootquota := rs_cfg_bootquota s @ [(cfg_name, b)]\<rparr>
                else s)"

fun cfg_bootquota_find :: "string \<Rightarrow> (string \<times> bootquota_t) list \<Rightarrow> bootquota_t option" where
  "cfg_bootquota_find name [] = None"
| "cfg_bootquota_find name ((n, c) # cs) =
     (if is_program_in_cmdline name n then Some c else cfg_bootquota_find name cs)"

definition cfg_bootquota_copy :: "u32 \<Rightarrow> string \<Rightarrow> rt_state \<Rightarrow> rt_state res" where
  "cfg_bootquota_copy i name s =
     (case cfg_bootquota_find name (rs_cfg_bootquota s) of
        Some c \<Rightarrow> bootquota_set i c s
      | None \<Rightarrow> Inr s)"

section \<open>Lemmas\<close>

subsection \<open>Program names\<close>

lemma cmp_backwards_Some_iff:
  "cmp_backwards cs ps = Some (i, j) \<longleftrightarrow>
     (\<exists>m. cs = m @ i \<and> ps = m @ j \<and> (i = [] \<or> j = []))"
proof (induction cs ps arbitrary: i j rule: cmp_backwards.induct)
  case (1 c cs p ps)
  show ?case
  proof (cases "c = p")
    case True
    with 1 have IH: "cmp_backwards (c # cs) (p # ps) = Some (i, j) \<longleftrightarrow>
        (\<exists>m. cs = m @ i \<and> ps = m @ j \<and> (i = [] \<or> j = []))" by simp
    also have "\<dots> \<longleftrightarrow> (\<exists>m. c # cs = m @ i \<and> p # ps = m @ j \<and> (i = [] \<or> j = []))"
      using True by (auto simp: Cons_eq_append_conv)
    finally show ?thesis .
  next
    case False
    then show ?thesis by (auto simp: Cons_eq_append_conv)
  qed
qed auto

lemma cmp_backwards_None_iff:
  "cmp_backwards cs ps = None \<longleftrightarrow> (\<nexists>m i j. cs = m @ i \<and> ps = m @ j \<and> (i = [] \<or> j = []))"
proof -
  have "cmp_backwards cs ps = None \<longleftrightarrow> (\<nexists>i j. cmp_backwards cs ps = Some (i, j))"
    by (cases "cmp_backwards cs ps") auto
  then show ?thesis unfolding cmp_backwards_Some_iff by blast
qed

subsection \<open>Range checks\<close>

text \<open>Without wrap-around of the sum \<open>addr + amount\<close>, the check is the natural-number one.\<close>

lemma range_check_unat:
  assumes "amount \<noteq> 0" "unat addr + unat amount \<le> 2 ^ 32"
  shows "range_check low high mx current addr amount \<longleftrightarrow>
     unat current + unat amount \<le> unat mx \<and> unat low \<le> unat addr
     \<and> unat addr + unat amount \<le> unat high + 1"
proof -
  have a: "unat (addr + amount - 1) = unat addr + unat amount - 1"
  proof -
    have "0 < unat amount" using assms by (simp add: unat_gt_0)
    moreover have "unat (addr + (amount - 1)) = unat addr + unat (amount - 1)"
      using assms calculation by (intro unat_add_lt) auto
    ultimately show ?thesis using assms by (simp add: add_diff_eq)
  qed
  have b: "mx \<ge> amount \<and> current \<le> mx - amount \<longleftrightarrow> unat current + unat amount \<le> unat mx"
    by (auto simp: word_le_unat unat_sub_le)
  have "0 < unat amount" using assms by (simp add: unat_gt_0)
  then show ?thesis
    unfolding range_check_def b by (auto simp: word_le_unat a)
qed

lemma range_check_current:
  "range_check low high mx current addr amount \<Longrightarrow> unat current + unat amount \<le> unat mx"
  by (auto simp: range_check_def word_le_unat unat_sub_le split: if_splits)

text \<open>A check over promoted narrow fields bounds the sum in the narrow width.\<close>

lemma range_check_u16_current:
  "quota_check_u16 q addr 1 \<Longrightarrow> Suc (unat (rq_current q)) \<le> unat (rq_max q)"
  by (auto simp: quota_check_u16_def dest!: range_check_current)

lemma range_check_u8_current:
  "quota_check_u8 q addr 1 \<Longrightarrow> Suc (unat (rq_current q)) \<le> unat (rq_max q)"
  by (auto simp: quota_check_u8_def dest!: range_check_current)

subsection \<open>The quota invariant\<close>

definition quota_within :: "quota_t \<Rightarrow> bool" where
  "quota_within q \<longleftrightarrow>
     rq_current (q_mem q) \<le> rq_max (q_mem q) \<and> rq_current (q_himem q) \<le> rq_max (q_himem q)
     \<and> rq_current (q_task q) \<le> rq_max (q_task q) \<and> rq_current (q_small q) \<le> rq_max (q_small q)"

definition quota_inv :: "rt_state \<Rightarrow> bool" where
  "quota_inv s \<longleftrightarrow> (\<forall>t < RMGR_TASK_MAX. quota_within (rs_quota s t))"

lemma upd_quota_simps [simp, rt_simps]:
  "rs_quota (upd_quota i f s) = (rs_quota s)(i := f (rs_quota s i))"
  "rs_memmap (upd_quota i f s) = rs_memmap s"
  "rs_memmap4mb (upd_quota i f s) = rs_memmap4mb s"
  "rs_mem_high (upd_quota i f s) = rs_mem_high s"
  "rs_task (upd_quota i f s) = rs_task s"
  "rs_irq (upd_quota i f s) = rs_irq s"
  "rs_small (upd_quota i f s) = rs_small s"
  "rs_iomap (upd_quota i f s) = rs_iomap s"
  by (simp_all add: upd_quota_def)

lemma quota_alloc_frame [rt_simps]:
  "rs_memmap (fst (quota_alloc_mem t a n s)) = rs_memmap s"
  "rs_memmap4mb (fst (quota_alloc_mem t a n s)) = rs_memmap4mb s"
  "rs_mem_high (fst (quota_alloc_mem t a n s)) = rs_mem_high s"
  "rs_task (fst (quota_alloc_task t a s)) = rs_task s"
  "rs_small (fst (quota_alloc_small t a s)) = rs_small s"
  by (simp_all add: quota_alloc_mem_def quota_alloc_task_def quota_alloc_small_def)

lemma quota_free_frame [simp, rt_simps]:
  "fst (quota_free_mem t a n s) = s" "fst (quota_free_task t a s) = s"
  "fst (quota_free_small t a s) = s" "fst (quota_free_irq t a s) = s"
  by (simp_all add: quota_free_mem_def quota_free_task_def quota_free_small_def quota_free_irq_def)

lemma quota_add_mem_frame [simp, rt_simps]:
  "rs_memmap (quota_add_mem t n s) = rs_memmap s"
  "rs_memmap4mb (quota_add_mem t n s) = rs_memmap4mb s"
  "rs_mem_high (quota_add_mem t n s) = rs_mem_high s"
  by (simp_all add: quota_add_mem_def)

text \<open>A charge changes nothing but the quota array, and a refused one nothing at all.\<close>

lemma quota_alloc_mem_cases:
  assumes "quota_alloc_mem t a n s = (s', r)"
  obtains q where "s' = s\<lparr>rs_quota := q\<rparr>" "r \<Longrightarrow> quota_check_mem s t a n" "\<not> r \<Longrightarrow> s' = s"
    "r = quota_check_mem s t a n"
proof -
  have "s' = s\<lparr>rs_quota := rs_quota s'\<rparr> \<and> (\<not> r \<longrightarrow> s' = s) \<and> r = quota_check_mem s t a n"
    using assms by (auto simp: quota_alloc_mem_def upd_quota_def quota_check_mem_def split: if_splits)
  then show ?thesis using that by blast
qed

lemma quota_inv_upd:
  "quota_inv s \<Longrightarrow> (quota_within (rs_quota s i) \<Longrightarrow> quota_within (f (rs_quota s i))) \<Longrightarrow>
   quota_inv (upd_quota i f s)"
  by (auto simp: quota_inv_def)

lemma quota_alloc_mem_inv: "quota_inv s \<Longrightarrow> quota_inv (fst (quota_alloc_mem t a n s))"
  by (auto simp: quota_alloc_mem_def quota_within_def quota_check_addr_def
      intro!: quota_inv_upd add_within dest: range_check_current)

lemma quota_alloc_task_inv:
  assumes "quota_inv s"
  shows "quota_inv (fst (quota_alloc_task t a s))"
proof (cases "quota_check_u16 (q_task (rs_quota s (unat t))) a 1")
  case True
  then have "rq_current (q_task (rs_quota s (unat t))) + 1 \<le> rq_max (q_task (rs_quota s (unat t)))"
    by (intro add_within) (use range_check_u16_current in fastforce)
  with True assms show ?thesis
    by (auto simp: quota_alloc_task_def quota_within_def intro!: quota_inv_upd)
next
  case False
  with assms show ?thesis by (simp add: quota_alloc_task_def)
qed

lemma quota_alloc_small_inv:
  assumes "quota_inv s"
  shows "quota_inv (fst (quota_alloc_small t a s))"
proof (cases "quota_check_u8 (q_small (rs_quota s (unat t))) a 1")
  case True
  then have "rq_current (q_small (rs_quota s (unat t))) + 1 \<le> rq_max (q_small (rs_quota s (unat t)))"
    by (intro add_within) (use range_check_u8_current in fastforce)
  with True assms show ?thesis
    by (auto simp: quota_alloc_small_def quota_within_def intro!: quota_inv_upd)
next
  case False
  with assms show ?thesis by (simp add: quota_alloc_small_def)
qed

lemma quota_init_inv: "quota_inv (quota_init s)"
  by (simp add: quota_inv_def quota_init_def quota_within_def quota_set_default_def)

lemma demo_quota_inv: "quota_inv demo_state"
  by (simp add: quota_inv_def quota_within_def demo_state_def demo_quota_def)

text \<open>\<open>quota_set_default\<close> is recognised by the predicates that test for it.\<close>

lemma quota_set_default_is_default:
  "quota_is_default_mem (quota_set_default q)" "quota_is_default_himem (quota_set_default q)"
  "quota_is_default_task (quota_set_default q)" "quota_is_default_small (quota_set_default q)"
  "quota_is_default_misc (quota_set_default q)"
  by (simp_all add: quota_is_default_mem_def quota_is_default_himem_def quota_is_default_task_def
      quota_is_default_small_def quota_is_default_misc_def quota_set_default_def)

subsection \<open>Boot quotas\<close>

lemma bootquota_merge_default: "bootquota_is_default b \<Longrightarrow> bootquota_merge b c = c"
  by (simp add: bootquota_is_default_def bootquota_merge_def)

lemma cfg_bootquota_merge_None_iff:
  "cfg_bootquota_merge n b cs = None \<longleftrightarrow> n \<notin> fst ` set cs"
  by (induction n b cs rule: cfg_bootquota_merge.induct) auto

lemma cfg_bootquota_merge_Some:
  "cfg_bootquota_merge n b cs = Some cs' \<Longrightarrow>
     map fst cs' = map fst cs \<and> map_of cs' n = map_option (bootquota_merge b) (map_of cs n)
     \<and> (\<forall>m. m \<noteq> n \<longrightarrow> map_of cs' m = map_of cs m)"
  by (induction n b cs arbitrary: cs' rule: cfg_bootquota_merge.induct) (auto split: if_splits)

end
