(* ===== verification/Memmap.thy ===== *)
theory Memmap
  imports Quota
begin

text \<open>
  Physical memory of the roottask: \<open>roottask/server/src/memmap.c\<close>. The array
  \<open>__memmap\<close> holds an owner per 4 KB page, \<open>__memmap4mb\<close> an owner and a count of
  free pages per 4 MB superpage. A superpage with owner \<open>O_RESERVED\<close> is shared: its
  pages are looked up one by one. The functions return 0 or 1, here \<open>False\<close> or
  \<open>True\<close>, together with the new state.
\<close>

section \<open>Definitions\<close>

definition upd_superpage :: "nat \<Rightarrow> (superpage_t \<Rightarrow> superpage_t) \<Rightarrow> rt_state \<Rightarrow> rt_state" where
  "upd_superpage k f s = s\<lparr>rs_memmap4mb := (rs_memmap4mb s)(k := f (rs_memmap4mb s k))\<rparr>"

definition upd_page :: "nat \<Rightarrow> owner_t \<Rightarrow> rt_state \<Rightarrow> rt_state" where
  "upd_page p ow s = s\<lparr>rs_memmap := (rs_memmap s)(p := ow)\<rparr>"

definition memmap_init :: "rt_state \<Rightarrow> rt_state" where
  "memmap_init s = s\<lparr>rs_memmap := memset_arr (rs_memmap s) 0 O_RESERVED PAGE_MAX,
     rs_memmap4mb := memset_arr (rs_memmap4mb s) 0
       \<lparr>sp_free_pages = 0, sp_owner = O_RESERVED, sp_padding = 0\<rparr> SUPERPAGE_MAX\<rparr>"

text \<open>\<open>memmap_set\<close> has no bounds check: a range past the array is a fault.\<close>

definition memmap_set :: "u32 \<Rightarrow> owner_t \<Rightarrow> u32 \<Rightarrow> rt_state \<Rightarrow> rt_state res" where
  "memmap_set start st n s =
     (if n = 0 then Inr s
      else if unat start + unat n \<le> PAGE_MAX
      then Inr (s\<lparr>rs_memmap := memset_arr (rs_memmap s) (unat start) st (unat n)\<rparr>)
      else Inl OutOfBounds)"

definition memmap_set_range :: "l4_addr_t \<Rightarrow> l4_addr_t \<Rightarrow> owner_t \<Rightarrow> rt_state \<Rightarrow> rt_state res" where
  "memmap_set_range start en ow =
     memmap_set ((start - ram_base) div L4_PAGESIZE) ow
       (l4_round_page (en - l4_trunc_page start) div L4_PAGESIZE)"

definition memmap_set_page :: "l4_addr_t \<Rightarrow> owner_t \<Rightarrow> rt_state \<Rightarrow> rt_state \<times> bool" where
  "memmap_set_page address ow s =
     (let m = page_no address; k = superpage_no address; sp = rs_memmap4mb s k in
      if k \<ge> SUPERPAGE_MAX then (s, False)
      else if address - ram_base \<ge> rs_mem_high s then (s, False)
      else if rs_memmap s m = ow then (s, True)
      else if sp_owner sp \<noteq> O_FREE \<and> sp_owner sp \<noteq> O_RESERVED then (s, False)
      else
        (let s1 = (if sp_owner sp = O_FREE
                   then upd_superpage k (\<lambda>x. x\<lparr>sp_owner := O_RESERVED\<rparr>) s else s);
             s2 = upd_superpage k (\<lambda>x. x\<lparr>sp_free_pages := sp_free_pages x - 1\<rparr>) s1
         in (upd_page m ow s2, True)))"

definition memmap_free_page :: "l4_addr_t \<Rightarrow> owner_t \<Rightarrow> rt_state \<Rightarrow> rt_state \<times> bool" where
  "memmap_free_page address ow s =
     (let m = page_no address; k = superpage_no address; sp = rs_memmap4mb s k in
      if k \<ge> SUPERPAGE_MAX then (s, False)
      else if sp_owner sp = O_FREE then (s, True)
      else if sp_owner sp \<noteq> O_RESERVED then (s, False)
      else if address - ram_base \<ge> rs_mem_high s then (s, False)
      else if rs_memmap s m = O_FREE then (s, True)
      else if rs_memmap s m \<noteq> ow then (s, False)
      else
        (let s1 = (if ow \<ge> O_USER then fst (quota_free_mem ow address L4_PAGESIZE s) else s);
             s2 = upd_page m O_FREE s1;
             s3 = upd_superpage k (\<lambda>x. x\<lparr>sp_free_pages := sp_free_pages x + 1\<rparr>) s2;
             n = sp_free_pages (rs_memmap4mb s3 k)
         in if n = of_nat SP_PAGES then (upd_superpage k (\<lambda>x. x\<lparr>sp_owner := O_FREE\<rparr>) s3, True)
            else if n = 1 then (upd_superpage k (\<lambda>x. x\<lparr>sp_owner := O_RESERVED\<rparr>) s3, True)
            else (s3, True)))"

definition memmap_alloc_page :: "l4_addr_t \<Rightarrow> owner_t \<Rightarrow> rt_state \<Rightarrow> rt_state \<times> bool" where
  "memmap_alloc_page address ow s =
     (let m = page_no address; k = superpage_no address; sp = rs_memmap4mb s k in
      if k \<ge> SUPERPAGE_MAX then (s, False)
      else if address - ram_base \<ge> rs_mem_high s then (s, False)
      else if rs_memmap s m = ow \<or> sp_owner sp = ow then (s, True)
      else if rs_memmap s m \<noteq> O_FREE then (s, False)
      else if sp_owner sp \<noteq> O_FREE \<and> sp_owner sp \<noteq> O_RESERVED then (s, False)
      else
        (let s1 = (if sp_owner sp = O_FREE
                   then upd_superpage k (\<lambda>x. x\<lparr>sp_owner := O_RESERVED\<rparr>) s else s);
             (s2, granted) = (if ow \<ge> O_USER then quota_alloc_mem ow address L4_PAGESIZE s1 else (s1, True))
         in if \<not> granted then (s2, False)
            else
              (let s3 = upd_page m ow
                          (upd_superpage k (\<lambda>x. x\<lparr>sp_free_pages := sp_free_pages x - 1\<rparr>) s2);
                   sm = page_no (l4_trunc_superpage address)
               in if sp_free_pages (rs_memmap4mb s3 k) = 0
                  then (if \<not> all_from (\<lambda>p. rs_memmap s3 p = ow) sm SP_PAGES then (s3, True)
                        else (upd_superpage k (\<lambda>x. x\<lparr>sp_owner := ow\<rparr>) s3, True))
                  else (s3, True))))"

definition memmap_owner_page :: "rt_state \<Rightarrow> l4_addr_t \<Rightarrow> owner_t" where
  "memmap_owner_page s address =
     (let k = superpage_no address; sp = rs_memmap4mb s k in
      if k \<ge> SUPERPAGE_MAX then O_RESERVED
      else if address - ram_base \<ge> rs_mem_high s then O_RESERVED
      else if sp_owner sp = O_RESERVED then rs_memmap s (page_no address) else sp_owner sp)"

definition memmap_free_superpage :: "l4_addr_t \<Rightarrow> owner_t \<Rightarrow> rt_state \<Rightarrow> rt_state \<times> bool" where
  "memmap_free_superpage address ow s =
     (let k = superpage_no address; sp = rs_memmap4mb s k in
      if k \<ge> SUPERPAGE_MAX then (s, False)
      else if sp_owner sp = O_FREE then (s, True)
      else if sp_owner sp \<noteq> ow then (s, False)
      else
        (let s1 = (if ow \<ge> O_USER then fst (quota_free_mem ow address L4_SUPERPAGESIZE s) else s)
         in (upd_superpage k (\<lambda>x. x\<lparr>sp_owner := O_FREE, sp_free_pages := of_nat SP_PAGES\<rparr>) s1, True)))"

text \<open>
  The scan of \<open>memmap_alloc_superpage\<close> over the pages of a shared superpage: \<open>None\<close>
  if a page belongs to someone else, otherwise the bytes the owner already has.
\<close>

fun superpage_scan :: "(nat \<Rightarrow> owner_t) \<Rightarrow> owner_t \<Rightarrow> nat \<Rightarrow> nat \<Rightarrow> u32 \<Rightarrow> u32 option" where
  "superpage_scan m ow p 0 already_have = Some already_have"
| "superpage_scan m ow p (Suc n) already_have =
     (if \<not> (m p = O_FREE \<or> m p = ow) then None
      else superpage_scan m ow (Suc p) n
             (if m p = ow then already_have + L4_PAGESIZE else already_have))"

text \<open>The quota exchange for the pages the owner already has (only for user tasks).\<close>

definition superpage_charge :: "l4_addr_t \<Rightarrow> owner_t \<Rightarrow> u32 \<Rightarrow> rt_state \<Rightarrow> rt_state \<times> bool" where
  "superpage_charge address ow already_have s =
     (if ow \<ge> O_USER
      then (let s1 = (if already_have \<noteq> 0 then fst (quota_free_mem ow address already_have s) else s);
                (s2, granted) = quota_alloc_mem ow address L4_SUPERPAGESIZE s1
            in if \<not> granted
               then (if already_have \<noteq> 0 then quota_add_mem ow already_have s2 else s2, False)
               else (s2, True))
      else (s, True))"

definition memmap_alloc_superpage :: "l4_addr_t \<Rightarrow> owner_t \<Rightarrow> rt_state \<Rightarrow> rt_state \<times> bool" where
  "memmap_alloc_superpage address ow s =
     (let k = superpage_no address; sp = rs_memmap4mb s k in
      if k \<ge> SUPERPAGE_MAX then (s, False)
      else if sp_owner sp = ow then (s, True)
      else if sp_owner sp \<noteq> O_FREE
      then (if sp_owner sp \<noteq> O_RESERVED then (s, False)
            else
              (let address' = address AND L4_SUPERPAGEMASK; sm = page_no address' in
               if address' - ram_base \<ge> rs_mem_high s then (s, False)
               else (case superpage_scan (rs_memmap s) ow sm SP_PAGES 0 of
                       None \<Rightarrow> (s, False)
                     | Some already_have \<Rightarrow>
                         (case superpage_charge address' ow already_have s of
                            (s1, granted) \<Rightarrow>
                              if \<not> granted then (s1, False)
                              else (let s2 = s1\<lparr>rs_memmap := memset_arr (rs_memmap s1) sm O_FREE SP_PAGES\<rparr>
                                    in (upd_superpage k (\<lambda>x. x\<lparr>sp_owner := ow\<rparr>) s2, True))))))
      else
        (let (s1, granted) = (if ow \<ge> O_USER
                              then quota_alloc_mem ow (address AND L4_SUPERPAGEMASK) L4_SUPERPAGESIZE s
                              else (s, True))
         in if \<not> granted then (s1, False)
            else (upd_superpage k (\<lambda>x. x\<lparr>sp_owner := ow\<rparr>) s1, True)))"

definition memmap_owner_superpage :: "rt_state \<Rightarrow> l4_addr_t \<Rightarrow> owner_t" where
  "memmap_owner_superpage s address =
     (let k = superpage_no address in
      if k \<ge> SUPERPAGE_MAX then O_RESERVED else sp_owner (rs_memmap4mb s k))"

definition memmap_nrfree_superpage :: "rt_state \<Rightarrow> l4_addr_t \<Rightarrow> u32" where
  "memmap_nrfree_superpage s address =
     (let k = superpage_no address; sp = rs_memmap4mb s k in
      if k \<ge> SUPERPAGE_MAX then 0
      else if sp_owner sp = O_FREE \<or> sp_owner sp = O_RESERVED then ucast (sp_free_pages sp)
      else 0)"

section \<open>The representation invariant\<close>

text \<open>
  \<open>sp_ok sp m k\<close>: superpage \<open>k\<close> with descriptor \<open>sp\<close> agrees with the page array
  \<open>m\<close>. A free superpage has only free pages and counts all of them; a shared one
  counts its free pages; one with an owner either was taken as a whole (its pages are
  marked free) or was promoted because its last page was taken (all its pages are
  marked with the owner).
\<close>

definition sp_ok :: "superpage_t \<Rightarrow> (nat \<Rightarrow> owner_t) \<Rightarrow> nat \<Rightarrow> bool" where
  "sp_ok sp m k \<longleftrightarrow>
     (if sp_owner sp = O_FREE
      then sp_free_pages sp = 1024 \<and> (\<forall>p. k * 1024 \<le> p \<and> p < k * 1024 + 1024 \<longrightarrow> m p = O_FREE)
      else if sp_owner sp = O_RESERVED
      then unat (sp_free_pages sp) = count_in (\<lambda>p. m p = O_FREE) (k * 1024) 1024
      else (\<forall>p. k * 1024 \<le> p \<and> p < k * 1024 + 1024 \<longrightarrow> m p = O_FREE)
         \<or> (\<forall>p. k * 1024 \<le> p \<and> p < k * 1024 + 1024 \<longrightarrow> m p = sp_owner sp))"

definition mm_inv :: "rt_state \<Rightarrow> bool" where
  "mm_inv s \<longleftrightarrow> (\<forall>k < SUPERPAGE_MAX. sp_ok (rs_memmap4mb s k) (rs_memmap s) k)"

text \<open>The abstract view: one owner per page.\<close>

definition page_owner :: "rt_state \<Rightarrow> nat \<Rightarrow> owner_t" where
  "page_owner s p =
     (let sp = rs_memmap4mb s (p div 1024)
      in if sp_owner sp = O_RESERVED then rs_memmap s p else sp_owner sp)"

lemma SP_PAGES_word [simp]: "of_nat SP_PAGES = (1024 :: u16)"
  by (simp add: SP_PAGES_def)

lemma memmap_owner_page_eq:
  "memmap_owner_page s a = (if a < rs_mem_high s then page_owner s (page_no a) else O_RESERVED)"
  using superpage_no_lt_MAX [of a]
  by (auto simp: memmap_owner_page_def page_owner_def Let_def ram_base_def superpage_no_page_no)

subsection \<open>Descriptors\<close>

lemma sp_ok_cong:
  "(\<And>p. k * 1024 \<le> p \<Longrightarrow> p < k * 1024 + 1024 \<Longrightarrow> m p = m' p) \<Longrightarrow> sp_ok sp m k = sp_ok sp m' k"
  using count_in_cong [of "k * 1024" 1024 "\<lambda>p. m p = O_FREE" "\<lambda>p. m' p = O_FREE"]
  by (auto simp: sp_ok_def)

lemma sp_ok_upd_other: "p div 1024 \<noteq> k \<Longrightarrow> sp_ok sp (m(p := ow)) k = sp_ok sp m k"
  by (rule sp_ok_cong) auto

lemma sp_update_order:
  "sp\<lparr>sp_owner := ow, sp_free_pages := n\<rparr> = sp\<lparr>sp_free_pages := n, sp_owner := ow\<rparr>"
  by (cases sp) simp

lemma sp_ok_reserve:
  assumes "sp_ok sp m k" "sp_owner sp \<in> {O_FREE, O_RESERVED}"
  shows "sp_ok (sp\<lparr>sp_owner := O_RESERVED\<rparr>) m k"
  using assms count_in_full_iff [of "\<lambda>p. m p = O_FREE" "k * 1024" 1024]
  by (auto simp: sp_ok_def)

lemma sp_ok_take:
  assumes "sp_ok sp m k" "sp_owner sp = O_RESERVED" "k * 1024 \<le> p" "p < k * 1024 + 1024"
    and "m p = O_FREE" "ow \<noteq> O_FREE"
  shows "sp_ok (sp\<lparr>sp_free_pages := sp_free_pages sp - 1\<rparr>) (m(p := ow)) k"
    and "sp_free_pages sp \<noteq> 0"
proof -
  have c: "unat (sp_free_pages sp) = Suc (count_in (\<lambda>q. (m(p := ow)) q = O_FREE) (k * 1024) 1024)"
    using assms count_in_upd_false [of "k * 1024" p 1024 "\<lambda>q. m q = O_FREE" "\<lambda>q. (m(p := ow)) q = O_FREE"]
    by (simp add: sp_ok_def)
  then show nz: "sp_free_pages sp \<noteq> 0" by auto
  from c nz assms(2) show "sp_ok (sp\<lparr>sp_free_pages := sp_free_pages sp - 1\<rparr>) (m(p := ow)) k"
    by (simp add: sp_ok_def)
qed

lemma sp_ok_promote:
  assumes "sp_ok sp m k" "sp_owner sp = O_RESERVED" "ow \<noteq> O_FREE"
    and "\<And>p. k * 1024 \<le> p \<Longrightarrow> p < k * 1024 + 1024 \<Longrightarrow> m p = ow"
  shows "sp_ok (sp\<lparr>sp_owner := ow\<rparr>) m k"
  using assms by (simp add: sp_ok_def)

lemma sp_ok_release:
  assumes "sp_ok sp m k" "sp_owner sp = O_RESERVED" "k * 1024 \<le> p" "p < k * 1024 + 1024"
    and "m p \<noteq> O_FREE"
  shows "sp_ok (sp\<lparr>sp_free_pages := sp_free_pages sp + 1\<rparr>) (m(p := O_FREE)) k"
proof -
  have c: "count_in (\<lambda>q. (m(p := O_FREE)) q = O_FREE) (k * 1024) 1024 = Suc (unat (sp_free_pages sp))"
    using assms count_in_upd_false [of "k * 1024" p 1024 "\<lambda>q. (m(p := O_FREE)) q = O_FREE" "\<lambda>q. m q = O_FREE"]
    by (simp add: sp_ok_def)
  moreover from c have "unat (sp_free_pages sp + 1) = unat (sp_free_pages sp) + 1"
    using count_in_le [of "\<lambda>q. (m(p := O_FREE)) q = O_FREE" "k * 1024" 1024]
    by (subst unat_add_lt) auto
  ultimately show ?thesis using assms(2) by (simp add: sp_ok_def)
qed

lemma sp_ok_all_free:
  assumes "sp_ok sp m k" "sp_owner sp = O_RESERVED" "sp_free_pages sp = 1024"
  shows "sp_ok (sp\<lparr>sp_owner := O_FREE\<rparr>) m k"
  using assms count_in_full_iff [of "\<lambda>p. m p = O_FREE" "k * 1024" 1024]
  by (simp add: sp_ok_def)

lemma sp_ok_whole:
  assumes "\<And>p. k * 1024 \<le> p \<Longrightarrow> p < k * 1024 + 1024 \<Longrightarrow> m p = O_FREE"
    and "ow = O_FREE \<or> ow = O_RESERVED \<Longrightarrow> sp_free_pages sp = 1024"
  shows "sp_ok (sp\<lparr>sp_owner := ow\<rparr>) m k"
  using assms count_in_full_iff [of "\<lambda>p. m p = O_FREE" "k * 1024" 1024]
  by (auto simp: sp_ok_def)

lemma superpage_scan_Some_iff:
  "(\<exists>n. superpage_scan m ow p j h = Some n) \<longleftrightarrow>
     (\<forall>q. p \<le> q \<and> q < p + j \<longrightarrow> m q = O_FREE \<or> m q = ow)"
proof -
  have "(\<exists>n. superpage_scan m ow p j h = Some n) = all_from (\<lambda>q. m q = O_FREE \<or> m q = ow) p j"
    by (induction m ow p j h rule: superpage_scan.induct) auto
  then show ?thesis by (simp add: all_from_iff)
qed

lemma superpage_scan_SomeD:
  "superpage_scan m ow p j h = Some n \<Longrightarrow> p \<le> q \<Longrightarrow> q < p + j \<Longrightarrow> m q = O_FREE \<or> m q = ow"
  using superpage_scan_Some_iff [of m ow p j h] by blast

section \<open>What the operations change\<close>

lemma upd_superpage_simps [simp, rt_simps]:
  "rs_memmap (upd_superpage k f s) = rs_memmap s"
  "rs_memmap4mb (upd_superpage k f s) = (rs_memmap4mb s)(k := f (rs_memmap4mb s k))"
  "rs_mem_high (upd_superpage k f s) = rs_mem_high s"
  "rs_quota (upd_superpage k f s) = rs_quota s"
  by (simp_all add: upd_superpage_def)

lemma upd_page_simps [simp, rt_simps]:
  "rs_memmap (upd_page p ow s) = (rs_memmap s)(p := ow)"
  "rs_memmap4mb (upd_page p ow s) = rs_memmap4mb s"
  "rs_mem_high (upd_page p ow s) = rs_mem_high s"
  "rs_quota (upd_page p ow s) = rs_quota s"
  by (simp_all add: upd_page_def)

text \<open>
  The outcomes of an allocation of one page: nothing happens; the quota refuses and
  the free superpage is left marked as shared; or the page is taken.
\<close>

lemma memmap_alloc_page_cases [consumes 1, case_names noop denied taken]:
  assumes "memmap_alloc_page a ow s = (s', r)"
  obtains
    (noop) "s' = s"
      "r \<Longrightarrow> a < rs_mem_high s \<and> (rs_memmap s (page_no a) = ow \<or> sp_owner (rs_memmap4mb s (superpage_no a)) = ow)"
  | (denied) "\<not> r" "sp_owner (rs_memmap4mb s (superpage_no a)) = O_FREE"
      "s' = upd_superpage (superpage_no a) (\<lambda>x. x\<lparr>sp_owner := O_RESERVED\<rparr>) s"
  | (taken) sp where "r" "a < rs_mem_high s" "rs_memmap s (page_no a) = O_FREE" "ow \<noteq> O_FREE"
      "sp_owner (rs_memmap4mb s (superpage_no a)) \<in> {O_FREE, O_RESERVED}"
      "sp = (rs_memmap4mb s (superpage_no a))\<lparr>
               sp_free_pages := sp_free_pages (rs_memmap4mb s (superpage_no a)) - 1, sp_owner := O_RESERVED\<rparr>
       \<or> sp = (rs_memmap4mb s (superpage_no a))\<lparr>
               sp_free_pages := sp_free_pages (rs_memmap4mb s (superpage_no a)) - 1, sp_owner := ow\<rparr>
         \<and> (\<forall>p. superpage_no a * 1024 \<le> p \<and> p < superpage_no a * 1024 + 1024 \<longrightarrow>
               ((rs_memmap s)(page_no a := ow)) p = ow)"
      "rs_memmap s' = (rs_memmap s)(page_no a := ow)"
      "rs_memmap4mb s' = (rs_memmap4mb s)(superpage_no a := sp)" "rs_mem_high s' = rs_mem_high s"
proof -
  define sp where "sp = rs_memmap4mb s (superpage_no a)"
  define s1 where "s1 = (if sp_owner sp = O_FREE
    then upd_superpage (superpage_no a) (\<lambda>x. x\<lparr>sp_owner := O_RESERVED\<rparr>) s else s)"
  obtain s2 g where g: "(if ow \<ge> O_USER then quota_alloc_mem ow a L4_PAGESIZE s1 else (s1, True)) = (s2, g)"
    by (cases "if ow \<ge> O_USER then quota_alloc_mem ow a L4_PAGESIZE s1 else (s1, True)")
  have kmax: "\<not> SUPERPAGE_MAX \<le> superpage_no a" using superpage_no_lt_MAX [of a] by simp
  from g have ng: "\<not> g \<Longrightarrow> s2 = s1" and s2: "rs_memmap s2 = rs_memmap s1"
      "rs_memmap4mb s2 = rs_memmap4mb s1" "rs_mem_high s2 = rs_mem_high s1"
    by (auto split: if_splits elim: quota_alloc_mem_cases)
  consider "rs_mem_high s \<le> a" | "a < rs_mem_high s" "rs_memmap s (page_no a) = ow \<or> sp_owner sp = ow"
    | "a < rs_mem_high s" "rs_memmap s (page_no a) \<noteq> O_FREE" "rs_memmap s (page_no a) \<noteq> ow" "sp_owner sp \<noteq> ow"
    | "a < rs_mem_high s" "rs_memmap s (page_no a) = O_FREE" "ow \<noteq> O_FREE" "sp_owner sp \<noteq> ow" by fastforce
  then show thesis
  proof cases
    case 4
    note c = 4
    show thesis
    proof (cases "sp_owner sp \<in> {O_FREE, O_RESERVED} \<and> g")
      case True
      with assms c kmax g have e: "r" "rs_memmap s' = (rs_memmap s2)(page_no a := ow)"
        "rs_mem_high s' = rs_mem_high s2"
        "rs_memmap4mb s' = (rs_memmap4mb s2)(superpage_no a := rs_memmap4mb s' (superpage_no a))"
        "rs_memmap4mb s' (superpage_no a) = (rs_memmap4mb s2 (superpage_no a))\<lparr>
            sp_free_pages := sp_free_pages (rs_memmap4mb s2 (superpage_no a)) - 1\<rparr> \<or>
         rs_memmap4mb s' (superpage_no a) = (rs_memmap4mb s2 (superpage_no a))\<lparr>
            sp_free_pages := sp_free_pages (rs_memmap4mb s2 (superpage_no a)) - 1, sp_owner := ow\<rparr>
         \<and> (\<forall>p. superpage_no a * 1024 \<le> p \<and> p < superpage_no a * 1024 + 1024 \<longrightarrow>
               ((rs_memmap s2)(page_no a := ow)) p = ow)"
        by (auto simp: memmap_alloc_page_def Let_def sp_def [symmetric] s1_def [symmetric] ram_base_def
            all_from_iff page_no_trunc_superpage SP_PAGES_def split: if_splits)
      have "rs_memmap s1 = rs_memmap s" "rs_mem_high s1 = rs_mem_high s"
        "rs_memmap4mb s1 = (rs_memmap4mb s)(superpage_no a := sp\<lparr>sp_owner := O_RESERVED\<rparr>)"
        using True by (auto simp: s1_def sp_def)
      with True c e show thesis
        by (intro taken [of "rs_memmap4mb s' (superpage_no a)"]) (auto simp: s2 sp_def [symmetric])
    next
      case False
      then show thesis using assms c kmax g ng
        by (cases "sp_owner sp = O_FREE")
          (auto simp: memmap_alloc_page_def Let_def sp_def [symmetric] s1_def [symmetric] ram_base_def
            split: if_splits intro: noop denied, auto simp: s1_def sp_def intro: noop denied)
    qed
  qed (use assms kmax in \<open>auto simp: memmap_alloc_page_def Let_def sp_def ram_base_def split: if_splits intro: noop\<close>)
qed

lemma memmap_free_page_cases [consumes 1, case_names noop released]:
  assumes "memmap_free_page a ow s = (s', r)"
  obtains
    (noop) "s' = s"
      "r \<Longrightarrow> sp_owner (rs_memmap4mb s (superpage_no a)) = O_FREE
        \<or> sp_owner (rs_memmap4mb s (superpage_no a)) = O_RESERVED \<and> rs_memmap s (page_no a) = O_FREE"
  | (released) sp where "r" "a < rs_mem_high s" "rs_memmap s (page_no a) = ow" "ow \<noteq> O_FREE"
      "sp_owner (rs_memmap4mb s (superpage_no a)) = O_RESERVED"
      "sp = (rs_memmap4mb s (superpage_no a))\<lparr>
               sp_free_pages := sp_free_pages (rs_memmap4mb s (superpage_no a)) + 1\<rparr>
       \<or> sp = (rs_memmap4mb s (superpage_no a))\<lparr>
               sp_free_pages := sp_free_pages (rs_memmap4mb s (superpage_no a)) + 1, sp_owner := O_FREE\<rparr>
         \<and> sp_free_pages sp = 1024"
      "s' = s\<lparr>rs_memmap := (rs_memmap s)(page_no a := O_FREE),
             rs_memmap4mb := (rs_memmap4mb s)(superpage_no a := sp)\<rparr>"
proof -
  define sp where "sp = rs_memmap4mb s (superpage_no a)"
  have kmax: "\<not> SUPERPAGE_MAX \<le> superpage_no a" using superpage_no_lt_MAX [of a] by simp
  show thesis
  proof (cases "sp_owner sp = O_RESERVED \<and> a < rs_mem_high s \<and> rs_memmap s (page_no a) = ow \<and> ow \<noteq> O_FREE")
    case True
    then have "sp\<lparr>sp_free_pages := n, sp_owner := O_RESERVED\<rparr> = sp\<lparr>sp_free_pages := n\<rparr>" for n
      by (cases sp) simp
    with assms True kmax show thesis
      by (intro released [of "rs_memmap4mb s' (superpage_no a)"])
        (auto simp: memmap_free_page_def Let_def sp_def [symmetric] ram_base_def upd_superpage_def
          upd_page_def split: if_splits)
  next
    case False
    with assms kmax show thesis
      by (intro noop) (auto simp: memmap_free_page_def Let_def sp_def [symmetric] ram_base_def split: if_splits)
  qed
qed

lemma superpage_charge_frame:
  assumes "superpage_charge a ow n s = (s', r)"
  shows "rs_memmap s' = rs_memmap s" "rs_memmap4mb s' = rs_memmap4mb s" "rs_mem_high s' = rs_mem_high s"
proof -
  obtain s1 g where g: "quota_alloc_mem ow a L4_SUPERPAGESIZE s = (s1, g)" by (cases "quota_alloc_mem ow a L4_SUPERPAGESIZE s")
  then have "rs_memmap s1 = rs_memmap s" "rs_memmap4mb s1 = rs_memmap4mb s" "rs_mem_high s1 = rs_mem_high s"
    by (auto elim: quota_alloc_mem_cases)
  with g assms show "rs_memmap s' = rs_memmap s" "rs_memmap4mb s' = rs_memmap4mb s" "rs_mem_high s' = rs_mem_high s"
    by (auto simp: superpage_charge_def Let_def split: if_splits)
qed

lemma memmap_alloc_superpage_cases [consumes 1, case_names refused held whole merged]:
  assumes "memmap_alloc_superpage a ow s = (s', r)"
  obtains
    (refused) "\<not> r" "rs_memmap s' = rs_memmap s" "rs_memmap4mb s' = rs_memmap4mb s"
      "rs_mem_high s' = rs_mem_high s"
  | (held) "r" "s' = s" "sp_owner (rs_memmap4mb s (superpage_no a)) = ow"
  | (whole) "r" "sp_owner (rs_memmap4mb s (superpage_no a)) = O_FREE" "ow \<noteq> O_FREE"
      "rs_memmap s' = rs_memmap s" "rs_mem_high s' = rs_mem_high s"
      "rs_memmap4mb s' = (rs_memmap4mb s)(superpage_no a := (rs_memmap4mb s (superpage_no a))\<lparr>sp_owner := ow\<rparr>)"
  | (merged) "r" "sp_owner (rs_memmap4mb s (superpage_no a)) = O_RESERVED" "ow \<noteq> O_RESERVED"
      "\<forall>p. superpage_no a * 1024 \<le> p \<and> p < superpage_no a * 1024 + 1024 \<longrightarrow>
           rs_memmap s p = O_FREE \<or> rs_memmap s p = ow"
      "rs_memmap s' = memset_arr (rs_memmap s) (superpage_no a * 1024) O_FREE 1024"
      "rs_mem_high s' = rs_mem_high s"
      "rs_memmap4mb s' = (rs_memmap4mb s)(superpage_no a := (rs_memmap4mb s (superpage_no a))\<lparr>sp_owner := ow\<rparr>)"
proof -
  define sp where "sp = rs_memmap4mb s (superpage_no a)"
  have kmax: "\<not> SUPERPAGE_MAX \<le> superpage_no a" using superpage_no_lt_MAX [of a] by simp
  obtain s1 g where g: "(if ow \<ge> O_USER then quota_alloc_mem ow (a AND L4_SUPERPAGEMASK) L4_SUPERPAGESIZE s
      else (s, True)) = (s1, g)" by fastforce
  then have s1: "rs_memmap s1 = rs_memmap s" "rs_memmap4mb s1 = rs_memmap4mb s" "rs_mem_high s1 = rs_mem_high s"
    by (auto split: if_splits elim: quota_alloc_mem_cases)
  have sm: "page_no (a AND L4_SUPERPAGEMASK) = superpage_no a * 1024"
    using page_no_trunc_superpage [of a] by (simp add: l4_trunc_superpage_def)
  show thesis
  proof (cases "sp_owner sp = ow \<or> sp_owner sp \<noteq> O_FREE \<and> sp_owner sp \<noteq> O_RESERVED")
    case True
    with assms kmax have "r \<longleftrightarrow> sp_owner sp = ow" "s' = s"
      by (auto simp: memmap_alloc_superpage_def Let_def sp_def split: if_splits)
    then show thesis using refused held sp_def by (cases r) auto
  next
    case F: False
    show thesis
    proof (cases "sp_owner sp = O_FREE")
      case True
      with assms g kmax F have "r = g" "s' = (if g then upd_superpage (superpage_no a) (\<lambda>x. x\<lparr>sp_owner := ow\<rparr>) s1 else s1)"
        by (auto simp: memmap_alloc_superpage_def Let_def sp_def split: if_splits)
      then show thesis using True F s1 sp_def refused whole by (cases r) auto
    next
      case R: False
      show thesis
      proof (cases "superpage_scan (rs_memmap s) ow (superpage_no a * 1024) SP_PAGES 0")
        case None
        with assms F R kmax have "\<not> r" "s' = s"
          by (auto simp: memmap_alloc_superpage_def Let_def sp_def sm split: if_splits)
        then show thesis by (auto intro: refused)
      next
        case (Some n)
        then have scan: "\<forall>p. superpage_no a * 1024 \<le> p \<and> p < superpage_no a * 1024 + 1024 \<longrightarrow>
             rs_memmap s p = O_FREE \<or> rs_memmap s p = ow"
          by (auto dest: superpage_scan_SomeD simp: SP_PAGES_def)
        obtain s2 g2 where c: "superpage_charge (a AND L4_SUPERPAGEMASK) ow n s = (s2, g2)"
          by (cases "superpage_charge (a AND L4_SUPERPAGEMASK) ow n s")
        note f = superpage_charge_frame [OF c]
        from assms F R kmax Some c have "\<not> r \<and> (s' = s \<or> s' = s2) \<or>
            r \<and> s' = upd_superpage (superpage_no a) (\<lambda>x. x\<lparr>sp_owner := ow\<rparr>)
              (s2\<lparr>rs_memmap := memset_arr (rs_memmap s2) (superpage_no a * 1024) O_FREE 1024\<rparr>)"
          by (auto simp: memmap_alloc_superpage_def Let_def sp_def sm SP_PAGES_def split: if_splits)
        then show thesis using F R f scan sp_def refused merged by (cases r) auto
      qed
    qed
  qed
qed

lemma memmap_free_superpage_cases [consumes 1, case_names refused held freed]:
  assumes "memmap_free_superpage a ow s = (s', r)"
  obtains
    (refused) "\<not> r" "s' = s"
  | (held) "r" "s' = s" "sp_owner (rs_memmap4mb s (superpage_no a)) = O_FREE"
  | (freed) "r" "sp_owner (rs_memmap4mb s (superpage_no a)) = ow" "ow \<noteq> O_FREE"
      "s' = upd_superpage (superpage_no a) (\<lambda>x. x\<lparr>sp_owner := O_FREE, sp_free_pages := 1024\<rparr>) s"
  using assms superpage_no_lt_MAX [of a]
  by (auto simp: memmap_free_superpage_def Let_def split: if_splits)

section \<open>Every operation keeps the invariant\<close>

lemma mm_invD: "mm_inv s \<Longrightarrow> sp_ok (rs_memmap4mb s (superpage_no a)) (rs_memmap s) (superpage_no a)"
  using superpage_no_lt_MAX [of a] by (simp add: mm_inv_def)

text \<open>An update inside superpage \<open>k\<close> only has to re-establish \<open>sp_ok\<close> there.\<close>

lemma mm_inv_updI:
  assumes "mm_inv s" "rs_memmap4mb s' = (rs_memmap4mb s)(k := sp)" "sp_ok sp (rs_memmap s') k"
    and "\<And>p. p div 1024 \<noteq> k \<Longrightarrow> rs_memmap s' p = rs_memmap s p"
  shows "mm_inv s'"
  unfolding mm_inv_def
proof (intro allI impI)
  fix j assume j: "j < SUPERPAGE_MAX"
  show "sp_ok (rs_memmap4mb s' j) (rs_memmap s') j"
  proof (cases "j = k")
    case True
    with assms show ?thesis by simp
  next
    case False
    then have "rs_memmap s' p = rs_memmap s p" if "j * 1024 \<le> p" "p < j * 1024 + 1024" for p
      using that by (intro assms(4)) auto
    then have "sp_ok (rs_memmap4mb s j) (rs_memmap s') j = sp_ok (rs_memmap4mb s j) (rs_memmap s) j"
      by (rule sp_ok_cong)
    with assms j False show ?thesis by (simp add: mm_inv_def)
  qed
qed

lemma page_no_div: "page_no a div 1024 = superpage_no a"
  by (simp add: superpage_no_page_no)

lemma memmap_alloc_page_inv:
  assumes "mm_inv s"
  shows "mm_inv (fst (memmap_alloc_page a ow s))"
proof -
  obtain s' r where e: "memmap_alloc_page a ow s = (s', r)" by fastforce
  from e have "mm_inv s'"
  proof (cases rule: memmap_alloc_page_cases)
    case noop
    with assms show ?thesis by simp
  next
    case denied
    with assms show ?thesis
      by (intro mm_inv_updI [OF assms, where k = "superpage_no a"]) (auto intro: sp_ok_reserve mm_invD)
  next
    case (taken sp)
    let ?sp = "(rs_memmap4mb s (superpage_no a))\<lparr>sp_owner := O_RESERVED\<rparr>"
    have "sp_ok ?sp (rs_memmap s) (superpage_no a)"
      using taken(5) by (intro sp_ok_reserve mm_invD [OF assms])
    from sp_ok_take(1) [OF this _ page_in_superpage] taken
    have t: "sp_ok (?sp\<lparr>sp_free_pages := sp_free_pages ?sp - 1\<rparr>) (rs_memmap s') (superpage_no a)" by simp
    have "sp_ok sp (rs_memmap s') (superpage_no a)"
      using taken(6)
    proof
      assume "sp = (rs_memmap4mb s (superpage_no a))\<lparr>
               sp_free_pages := sp_free_pages (rs_memmap4mb s (superpage_no a)) - 1, sp_owner := O_RESERVED\<rparr>"
      with t show ?thesis by (simp add: sp_update_order)
    next
      assume p: "sp = (rs_memmap4mb s (superpage_no a))\<lparr>
               sp_free_pages := sp_free_pages (rs_memmap4mb s (superpage_no a)) - 1, sp_owner := ow\<rparr> \<and>
         (\<forall>p. superpage_no a * 1024 \<le> p \<and> p < superpage_no a * 1024 + 1024 \<longrightarrow>
               ((rs_memmap s)(page_no a := ow)) p = ow)"
      have "sp_ok ((?sp\<lparr>sp_free_pages := sp_free_pages ?sp - 1\<rparr>)\<lparr>sp_owner := ow\<rparr>) (rs_memmap s') (superpage_no a)"
        by (rule sp_ok_promote [OF t]) (use p taken in auto)
      with p show ?thesis by simp
    qed
    then show ?thesis
      using taken by (intro mm_inv_updI [OF assms, where k = "superpage_no a" and sp = sp]) (auto simp: page_no_div)
  qed
  with e show ?thesis by simp
qed

lemma memmap_free_page_inv:
  assumes "mm_inv s"
  shows "mm_inv (fst (memmap_free_page a ow s))"
proof -
  obtain s' r where e: "memmap_free_page a ow s = (s', r)" by fastforce
  from e have "mm_inv s'"
  proof (cases rule: memmap_free_page_cases)
    case noop
    with assms show ?thesis by simp
  next
    case (released sp)
    let ?sp = "rs_memmap4mb s (superpage_no a)"
    have t: "sp_ok (?sp\<lparr>sp_free_pages := sp_free_pages ?sp + 1\<rparr>) (rs_memmap s') (superpage_no a)"
      using sp_ok_release [OF mm_invD [OF assms] _ page_in_superpage, of a] released by simp
    from sp_ok_all_free [OF this] have "sp_ok sp (rs_memmap s') (superpage_no a)"
      using released(5,6) t by auto
    then show ?thesis
      using released by (intro mm_inv_updI [OF assms, where k = "superpage_no a" and sp = sp]) (auto simp: page_no_div)
  qed
  with e show ?thesis by simp
qed

lemma memmap_alloc_superpage_inv:
  assumes "mm_inv s"
  shows "mm_inv (fst (memmap_alloc_superpage a ow s))"
proof -
  obtain s' r where e: "memmap_alloc_superpage a ow s = (s', r)" by fastforce
  let ?k = "superpage_no a"
  from e have "mm_inv s'"
  proof (cases rule: memmap_alloc_superpage_cases)
    case refused
    with assms show ?thesis by (simp add: mm_inv_def)
  next
    case held
    with assms show ?thesis by simp
  next
    case whole
    with mm_invD [OF assms, of a] have "sp_free_pages (rs_memmap4mb s ?k) = 1024"
      "\<And>p. ?k * 1024 \<le> p \<Longrightarrow> p < ?k * 1024 + 1024 \<Longrightarrow> rs_memmap s p = O_FREE"
      by (auto simp: sp_ok_def)
    with whole have "sp_ok (rs_memmap4mb s' ?k) (rs_memmap s') ?k"
      by (simp add: sp_ok_whole)
    with whole show ?thesis by (intro mm_inv_updI [OF assms, where k = "?k"]) auto
  next
    case merged
    have "sp_free_pages (rs_memmap4mb s ?k) = 1024" if "ow = O_FREE"
    proof -
      have "unat (sp_free_pages (rs_memmap4mb s ?k)) = 1024"
        using mm_invD [OF assms, of a] merged that
          count_in_full_iff [of "\<lambda>p. rs_memmap s p = O_FREE" "?k * 1024" 1024]
        by (simp add: sp_ok_def)
      then show ?thesis by (simp add: word_unat_eq_iff)
    qed
    with merged have "sp_ok (rs_memmap4mb s' ?k) (rs_memmap s') ?k"
      by (auto intro!: sp_ok_whole)
    moreover have "rs_memmap s' p = rs_memmap s p" if "p div 1024 \<noteq> ?k" for p
      using that merged(5) by (auto simp: memset_arr_def)
    ultimately show ?thesis using merged
      by (intro mm_inv_updI [OF assms, where k = "?k"]) auto
  qed
  with e show ?thesis by simp
qed

text \<open>
  Releasing a superpage relies, as its comment says, on the page array being marked
  free there already.
\<close>

lemma memmap_free_superpage_inv:
  assumes "mm_inv s"
    and "\<forall>p. superpage_no a * 1024 \<le> p \<and> p < superpage_no a * 1024 + 1024 \<longrightarrow> rs_memmap s p = O_FREE"
  shows "mm_inv (fst (memmap_free_superpage a ow s))"
proof -
  obtain s' r where e: "memmap_free_superpage a ow s = (s', r)" by fastforce
  from e have "mm_inv s'"
  proof (cases rule: memmap_free_superpage_cases)
    case freed
    with assms(2) show ?thesis
      by (intro mm_inv_updI [OF assms(1), where k = "superpage_no a"]) (auto simp: sp_ok_def)
  qed (use assms in auto)
  with e show ?thesis by simp
qed

text \<open>Overwriting the owner of a free page at boot keeps the counters right.\<close>

lemma memmap_set_page_inv:
  assumes "mm_inv s" "rs_memmap s (page_no a) = O_FREE \<or> rs_memmap s (page_no a) = ow"
  shows "mm_inv (fst (memmap_set_page a ow s))"
proof (cases "a < rs_mem_high s \<and> rs_memmap s (page_no a) \<noteq> ow
    \<and> sp_owner (rs_memmap4mb s (superpage_no a)) \<in> {O_FREE, O_RESERVED}")
  case True
  let ?sp = "(rs_memmap4mb s (superpage_no a))\<lparr>sp_owner := O_RESERVED\<rparr>"
  let ?s' = "fst (memmap_set_page a ow s)"
  have "sp_ok ?sp (rs_memmap s) (superpage_no a)"
    using True by (intro sp_ok_reserve mm_invD [OF assms(1)]) simp
  from sp_ok_take(1) [OF this _ page_in_superpage, of ow] True assms(2)
  have t: "sp_ok (?sp\<lparr>sp_free_pages := sp_free_pages ?sp - 1\<rparr>) ((rs_memmap s)(page_no a := ow)) (superpage_no a)"
    by auto
  have "rs_memmap ?s' = (rs_memmap s)(page_no a := ow)"
    "rs_memmap4mb ?s' = (rs_memmap4mb s)(superpage_no a := ?sp\<lparr>sp_free_pages := sp_free_pages ?sp - 1\<rparr>)"
    using True superpage_no_lt_MAX [of a] by (auto simp: memmap_set_page_def Let_def ram_base_def)
  with t show ?thesis by (intro mm_inv_updI [OF assms(1), where k = "superpage_no a"]) (auto simp: page_no_div)
next
  case False
  with assms(1) superpage_no_lt_MAX [of a] show ?thesis
    by (auto simp: memmap_set_page_def Let_def ram_base_def)
qed

end
