(* ===== verification/OwnerTable.thy ===== *)
theory OwnerTable
  imports RtState
begin

text \<open>
  The contract that the roottask's resource tables share: an allocation or a release
  of an item either is refused or succeeds, only for free items or items of the
  requesting owner, and changes the holder of the cells of that item and of nothing
  else. The client lemmas (what a holder may rely on while other tasks issue
  requests) are proved once, in the locale; the tables interpret it.
\<close>

section \<open>Clients\<close>

text \<open>Owners from \<open>O_USER\<close> on are tasks; the others are markers of the roottask.\<close>

definition is_client :: "owner_t \<Rightarrow> bool" where
  "is_client ow \<longleftrightarrow> ow \<ge> O_USER"

lemma is_client_not [simp]: "is_client ow \<Longrightarrow> ow \<noteq> O_FREE" "is_client ow \<Longrightarrow> ow \<noteq> O_RESERVED"
  by (auto simp: is_client_def)

lemma is_client_consts [simp]: "\<not> is_client O_FREE" "\<not> is_client O_RESERVED"
  by (simp_all add: is_client_def)

lemma is_client_numerals: "is_client 5" "is_client 6"
  by (simp_all add: is_client_def O_USER_def)

section \<open>Sequences of requests\<close>

datatype 'i owner_op = Alloc 'i owner_t | Release 'i owner_t

fun op_owner :: "'i owner_op \<Rightarrow> owner_t" where
  "op_owner (Alloc i ow) = ow"
| "op_owner (Release i ow) = ow"

fun run_owner_ops ::
  "('i \<Rightarrow> owner_t \<Rightarrow> 's \<Rightarrow> ('s \<times> bool) res) \<Rightarrow> ('i \<Rightarrow> owner_t \<Rightarrow> 's \<Rightarrow> ('s \<times> bool) res) \<Rightarrow>
   'i owner_op list \<Rightarrow> 's \<Rightarrow> 's res" where
  "run_owner_ops al rel [] s = Inr s"
| "run_owner_ops al rel (Alloc i ow # ops) s =
     bind_res (al i ow s) (\<lambda>(s', r). run_owner_ops al rel ops s')"
| "run_owner_ops al rel (Release i ow # ops) s =
     bind_res (rel i ow s) (\<lambda>(s', r). run_owner_ops al rel ops s')"

section \<open>The contract\<close>

locale owner_table =
  fixes al :: "'i \<Rightarrow> owner_t \<Rightarrow> 's \<Rightarrow> ('s \<times> bool) res"
    and rel :: "'i \<Rightarrow> owner_t \<Rightarrow> 's \<Rightarrow> ('s \<times> bool) res"
    and holder :: "'s \<Rightarrow> nat \<Rightarrow> owner_t"
    and cells :: "'i \<Rightarrow> nat set"
    and inv :: "'s \<Rightarrow> bool"
    and client :: "owner_t \<Rightarrow> bool"
  assumes alloc_inv: "inv s \<Longrightarrow> client ow \<Longrightarrow> al i ow s = Inr (s', r) \<Longrightarrow> inv s'"
    and release_inv: "inv s \<Longrightarrow> client ow \<Longrightarrow> rel i ow s = Inr (s', r) \<Longrightarrow> inv s'"
    and alloc_entitled: "inv s \<Longrightarrow> client ow \<Longrightarrow> al i ow s = Inr (s', True) \<Longrightarrow> c \<in> cells i \<Longrightarrow>
      holder s c = O_FREE \<or> holder s c = ow"
    and alloc_holder: "inv s \<Longrightarrow> client ow \<Longrightarrow> al i ow s = Inr (s', r) \<Longrightarrow>
      holder s' c = (if r \<and> c \<in> cells i then ow else holder s c)"
    and release_entitled: "inv s \<Longrightarrow> client ow \<Longrightarrow> rel i ow s = Inr (s', True) \<Longrightarrow> c \<in> cells i \<Longrightarrow>
      holder s c = O_FREE \<or> holder s c = ow"
    and release_holder: "inv s \<Longrightarrow> client ow \<Longrightarrow> rel i ow s = Inr (s', r) \<Longrightarrow>
      holder s' c = (if r \<and> c \<in> cells i then O_FREE else holder s c)"
begin

lemma alloc_keeps:
  "inv s \<Longrightarrow> client ow \<Longrightarrow> al i ow s = Inr (s', r) \<Longrightarrow> holder s c \<noteq> O_FREE \<Longrightarrow> holder s c \<noteq> ow \<Longrightarrow>
   holder s' c = holder s c"
  using alloc_entitled alloc_holder by (cases r) fastforce+

lemma release_keeps:
  "inv s \<Longrightarrow> client ow \<Longrightarrow> rel i ow s = Inr (s', r) \<Longrightarrow> holder s c \<noteq> O_FREE \<Longrightarrow> holder s c \<noteq> ow \<Longrightarrow>
   holder s' c = holder s c"
  using release_entitled release_holder by (cases r) fastforce+

lemma run_ConsE:
  assumes "run_owner_ops al rel (p # ops) s = Inr s'"
  obtains i s1 r where "al i (op_owner p) s = Inr (s1, r)" "run_owner_ops al rel ops s1 = Inr s'"
  | i s1 r where "rel i (op_owner p) s = Inr (s1, r)" "run_owner_ops al rel ops s1 = Inr s'"
  using assms by (cases p) (auto simp: bind_res_Inr_iff)

text \<open>Requests of other tasks keep the invariant and never take an item away.\<close>

lemma run_keeps:
  assumes "inv s" "\<forall>p \<in> set ops. client (op_owner p)" "run_owner_ops al rel ops s = Inr s'"
  shows "inv s' \<and> ((\<forall>p \<in> set ops. op_owner p \<noteq> holder s c) \<longrightarrow> holder s c \<noteq> O_FREE \<longrightarrow> holder s' c = holder s c)"
  using assms
proof (induction ops arbitrary: s)
  case (Cons p ops)
  have p: "client (op_owner p)" and ops: "\<forall>q \<in> set ops. client (op_owner q)" using Cons.prems by auto
  from Cons.prems(3) show ?case
  proof (cases rule: run_ConsE)
    case (1 i s1 r)
    note I = alloc_inv [OF Cons.prems(1) p 1(1)] and K = alloc_keeps [OF Cons.prems(1) p 1(1)]
    from Cons.IH [OF I ops 1(2)] K [of c] show ?thesis by auto
  next
    case (2 i s1 r)
    note I = release_inv [OF Cons.prems(1) p 2(1)] and K = release_keeps [OF Cons.prems(1) p 2(1)]
    from Cons.IH [OF I ops 2(2)] K [of c] show ?thesis by auto
  qed
qed simp

lemma run_inv:
  "inv s \<Longrightarrow> \<forall>p \<in> set ops. client (op_owner p) \<Longrightarrow> run_owner_ops al rel ops s = Inr s' \<Longrightarrow> inv s'"
  using run_keeps by blast

lemma run_isolation:
  "inv s \<Longrightarrow> \<forall>p \<in> set ops. client (op_owner p) \<and> op_owner p \<noteq> ow \<Longrightarrow> ow \<noteq> O_FREE \<Longrightarrow>
   holder s c = ow \<Longrightarrow> run_owner_ops al rel ops s = Inr s' \<Longrightarrow> holder s' c = ow"
  using run_keeps [of s ops s' c] by auto

text \<open>Until the holder releases it, an item is not granted to a second task.\<close>

lemma no_double_grant:
  assumes "inv s" "client o1" "client o2" "o1 \<noteq> o2" "o1 \<noteq> O_FREE" "cells i \<inter> cells j \<noteq> {}"
    and "al i o1 s = Inr (s1, True)"
    and "\<forall>p \<in> set ops. client (op_owner p) \<and> op_owner p \<noteq> o1"
    and "run_owner_ops al rel ops s1 = Inr s2" "al j o2 s2 = Inr (s3, r)"
  shows "\<not> r"
proof
  assume r
  obtain c where c: "c \<in> cells i" "c \<in> cells j" using assms(6) by blast
  have i1: "inv s1" using assms(1,2,7) by (rule alloc_inv)
  have h1: "holder s1 c = o1" using assms(1,2,7) c(1) by (simp add: alloc_holder)
  have h2: "holder s2 c = o1" using i1 assms(8) assms(5) h1 assms(9) by (rule run_isolation)
  have i2: "inv s2" using i1 assms(8,9) by (auto intro: run_inv)
  from alloc_entitled [OF i2 assms(3) _ c(2)] assms(10) \<open>r\<close> h2 assms(4,5)
  show False by auto
qed

text \<open>A granted item reads back as the requester's, a released one as free.\<close>

lemma alloc_then_holder: "inv s \<Longrightarrow> client ow \<Longrightarrow> al i ow s = Inr (s', True) \<Longrightarrow> c \<in> cells i \<Longrightarrow> holder s' c = ow"
  by (simp add: alloc_holder)

lemma release_then_free: "inv s \<Longrightarrow> client ow \<Longrightarrow> rel i ow s = Inr (s', True) \<Longrightarrow> c \<in> cells i \<Longrightarrow> holder s' c = O_FREE"
  by (simp add: release_holder)

end

end
