(* ===== verification/MemmapSpec.thy ===== *)
theory MemmapSpec
  imports Memmap OwnerTable
begin

text \<open>
  What the memory map promises: the operations of memmap.c refine an abstract map
  from pages to owners (\<open>page_owner\<close>), pages and whole superpages are owner tables,
  and any interleaving of client requests keeps a task's pages its own. The last part
  shows where the promise fails: releasing a superpage whose pages were taken one by
  one.
\<close>

section \<open>Refinement of the page map\<close>

lemma page_owner_other:
  "rs_memmap4mb s' (p div 1024) = rs_memmap4mb s (p div 1024) \<Longrightarrow> rs_memmap s' p = rs_memmap s p \<Longrightarrow>
   page_owner s' p = page_owner s p"
  by (simp add: page_owner_def Let_def)

lemma same_superpage:
  "p div 1024 = superpage_no a \<Longrightarrow> superpage_no a * 1024 \<le> p \<and> p < superpage_no a * 1024 + 1024"
  by arith

lemma in_superpage_div:
  "superpage_no a * 1024 \<le> p \<Longrightarrow> p < superpage_no a * 1024 + 1024 \<Longrightarrow> p div 1024 = superpage_no a"
  by arith

text \<open>Under the invariant, a page marked with a client belongs to it.\<close>

lemma marked_page_owner:
  assumes "mm_inv s" "is_client ow" "rs_memmap s (page_no a) = ow"
  shows "page_owner s (page_no a) = ow"
proof -
  let ?sp = "rs_memmap4mb s (superpage_no a)"
  from mm_invD [OF assms(1), of a] page_in_superpage [of a] assms(2,3)
  have "sp_owner ?sp = O_RESERVED \<or> sp_owner ?sp = ow"
    by (auto simp: sp_ok_def split: if_splits)
  with assms show ?thesis by (auto simp: page_owner_def Let_def page_no_div)
qed

lemma alloc_page_refines:
  assumes inv: "mm_inv s" and cl: "is_client ow" and e: "memmap_alloc_page a ow s = (s', r)"
  shows "page_owner s' p = (if r \<and> p = page_no a then ow else page_owner s p)"
    and "r \<Longrightarrow> page_owner s (page_no a) = O_FREE \<or> page_owner s (page_no a) = ow"
proof -
  let ?sp = "rs_memmap4mb s (superpage_no a)"
  have own: "page_owner s (page_no a) = ow"
    if "rs_memmap s (page_no a) = ow \<or> sp_owner ?sp = ow"
    using that
  proof
    assume "rs_memmap s (page_no a) = ow"
    with inv cl show ?thesis by (rule marked_page_owner)
  qed (use cl in \<open>auto simp: page_owner_def Let_def page_no_div\<close>)
  have "page_owner s' p = (if r \<and> p = page_no a then ow else page_owner s p) \<and>
      (r \<longrightarrow> page_owner s (page_no a) = O_FREE \<or> page_owner s (page_no a) = ow)"
    using e
  proof (cases rule: memmap_alloc_page_cases)
    case noop
    then show ?thesis using own by auto
  next
    case denied
    with mm_invD [OF inv, of a] same_superpage [of p a] show ?thesis
      by (auto simp: page_owner_def Let_def sp_ok_def)
  next
    case (taken sp)
    have free: "page_owner s q = rs_memmap s q" if "q div 1024 = superpage_no a" for q
      using taken(5) mm_invD [OF inv, of a] same_superpage [OF that] that
      by (auto simp: page_owner_def Let_def sp_ok_def)
    have "page_owner s' q = ((rs_memmap s)(page_no a := ow)) q" if "q div 1024 = superpage_no a" for q
      using taken that same_superpage [OF that] cl by (auto simp: page_owner_def Let_def)
    with free [of p] free [of "page_no a"] taken show ?thesis
      by (cases "p div 1024 = superpage_no a") (auto simp: page_no_div intro: page_owner_other)
  qed
  then show "page_owner s' p = (if r \<and> p = page_no a then ow else page_owner s p)"
    and "r \<Longrightarrow> page_owner s (page_no a) = O_FREE \<or> page_owner s (page_no a) = ow" by auto
qed

lemma free_page_refines:
  assumes inv: "mm_inv s" and cl: "is_client ow" and e: "memmap_free_page a ow s = (s', r)"
  shows "page_owner s' p = (if r \<and> p = page_no a then O_FREE else page_owner s p)"
    and "r \<Longrightarrow> page_owner s (page_no a) = O_FREE \<or> page_owner s (page_no a) = ow"
proof -
  have "page_owner s' p = (if r \<and> p = page_no a then O_FREE else page_owner s p) \<and>
      (r \<longrightarrow> page_owner s (page_no a) = O_FREE \<or> page_owner s (page_no a) = ow)"
    using e
  proof (cases rule: memmap_free_page_cases)
    case noop
    then show ?thesis by (auto simp: page_owner_def Let_def page_no_div)
  next
    case (released sp)
    have free: "page_owner s q = rs_memmap s q" if "q div 1024 = superpage_no a" for q
      using released(5) that by (auto simp: page_owner_def Let_def)
    have "page_owner s' q = ((rs_memmap s)(page_no a := O_FREE)) q" if "q div 1024 = superpage_no a" for q
    proof -
      have "mm_inv s'" using memmap_free_page_inv [OF inv, of a ow] e by simp
      from mm_invD [OF this, of a] released same_superpage [OF that] that show ?thesis
        by (auto simp: page_owner_def Let_def sp_ok_def split: if_splits)
    qed
    with free [of p] free [of "page_no a"] released show ?thesis
      by (cases "p div 1024 = superpage_no a") (auto simp: page_no_div intro: page_owner_other)
  qed
  then show "page_owner s' p = (if r \<and> p = page_no a then O_FREE else page_owner s p)"
    and "r \<Longrightarrow> page_owner s (page_no a) = O_FREE \<or> page_owner s (page_no a) = ow" by auto
qed

definition superpage_cells :: "l4_addr_t \<Rightarrow> nat set" where
  "superpage_cells a = {superpage_no a * 1024 ..< superpage_no a * 1024 + 1024}"

lemma superpage_cells_iff: "p \<in> superpage_cells a \<longleftrightarrow> p div 1024 = superpage_no a"
  unfolding superpage_cells_def atLeastLessThan_iff using same_superpage in_superpage_div by blast

lemma alloc_superpage_refines:
  assumes inv: "mm_inv s" and cl: "is_client ow" and e: "memmap_alloc_superpage a ow s = (s', r)"
  shows "page_owner s' p = (if r \<and> p \<in> superpage_cells a then ow else page_owner s p)"
    and "r \<Longrightarrow> p \<in> superpage_cells a \<Longrightarrow> page_owner s p = O_FREE \<or> page_owner s p = ow"
proof -
  have "page_owner s' p = (if r \<and> p \<in> superpage_cells a then ow else page_owner s p) \<and>
      (r \<longrightarrow> p \<in> superpage_cells a \<longrightarrow> page_owner s p = O_FREE \<or> page_owner s p = ow)"
    using e
  proof (cases rule: memmap_alloc_superpage_cases)
    case refused
    then show ?thesis by (simp add: page_owner_def Let_def)
  next
    case held
    with cl show ?thesis by (auto simp: page_owner_def Let_def superpage_cells_iff)
  next
    case whole
    with cl show ?thesis by (auto simp: page_owner_def Let_def superpage_cells_iff)
  next
    case merged
    have "rs_memmap s' p = rs_memmap s p" if "p \<notin> superpage_cells a"
      using that merged(5) by (auto simp: superpage_cells_def)
    with merged cl show ?thesis
      by (auto simp: page_owner_def Let_def superpage_cells_iff dest: same_superpage)
  qed
  then show "page_owner s' p = (if r \<and> p \<in> superpage_cells a then ow else page_owner s p)"
    and "r \<Longrightarrow> p \<in> superpage_cells a \<Longrightarrow> page_owner s p = O_FREE \<or> page_owner s p = ow" by auto
qed

lemma free_superpage_refines:
  assumes cl: "is_client ow" and e: "memmap_free_superpage a ow s = (s', r)"
  shows "page_owner s' p = (if r \<and> p \<in> superpage_cells a then O_FREE else page_owner s p)"
    and "r \<Longrightarrow> p \<in> superpage_cells a \<Longrightarrow> page_owner s p = O_FREE \<or> page_owner s p = ow"
proof -
  have "page_owner s' p = (if r \<and> p \<in> superpage_cells a then O_FREE else page_owner s p) \<and>
      (r \<longrightarrow> p \<in> superpage_cells a \<longrightarrow> page_owner s p = O_FREE \<or> page_owner s p = ow)"
    using e
    by (cases rule: memmap_free_superpage_cases) (use cl in \<open>auto simp: page_owner_def Let_def superpage_cells_iff\<close>)
  then show "page_owner s' p = (if r \<and> p \<in> superpage_cells a then O_FREE else page_owner s p)"
    and "r \<Longrightarrow> p \<in> superpage_cells a \<Longrightarrow> page_owner s p = O_FREE \<or> page_owner s p = ow" by auto
qed

section \<open>Interpretations\<close>

interpretation pages: owner_table
  "\<lambda>a ow s. Inr (memmap_alloc_page a ow s)" "\<lambda>a ow s. Inr (memmap_free_page a ow s)"
  page_owner "\<lambda>a. {page_no a}" mm_inv is_client
proof
  show "mm_inv s'" if "mm_inv s" "is_client ow" "Inr (memmap_alloc_page i ow s) = Inr (s', r)" for s ow i s' r
    using memmap_alloc_page_inv [OF that(1), of i ow] that(3) by simp
  show "mm_inv s'" if "mm_inv s" "is_client ow" "Inr (memmap_free_page i ow s) = Inr (s', r)" for s ow i s' r
    using memmap_free_page_inv [OF that(1), of i ow] that(3) by simp
next
  fix s ow i s' c
  assume "mm_inv s" "is_client ow" "Inr (memmap_alloc_page i ow s) = Inr (s', True)" "c \<in> {page_no i}"
  then show "page_owner s c = O_FREE \<or> page_owner s c = ow" using alloc_page_refines(2) by simp
next
  fix s ow i s' r c
  assume "mm_inv s" "is_client ow" "Inr (memmap_alloc_page i ow s) = Inr (s', r)"
  then show "page_owner s' c = (if r \<and> c \<in> {page_no i} then ow else page_owner s c)"
    using alloc_page_refines(1) by simp
next
  fix s ow i s' c
  assume "mm_inv s" "is_client ow" "Inr (memmap_free_page i ow s) = Inr (s', True)" "c \<in> {page_no i}"
  then show "page_owner s c = O_FREE \<or> page_owner s c = ow" using free_page_refines(2) by simp
next
  fix s ow i s' r c
  assume "mm_inv s" "is_client ow" "Inr (memmap_free_page i ow s) = Inr (s', r)"
  then show "page_owner s' c = (if r \<and> c \<in> {page_no i} then O_FREE else page_owner s c)"
    using free_page_refines(1) by simp
qed

text \<open>
  A memory map in which superpages were only ever taken as a whole: owned superpages
  have their pages marked free.
\<close>

definition mm_whole :: "rt_state \<Rightarrow> bool" where
  "mm_whole s \<longleftrightarrow> mm_inv s \<and>
     (\<forall>p < PAGE_MAX. is_client (sp_owner (rs_memmap4mb s (p div 1024))) \<longrightarrow> rs_memmap s p = O_FREE)"

lemma superpage_cells_max: "p \<in> superpage_cells a \<Longrightarrow> p < PAGE_MAX"
  using superpage_no_lt_MAX [of a] by (simp add: superpage_cells_def PAGE_MAX_def SUPERPAGE_MAX_def)

lemma alloc_superpage_whole:
  assumes w: "mm_whole s" and cl: "is_client ow" and e: "memmap_alloc_superpage a ow s = (s', r)"
  shows "mm_whole s'"
proof -
  have inv: "mm_inv s" using w by (simp add: mm_whole_def)
  have "mm_inv s'" using memmap_alloc_superpage_inv [OF inv, of a ow] e by simp
  moreover have "rs_memmap s' p = O_FREE"
    if p: "p < PAGE_MAX" "is_client (sp_owner (rs_memmap4mb s' (p div 1024)))" for p
    using e
  proof (cases rule: memmap_alloc_superpage_cases)
    case whole
    with mm_invD [OF inv, of a] p w same_superpage [of p a] show ?thesis
      by (cases "p div 1024 = superpage_no a") (auto simp: sp_ok_def mm_whole_def)
  next
    case merged
    with p w show ?thesis
      by (cases "p div 1024 = superpage_no a")
        (auto simp: mm_whole_def memset_arr_def dest: same_superpage)
  qed (use p w in \<open>auto simp: mm_whole_def\<close>)
  ultimately show ?thesis by (simp add: mm_whole_def)
qed

lemma free_superpage_whole:
  assumes w: "mm_whole s" and cl: "is_client ow" and e: "memmap_free_superpage a ow s = (s', r)"
  shows "mm_whole s'"
  using e
proof (cases rule: memmap_free_superpage_cases)
  case freed
  have "rs_memmap s p = O_FREE" if "superpage_no a * 1024 \<le> p" "p < superpage_no a * 1024 + 1024" for p
    using w freed(2) cl that superpage_cells_max [of p a] in_superpage_div [OF that]
    by (auto simp: mm_whole_def superpage_cells_def)
  with w have "mm_inv (fst (memmap_free_superpage a ow s))"
    by (intro memmap_free_superpage_inv) (auto simp: mm_whole_def)
  moreover have "\<not> is_client O_FREE" using is_client_not by blast
  ultimately show ?thesis using w e freed by (auto simp: mm_whole_def)
qed (use w in auto)

interpretation superpages: owner_table
  "\<lambda>a ow s. Inr (memmap_alloc_superpage a ow s)" "\<lambda>a ow s. Inr (memmap_free_superpage a ow s)"
  page_owner superpage_cells mm_whole is_client
proof
  fix s ow i s' c
  assume a: "mm_whole s" "is_client ow" "Inr (memmap_alloc_superpage i ow s) = Inr (s', True)" "c \<in> superpage_cells i"
  then show "page_owner s c = O_FREE \<or> page_owner s c = ow"
    using alloc_superpage_refines(2) [of s ow i s' True c] by (simp add: mm_whole_def)
next
  fix s ow i s' r c
  assume "mm_whole s" "is_client ow" "Inr (memmap_alloc_superpage i ow s) = Inr (s', r)"
  then show "page_owner s' c = (if r \<and> c \<in> superpage_cells i then ow else page_owner s c)"
    using alloc_superpage_refines(1) [of s ow i s' r c] by (simp add: mm_whole_def)
next
  fix s ow i s' c
  assume "mm_whole s" "is_client ow" "Inr (memmap_free_superpage i ow s) = Inr (s', True)" "c \<in> superpage_cells i"
  then show "page_owner s c = O_FREE \<or> page_owner s c = ow"
    using free_superpage_refines(2) [of ow i s s' True c] by simp
next
  fix s ow i s' r c
  assume "mm_whole s" "is_client ow" "Inr (memmap_free_superpage i ow s) = Inr (s', r)"
  then show "page_owner s' c = (if r \<and> c \<in> superpage_cells i then O_FREE else page_owner s c)"
    using free_superpage_refines(1) [of ow i s s' r c] by simp
qed (auto intro: alloc_superpage_whole free_superpage_whole)

section \<open>Interleaved requests on pages and superpages\<close>

text \<open>
  A request of a client task on the memory map. Releasing a superpage is a step only
  where its pages are marked free, which is what the comment in the code relies on.
\<close>

inductive mem_step :: "owner_t \<Rightarrow> rt_state \<Rightarrow> rt_state \<Rightarrow> bool" where
  step_alloc_page: "is_client ow \<Longrightarrow> mem_step ow s (fst (memmap_alloc_page a ow s))"
| step_free_page: "is_client ow \<Longrightarrow> mem_step ow s (fst (memmap_free_page a ow s))"
| step_alloc_superpage: "is_client ow \<Longrightarrow> mem_step ow s (fst (memmap_alloc_superpage a ow s))"
| step_free_superpage: "is_client ow \<Longrightarrow> \<forall>p \<in> superpage_cells a. rs_memmap s p = O_FREE \<Longrightarrow>
    mem_step ow s (fst (memmap_free_superpage a ow s))"

inductive mem_run :: "owner_t list \<Rightarrow> rt_state \<Rightarrow> rt_state \<Rightarrow> bool" where
  run_nil: "mem_run [] s s"
| run_cons: "mem_step ow s s1 \<Longrightarrow> mem_run ows s1 s2 \<Longrightarrow> mem_run (ow # ows) s s2"


inductive_simps mem_run_simps: "mem_run [] s s'" "mem_run (ow # ows) s s'"

lemma mem_step_inv: "mem_step ow s s' \<Longrightarrow> mm_inv s \<Longrightarrow> mm_inv s'"
  by (induction rule: mem_step.induct)
    (auto simp: superpage_cells_def intro: memmap_alloc_page_inv memmap_free_page_inv
      memmap_alloc_superpage_inv memmap_free_superpage_inv)

lemma mem_step_keeps:
  assumes "mem_step ow s s'" "mm_inv s" "page_owner s p \<noteq> O_FREE" "page_owner s p \<noteq> ow"
  shows "page_owner s' p = page_owner s p"
  using assms(1)
proof cases
  case (step_alloc_page a)
  then obtain r where e: "memmap_alloc_page a ow s = (s', r)" by (cases "memmap_alloc_page a ow s") simp
  from alloc_page_refines(1) [OF assms(2) step_alloc_page(2) e, of p] alloc_page_refines(2) [OF assms(2) step_alloc_page(2) e] assms(3,4)
  show ?thesis by (auto split: if_splits)
next
  case (step_free_page a)
  then obtain r where e: "memmap_free_page a ow s = (s', r)" by (cases "memmap_free_page a ow s") simp
  from free_page_refines(1) [OF assms(2) step_free_page(2) e, of p] free_page_refines(2) [OF assms(2) step_free_page(2) e] assms(3,4)
  show ?thesis by (auto split: if_splits)
next
  case (step_alloc_superpage a)
  then obtain r where e: "memmap_alloc_superpage a ow s = (s', r)" by (cases "memmap_alloc_superpage a ow s") simp
  from alloc_superpage_refines(1) [OF assms(2) step_alloc_superpage(2) e, of p] alloc_superpage_refines(2) [OF assms(2) step_alloc_superpage(2) e, of p] assms(3,4)
  show ?thesis by (auto split: if_splits)
next
  case (step_free_superpage a)
  then obtain r where e: "memmap_free_superpage a ow s = (s', r)" by (cases "memmap_free_superpage a ow s") simp
  from free_superpage_refines(1) [OF step_free_superpage(2) e, of p] free_superpage_refines(2) [OF step_free_superpage(2) e, of p] assms(3,4)
  show ?thesis by (auto split: if_splits)
qed

lemma mem_run_keeps:
  "mem_run ows s s' \<Longrightarrow> mm_inv s \<Longrightarrow>
   mm_inv s' \<and> (page_owner s p \<noteq> O_FREE \<longrightarrow> page_owner s p \<notin> set ows \<longrightarrow> page_owner s' p = page_owner s p)"
proof (induction rule: mem_run.induct)
  case (run_cons ow s s1 ows s2)
  then show ?case using mem_step_inv [OF run_cons(1)] mem_step_keeps [OF run_cons(1), of p] by auto
qed simp

section \<open>The witness state\<close>

lemma demo_mm_inv: "mm_inv demo_state"
  by (simp add: mm_inv_def demo_state_def sp_ok_def)

lemma demo_mm_whole: "mm_whole demo_state"
  using demo_mm_inv by (simp add: mm_whole_def demo_state_def)

section \<open>Frames\<close>

lemma memmap_mem_high [simp, rt_simps]:
  "rs_mem_high (fst (memmap_alloc_page a ow s)) = rs_mem_high s"
  "rs_mem_high (fst (memmap_free_page a ow s)) = rs_mem_high s"
  "rs_mem_high (fst (memmap_alloc_superpage a ow s)) = rs_mem_high s"
  "rs_mem_high (fst (memmap_free_superpage a ow s)) = rs_mem_high s"
proof -
  obtain s1 r1 s2 r2 s3 r3 s4 r4 where e: "memmap_alloc_page a ow s = (s1, r1)" "memmap_free_page a ow s = (s2, r2)"
    "memmap_alloc_superpage a ow s = (s3, r3)" "memmap_free_superpage a ow s = (s4, r4)" by fastforce
  have "rs_mem_high s1 = rs_mem_high s" using e(1) by (cases rule: memmap_alloc_page_cases) auto
  moreover have "rs_mem_high s2 = rs_mem_high s" using e(2) by (cases rule: memmap_free_page_cases) auto
  moreover have "rs_mem_high s3 = rs_mem_high s" using e(3) by (cases rule: memmap_alloc_superpage_cases) auto
  moreover have "rs_mem_high s4 = rs_mem_high s" using e(4) by (cases rule: memmap_free_superpage_cases) auto
  ultimately show "rs_mem_high (fst (memmap_alloc_page a ow s)) = rs_mem_high s"
    "rs_mem_high (fst (memmap_free_page a ow s)) = rs_mem_high s"
    "rs_mem_high (fst (memmap_alloc_superpage a ow s)) = rs_mem_high s"
    "rs_mem_high (fst (memmap_free_superpage a ow s)) = rs_mem_high s"
    using e by simp_all
qed

lemma mem_run_mem_high: "mem_run ows s s' \<Longrightarrow> rs_mem_high s' = rs_mem_high s"
  by (induction rule: mem_run.induct) (auto elim!: mem_step.cases)

text \<open>The quota check does not look at the memory map.\<close>

lemma quota_check_mem_cong:
  "rs_quota s' = rs_quota s \<Longrightarrow> rs_mem_high s' = rs_mem_high s \<Longrightarrow>
   quota_check_mem s' t a n = quota_check_mem s t a n"
  by (simp add: quota_check_mem_def)

lemma quota_alloc_mem_snd: "snd (quota_alloc_mem t a n s) = quota_check_mem s t a n"
  by (simp add: quota_alloc_mem_def quota_check_mem_def)

lemma alloc_page_result:
  assumes "mm_inv s" "is_client ow"
  shows "snd (memmap_alloc_page a ow s) \<longleftrightarrow>
     a < rs_mem_high s \<and>
     (page_owner s (page_no a) = ow \<or> page_owner s (page_no a) = O_FREE \<and> quota_check_mem s ow a L4_PAGESIZE)"
proof -
  let ?sp = "rs_memmap4mb s (superpage_no a)"
  have k: "\<not> SUPERPAGE_MAX \<le> superpage_no a" using superpage_no_lt_MAX [of a] by simp
  have own: "page_owner s (page_no a) = (if sp_owner ?sp = O_RESERVED then rs_memmap s (page_no a) else sp_owner ?sp)"
    by (simp add: page_owner_def Let_def page_no_div)
  have m: "sp_owner ?sp \<notin> {O_FREE, O_RESERVED} \<Longrightarrow> rs_memmap s (page_no a) \<in> {O_FREE, sp_owner ?sp}"
    "sp_owner ?sp = O_FREE \<Longrightarrow> rs_memmap s (page_no a) = O_FREE"
    using mm_invD [OF assms(1), of a] page_in_superpage [of a] by (auto simp: sp_ok_def)
  let ?s1 = "if sp_owner ?sp = O_FREE then upd_superpage (superpage_no a) (\<lambda>x. x\<lparr>sp_owner := O_RESERVED\<rparr>) s else s"
  have q: "snd (quota_alloc_mem ow a L4_PAGESIZE ?s1) = quota_check_mem s ow a L4_PAGESIZE"
    unfolding quota_alloc_mem_snd by (rule quota_check_mem_cong) auto
  have "snd (memmap_alloc_page a ow s) \<longleftrightarrow>
      a < rs_mem_high s \<and> (rs_memmap s (page_no a) = ow \<or> sp_owner ?sp = ow \<or>
        rs_memmap s (page_no a) = O_FREE \<and> sp_owner ?sp \<in> {O_FREE, O_RESERVED} \<and>
        quota_check_mem s ow a L4_PAGESIZE)"
    unfolding q [symmetric] using k assms(2)
    by (auto simp: memmap_alloc_page_def Let_def ram_base_def is_client_def split: prod.splits)
  also have "\<dots> \<longleftrightarrow> a < rs_mem_high s \<and> (page_owner s (page_no a) = ow \<or>
      page_owner s (page_no a) = O_FREE \<and> quota_check_mem s ow a L4_PAGESIZE)"
    using m assms(2) unfolding own
    by (cases "sp_owner ?sp = O_FREE"; cases "sp_owner ?sp = O_RESERVED") auto
  finally show ?thesis .
qed

lemma alloc_page_quota_inv: "quota_inv s \<Longrightarrow> quota_inv (fst (memmap_alloc_page a ow s))"
proof -
  assume i: "quota_inv s"
  let ?s1 = "upd_superpage (superpage_no a) (\<lambda>x. x\<lparr>sp_owner := O_RESERVED\<rparr>) s"
  have "quota_inv ?s1" using i by (simp add: quota_inv_def)
  then have "quota_inv (fst (quota_alloc_mem ow a L4_PAGESIZE s))"
    "quota_inv (fst (quota_alloc_mem ow a L4_PAGESIZE ?s1))"
    using i by (auto intro: quota_alloc_mem_inv)
  with i \<open>quota_inv ?s1\<close> show ?thesis
    by (auto simp: memmap_alloc_page_def Let_def quota_inv_def split: prod.splits)
qed

section \<open>Properties\<close>

lemma word_lt_numeral_unat: "(a :: u32) < b \<longleftrightarrow> unat a < unat b"
  by (rule word_less_unat)

lemmas demo_eval = demo_state_def demo_quota_def memmap_alloc_page_def memmap_free_page_def
  memmap_alloc_superpage_def memmap_free_superpage_def quota_alloc_mem_def quota_check_addr_def
  range_check_def upd_quota_def upd_superpage_def upd_page_def page_no_eq superpage_no_eq
  memmap_owner_page_def SUPERPAGE_MAX_def ram_base_def L4_PAGESIZE_def L4_SUPERPAGESIZE_def
  O_FREE_def O_RESERVED_def O_USER_def is_client_def Let_def


lemma demo_page_taken: "memmap_owner_page (fst (memmap_alloc_page 0x3000 5 demo_state)) 0x3000 = 5"
  by (simp add: demo_eval)










text \<open>
  Where superpages are requested as a whole, they are never granted twice: a client
  keeps its superpage against any interleaving of superpage requests of other clients.
\<close>

theorem memmap_superpage_no_double_grant:
  assumes "mm_whole s" "is_client o1" "is_client o2" "o1 \<noteq> o2" "superpage_no a = superpage_no b"
    and "memmap_alloc_superpage a o1 s = (s1, True)"
    and "\<forall>p \<in> set ops. is_client (op_owner p) \<and> op_owner p \<noteq> o1"
    and "run_owner_ops (\<lambda>a ow s. Inr (memmap_alloc_superpage a ow s))
           (\<lambda>a ow s. Inr (memmap_free_superpage a ow s)) ops s1 = Inr s2"
  shows "\<not> snd (memmap_alloc_superpage b o2 s2)"
proof -
  have "superpage_no a * 1024 \<in> superpage_cells a \<inter> superpage_cells b"
    using assms(5) by (simp add: superpage_cells_def)
  then have "superpage_cells a \<inter> superpage_cells b \<noteq> {}" by blast
  then show ?thesis
    using superpages.no_double_grant [OF assms(1-4) _ _ _ assms(7,8), where i = a and j = b
        and ?s3.0 = "fst (memmap_alloc_superpage b o2 s2)" and r = "snd (memmap_alloc_superpage b o2 s2)"]
      assms(2,6) by simp
qed

theorem memmap_superpage_no_double_grant_witness:
  "\<not> snd (memmap_alloc_superpage 0x400000 6
       (fst (memmap_free_superpage 0x400000 6 (fst (memmap_alloc_superpage 0x400000 5 demo_state)))))"
proof -
  have e: "memmap_alloc_superpage 0x400000 5 demo_state = (fst (memmap_alloc_superpage 0x400000 5 demo_state), True)"
    by (simp add: demo_eval L4_SUPERPAGEMASK_def)
  show ?thesis
    by (rule memmap_superpage_no_double_grant [OF demo_mm_whole is_client_numerals _ refl e,
          where ops = "[Release 0x400000 6]"]) (auto simp: is_client_numerals case_prod_beta)
qed

section \<open>Where the promises fail\<close>

text \<open>
  Releasing a superpage that a task got page by page leaves the page array marked with
  that task: after the superpage was released and granted to a second task, a page
  request of the first task for it succeeds again.
\<close>

lemma promoted_superpage_granted_twice:
  assumes promoted: "sp_owner (rs_memmap4mb s (superpage_no a)) = o1" "rs_memmap s (page_no a) = o1"
    and "is_client o1" "is_client o2" "o1 \<noteq> o2" "a < rs_mem_high s"
    and e1: "memmap_free_superpage a o1 s = (s1, r1)"
    and e2: "memmap_alloc_superpage a o2 s1 = (s2, r2)"
    and quota: "quota_check_mem s o2 (a AND L4_SUPERPAGEMASK) L4_SUPERPAGESIZE"
  shows "r1 \<and> r2 \<and> memmap_owner_page s2 a = o2 \<and> memmap_alloc_page a o1 s2 = (s2, True)"
proof -
  have k: "\<not> SUPERPAGE_MAX \<le> superpage_no a" using superpage_no_lt_MAX [of a] by simp
  let ?s1 = "upd_superpage (superpage_no a) (\<lambda>x. x\<lparr>sp_owner := O_FREE, sp_free_pages := 1024\<rparr>) s"
  have s1: "r1" "s1 = ?s1"
    using e1 promoted assms(3) k by (auto simp: memmap_free_superpage_def Let_def split: if_splits)
  have q: "quota_check_mem s1 o2 (a AND L4_SUPERPAGEMASK) L4_SUPERPAGESIZE"
    using quota unfolding s1(2) by (subst quota_check_mem_cong) auto
  obtain s1' g where g: "quota_alloc_mem o2 (a AND L4_SUPERPAGEMASK) L4_SUPERPAGESIZE s1 = (s1', g)" by fastforce
  with q have "g" and f: "rs_memmap s1' = rs_memmap s1" "rs_memmap4mb s1' = rs_memmap4mb s1" "rs_mem_high s1' = rs_mem_high s1"
    by (auto elim: quota_alloc_mem_cases)
  moreover have "sp_owner (rs_memmap4mb s1 (superpage_no a)) = O_FREE" using s1(2) by simp
  ultimately have r2: "r2" "s2 = upd_superpage (superpage_no a) (\<lambda>x. x\<lparr>sp_owner := o2\<rparr>) s1'"
    using e2 g assms(4) k by (auto simp: memmap_alloc_superpage_def Let_def is_client_def split: if_splits)
  have "memmap_owner_page s2 a = o2"
    using assms(4,6) unfolding r2(2) memmap_owner_page_eq by (simp add: page_owner_def Let_def page_no_div f s1(2))
  moreover have "memmap_alloc_page a o1 s2 = (s2, True)"
    using assms(2,6) k unfolding r2(2) by (simp add: memmap_alloc_page_def Let_def ram_base_def f s1(2))
  ultimately show ?thesis using s1(1) r2(1) by blast
qed

text \<open>A page that is taken and released again stays charged to the task's quota.\<close>

lemma released_page_stays_charged:
  assumes "memmap_free_page a ow s = (s', r)"
  shows "rs_quota s' = rs_quota s"
  using assms by (cases rule: memmap_free_page_cases) auto

end
