(* ===== verification/MemmapSearch.thy ===== *)
theory MemmapSearch
  imports MemmapSpec
begin

text \<open>
  The searches of \<open>memmap.c\<close>: \<open>find_free_chunk\<close> and \<open>reserve_range\<close>. The loops that
  count down stay above a positive bound and are total functions; the others are
  \<open>partial_function (option)\<close>, where \<open>None\<close> is a loop that does not end, with lemmas
  that say when they end.
\<close>

section \<open>Definitions\<close>

definition RMGR_MEM_RES_FLAGS_MASK :: u32 where [l4_const]: "RMGR_MEM_RES_FLAGS_MASK = 0x0FC0"
definition RMGR_MEM_RES_DMA_ABLE :: u32 where [l4_const]: "RMGR_MEM_RES_DMA_ABLE = 0x0040"
definition RMGR_MEM_RES_UPWARDS :: u32 where [l4_const]: "RMGR_MEM_RES_UPWARDS = 0x0080"

text \<open>The two loops of \<open>find_free_chunk\<close>; \<open>i\<close> counts free pages in a row.\<close>

function chunk_down :: "rt_state \<Rightarrow> u32 \<Rightarrow> nat \<Rightarrow> l4_addr_t \<Rightarrow> nat \<times> l4_addr_t" where
  "chunk_down s pages i addr =
     (if addr > 0x400000 \<and> i < unat pages
      then chunk_down s pages (if memmap_owner_page s addr \<noteq> O_FREE then 0 else Suc i) (addr - L4_PAGESIZE)
      else (i, addr))"
  by pat_completeness auto
termination
  by (relation "measure (\<lambda>(s, pages, i, addr). unat addr)")
    (auto simp: word_less_unat unat_sub_le word_le_unat L4_PAGESIZE_def)

declare chunk_down.simps [simp del]

partial_function (option) chunk_up :: "rt_state \<Rightarrow> u32 \<Rightarrow> nat \<Rightarrow> l4_addr_t \<Rightarrow> (nat \<times> l4_addr_t) option" where
  [code]: "chunk_up s pages i addr =
     (if addr < rs_mem_high s \<and> i < unat pages
      then chunk_up s pages (if memmap_owner_page s addr \<noteq> O_FREE then 0 else Suc i) (addr + L4_PAGESIZE)
      else Some (i, addr))"

definition find_free_chunk :: "rt_state \<Rightarrow> u32 \<Rightarrow> bool \<Rightarrow> l4_addr_t option" where
  "find_free_chunk s pages down =
     (if down
      then (case chunk_down s pages 0 (rs_mem_high s - L4_PAGESIZE) of
              (i, addr) \<Rightarrow> Some (if i \<ge> unat pages then addr + L4_PAGESIZE else 0))
      else (case chunk_up s pages 0 0x400000 of
              None \<Rightarrow> None
            | Some (i, addr) \<Rightarrow> Some (if i \<ge> unat pages then addr - pages * L4_PAGESIZE else 0)))"

text \<open>The condition on one page in \<open>reserve_range\<close>.\<close>

definition page_usable :: "rt_state \<Rightarrow> owner_t \<Rightarrow> l4_addr_t \<Rightarrow> bool" where
  "page_usable s ow address \<longleftrightarrow>
     quota_check_mem s ow address L4_PAGESIZE \<and> memmap_owner_page s address = O_FREE"

text \<open>The inner loops: they return the address they stop at and whether they found a chunk.\<close>

function take_down :: "rt_state \<Rightarrow> owner_t \<Rightarrow> nat \<Rightarrow> nat \<Rightarrow> l4_addr_t \<Rightarrow> l4_addr_t \<times> bool" where
  "take_down s ow need have_pages address =
     (let address = address - L4_PAGESIZE in
      if \<not> page_usable s ow address then (address, False)
      else if have_pages + 1 \<ge> need then (address, True)
      else take_down s ow need (have_pages + 1) address)"
  by pat_completeness auto
termination
  by (relation "measure (\<lambda>(s, ow, need, have_pages, address). need - have_pages)") auto

function take_up :: "rt_state \<Rightarrow> owner_t \<Rightarrow> u32 \<Rightarrow> nat \<Rightarrow> nat \<Rightarrow> l4_addr_t \<Rightarrow> l4_addr_t \<times> bool" where
  "take_up s ow sz need have_pages address =
     (if \<not> page_usable s ow address then (address, False)
      else if have_pages + 1 \<ge> need then (address - (sz - L4_PAGESIZE), True)
      else take_up s ow sz need (have_pages + 1) (address + L4_PAGESIZE))"
  by pat_completeness auto
termination
  by (relation "measure (\<lambda>(s, ow, sz, need, have_pages, address). need - have_pages)") auto

declare take_down.simps [simp del] take_up.simps [simp del]

text \<open>The outer loops: \<open>Some None\<close> when there is no chunk.\<close>

partial_function (option) search_up ::
  "rt_state \<Rightarrow> owner_t \<Rightarrow> u32 \<Rightarrow> u32 \<Rightarrow> l4_addr_t \<Rightarrow> l4_addr_t \<Rightarrow> l4_addr_t option option" where
  [code]: "search_up s ow sz align max_address address =
     (let address = (address + NOT align) AND align in
      if address > max_address then Some None
      else case take_up s ow sz (unat (sz div L4_PAGESIZE)) 0 address of
             (address, found) \<Rightarrow>
               if found then Some (Some address)
               else search_up s ow sz align max_address (address + L4_PAGESIZE))"

partial_function (option) search_down ::
  "rt_state \<Rightarrow> owner_t \<Rightarrow> u32 \<Rightarrow> u32 \<Rightarrow> l4_addr_t \<Rightarrow> l4_addr_t \<Rightarrow> l4_addr_t option option" where
  [code]: "search_down s ow sz align min_address address =
     (if \<not> address \<ge> min_address + sz then Some None
      else case take_down s ow (unat (sz div L4_PAGESIZE)) 0 (((address - sz) AND align) + sz) of
             (address, found) \<Rightarrow>
               if found then Some (Some address)
               else search_down s ow sz align min_address address)"

text \<open>
  The loop at \<open>found\<close>: it allocates the pages from \<open>a\<close> while \<open>a < address + size\<close>; its
  \<open>n\<close> is the number of rounds, none where \<open>address + size\<close> wraps. The results of the
  allocations are ignored.
\<close>

fun reserve_pages :: "nat \<Rightarrow> l4_addr_t \<Rightarrow> owner_t \<Rightarrow> rt_state \<Rightarrow> rt_state" where
  "reserve_pages 0 a ow s = s"
| "reserve_pages (Suc n) a ow s = reserve_pages n (a + L4_PAGESIZE) ow (fst (memmap_alloc_page a ow s))"

definition res_size :: "u32 \<Rightarrow> u32" where
  "res_size size_and_align = size_and_align AND L4_PAGEMASK"

definition res_flags :: "u32 \<Rightarrow> u32" where
  "res_flags size_and_align = size_and_align AND NOT L4_PAGEMASK AND RMGR_MEM_RES_FLAGS_MASK"

definition res_align :: "u32 \<Rightarrow> u32" where
  "res_align size_and_align =
     (let align = size_and_align AND NOT L4_PAGEMASK AND NOT RMGR_MEM_RES_FLAGS_MASK;
          align = (if align < 12 then 12 else if align > 28 then 28 else align)
      in NOT (push_bit (unat align) 1 - 1))"

definition res_max :: "rt_state \<Rightarrow> u32 \<Rightarrow> l4_addr_t \<Rightarrow> l4_addr_t" where
  "res_max s flags range_high =
     (let max_address = rs_mem_high s + ram_base;
          max_address = (if range_high \<noteq> 0 then min max_address range_high else max_address);
          max_address = (if flags AND RMGR_MEM_RES_DMA_ABLE \<noteq> 0 then min max_address 0x1000000 else max_address)
      in max_address AND L4_PAGEMASK)"

definition res_min :: "l4_addr_t \<Rightarrow> l4_addr_t" where
  "res_min range_low = ((range_low + NOT L4_PAGEMASK) AND L4_PAGEMASK) + ram_base"

definition reserve_range ::
  "u32 \<Rightarrow> owner_t \<Rightarrow> l4_addr_t \<Rightarrow> l4_addr_t \<Rightarrow> rt_state \<Rightarrow> (rt_state \<times> l4_addr_t) option" where
  "reserve_range size_and_align ow range_low range_high s =
     (let sz = res_size size_and_align;
          flags = res_flags size_and_align;
          align = res_align size_and_align;
          max_address = res_max s flags range_high;
          min_address = res_min range_low
      in if max_address - min_address < sz then Some (s, -1)
         else (case (if flags AND RMGR_MEM_RES_UPWARDS \<noteq> 0
                     then search_up s ow sz align (max_address - sz) min_address
                     else search_down s ow sz align min_address max_address) of
                 None \<Rightarrow> None
               | Some None \<Rightarrow> Some (s, -1)
               | Some (Some address) \<Rightarrow>
                   Some (reserve_pages (if address < address + sz then unat (sz div L4_PAGESIZE) else 0)
                           address ow s, address)))"

section \<open>Finding a chunk\<close>

text \<open>The counted pages are free: the loop invariant of both searches.\<close>

lemma chunk_down_free:
  "chunk_down s pages i addr = (j, a) \<Longrightarrow>
   (\<And>k. k < i \<Longrightarrow> memmap_owner_page s (addr + L4_PAGESIZE + of_nat k * L4_PAGESIZE) = O_FREE) \<Longrightarrow>
   k < j \<Longrightarrow> memmap_owner_page s (a + L4_PAGESIZE + of_nat k * L4_PAGESIZE) = O_FREE"
proof (induction s pages i addr rule: chunk_down.induct)
  case (1 s pages i addr)
  show ?case
  proof (cases "addr > 0x400000 \<and> i < unat pages")
    case True
    let ?i = "if memmap_owner_page s addr \<noteq> O_FREE then 0 else Suc i"
    have "memmap_owner_page s (addr - L4_PAGESIZE + L4_PAGESIZE + of_nat k * L4_PAGESIZE) = O_FREE" if "k < ?i" for k
    proof (cases k)
      case 0
      with that show ?thesis by (simp split: if_splits)
    next
      case (Suc k')
      with that 1(3) [of k'] show ?thesis by (simp add: algebra_simps split: if_splits)
    qed
    with 1(1) [OF True] 1(2,4) True show ?thesis by (simp add: chunk_down.simps [of s pages i addr])
  next
    case False
    with 1 show ?thesis by (simp add: chunk_down.simps [of s pages i addr])
  qed
qed

lemma chunk_up_free:
  "chunk_up s pages i addr = Some y \<Longrightarrow>
   (\<forall>k < i. memmap_owner_page s (addr - of_nat (Suc k) * L4_PAGESIZE) = O_FREE) \<longrightarrow>
   (\<forall>k < fst y. memmap_owner_page s (snd y - of_nat (Suc k) * L4_PAGESIZE) = O_FREE)"
proof (erule chunk_up.raw_induct [where P = "\<lambda>s pages i addr y.
     (\<forall>k < i. memmap_owner_page s (addr - of_nat (Suc k) * L4_PAGESIZE) = O_FREE) \<longrightarrow>
     (\<forall>k < fst y. memmap_owner_page s (snd y - of_nat (Suc k) * L4_PAGESIZE) = O_FREE)", rotated])
  fix up s pages i addr y
  assume IH: "\<And>s pages i addr y. up s pages i addr = Some y \<Longrightarrow>
        (\<forall>k < i. memmap_owner_page s (addr - of_nat (Suc k) * L4_PAGESIZE) = O_FREE) \<longrightarrow>
        (\<forall>k < fst y. memmap_owner_page s (snd y - of_nat (Suc k) * L4_PAGESIZE) = O_FREE)"
    and e: "(if addr < rs_mem_high s \<and> i < unat pages
      then up s pages (if memmap_owner_page s addr \<noteq> O_FREE then 0 else Suc i) (addr + L4_PAGESIZE)
      else Some (i, addr)) = Some y"
  show "(\<forall>k < i. memmap_owner_page s (addr - of_nat (Suc k) * L4_PAGESIZE) = O_FREE) \<longrightarrow>
     (\<forall>k < fst y. memmap_owner_page s (snd y - of_nat (Suc k) * L4_PAGESIZE) = O_FREE)"
  proof (cases "addr < rs_mem_high s \<and> i < unat pages")
    case True
    let ?i = "if memmap_owner_page s addr \<noteq> O_FREE then 0 else Suc i"
    show ?thesis
    proof
      assume h: "\<forall>k < i. memmap_owner_page s (addr - of_nat (Suc k) * L4_PAGESIZE) = O_FREE"
      have "memmap_owner_page s (addr + L4_PAGESIZE - of_nat (Suc k) * L4_PAGESIZE) = O_FREE" if "k < ?i" for k
      proof (cases k)
        case 0
        with that show ?thesis by (simp split: if_splits)
      next
        case (Suc k')
        with that h show ?thesis by (simp add: algebra_simps split: if_splits)
      qed
      with IH [of s pages ?i "addr + L4_PAGESIZE" y] e True
      show "\<forall>k < fst y. memmap_owner_page s (snd y - of_nat (Suc k) * L4_PAGESIZE) = O_FREE" by simp
    qed
  next
    case False
    with e show ?thesis by auto
  qed
qed

text \<open>The upward loop ends where the address cannot wrap past the end of memory.\<close>

lemma chunk_up_total:
  assumes "unat (rs_mem_high s) \<le> 0xFFFFF000"
  shows "\<exists>y. chunk_up s pages i addr = Some y"
proof (induction "unat (rs_mem_high s) - unat addr" arbitrary: i addr rule: less_induct)
  case less
  show ?case
  proof (cases "addr < rs_mem_high s")
    case True
    then have "unat (addr + L4_PAGESIZE) = unat addr + 4096"
      using assms by (subst unat_add_lt) (auto simp: word_less_unat L4_PAGESIZE_def)
    then have "unat (rs_mem_high s) - unat (addr + L4_PAGESIZE) < unat (rs_mem_high s) - unat addr"
      using True by (simp add: word_less_unat)
    from less [OF this] show ?thesis by (subst chunk_up.simps) simp
  next
    case False
    then show ?thesis by (subst chunk_up.simps) simp
  qed
qed

section \<open>Reserving a range\<close>

subsection \<open>The inner loops\<close>

lemma take_down_found:
  "take_down s ow need hp address = (a, True) \<Longrightarrow> hp < need \<Longrightarrow>
   a = address - of_nat (need - hp) * L4_PAGESIZE \<and>
   (\<forall>k < need - hp. page_usable s ow (a + of_nat k * L4_PAGESIZE))"
proof (induction s ow need hp address rule: take_down.induct)
  case (1 s ow need hp address)
  show ?case
  proof (cases "need \<le> hp + 1")
    case True
    with 1(3) have "need - hp = 1" by simp
    with 1(2) True show ?thesis
      by (auto simp: take_down.simps [of s ow need hp address] Let_def split: if_splits)
  next
    case False
    then obtain d where d: "need - hp = Suc d" "need - (hp + 1) = d" using 1(3) by (cases "need - hp") auto
    have u: "page_usable s ow (address - L4_PAGESIZE)"
      and r: "take_down s ow need (hp + 1) (address - L4_PAGESIZE) = (a, True)"
      using 1(2) False by (auto simp: take_down.simps [of s ow need hp address] Let_def split: if_splits)
    from 1(1) [OF refl _ _ r] u False d have IH: "a = address - L4_PAGESIZE - of_nat d * L4_PAGESIZE"
      "\<forall>k < d. page_usable s ow (a + of_nat k * L4_PAGESIZE)" by auto
    then have "page_usable s ow (a + of_nat d * L4_PAGESIZE)" using u by simp
    with IH d show ?thesis by (auto simp: less_Suc_eq algebra_simps)
  qed
qed

lemma take_down_less:
  "take_down s ow need hp address = (a, f) \<Longrightarrow> hp < need \<Longrightarrow> (need - hp) * 4096 \<le> unat address \<Longrightarrow>
   unat a < unat address"
proof (induction s ow need hp address rule: take_down.induct)
  case (1 s ow need hp address)
  have "4096 \<le> unat address" using 1(3,4) by (cases "need - hp") auto
  then have l: "unat (address - L4_PAGESIZE) = unat address - 4096"
    by (subst unat_sub_le) (auto simp: word_le_unat L4_PAGESIZE_def)
  show ?case
  proof (cases "page_usable s ow (address - L4_PAGESIZE) \<and> \<not> need \<le> hp + 1")
    case True
    then have "take_down s ow need (hp + 1) (address - L4_PAGESIZE) = (a, f)"
      using 1(2) by (simp add: take_down.simps [of s ow need hp address] Let_def)
    from 1(1) [OF refl _ _ this] True 1(4) l have "unat a < unat (address - L4_PAGESIZE)"
      by (auto simp: diff_mult_distrib)
    then show ?thesis using l by simp
  next
    case False
    then have "a = address - L4_PAGESIZE"
      using 1(2) by (auto simp: take_down.simps [of s ow need hp address] Let_def split: if_splits)
    then show ?thesis using l \<open>4096 \<le> unat address\<close> by simp
  qed
qed

lemma take_up_found:
  "take_up s ow sz need hp address = (a, True) \<Longrightarrow> hp < need \<Longrightarrow> sz = of_nat need * L4_PAGESIZE \<Longrightarrow>
   a = address - of_nat hp * L4_PAGESIZE \<and>
   (\<forall>k. hp \<le> k \<and> k < need \<longrightarrow> page_usable s ow (a + of_nat k * L4_PAGESIZE))"
proof (induction s ow sz need hp address rule: take_up.induct)
  case (1 s ow sz need hp address)
  have u: "page_usable s ow address"
    using 1(2) by (auto simp: take_up.simps [of s ow sz need hp address] split: if_splits)
  show ?case
  proof (cases "need \<le> hp + 1")
    case True
    with 1(3) have n: "need = Suc hp" by simp
    from 1(2) u True have "a = address - (sz - L4_PAGESIZE)"
      by (simp add: take_up.simps [of s ow sz need hp address])
    with 1(4) n have "a = address - of_nat hp * L4_PAGESIZE" by (simp add: algebra_simps)
    moreover have "k = hp" if "hp \<le> k \<and> k < need" for k using that n by simp
    ultimately show ?thesis using u by (metis diff_add_cancel)
  next
    case False
    with 1(2) u have r: "take_up s ow sz need (hp + 1) (address + L4_PAGESIZE) = (a, True)"
      by (simp add: take_up.simps [of s ow sz need hp address])
    from 1(1) [OF _ False r] u False 1(4) have IH: "a = address - of_nat hp * L4_PAGESIZE"
      "\<forall>k. Suc hp \<le> k \<and> k < need \<longrightarrow> page_usable s ow (a + of_nat k * L4_PAGESIZE)"
      by (auto simp: algebra_simps)
    have "page_usable s ow (a + of_nat k * L4_PAGESIZE)" if "hp \<le> k \<and> k < need" for k
      using IH u that by (cases "k = hp") auto
    with IH(1) show ?thesis by blast
  qed
qed

lemma take_up_bounds:
  "take_up s ow sz need hp address = (a, False) \<Longrightarrow> hp < need \<Longrightarrow> unat address + (need - hp) * 4096 \<le> 2 ^ 32 \<Longrightarrow>
   unat address \<le> unat a \<and> unat a + 4096 \<le> unat address + (need - hp) * 4096"
proof (induction s ow sz need hp address rule: take_up.induct)
  case (1 s ow sz need hp address)
  show ?case
  proof (cases "page_usable s ow address")
    case True
    with 1(2) have c: "\<not> need \<le> hp + 1" and
      r: "take_up s ow sz need (hp + 1) (address + L4_PAGESIZE) = (a, False)"
      by (auto simp: take_up.simps [of s ow sz need hp address] split: if_splits)
    obtain d where d: "need - hp = Suc (Suc d)" "need - (hp + 1) = Suc d"
    proof
      show "need - hp = Suc (Suc (need - hp - 2))" "need - (hp + 1) = Suc (need - hp - 2)" using c by auto
    qed
    have l: "unat (address + L4_PAGESIZE) = unat address + 4096"
      using 1(4) d by (subst unat_add_lt) (auto simp: L4_PAGESIZE_def)
    from 1(1) [OF _ c r] True c 1(4) d l show ?thesis by auto
  next
    case False
    with 1(2) have "a = address" by (auto simp: take_up.simps [of s ow sz need hp address])
    with 1(3) show ?thesis by (cases "need - hp") auto
  qed
qed

subsection \<open>Rounding\<close>

lemma res_align_mask: "\<exists>n. 12 \<le> n \<and> n \<le> 28 \<and> res_align sa = NOT (mask n)"
proof -
  let ?al = "sa AND NOT L4_PAGEMASK AND NOT RMGR_MEM_RES_FLAGS_MASK"
  define n where "n = unat (if ?al < 12 then 12 else if ?al > 28 then 28 else ?al)"
  have "res_align sa = NOT (mask n)"
    by (simp add: res_align_def Let_def n_def mask_eq_decr_exp push_bit_eq_mult)
  moreover have "12 \<le> n \<and> n \<le> 28" by (auto simp: n_def word_less_unat)
  ultimately show ?thesis by blast
qed

lemma unat_mask32: "n \<le> 32 \<Longrightarrow> unat (mask n :: u32) = 2 ^ n - 1"
proof -
  assume n: "n \<le> 32"
  have "(mask n :: nat) < 2 ^ n" by (simp add: mask_eq_exp_minus_1)
  also have "(2::nat) ^ n \<le> 2 ^ 32" using n by (intro power_increasing) auto
  finally have "unat (of_nat (mask n) :: u32) = mask n" by (intro unat_of_nat_lt) simp
  then show ?thesis by (simp add: of_nat_mask_eq mask_eq_exp_minus_1)
qed

lemma round_up_unat:
  assumes "n \<le> 32" "unat x + 2 ^ n \<le> 2 ^ 32" "x' = (x + mask n) AND NOT (mask n)"
  shows "unat x \<le> unat (x' :: u32)"
proof -
  have p: "(0::nat) < 2 ^ n" by simp
  then have "unat (x + mask n) = unat x + (2 ^ n - 1)"
    using assms(1,2) by (subst unat_add_lt) (auto simp: unat_mask32)
  then have "unat x' = (unat x + (2 ^ n - 1)) div 2 ^ n * 2 ^ n"
    by (simp add: assms(3) and_not_mask_unat)
  moreover have "unat x + (2 ^ n - 1) < (unat x + (2 ^ n - 1)) div 2 ^ n * 2 ^ n + 2 ^ n"
    using dividend_less_div_times [OF p, of "unat x + (2 ^ n - 1)"] by simp
  ultimately show ?thesis by linarith
qed

lemma round_down_unat: "unat (x AND NOT (mask n)) \<le> unat (x :: u32)"
  by (simp add: and_not_mask_unat)

lemma sz_pages:
  assumes "sz = res_size sa"
  shows "sz = of_nat (unat (sz div L4_PAGESIZE)) * L4_PAGESIZE" "unat sz = unat (sz div L4_PAGESIZE) * 4096"
proof -
  have u: "unat sz = unat sa div 4096 * 4096" by (simp add: assms res_size_def unat_and_PAGEMASK)
  then show e: "unat sz = unat (sz div L4_PAGESIZE) * 4096"
    by (simp add: unat_div L4_PAGESIZE_def)
  have "sz = of_nat (unat sz)" by simp
  also have "\<dots> = of_nat (unat (sz div L4_PAGESIZE) * 4096)" by (subst e) (rule refl)
  finally show "sz = of_nat (unat (sz div L4_PAGESIZE)) * L4_PAGESIZE" by (simp add: L4_PAGESIZE_def)
qed

subsection \<open>The outer loops\<close>

definition chunk_ok :: "rt_state \<Rightarrow> owner_t \<Rightarrow> u32 \<Rightarrow> u32 \<Rightarrow> l4_addr_t \<Rightarrow> bool" where
  "chunk_ok s ow sz align a \<longleftrightarrow>
     a AND align = a \<and> (\<forall>k < unat (sz div L4_PAGESIZE). page_usable s ow (a + of_nat k * L4_PAGESIZE))"

definition whole_pages :: "u32 \<Rightarrow> bool" where
  "whole_pages sz \<longleftrightarrow> sz = of_nat (unat (sz div L4_PAGESIZE)) * L4_PAGESIZE \<and> 0 < unat (sz div L4_PAGESIZE)"

lemma search_down_sound:
  "search_down s ow sz align mn address = Some y \<Longrightarrow>
   whole_pages sz \<longrightarrow> (\<forall>a. y = Some a \<longrightarrow> chunk_ok s ow sz align a)"
proof (erule search_down.raw_induct [where P = "\<lambda>s ow sz align mn address y.
    whole_pages sz \<longrightarrow> (\<forall>a. y = Some a \<longrightarrow> chunk_ok s ow sz align a)", rotated], intro allI impI)
  fix f s ow sz align mn address y a
  assume IH: "\<And>s ow sz align mn address y. f s ow sz align mn address = Some y \<Longrightarrow>
      whole_pages sz \<longrightarrow> (\<forall>a. y = Some a \<longrightarrow> chunk_ok s ow sz align a)"
    and e: "(if \<not> address \<ge> mn + sz then Some None
      else case take_down s ow (unat (sz div L4_PAGESIZE)) 0 (((address - sz) AND align) + sz) of
             (address, found) \<Rightarrow>
               if found then Some (Some address) else f s ow sz align mn address) = Some y"
    and w: "whole_pages sz" and y: "y = Some a"
  obtain b g where t: "take_down s ow (unat (sz div L4_PAGESIZE)) 0 (((address - sz) AND align) + sz) = (b, g)" by fastforce
  have ge: "address \<ge> mn + sz" using e y by (auto split: if_splits)
  show "chunk_ok s ow sz align a"
  proof (cases g)
    case True
    with t ge e y have "b = a" by simp
    with take_down_found [of s ow "unat (sz div L4_PAGESIZE)" 0] t True w
    have "a = ((address - sz) AND align) + sz - of_nat (unat (sz div L4_PAGESIZE)) * L4_PAGESIZE"
      "\<forall>k < unat (sz div L4_PAGESIZE). page_usable s ow (a + of_nat k * L4_PAGESIZE)" by (force simp: whole_pages_def)+
    with w show ?thesis unfolding chunk_ok_def whole_pages_def by (simp add: and.assoc)
  next
    case False
    with t ge e y have "f s ow sz align mn b = Some y" by simp
    with IH y w show ?thesis by blast
  qed
qed

lemma search_up_sound:
  "search_up s ow sz align mx address = Some y \<Longrightarrow>
   whole_pages sz \<longrightarrow> (\<forall>a. y = Some a \<longrightarrow> chunk_ok s ow sz align a \<and> a \<le> mx)"
proof (erule search_up.raw_induct [where P = "\<lambda>s ow sz align mx address y.
    whole_pages sz \<longrightarrow> (\<forall>a. y = Some a \<longrightarrow> chunk_ok s ow sz align a \<and> a \<le> mx)", rotated], intro allI impI)
  fix f s ow sz align mx address y a
  assume IH: "\<And>s ow sz align mx address y. f s ow sz align mx address = Some y \<Longrightarrow>
      whole_pages sz \<longrightarrow> (\<forall>a. y = Some a \<longrightarrow> chunk_ok s ow sz align a \<and> a \<le> mx)"
    and e: "(let address = (address + NOT align) AND align in
      if address > mx then Some None
      else case take_up s ow sz (unat (sz div L4_PAGESIZE)) 0 address of
             (address, found) \<Rightarrow>
               if found then Some (Some address) else f s ow sz align mx (address + L4_PAGESIZE)) = Some y"
    and w: "whole_pages sz" and y: "y = Some a"
  let ?a = "(address + NOT align) AND align"
  obtain b g where t: "take_up s ow sz (unat (sz div L4_PAGESIZE)) 0 ?a = (b, g)" by fastforce
  have le: "\<not> ?a > mx" using e y by (auto simp: Let_def)
  show "chunk_ok s ow sz align a \<and> a \<le> mx"
  proof (cases g)
    case True
    with t le e y have "b = a" by (simp add: Let_def)
    with take_up_found [of s ow sz "unat (sz div L4_PAGESIZE)" 0 ?a] t True w
    have "a = ?a" "\<forall>k < unat (sz div L4_PAGESIZE). page_usable s ow (a + of_nat k * L4_PAGESIZE)" by (force simp: whole_pages_def)+
    with le show ?thesis by (simp add: chunk_ok_def and.assoc)
  next
    case False
    with t le e y have "f s ow sz align mx (b + L4_PAGESIZE) = Some y" by (simp add: Let_def)
    with IH y w show ?thesis by blast
  qed
qed

lemma search_down_total:
  assumes al: "align = NOT (mask n)" and need: "0 < unat (sz div L4_PAGESIZE)"
    and sz: "unat sz = unat (sz div L4_PAGESIZE) * 4096" and mn: "unat mn + unat sz < 2 ^ 32"
  shows "\<exists>y. search_down s ow sz align mn address = Some y"
proof (induction "unat address" arbitrary: address rule: less_induct)
  case less
  let ?x = "(address - sz) AND align"
  obtain b g where t: "take_down s ow (unat (sz div L4_PAGESIZE)) 0 (?x + sz) = (b, g)" by fastforce
  show ?case
  proof (cases "address \<ge> mn + sz \<and> \<not> g")
    case True
    have m: "unat (mn + sz) = unat mn + unat sz" using mn by (simp add: unat_add_lt)
    with True have "unat sz \<le> unat address" by (simp add: word_le_unat)
    then have "unat ?x \<le> unat address - unat sz"
      using round_down_unat [of "address - sz" n] by (simp add: al unat_sub_le word_le_unat)
    then have x: "unat (?x + sz) = unat ?x + unat sz" "unat ?x + unat sz \<le> unat address"
    proof -
      show "unat ?x + unat sz \<le> unat address"
        using \<open>unat ?x \<le> unat address - unat sz\<close> \<open>unat sz \<le> unat address\<close> by linarith
      then show "unat (?x + sz) = unat ?x + unat sz"
        by (intro unat_add_lt) (rule le_less_trans [OF _ unsigned_less [where ?'a = nat]])
    qed
    have "unat b < unat (?x + sz)" using take_down_less [OF t need] x sz by simp
    with x less [of b] obtain y where "search_down s ow sz align mn b = Some y" by auto
    with True t show ?thesis by (subst search_down.simps) simp
  next
    case False
    with t show ?thesis by (subst search_down.simps) auto
  qed
qed

lemma search_up_total:
  assumes al: "align = NOT (mask n)" "n \<le> 28" and need: "0 < unat (sz div L4_PAGESIZE)"
    and sz: "unat sz = unat (sz div L4_PAGESIZE) * 4096" and mx: "unat mx + unat sz \<le> 0xE0000000"
  shows "unat address \<le> 0xE0000000 \<Longrightarrow> \<exists>y. search_up s ow sz align mx address = Some y"
proof (induction "0xE0000000 - unat address" arbitrary: address rule: less_induct)
  case less
  let ?x = "(address + NOT align) AND align"
  obtain b g where t: "take_up s ow sz (unat (sz div L4_PAGESIZE)) 0 ?x = (b, g)" by fastforce
  show ?case
  proof (cases "\<not> ?x > mx \<and> \<not> g")
    case True
    have "(2::nat) ^ n \<le> 2 ^ 28" using al(2) by (intro power_increasing) auto
    then have x1: "unat address \<le> unat ?x"
      using less(2) al by (intro round_up_unat [of n]) auto
    have x2: "unat ?x \<le> unat mx" using True by (simp add: word_less_unat)
    have b: "unat ?x \<le> unat b" "unat b + 4096 \<le> unat ?x + unat sz"
      using take_up_bounds [of s ow sz "unat (sz div L4_PAGESIZE)" 0 ?x b] t True need x2 mx sz by auto
    then have b1: "unat (b + L4_PAGESIZE) = unat b + 4096"
      using x2 mx by (subst unat_add_lt) (auto simp: L4_PAGESIZE_def)
    have b2: "unat (b + L4_PAGESIZE) \<le> 0xE0000000" using b b1 x2 mx by linarith
    moreover have "0xE0000000 - unat (b + L4_PAGESIZE) < 0xE0000000 - unat address"
      using b b1 b2 x1 by linarith
    ultimately obtain y where "search_up s ow sz align mx (b + L4_PAGESIZE) = Some y"
      using less(1) by blast
    with True t show ?thesis by (subst search_up.simps) (simp add: Let_def)
  next
    case False
    with t show ?thesis by (subst search_up.simps) (auto simp: Let_def)
  qed
qed

subsection \<open>Allocating the chunk\<close>

lemma reserve_pages_run: "is_client ow \<Longrightarrow> mem_run (replicate n ow) s (reserve_pages n a ow s)"
  by (induction n a ow s rule: reserve_pages.induct) (auto intro: run_nil run_cons step_alloc_page)

text \<open>A page of the owner stays its page, and every other page keeps its owner or was free.\<close>

lemma reserve_pages_owner:
  "mm_inv s \<Longrightarrow> is_client ow \<Longrightarrow>
   page_owner (reserve_pages n a ow s) p = page_owner s p \<or>
   page_owner s p = O_FREE \<and> page_owner (reserve_pages n a ow s) p = ow"
proof (induction n a ow s rule: reserve_pages.induct)
  case (2 n a ow s)
  let ?s = "fst (memmap_alloc_page a ow s)"
  obtain r where e: "memmap_alloc_page a ow s = (?s, r)" by (cases "memmap_alloc_page a ow s") simp
  have inv: "mm_inv ?s" using 2(2) by (rule memmap_alloc_page_inv)
  from 2(1) [OF inv 2(3)] alloc_page_refines(1) [OF 2(2,3) e, of p] alloc_page_refines(2) [OF 2(2,3) e] 2(3)
  show ?case by (auto split: if_splits)
qed simp

text \<open>The charge of a granted page.\<close>

definition charge_mem :: "quota_t \<Rightarrow> quota_t" where
  "charge_mem q = q\<lparr>q_mem := (q_mem q)\<lparr>rq_current := rq_current (q_mem q) + L4_PAGESIZE\<rparr>\<rparr>"

lemma alloc_page_charge:
  assumes "is_client ow" "a < rs_mem_high s" "mm_inv s" "page_owner s (page_no a) = O_FREE" "quota_check_mem s ow a L4_PAGESIZE"
  shows "rs_quota (fst (memmap_alloc_page a ow s)) = (rs_quota s)(unat ow := charge_mem (rs_quota s (unat ow)))"
proof -
  let ?sp = "rs_memmap4mb s (superpage_no a)"
  have k: "\<not> SUPERPAGE_MAX \<le> superpage_no a" using superpage_no_lt_MAX [of a] by simp
  have "sp_owner ?sp \<in> {O_FREE, O_RESERVED}" "rs_memmap s (page_no a) = O_FREE"
    using assms(4) mm_invD [OF assms(3), of a] page_in_superpage [of a]
    by (auto simp: page_owner_def Let_def page_no_div sp_ok_def split: if_splits)
  with assms(1,2,5) k show ?thesis
    by (auto simp: memmap_alloc_page_def Let_def ram_base_def is_client_def quota_alloc_mem_def
        quota_check_mem_def charge_mem_def upd_quota_def split: if_splits)
qed

text \<open>\<open>range_fits q a\<close>: the page at \<open>a\<close> is inside the range of the quota.\<close>

definition range_fits :: "addr_quota_t \<Rightarrow> l4_addr_t \<Rightarrow> bool" where
  "range_fits q a \<longleftrightarrow> rq_low q \<le> a \<and> rq_high q \<ge> a + L4_PAGESIZE - 1"

lemma quota_check_mem_page:
  "a < rs_mem_high s \<Longrightarrow> quota_check_mem s ow a L4_PAGESIZE \<longleftrightarrow>
     unat (rq_current (q_mem (rs_quota s (unat ow)))) + 4096 \<le> unat (rq_max (q_mem (rs_quota s (unat ow))))
     \<and> range_fits (q_mem (rs_quota s (unat ow))) a"
  by (auto simp: quota_check_mem_def quota_check_addr_def range_check_def range_fits_def word_le_unat
      unat_sub_le L4_PAGESIZE_def)

lemma page_no_add:
  assumes "unat a + n * 4096 \<le> 2 ^ 32" "k < n"
  shows "page_no (a + of_nat k * L4_PAGESIZE) = page_no a + k"
proof -
  have "k * 4096 < 2 ^ 32" "unat a + k * 4096 < 2 ^ 32" using assms by auto
  then have "unat (of_nat k * L4_PAGESIZE) = k * 4096"
    using unat_of_nat_lt [where ?'a = 32, of "k * 4096"] by (simp add: L4_PAGESIZE_def)
  with \<open>unat a + k * 4096 < 2 ^ 32\<close> have "unat (a + of_nat k * L4_PAGESIZE) = unat a + k * 4096"
    by (subst unat_add_lt) auto
  then show ?thesis by (simp add: page_no_eq)
qed

lemma reserve_pages_granted:
  "mm_inv s \<Longrightarrow> is_client ow \<Longrightarrow> unat a + n * 4096 \<le> 2 ^ 32 \<Longrightarrow>
   (\<forall>k < n. memmap_owner_page s (a + of_nat k * L4_PAGESIZE) = O_FREE
          \<and> range_fits (q_mem (rs_quota s (unat ow))) (a + of_nat k * L4_PAGESIZE)) \<Longrightarrow>
   unat (rq_current (q_mem (rs_quota s (unat ow)))) + n * 4096 \<le> unat (rq_max (q_mem (rs_quota s (unat ow)))) \<Longrightarrow>
   k < n \<Longrightarrow> memmap_owner_page (reserve_pages n a ow s) (a + of_nat k * L4_PAGESIZE) = ow"
proof (induction n a ow s arbitrary: k rule: reserve_pages.induct)
  case (2 n a ow s)
  let ?s = "fst (memmap_alloc_page a ow s)" and ?q = "q_mem (rs_quota s (unat ow))"
  have free: "memmap_owner_page s a = O_FREE" and fits: "range_fits ?q a" using 2(5) by force+
  then have lt: "a < rs_mem_high s" and pf: "page_owner s (page_no a) = O_FREE"
    by (auto simp: memmap_owner_page_eq split: if_splits)
  have q: "quota_check_mem s ow a L4_PAGESIZE" using fits lt 2(6) by (simp add: quota_check_mem_page)
  have al: "memmap_alloc_page a ow s = (?s, True)"
    using alloc_page_result [OF 2(2,3), of a] lt pf q by (cases "memmap_alloc_page a ow s") auto
  have inv: "mm_inv ?s" using 2(2) by (rule memmap_alloc_page_inv)
  have own: "page_owner ?s p = (if p = page_no a then ow else page_owner s p)" for p
    using alloc_page_refines(1) [OF 2(2,3) al] by simp
  have cur: "q_mem (rs_quota ?s (unat ow)) = ?q\<lparr>rq_current := rq_current ?q + L4_PAGESIZE\<rparr>"
    using alloc_page_charge [OF 2(3) lt 2(2) pf q] by (simp add: charge_mem_def)
  have cu: "unat (rq_current ?q + L4_PAGESIZE) = unat (rq_current ?q) + 4096"
    using 2(6) le_less_trans [OF _ unsigned_less [where ?'a = nat, of "rq_max ?q"]]
    by (subst unat_add_lt) (auto simp: L4_PAGESIZE_def)
  show ?case
  proof (cases k)
    case 0
    have "page_owner ?s (page_no a) = ow" using own by simp
    moreover have "page_owner (reserve_pages n (a + L4_PAGESIZE) ow ?s) (page_no a) = ow"
    proof (rule ccontr)
      assume ne: "page_owner (reserve_pages n (a + L4_PAGESIZE) ow ?s) (page_no a) \<noteq> ow"
      show False using reserve_pages_owner [OF inv 2(3), of n "a + L4_PAGESIZE" "page_no a"] own ne by simp
    qed
    ultimately show ?thesis
      using 0 lt mem_run_mem_high [OF reserve_pages_run [OF 2(3), of n ?s "a + L4_PAGESIZE"]]
      by (simp add: memmap_owner_page_eq)
  next
    case (Suc k')
    have n: "0 < n" using 2(7) Suc by simp
    have a1: "unat (a + L4_PAGESIZE) = unat a + 4096"
      using 2(4) n by (subst unat_add_lt) (auto simp: L4_PAGESIZE_def)
    have "memmap_owner_page ?s (a + L4_PAGESIZE + of_nat j * L4_PAGESIZE) = O_FREE
        \<and> range_fits (q_mem (rs_quota ?s (unat ow))) (a + L4_PAGESIZE + of_nat j * L4_PAGESIZE)" if "j < n" for j
    proof -
      have e: "a + L4_PAGESIZE + of_nat j * L4_PAGESIZE = a + of_nat (Suc j) * L4_PAGESIZE"
        by (simp add: algebra_simps)
      have "page_no (a + of_nat (Suc j) * L4_PAGESIZE) \<noteq> page_no a"
        using page_no_add [OF 2(4), of "Suc j"] that by simp
      with 2(5) that show ?thesis unfolding e
        by (auto simp: memmap_owner_page_eq own cur range_fits_def split: if_splits)
    qed
    then have "memmap_owner_page (reserve_pages n (a + L4_PAGESIZE) ow ?s) (a + L4_PAGESIZE + of_nat k' * L4_PAGESIZE) = ow"
      using 2(1) [OF inv 2(3), of k'] a1 2(4,6,7) Suc cur cu by auto
    then show ?thesis using Suc by (simp add: algebra_simps)
  qed
qed simp

section \<open>Properties\<close>

lemma reserve_range_cases:
  assumes "reserve_range sa ow lo hi s = Some (s', a)" "res_size sa \<noteq> 0"
  obtains (none) "s' = s" "a = -1"
  | (found) "chunk_ok s ow (res_size sa) (res_align sa) a"
      "s' = reserve_pages (if a < a + res_size sa then unat (res_size sa div L4_PAGESIZE) else 0) a ow s"
proof -
  have u: "unat (res_size sa) = unat (res_size sa div L4_PAGESIZE) * 4096" using sz_pages(2) by simp
  have "0 < unat (res_size sa div L4_PAGESIZE)"
  proof (rule ccontr)
    assume "\<not> 0 < unat (res_size sa div L4_PAGESIZE)"
    with u have "unat (res_size sa) = 0" by simp
    with assms(2) show False by (simp add: unat_eq_0)
  qed
  then have w: "whole_pages (res_size sa)" using sz_pages(1) unfolding whole_pages_def by blast
  have "s' = s \<and> a = -1 \<or> chunk_ok s ow (res_size sa) (res_align sa) a \<and>
      s' = reserve_pages (if a < a + res_size sa then unat (res_size sa div L4_PAGESIZE) else 0) a ow s"
    using assms(1) w search_up_sound search_down_sound
    by (fastforce simp: reserve_range_def Let_def split: if_splits option.splits)
  then show thesis using none found by blast
qed


text \<open>Reserving 8 KB in a free memory of 16 MB takes the two topmost pages.\<close>

lemma demo_usable: "page_usable demo_state 5 0xFFF000" "page_usable demo_state 5 0xFFE000"
  by (simp_all add: page_usable_def quota_check_mem_def quota_check_addr_def range_check_def
      memmap_owner_page_def demo_state_def demo_quota_def ram_base_def L4_PAGESIZE_def page_no_eq
      superpage_no_eq SUPERPAGE_MAX_def O_FREE_def O_RESERVED_def Let_def)

lemma demo_take: "take_down demo_state 5 2 0 0x1000000 = (0xFFE000, True)"
  by (subst take_down.simps, simp add: demo_usable L4_PAGESIZE_def,
      subst take_down.simps, simp add: demo_usable L4_PAGESIZE_def)

lemma demo_search: "search_down demo_state 5 0x2000 0xFFFFF000 0 0x1000000 = Some (Some 0xFFE000)"
  by (subst search_down.simps) (simp add: demo_take L4_PAGESIZE_def)

lemma demo_reserved: "reserve_range 0x2000 5 0 0 demo_state = Some (reserve_pages 2 0xFFE000 5 demo_state, 0xFFE000)"
proof -
  have "res_size 0x2000 = 0x2000" "res_flags 0x2000 = 0" "res_align 0x2000 = 0xFFFFF000" "res_min 0 = 0"
    "res_max demo_state 0 0 = 0x1000000"
    by (simp_all add: res_size_def res_flags_def res_align_def res_min_def res_max_def Let_def L4_PAGEMASK_def
        L4_PAGESIZE_def RMGR_MEM_RES_FLAGS_MASK_def RMGR_MEM_RES_DMA_ABLE_def ram_base_def demo_state_def)
  then show ?thesis by (simp add: reserve_range_def Let_def demo_search L4_PAGESIZE_def)
qed

lemma demo_size: "res_size 0x2000 = 0x2000"
  by (simp add: res_size_def L4_PAGEMASK_def L4_PAGESIZE_def)


text \<open>
  \<open>reserve_range\<close> grants what it promises when the owner's memory quota covers the
  whole size: every page of the returned range then belongs to the owner.
\<close>

theorem reserve_range_granted:
  assumes "mm_inv s" "is_client ow" "res_size sa \<noteq> 0" "reserve_range sa ow lo hi s = Some (s', a)" "a \<noteq> -1"
    and "unat (rq_current (q_mem (rs_quota s (unat ow)))) + unat (res_size sa) \<le> unat (rq_max (q_mem (rs_quota s (unat ow))))"
    and "unat a + unat (res_size sa) < 2 ^ 32" "k < unat (res_size sa div L4_PAGESIZE)"
  shows "memmap_owner_page s' (a + of_nat k * L4_PAGESIZE) = ow"
proof -
  let ?n = "unat (res_size sa div L4_PAGESIZE)"
  have u: "unat (res_size sa) = ?n * 4096" using sz_pages(2) by simp
  have "unat (a + res_size sa) = unat a + unat (res_size sa)" using assms(7) by (simp add: unat_add_lt)
  then have lt: "a < a + res_size sa" using assms(3) by (simp add: word_less_unat unat_gt_0)
  from assms(4,3) have "chunk_ok s ow (res_size sa) (res_align sa) a" and s': "s' = reserve_pages ?n a ow s"
    by (cases rule: reserve_range_cases; use assms(5) lt in simp)+
  then have us: "\<forall>k < ?n. page_usable s ow (a + of_nat k * L4_PAGESIZE)" by (simp add: chunk_ok_def)
  have "memmap_owner_page s (a + of_nat j * L4_PAGESIZE) = O_FREE
      \<and> range_fits (q_mem (rs_quota s (unat ow))) (a + of_nat j * L4_PAGESIZE)" if "j < ?n" for j
  proof -
    have j: "quota_check_mem s ow (a + of_nat j * L4_PAGESIZE) L4_PAGESIZE"
      "memmap_owner_page s (a + of_nat j * L4_PAGESIZE) = O_FREE"
      using us that by (auto simp: page_usable_def)
    then have "a + of_nat j * L4_PAGESIZE < rs_mem_high s" by (auto simp: memmap_owner_page_eq split: if_splits)
    with j show ?thesis by (simp add: quota_check_mem_page)
  qed
  then show ?thesis unfolding s'
    using reserve_pages_granted [OF assms(1,2), of a ?n k] assms(6,7,8) u by simp
qed

theorem reserve_range_granted_witness:
  "memmap_owner_page (reserve_pages 2 0xFFE000 5 demo_state) 0xFFF000 = 5"
  using reserve_range_granted [OF demo_mm_inv is_client_numerals(1) _ demo_reserved, of 1]
  by (simp add: demo_size demo_state_def demo_quota_def L4_PAGESIZE_def unsigned_minus_1_eq_mask mask_eq_exp_minus_1)

text \<open>
  C29. \<open>reserve_range\<close> returns: for a positive size, with memory below 3.5 GB and the
  rounded lower bound not above the upper bound, both searches end.
\<close>

theorem reserve_range_terminates:
  assumes "res_size sa \<noteq> 0" "unat (rs_mem_high s) \<le> 0xE0000000"
    and "res_min lo \<le> res_max s (res_flags sa) hi"
  shows "\<exists>y. reserve_range sa ow lo hi s = Some y"
proof -
  let ?sz = "res_size sa" and ?mx = "res_max s (res_flags sa) hi" and ?mn = "res_min lo"
  obtain n where n: "n \<le> 28" "res_align sa = NOT (mask n)" using res_align_mask by blast
  have u: "unat ?sz = unat (?sz div L4_PAGESIZE) * 4096" using sz_pages(2) by simp
  have need: "0 < unat (?sz div L4_PAGESIZE)"
    using u assms(1) by (cases "unat (?sz div L4_PAGESIZE)") (auto simp: unat_eq_0)
  have "unat ?mx \<le> unat (rs_mem_high s)"
    by (auto simp: res_max_def Let_def ram_base_def L4_PAGEMASK_mask min_def word_le_unat word_less_unat
        intro: le_trans [OF round_down_unat])
  with assms(2) have mx: "unat ?mx \<le> 0xE0000000" by simp
  show ?thesis
  proof (cases "?mx - ?mn < ?sz")
    case True
    then show ?thesis by (simp add: reserve_range_def Let_def)
  next
    case False
    then have d: "unat ?sz \<le> unat ?mx - unat ?mn" "unat ?mn \<le> unat ?mx"
      using assms(3) by (auto simp: word_less_unat word_le_unat unat_sub_le)
    then have s1: "unat (?mx - ?sz) + unat ?sz = unat ?mx"
      by (subst unat_sub_le) (auto simp: word_le_unat)
    have "\<exists>y. search_up s ow ?sz (res_align sa) (?mx - ?sz) ?mn = Some y"
      using search_up_total [OF n(2,1) need u, of "?mx - ?sz"] s1 mx d by simp
    moreover have "\<exists>y. search_down s ow ?sz (res_align sa) ?mn ?mx = Some y"
      using d mx by (intro search_down_total [OF n(2) need u]) simp
    ultimately show ?thesis
      using False by (auto simp: reserve_range_def Let_def split: option.splits)
  qed
qed

theorem reserve_range_terminates_witness: "\<exists>y. reserve_range 0x2000 5 0 0 demo_state = Some y"
  by (rule reserve_range_terminates)
    (simp_all add: demo_size demo_state_def res_min_def res_max_def ram_base_def L4_PAGEMASK_def L4_PAGESIZE_def)

text \<open>
  \<open>find_free_chunk\<close> returns a chunk only of free pages, in both directions, and
  always returns where the end of memory is at least a page below 4 GB.
\<close>

theorem find_free_chunk_sound:
  assumes "unat (rs_mem_high s) \<le> 0xFFFFF000"
  shows "\<exists>a. find_free_chunk s pages down = Some a \<and>
    (a \<noteq> 0 \<longrightarrow> (\<forall>k < unat pages. memmap_owner_page s (a + of_nat k * L4_PAGESIZE) = O_FREE))"
proof (cases down)
  case True
  obtain i a where c: "chunk_down s pages 0 (rs_mem_high s - L4_PAGESIZE) = (i, a)" by fastforce
  have "memmap_owner_page s (a + L4_PAGESIZE + of_nat k * L4_PAGESIZE) = O_FREE" if "k < i" for k
    by (rule chunk_down_free [OF c _ that]) simp
  with c True show ?thesis by (auto simp: find_free_chunk_def)
next
  case False
  obtain i a where c: "chunk_up s pages 0 0x400000 = Some (i, a)"
    using chunk_up_total [OF assms, of pages 0 "0x400000"] by auto
  have fr: "memmap_owner_page s (a - of_nat (Suc k) * L4_PAGESIZE) = O_FREE" if "k < i" for k
    using chunk_up_free [OF c] that by simp
  have "memmap_owner_page s (a - pages * L4_PAGESIZE + of_nat k * L4_PAGESIZE) = O_FREE"
    if "unat pages \<le> i" "k < unat pages" for k
  proof -
    define j where "j = unat pages - Suc k"
    have j: "unat pages = Suc j + k" using that(2) by (simp add: j_def)
    have "pages = of_nat (unat pages)" by simp
    then have "pages = of_nat (Suc j) + of_nat k" unfolding j by simp
    then have e: "a - pages * L4_PAGESIZE + of_nat k * L4_PAGESIZE = a - of_nat (Suc j) * L4_PAGESIZE"
      by (simp add: algebra_simps)
    show ?thesis unfolding e using fr [of j] j that by simp
  qed
  with c False show ?thesis by (auto simp: find_free_chunk_def)
qed

theorem find_free_chunk_sound_witness: "\<exists>a. find_free_chunk demo_state 4 True = Some a"
  using find_free_chunk_sound [of demo_state 4 True] by (auto simp: demo_state_def)

section \<open>A request that never returns\<close>

text \<open>A downward request for no pages at all, where no page is usable, keeps the server in its loop.\<close>

lemma search_down_diverges:
  "search_down s ow sz align mn address = Some y \<Longrightarrow>
   sz = 0 \<longrightarrow> mn = 0 \<longrightarrow> (\<forall>a. \<not> page_usable s ow a) \<longrightarrow> False"
proof (erule search_down.raw_induct [where P = "\<lambda>s ow sz align mn address y.
    sz = 0 \<longrightarrow> mn = 0 \<longrightarrow> (\<forall>a. \<not> page_usable s ow a) \<longrightarrow> False", rotated], intro impI)
  fix f s ow sz align mn address y
  assume IH: "\<And>s ow sz align mn address y. f s ow sz align mn address = Some y \<Longrightarrow>
      sz = 0 \<longrightarrow> mn = 0 \<longrightarrow> (\<forall>a. \<not> page_usable s ow a) \<longrightarrow> False"
    and e: "(if \<not> address \<ge> mn + sz then Some None
      else case take_down s ow (unat (sz div L4_PAGESIZE)) 0 (((address - sz) AND align) + sz) of
             (address, found) \<Rightarrow>
               if found then Some (Some address) else f s ow sz align mn address) = Some y"
    and h: "sz = 0" "mn = 0" "\<forall>a. \<not> page_usable s ow a"
  from e h have "f s ow 0 align 0 ((address AND align) - L4_PAGESIZE) = Some y" by (simp add: take_down.simps)
  from IH [OF this] h show False by blast
qed

lemma reserve_range_size_zero_diverges:
  assumes "\<forall>a. \<not> page_usable s ow a"
  shows "reserve_range 0 ow 0 0 s = None"
proof -
  have "search_down s ow 0 al 0 a = None" for al a
  proof (cases "search_down s ow 0 al 0 a")
    case (Some y)
    from search_down_diverges [OF this] assms show ?thesis by blast
  qed
  moreover have "(0xFFF :: u32) AND 0xFFFFF000 = 0" by simp
  ultimately show ?thesis
    by (simp add: reserve_range_def res_size_def res_flags_def res_min_def ram_base_def L4_PAGEMASK_def
        L4_PAGESIZE_def Let_def)
qed

section \<open>A result below the requested range\<close>

text \<open>
  The downward search rounds to the alignment after it compared with the lower bound:
  a page requested between 0x5000 and 0x8000 with 64 KB alignment is placed at 0.
\<close>

lemma reserve_range_below_range_low:
  "reserve_range 0x1010 5 0x5000 0x8000 demo_state = Some (reserve_pages (Suc 0) 0 5 demo_state, 0)"
proof -
  have u: "page_usable demo_state 5 0"
    by (simp add: page_usable_def quota_check_mem_def quota_check_addr_def range_check_def
      memmap_owner_page_def demo_state_def demo_quota_def ram_base_def L4_PAGESIZE_def page_no_eq
      superpage_no_eq SUPERPAGE_MAX_def O_FREE_def O_RESERVED_def Let_def)
  have t: "take_down demo_state 5 (Suc 0) 0 0x1000 = (0, True)"
    by (subst take_down.simps) (simp add: u L4_PAGESIZE_def)
  have "search_down demo_state 5 0x1000 0xFFFF0000 0x5000 0x8000 = Some (Some 0)"
    by (subst search_down.simps) (simp add: t L4_PAGESIZE_def)
  moreover have "res_size 0x1010 = 0x1000" "res_flags 0x1010 = 0" "res_align 0x1010 = 0xFFFF0000"
    "res_min 0x5000 = 0x5000" "res_max demo_state 0 0x8000 = 0x8000"
    by (simp_all add: res_size_def res_flags_def res_align_def res_min_def res_max_def Let_def L4_PAGEMASK_def
        L4_PAGESIZE_def RMGR_MEM_RES_FLAGS_MASK_def RMGR_MEM_RES_DMA_ABLE_def ram_base_def demo_state_def)
  ultimately show ?thesis by (simp add: reserve_range_def Let_def L4_PAGESIZE_def)
qed

end
