(* ===== verification/RtTables.thy ===== *)
theory RtTables
  imports Quota OwnerTable
begin

text \<open>
  The roottask's tables of tasks, interrupts, small address spaces and I/O ports:
  \<open>task.c\<close>, \<open>irq.c\<close>, \<open>small.c\<close> and \<open>iomap.c\<close>. Each is an array of owners. Only the
  task table checks its index; in the others an index past the array is a fault.
\<close>

section \<open>Tasks (task.c)\<close>

definition task_init :: "rt_state \<Rightarrow> rt_state" where
  "task_init s = s\<lparr>rs_task := memset_arr (rs_task s) 0 O_RESERVED RMGR_TASK_MAX\<rparr>"

text \<open>The loop writes the elements strictly between \<open>begin\<close> and \<open>end\<close>.\<close>

definition task_set :: "u32 \<Rightarrow> u32 \<Rightarrow> owner_t \<Rightarrow> rt_state \<Rightarrow> rt_state res" where
  "task_set bgn en st s =
     (if \<not> (bgn + 1 < en) then Inr s
      else if unat en \<le> RMGR_TASK_MAX
      then Inr (s\<lparr>rs_task := memset_arr (rs_task s) (unat (bgn + 1)) st (unat en - unat (bgn + 1))\<rparr>)
      else Inl OutOfBounds)"

definition task_alloc :: "u32 \<Rightarrow> owner_t \<Rightarrow> bool \<Rightarrow> rt_state \<Rightarrow> rt_state \<times> bool" where
  "task_alloc taskno ow allow_realloc s =
     (if unat taskno \<ge> RMGR_TASK_MAX then (s, False)
      else if rs_task s (unat taskno) = ow \<and> allow_realloc then (s, True)
      else if rs_task s (unat taskno) \<noteq> O_FREE then (s, False)
      else (case quota_alloc_task ow taskno s of
              (s1, granted) \<Rightarrow>
                if \<not> granted then (s1, False)
                else (s1\<lparr>rs_task := (rs_task s1)(unat taskno := ow)\<rparr>, True)))"

definition task_free :: "u32 \<Rightarrow> owner_t \<Rightarrow> rt_state \<Rightarrow> rt_state \<times> bool" where
  "task_free taskno ow s =
     (if unat taskno \<ge> RMGR_TASK_MAX then (s, False)
      else if rs_task s (unat taskno) \<noteq> ow \<and> rs_task s (unat taskno) \<noteq> O_FREE then (s, False)
      else if rs_task s (unat taskno) \<noteq> O_FREE
      then (let s1 = fst (quota_free_task ow taskno s)
            in (s1\<lparr>rs_task := (rs_task s1)(unat taskno := O_FREE)\<rparr>, True))
      else (s, True))"

text \<open>\<open>task_next\<close> and \<open>task_next_explicit\<close> return -1 or the task number.\<close>

definition task_next :: "u32 \<Rightarrow> rt_state \<Rightarrow> rt_state \<times> int" where
  "task_next ow s =
     (if unat ow \<ge> RMGR_TASK_MAX then (s, -1)
      else (case first_index (\<lambda>i. rs_task s i = O_FREE) 0 RMGR_TASK_MAX of
              None \<Rightarrow> (s, -1)
            | Some i \<Rightarrow>
                (case quota_alloc_task (ucast ow) (of_nat i) s of
                   (s1, granted) \<Rightarrow>
                     if \<not> granted then (s1, -1)
                     else (s1\<lparr>rs_task := (rs_task s1)(i := ucast ow)\<rparr>, int i))))"

definition task_next_explicit :: "u32 \<Rightarrow> u32 \<Rightarrow> rt_state \<Rightarrow> rt_state \<times> int" where
  "task_next_explicit ow task s =
     (if unat ow \<ge> RMGR_TASK_MAX \<or> unat task \<ge> RMGR_TASK_MAX then (s, -1)
      else if rs_task s (unat task) \<noteq> O_FREE then (s, -1)
      else (s\<lparr>rs_task := (rs_task s)(unat task := ucast ow)\<rparr>, uint task))"

fun task_free_from :: "nat \<Rightarrow> nat \<Rightarrow> owner_t \<Rightarrow> rt_state \<Rightarrow> rt_state" where
  "task_free_from i 0 ow s = s"
| "task_free_from i (Suc n) ow s = task_free_from (Suc i) n ow (fst (task_free (of_nat i) ow s))"

definition task_free_owned :: "u32 \<Rightarrow> rt_state \<Rightarrow> rt_state" where
  "task_free_owned ow = task_free_from 0 RMGR_TASK_MAX (ucast ow)"

definition task_owner :: "rt_state \<Rightarrow> u32 \<Rightarrow> owner_t" where
  "task_owner s taskno =
     (if unat taskno \<ge> RMGR_TASK_MAX then O_RESERVED else rs_task s (unat taskno))"

section \<open>Interrupts (irq.c)\<close>

definition irq_init :: "rt_state \<Rightarrow> rt_state" where
  "irq_init s = s\<lparr>rs_irq := memset_arr (rs_irq s) 0 O_RESERVED RMGR_IRQ_MAX\<rparr>"

definition irq_alloc :: "u32 \<Rightarrow> owner_t \<Rightarrow> rt_state \<Rightarrow> (rt_state \<times> bool) res" where
  "irq_alloc irqno ow s =
     (if unat irqno \<ge> RMGR_IRQ_MAX then Inl OutOfBounds
      else if rs_irq s (unat irqno) = ow then Inr (s, True)
      else if rs_irq s (unat irqno) \<noteq> O_FREE then Inr (s, False)
      else if \<not> quota_alloc_irq s ow irqno then Inr (s, False)
      else Inr (s\<lparr>rs_irq := (rs_irq s)(unat irqno := ow)\<rparr>, True))"

definition irq_free :: "u32 \<Rightarrow> owner_t \<Rightarrow> rt_state \<Rightarrow> (rt_state \<times> bool) res" where
  "irq_free irqno ow s =
     (if unat irqno \<ge> RMGR_IRQ_MAX then Inl OutOfBounds
      else if rs_irq s (unat irqno) \<noteq> ow \<and> rs_irq s (unat irqno) \<noteq> O_FREE then Inr (s, False)
      else if rs_irq s (unat irqno) \<noteq> O_FREE
      then (let s1 = fst (quota_free_irq ow irqno s)
            in Inr (s1\<lparr>rs_irq := (rs_irq s1)(unat irqno := O_FREE)\<rparr>, True))
      else Inr (s, True))"

definition irq_owner :: "rt_state \<Rightarrow> u32 \<Rightarrow> owner_t res" where
  "irq_owner s irqno = (if unat irqno \<ge> RMGR_IRQ_MAX then Inl OutOfBounds else Inr (rs_irq s (unat irqno)))"

section \<open>Small address spaces (small.c)\<close>

definition small_init :: "rt_state \<Rightarrow> rt_state" where
  "small_init s = s\<lparr>rs_small := memset_arr (rs_small s) 0 O_RESERVED RMGR_SMALL_MAX\<rparr>"

definition small_alloc :: "u32 \<Rightarrow> owner_t \<Rightarrow> rt_state \<Rightarrow> (rt_state \<times> bool) res" where
  "small_alloc smallno ow s =
     (if unat smallno \<ge> RMGR_SMALL_MAX then Inl OutOfBounds
      else if rs_small s (unat smallno) = ow then Inr (s, True)
      else if rs_small s (unat smallno) \<noteq> O_FREE then Inr (s, False)
      else (case quota_alloc_small ow smallno s of
              (s1, granted) \<Rightarrow>
                if \<not> granted then Inr (s1, False)
                else Inr (s1\<lparr>rs_small := (rs_small s1)(unat smallno := ow)\<rparr>, True)))"

definition small_free :: "u32 \<Rightarrow> owner_t \<Rightarrow> rt_state \<Rightarrow> (rt_state \<times> bool) res" where
  "small_free smallno ow s =
     (if unat smallno \<ge> RMGR_SMALL_MAX then Inl OutOfBounds
      else if rs_small s (unat smallno) \<noteq> ow \<and> rs_small s (unat smallno) \<noteq> O_FREE then Inr (s, False)
      else if rs_small s (unat smallno) \<noteq> O_FREE
      then (let s1 = fst (quota_free_small ow smallno s)
            in Inr (s1\<lparr>rs_small := (rs_small s1)(unat smallno := O_FREE)\<rparr>, True))
      else Inr (s, True))"

definition small_owner :: "rt_state \<Rightarrow> u32 \<Rightarrow> owner_t res" where
  "small_owner s smallno =
     (if unat smallno \<ge> RMGR_SMALL_MAX then Inl OutOfBounds else Inr (rs_small s (unat smallno)))"

section \<open>I/O ports (iomap.c)\<close>

definition iomap_init :: "rt_state \<Rightarrow> rt_state" where
  "iomap_init s = s\<lparr>rs_iomap := memset_arr (rs_iomap s) 0 O_RESERVED RMGR_IO_MAX\<rparr>"

definition iomap_alloc_port :: "l4_addr_t \<Rightarrow> owner_t \<Rightarrow> rt_state \<Rightarrow> (rt_state \<times> bool) res" where
  "iomap_alloc_port port ow s =
     (if unat port \<ge> RMGR_IO_MAX then Inl OutOfBounds
      else if rs_iomap s (unat port) = ow then Inr (s, True)
      else if rs_iomap s (unat port) \<noteq> O_FREE then Inr (s, False)
      else Inr (s\<lparr>rs_iomap := (rs_iomap s)(unat port := ow)\<rparr>, True))"

definition iomap_owner_port :: "rt_state \<Rightarrow> l4_addr_t \<Rightarrow> owner_t res" where
  "iomap_owner_port s port =
     (if unat port \<ge> RMGR_IO_MAX then Inl OutOfBounds else Inr (rs_iomap s (unat port)))"

definition iomap_free_port :: "l4_addr_t \<Rightarrow> owner_t \<Rightarrow> rt_state \<Rightarrow> (rt_state \<times> bool) res" where
  "iomap_free_port port ow s =
     (if unat port \<ge> RMGR_IO_MAX then Inl OutOfBounds
      else if rs_iomap s (unat port) = O_FREE then Inr (s, True)
      else if rs_iomap s (unat port) \<noteq> ow then Inr (s, False)
      else Inr (s\<lparr>rs_iomap := (rs_iomap s)(unat port := O_FREE)\<rparr>, True))"

section \<open>The tables are owner tables\<close>

lemma quota_alloc_task_frame:
  "quota_alloc_task t a s = (s', r) \<Longrightarrow> rs_task s' = rs_task s \<and> (quota_inv s \<longrightarrow> quota_inv s')"
  using quota_alloc_frame(4) [of t a s] quota_alloc_task_inv [of s t a] by auto

lemma quota_alloc_small_frame:
  "quota_alloc_small t a s = (s', r) \<Longrightarrow> rs_small s' = rs_small s \<and> (quota_inv s \<longrightarrow> quota_inv s')"
  using quota_alloc_frame(5) [of t a s] quota_alloc_small_inv [of s t a] by auto

lemma quota_inv_table_upd [simp]:
  "quota_inv (s\<lparr>rs_task := f\<rparr>) = quota_inv s" "quota_inv (s\<lparr>rs_irq := f\<rparr>) = quota_inv s"
  "quota_inv (s\<lparr>rs_small := f\<rparr>) = quota_inv s" "quota_inv (s\<lparr>rs_iomap := f\<rparr>) = quota_inv s"
  by (simp_all add: quota_inv_def)

interpretation tasks: owner_table
  "\<lambda>i ow s. Inr (task_alloc i ow re s)" "\<lambda>i ow s. Inr (task_free i ow s)"
  rs_task "\<lambda>i. {unat i}" quota_inv is_client
  for re
  by unfold_locales
    (auto simp: task_alloc_def task_free_def split: if_splits prod.splits dest!: quota_alloc_task_frame)

interpretation irqs: owner_table
  irq_alloc irq_free rs_irq "\<lambda>i. {unat i}" quota_inv is_client
  by unfold_locales (auto simp: irq_alloc_def irq_free_def split: if_splits)

interpretation smalls: owner_table
  small_alloc small_free rs_small "\<lambda>i. {unat i}" quota_inv is_client
  by unfold_locales
    (auto simp: small_alloc_def small_free_def split: if_splits prod.splits dest!: quota_alloc_small_frame)

interpretation ports: owner_table
  iomap_alloc_port iomap_free_port rs_iomap "\<lambda>p. {unat p}" quota_inv is_client
  by unfold_locales (auto simp: iomap_alloc_port_def iomap_free_port_def split: if_splits)

section \<open>Allocating and releasing many tasks\<close>

lemma task_free_rs_task:
  "i < RMGR_TASK_MAX \<Longrightarrow>
   rs_task (fst (task_free (of_nat i) ow s)) =
     (if rs_task s i = ow then (rs_task s)(i := O_FREE) else rs_task s)"
  by (auto simp: task_free_def Let_def RMGR_TASK_MAX_def unat_of_nat_lt fun_eq_iff)

lemma task_free_from_rs_task:
  "i + n \<le> RMGR_TASK_MAX \<Longrightarrow>
   rs_task (task_free_from i n ow s) c =
     (if i \<le> c \<and> c < i + n \<and> rs_task s c = ow then O_FREE else rs_task s c)"
proof (induction i n ow s rule: task_free_from.induct)
  case (2 i n ow s)
  then have i: "i < RMGR_TASK_MAX" by simp
  with 2 show ?case by (auto simp: task_free_rs_task)
qed auto

section \<open>Properties\<close>

text \<open>
  C33. Task numbers: a task number granted to a client is not granted to another one
  (with or without \<open>allow_realloc\<close>) while the client itself issues no request.
\<close>

theorem task_no_double_grant:
  assumes "quota_inv s" "is_client o1" "is_client o2" "o1 \<noteq> o2"
    and "task_alloc t o1 re s = (s1, True)"
    and "\<forall>p \<in> set ops. is_client (op_owner p) \<and> op_owner p \<noteq> o1"
    and "run_owner_ops (\<lambda>i ow s. Inr (task_alloc i ow re s)) (\<lambda>i ow s. Inr (task_free i ow s)) ops s1 = Inr s2"
  shows "\<not> snd (task_alloc t o2 re s2) \<and> rs_task s2 (unat t) = o1"
proof -
  have "\<not> snd (task_alloc t o2 re s2)"
    using tasks.no_double_grant [OF assms(1-4) _ _ _ assms(6,7), where i = t and j = t
        and ?s3.0 = "fst (task_alloc t o2 re s2)" and r = "snd (task_alloc t o2 re s2)"] assms(2,5) by simp
  moreover have "rs_task s1 (unat t) = o1" "quota_inv s1"
    using tasks.alloc_then_holder [OF assms(1,2), of t re s1] tasks.alloc_inv [OF assms(1,2), of t re s1 True]
      assms(5) by auto
  then have "rs_task s2 (unat t) = o1"
    using tasks.run_isolation [OF _ assms(6) _ _ assms(7)] assms(2) by simp
  ultimately show ?thesis by simp
qed

lemmas demo_tables = demo_state_def demo_quota_def RMGR_TASK_MAX_def RMGR_IRQ_MAX_def RMGR_IO_MAX_def
  RMGR_SMALL_MAX_def O_FREE_def O_RESERVED_def

theorem task_no_double_grant_witness:
  "\<not> snd (task_alloc 9 6 True (fst (task_free 9 6 (fst (task_alloc 9 5 True demo_state)))))"
proof -
  have e: "task_alloc 9 5 True demo_state = (fst (task_alloc 9 5 True demo_state), True)"
    by (simp add: task_alloc_def quota_alloc_task_def quota_check_u16_def range_check_def demo_tables)
  show ?thesis
    by (rule task_no_double_grant [OF demo_quota_inv is_client_numerals _ e,
          where ops = "[Release 9 6]", THEN conjunct1]) (auto simp: is_client_numerals case_prod_beta)
qed

text \<open>
  Interrupts: no interleaving of requests of other clients takes an interrupt from
  its holder, and \<open>irq_owner\<close> keeps reporting it.
\<close>

theorem irq_isolation:
  assumes "quota_inv s" "is_client ow" "irq_owner s i = Inr ow"
    and "\<forall>p \<in> set ops. is_client (op_owner p) \<and> op_owner p \<noteq> ow"
    and "run_owner_ops irq_alloc irq_free ops s = Inr s'"
  shows "irq_owner s' i = Inr ow \<and> irq_alloc i ow s' = Inr (s', True)"
proof -
  have i: "\<not> RMGR_IRQ_MAX \<le> unat i" "rs_irq s (unat i) = ow"
    using assms(3) by (auto simp: irq_owner_def split: if_splits)
  then have "rs_irq s' (unat i) = ow"
    using irqs.run_isolation [OF assms(1,4) _ _ assms(5)] assms(2) by simp
  with i show ?thesis by (simp add: irq_owner_def irq_alloc_def)
qed

lemma demo_quota_inv_tables: "quota_inv (demo_state\<lparr>rs_irq := f\<rparr>)" "quota_inv (demo_state\<lparr>rs_iomap := f\<rparr>)"
  using demo_quota_inv by simp_all

theorem irq_isolation_witness:
  "irq_owner (demo_state\<lparr>rs_irq := (\<lambda>_. O_FREE)(3 := 5, 4 := 6)\<rparr>) 3 = Inr 5"
proof -
  let ?s = "demo_state\<lparr>rs_irq := (\<lambda>_. O_FREE)(3 := 5)\<rparr>"
  have o: "irq_owner ?s 3 = Inr 5" by (simp add: irq_owner_def demo_tables)
  have "run_owner_ops irq_alloc irq_free [Release 3 6, Alloc 4 6] ?s = Inr (?s\<lparr>rs_irq := (rs_irq ?s)(4 := 6)\<rparr>)"
    by (simp add: irq_alloc_def irq_free_def quota_alloc_irq_def demo_tables)
  from irq_isolation [OF demo_quota_inv_tables(1) is_client_numerals(1) o _ this]
  show ?thesis by (simp add: is_client_numerals)
qed

text \<open>
  I/O ports and small address spaces: neither table ever gives a held entry to
  another client, whatever the other clients request.
\<close>

theorem port_small_isolation:
  assumes "quota_inv s" "is_client ow" "\<forall>p \<in> set ops. is_client (op_owner p) \<and> op_owner p \<noteq> ow"
  shows "(iomap_owner_port s i = Inr ow \<longrightarrow> run_owner_ops iomap_alloc_port iomap_free_port ops s = Inr s' \<longrightarrow>
           iomap_owner_port s' i = Inr ow)
    \<and> (small_owner s i = Inr ow \<longrightarrow> run_owner_ops small_alloc small_free ops s = Inr s' \<longrightarrow>
           small_owner s' i = Inr ow)"
  using ports.run_isolation [OF assms(1,3), of "unat i" s'] smalls.run_isolation [OF assms(1,3), of "unat i" s']
    assms(2) by (auto simp: iomap_owner_port_def small_owner_def split: if_splits)

theorem port_small_isolation_witness:
  "iomap_owner_port (demo_state\<lparr>rs_iomap := (\<lambda>_. O_FREE)(0x60 := 5, 0x61 := 6)\<rparr>) 0x60 = Inr 5"
proof -
  let ?s = "demo_state\<lparr>rs_iomap := (\<lambda>_. O_FREE)(0x60 := 5)\<rparr>"
  have o: "iomap_owner_port ?s 0x60 = Inr 5" by (simp add: iomap_owner_port_def demo_tables)
  have "run_owner_ops iomap_alloc_port iomap_free_port [Release 0x60 6, Alloc 0x61 6] ?s =
      Inr (?s\<lparr>rs_iomap := (rs_iomap ?s)(0x61 := 6)\<rparr>)"
    by (simp add: iomap_alloc_port_def iomap_free_port_def demo_tables)
  with port_small_isolation [OF demo_quota_inv_tables(2) is_client_numerals(1),
      of "[Release 0x60 6, Alloc 0x61 6]" "(\<lambda>_. O_FREE)(0x60 := 5)" "0x60"] o
  show ?thesis by (simp add: is_client_numerals)
qed

text \<open>
  \<open>task_next\<close> hands out the lowest free task number if the owner's quota allows it,
  and otherwise returns -1 and leaves the table as it is.
\<close>

theorem task_next_spec:
  assumes "unat ow < RMGR_TASK_MAX" "task_next ow s = (s', r)"
  shows "(r = -1 \<and> rs_task s' = rs_task s) \<or>
     (\<exists>i < RMGR_TASK_MAX. r = int i \<and> rs_task s i = O_FREE \<and> (\<forall>j < i. rs_task s j \<noteq> O_FREE)
        \<and> rs_task s' = (rs_task s)(i := ucast ow) \<and> quota_check_u16 (q_task (rs_quota s (unat (ucast ow :: u8)))) (of_nat i) 1)"
proof (cases "first_index (\<lambda>i. rs_task s i = O_FREE) 0 RMGR_TASK_MAX")
  case None
  with assms show ?thesis by (auto simp: task_next_def split: if_splits)
next
  case (Some i)
  from first_index_SomeD [OF this] have i: "i < RMGR_TASK_MAX" "rs_task s i = O_FREE" "\<forall>j < i. rs_task s j \<noteq> O_FREE"
    by auto
  obtain s1 g where g: "quota_alloc_task (ucast ow) (of_nat i) s = (s1, g)" by fastforce
  then have "rs_task s1 = rs_task s" "g = quota_check_u16 (q_task (rs_quota s (unat (ucast ow :: u8)))) (of_nat i) 1"
    by (auto simp: quota_alloc_task_def split: if_splits)
  with Some assms g i show ?thesis
    by (cases g) (auto simp: task_next_def split: if_splits)
qed

theorem task_next_spec_witness: "snd (task_next 5 (demo_state\<lparr>rs_task := (\<lambda>_. O_FREE)(0 := O_RESERVED)\<rparr>)) \<in> {-1, 1}"
proof -
  let ?s = "demo_state\<lparr>rs_task := (\<lambda>_. O_FREE)(0 := O_RESERVED)\<rparr>"
  obtain s' r where e: "task_next 5 ?s = (s', r)" by fastforce
  have "unat (5 :: u32) < RMGR_TASK_MAX" by (simp add: RMGR_TASK_MAX_def)
  from task_next_spec [OF this e] have "r = -1 \<or> (\<exists>i. r = int i \<and> i \<noteq> 0 \<and> (\<forall>j < i. j = 0))"
    by (auto split: if_splits)
  moreover have "i = 1" if "i \<noteq> 0" "\<forall>j < i. j = 0" for i :: nat
    using that(2) [rule_format, of 1] that(1) by (cases "i \<le> 1") auto
  ultimately show ?thesis using e by auto
qed

text \<open>
  \<open>task_free_owned\<close> releases exactly the tasks of the given owner.
\<close>

theorem task_free_owned_spec:
  assumes "unat t < RMGR_TASK_MAX"
  shows "task_owner (task_free_owned ow s) t = (if task_owner s t = ucast ow then O_FREE else task_owner s t)"
  using assms by (simp add: task_owner_def task_free_owned_def task_free_from_rs_task)

theorem task_free_owned_spec_witness:
  "task_owner (task_free_owned 5 (demo_state\<lparr>rs_task := (\<lambda>_. 5)\<rparr>)) 9 = O_FREE"
  using task_free_owned_spec [of 9 5 "demo_state\<lparr>rs_task := (\<lambda>_. 5)\<rparr>"]
  by (simp add: task_owner_def RMGR_TASK_MAX_def)

end
