(* ===== verification/RtMisc.thy ===== *)
theory RtMisc
  imports RtState
begin

text \<open>
  Small tables of the roottask: named memory regions (\<open>region.c\<close>), address space
  offsets of tasks (\<open>vm.c\<close>) and names of boot modules (\<open>names.c\<close>).
\<close>

section \<open>Regions (region.c)\<close>

definition region_name_size :: nat where [l4_const]: "region_name_size = 44"

definition region_init :: "rt_state \<Rightarrow> rt_state" where
  "region_init s = s\<lparr>rs_region_size := 1\<rparr>"

definition region_get :: "rt_state \<Rightarrow> nat \<Rightarrow> region_t option" where
  "region_get s i = (if i < rs_region_size s then Some (rs_region s i) else None)"

text \<open>The two loops over the name: to its end, then back to the start of the file name.\<close>

fun name_back :: "string \<Rightarrow> string \<Rightarrow> nat \<Rightarrow> string" where
  "name_back [] rest i = rest"
| "name_back (c # before) rest i =
     (if c \<noteq> CHR ''/'' \<and> i \<le> region_name_size then name_back before (c # rest) (Suc i) else rest)"

definition region_file_name :: "string \<Rightarrow> string" where
  "region_file_name name =
     (let w = takeWhile (\<lambda>c. c \<noteq> CHR '' '') name
      in name_back (rev w) (drop (length w) name) 0)"

text \<open>The conversion \<open>%02x\<close>.\<close>

definition hex_digit :: "nat \<Rightarrow> char" where
  "hex_digit d = ''0123456789abcdef'' ! (d mod 16)"

fun hex_of_nat :: "nat \<Rightarrow> string" where
  "hex_of_nat n = (if n < 16 then [hex_digit n] else hex_of_nat (n div 16) @ [hex_digit n])"

declare hex_of_nat.simps [simp del]

definition fmt_02x :: "nat \<Rightarrow> string" where
  "fmt_02x n = (if n < 16 then ''0'' @ hex_of_nat n else hex_of_nat n)"

text \<open>
  The name is written at offset 4 after \<open>"#%02x "\<close> was printed at offset 0, so only
  the first four characters of the prefix remain.
\<close>

definition region_label :: "int \<Rightarrow> string \<Rightarrow> string" where
  "region_label task_no name =
     (if task_no \<noteq> -1
      then take 4 (''#'' @ fmt_02x (unat (of_int task_no :: u32)) @ '' '')
             @ take (region_name_size - 4 - 1) (region_file_name name)
      else take (region_name_size - 1) (region_file_name name))"

definition region_add :: "l4_addr_t \<Rightarrow> l4_addr_t \<Rightarrow> int \<Rightarrow> string \<Rightarrow> rt_state \<Rightarrow> rt_state \<times> nat" where
  "region_add bgn en task_no name s =
     (if rs_region_size s \<ge> MAX_REGION then (s, 0)
      else (s\<lparr>rs_region := (rs_region s)(rs_region_size s :=
                \<lparr>r_begin = l4_trunc_page bgn, r_end = l4_round_page en, r_name = region_label task_no name\<rparr>),
              rs_region_size := rs_region_size s + 1\<rparr>, rs_region_size s))"

fun region_free_from :: "nat \<Rightarrow> nat \<Rightarrow> l4_addr_t \<Rightarrow> l4_addr_t \<Rightarrow> rt_state \<Rightarrow> rt_state" where
  "region_free_from i 0 bgn en s = s"
| "region_free_from i (Suc n) bgn en s =
     (let r = rs_region s i in
      if r_begin r < bgn \<and> r_end r > en
      then (if rs_region_size s \<ge> MAX_REGION then s
            else s\<lparr>rs_region := (rs_region s)(rs_region_size s := r\<lparr>r_begin := en\<rparr>, i := r\<lparr>r_end := bgn\<rparr>)\<rparr>)
      else if r_begin r < bgn \<and> r_end r = en
      then s\<lparr>rs_region := (rs_region s)(i := r\<lparr>r_end := bgn\<rparr>)\<rparr>
      else if r_begin r = bgn \<and> r_end r > en
      then s\<lparr>rs_region := (rs_region s)(i := r\<lparr>r_begin := en\<rparr>)\<rparr>
      else region_free_from (Suc i) n bgn en s)"

definition region_free :: "l4_addr_t \<Rightarrow> l4_addr_t \<Rightarrow> rt_state \<Rightarrow> rt_state" where
  "region_free bgn en s = region_free_from 1 (rs_region_size s - 1) bgn en s"

definition region_overlaps :: "rt_state \<Rightarrow> l4_addr_t \<Rightarrow> l4_addr_t \<Rightarrow> nat" where
  "region_overlaps s bgn en =
     (case first_index (\<lambda>i. r_begin (rs_region s i) < en \<and> r_end (rs_region s i) > bgn) 1 (rs_region_size s - 1) of
        Some i \<Rightarrow> i | None \<Rightarrow> 0)"

fun region_find_from :: "rt_state \<Rightarrow> l4_addr_t \<Rightarrow> l4_addr_t \<Rightarrow> nat \<Rightarrow> nat \<Rightarrow> int \<Rightarrow> int" where
  "region_find_from s bgn en i 0 j = j"
| "region_find_from s bgn en i (Suc n) j =
     region_find_from s bgn en (Suc i) n
       (if r_begin (rs_region s i) \<ge> bgn \<and> r_end (rs_region s i) \<le> en
        then (if j > -1
              then (if r_begin (rs_region s i) < r_begin (rs_region s (nat j)) then int i else j)
              else int i)
        else j)"

definition region_find :: "rt_state \<Rightarrow> l4_addr_t \<Rightarrow> l4_addr_t \<Rightarrow> int" where
  "region_find s bgn en = region_find_from s bgn en 1 (rs_region_size s - 1) (-1)"

section \<open>Address space offsets (vm.c)\<close>

definition vm_add :: "u32 \<Rightarrow> l4_addr_t \<Rightarrow> l4_addr_t \<Rightarrow> l4_addr_t \<Rightarrow> rt_state \<Rightarrow> rt_state" where
  "vm_add task start en offset s =
     (if rs_vm_size s = VM_MAX then s
      else s\<lparr>rs_vm := (rs_vm s)(rs_vm_size s := \<lparr>vm_task = task, vm_start = start, vm_end = en, vm_offset = offset\<rparr>),
             rs_vm_size := rs_vm_size s + 1\<rparr>)"

definition vm_find :: "rt_state \<Rightarrow> u32 \<Rightarrow> l4_addr_t \<Rightarrow> int" where
  "vm_find s task addr =
     (case first_index (\<lambda>i. vm_start (rs_vm s i) \<le> addr \<and> vm_end (rs_vm s i) > addr \<and> vm_task (rs_vm s i) = task)
             0 (rs_vm_size s) of
        Some i \<Rightarrow> int i | None \<Rightarrow> -1)"

definition vm_get_offset :: "rt_state \<Rightarrow> int \<Rightarrow> l4_addr_t res" where
  "vm_get_offset s i =
     (if 0 \<le> i \<and> nat i < VM_MAX then Inr (vm_offset (rs_vm s (nat i))) else Inl OutOfBounds)"

section \<open>Module names (names.c)\<close>

definition names_set :: "l4_threadid_t \<Rightarrow> string \<Rightarrow> rt_state \<Rightarrow> rt_state" where
  "names_set task name s =
     (if length (rs_names s) \<ge> MODS_MAX then s
      else s\<lparr>rs_names := rs_names s @ [(take (MOD_NAME_MAX - 1) name, task)]\<rparr>)"

text \<open>The loop that moves \<open>ptr\<close> behind the last slash before \<open>end\<close>.\<close>

fun base_of :: "string \<Rightarrow> string \<Rightarrow> string" where
  "base_of p [] = p"
| "base_of p (c # cs) = (if c = CHR ''/'' then base_of cs cs else base_of p cs)"

definition module_base :: "string \<Rightarrow> string" where
  "module_base name = (let w = takeWhile (\<lambda>c. c \<noteq> CHR '' '') name in base_of w w)"

text \<open>\<open>strncmp (ptr, name, n) = 0\<close> for a \<open>ptr\<close> with at least \<open>n\<close> characters.\<close>

definition strncmp_eq :: "string \<Rightarrow> string \<Rightarrow> bool" where
  "strncmp_eq b name \<longleftrightarrow> take (length b) name = b"

fun names_lookup :: "string \<Rightarrow> (string \<times> l4_threadid_t) list \<Rightarrow> l4_threadid_t" where
  "names_lookup name [] = L4_INVALID_ID"
| "names_lookup name ((n, i) # ns) =
     (if n = [] then names_lookup name ns
      else if strncmp_eq (module_base n) name then i else names_lookup name ns)"

definition names_get_id :: "rt_state \<Rightarrow> string \<Rightarrow> l4_threadid_t" where
  "names_get_id s name = names_lookup name (rs_names s)"

section \<open>Lemmas\<close>

lemma region_find_from_spec:
  assumes "region_find_from s b e i n j = r" "-1 \<le> j"
    and "\<And>k. j = int k \<Longrightarrow> k < i \<and> r_begin (rs_region s k) \<ge> b \<and> r_end (rs_region s k) \<le> e"
  shows "(r = j \<or> (\<exists>k. r = int k \<and> i \<le> k \<and> k < i + n \<and> r_begin (rs_region s k) \<ge> b \<and> r_end (rs_region s k) \<le> e))
    \<and> (j > -1 \<longrightarrow> r > -1 \<and> r_begin (rs_region s (nat r)) \<le> r_begin (rs_region s (nat j)))
    \<and> (\<forall>k. i \<le> k \<and> k < i + n \<and> r_begin (rs_region s k) \<ge> b \<and> r_end (rs_region s k) \<le> e \<longrightarrow>
         r > -1 \<and> r_begin (rs_region s (nat r)) \<le> r_begin (rs_region s k))"
  using assms
proof (induction s b e i n j rule: region_find_from.induct)
  case (2 s b e i n j)
  let ?in = "r_begin (rs_region s i) \<ge> b \<and> r_end (rs_region s i) \<le> e"
  define j' where "j' = (if ?in then (if j > -1
      then (if r_begin (rs_region s i) < r_begin (rs_region s (nat j)) then int i else j) else int i) else j)"
  have j': "-1 \<le> j'" "\<And>k. j' = int k \<Longrightarrow> k < Suc i \<and> r_begin (rs_region s k) \<ge> b \<and> r_end (rs_region s k) \<le> e"
    "j' = j \<or> j' = int i \<and> ?in" "?in \<Longrightarrow> j' > -1 \<and> r_begin (rs_region s (nat j')) \<le> r_begin (rs_region s i)"
    "j > -1 \<Longrightarrow> j' > -1 \<and> r_begin (rs_region s (nat j')) \<le> r_begin (rs_region s (nat j))"
    using 2(3) 2(4) by (auto simp: j'_def split: if_splits)
  have "region_find_from s b e (Suc i) n j' = r" using 2(2) by (simp add: j'_def)
  note IH = 2(1) [folded j'_def, OF this j'(1) j'(2)]
  have "r > -1 \<and> r_begin (rs_region s (nat r)) \<le> r_begin (rs_region s k)"
    if "i \<le> k \<and> k < i + Suc n \<and> r_begin (rs_region s k) \<ge> b \<and> r_end (rs_region s k) \<le> e" for k
    using that IH j'(4) by (cases "k = i") (auto intro: order_trans)
  moreover have "r = j \<or> (\<exists>k. r = int k \<and> i \<le> k \<and> k < i + Suc n \<and> r_begin (rs_region s k) \<ge> b \<and> r_end (rs_region s k) \<le> e)"
    using IH j'(3) by (auto simp: Suc_le_eq)
  ultimately show ?case using IH j'(5) by (auto intro: order_trans)
qed auto

lemma base_of_spec:
  "if CHR ''/'' \<in> set w then (\<exists>pre. w = pre @ CHR ''/'' # base_of p w) \<and> CHR ''/'' \<notin> set (base_of p w)
   else base_of p w = p"
proof (induction p w rule: base_of.induct)
  case (2 p c cs)
  show ?case
  proof (cases "c = CHR ''/''")
    case True
    show ?thesis
    proof (cases "CHR ''/'' \<in> set cs")
      case T: True
      with 2(1) [OF True] obtain pre where "cs = pre @ CHR ''/'' # base_of cs cs" "CHR ''/'' \<notin> set (base_of cs cs)"
        by auto
      then have "c # cs = (c # pre) @ CHR ''/'' # base_of p (c # cs)" using True by simp
      then have "\<exists>pre. c # cs = pre @ CHR ''/'' # base_of p (c # cs)" by blast
      with True T \<open>CHR ''/'' \<notin> set (base_of cs cs)\<close> show ?thesis by simp
    next
      case False
      with 2(1) [OF True] True show ?thesis by simp
    qed
  next
    case False
    with 2(2) show ?thesis by (auto simp: Cons_eq_append_conv)
  qed
qed simp

lemma names_lookup_spec:
  "names_lookup name ns = i \<Longrightarrow>
   (\<exists>k < length ns. i = snd (ns ! k) \<and> fst (ns ! k) \<noteq> [] \<and> strncmp_eq (module_base (fst (ns ! k))) name
      \<and> (\<forall>j < k. fst (ns ! j) = [] \<or> \<not> strncmp_eq (module_base (fst (ns ! j))) name))
   \<or> i = L4_INVALID_ID \<and> (\<forall>j < length ns. fst (ns ! j) = [] \<or> \<not> strncmp_eq (module_base (fst (ns ! j))) name)"
proof (induction name ns rule: names_lookup.induct)
  case (2 name n i' ns)
  let ?hit = "n \<noteq> [] \<and> strncmp_eq (module_base n) name"
  show ?case
  proof (cases ?hit)
    case True
    with 2(3) have "i = i'" by simp
    with True show ?thesis by (intro disjI1 exI [of _ 0]) simp
  next
    case False
    with 2 have IH: "(\<exists>k < length ns. i = snd (ns ! k) \<and> fst (ns ! k) \<noteq> [] \<and> strncmp_eq (module_base (fst (ns ! k))) name
        \<and> (\<forall>j < k. fst (ns ! j) = [] \<or> \<not> strncmp_eq (module_base (fst (ns ! j))) name))
      \<or> i = L4_INVALID_ID \<and> (\<forall>j < length ns. fst (ns ! j) = [] \<or> \<not> strncmp_eq (module_base (fst (ns ! j))) name)"
      by (auto split: if_splits)
    then show ?thesis
    proof (elim disjE exE conjE)
      fix k assume k: "k < length ns" "i = snd (ns ! k)" "fst (ns ! k) \<noteq> []"
        "strncmp_eq (module_base (fst (ns ! k))) name"
        "\<forall>j < k. fst (ns ! j) = [] \<or> \<not> strncmp_eq (module_base (fst (ns ! j))) name"
      with False show ?thesis by (intro disjI1 exI [of _ "Suc k"]) (auto simp: less_Suc_eq_0_disj)
    next
      assume "i = L4_INVALID_ID" "\<forall>j < length ns. fst (ns ! j) = [] \<or> \<not> strncmp_eq (module_base (fst (ns ! j))) name"
      with False show ?thesis by (intro disjI2) (auto simp: less_Suc_eq_0_disj)
    qed
  qed
qed auto

section \<open>Properties\<close>

text \<open>
  \<open>region_overlaps\<close> is exact: it returns 0 if and only if no region shares an address
  with the interval, and otherwise a region that does; \<open>region_find\<close> returns the
  lowest region that lies inside the interval, and -1 only if there is none.
\<close>

theorem region_queries_spec:
  "(region_overlaps s b e = 0 \<longleftrightarrow>
      (\<nexists>i. 1 \<le> i \<and> i < rs_region_size s \<and> r_begin (rs_region s i) < e \<and> r_end (rs_region s i) > b))
   \<and> (region_overlaps s b e \<noteq> 0 \<longleftrightarrow>
        region_overlaps s b e < rs_region_size s \<and> r_begin (rs_region s (region_overlaps s b e)) < e
        \<and> r_end (rs_region s (region_overlaps s b e)) > b \<and> 1 \<le> region_overlaps s b e)
   \<and> (region_find s b e = -1 \<longleftrightarrow>
        (\<nexists>i. 1 \<le> i \<and> i < rs_region_size s \<and> r_begin (rs_region s i) \<ge> b \<and> r_end (rs_region s i) \<le> e))
   \<and> (\<nexists>k i. region_find s b e = int k \<and> 1 \<le> i \<and> i < rs_region_size s \<and> r_begin (rs_region s i) \<ge> b
        \<and> r_end (rs_region s i) \<le> e \<and> r_begin (rs_region s i) < r_begin (rs_region s k))"
proof -
  let ?P = "\<lambda>i. r_begin (rs_region s i) < e \<and> r_end (rs_region s i) > b"
  let ?n = "rs_region_size s - 1"
  have ov: "(case first_index ?P 1 ?n of Some i \<Rightarrow> i | None \<Rightarrow> 0) = region_overlaps s b e"
    by (simp add: region_overlaps_def)
  have rng: "1 \<le> i \<and> i < 1 + ?n \<longleftrightarrow> 1 \<le> i \<and> i < rs_region_size s" for i by auto
  have A: "region_overlaps s b e = 0 \<longleftrightarrow> (\<nexists>i. 1 \<le> i \<and> i < rs_region_size s \<and> ?P i)"
    "region_overlaps s b e \<noteq> 0 \<longleftrightarrow> region_overlaps s b e < rs_region_size s \<and> ?P (region_overlaps s b e)
       \<and> 1 \<le> region_overlaps s b e"
  proof -
    consider "first_index ?P 1 ?n = None" | i where "first_index ?P 1 ?n = Some i" by fastforce
    then have "(region_overlaps s b e = 0 \<longleftrightarrow> (\<nexists>i. 1 \<le> i \<and> i < rs_region_size s \<and> ?P i)) \<and>
        (region_overlaps s b e \<noteq> 0 \<longleftrightarrow> region_overlaps s b e < rs_region_size s \<and> ?P (region_overlaps s b e)
          \<and> 1 \<le> region_overlaps s b e)"
    proof cases
      case 1
      have "\<not> ?P i" if "1 \<le> i" "i < rs_region_size s" for i
        using 1 that rng [of i] unfolding first_index_None_iff by blast
      moreover have "region_overlaps s b e = 0" using ov 1 by simp
      ultimately show ?thesis by auto
    next
      case (2 i)
      have "1 \<le> i \<and> i < rs_region_size s \<and> ?P i" using first_index_SomeD [OF 2] rng [of i] by blast
      moreover have "region_overlaps s b e = i" using ov 2 by simp
      ultimately show ?thesis by auto
    qed
    then show "region_overlaps s b e = 0 \<longleftrightarrow> (\<nexists>i. 1 \<le> i \<and> i < rs_region_size s \<and> ?P i)"
      "region_overlaps s b e \<noteq> 0 \<longleftrightarrow> region_overlaps s b e < rs_region_size s \<and> ?P (region_overlaps s b e)
       \<and> 1 \<le> region_overlaps s b e" by blast+
  qed
  obtain r where r: "region_find_from s b e 1 ?n (-1) = r" by simp
  have F: "(r = -1 \<or> (\<exists>k. r = int k \<and> 1 \<le> k \<and> k < 1 + ?n \<and> r_begin (rs_region s k) \<ge> b \<and> r_end (rs_region s k) \<le> e))
    \<and> (\<forall>k. 1 \<le> k \<and> k < 1 + ?n \<and> r_begin (rs_region s k) \<ge> b \<and> r_end (rs_region s k) \<le> e \<longrightarrow>
         r > -1 \<and> r_begin (rs_region s (nat r)) \<le> r_begin (rs_region s k))"
    using region_find_from_spec [OF r] by auto
  have rf: "region_find s b e = r" using r by (simp add: region_find_def)
  have "region_find s b e = -1 \<longleftrightarrow>
      (\<nexists>i. 1 \<le> i \<and> i < rs_region_size s \<and> r_begin (rs_region s i) \<ge> b \<and> r_end (rs_region s i) \<le> e)"
    unfolding rf using F rng by fastforce
  moreover have "\<nexists>k i. region_find s b e = int k \<and> 1 \<le> i \<and> i < rs_region_size s \<and> r_begin (rs_region s i) \<ge> b
      \<and> r_end (rs_region s i) \<le> e \<and> r_begin (rs_region s i) < r_begin (rs_region s k)"
    unfolding rf using F rng by (fastforce simp: not_less)
  ultimately show ?thesis using A by blast
qed

text \<open>
  \<open>names_get_id\<close> answers with the first registered module whose file name is a
  prefix of the queried name, and with the invalid id if there is none.
\<close>

theorem names_get_id_spec:
  "(\<exists>k < length (rs_names s). names_get_id s name = snd (rs_names s ! k) \<and> fst (rs_names s ! k) \<noteq> []
      \<and> strncmp_eq (module_base (fst (rs_names s ! k))) name
      \<and> (\<nexists>j. j < k \<and> fst (rs_names s ! j) \<noteq> [] \<and> strncmp_eq (module_base (fst (rs_names s ! j))) name))
   \<or> names_get_id s name = L4_INVALID_ID
      \<and> (\<nexists>j. j < length (rs_names s) \<and> fst (rs_names s ! j) \<noteq> [] \<and> strncmp_eq (module_base (fst (rs_names s ! j))) name)"
  using names_lookup_spec [of name "rs_names s", OF refl] unfolding names_get_id_def by blast

section \<open>Where the tables fall short\<close>

text \<open>
  Freeing the middle of a region writes the upper part behind the last entry but does
  not count it: addresses of the upper part are in no region afterwards.
\<close>

definition region_covers :: "rt_state \<Rightarrow> l4_addr_t \<Rightarrow> bool" where
  "region_covers s x \<longleftrightarrow> (\<exists>i. 1 \<le> i \<and> i < rs_region_size s \<and> r_begin (rs_region s i) \<le> x \<and> x < r_end (rs_region s i))"

lemma region_free_loses_tail:
  assumes "rs_region_size s = 2" "r_begin (rs_region s 1) < b" "b \<le> e" "e < r_end (rs_region s 1)"
  shows "region_covers s e \<and> \<not> region_covers (region_free b e s) e"
proof -
  have "region_covers s e" using assms unfolding region_covers_def by (intro exI [of _ 1]) auto
  moreover have "rs_region (region_free b e s) 1 = (rs_region s 1)\<lparr>r_end := b\<rparr>" "rs_region_size (region_free b e s) = 2"
    using assms by (simp_all add: region_free_def numeral_2_eq_2 MAX_REGION_def Let_def)
  then have "\<not> region_covers (region_free b e s) e"
    using assms(3) by (auto simp: region_covers_def less_Suc_eq numeral_2_eq_2)
  ultimately show ?thesis by simp
qed

text \<open>A module named \<open>s\<close> answers to the name \<open>server\<close>.\<close>

lemma names_prefix_match:
  "names_get_id (names_set 7 ''/boot/s -x'' (names_set 5 ''abc'' (s\<lparr>rs_names := []\<rparr>))) ''server'' = 7"
  by (simp add: names_set_def names_get_id_def MODS_MAX_def MOD_NAME_MAX_def module_base_def strncmp_eq_def)

end
