(* ===== verification/RtPager.thy ===== *)
theory RtPager
  imports MemmapSearch RtTables RtMisc
begin

text \<open>
  The pager of the roottask, \<open>pager.c\<close>: it answers page faults, I/O page faults and
  requests of the sigma0 protocol with flexpages. A handler gets the sender \<open>t\<close> and the
  two message words \<open>d1\<close> and \<open>d2\<close>; it returns the new state, whether the request is
  handled, and the words of the reply. Answers of the kernel and of sigma0 are
  parameters (\<open>pager_env\<close>); requests to them that have no answer that is used are
  recorded in \<open>rs_trace\<close>. The messages for the console are not modelled.
\<close>

section \<open>Definitions\<close>

subsection \<open>Constants\<close>

definition L4_LOG2_SUPERPAGESIZE :: u32 where [l4_const]: "L4_LOG2_SUPERPAGESIZE = 22"
definition L4_IPC_SETIMEOUT :: u32 where [l4_const]: "L4_IPC_SETIMEOUT = 0x30"
definition SIGMA0_REQ_MASK :: u32 where [l4_const]: "SIGMA0_REQ_MASK = NOT 0xFF"
definition SIGMA0_REQ_MAGIC :: u32 where [l4_const]: "SIGMA0_REQ_MAGIC = NOT 0xFF"
definition SIGMA0_REQ_ID_MASK :: u32 where [l4_const]: "SIGMA0_REQ_ID_MASK = 0xF0"
definition SIGMA0_REQ_ID_FPAGE_RAM :: u32 where [l4_const]: "SIGMA0_REQ_ID_FPAGE_RAM = 0x60"
definition SIGMA0_REQ_ID_FPAGE_IOMEM :: u32 where [l4_const]: "SIGMA0_REQ_ID_FPAGE_IOMEM = 0x70"
definition SIGMA0_REQ_ID_FPAGE_IOMEM_CACHED :: u32 where [l4_const]: "SIGMA0_REQ_ID_FPAGE_IOMEM_CACHED = 0x80"
definition SIGMA0_REQ_ID_FPAGE_ANY :: u32 where [l4_const]: "SIGMA0_REQ_ID_FPAGE_ANY = 0x90"
definition SIGMA0_REQ_ID_KIP :: u32 where [l4_const]: "SIGMA0_REQ_ID_KIP = 0xA0"
definition SIGMA0_REQ_ID_TBUF :: u32 where [l4_const]: "SIGMA0_REQ_ID_TBUF = 0xB0"
definition scratch_4K :: l4_addr_t where [l4_const]: "scratch_4K = 0xBF400000"
definition scratch_4M :: l4_addr_t where [l4_const]: "scratch_4M = 0xBF800000"

definition SIGMA0_IS_MAGIC_REQ :: "u32 \<Rightarrow> bool" where
  "SIGMA0_IS_MAGIC_REQ d1 \<longleftrightarrow> d1 AND SIGMA0_REQ_MASK = SIGMA0_REQ_MAGIC"

record pager_env =
  pe_kip :: l4_addr_t
  pe_sigma0 :: "u32 \<Rightarrow> u32 \<Rightarrow> u32 \<times> u32 \<times> u32"
  pe_fiasco :: bool

type_synonym pf_result = "(rt_state \<times> bool \<times> u32 \<times> u32) res"

definition log_event :: "sys_event \<Rightarrow> rt_state \<Rightarrow> rt_state" where
  "log_event e s = s\<lparr>rs_trace := rs_trace s @ [e]\<rparr>"

subsection \<open>Repeated faults\<close>

definition pager_init :: "rt_state \<Rightarrow> rt_state" where
  "pager_init s = s\<lparr>rs_last_pf := memset_arr (rs_last_pf s) 0 \<lparr>lp_pfa = -1, lp_eip = -1\<rparr> RMGR_TASK_MAX\<rparr>"

definition set_last_pf :: "nat \<Rightarrow> u32 \<Rightarrow> u32 \<Rightarrow> rt_state \<Rightarrow> rt_state" where
  "set_last_pf task pfa eip s = s\<lparr>rs_last_pf := (rs_last_pf s)(task := \<lparr>lp_pfa = pfa, lp_eip = eip\<rparr>)\<rparr>"

definition reset_pagefault :: "int \<Rightarrow> rt_state \<Rightarrow> rt_state res" where
  "reset_pagefault task s =
     (if 0 \<le> task \<and> nat task < RMGR_TASK_MAX then Inr (set_last_pf (nat task) (-1) (-1) s) else Inl OutOfBounds)"

text \<open>A task number has 11 bits, so \<open>last_pf\<close> is indexed inside its bounds.\<close>

definition check_double_pagefault :: "l4_threadid_t \<Rightarrow> u32 \<Rightarrow> u32 \<Rightarrow> u32 \<Rightarrow> rt_state \<Rightarrow> pf_result" where
  "check_double_pagefault t pfa d1 d2 s =
     (let last = rs_last_pf s (unat (id_task t)) in
      if d1 = lp_pfa last \<and> d2 = lp_eip last
      then (let d1 = d1 AND L4_PAGEMASK;
                s = (if d1 < rs_mem_high s + ram_base
                     then fst (quota_alloc_mem (task_owner_t t) d1 L4_PAGESIZE s) else s)
            in Inr (set_last_pf (unat (id_task t)) d1 d2 s, False, d1, d2))
      else Inr (set_last_pf (unat (id_task t)) d1 d2 s, False, d1, d2))"

subsection \<open>Any free page\<close>

text \<open>The inner loop of \<open>find_free\<close>: the address it stops at and whether it found a page.\<close>

partial_function (option) free_page_from :: "rt_state \<Rightarrow> owner_t \<Rightarrow> l4_addr_t \<Rightarrow> (l4_addr_t \<times> bool) option" where
  [code]: "free_page_from s ow address =
     (if address - ram_base < rs_mem_high s
      then (if \<not> quota_check_mem s ow address L4_PAGESIZE \<or> memmap_owner_page s address \<noteq> O_FREE
            then free_page_from s ow (address + L4_PAGESIZE)
            else Some (address, True))
      else Some (address, False))"

partial_function (option) find_free_from ::
  "rt_state \<Rightarrow> owner_t \<Rightarrow> bool \<Rightarrow> l4_addr_t \<Rightarrow> l4_addr_t option option" where
  [code]: "find_free_from s ow super address =
     (if \<not> address - ram_base < rs_mem_high s then Some None
      else (let f = memmap_nrfree_superpage s address in
            if super
            then (if f = of_nat SP_PAGES then Some (Some address)
                  else find_free_from s ow super (address + L4_SUPERPAGESIZE))
            else if f = 0 then find_free_from s ow super (address + L4_SUPERPAGESIZE)
            else (case free_page_from s ow address of
                    None \<Rightarrow> None
                  | Some (a, found) \<Rightarrow>
                      if found then Some (Some a)
                      else find_free_from s ow super (a + L4_SUPERPAGESIZE))))"

definition find_free :: "rt_state \<Rightarrow> l4_threadid_t \<Rightarrow> u32 \<Rightarrow> u32 \<Rightarrow> bool \<Rightarrow> (bool \<times> u32 \<times> u32) res" where
  "find_free s t d1 d2 super =
     (case find_free_from s (task_owner_t t) super ram_base of
        None \<Rightarrow> Inl Diverge
      | Some None \<Rightarrow> Inr (False, d1, d2)
      | Some (Some address) \<Rightarrow>
          Inr (True, address, l4_fpage address (if super then L4_LOG2_SUPERPAGESIZE else L4_LOG2_PAGESIZE)
                                L4_FPAGE_RW L4_FPAGE_MAP))"

subsection \<open>The sigma0 protocol\<close>

text \<open>The first loop of a request for RAM: every (super)page is free or the sender's.\<close>

fun ram_check :: "rt_state \<Rightarrow> l4_threadid_t \<Rightarrow> bool \<Rightarrow> u32 \<Rightarrow> nat \<Rightarrow> l4_addr_t \<Rightarrow> bool" where
  "ram_check s t super psize 0 a = True"
| "ram_check s t super psize (Suc n) a =
     (let ow = (if super then memmap_owner_superpage s a else memmap_owner_page s a) in
      if (ow \<noteq> O_FREE \<and> ucast ow \<noteq> id_task t) \<or> \<not> quota_check_mem s (task_owner_t t) a psize
      then False else ram_check s t super psize n (a + psize))"

fun ram_alloc :: "owner_t \<Rightarrow> bool \<Rightarrow> u32 \<Rightarrow> nat \<Rightarrow> l4_addr_t \<Rightarrow> rt_state \<Rightarrow> rt_state res" where
  "ram_alloc ow super psize 0 a s = Inr s"
| "ram_alloc ow super psize (Suc n) a s =
     (let s1 = fst (quota_free_mem ow a psize s);
          (s2, ok) = (if super then memmap_alloc_superpage a ow s1 else memmap_alloc_page a ow s1)
      in if \<not> ok then Inl Panic else ram_alloc ow super psize n (a + psize) s2)"

definition sigma0_fpage_ram :: "l4_threadid_t \<Rightarrow> u32 \<Rightarrow> u32 \<Rightarrow> rt_state \<Rightarrow> pf_result" where
  "sigma0_fpage_ram t d1 d2 s =
     (let addr = push_bit L4_PAGESHIFT (fp_page d2);
          super = fp_size d2 \<ge> L4_LOG2_SUPERPAGESIZE;
          shift = (if super then L4_SUPERPAGESHIFT else L4_PAGESHIFT);
          psize = (if super then L4_SUPERPAGESIZE else L4_PAGESIZE)
      in if unat (fp_size d2) \<ge> 32 then Inl Undefined
         else (let num = unat (drop_bit shift (push_bit (unat (fp_size d2)) 1 :: u32))
               in if \<not> ram_check s t super psize num addr then Inr (s, False, d1, d2)
                  else bind_res (ram_alloc (task_owner_t t) super psize num addr s) (\<lambda>s1.
                    Inr (if super then log_event (Fpage_unmap (l4_fpage addr L4_LOG2_SUPERPAGESIZE 0 0) FlushOther) s1
                         else s1,
                         True, addr, l4_fpage addr (fp_size d2) L4_FPAGE_RW L4_FPAGE_MAP))))"

definition sigma0_fpage_iomem :: "l4_threadid_t \<Rightarrow> u32 \<Rightarrow> u32 \<Rightarrow> rt_state \<Rightarrow> pf_result" where
  "sigma0_fpage_iomem t d1 d2 s =
     (let addr = push_bit L4_PAGESHIFT (fp_page d2);
          super = fp_size d2 \<ge> L4_LOG2_SUPERPAGESIZE
      in if fp_size d2 \<noteq> L4_LOG2_PAGESIZE \<and> fp_size d2 \<noteq> L4_LOG2_SUPERPAGESIZE then Inr (s, False, d1, d2)
         else (let (s1, ok) = (if super then memmap_alloc_superpage addr (task_owner_t t) s
                               else memmap_alloc_page addr (task_owner_t t) s)
               in if ok
                  then (let scratch = (if super then scratch_4M else scratch_4K);
                            s2 = log_event (Fpage_unmap (l4_fpage scratch (fp_size d2) 0 0) FlushAll) s1;
                            s3 = log_event (Sigma0_call d1 d2) s2
                        in Inr (s3, True, addr, l4_fpage scratch (fp_size d2) L4_FPAGE_RW L4_FPAGE_GRANT))
                  else Inr (s1, False, d1, d2)))"

text \<open>\<open>find_free (t, d1, d2, super) && memmap_alloc_...page (*d1, t.id.task)\<close>\<close>

definition find_and_alloc :: "l4_threadid_t \<Rightarrow> u32 \<Rightarrow> u32 \<Rightarrow> bool \<Rightarrow> rt_state \<Rightarrow> pf_result" where
  "find_and_alloc t d1 d2 super s =
     bind_res (find_free s t d1 d2 super) (\<lambda>(found, d1, d2).
       if found
       then (let (s1, ok) = (if super then memmap_alloc_superpage d1 (task_owner_t t) s
                             else memmap_alloc_page d1 (task_owner_t t) s)
             in Inr (s1, ok, d1, d2))
       else Inr (s, False, d1, d2))"

definition sigma0_fpage_any :: "l4_threadid_t \<Rightarrow> u32 \<Rightarrow> u32 \<Rightarrow> rt_state \<Rightarrow> pf_result" where
  "sigma0_fpage_any t d1 d2 s =
     (if fp_size d2 = L4_LOG2_PAGESIZE then find_and_alloc t d1 d2 False s
      else if fp_size d2 = L4_LOG2_SUPERPAGESIZE then find_and_alloc t d1 d2 True s
      else Inr (s, False, d1, d2))"

definition sigma0_tbuf :: "pager_env \<Rightarrow> u32 \<Rightarrow> u32 \<Rightarrow> rt_state \<Rightarrow> pf_result" where
  "sigma0_tbuf env d1 d2 s =
     (let s1 = log_event (Fpage_unmap (l4_fpage scratch_4K L4_LOG2_PAGESIZE 0 0) FlushAll) s;
          s2 = log_event (Sigma0_call d1 d2) s1;
          (res1, res2, ret) = pe_sigma0 env d1 d2
      in if (res1 = 0 \<and> res2 = 0) \<or> ret \<noteq> 0 then Inr (s2, False, d1, d2)
         else Inr (s2, True, scratch_4K, l4_fpage scratch_4K L4_LOG2_PAGESIZE L4_FPAGE_RW L4_FPAGE_GRANT))"

definition handle_extended_sigma0 :: "pager_env \<Rightarrow> l4_threadid_t \<Rightarrow> u32 \<Rightarrow> u32 \<Rightarrow> rt_state \<Rightarrow> pf_result" where
  "handle_extended_sigma0 env t d1 d2 s =
     (let fn = d1 AND SIGMA0_REQ_ID_MASK in
      if fn = SIGMA0_REQ_ID_FPAGE_RAM then sigma0_fpage_ram t d1 d2 s
      else if fn = SIGMA0_REQ_ID_FPAGE_IOMEM \<or> fn = SIGMA0_REQ_ID_FPAGE_IOMEM_CACHED
      then sigma0_fpage_iomem t d1 d2 s
      else if fn = SIGMA0_REQ_ID_FPAGE_ANY then sigma0_fpage_any t d1 d2 s
      else if fn = SIGMA0_REQ_ID_KIP
      then Inr (s, True, 0, l4_fpage (pe_kip env) L4_LOG2_PAGESIZE L4_FPAGE_RO L4_FPAGE_MAP)
      else if fn = SIGMA0_REQ_ID_TBUF then sigma0_tbuf env d1 d2 s
      else Inr (s, False, d1, d2))"

subsection \<open>The old protocol and page faults\<close>

definition handle_anypage :: "l4_threadid_t \<Rightarrow> u32 \<Rightarrow> u32 \<Rightarrow> u32 \<Rightarrow> rt_state \<Rightarrow> pf_result" where
  "handle_anypage t pfa d1 d2 s = find_and_alloc t d1 d2 False s"

definition handle_kip :: "pager_env \<Rightarrow> l4_threadid_t \<Rightarrow> u32 \<Rightarrow> u32 \<Rightarrow> u32 \<Rightarrow> rt_state \<Rightarrow> pf_result" where
  "handle_kip env t pfa d1 d2 s =
     Inr (s, True, 0, l4_fpage (pe_kip env) L4_LOG2_PAGESIZE L4_FPAGE_RO L4_FPAGE_MAP)"

definition handle_tbuf_status :: "pager_env \<Rightarrow> l4_threadid_t \<Rightarrow> u32 \<Rightarrow> u32 \<Rightarrow> u32 \<Rightarrow> rt_state \<Rightarrow> pf_result" where
  "handle_tbuf_status env t pfa d1 d2 s =
     (let s1 = log_event (Fpage_unmap (l4_fpage scratch_4K L4_LOG2_SUPERPAGESIZE 0 0) FlushAll) s;
          s2 = log_event (Sigma0_call 1 0xff) s1;
          (d1, d2, ret) = pe_sigma0 env 1 0xff
      in if d1 = 0 \<and> d2 = 0 then Inr (s2, False, d1, d2)
         else Inr (s2, True, pfa, l4_fpage scratch_4K L4_LOG2_PAGESIZE L4_FPAGE_RW L4_FPAGE_GRANT))"

definition try_superpage_mapping :: "l4_threadid_t \<Rightarrow> u32 \<Rightarrow> u32 \<Rightarrow> u32 \<Rightarrow> rt_state \<Rightarrow> rt_state \<times> bool \<times> u32 \<times> u32" where
  "try_superpage_mapping t pfa d1 d2 s =
     (if d1 AND 1 \<noteq> 0 \<and> d2 = push_bit 2 L4_LOG2_SUPERPAGESIZE
      then (if rs_no_pentium s then (s, False, d1, d2)
            else (case memmap_alloc_superpage pfa (task_owner_t t) s of
                    (s1, ok) \<Rightarrow>
                      if ok
                      then (let d1 = d1 AND L4_SUPERPAGEMASK
                            in (log_event (Fpage_unmap (l4_fpage d1 L4_LOG2_SUPERPAGESIZE 0 0) FlushOther) s1, True,
                                d1, l4_fpage d1 L4_LOG2_SUPERPAGESIZE L4_FPAGE_RW L4_FPAGE_MAP))
                      else (s1, False, d1, d2)))
      else (s, False, d1, d2))"

text \<open>
  The condition \<open>(v = vm_find (...) > -1)\<close> assigns the truth value of the comparison to
  \<open>v\<close>: the offset that is added is the one of entry 1.
\<close>

definition handle_physicalpage :: "l4_threadid_t \<Rightarrow> u32 \<Rightarrow> u32 \<Rightarrow> u32 \<Rightarrow> rt_state \<Rightarrow> pf_result" where
  "handle_physicalpage t pfa d1 d2 s =
     (if pfa \<ge> rs_mem_high s + ram_base \<or> pfa < ram_base then check_double_pagefault t pfa d1 d2 s
      else if pfa < L4_PAGESIZE then check_double_pagefault t pfa d1 d2 s
      else bind_res (if vm_find s (id_task t) pfa > -1 then bind_res (vm_get_offset s 1) (\<lambda>off. Inr (pfa + off))
                     else Inr pfa) (\<lambda>pfa.
        case try_superpage_mapping t pfa d1 d2 s of
          (s1, done, d1, d2) \<Rightarrow>
            if done then Inr (s1, True, d1, d2)
            else (case memmap_alloc_page d1 (task_owner_t t) s1 of
                    (s2, ok) \<Rightarrow>
                      if ok
                      then Inr (s2, True, d1 AND L4_PAGEMASK, l4_fpage pfa L4_LOG2_PAGESIZE L4_FPAGE_RW L4_FPAGE_MAP)
                      else if pfa \<ge> push_bit 10 (rs_mem_lower s2) \<and> pfa < 0x100000
                      then Inr (s2, True, d1 AND L4_PAGEMASK,
                             l4_fpage (d1 AND L4_PAGEMASK) L4_LOG2_PAGESIZE L4_FPAGE_RW L4_FPAGE_MAP)
                      else check_double_pagefault t pfa d1 d2 s2)))"

definition handle_adapterpage :: "l4_threadid_t \<Rightarrow> u32 \<Rightarrow> u32 \<Rightarrow> u32 \<Rightarrow> rt_state \<Rightarrow> pf_result" where
  "handle_adapterpage t pfa d1 d2 s =
     (let pfa = pfa AND L4_SUPERPAGEMASK in
      case memmap_alloc_superpage (pfa + 0x40000000) (task_owner_t t) s of
        (s1, ok) \<Rightarrow>
          if ok
          then (let s2 = log_event (Fpage_unmap (l4_fpage scratch_4M L4_LOG2_SUPERPAGESIZE 0 0) FlushAll) s1;
                    s3 = log_event (Sigma0_call pfa 0) s2
                in Inr (s3, True, pfa, l4_fpage scratch_4M L4_LOG2_SUPERPAGESIZE L4_FPAGE_RW L4_FPAGE_GRANT))
          else Inr (s1, False, d1, d2))"

text \<open>The loop over the ports: \<open>True\<close> if all were allocated.\<close>

fun io_alloc :: "owner_t \<Rightarrow> nat \<Rightarrow> u32 \<Rightarrow> rt_state \<Rightarrow> (rt_state \<times> bool) res" where
  "io_alloc ow 0 i s = Inr (s, True)"
| "io_alloc ow (Suc n) i s =
     bind_res (iomap_alloc_port i ow s) (\<lambda>(s1, ok).
       if \<not> ok then Inr (s1, False) else io_alloc ow n (i + 1) s1)"

definition handle_io :: "l4_threadid_t \<Rightarrow> u32 \<Rightarrow> u32 \<Rightarrow> u32 \<Rightarrow> rt_state \<Rightarrow> pf_result" where
  "handle_io t pfa d1 d2 s =
     (let port = iofp_iopage d1; sz = iofp_iosize d1; task = unat (id_task t) in
      if \<not> rs_have_io s then Inr (set_last_pf task d1 d2 s, False, d1, d2)
      else if port = 0 \<and> sz = L4_WHOLE_IOADDRESS_SPACE
      then (if \<not> quota_check_allow_cli s (id_task t) then Inr (set_last_pf task d1 d2 s, False, d1, d2)
            else Inr (s, True, 0, l4_iofpage port sz 0))
      else if unat sz \<ge> 31 then Inl Undefined
      else bind_res (io_alloc (task_owner_t t) (2 ^ unat sz) port s) (\<lambda>(s1, ok).
             if ok then Inr (s1, True, 0, l4_iofpage port sz 0)
             else Inr (set_last_pf task d1 d2 s1, False, d1, d2)))"

subsection \<open>One request\<close>

text \<open>
  The body of the loop of \<open>pager\<close> between \<open>enter_memmap_functions\<close> and the reply: the
  request is skipped, answered with a flexpage, or answered with two zero words.
\<close>

datatype pager_reply = Skip | ReplyFpage u32 u32 | ReplyZero

definition pager_dispatch ::
  "pager_env \<Rightarrow> l4_msgtag_protocol \<Rightarrow> l4_threadid_t \<Rightarrow> u32 \<Rightarrow> u32 \<Rightarrow> rt_state \<Rightarrow> pf_result" where
  "pager_dispatch env tag t d1 d2 s =
     (let pfa = d1 AND 0xfffffffc in
      if tag = L4_MSGTAG_SIGMA0
      then (if SIGMA0_IS_MAGIC_REQ d1 then handle_extended_sigma0 env t d1 d2 s
            else if d1 = 0xfffffffc then handle_anypage t pfa d1 d2 s
            else if d1 = 1 \<and> d2 AND 0xff = 1 then handle_kip env t pfa d1 d2 s
            else if d1 = 1 \<and> d2 AND 0xff = 0xff then handle_tbuf_status env t pfa d1 d2 s
            else Inr (s, False, d1, d2))
      else if tag = L4_MSGTAG_PAGE_FAULT
      then (if pfa < 0x40000000 then handle_physicalpage t pfa d1 d2 s
            else if pfa \<ge> 0x40000000 \<and> pfa < 0xC0000000 \<and> \<not> (d1 AND 1 \<noteq> 0) then handle_adapterpage t pfa d1 d2 s
            else Inr (s, False, d1, d2))
      else if tag = L4_MSGTAG_IO_PAGE_FAULT \<and> pe_fiasco env \<and> l4_is_io_page_fault d1
      then handle_io t pfa d1 d2 s
      else Inr (s, False, d1, d2))"

definition pager_request ::
  "pager_env \<Rightarrow> l4_msgtag_protocol \<Rightarrow> l4_threadid_t \<Rightarrow> u32 \<Rightarrow> u32 \<Rightarrow> rt_state \<Rightarrow> (rt_state \<times> pager_reply) res" where
  "pager_request env tag t d1 d2 s =
     (if tag = L4_MSGTAG_PAGE_FAULT \<or> tag = L4_MSGTAG_IO_PAGE_FAULT \<or> tag = L4_MSGTAG_SIGMA0
      then (if id_task t \<le> O_MAX
            then bind_res (pager_dispatch env tag t d1 d2 s) (\<lambda>(s1, handled, d1, d2).
                   Inr (s1, if handled then ReplyFpage d1 d2 else ReplyZero))
            else Inr (s, ReplyZero))
      else Inr (s, Skip))"

text \<open>After a reply that could not be sent: a flexpage that was to be granted is flushed.\<close>

definition pager_flush :: "u32 \<Rightarrow> bool \<Rightarrow> u32 \<Rightarrow> rt_state \<Rightarrow> rt_state" where
  "pager_flush err short_fpage d2 s =
     (if err = L4_IPC_SETIMEOUT \<and> short_fpage \<and> d2 AND 1 \<noteq> 0
      then log_event (Fpage_unmap d2 FlushAll) s else s)"

section \<open>Flexpages as sets of pages\<close>

text \<open>
  The pages a flexpage denotes: \<open>2 ^ size\<close> bytes, aligned to their size.
\<close>

definition fpage_pages :: "l4_fpage_t \<Rightarrow> nat set" where
  "fpage_pages f =
     (let sz = unat (fp_size f); n = 2 ^ (sz - 12); b = unat (fp_page f) div n * n
      in if sz < 12 then {} else {b ..< b + n})"

definition fpage_aligned :: "l4_fpage_t \<Rightarrow> bool" where
  "fpage_aligned f \<longleftrightarrow> unat (fp_page f) mod 2 ^ (unat (fp_size f) - 12) = 0"

lemma unat_drop_bit: "unat (drop_bit n x) = unat x div 2 ^ n" for x :: u32
proof -
  have "unat (drop_bit n x) = drop_bit n (unat x)"
    by (simp add: unsigned_drop_bit_eq take_bit_nat_eq_self)
  then show ?thesis by (simp only: drop_bit_eq_div)
qed

lemma unat_fp_page: "unat (fp_page f) = unat f div 4096"
  by (simp add: fp_page_def unat_drop_bit)

lemma unat_fp_page_fpage: "unat (fp_page (l4_fpage a sz w g)) = page_no a"
  by (simp add: fp_page_l4_fpage unat_drop_bit page_no_eq)

lemma fpage_pages_page [simp]: "fpage_pages (l4_fpage a L4_LOG2_PAGESIZE w g) = {page_no a}"
  by (auto simp: fpage_pages_def fp_size_l4_fpage unat_fp_page_fpage L4_LOG2_PAGESIZE_def)

lemma fpage_pages_superpage [simp]: "fpage_pages (l4_fpage a L4_LOG2_SUPERPAGESIZE w g) = superpage_cells a"
  by (simp add: fpage_pages_def fp_size_l4_fpage unat_fp_page_fpage L4_LOG2_SUPERPAGESIZE_def
      superpage_cells_def superpage_no_page_no Let_def)

lemma l4_fpage_bit0: "l4_fpage a sz w g AND 1 = ucast g AND 1"
  unfolding l4_fpage_def L4_PAGEMASK_mask mask_6 mask_1
  by (rule bit_word_eqI) (auto simp: bit_simps)

lemma l4_fpage_bit1: "l4_fpage a sz w g AND 2 = push_bit 1 (ucast w AND 1)"
proof -
  have "(2::u32) = push_bit 1 (mask 1)" by (simp add: mask_eq_exp_minus_1)
  then show ?thesis
    unfolding l4_fpage_def L4_PAGEMASK_mask mask_6 mask_1
    by (simp only:) (rule bit_word_eqI, auto simp: bit_simps)
qed

lemma l4_fpage_grant [simp]: "l4_fpage a sz w L4_FPAGE_GRANT AND 1 = 1"
  by (simp add: l4_fpage_bit0 L4_FPAGE_GRANT_def)

lemma l4_fpage_ro [simp]: "l4_fpage a sz L4_FPAGE_RO g AND 2 = 0"
  by (simp add: l4_fpage_bit1 L4_FPAGE_RO_def)

lemma low_bits_same_page:
  "page_no (d AND 0xfffffffc) = page_no d" "superpage_no (d AND 0xfffffffc) = superpage_no d"
proof -
  have m2: "(0xfffffffc :: u32) = NOT (mask 2)" by (simp add: mask_eq_exp_minus_1)
  have u: "unat (d AND 0xfffffffc) = unat d div 4 * 4" unfolding m2 and_not_mask_unat by simp
  have d: "unat d div 4096 = unat d div 4 div 1024" "unat d div 4194304 = unat d div 4 div 1048576"
    by (simp_all add: div_mult2_eq [symmetric])
  have m: "(unat d div 4 * 4) div 4096 = unat d div 4 * 4 div 4 div 1024"
    "(unat d div 4 * 4) div 4194304 = unat d div 4 * 4 div 4 div 1048576"
    by (simp_all add: div_mult2_eq [symmetric])
  show "page_no (d AND 0xfffffffc) = page_no d" unfolding page_no_eq u d(1) m(1) by simp
  show "superpage_no (d AND 0xfffffffc) = superpage_no d" unfolding superpage_no_eq u d(2) m(2) by simp
qed

section \<open>What the handlers keep\<close>

text \<open>
  \<open>keeps_others ow s s'\<close>: the memory map stays consistent, and every page that is not
  free and not of \<open>ow\<close> keeps its owner.
\<close>

definition keeps_others :: "owner_t \<Rightarrow> rt_state \<Rightarrow> rt_state \<Rightarrow> bool" where
  "keeps_others ow s s' \<longleftrightarrow> (mm_inv s \<longrightarrow> mm_inv s' \<and>
     (\<forall>p. page_owner s p \<noteq> O_FREE \<longrightarrow> page_owner s p \<noteq> ow \<longrightarrow> page_owner s' p = page_owner s p))"

lemma keeps_refl [simp, intro]: "keeps_others ow s s"
  by (simp add: keeps_others_def)

lemma keeps_trans: "keeps_others ow s s1 \<Longrightarrow> keeps_others ow s1 s2 \<Longrightarrow> keeps_others ow s s2"
  by (auto simp: keeps_others_def)

lemma mm_inv_cong: "rs_memmap s' = rs_memmap s \<Longrightarrow> rs_memmap4mb s' = rs_memmap4mb s \<Longrightarrow> mm_inv s' = mm_inv s"
  by (simp add: mm_inv_def)

lemma page_owner_cong:
  "rs_memmap s' = rs_memmap s \<Longrightarrow> rs_memmap4mb s' = rs_memmap4mb s \<Longrightarrow> page_owner s' p = page_owner s p"
  by (simp add: page_owner_def Let_def)

lemma keeps_frame:
  "rs_memmap s' = rs_memmap s \<Longrightarrow> rs_memmap4mb s' = rs_memmap4mb s \<Longrightarrow> keeps_others ow s s'"
  unfolding keeps_others_def using mm_inv_cong [of s' s] page_owner_cong [of s' s] by blast

lemma keeps_step: "mem_step ow s s' \<Longrightarrow> keeps_others ow s s'"
  by (auto simp: keeps_others_def intro: mem_step_inv mem_step_keeps)

lemma log_event_simps [simp, rt_simps]:
  "rs_memmap (log_event e s) = rs_memmap s" "rs_memmap4mb (log_event e s) = rs_memmap4mb s"
  "rs_mem_high (log_event e s) = rs_mem_high s" "rs_iomap (log_event e s) = rs_iomap s"
  "page_owner (log_event e s) p = page_owner s p" "mm_inv (log_event e s) = mm_inv s"
  by (simp_all add: log_event_def page_owner_def mm_inv_def Let_def)

lemma set_last_pf_simps [simp, rt_simps]:
  "rs_memmap (set_last_pf k a b s) = rs_memmap s" "rs_memmap4mb (set_last_pf k a b s) = rs_memmap4mb s"
  "rs_mem_high (set_last_pf k a b s) = rs_mem_high s" "rs_iomap (set_last_pf k a b s) = rs_iomap s"
  by (simp_all add: set_last_pf_def)

lemma keeps_log [simp]: "keeps_others ow s (log_event e s') = keeps_others ow s s'"
  by (simp add: keeps_others_def)

lemma keeps_alloc:
  assumes "is_client ow"
  shows "keeps_others ow s (fst (memmap_alloc_page a ow s))" "keeps_others ow s (fst (memmap_alloc_superpage a ow s))"
  using assms by (auto intro: keeps_step mem_step.intros)

lemma keeps_allocD:
  "is_client ow \<Longrightarrow> memmap_alloc_page a ow s = (s', r) \<Longrightarrow> keeps_others ow s s'"
  "is_client ow \<Longrightarrow> memmap_alloc_superpage a ow s = (s', r) \<Longrightarrow> keeps_others ow s s'"
  using keeps_alloc by (metis fst_conv)+

section \<open>Safe replies\<close>

text \<open>
  \<open>safe_reply ow B s r\<close>: the result \<open>r\<close> of a handler keeps the pages of others, and if it
  maps a writable flexpage then the pages of that flexpage belong to \<open>ow\<close> or are in \<open>B\<close>.
\<close>

fun safe_reply :: "owner_t \<Rightarrow> nat set \<Rightarrow> rt_state \<Rightarrow> rt_state \<times> bool \<times> u32 \<times> u32 \<Rightarrow> bool" where
  "safe_reply ow B s (s', handled, e1, e2) \<longleftrightarrow>
     keeps_others ow s s' \<and>
     (mm_inv s \<longrightarrow> handled \<longrightarrow> e2 AND 1 = 0 \<longrightarrow> e2 AND 2 \<noteq> 0 \<longrightarrow>
        (\<forall>p \<in> fpage_pages e2. page_owner s' p = ow \<or> p \<in> B))"

lemma alloc_page_owned:
  "mm_inv s \<Longrightarrow> is_client ow \<Longrightarrow> memmap_alloc_page a ow s = (s', True) \<Longrightarrow> page_owner s' (page_no a) = ow"
  using alloc_page_refines(1) [of s ow a s' True "page_no a"] by simp

lemma alloc_superpage_owned:
  "mm_inv s \<Longrightarrow> is_client ow \<Longrightarrow> memmap_alloc_superpage a ow s = (s', True) \<Longrightarrow> p \<in> superpage_cells a \<Longrightarrow>
   page_owner s' p = ow"
  using alloc_superpage_refines(1) [of s ow a s' True p] by simp

lemma check_double_pagefault_safe:
  "check_double_pagefault t pfa d1 d2 s = Inr r \<Longrightarrow> safe_reply ow B s r"
  by (auto simp: check_double_pagefault_def Let_def quota_alloc_frame intro!: keeps_frame split: if_splits)

lemma find_and_alloc_safe:
  assumes "is_client (task_owner_t t)" "find_and_alloc t d1 d2 super s = Inr r"
  shows "safe_reply (task_owner_t t) B s r"
proof -
  obtain found e1 e2 where f: "find_free s t d1 d2 super = Inr (found, e1, e2)"
    and e2: "found \<Longrightarrow> e2 = l4_fpage e1 (if super then L4_LOG2_SUPERPAGESIZE else L4_LOG2_PAGESIZE) L4_FPAGE_RW L4_FPAGE_MAP"
    using assms(2) by (auto simp: find_and_alloc_def find_free_def bind_res_Inr_iff split: option.splits)
  show ?thesis
  proof (cases found)
    case False
    with assms f show ?thesis by (auto simp: find_and_alloc_def)
  next
    case True
    obtain s1 ok where a: "(if super then memmap_alloc_superpage e1 (task_owner_t t) s
        else memmap_alloc_page e1 (task_owner_t t) s) = (s1, ok)" by fastforce
    with assms f True have r: "r = (s1, ok, e1, e2)" by (simp add: find_and_alloc_def)
    have "keeps_others (task_owner_t t) s s1"
      using a assms(1) keeps_allocD by (auto split: if_splits)
    moreover have "page_owner s1 p = task_owner_t t" if "mm_inv s" ok "p \<in> fpage_pages e2" for p
      using that a assms(1) e2 [OF True] alloc_page_owned [of s _ e1 s1] alloc_superpage_owned [of s _ e1 s1 p]
      by (auto split: if_splits)
    ultimately show ?thesis unfolding r by simp
  qed
qed

lemma keeps_owned: "mm_inv s \<Longrightarrow> keeps_others ow s s1 \<Longrightarrow> mm_inv s1"
  by (simp add: keeps_others_def)

lemma ram_alloc_owned:
  "ram_alloc ow super psize n a s = Inr s' \<Longrightarrow> is_client ow \<Longrightarrow>
   keeps_others ow s s' \<and>
   (mm_inv s \<longrightarrow> (\<forall>p. page_owner s p = ow \<longrightarrow> page_owner s' p = ow) \<and>
     (\<forall>k < n. \<forall>p \<in> (if super then superpage_cells (a + of_nat k * psize) else {page_no (a + of_nat k * psize)}).
        page_owner s' p = ow))"
proof (induction ow super psize n a s rule: ram_alloc.induct)
  case (2 ow super psize n a s)
  obtain s2 ok where a: "(if super then memmap_alloc_superpage a ow s else memmap_alloc_page a ow s) = (s2, ok)" by fastforce
  with 2(2) have ok: ok and r: "ram_alloc ow super psize n (a + psize) s2 = Inr s'"
    by (auto split: if_splits)
  have k1: "keeps_others ow s s2" using a 2(3) keeps_allocD by (auto split: if_splits)
  have own: "\<forall>p \<in> (if super then superpage_cells a else {page_no a}). page_owner s2 p = ow"
    "page_owner s p = ow \<Longrightarrow> page_owner s2 p = ow" if "mm_inv s" for p
    using that a ok 2(3) alloc_page_owned [of s ow a s2] alloc_superpage_owned [of s ow a s2]
      alloc_page_refines(1) [of s ow a s2 True p] alloc_superpage_refines(1) [of s ow a s2 True p]
    by (auto split: if_splits)
  have a': "(s2, ok) = (if super then memmap_alloc_superpage a ow (fst (quota_free_mem ow a psize s))
      else memmap_alloc_page a ow (fst (quota_free_mem ow a psize s)))" using a by (cases super) simp_all
  have "\<not> \<not> ok" using ok by simp
  note I = 2(1) [OF refl refl a' this r 2(3)]
  have IH: "keeps_others ow s2 s'"
    "mm_inv s2 \<Longrightarrow> page_owner s2 p = ow \<Longrightarrow> page_owner s' p = ow"
    "mm_inv s2 \<Longrightarrow> k < n \<Longrightarrow>
      p \<in> (if super then superpage_cells (a + psize + of_nat k * psize) else {page_no (a + psize + of_nat k * psize)}) \<Longrightarrow>
      page_owner s' p = ow" for p k
    using I by blast+
  have "page_owner s' p = ow" if "mm_inv s" "k < Suc n"
    "p \<in> (if super then superpage_cells (a + of_nat k * psize) else {page_no (a + of_nat k * psize)})" for k p
  proof (cases k)
    case 0
    have "p \<in> (if super then superpage_cells a else {page_no a})" using that(3) unfolding 0 by (cases super) simp_all
    with that(1) own IH(2) keeps_owned [OF _ k1] show ?thesis by blast
  next
    case (Suc k')
    have e: "a + of_nat k * psize = a + psize + of_nat k' * psize" unfolding Suc by (simp add: algebra_simps)
    have "k' < n" using that(2) Suc by simp
    with that(1) that(3) [unfolded e] IH(3) keeps_owned [OF _ k1] show ?thesis by blast
  qed
  with keeps_trans [OF k1 IH(1)] own(2) IH(2) keeps_owned [OF _ k1] show ?case by blast
qed simp

lemma unat_shift: "n < 32 \<Longrightarrow> unat (2 ^ n :: u32) = 2 ^ n"
proof -
  assume "n < 32"
  then have "(2::nat) ^ n < 2 ^ 32" by (intro power_strict_increasing) auto
  then show ?thesis using unat_of_nat_lt [where ?'a = 32, of "2 ^ n"] by simp
qed

lemma unat_add_mult:
  fixes a m :: u32
  assumes "unat a + k * unat m < 2 ^ 32"
  shows "unat (a + of_nat k * m) = unat a + k * unat m"
proof -
  have "unat (of_nat (k * unat m) :: u32) = k * unat m" using assms by (intro unat_of_nat_lt) simp
  then have "unat (of_nat k * m) = k * unat m" by simp
  with assms show ?thesis by (subst unat_add_lt) auto
qed

text \<open>An aligned flexpage ends inside the address space.\<close>

lemma aligned_fits:
  assumes "b mod N = 0" "b < (M::nat)" "N dvd M" "0 < N"
  shows "b + N \<le> M"
proof -
  obtain q r where "b = N * q" "M = N * r" using assms by (metis mod_0_imp_dvd dvdE)
  moreover from this assms have "q + 1 \<le> r" by simp
  ultimately show ?thesis by (metis mult_le_mono2 add_mult_distrib2 mult_1_right)
qed

lemma fp_size_lt: "unat (fp_size f) < 64"
  using word_and_le_right [of "drop_bit 2 f" "0x3F"] by (simp add: fp_size_def word_le_unat)

lemma sigma0_fpage_ram_safe:
  assumes "is_client (task_owner_t t)" "fpage_aligned d2" "sigma0_fpage_ram t d1 d2 s = Inr r"
  shows "safe_reply (task_owner_t t) B s r"
proof -
  define b sz addr super where "b = unat (fp_page d2)" "sz = unat (fp_size d2)"
    "addr = push_bit L4_PAGESHIFT (fp_page d2)" "super = (fp_size d2 \<ge> L4_LOG2_SUPERPAGESIZE)"
  note D = b_sz_addr_super_def
  define psize where "psize = (if super then L4_SUPERPAGESIZE else L4_PAGESIZE)"
  define num where "num = unat (drop_bit (if super then L4_SUPERPAGESHIFT else L4_PAGESHIFT) (push_bit sz 1 :: u32))"
  have sup: "super \<longleftrightarrow> 22 \<le> sz" by (simp add: D L4_LOG2_SUPERPAGESIZE_def word_le_unat)
  have "addr = d2 AND NOT (mask 12)" unfolding D fp_page_def L4_PAGESHIFT_def
    by (rule bit_word_eqI) (auto simp: bit_simps)
  then have ua: "unat addr = b * 4096" by (simp add: and_not_mask_unat D unat_fp_page)
  have "b < 1048576" using unat_lt32 [of d2] unfolding D unat_fp_page by arith
  then have blt: "b < 2 ^ 20" by simp
  let ?flush = "log_event (Fpage_unmap (l4_fpage addr L4_LOG2_SUPERPAGESIZE 0 0) FlushOther)"
  let ?e2 = "l4_fpage addr (fp_size d2) L4_FPAGE_RW L4_FPAGE_MAP"
  have eq: "sigma0_fpage_ram t d1 d2 s =
      (if sz \<ge> 32 then Inl Undefined
       else if \<not> ram_check s t super psize num addr then Inr (s, False, d1, d2)
       else bind_res (ram_alloc (task_owner_t t) super psize num addr s)
         (\<lambda>s1. Inr (if super then ?flush s1 else s1, True, addr, ?e2)))"
    unfolding sigma0_fpage_ram_def Let_def D psize_def num_def by (rule refl)
  show ?thesis
  proof (cases "ram_check s t super psize num addr \<and> sz < 32")
    case False
    with assms(3) show ?thesis unfolding eq by (auto split: if_splits)
  next
    case True
    then obtain s1 where s1: "ram_alloc (task_owner_t t) super psize num addr s = Inr s1"
      and r: "r = (if super then ?flush s1 else s1, True, addr, ?e2)"
      using assms(3) unfolding eq by (auto simp: bind_res_Inr_iff split: if_splits)
    note owned = ram_alloc_owned [OF s1 assms(1)]
    have "page_owner s1 p = task_owner_t t" if inv: "mm_inv s" and p: "p \<in> fpage_pages ?e2" for p
    proof -
      have fs: "fp_size d2 AND 0x3F = fp_size d2" by (simp add: fp_size_def and.assoc)
      let ?N = "2 ^ (sz - 12) :: nat"
      have "b div ?N * ?N = b" using assms(2) by (auto simp: fpage_aligned_def D)
      then have p': "12 \<le> sz" "b \<le> p" "p < b + ?N"
        using p ua fs by (auto simp: fpage_pages_def fp_size_l4_fpage unat_fp_page_fpage page_no_eq Let_def D split: if_splits)
      have "sz - 12 \<le> 20" using True by linarith
      then have "?N dvd 2 ^ 20" by (rule le_imp_power_dvd)
      then have fits: "b + ?N \<le> 2 ^ 20"
        using aligned_fits [OF _ blt] assms(2) by (simp add: fpage_aligned_def D)
      show ?thesis
      proof (cases super)
        case False
        then have n: "num = ?N" using conjunct2 [OF True] p'(1) by (simp add: num_def unat_drop_bit unat_shift L4_PAGESHIFT_def power_diff)
        obtain k where k: "p = b + k" "k < ?N" using p' by (metis le_add_diff_inverse nat_add_left_cancel_less)
        have "unat (addr + of_nat k * L4_PAGESIZE) = (b + k) * 4096"
          using ua k fits by (subst unat_add_mult) (auto simp: L4_PAGESIZE_def)
        then have "page_no (addr + of_nat k * psize) = p" using False k by (simp add: page_no_eq psize_def)
        then show ?thesis using owned inv k n False by auto
      next
        case T: True
        let ?M = "2 ^ (sz - 22) :: nat"
        have NM: "?N = ?M * 1024"
        proof -
          have "sz - 12 = (sz - 22) + 10" using T sup by simp
          then show ?thesis by (simp only: power_add) simp
        qed
        have n: "num = ?M" using T sup conjunct2 [OF True] by (simp add: num_def unat_drop_bit unat_shift L4_SUPERPAGESHIFT_def power_diff)
        have b0: "b mod 1024 = 0" using assms(2) NM unfolding fpage_aligned_def D [symmetric]
          by (metis mod_mult_self2_is_0 mod_mod_cancel dvd_triv_right mod_0)
        define k where "k = (p - b) div 1024"
        have k: "k < ?M" using p' NM by (simp add: k_def div_less_iff_less_mult)
        have "unat (addr + of_nat k * L4_SUPERPAGESIZE) = b * 4096 + k * 4194304"
          using ua k fits NM by (subst unat_add_mult) (auto simp: L4_SUPERPAGESIZE_def)
        moreover have "p div 1024 = b div 1024 + k"
        proof -
          have "p = b + (p - b)" using p'(2) by simp
          then have "p div 1024 = (b + (p - b)) div 1024" by simp
          also have "\<dots> = b div 1024 + (p - b) div 1024" using b0 by (simp add: div_add1_eq)
          finally show ?thesis by (simp add: k_def)
        qed
        moreover have "(b * 4096 + k * 4194304) div 4194304 = b div 1024 + k"
        proof -
          have "b = b div 1024 * 1024" using b0 by auto
          then have "b * 4096 + k * 4194304 = (b div 1024 + k) * 4194304" by simp
          then show ?thesis by simp
        qed
        ultimately have "p \<in> superpage_cells (addr + of_nat k * psize)"
          using T by (simp add: superpage_cells_iff superpage_no_eq psize_def)
        then show ?thesis using owned inv k n T by auto
      qed
    qed
    then show ?thesis unfolding r using owned by (cases super) auto
  qed
qed

lemma sigma0_fpage_iomem_safe:
  assumes "is_client (task_owner_t t)" "sigma0_fpage_iomem t d1 d2 s = Inr r"
  shows "safe_reply (task_owner_t t) B s r"
proof -
  let ?super = "fp_size d2 \<ge> L4_LOG2_SUPERPAGESIZE" and ?addr = "push_bit L4_PAGESHIFT (fp_page d2)"
  obtain s1 ok where a: "(if ?super then memmap_alloc_superpage ?addr (task_owner_t t) s
      else memmap_alloc_page ?addr (task_owner_t t) s) = (s1, ok)" by fastforce
  then have "keeps_others (task_owner_t t) s s1" using keeps_allocD assms(1) by (auto split: if_splits)
  with assms(2) a show ?thesis by (auto simp: sigma0_fpage_iomem_def Let_def split: if_splits)
qed

lemma sigma0_tbuf_safe: "sigma0_tbuf env d1 d2 s = Inr r \<Longrightarrow> safe_reply ow B s r"
  by (auto simp: sigma0_tbuf_def Let_def split: if_splits prod.splits)

lemma handle_tbuf_status_safe: "handle_tbuf_status env t pfa d1 d2 s = Inr r \<Longrightarrow> safe_reply ow B s r"
  by (auto simp: handle_tbuf_status_def Let_def split: if_splits prod.splits)

lemma handle_extended_sigma0_safe:
  assumes "is_client (task_owner_t t)" "fpage_aligned d2" "handle_extended_sigma0 env t d1 d2 s = Inr r"
  shows "safe_reply (task_owner_t t) B s r"
  using assms(3) sigma0_fpage_ram_safe [OF assms(1,2)] sigma0_fpage_iomem_safe [OF assms(1)]
    find_and_alloc_safe [OF assms(1)] sigma0_tbuf_safe
  by (auto simp: handle_extended_sigma0_def sigma0_fpage_any_def Let_def split: if_splits)

text \<open>The pages between the end of the lower memory and 1 MB: every task may map them.\<close>

definition bios_pages :: "rt_state \<Rightarrow> nat set" where
  "bios_pages s = {p. unat (push_bit 10 (rs_mem_lower s)) \<le> p * 4096 + 4095 \<and> p < 256}"

lemma page_no_PAGEMASK: "page_no (d AND L4_PAGEMASK) = page_no d"
  by (simp add: page_no_eq unat_and_PAGEMASK)

lemma superpage_cells_low_bits:
  "superpage_cells (d AND 0xfffffffc) = superpage_cells d" "superpage_cells (d AND L4_SUPERPAGEMASK) = superpage_cells d"
  using superpage_no_trunc_superpage [of d]
  by (simp_all add: superpage_cells_def low_bits_same_page l4_trunc_superpage_def)

lemma memmap_mem_lower:
  assumes "memmap_alloc_page a ow s = (s', r)"
  shows "rs_mem_lower s' = rs_mem_lower s"
proof -
  have q: "rs_mem_lower (fst (quota_alloc_mem t a n s)) = rs_mem_lower s" for t a n s
    by (simp add: quota_alloc_mem_def upd_quota_def)
  have u: "rs_mem_lower (upd_superpage k f s) = rs_mem_lower s" "rs_mem_lower (upd_page p w s) = rs_mem_lower s" for k f p w s
    by (simp_all add: upd_superpage_def upd_page_def)
  show ?thesis
    using assms q [of ow a L4_PAGESIZE s] q [of ow a L4_PAGESIZE "upd_superpage (superpage_no a) (\<lambda>x. x\<lparr>sp_owner := O_RESERVED\<rparr>) s"]
    by (auto simp: memmap_alloc_page_def Let_def u split: if_splits prod.splits)
qed

lemma superpage_mem_lower:
  assumes "memmap_alloc_superpage a ow s = (s', r)"
  shows "rs_mem_lower s' = rs_mem_lower s"
proof -
  have q: "rs_mem_lower (fst (quota_alloc_mem t a n s)) = rs_mem_lower s" for t a n s
    by (simp add: quota_alloc_mem_def upd_quota_def)
  have c: "rs_mem_lower (fst (superpage_charge a ow n s)) = rs_mem_lower s" for a n
    using q [of ow a L4_SUPERPAGESIZE s]
    by (auto simp: superpage_charge_def Let_def quota_add_mem_def upd_quota_def split: prod.splits)
  have c': "superpage_charge a ow n s = (s1, g) \<Longrightarrow> rs_mem_lower s1 = rs_mem_lower s" for a n s1 g
    using c by (metis fst_conv)
  have q': "quota_alloc_mem t a n s = (s1, g) \<Longrightarrow> rs_mem_lower s1 = rs_mem_lower s" for t a n s1 g
    using q by (metis fst_conv)
  show ?thesis
    using assms
    by (auto simp: memmap_alloc_superpage_def Let_def upd_superpage_def split: if_splits prod.splits option.splits
        dest: c' q')
qed

lemma handle_physicalpage_safe:
  assumes cl: "is_client (task_owner_t t)" and vm: "vm_find s (id_task t) pfa = -1" and pfa: "pfa = d1 AND 0xfffffffc"
    and r: "handle_physicalpage t pfa d1 d2 s = Inr r"
  shows "safe_reply (task_owner_t t) (bios_pages s) s r"
proof -
  obtain s1 dn e1 e2 where sp: "try_superpage_mapping t pfa d1 d2 s = (s1, dn, e1, e2)"
    by (cases "try_superpage_mapping t pfa d1 d2 s") auto
  obtain s0 ok0 where a0: "memmap_alloc_superpage pfa (task_owner_t t) s = (s0, ok0)" by fastforce
  have k0: "keeps_others (task_owner_t t) s s0" using keeps_allocD(2) [OF cl a0] .
  have k1: "keeps_others (task_owner_t t) s s1"
    using sp a0 k0 by (auto simp: try_superpage_mapping_def Let_def split: if_splits)
  have nd: "\<not> dn \<Longrightarrow> e1 = d1 \<and> e2 = d2 \<and> (s1 = s \<or> s1 = s0)"
    using sp a0 by (auto simp: try_superpage_mapping_def Let_def split: if_splits)
  obtain s2 ok where a: "memmap_alloc_page d1 (task_owner_t t) s1 = (s2, ok)" by fastforce
  have k2: "keeps_others (task_owner_t t) s s2" using keeps_trans [OF k1 keeps_allocD(1) [OF cl a]] .
  show ?thesis
  proof (cases "pfa \<ge> rs_mem_high s + ram_base \<or> pfa < ram_base \<or> pfa < L4_PAGESIZE")
    case True
    with r have "check_double_pagefault t pfa d1 d2 s = Inr r" by (auto simp: handle_physicalpage_def split: if_splits)
    then show ?thesis by (rule check_double_pagefault_safe)
  next
    case in_mem: False
    show ?thesis
    proof (cases dn)
      case True
      with r in_mem vm sp have "r = (s1, True, e1, e2)" by (simp add: handle_physicalpage_def)
      moreover have "e2 = l4_fpage (d1 AND L4_SUPERPAGEMASK) L4_LOG2_SUPERPAGESIZE L4_FPAGE_RW L4_FPAGE_MAP"
        "ok0" "\<And>p. page_owner s1 p = page_owner s0 p"
        using sp a0 True by (auto simp: try_superpage_mapping_def Let_def split: if_splits)
      moreover have "page_owner s0 p = task_owner_t t" if "mm_inv s" "ok0" "p \<in> superpage_cells d1" for p
        using alloc_superpage_owned [OF that(1) cl, of pfa s0 p] a0 that superpage_cells_low_bits(1) [of d1] pfa by simp
      ultimately show ?thesis using k1 superpage_cells_low_bits(2) [of d1] by simp
    next
      case False
      note nd = nd [OF False]
      have low: "rs_mem_lower s2 = rs_mem_lower s"
        using memmap_mem_lower [OF a] superpage_mem_lower [OF a0] nd by auto
      consider (page) "ok" "r = (s2, True, d1 AND L4_PAGEMASK, l4_fpage pfa L4_LOG2_PAGESIZE L4_FPAGE_RW L4_FPAGE_MAP)"
        | (bios) "pfa \<ge> push_bit 10 (rs_mem_lower s2) \<and> pfa < 0x100000"
            "r = (s2, True, d1 AND L4_PAGEMASK, l4_fpage (d1 AND L4_PAGEMASK) L4_LOG2_PAGESIZE L4_FPAGE_RW L4_FPAGE_MAP)"
        | (dbl) "check_double_pagefault t pfa d1 d2 s2 = Inr r"
      proof -
        have "(if ok then Inr (s2, True, d1 AND L4_PAGEMASK, l4_fpage pfa L4_LOG2_PAGESIZE L4_FPAGE_RW L4_FPAGE_MAP)
            else if pfa \<ge> push_bit 10 (rs_mem_lower s2) \<and> pfa < 0x100000
            then Inr (s2, True, d1 AND L4_PAGEMASK, l4_fpage (d1 AND L4_PAGEMASK) L4_LOG2_PAGESIZE L4_FPAGE_RW L4_FPAGE_MAP)
            else check_double_pagefault t pfa d1 d2 s2) = Inr r"
          using r in_mem vm sp False nd a by (simp add: handle_physicalpage_def)
        then show thesis using page bios dbl
          by (cases ok; cases "pfa \<ge> push_bit 10 (rs_mem_lower s2) \<and> pfa < 0x100000") auto
      qed
      then show ?thesis
      proof cases
        case page
        have "page_owner s2 (page_no d1) = task_owner_t t" if "mm_inv s"
          using alloc_page_owned [OF keeps_owned [OF that k1] cl, of d1 s2] a page(1) by simp
        then show ?thesis unfolding page(2) using k2 low_bits_same_page(1) [of d1] pfa by simp
      next
        case bios
        have "page_no d1 = page_no pfa" using low_bits_same_page(1) [of d1] pfa by simp
        moreover have "unat pfa \<le> unat pfa div 4096 * 4096 + 4095"
          using div_mult_mod_eq [of "unat pfa" 4096] mod_less_divisor [of 4096 "unat pfa"] by linarith
        moreover have "unat pfa div 4096 < 256" using bios(1) by (simp add: word_less_unat div_less_iff_less_mult)
        ultimately have "page_no d1 \<in> bios_pages s"
          using bios(1) low by (simp add: bios_pages_def page_no_eq word_le_unat)
        then show ?thesis unfolding bios(2) using k2 by (simp add: page_no_PAGEMASK)
      next
        case dbl
        from check_double_pagefault_safe [OF dbl, of "task_owner_t t" "{}"] k2 keeps_trans [OF k2]
        show ?thesis using dbl by (cases r) (auto simp: check_double_pagefault_def Let_def split: if_splits)
      qed
    qed
  qed
qed

lemma handle_adapterpage_safe:
  assumes "is_client (task_owner_t t)" "handle_adapterpage t pfa d1 d2 s = Inr r"
  shows "safe_reply (task_owner_t t) B s r"
proof -
  obtain s1 ok where a: "memmap_alloc_superpage ((pfa AND L4_SUPERPAGEMASK) + 0x40000000) (task_owner_t t) s = (s1, ok)" by fastforce
  with assms keeps_allocD(2) [OF assms(1) a] show ?thesis by (auto simp: handle_adapterpage_def Let_def split: if_splits)
qed

section \<open>I/O ports\<close>

lemma io_alloc_owned:
  "io_alloc ow n i s = Inr (s', ok) \<Longrightarrow> unat i + n \<le> RMGR_IO_MAX \<Longrightarrow>
   rs_memmap s' = rs_memmap s \<and> rs_memmap4mb s' = rs_memmap4mb s
   \<and> (\<forall>c. rs_iomap s' c = rs_iomap s c \<or> rs_iomap s c = O_FREE \<and> rs_iomap s' c = ow \<and> unat i \<le> c \<and> c < unat i + n)
   \<and> (ok \<longrightarrow> (\<forall>c. unat i \<le> c \<and> c < unat i + n \<longrightarrow> rs_iomap s' c = ow))"
proof (induction ow n i s arbitrary: s' ok rule: io_alloc.induct)
  case (2 ow n i s)
  then obtain s1 ok1 where a: "iomap_alloc_port i ow s = Inr (s1, ok1)" by (auto simp: bind_res_Inr_iff)
  have p: "rs_memmap s1 = rs_memmap s" "rs_memmap4mb s1 = rs_memmap4mb s"
    "rs_iomap s1 c = rs_iomap s c \<or> rs_iomap s c = O_FREE \<and> rs_iomap s1 c = ow \<and> c = unat i"
    "ok1 \<Longrightarrow> rs_iomap s1 (unat i) = ow" for c
    using a by (auto simp: iomap_alloc_port_def split: if_splits)
  show ?case
  proof (cases ok1)
    case False
    with 2(2) a have "s' = s1" "\<not> ok" by auto
    moreover have "rs_iomap s1 c = rs_iomap s c \<or>
        rs_iomap s c = O_FREE \<and> rs_iomap s1 c = ow \<and> unat i \<le> c \<and> c < unat i + Suc n" for c
      using p(3) [of c] by auto
    ultimately show ?thesis using p(1,2) by auto
  next
    case True
    with 2(2) a have r: "io_alloc ow n (i + 1) s1 = Inr (s', ok)" by simp
    have i: "unat (i + 1) = unat i + 1" using 2(3) by (subst unat_add_lt) (auto simp: RMGR_IO_MAX_def)
    have I: "rs_memmap s' = rs_memmap s1 \<and> rs_memmap4mb s' = rs_memmap4mb s1
      \<and> (\<forall>c. rs_iomap s' c = rs_iomap s1 c \<or> rs_iomap s1 c = O_FREE \<and> rs_iomap s' c = ow \<and> unat i + 1 \<le> c \<and> c < unat i + 1 + n)
      \<and> (ok \<longrightarrow> (\<forall>c. unat i + 1 \<le> c \<and> c < unat i + 1 + n \<longrightarrow> rs_iomap s' c = ow))"
    proof -
      have n: "\<not> \<not> ok1" and b: "unat (i + 1) + n \<le> RMGR_IO_MAX" using True 2(3) i by simp_all
      show ?thesis using 2(1) [OF n r b] unfolding i .
    qed
    have "rs_iomap s' c = rs_iomap s c \<or> rs_iomap s c = O_FREE \<and> rs_iomap s' c = ow \<and> unat i \<le> c \<and> c < unat i + Suc n" for c
    proof -
      from I have "rs_iomap s' c = rs_iomap s1 c \<or>
          rs_iomap s1 c = O_FREE \<and> rs_iomap s' c = ow \<and> unat i + 1 \<le> c \<and> c < unat i + 1 + n" by blast
      with p(3) [of c] show ?thesis by (elim disjE conjE) simp_all
    qed
    moreover have "rs_iomap s' c = ow" if ok "unat i \<le> c" "c < unat i + Suc n" for c
    proof (cases "c = unat i")
      case c: True
      from I have "rs_iomap s' c = rs_iomap s1 c \<or> unat i + 1 \<le> c" by blast
      with c p(4) [OF True] show ?thesis by simp
    next
      case False
      with that I show ?thesis by simp
    qed
    ultimately show ?thesis using I p(1,2) by simp
  qed
qed auto

lemma io_alloc_no_fault:
  "unat i + n \<le> RMGR_IO_MAX \<Longrightarrow> \<exists>y. io_alloc ow n i s = Inr y"
proof (induction ow n i s rule: io_alloc.induct)
  case (2 ow n i s)
  then have "\<not> RMGR_IO_MAX \<le> unat i" by simp
  then have "\<exists>y. iomap_alloc_port i ow s = Inr y" by (simp add: iomap_alloc_port_def) blast
  then obtain s1 ok1 where a: "iomap_alloc_port i ow s = Inr (s1, ok1)" by auto
  have "unat (i + 1) = unat i + 1" using 2(2) by (subst unat_add_lt) (auto simp: RMGR_IO_MAX_def)
  with 2 a show ?case by (cases ok1) auto
qed auto

section \<open>Properties\<close>

lemma pager_dispatch_safe:
  assumes "is_client (task_owner_t t)" "tag \<in> {L4_MSGTAG_PAGE_FAULT, L4_MSGTAG_SIGMA0}"
    and "vm_find s (id_task t) (d1 AND 0xfffffffc) = -1" "fpage_aligned d2 \<or> tag = L4_MSGTAG_PAGE_FAULT"
    and "pager_dispatch env tag t d1 d2 s = Inr r"
  shows "safe_reply (task_owner_t t) (bios_pages s) s r"
  using assms(2)
proof
  assume tag: "tag = L4_MSGTAG_PAGE_FAULT"
  with assms(5) handle_physicalpage_safe [OF assms(1,3) refl] handle_adapterpage_safe [OF assms(1)]
  show ?thesis by (auto simp: pager_dispatch_def Let_def split: if_splits)
next
  assume "tag \<in> {L4_MSGTAG_SIGMA0}"
  then have tag: "tag = L4_MSGTAG_SIGMA0" by simp
  with assms(4) have "fpage_aligned d2" by simp
  with assms(5) tag handle_extended_sigma0_safe [OF assms(1)] find_and_alloc_safe [OF assms(1)] handle_tbuf_status_safe
  show ?thesis by (auto simp: pager_dispatch_def Let_def handle_anypage_def handle_kip_def split: if_splits)
qed


text \<open>Task 5 faults at 0x3000 in the free memory of the witness state.\<close>

definition demo_env :: pager_env where
  "demo_env = \<lparr>pe_kip = 0x1000, pe_sigma0 = (\<lambda>d1 d2. (0, 0, 0)), pe_fiasco = True\<rparr>"

lemma demo_task: "task_owner_t 0xA0000 = 5" "id_task 0xA0000 = 5"
  by (simp_all add: task_owner_t_def id_task_def)

lemma demo_alloc: "memmap_alloc_page 0x3000 5 demo_state = (fst (memmap_alloc_page 0x3000 5 demo_state), True)"
  by (simp add: demo_eval)

lemma demo_vm: "vm_find demo_state t a = -1"
  by (simp add: demo_state_def vm_find_def)

lemma demo_mem_high: "rs_mem_high demo_state = 0x1000000"
  by (simp add: demo_state_def)

lemma page_fault_mapped:
  assumes "0x1000 \<le> a" "a < rs_mem_high s" "vm_find s (id_task t) a = -1" "a AND 1 = 0" "a AND 0xfffffffc = a" "a < 0x40000000"
    and "memmap_alloc_page a (task_owner_t t) s = (s', True)" "id_task t \<le> O_MAX"
  shows "pager_request env L4_MSGTAG_PAGE_FAULT t a 0 s =
     Inr (s', ReplyFpage (a AND L4_PAGEMASK) (l4_fpage a L4_LOG2_PAGESIZE L4_FPAGE_RW L4_FPAGE_MAP))"
proof -
  have "\<not> rs_mem_high s \<le> a" "\<not> a < 0x1000" using assms(1,2) by auto
  then have "handle_physicalpage t a a 0 s =
      Inr (s', True, a AND L4_PAGEMASK, l4_fpage a L4_LOG2_PAGESIZE L4_FPAGE_RW L4_FPAGE_MAP)"
    using assms by (simp add: handle_physicalpage_def try_superpage_mapping_def ram_base_def L4_PAGESIZE_def)
  then show ?thesis using assms by (simp add: pager_request_def pager_dispatch_def Let_def)
qed

lemma demo_fault:
  "pager_request demo_env L4_MSGTAG_PAGE_FAULT 0xA0000 0x3000 0 demo_state =
     Inr (fst (memmap_alloc_page 0x3000 5 demo_state),
          ReplyFpage (0x3000 AND L4_PAGEMASK) (l4_fpage 0x3000 L4_LOG2_PAGESIZE L4_FPAGE_RW L4_FPAGE_MAP))"
  by (rule page_fault_mapped) (use demo_alloc in \<open>simp_all add: demo_task demo_vm O_MAX_def demo_mem_high\<close>)




text \<open>
  C34. I/O page faults: a request for ports inside the I/O space does not fault; if it is
  answered with an I/O flexpage for less than the whole space, every port of it belongs
  to the client afterwards, and no port of another task changes its owner.
\<close>

theorem handle_io_spec:
  assumes "unat (iofp_iopage d1) + 2 ^ unat (iofp_iosize d1) \<le> RMGR_IO_MAX" "rs_have_io s"
    and "\<not> (iofp_iopage d1 = 0 \<and> iofp_iosize d1 = L4_WHOLE_IOADDRESS_SPACE)"
  shows "\<exists>s' h e1 e2. handle_io t pfa d1 d2 s = Inr (s', h, e1, e2)
    \<and> (h \<longrightarrow> e2 = l4_iofpage (iofp_iopage d1) (iofp_iosize d1) 0
         \<and> (\<forall>c. unat (iofp_iopage d1) \<le> c \<and> c < unat (iofp_iopage d1) + 2 ^ unat (iofp_iosize d1) \<longrightarrow>
              iomap_owner_port s' (of_nat c) = Inr (task_owner_t t)))
    \<and> (\<forall>c. rs_iomap s c \<noteq> O_FREE \<longrightarrow> rs_iomap s' c = rs_iomap s c)"
proof -
  let ?p = "iofp_iopage d1" and ?n = "2 ^ unat (iofp_iosize d1) :: nat"
  obtain s1 ok where a: "io_alloc (task_owner_t t) ?n ?p s = Inr (s1, ok)"
    using io_alloc_no_fault [OF assms(1)] by fastforce
  note I = io_alloc_owned [OF a assms(1)]
  have "\<not> 31 \<le> unat (iofp_iosize d1)"
  proof
    assume "31 \<le> unat (iofp_iosize d1)"
    then have "(2::nat) ^ 31 \<le> ?n" by (intro power_increasing) auto
    with assms(1) show False by (simp add: RMGR_IO_MAX_def)
  qed
  with a assms(2,3) have e: "handle_io t pfa d1 d2 s =
      (if ok then Inr (s1, True, 0, l4_iofpage ?p (iofp_iosize d1) 0)
       else Inr (set_last_pf (unat (id_task t)) d1 d2 s1, False, d1, d2))"
    by (auto simp: handle_io_def Let_def)
  have "iomap_owner_port s1 (of_nat c) = Inr (task_owner_t t)" if ok "unat ?p \<le> c" "c < unat ?p + ?n" for c
  proof -
    have "c < RMGR_IO_MAX" using that assms(1) by simp
    then have "unat (of_nat c :: u32) = c" "\<not> RMGR_IO_MAX \<le> c" by (auto simp: RMGR_IO_MAX_def unat_of_nat_lt)
    with I that show ?thesis by (simp add: iomap_owner_port_def)
  qed
  moreover have "rs_iomap s1 c = rs_iomap s c" if "rs_iomap s c \<noteq> O_FREE" for c using I that by auto
  ultimately show ?thesis unfolding e by (cases ok) auto
qed

theorem handle_io_spec_witness:
  "\<exists>s' h e1 e2. handle_io 0xA0000 0 (l4_iofpage 0x60 2 0) 0 (demo_state\<lparr>rs_have_io := True\<rparr>) = Inr (s', h, e1, e2)"
proof -
  have "iofp_iopage (l4_iofpage 0x60 2 0) = 0x60" "iofp_iosize (l4_iofpage 0x60 2 0) = 2"
    by (simp_all add: iofp_iopage_l4_iofpage iofp_iosize_l4_iofpage)
  with handle_io_spec [of "l4_iofpage 0x60 2 0" "demo_state\<lparr>rs_have_io := True\<rparr>" "0xA0000" 0 0]
  show ?thesis by (auto simp: RMGR_IO_MAX_def)
qed

section \<open>Searching for a free page ends\<close>

lemma free_page_from_total:
  assumes "unat (rs_mem_high s) \<le> 0xFF000000"
  shows "\<exists>a f. free_page_from s ow address = Some (a, f)
    \<and> (if f then a < rs_mem_high s \<and> page_usable s ow a
       else unat (rs_mem_high s) \<le> unat a \<and> unat a \<le> max (unat address) (unat (rs_mem_high s) + 4096))"
proof (induction "unat (rs_mem_high s) - unat address" arbitrary: address rule: less_induct)
  case less
  show ?case
  proof (cases "address < rs_mem_high s \<and> \<not> page_usable s ow address")
    case True
    then have u: "unat (address + L4_PAGESIZE) = unat address + 4096"
      using assms by (subst unat_add_lt) (auto simp: word_less_unat L4_PAGESIZE_def)
    then have "unat (rs_mem_high s) - unat (address + L4_PAGESIZE) < unat (rs_mem_high s) - unat address"
      using conjunct1 [OF True] by (simp add: word_less_unat)
    from less [OF this] obtain a f where i: "free_page_from s ow (address + L4_PAGESIZE) = Some (a, f)"
      "if f then a < rs_mem_high s \<and> page_usable s ow a
       else unat (rs_mem_high s) \<le> unat a \<and> unat a \<le> max (unat (address + L4_PAGESIZE)) (unat (rs_mem_high s) + 4096)"
      by blast
    have "free_page_from s ow address = Some (a, f)"
      using i(1) True by (subst free_page_from.simps) (auto simp: page_usable_def ram_base_def)
    moreover have "unat address < unat (rs_mem_high s)" using True by (simp add: word_less_unat)
    ultimately show ?thesis using i(2) u by (intro exI [of _ a] exI [of _ f]) (auto simp: max_def split: if_splits)
  next
    case False
    show ?thesis
    proof (cases "address < rs_mem_high s")
      case True
      with False have u: "page_usable s ow address" by simp
      then have "free_page_from s ow address = Some (address, True)"
        using True by (subst free_page_from.simps) (simp add: page_usable_def ram_base_def)
      with u True show ?thesis by auto
    next
      case F: False
      then have "free_page_from s ow address = Some (address, False)"
        by (subst free_page_from.simps) (simp add: ram_base_def)
      with F show ?thesis by (auto simp: word_less_unat not_less)
    qed
  qed
qed

lemma find_free_from_total:
  assumes "unat (rs_mem_high s) \<le> 0xFF000000"
  shows "unat address \<le> unat (rs_mem_high s) + 0x401000 \<Longrightarrow>
    \<exists>y. find_free_from s ow super address = Some y \<and>
      (\<forall>a. y = Some a \<longrightarrow> a < rs_mem_high s \<and>
         (if super then memmap_nrfree_superpage s a = 1024 else page_usable s ow a))"
proof (induction "unat (rs_mem_high s) - unat address" arbitrary: address rule: less_induct)
  case less
  show ?case
  proof (cases "address < rs_mem_high s")
    case False
    then show ?thesis by (subst find_free_from.simps) (auto simp: ram_base_def)
  next
    case True
    let ?next = "\<lambda>a. \<exists>y. find_free_from s ow super a = Some y \<and>
      (\<forall>a. y = Some a \<longrightarrow> a < rs_mem_high s \<and> (if super then memmap_nrfree_superpage s a = 1024 else page_usable s ow a))"
    have IH: "?next (a + L4_SUPERPAGESIZE)" if "unat address \<le> unat a" "unat a \<le> unat (rs_mem_high s) + 4096" for a
    proof -
      have "unat (a + L4_SUPERPAGESIZE) = unat a + 4194304"
        using that assms by (subst unat_add_lt) (auto simp: L4_SUPERPAGESIZE_def)
      with that True show ?thesis by (intro less) (auto simp: word_less_unat)
    qed
    have here: "?next (address + L4_SUPERPAGESIZE)" using IH [of address] True by (auto simp: word_less_unat)
    obtain a f where fp: "free_page_from s ow address = Some (a, f)"
      "if f then a < rs_mem_high s \<and> page_usable s ow a
       else unat (rs_mem_high s) \<le> unat a \<and> unat a \<le> max (unat address) (unat (rs_mem_high s) + 4096)"
      using free_page_from_total [OF assms, of ow address] by blast
    have after: "\<not> f \<Longrightarrow> ?next (a + L4_SUPERPAGESIZE)" using fp(2) True IH [of a] by (auto simp: word_less_unat max_def split: if_splits)
    show ?thesis
      using True here after fp by (subst find_free_from.simps) (auto simp: ram_base_def Let_def SP_PAGES_def split: if_splits)
  qed
qed

text \<open>
  \<open>find_free\<close> returns for every client where memory ends below 4080 MB, and what it
  finds can be used: a page that is free and inside the quota of the client, or a
  superpage all of whose pages are free.
\<close>

theorem find_free_spec:
  assumes "unat (rs_mem_high s) \<le> 0xFF000000"
  shows "\<exists>found e1 e2. find_free s t d1 d2 super = Inr (found, e1, e2) \<and>
    (found \<longrightarrow> e1 < rs_mem_high s \<and>
       (if super then memmap_nrfree_superpage s e1 = 1024 else page_usable s (task_owner_t t) e1))"
proof -
  have "unat ram_base \<le> unat (rs_mem_high s) + 0x401000" by (simp add: ram_base_def)
  from find_free_from_total [OF assms this, of "task_owner_t t" super] obtain y
    where y: "find_free_from s (task_owner_t t) super ram_base = Some y"
      "\<forall>a. y = Some a \<longrightarrow> a < rs_mem_high s \<and>
         (if super then memmap_nrfree_superpage s a = 1024 else page_usable s (task_owner_t t) a)" by blast
  show ?thesis
  proof (cases y)
    case None
    with y(1) have "find_free s t d1 d2 super = Inr (False, d1, d2)" by (simp add: find_free_def)
    then show ?thesis by blast
  next
    case (Some a)
    with y have "find_free s t d1 d2 super = Inr (True, a,
        l4_fpage a (if super then L4_LOG2_SUPERPAGESIZE else L4_LOG2_PAGESIZE) L4_FPAGE_RW L4_FPAGE_MAP)"
      by (simp add: find_free_def)
    with y(2) Some show ?thesis by blast
  qed
qed

theorem find_free_spec_witness: "\<exists>r. find_free demo_state 0xA0000 0 0 False = Inr r"
  using find_free_spec [of demo_state "0xA0000" 0 0 False] by (auto simp: demo_mem_high)

section \<open>Requests the pager does not guard against\<close>

text \<open>An I/O request that reaches past port 65535 leaves the port table.\<close>

lemma handle_io_out_of_bounds:
  "handle_io 0xA0000 0 (l4_iofpage 0xFFFF 1 0) 0 (demo_state\<lparr>rs_have_io := True\<rparr>) = Inl OutOfBounds"
proof -
  let ?s = "demo_state\<lparr>rs_have_io := True\<rparr>"
  have "iomap_alloc_port 0xFFFF 5 ?s = Inr (?s\<lparr>rs_iomap := (rs_iomap ?s)(65535 := 5)\<rparr>, True)"
    by (simp add: iomap_alloc_port_def RMGR_IO_MAX_def demo_state_def O_FREE_def)
  moreover have "iomap_alloc_port 0x10000 5 s = Inl OutOfBounds" for s
    by (simp add: iomap_alloc_port_def RMGR_IO_MAX_def)
  ultimately have "io_alloc 5 (Suc (Suc 0)) 0xFFFF ?s = Inl OutOfBounds" by simp
  then have "io_alloc 5 2 0xFFFF ?s = Inl OutOfBounds" by (simp only: numeral_2_eq_2)
  then show ?thesis
    by (simp add: handle_io_def iofp_iopage_l4_iofpage iofp_iosize_l4_iofpage demo_task
        L4_WHOLE_IOADDRESS_SPACE_def Let_def)
qed

text \<open>
  A request for 8 KB at an address that is not a multiple of 8 KB is checked for the two
  pages from that address on, but is answered with the flexpage around the address:
  page 2, which belongs to task 6, is part of the reply to task 5.
\<close>

lemma sigma0_unaligned_request:
  "2 \<in> fpage_pages (l4_fpage 0x3000 13 L4_FPAGE_RW L4_FPAGE_MAP) \<and>
   4 \<notin> fpage_pages (l4_fpage 0x3000 13 L4_FPAGE_RW L4_FPAGE_MAP) \<and> \<not> fpage_aligned (l4_fpage 0x3000 13 0 0)"
  by (simp add: fpage_pages_def fpage_aligned_def fp_size_l4_fpage unat_fp_page_fpage page_no_eq Let_def)

text \<open>
  A request for two pages where the quota has room for one passes the check of every
  single page, and the pager panics at the second allocation.
\<close>

definition tight_state :: rt_state where
  "tight_state = demo_state\<lparr>rs_quota := (\<lambda>_. demo_quota\<lparr>q_mem := \<lparr>rq_low = 0, rq_high = -1, rq_max = 0x1000, rq_current = 0\<rparr>\<rparr>)\<rparr>"

lemma sigma0_quota_panic:
  "ram_check tight_state 0xA0000 False L4_PAGESIZE (Suc (Suc 0)) 0x4000 \<and>
   ram_alloc 5 False L4_PAGESIZE (Suc (Suc 0)) 0x4000 tight_state = Inl Panic"
proof
  show "ram_check tight_state 0xA0000 False L4_PAGESIZE (Suc (Suc 0)) 0x4000"
    by (simp add: tight_state_def demo_task quota_check_mem_def demo_eval)
  show "ram_alloc 5 False L4_PAGESIZE (Suc (Suc 0)) 0x4000 tight_state = Inl Panic"
    by (simp add: tight_state_def demo_eval)
qed

end
