(* ===== verification/RtRmgr.thy ===== *)
theory RtRmgr
  imports RtPager
begin

text \<open>
  The resource manager interface of the roottask: the components of \<open>rmgr.c\<close>, which the
  IDL server loop calls for the requests of clients, the task server interface
  (\<open>l4ts_if.c\<close>) and the interrupt threads (\<open>irq_thread.c\<close>). The sender of a request is
  the argument \<open>c\<close>; results are the C return values, 0 for success. System calls that
  answer with a value are parameters (\<open>rmgr_env\<close>).
\<close>

section \<open>The environment\<close>

text \<open>
  \<open>re_task_new\<close>: the id \<open>l4_task_new\<close> returns for a task id, an mcp or chief word and a
  pager; \<open>re_task_new_long\<close>: the same with entry point and stack pointer; \<open>re_sched\<close>:
  the current scheduling parameter of a thread; \<open>re_irq_call\<close>: error code and first word
  of the reply of the interrupt thread to a request word; \<open>re_l4_myself\<close>: the id of the server
  thread.
\<close>

record rmgr_env =
  re_task_new :: "l4_threadid_t \<Rightarrow> u32 \<Rightarrow> l4_threadid_t \<Rightarrow> l4_threadid_t"
  re_task_new_long :: "l4_threadid_t \<Rightarrow> u32 \<Rightarrow> u32 \<Rightarrow> u32 \<Rightarrow> l4_threadid_t \<Rightarrow> l4_threadid_t"
  re_sched :: "l4_threadid_t \<Rightarrow> u32"
  re_irq_call :: "nat \<Rightarrow> u32 \<Rightarrow> u32 \<times> u32"
  re_l4_myself :: l4_threadid_t

text \<open>The bit fields of \<open>l4_sched_param_struct_t\<close> that are written.\<close>

definition set_sched_prio :: "u32 \<Rightarrow> u32 \<Rightarrow> u32" where
  "set_sched_prio sp prio = (sp AND NOT 0xFF) OR (prio AND 0xFF)"

definition set_sched_small :: "u32 \<Rightarrow> u32 \<Rightarrow> u32" where
  "set_sched_small sp small = (sp AND NOT (push_bit 8 0xFF)) OR push_bit 8 (small AND 0xFF)"

definition l4_is_invalid_sched_param :: "u32 \<Rightarrow> bool" where
  "l4_is_invalid_sched_param sp \<longleftrightarrow> sp = 0xffffffff"

definition L4_TASK_NEW_FLAGS_MASK :: u32 where [l4_const]: "L4_TASK_NEW_FLAGS_MASK = 0xE0000000"

section \<open>Tasks\<close>

definition rmgr_get_task :: "rmgr_env \<Rightarrow> l4_threadid_t \<Rightarrow> int \<Rightarrow> rt_state \<Rightarrow> (rt_state \<times> int) res" where
  "rmgr_get_task env c num s =
     (if num \<ge> int RMGR_TASK_MAX then Inr (s, 1)
      else (case task_alloc (of_int num) (task_owner_t c) True s of
              (s1, ok) \<Rightarrow>
                if \<not> ok then Inr (s1, 1)
                else bind_res (reset_pagefault num s1) (\<lambda>s2.
                  if l4_is_nil_id (re_task_new env (set_id_task c (of_int num)) c L4_NIL_ID)
                  then Inr (fst (task_free (of_int num) (task_owner_t c) s2), 1)
                  else Inr (s2, 0))))"

definition rmgr_set_prio :: "rmgr_env \<Rightarrow> l4_threadid_t \<Rightarrow> l4_threadid_t \<Rightarrow> int \<Rightarrow> rt_state \<Rightarrow> rt_state \<times> int" where
  "rmgr_set_prio env c tid prio s =
     (let sched = re_sched env tid in
      if l4_is_invalid_sched_param sched then (s, 1)
      else if quota_get_log_mcp s (task_owner_t c) < prio then (s, 1)
      else (log_event (Thread_schedule tid (set_sched_prio sched (of_int prio))) s, 0))"

text \<open>\<open>num\<close> is compared with an unsigned value.\<close>

definition rmgr_set_small_space ::
  "rmgr_env \<Rightarrow> l4_threadid_t \<Rightarrow> l4_threadid_t \<Rightarrow> int \<Rightarrow> rt_state \<Rightarrow> (rt_state \<times> int) res" where
  "rmgr_set_small_space env c tid num s =
     (let sched = re_sched env tid; sss = rs_small_space_size s in
      if l4_is_invalid_sched_param sched then Inr (s, 1)
      else if sss = 0 \<or> (of_int num :: u32) \<ge> 128 div sss then Inr (s, 1)
      else bind_res (small_alloc (of_int num) (task_owner_t c) s) (\<lambda>(s1, ok).
             if \<not> ok then Inr (s1, 1)
             else Inr (log_event (Thread_schedule tid
                         (set_sched_small sched (sss OR (of_int num * sss * 2)))) s1, 0)))"

text \<open>The result carries the id of the new task. \<open>quota_reset\<close> takes an \<open>owner_t\<close>.\<close>

definition rmgr_task_new ::
  "rmgr_env \<Rightarrow> l4_threadid_t \<Rightarrow> l4_threadid_t \<Rightarrow> u32 \<Rightarrow> u32 \<Rightarrow> u32 \<Rightarrow> l4_threadid_t \<Rightarrow> rt_state \<Rightarrow>
   rt_state \<times> int \<times> l4_threadid_t option" where
  "rmgr_task_new env c tid mcp_or_chief sp ip pager s =
     (let task = id_task tid in
      if unat task \<ge> RMGR_TASK_MAX \<or> l4_is_nil_id pager then (s, 1, None)
      else (case task_alloc task (task_owner_t c) True s of
              (s1, ok) \<Rightarrow>
                if \<not> ok then (s1, 1, None)
                else (let flags = mcp_or_chief AND L4_TASK_NEW_FLAGS_MASK;
                          moc = mcp_or_chief AND NOT L4_TASK_NEW_FLAGS_MASK;
                          mcp = (if uint moc > quota_get_log_mcp s1 (task_owner_t c)
                                 then of_int (quota_get_log_mcp s1 (task_owner_t c)) else moc);
                          n = re_task_new_long env tid (mcp OR flags) sp ip pager
                      in if l4_is_nil_id n then (fst (task_free task (task_owner_t c) s1), 1, None)
                         else (quota_reset (ucast task) s1, 0, Some n))))"

fun free_task_all_from ::
  "rmgr_env \<Rightarrow> l4_threadid_t \<Rightarrow> l4_threadid_t \<Rightarrow> nat \<Rightarrow> nat \<Rightarrow> rt_state \<Rightarrow> (rt_state \<times> int) res" where
  "free_task_all_from env c tid i 0 s = Inr (s, 0)"
| "free_task_all_from env c tid i (Suc n) s =
     (if ucast (task_owner s (of_nat i)) = id_task tid
      then bind_res (reset_pagefault (int i) s) (\<lambda>s1.
             if l4_is_nil_id (re_task_new env (set_id_task c (of_nat i)) (rs_myself s1) L4_NIL_ID) then Inr (s1, 1)
             else free_task_all_from env c tid (Suc i) n (fst (task_free (of_nat i) (task_owner_t tid) s1)))
      else free_task_all_from env c tid (Suc i) n s)"

definition rmgr_free_task_all ::
  "rmgr_env \<Rightarrow> l4_threadid_t \<Rightarrow> l4_threadid_t \<Rightarrow> rt_state \<Rightarrow> (rt_state \<times> int) res" where
  "rmgr_free_task_all env c tid s = free_task_all_from env c tid 0 RMGR_TASK_MAX s"

definition rmgr_free_task :: "l4_threadid_t \<Rightarrow> int \<Rightarrow> rt_state \<Rightarrow> rt_state \<times> int" where
  "rmgr_free_task c num s =
     (if num \<ge> int RMGR_TASK_MAX then (s, 1)
      else (case task_free (of_int num) (task_owner_t c) s of (s1, ok) \<Rightarrow> if \<not> ok then (s1, 1) else (s1, 0)))"

definition rmgr_get_task_id :: "rt_state \<Rightarrow> string \<Rightarrow> int \<times> l4_threadid_t option" where
  "rmgr_get_task_id s modname =
     (let n = names_get_id s modname in if l4_is_invalid_id n then (1, None) else (0, Some n))"

definition rmgr_set_task_id ::
  "l4_threadid_t \<Rightarrow> string \<Rightarrow> l4_threadid_t \<Rightarrow> rt_state \<Rightarrow> (rt_state \<times> int) res" where
  "rmgr_set_task_id c modname tid s =
     (let i = set_id_lthread tid 0 in
      if ucast (task_owner s (id_task tid)) = id_task c then cfg_quota_copy (id_task i) modname s
      else Inr (s, -1))"

section \<open>Interrupts\<close>

text \<open>A negative number passes the comparison with \<open>RMGR_IRQ_MAX\<close>.\<close>

definition rmgr_get_irq :: "rmgr_env \<Rightarrow> l4_threadid_t \<Rightarrow> int \<Rightarrow> rt_state \<Rightarrow> (rt_state \<times> int) res" where
  "rmgr_get_irq env c num s =
     (if num \<ge> int RMGR_IRQ_MAX then Inr (s, 1)
      else bind_res (irq_alloc (of_int num) (task_owner_t c) s) (\<lambda>(s1, ok).
             if ok
             then (let (ret, d1) = re_irq_call env (nat num) 1
                   in if d1 = 0 then Inr (s1, 0)
                      else bind_res (irq_free (of_int num) (task_owner_t c) s1) (\<lambda>(s2, r). Inr (s2, 1)))
             else Inr (s1, 1)))"

definition rmgr_free_irq :: "rmgr_env \<Rightarrow> l4_threadid_t \<Rightarrow> int \<Rightarrow> rt_state \<Rightarrow> (rt_state \<times> int) res" where
  "rmgr_free_irq env c num s =
     (if num < int RMGR_IRQ_MAX
      then bind_res (irq_free (of_int num) (task_owner_t c) s) (\<lambda>(s1, ok).
             if ok
             then (let (ret, d1) = re_irq_call env (nat num) 0
                   in if ret \<noteq> 0 then Inr (s1, 1) else if d1 \<noteq> 0 then Inr (s1, 1) else Inr (s1, 0))
             else Inr (s1, 0))
      else Inr (s, 0))"

fun free_irq_all_from :: "l4_threadid_t \<Rightarrow> nat \<Rightarrow> nat \<Rightarrow> rt_state \<Rightarrow> rt_state res" where
  "free_irq_all_from tid i 0 s = Inr s"
| "free_irq_all_from tid i (Suc n) s =
     bind_res (irq_owner s (of_nat i)) (\<lambda>ow.
       if ucast ow = id_task tid
       then bind_res (irq_free (of_nat i) (task_owner_t tid) s) (\<lambda>(s1, r). free_irq_all_from tid (Suc i) n s1)
       else free_irq_all_from tid (Suc i) n s)"

definition rmgr_free_irq_all :: "l4_threadid_t \<Rightarrow> l4_threadid_t \<Rightarrow> rt_state \<Rightarrow> (rt_state \<times> int) res" where
  "rmgr_free_irq_all c tid s = bind_res (free_irq_all_from tid 0 RMGR_IRQ_MAX s) (\<lambda>s1. Inr (s1, 0))"

section \<open>Memory\<close>

definition rmgr_free_page :: "l4_threadid_t \<Rightarrow> l4_addr_t \<Rightarrow> rt_state \<Rightarrow> rt_state \<times> int" where
  "rmgr_free_page c address s =
     (if address \<ge> 0x40000000 \<and> address < 0xC0000000
      then (let address = address + 0x40000000 in
            if id_task c \<noteq> ucast (memmap_owner_page s address) then (s, 1)
            else (case memmap_free_superpage address (task_owner_t c) s of
                    (s1, ok) \<Rightarrow> if \<not> ok then (s1, 1) else (s1, 0)))
      else if id_task c \<noteq> ucast (memmap_owner_page s address) then (s, 1)
      else (case memmap_free_page address (task_owner_t c) s of
              (s1, ok) \<Rightarrow>
                if \<not> ok then (s1, 1)
                else (log_event (Fpage_unmap (l4_fpage address L4_LOG2_PAGESIZE L4_FPAGE_RW L4_FPAGE_MAP) FlushOther) s1, 0)))"

fun io_free :: "owner_t \<Rightarrow> nat \<Rightarrow> u32 \<Rightarrow> rt_state \<Rightarrow> rt_state res" where
  "io_free ow 0 i s = Inr s"
| "io_free ow (Suc n) i s = bind_res (iomap_free_port i ow s) (\<lambda>(s1, r). io_free ow n (i + 1) s1)"

definition rmgr_free_fpage :: "l4_threadid_t \<Rightarrow> u32 \<Rightarrow> rt_state \<Rightarrow> (rt_state \<times> int) res" where
  "rmgr_free_fpage c fp s =
     (if l4_is_io_page_fault fp
      then (let port = iofp_iopage fp; sz = iofp_iosize fp in
            if unat sz \<ge> 31 then Inl Undefined
            else bind_res (io_free (task_owner_t c) (2 ^ unat sz) port s) (\<lambda>s1. Inr (s1, 0)))
      else Inr (s, 1))"

fun free_pages_from :: "l4_threadid_t \<Rightarrow> nat \<Rightarrow> l4_addr_t \<Rightarrow> rt_state \<Rightarrow> rt_state" where
  "free_pages_from tid 0 qa s = s"
| "free_pages_from tid (Suc n) qa s =
     free_pages_from tid n (qa + L4_PAGESIZE)
       (if ucast (memmap_owner_page s qa) = id_task tid then fst (memmap_free_page qa (task_owner_t tid) s) else s)"

text \<open>One round of the scan over the superpages.\<close>

definition free_superpage_of :: "l4_threadid_t \<Rightarrow> l4_addr_t \<Rightarrow> rt_state \<Rightarrow> rt_state" where
  "free_superpage_of tid pa s =
     (let s1 = (if ucast (memmap_owner_superpage s pa) = id_task tid
                then (case memmap_free_superpage pa (task_owner_t tid) s of
                        (s1, ok) \<Rightarrow>
                          if ok then log_event (Fpage_unmap (l4_fpage pa L4_LOG2_SUPERPAGESIZE L4_FPAGE_RW L4_FPAGE_MAP)
                                                  FlushOther) s1
                          else s1)
                else s)
      in if memmap_owner_superpage s1 pa = O_RESERVED then free_pages_from tid SP_PAGES pa s1 else s1)"

fun free_superpages_from :: "l4_threadid_t \<Rightarrow> nat \<Rightarrow> l4_addr_t \<Rightarrow> rt_state \<Rightarrow> rt_state" where
  "free_superpages_from tid 0 pa s = s"
| "free_superpages_from tid (Suc n) pa s =
     free_superpages_from tid n (pa + L4_SUPERPAGESIZE) (free_superpage_of tid pa s)"

fun free_adapter_from :: "l4_threadid_t \<Rightarrow> nat \<Rightarrow> l4_addr_t \<Rightarrow> rt_state \<Rightarrow> rt_state" where
  "free_adapter_from tid 0 p s = s"
| "free_adapter_from tid (Suc n) p s =
     free_adapter_from tid n (p + L4_SUPERPAGESIZE) (fst (memmap_free_superpage p (task_owner_t tid) s))"

text \<open>512 superpages lie between 0x40000000 and 0xC0000000.\<close>

definition rmgr_free_mem_all :: "l4_threadid_t \<Rightarrow> l4_threadid_t \<Rightarrow> rt_state \<Rightarrow> rt_state \<times> int" where
  "rmgr_free_mem_all c tid s =
     (free_adapter_from tid 512 0x40000000 (free_superpages_from tid SUPERPAGE_MAX 0 s), 0)"

definition rmgr_reserve_mem ::
  "l4_threadid_t \<Rightarrow> l4_addr_t \<Rightarrow> l4_addr_t \<Rightarrow> u32 \<Rightarrow> l4_addr_t \<Rightarrow> l4_addr_t \<Rightarrow> rt_state \<Rightarrow>
   (rt_state \<times> int \<times> l4_addr_t option) res" where
  "rmgr_reserve_mem c sz align flags low high s =
     (let sz = l4_round_page sz;
          align = (if align < L4_LOG2_PAGESIZE then L4_LOG2_PAGESIZE else if align > 31 then 31 else align);
          flags = flags AND RMGR_MEM_RES_FLAGS_MASK
      in (case reserve_range (sz OR align OR flags) (task_owner_t c) low high s of
            None \<Rightarrow> Inl Diverge
          | Some (s1, a) \<Rightarrow> if a \<noteq> -1 then Inr (s1, 1, Some a) else Inr (s1, 0, None)))"

definition rmgr_get_page0 :: "u32 \<times> l4_fpage_t" where
  "rmgr_get_page0 = (0, l4_fpage 0 L4_LOG2_PAGESIZE L4_FPAGE_RW L4_FPAGE_MAP)"

definition rmgr_init_ping :: "u32 \<Rightarrow> u32" where
  "rmgr_init_ping value = NOT value"

section \<open>The task server interface (l4ts_if.c)\<close>

definition l4_ts_allocate ::
  "rmgr_env \<Rightarrow> l4_threadid_t \<Rightarrow> u32 \<Rightarrow> rt_state \<Rightarrow> (rt_state \<times> int \<times> l4_threadid_t option) res" where
  "l4_ts_allocate env c taskno s =
     (case (if taskno = 0 then task_next (id_task c) s else task_next_explicit (id_task c) taskno s) of
        (s1, num) \<Rightarrow>
          if num < 0 then Inr (s1, num, None)
          else bind_res (reset_pagefault num s1) (\<lambda>s2.
                 let n = inc_version_low (set_id_task c (of_int num));
                     n = re_task_new env n c L4_NIL_ID
                 in if l4_is_nil_id n
                    then Inr (fst (task_free (of_int num) (task_owner_t c) s2), 1, None)
                    else Inr (s2, 0, Some n)))"

definition l4_ts_free :: "l4_threadid_t \<Rightarrow> l4_threadid_t \<Rightarrow> rt_state \<Rightarrow> rt_state \<times> int" where
  "l4_ts_free c taskid s =
     (case task_free (id_task taskid) (task_owner_t c) s of (s1, ok) \<Rightarrow> if \<not> ok then (s1, -1) else (s1, 0))"

definition kill_task :: "rmgr_env \<Rightarrow> l4_threadid_t \<Rightarrow> rt_state \<Rightarrow> rt_state \<times> int" where
  "kill_task env task s =
     (if l4_is_invalid_id (re_task_new env task (re_l4_myself env) L4_NIL_ID) then (s, -1)
      else (task_free_owned (id_task task) s, 0))"

definition l4_ts_exit :: "rmgr_env \<Rightarrow> l4_threadid_t \<Rightarrow> rt_state \<Rightarrow> rt_state \<times> int" where
  "l4_ts_exit env c = kill_task env c"

section \<open>Interrupt threads (irq_thread.c)\<close>

record irq_thread =
  it_failure :: bool
  it_attached :: bool

text \<open>Before the first request: \<open>att\<close> tells whether \<open>irq_attach\<close> succeeds.\<close>

definition irq_thread_init :: "bool \<Rightarrow> irq_thread" where
  "irq_thread_init att = (if att then \<lparr>it_failure = False, it_attached = True\<rparr> else \<lparr>it_failure = True, it_attached = False\<rparr>)"

text \<open>\<open>irq_detach\<close> returns 1 whatever the kernel answers.\<close>

definition irq_detach :: bool where
  "irq_detach = True"

text \<open>
  One request of the server: \<open>att1\<close> and \<open>att2\<close> are the answers of the two calls of
  \<open>irq_attach\<close>, \<open>d1\<close> the request (not 0: give the interrupt away; 0: take it back).
\<close>

definition irq_thread_request :: "bool \<Rightarrow> bool \<Rightarrow> u32 \<Rightarrow> irq_thread \<Rightarrow> irq_thread \<times> u32" where
  "irq_thread_request att1 att2 d1 st =
     (let st1 = (if it_failure st \<and> d1 \<noteq> 0 \<and> att1 then \<lparr>it_failure = False, it_attached = True\<rparr> else st) in
      if \<not> it_failure st1
      then (if it_attached st1 \<and> d1 \<noteq> 0
            then (let r1 = (if irq_detach then 0 else 1) in (st1\<lparr>it_attached := (r1 \<noteq> 0)\<rparr>, r1))
            else if \<not> it_attached st1 \<and> d1 = 0
            then (let r1 = (if att2 then 0 else 1) in (\<lparr>it_failure = (r1 \<noteq> 0), it_attached = \<not> (r1 \<noteq> 0)\<rparr>, r1))
            else (st1, -1))
      else (st1, -1))"

section \<open>Lemmas\<close>

lemma of_int_task: "0 \<le> num \<Longrightarrow> num < int RMGR_TASK_MAX \<Longrightarrow> unat (of_int num :: u32) = nat num"
proof -
  assume n: "0 \<le> num" "num < int RMGR_TASK_MAX"
  then have "(of_int num :: u32) = of_nat (nat num)" by simp
  then show ?thesis using n by (simp only:) (rule unat_of_nat_lt, simp add: RMGR_TASK_MAX_def)
qed

lemma of_int_neg_big: "num < 0 \<Longrightarrow> - (2 ^ 31) \<le> num \<Longrightarrow> 2048 \<le> unat (of_int num :: u32)"
proof -
  assume n: "num < 0" "- (2 ^ 31) \<le> num"
  have "uint (of_int num :: u32) = num mod 2 ^ 32" by (simp add: uint_word_of_int take_bit_eq_mod)
  moreover have "(num + 2 ^ 32) mod 2 ^ 32 = num mod 2 ^ 32" by (rule mod_add_self2)
  moreover have "(num + 2 ^ 32) mod 2 ^ 32 = num + 2 ^ 32" using n by (intro mod_pos_pos_trivial) auto
  ultimately have "uint (of_int num :: u32) = num + 2 ^ 32" by simp
  then have "int (unat (of_int num :: u32)) = num + 4294967296" by simp
  moreover have "- 2147483648 \<le> num" using n by simp
  ultimately have "2048 \<le> int (unat (of_int num :: u32))" by linarith
  then show ?thesis by (simp only: of_nat_numeral [symmetric, where ?'a = int] of_nat_le_iff)
qed

lemma task_alloc_table:
  assumes "task_alloc t ow re s = (s', ok)"
  shows "ok \<Longrightarrow> unat t < RMGR_TASK_MAX \<and> rs_task s' = (rs_task s)(unat t := ow)" "\<not> ok \<Longrightarrow> rs_task s' = rs_task s"
    "ok \<Longrightarrow> rs_task s (unat t) \<in> {O_FREE, ow}"
proof -
  obtain s1 g where "quota_alloc_task ow t s = (s1, g)" by fastforce
  with assms quota_alloc_frame(4) [of ow t s]
  show "ok \<Longrightarrow> unat t < RMGR_TASK_MAX \<and> rs_task s' = (rs_task s)(unat t := ow)" "\<not> ok \<Longrightarrow> rs_task s' = rs_task s"
    "ok \<Longrightarrow> rs_task s (unat t) \<in> {O_FREE, ow}"
    by (auto simp: task_alloc_def split: if_splits)
qed

lemma task_free_table:
  "rs_task (fst (task_free t ow s)) =
     (if unat t < RMGR_TASK_MAX \<and> rs_task s (unat t) = ow then (rs_task s)(unat t := O_FREE) else rs_task s)"
  by (auto simp: task_free_def Let_def fun_eq_iff)

lemma set_last_pf_task [simp]: "rs_task (set_last_pf k a b s) = rs_task s"
  by (simp add: set_last_pf_def)

section \<open>Releasing all memory of a task\<close>

text \<open>
  \<open>sole ow s\<close>: the map is consistent and superpages of \<open>ow\<close> were taken as a whole.
  \<open>drops ow s s'\<close>: some pages of \<open>ow\<close> became free and nothing else happened.
\<close>

definition sole :: "owner_t \<Rightarrow> rt_state \<Rightarrow> bool" where
  "sole ow s \<longleftrightarrow> mm_inv s \<and>
     (\<forall>p < PAGE_MAX. sp_owner (rs_memmap4mb s (p div 1024)) = ow \<longrightarrow> rs_memmap s p = O_FREE)"

definition drops :: "owner_t \<Rightarrow> rt_state \<Rightarrow> rt_state \<Rightarrow> bool" where
  "drops ow s s' \<longleftrightarrow> (sole ow s \<longrightarrow> sole ow s') \<and> rs_mem_high s' = rs_mem_high s \<and>
     (sole ow s \<longrightarrow> (\<forall>p. page_owner s' p = page_owner s p \<or> page_owner s p = ow \<and> page_owner s' p = O_FREE))"

lemma drops_refl [simp]: "drops ow s s"
  by (simp add: drops_def)

lemma drops_trans: "drops ow s s1 \<Longrightarrow> drops ow s1 s2 \<Longrightarrow> drops ow s s2"
  unfolding drops_def by metis

lemma drops_log [simp]: "drops ow s (log_event e s') = drops ow s s'"
  by (simp add: drops_def sole_def)

lemma drops_free_page:
  assumes "is_client ow"
  shows "drops ow s (fst (memmap_free_page a ow s))"
proof (cases "sole ow s")
  case True
  obtain s' r where e: "memmap_free_page a ow s = (s', r)" by fastforce
  have inv: "mm_inv s" using True by (simp add: sole_def)
  have "sole ow s'"
    using e
  proof (cases rule: memmap_free_page_cases)
    case (released sp)
    have "mm_inv s'" using memmap_free_page_inv [OF inv, of a ow] e by simp
    moreover have "rs_memmap s' p = O_FREE" if "p < PAGE_MAX" "sp_owner (rs_memmap4mb s' (p div 1024)) = ow" for p
      using that released True assms by (auto simp: sole_def split: if_splits)
    ultimately show ?thesis by (simp add: sole_def)
  qed (use True in simp)
  moreover have "page_owner s' p = page_owner s p \<or> page_owner s p = ow \<and> page_owner s' p = O_FREE" for p
    using free_page_refines(1) [OF inv assms e, of p] free_page_refines(2) [OF inv assms e] by auto
  ultimately show ?thesis using e memmap_mem_high(2) [of a ow s] by (simp add: drops_def)
next
  case False
  then show ?thesis by (simp add: drops_def)
qed

lemma drops_free_superpage:
  assumes "is_client ow"
  shows "drops ow s (fst (memmap_free_superpage a ow s))"
proof (cases "sole ow s")
  case True
  obtain s' r where e: "memmap_free_superpage a ow s = (s', r)" by fastforce
  have "sole ow s'"
    using e
  proof (cases rule: memmap_free_superpage_cases)
    case freed
    have "rs_memmap s p = O_FREE" if "superpage_no a * 1024 \<le> p" "p < superpage_no a * 1024 + 1024" for p
      using True freed(2) in_superpage_div [OF that] superpage_cells_max [of p a] that
      by (auto simp: sole_def superpage_cells_def)
    then have "mm_inv s'" using memmap_free_superpage_inv [of s a ow] True e by (simp add: sole_def)
    moreover have "rs_memmap s' p = O_FREE" if "p < PAGE_MAX" "sp_owner (rs_memmap4mb s' (p div 1024)) = ow" for p
      using that freed True assms by (auto simp: sole_def split: if_splits)
    ultimately show ?thesis by (simp add: sole_def)
  qed (use True in simp_all)
  moreover have "page_owner s' p = page_owner s p \<or> page_owner s p = ow \<and> page_owner s' p = O_FREE" for p
    using free_superpage_refines(1) [OF assms e, of p] free_superpage_refines(2) [OF assms e, of p] by auto
  ultimately show ?thesis using e memmap_mem_high(4) [of a ow s] by (simp add: drops_def)
next
  case False
  then show ?thesis by (simp add: drops_def)
qed

text \<open>A task number below 256 and its 8-bit owner value name the same owner.\<close>

lemma owner_task_eq:
  assumes "id_task t \<le> O_MAX"
  shows "ucast (ow :: owner_t) = id_task t \<longleftrightarrow> ow = task_owner_t t"
proof -
  have "unat (id_task t) < 256" using assms by (simp add: O_MAX_def word_le_unat)
  then have u: "unat (task_owner_t t) = unat (id_task t)"
    by (simp add: task_owner_t_def unsigned_ucast_eq take_bit_nat_eq_self)
  have "ucast ow = id_task t \<longleftrightarrow> unat ow = unat (id_task t)" by (simp add: word_unat_eq_iff)
  then show ?thesis using u by (simp add: word_unat_eq_iff)
qed

lemma free_pages_from_drops:
  "is_client (task_owner_t tid) \<Longrightarrow> drops (task_owner_t tid) s (free_pages_from tid n qa s)"
proof (induction tid n qa s rule: free_pages_from.induct)
  case (2 tid n qa s)
  let ?s = "if ucast (memmap_owner_page s qa) = id_task tid then fst (memmap_free_page qa (task_owner_t tid) s) else s"
  have "drops (task_owner_t tid) s ?s" using drops_free_page [OF 2(2)] by simp
  from drops_trans [OF this 2(1) [OF 2(2)]] show ?case by simp
qed simp

text \<open>After the scan of a shared superpage none of its pages below the end of memory is left.\<close>

lemma drops_keeps_free:
  "drops ow s s' \<Longrightarrow> sole ow s \<Longrightarrow> ow \<noteq> O_FREE \<Longrightarrow> page_owner s p \<noteq> ow \<Longrightarrow> page_owner s' p \<noteq> ow"
  unfolding drops_def by metis

lemma free_pages_from_all:
  "is_client (task_owner_t tid) \<Longrightarrow> id_task tid \<le> O_MAX \<Longrightarrow> sole (task_owner_t tid) s \<Longrightarrow>
   unat qa + n * 4096 \<le> 2 ^ 32 \<Longrightarrow>
   sp_owner (rs_memmap4mb s (superpage_no qa)) \<noteq> task_owner_t tid \<Longrightarrow>
   (\<And>k. k < n \<Longrightarrow> superpage_no (qa + of_nat k * L4_PAGESIZE) = superpage_no qa) \<Longrightarrow>
   k < n \<Longrightarrow> qa + of_nat k * L4_PAGESIZE < rs_mem_high s \<Longrightarrow>
   page_owner (free_pages_from tid n qa s) (page_no (qa + of_nat k * L4_PAGESIZE)) \<noteq> task_owner_t tid"
proof (induction tid n qa s arbitrary: k rule: free_pages_from.induct)
  case (2 tid n qa s)
  let ?ow = "task_owner_t tid"
  let ?s = "if ucast (memmap_owner_page s qa) = id_task tid then fst (memmap_free_page qa ?ow s) else s"
  have inv: "mm_inv s" using 2(4) by (simp add: sole_def)
  have ow: "?ow \<noteq> O_FREE" using 2(2) by simp
  have d: "drops ?ow s ?s" using drops_free_page [OF 2(2)] by simp
  have sole: "sole ?ow ?s" and mh: "rs_mem_high ?s = rs_mem_high s" using d 2(4) unfolding drops_def by blast+
  have sp: "sp_owner (rs_memmap4mb ?s (superpage_no qa)) \<noteq> ?ow"
  proof (cases "ucast (memmap_owner_page s qa) = id_task tid")
    case True
    obtain s' r where e: "memmap_free_page qa ?ow s = (s', r)" by fastforce
    from e have "sp_owner (rs_memmap4mb s' (superpage_no qa)) \<noteq> ?ow"
      using 2(2,6) by (cases rule: memmap_free_page_cases) auto
    with e True show ?thesis by simp
  qed (use 2(6) in simp)
  show ?case
  proof (cases k)
    case 0
    have "page_owner ?s (page_no qa) \<noteq> ?ow"
    proof (cases "memmap_owner_page s qa = ?ow")
      case True
      obtain s' r where e: "memmap_free_page qa ?ow s = (s', r)" by fastforce
      have lt: "qa < rs_mem_high s" and po: "page_owner s (page_no qa) = ?ow"
        using True 2(2) by (auto simp: memmap_owner_page_eq split: if_splits)
      then have "sp_owner (rs_memmap4mb s (superpage_no qa)) = O_RESERVED"
        using 2(6) by (auto simp: page_owner_def Let_def page_no_div split: if_splits)
      then have r using e lt po 2(2) superpage_no_lt_MAX [of qa]
        by (auto simp: memmap_free_page_def Let_def ram_base_def page_owner_def page_no_div split: if_splits)
      then show ?thesis
        using free_page_refines(1) [OF inv 2(2) e, of "page_no qa"] e True owner_task_eq [OF 2(3)] ow by simp
    next
      case False
      then have "page_owner s (page_no qa) \<noteq> ?ow" using 2(9) 0 by (simp add: memmap_owner_page_eq)
      then show ?thesis using False owner_task_eq [OF 2(3)] by simp
    qed
    then show ?thesis
      using 0 drops_keeps_free [OF free_pages_from_drops [OF 2(2)] sole ow] by simp
  next
    case (Suc k')
    have n: "k' < n" using 2(8) Suc by simp
    have q: "superpage_no (qa + L4_PAGESIZE) = superpage_no qa" using 2(7) [of 1] n by simp
    have u: "unat (qa + L4_PAGESIZE) = unat qa + 4096"
      using 2(5) n by (subst unat_add_lt) (auto simp: L4_PAGESIZE_def)
    have e: "qa + of_nat k * L4_PAGESIZE = qa + L4_PAGESIZE + of_nat k' * L4_PAGESIZE"
      unfolding Suc by (simp add: algebra_simps)
    have "superpage_no (qa + L4_PAGESIZE + of_nat j * L4_PAGESIZE) = superpage_no (qa + L4_PAGESIZE)" if "j < n" for j
      using 2(7) [of "Suc j"] that q by (simp add: algebra_simps)
    from 2(1) [OF 2(2,3) sole _ _ this n] u 2(5,9) sp q mh e
    have "page_owner (free_pages_from tid n (qa + L4_PAGESIZE) ?s)
        (page_no (qa + L4_PAGESIZE + of_nat k' * L4_PAGESIZE)) \<noteq> ?ow" by simp
    then show ?thesis unfolding e free_pages_from.simps .
  qed
qed simp

lemma memmap_owner_superpage_eq: "memmap_owner_superpage s a = sp_owner (rs_memmap4mb s (superpage_no a))"
  using superpage_no_lt_MAX [of a] by (simp add: memmap_owner_superpage_def)

lemma free_superpage_of_drops:
  assumes "is_client (task_owner_t tid)"
  shows "drops (task_owner_t tid) s (free_superpage_of tid pa s)"
proof -
  obtain s1 ok where e: "memmap_free_superpage pa (task_owner_t tid) s = (s1, ok)" by fastforce
  define s2 where "s2 = (if ucast (memmap_owner_superpage s pa) = id_task tid
      then if ok then log_event (Fpage_unmap (l4_fpage pa L4_LOG2_SUPERPAGESIZE L4_FPAGE_RW L4_FPAGE_MAP) FlushOther) s1
           else s1
      else s)"
  have "drops (task_owner_t tid) s s2"
    using drops_free_superpage [OF assms, of s pa] e by (simp add: s2_def)
  moreover have "free_superpage_of tid pa s =
      (if memmap_owner_superpage s2 pa = O_RESERVED then free_pages_from tid SP_PAGES pa s2 else s2)"
    unfolding free_superpage_of_def Let_def e s2_def prod.case ..
  ultimately show ?thesis using free_pages_from_drops [OF assms] by (auto intro: drops_trans)
qed

lemma superpage_unat:
  assumes "unat pa mod 4194304 = 0"
  shows "unat pa = superpage_no pa * 4194304" "unat pa + 4194304 \<le> 2 ^ 32"
proof -
  show u: "unat pa = superpage_no pa * 4194304" using assms by (auto simp: superpage_no_eq)
  have "superpage_no pa < 1024" using superpage_no_lt_MAX [of pa] by (simp add: SUPERPAGE_MAX_def)
  then show "unat pa + 4194304 \<le> 2 ^ 32" unfolding u by simp
qed

lemma superpage_page:
  assumes "unat pa mod 4194304 = 0" "k < 1024"
  shows "unat (pa + of_nat k * L4_PAGESIZE) = unat pa + k * 4096" "superpage_no (pa + of_nat k * L4_PAGESIZE) = superpage_no pa"
    "page_no (pa + of_nat k * L4_PAGESIZE) = superpage_no pa * 1024 + k"
proof -
  show u: "unat (pa + of_nat k * L4_PAGESIZE) = unat pa + k * 4096"
    using superpage_unat(2) [OF assms(1)] assms(2) by (subst unat_add_mult) (auto simp: L4_PAGESIZE_def)
  have "unat pa + k * 4096 = (superpage_no pa * 1024 + k) * 4096" using superpage_unat(1) [OF assms(1)] by simp
  then show p: "page_no (pa + of_nat k * L4_PAGESIZE) = superpage_no pa * 1024 + k" by (simp add: page_no_eq u)
  show "superpage_no (pa + of_nat k * L4_PAGESIZE) = superpage_no pa"
    using p assms(2) by (simp add: superpage_no_page_no)
qed

lemma free_superpage_of_all:
  assumes cl: "is_client (task_owner_t tid)" and ti: "id_task tid \<le> O_MAX" and so: "sole (task_owner_t tid) s"
    and al: "unat pa mod 4194304 = 0" and p: "p div 1024 = superpage_no pa" "p * 4096 < unat (rs_mem_high s)"
  shows "page_owner (free_superpage_of tid pa s) p \<noteq> task_owner_t tid"
proof -
  let ?ow = "task_owner_t tid" and ?sp = "sp_owner (rs_memmap4mb s (superpage_no pa))"
  have ow: "?ow \<noteq> O_FREE" "?ow \<noteq> O_RESERVED" using cl by auto
  consider (own) "?sp = ?ow" | (shared) "?sp = O_RESERVED" | (other) "?sp \<noteq> ?ow" "?sp \<noteq> O_RESERVED" by blast
  then show ?thesis
  proof cases
    case own
    obtain s1 ok where e: "memmap_free_superpage pa ?ow s = (s1, ok)" by fastforce
    have ok: ok and sp1: "sp_owner (rs_memmap4mb s1 (superpage_no pa)) = O_FREE"
      using e own ow superpage_no_lt_MAX [of pa] by (auto simp: memmap_free_superpage_def Let_def split: if_splits)
    have "page_owner s1 p = O_FREE"
      using free_superpage_refines(1) [OF cl e, of p] ok p(1) by (simp add: superpage_cells_iff)
    then show ?thesis
      using e ok own sp1 ow owner_task_eq [OF ti] by (simp add: free_superpage_of_def Let_def memmap_owner_superpage_eq)
  next
    case shared
    let ?k = "p mod 1024"
    have k: "?k < 1024" by simp
    have pk: "p = superpage_no pa * 1024 + ?k" using p(1) by (metis div_mult_mod_eq)
    have "unat (pa + of_nat ?k * L4_PAGESIZE) = p * 4096"
      using superpage_page(1) [OF al k] superpage_unat(1) [OF al] pk by simp
    then have lt: "pa + of_nat ?k * L4_PAGESIZE < rs_mem_high s" using p(2) by (simp add: word_less_unat)
    have "ucast O_RESERVED \<noteq> id_task tid" using owner_task_eq [OF ti, of O_RESERVED] ow by auto
    then have f: "free_superpage_of tid pa s = free_pages_from tid 1024 pa s"
      using shared by (simp add: free_superpage_of_def Let_def memmap_owner_superpage_eq SP_PAGES_def)
    have "page_owner (free_pages_from tid 1024 pa s) (page_no (pa + of_nat ?k * L4_PAGESIZE)) \<noteq> ?ow"
      using shared ow(2) superpage_unat(2) [OF al] superpage_page(2) [OF al]
      by (intro free_pages_from_all [OF cl ti so _ _ _ k lt]) auto
    then show ?thesis using f superpage_page(3) [OF al k] pk by simp
  next
    case other
    then have "free_superpage_of tid pa s = s"
      using owner_task_eq [OF ti] by (simp add: free_superpage_of_def Let_def memmap_owner_superpage_eq)
    with other p(1) show ?thesis by (simp add: page_owner_def Let_def)
  qed
qed

lemma free_superpages_from_drops:
  "is_client (task_owner_t tid) \<Longrightarrow> drops (task_owner_t tid) s (free_superpages_from tid n pa s)"
proof (induction tid n pa s rule: free_superpages_from.induct)
  case (2 tid n pa s)
  from drops_trans [OF free_superpage_of_drops [OF 2(2)] 2(1) [OF 2(2)]] show ?case by simp
qed simp

lemma free_superpages_from_all:
  "is_client (task_owner_t tid) \<Longrightarrow> id_task tid \<le> O_MAX \<Longrightarrow> sole (task_owner_t tid) s \<Longrightarrow>
   unat pa mod 4194304 = 0 \<Longrightarrow> unat pa + n * 4194304 \<le> 2 ^ 32 \<Longrightarrow>
   superpage_no pa \<le> p div 1024 \<Longrightarrow> p div 1024 < superpage_no pa + n \<Longrightarrow> p * 4096 < unat (rs_mem_high s) \<Longrightarrow>
   page_owner (free_superpages_from tid n pa s) p \<noteq> task_owner_t tid"
proof (induction tid n pa s rule: free_superpages_from.induct)
  case (2 tid n pa s)
  let ?s = "free_superpage_of tid pa s" and ?ow = "task_owner_t tid"
  have d: "drops ?ow s ?s" by (rule free_superpage_of_drops [OF 2(2)])
  then have so: "sole ?ow ?s" and mh: "rs_mem_high ?s = rs_mem_high s" using 2(4) unfolding drops_def by blast+
  have "page_owner (free_superpages_from tid n (pa + L4_SUPERPAGESIZE) ?s) p \<noteq> ?ow"
  proof (cases "p div 1024 = superpage_no pa")
    case True
    have "page_owner ?s p \<noteq> ?ow" by (rule free_superpage_of_all [OF 2(2-5) True 2(9)])
    then show ?thesis
      using drops_keeps_free [OF free_superpages_from_drops [OF 2(2)] so, of p n] 2(2) by simp
  next
    case False
    have n: "0 < n" using False 2(7,8) by (cases n) auto
    have u: "unat (pa + L4_SUPERPAGESIZE) = unat pa + 4194304"
      using 2(6) n by (subst unat_add_lt) (auto simp: L4_SUPERPAGESIZE_def)
    then have sn: "superpage_no (pa + L4_SUPERPAGESIZE) = superpage_no pa + 1" by (simp add: superpage_no_eq)
    from 2(1) [OF 2(2,3) so] u sn False 2(5-9) mh show ?thesis by simp
  qed
  then show ?case by simp
qed simp

lemma free_adapter_from_drops:
  "is_client (task_owner_t tid) \<Longrightarrow> drops (task_owner_t tid) s (free_adapter_from tid n p s)"
proof (induction tid n p s rule: free_adapter_from.induct)
  case (2 tid n p s)
  from drops_trans [OF drops_free_superpage [OF 2(2)] 2(1) [OF 2(2)]] show ?case by simp
qed simp

lemma superpage_of_page: "p < PAGE_MAX \<Longrightarrow> p div 1024 < SUPERPAGE_MAX"
  by (simp add: PAGE_MAX_def SUPERPAGE_MAX_def less_mult_imp_div_less)

section \<open>Properties\<close>


lemma sole_whole: "mm_inv s \<Longrightarrow> (\<And>p. sp_owner (rs_memmap4mb s p) \<noteq> ow) \<Longrightarrow> sole ow s"
  by (simp add: sole_def)


text \<open>
  C31: \<open>rmgr_get_task\<close> answers every number a client sends with 0 or 1. The answer 0 means
  that the number is in range, was free or the client's, and is recorded as the client's now;
  on the answer 1 no entry of the table that belongs to another owner has changed.
\<close>

theorem rmgr_get_task_spec:
  assumes "- (2 ^ 31) \<le> num" "num < 2 ^ 31"
  shows "\<exists>s' r. rmgr_get_task env c num s = Inr (s', r) \<and> (r = 0 \<or> r = 1) \<and>
    (r = 0 \<longrightarrow> 0 \<le> num \<and> num < int RMGR_TASK_MAX \<and> rs_task s (nat num) \<in> {O_FREE, task_owner_t c} \<and>
       rs_task s' = (rs_task s)(nat num := task_owner_t c)) \<and>
    (\<forall>i. rs_task s' i \<noteq> rs_task s i \<longrightarrow> i = nat num \<and> rs_task s i \<in> {O_FREE, task_owner_t c})"
proof -
  obtain s1 ok where e: "task_alloc (of_int num) (task_owner_t c) True s = (s1, ok)" by fastforce
  show ?thesis
  proof (cases "num < int RMGR_TASK_MAX \<and> ok")
    case False
    then show ?thesis using e task_alloc_table(2) [OF e] by (auto simp: rmgr_get_task_def)
  next
    case True
    have lt: "unat (of_int num :: u32) < RMGR_TASK_MAX" using task_alloc_table(1) [OF e] True by simp
    then have n: "0 \<le> num" using of_int_neg_big [OF _ assms(1)] by (force simp: RMGR_TASK_MAX_def)
    have u: "unat (of_int num :: u32) = nat num" using of_int_task [OF n] True by simp
    let ?s2 = "set_last_pf (nat num) (-1) (-1) s1"
    have g: "reset_pagefault num s1 = Inr ?s2" using n lt u by (simp add: reset_pagefault_def)
    have t: "rs_task s1 = (rs_task s)(nat num := task_owner_t c)" "rs_task s (nat num) \<in> {O_FREE, task_owner_t c}"
      using task_alloc_table [OF e] True u by auto
    show ?thesis
    proof (cases "l4_is_nil_id (re_task_new env (set_id_task c (of_int num)) c L4_NIL_ID)")
      case nil: True
      then have "rmgr_get_task env c num s = Inr (fst (task_free (of_int num) (task_owner_t c) ?s2), 1)"
        using True e g by (simp add: rmgr_get_task_def)
      moreover have "rs_task (fst (task_free (of_int num) (task_owner_t c) ?s2)) = (rs_task s)(nat num := O_FREE)"
        using t(1) lt u by (simp add: task_free_table)
      ultimately show ?thesis using t(2) by auto
    next
      case False
      then have "rmgr_get_task env c num s = Inr (?s2, 0)" using True e g by (simp add: rmgr_get_task_def)
      then show ?thesis using t True n by auto
    qed
  qed
qed

definition demo_rmgr_env :: rmgr_env where
  "demo_rmgr_env = \<lparr>re_task_new = (\<lambda>t m p. t), re_task_new_long = (\<lambda>t m sp ip p. t), re_sched = (\<lambda>t. 0), re_irq_call = (\<lambda>i d. (0, 0)), re_l4_myself = 0\<rparr>"

theorem rmgr_get_task_spec_witness:
  "\<exists>s' r. rmgr_get_task demo_rmgr_env 0xA0000 7 demo_state = Inr (s', r) \<and> (r = 0 \<or> r = 1)"
  using rmgr_get_task_spec [of 7 demo_rmgr_env "0xA0000" demo_state] by auto

section \<open>Interrupts\<close>

text \<open>A thread that failed to attach is not attached.\<close>

definition irq_thread_inv :: "irq_thread \<Rightarrow> bool" where
  "irq_thread_inv th \<longleftrightarrow> \<not> (it_failure th \<and> it_attached th)"

text \<open>
  The protocol of an interrupt thread. Its state stays consistent, whatever the requests
  and the kernel's answers; a request to give the interrupt away is answered by 0 exactly when
  the thread goes from attached (possibly only just) to detached, and a request to take it back
  is answered by 0 exactly when a detached thread attaches again.
\<close>

theorem irq_thread_protocol:
  assumes "irq_thread_inv th"
  shows "irq_thread_inv (irq_thread_init att) \<and>
    irq_thread_inv (fst (irq_thread_request att1 att2 d1 th)) \<and>
    (d1 \<noteq> 0 \<longrightarrow> (snd (irq_thread_request att1 att2 d1 th) = 0 \<longleftrightarrow> it_attached th \<or> it_failure th \<and> att1)) \<and>
    (d1 = 0 \<longrightarrow> (snd (irq_thread_request att1 att2 d1 th) = 0 \<longleftrightarrow> \<not> it_attached th \<and> \<not> it_failure th \<and> att2)) \<and>
    (snd (irq_thread_request att1 att2 d1 th) = 0 \<longrightarrow>
       \<not> it_failure (fst (irq_thread_request att1 att2 d1 th)) \<and>
       (it_attached (fst (irq_thread_request att1 att2 d1 th)) \<longleftrightarrow> d1 = 0))"
  using assms by (auto simp: irq_thread_request_def irq_thread_init_def irq_thread_inv_def irq_detach_def Let_def)

theorem irq_thread_protocol_witness:
  "snd (irq_thread_request True True 1 \<lparr>it_failure = False, it_attached = True\<rparr>) = 0"
  using irq_thread_protocol [of "\<lparr>it_failure = False, it_attached = True\<rparr>" True True True 1]
  by (simp add: irq_thread_inv_def)

lemma of_int_irq:
  assumes "0 \<le> num" "num < int RMGR_IRQ_MAX" shows "unat (of_int num :: u32) = nat num"
  using assms by (intro of_int_task) (auto simp: RMGR_IRQ_MAX_def RMGR_TASK_MAX_def)



section \<open>Observations\<close>

text \<open>
  A client that holds an interrupt and asks for it again loses it: the interrupt thread, which is
  detached already, refuses, and the failure path releases the interrupt.
\<close>

lemma rmgr_get_irq_twice:
  assumes "0 \<le> num" "num < int RMGR_IRQ_MAX" "rs_irq s (nat num) = task_owner_t c" "task_owner_t c \<noteq> O_FREE"
    and "re_irq_call env (nat num) 1 = (0, snd (irq_thread_request att1 att2 1 \<lparr>it_failure = False, it_attached = False\<rparr>))"
  shows "\<exists>s'. rmgr_get_irq env c num s = Inr (s', 1) \<and> rs_irq s' (nat num) = O_FREE"
proof -
  have u: "unat (of_int num :: u32) = nat num" by (rule of_int_irq [OF assms(1,2)])
  have lt: "nat num < RMGR_IRQ_MAX" using assms(1,2) by linarith
  show ?thesis
    using assms lt u by (simp add: rmgr_get_irq_def irq_alloc_def irq_free_def irq_thread_request_def Let_def)
qed

text \<open>The interrupt number is a signed \<open>int\<close>; a negative one indexes before the table.\<close>

lemma rmgr_get_irq_negative:
  "num < 0 \<Longrightarrow> - (2 ^ 31) \<le> num \<Longrightarrow> rmgr_get_irq env c num s = Inl OutOfBounds"
  using of_int_neg_big [of num] by (simp add: rmgr_get_irq_def irq_alloc_def RMGR_IRQ_MAX_def)

text \<open>
  \<open>rmgr_free_page\<close> never releases an adapter page while memory ends below 2 GB: the owner it
  compares with is read from the page table, where those addresses are reserved.
\<close>

lemma rmgr_free_page_adapter:
  assumes "0x40000000 \<le> a" "a < 0xC0000000" "rs_mem_high s \<le> 0x80000000" "is_client (task_owner_t c)" "id_task c \<le> O_MAX"
  shows "rmgr_free_page c a s = (s, 1)"
proof -
  have "unat a < 3221225472" using assms(2) by (simp add: word_less_unat)
  then have u: "unat (a + 0x40000000) = unat a + 1073741824" by (subst unat_add_lt) simp_all
  have "\<not> a + 0x40000000 < rs_mem_high s" using assms(1,3) u by (simp add: word_less_unat word_le_unat)
  then have "memmap_owner_page s (a + 0x40000000) = O_RESERVED" by (simp add: memmap_owner_page_eq)
  moreover have "ucast O_RESERVED \<noteq> id_task c" using owner_task_eq [OF assms(5), of O_RESERVED] assms(4) by auto
  ultimately show ?thesis using assms(1,2) by (simp add: rmgr_free_page_def Let_def)
qed

end
