(* ===== verification/RtLock.thy ===== *)
theory RtLock
  imports L4Prelude
begin

text \<open>
  The lock around the memory map, \<open>memmap_lock.c\<close>: an exchange on a lock word, and a
  rendezvous of the two threads of the server (pager and supervisor) where the lock was
  taken. A thread is modelled by the point of \<open>enter_memmap_functions\<close> and
  \<open>leave_memmap_functions\<close> it has reached; a step is one atomic instruction or one
  completed IPC transfer between the two threads.
\<close>

section \<open>The protocol\<close>

datatype rt_thread = Pager | Super

fun other :: "rt_thread \<Rightarrow> rt_thread" where
  "other Pager = Super"
| "other Super = Pager"

text \<open>\<open>RMGR_INTERNAL_LTHREAD_PAGER\<close> and \<open>RMGR_INTERNAL_LTHREAD_SUPER\<close>, the values of \<open>me\<close>.\<close>

fun thread_me :: "rt_thread \<Rightarrow> u32" where
  "thread_me Pager = 0"
| "thread_me Super = 1"

text \<open>
  \<open>Outside\<close>: not in the memory map functions. \<open>EnterReceive\<close> and \<open>EnterSend\<close>: in the
  receive and in the send of \<open>enter\<close>. \<open>Inside\<close>: between \<open>enter\<close> and \<open>leave\<close>.
  \<open>LeaveSend\<close> and \<open>LeaveReceive\<close>: in the send and in the receive phase of the call of
  \<open>leave\<close>.
\<close>

datatype lock_pc = Outside | EnterReceive | EnterSend | Inside | LeaveSend | LeaveReceive

record lock_state =
  memmap_lock :: u32
  lock_pc_of :: "rt_thread \<Rightarrow> lock_pc"

definition lock_init :: lock_state where
  "lock_init = \<lparr>memmap_lock = -1, lock_pc_of = (\<lambda>_. Outside)\<rparr>"

text \<open>The exchange of \<open>enter_memmap_functions\<close>.\<close>

definition enter_xchg :: "rt_thread \<Rightarrow> lock_state \<Rightarrow> lock_state" where
  "enter_xchg t s =
     s\<lparr>memmap_lock := thread_me t,
       lock_pc_of := (lock_pc_of s)(t := if memmap_lock s \<noteq> -1 then EnterReceive else Inside)\<rparr>"

text \<open>The compare-and-exchange of \<open>leave_memmap_functions\<close>.\<close>

definition leave_cmpxchg :: "rt_thread \<Rightarrow> lock_state \<Rightarrow> lock_state" where
  "leave_cmpxchg t s =
     (if memmap_lock s = thread_me t
      then s\<lparr>memmap_lock := -1, lock_pc_of := (lock_pc_of s)(t := Outside)\<rparr>
      else s\<lparr>lock_pc_of := (lock_pc_of s)(t := LeaveSend)\<rparr>)"

inductive lock_step :: "lock_state \<Rightarrow> lock_state \<Rightarrow> bool" where
  enter: "lock_pc_of s t = Outside \<Longrightarrow> lock_step s (enter_xchg t s)"
| leave: "lock_pc_of s t = Inside \<Longrightarrow> lock_step s (leave_cmpxchg t s)"
| call_received: "lock_pc_of s t = LeaveSend \<Longrightarrow> lock_pc_of s (other t) = EnterReceive \<Longrightarrow>
    lock_step s (s\<lparr>lock_pc_of := (lock_pc_of s)(t := LeaveReceive, other t := EnterSend)\<rparr>)"
| call_answered: "lock_pc_of s t = LeaveReceive \<Longrightarrow> lock_pc_of s (other t) = EnterSend \<Longrightarrow>
    lock_step s (s\<lparr>lock_pc_of := (lock_pc_of s)(t := Outside, other t := Inside)\<rparr>)"

inductive lock_reachable :: "lock_state \<Rightarrow> bool" where
  reach_init: "lock_reachable lock_init"
| reach_step: "lock_reachable s \<Longrightarrow> lock_step s s' \<Longrightarrow> lock_reachable s'"

section \<open>The invariant\<close>

text \<open>The pairs of program points the two threads can be at, with the lock word there.\<close>

fun lock_ok :: "rt_thread \<Rightarrow> lock_pc \<Rightarrow> lock_pc \<Rightarrow> u32 \<Rightarrow> bool" where
  "lock_ok t Outside Outside l = (l = -1)"
| "lock_ok t Inside Outside l = (l = thread_me t)"
| "lock_ok t Outside Inside l = (l = thread_me (other t))"
| "lock_ok t Inside EnterReceive l = (l = thread_me (other t))"
| "lock_ok t EnterReceive Inside l = (l = thread_me t)"
| "lock_ok t LeaveSend EnterReceive l = (l = thread_me (other t))"
| "lock_ok t EnterReceive LeaveSend l = (l = thread_me t)"
| "lock_ok t LeaveReceive EnterSend l = (l = thread_me (other t))"
| "lock_ok t EnterSend LeaveReceive l = (l = thread_me t)"
| "lock_ok t _ _ l = False"

definition lock_inv :: "lock_state \<Rightarrow> bool" where
  "lock_inv s \<longleftrightarrow> lock_ok Pager (lock_pc_of s Pager) (lock_pc_of s Super) (memmap_lock s)"

lemma other_other [simp]: "other (other t) = t"
  by (cases t) auto

lemma other_neq [simp]: "other t \<noteq> t" "t \<noteq> other t"
  by (cases t; simp)+

lemma thread_me_facts [simp]: "thread_me t \<noteq> -1" "- 1 \<noteq> thread_me t" "thread_me (other t) = thread_me t' \<longleftrightarrow> t \<noteq> t'"
  by (cases t; cases t'; simp)+

lemma thread_me_other [simp]: "thread_me t \<noteq> thread_me (other t)"
  by (cases t) simp_all

text \<open>The invariant reads the same from both threads.\<close>

lemma lock_ok_sym: "lock_ok Pager p q l \<longleftrightarrow> lock_ok Super q p l"
  by (cases p; cases q; simp)

lemma lock_inv_eq: "lock_inv s \<longleftrightarrow> lock_ok t (lock_pc_of s t) (lock_pc_of s (other t)) (memmap_lock s)"
  by (cases t) (simp_all add: lock_inv_def lock_ok_sym)

lemma lock_step_inv:
  assumes "lock_step s s'" "lock_inv s"
  shows "lock_inv s'"
  using assms
proof (induction rule: lock_step.induct)
  case (enter s t)
  then show ?case unfolding lock_inv_eq [of _ t]
    by (cases "lock_pc_of s (other t)") (auto simp: enter_xchg_def)
next
  case (leave s t)
  then show ?case unfolding lock_inv_eq [of _ t]
    by (cases "lock_pc_of s (other t)") (auto simp: leave_cmpxchg_def)
next
  case (call_received s t)
  then show ?case unfolding lock_inv_eq [of _ t] by simp
next
  case (call_answered s t)
  then show ?case unfolding lock_inv_eq [of _ t] by simp
qed

lemma lock_init_inv: "lock_inv lock_init"
  by (simp add: lock_inv_def lock_init_def)

lemma lock_reachable_inv: "lock_reachable s \<Longrightarrow> lock_inv s"
  by (induction rule: lock_reachable.induct) (auto intro: lock_init_inv lock_step_inv)

section \<open>Properties\<close>

text \<open>
  C24. The memory map lock excludes: the pager and the supervisor thread are never both
  between \<open>enter_memmap_functions\<close> and \<open>leave_memmap_functions\<close>.
\<close>

theorem memmap_lock_excludes:
  assumes "lock_reachable s"
  shows "\<not> (lock_pc_of s Pager = Inside \<and> lock_pc_of s Super = Inside)"
  using lock_reachable_inv [OF assms] by (auto simp: lock_inv_def)

theorem memmap_lock_excludes_witness: "\<not> (lock_pc_of (enter_xchg Super (enter_xchg Pager lock_init)) Super = Inside)"
proof -
  have 1: "lock_step lock_init (enter_xchg Pager lock_init)" by (rule enter) (simp add: lock_init_def)
  have 2: "lock_step (enter_xchg Pager lock_init) (enter_xchg Super (enter_xchg Pager lock_init))"
    by (rule enter) (simp add: enter_xchg_def lock_init_def)
  from memmap_lock_excludes [OF reach_step [OF reach_step [OF reach_init 1] 2]]
  show ?thesis by (simp add: enter_xchg_def lock_init_def)
qed

text \<open>
  C25. The lock hands over: a thread that waits for the lock is not forgotten. Whenever a
  thread waits in \<open>enter\<close>, the other one is inside and its \<open>leave\<close> leads into the
  rendezvous, or the rendezvous is under way, after two transfers of which the waiting
  thread is inside; and no reachable state is stuck.
\<close>

theorem memmap_lock_progress:
  assumes "lock_reachable s"
  shows "(\<exists>s'. lock_step s s')
    \<and> (lock_pc_of s t = EnterReceive \<longrightarrow>
         (lock_pc_of s (other t) = Inside \<and> lock_pc_of (leave_cmpxchg (other t) s) (other t) = LeaveSend)
         \<or> lock_pc_of s (other t) = LeaveSend
           \<and> (\<exists>s1 s2. lock_step s s1 \<and> lock_step s1 s2 \<and> lock_pc_of s2 t = Inside))"
proof -
  have i: "lock_ok t (lock_pc_of s t) (lock_pc_of s (other t)) (memmap_lock s)"
    using lock_reachable_inv [OF assms] by (simp add: lock_inv_eq [of _ t])
  have "\<exists>s'. lock_step s s'"
  proof (cases "lock_pc_of s t"; cases "lock_pc_of s (other t)")
  qed (use i lock_step.intros [of s t] lock_step.intros [of s "other t"] in \<open>auto\<close>)
  moreover have "\<exists>s1 s2. lock_step s s1 \<and> lock_step s1 s2 \<and> lock_pc_of s2 t = Inside"
    if w: "lock_pc_of s t = EnterReceive" "lock_pc_of s (other t) = LeaveSend"
  proof -
    let ?s1 = "s\<lparr>lock_pc_of := (lock_pc_of s)(other t := LeaveReceive, t := EnterSend)\<rparr>"
    let ?s2 = "?s1\<lparr>lock_pc_of := (lock_pc_of ?s1)(other t := Outside, t := Inside)\<rparr>"
    have "lock_step s ?s1" using call_received [of s "other t"] w by simp
    moreover have "lock_step ?s1 ?s2" using call_answered [of ?s1 "other t"] by simp
    ultimately show ?thesis by fastforce
  qed
  moreover have "lock_pc_of s t = EnterReceive \<Longrightarrow>
      lock_pc_of s (other t) = LeaveSend \<or>
      lock_pc_of s (other t) = Inside \<and> lock_pc_of (leave_cmpxchg (other t) s) (other t) = LeaveSend"
    using i by (cases "lock_pc_of s (other t)") (auto simp: leave_cmpxchg_def)
  ultimately show ?thesis by blast
qed

theorem memmap_lock_progress_witness: "\<exists>s'. lock_step (enter_xchg Pager lock_init) s'"
proof -
  have "lock_step lock_init (enter_xchg Pager lock_init)" by (rule enter) (simp add: lock_init_def)
  from memmap_lock_progress [OF reach_step [OF reach_init this]] show ?thesis by blast
qed

end
