(* ===== verification/NameServer.thy ===== *)
theory NameServer
  imports L4Sys
begin

text \<open>
  The name server (\<open>names/server/src/names.c\<close>) and the client function that polls it
  (\<open>names/lib/src/names_waitfor_name.c\<close>). The table \<open>entries\<close> is a function on indices; a
  C string is the list of its characters before the terminator, so \<open>strcmp\<close> is equality.
  Output is not modelled, except \<open>names_dump\<close>, whose result is the list of the entries in the
  order they are printed.
\<close>

section \<open>State\<close>

definition NAMES_MAX_NAME_LEN :: nat where [l4_const]: "NAMES_MAX_NAME_LEN = 32"
definition NAMES_MAX_ENTRIES :: nat where [l4_const]: "NAMES_MAX_ENTRIES = 512"

record entry_t =
  e_name :: string
  e_id :: l4_threadid_t
  e_weak :: int

text \<open>
  \<open>ns_log_server\<close>: \<open>LOG_outstring\<close> is the function that uses the log server.
  \<open>ns_kernel_names\<close>: the calls of \<open>fiasco_register_thread_name\<close>, last one first.
\<close>

record names_srv =
  ns_entries :: "nat \<Rightarrow> entry_t"
  ns_use_logserver :: bool
  ns_register_thread_names :: bool
  ns_logserver_id :: l4_threadid_t
  ns_logserver_name :: string
  ns_log_server :: bool
  ns_kernel_names :: "(l4_threadid_t \<times> string) list"

section \<open>Operations\<close>

definition kernel_register_thread_name :: "l4_threadid_t \<Rightarrow> string \<Rightarrow> names_srv \<Rightarrow> names_srv" where
  "kernel_register_thread_name i name s =
     (if ns_register_thread_names s then s\<lparr>ns_kernel_names := (i, name) # ns_kernel_names s\<rparr> else s)"

definition set_entry :: "nat \<Rightarrow> entry_t \<Rightarrow> names_srv \<Rightarrow> names_srv" where
  "set_entry i e s = s\<lparr>ns_entries := (ns_entries s)(i := e)\<rparr>"

text \<open>\<open>strncpy\<close> of at most \<open>NAMES_MAX_NAME_LEN\<close> characters and the terminator.\<close>

definition stored_name :: "string \<Rightarrow> string" where
  "stored_name name = take NAMES_MAX_NAME_LEN name"

definition note_logserver :: "nat \<Rightarrow> names_srv \<Rightarrow> names_srv" where
  "note_logserver i s =
     (if ns_use_logserver s \<and> e_name (ns_entries s i) = ns_logserver_name s
      then s\<lparr>ns_logserver_id := e_id (ns_entries s i), ns_log_server := True\<rparr> else s)"

definition server_names_register :: "string \<Rightarrow> l4_threadid_t \<Rightarrow> int \<Rightarrow> names_srv \<Rightarrow> names_srv \<times> int" where
  "server_names_register name tid weak s =
     (case first_index (\<lambda>i. weak = 0 \<and> e_weak (ns_entries s i) = 0 \<and> e_name (ns_entries s i) = name)
             0 NAMES_MAX_ENTRIES of
        Some _ \<Rightarrow> (s, 0)
      | None \<Rightarrow>
          (case first_index (\<lambda>i. l4_is_invalid_id (e_id (ns_entries s i))) 0 NAMES_MAX_ENTRIES of
             None \<Rightarrow> (s, 0)
           | Some i \<Rightarrow>
               (note_logserver i (kernel_register_thread_name tid name
                  (set_entry i \<lparr>e_name = stored_name name, e_id = tid, e_weak = weak\<rparr> s)), 1)))"

definition names_register_component :: "l4_threadid_t \<Rightarrow> string \<Rightarrow> names_srv \<Rightarrow> names_srv \<times> int" where
  "names_register_component c name s = server_names_register name c 0 s"

definition names_register_thread_component ::
  "l4_threadid_t \<Rightarrow> string \<Rightarrow> l4_threadid_t \<Rightarrow> names_srv \<Rightarrow> names_srv \<times> int" where
  "names_register_thread_component c name tid s = server_names_register name tid 1 s"

text \<open>The body of the loops that delete entries: the \<open>weak\<close> flag keeps its value.\<close>

definition clear_entry :: "nat \<Rightarrow> names_srv \<Rightarrow> names_srv" where
  "clear_entry i s =
     set_entry i ((ns_entries s i)\<lparr>e_id := L4_INVALID_ID, e_name := []\<rparr>)
       (kernel_register_thread_name (e_id (ns_entries s i)) '' (deleted)'' s)"

fun clear_matching :: "(entry_t \<Rightarrow> bool) \<Rightarrow> nat \<Rightarrow> nat \<Rightarrow> names_srv \<Rightarrow> names_srv" where
  "clear_matching P i 0 s = s"
| "clear_matching P i (Suc n) s = clear_matching P (Suc i) n (if P (ns_entries s i) then clear_entry i s else s)"

definition names_unregister_thread_component ::
  "l4_threadid_t \<Rightarrow> string \<Rightarrow> l4_threadid_t \<Rightarrow> names_srv \<Rightarrow> names_srv \<times> int" where
  "names_unregister_thread_component c name tid s =
     (let s1 = (if ns_use_logserver s \<and> l4_thread_equal (ns_logserver_id s) c
                then s\<lparr>ns_log_server := False, ns_logserver_id := L4_NIL_ID\<rparr> else s);
          P = (\<lambda>e. l4_thread_equal (e_id e) tid \<and> e_name e = name)
      in (clear_matching P 0 NAMES_MAX_ENTRIES s1,
          if first_index (\<lambda>i. P (ns_entries s1 i)) 0 NAMES_MAX_ENTRIES \<noteq> None then 1 else 0))"

definition names_unregister_task_component :: "l4_threadid_t \<Rightarrow> l4_threadid_t \<Rightarrow> names_srv \<Rightarrow> names_srv \<times> int" where
  "names_unregister_task_component c tid s =
     (clear_matching (\<lambda>e. l4_tasknum_equal (e_id e) tid) 0 NAMES_MAX_ENTRIES s, 1)"

text \<open>
  The search of the two query functions: the first match that is not weak, else the first
  match that is weak (\<open>w\<close> remembers it).
\<close>

fun find_entry :: "(entry_t \<Rightarrow> bool) \<Rightarrow> (nat \<Rightarrow> entry_t) \<Rightarrow> nat \<Rightarrow> nat \<Rightarrow> nat option \<Rightarrow> nat option" where
  "find_entry P E i 0 w = w"
| "find_entry P E i (Suc n) w =
     (if P (E i)
      then if e_weak (E i) = 1 then find_entry P E (Suc i) n (if w = None then Some i else w) else Some i
      else find_entry P E (Suc i) n w)"

definition names_query_name_component :: "string option \<Rightarrow> names_srv \<Rightarrow> int \<times> l4_threadid_t option" where
  "names_query_name_component name s =
     (case name of
        None \<Rightarrow> (0, None)
      | Some n \<Rightarrow>
          (case find_entry (\<lambda>e. e_name e = n) (ns_entries s) 0 NAMES_MAX_ENTRIES None of
             None \<Rightarrow> (0, None)
           | Some i \<Rightarrow> (1, Some (e_id (ns_entries s i)))))"

definition names_query_id_component :: "l4_threadid_t \<Rightarrow> names_srv \<Rightarrow> int \<times> string option" where
  "names_query_id_component tid s =
     (case find_entry (\<lambda>e. l4_thread_equal (e_id e) tid) (ns_entries s) 0 NAMES_MAX_ENTRIES None of
        None \<Rightarrow> (0, None)
      | Some i \<Rightarrow> (1, Some (e_name (ns_entries s i))))"

definition names_query_nr_component :: "int \<Rightarrow> names_srv \<Rightarrow> (int \<times> (string \<times> l4_threadid_t) option) res" where
  "names_query_nr_component nr s =
     (if nr \<ge> int NAMES_MAX_ENTRIES then Inr (0, None)
      else if nr < 0 then Inl OutOfBounds
      else if l4_is_invalid_id (e_id (ns_entries s (nat nr))) then Inr (0, None)
      else Inr (1, Some (e_name (ns_entries s (nat nr)), e_id (ns_entries s (nat nr)))))"

definition init_entries :: "names_srv \<Rightarrow> names_srv" where
  "init_entries s =
     s\<lparr>ns_entries := (\<lambda>i. if i < NAMES_MAX_ENTRIES then (ns_entries s i)\<lparr>e_id := L4_INVALID_ID, e_name := []\<rparr>
                          else ns_entries s i)\<rparr>"

section \<open>Dumping the table\<close>

text \<open>
  The distance of an entry from the last one printed: differences of the bit fields, which
  are promoted to \<open>int\<close>, weighted by \<open>TASK_SHIFT\<close>.
\<close>

definition dump_dist :: "l4_threadid_t \<Rightarrow> l4_threadid_t \<Rightarrow> int" where
  "dump_dist i t = (uint (id_task i) - uint (id_task t)) * 2 ^ 7 + (uint (id_lthread i) - uint (id_lthread t))"

fun dump_scan :: "(nat \<Rightarrow> entry_t) \<Rightarrow> (nat \<Rightarrow> bool) \<Rightarrow> l4_threadid_t \<Rightarrow> nat \<Rightarrow> nat \<Rightarrow> nat option \<times> int \<Rightarrow> nat option" where
  "dump_scan E found t i 0 (idx, dist) = idx"
| "dump_scan E found t i (Suc n) (idx, dist) =
     dump_scan E found t (Suc i) n
       (if \<not> l4_is_invalid_id (e_id (E i)) \<and> \<not> found i \<and> 0 \<le> dump_dist (e_id (E i)) t \<and> dump_dist (e_id (E i)) t < dist
        then (Some i, dump_dist (e_id (E i)) t) else (idx, dist))"

partial_function (option) dump_loop ::
  "(nat \<Rightarrow> entry_t) \<Rightarrow> (nat \<Rightarrow> bool) \<Rightarrow> l4_threadid_t \<Rightarrow> nat list option" where
  "dump_loop E found t =
     (case dump_scan E found t 0 NAMES_MAX_ENTRIES (None, 2 ^ 20) of
        None \<Rightarrow> Some []
      | Some idx \<Rightarrow> Option.bind (dump_loop E (found(idx := True)) (e_id (E idx))) (\<lambda>r. Some (idx # r)))"

text \<open>The indices of the entries in the order they are printed.\<close>

definition names_dump_component :: "names_srv \<Rightarrow> nat list option" where
  "names_dump_component s = dump_loop (ns_entries s) (\<lambda>_. False) L4_NIL_ID"

section \<open>Waiting for a name (names_waitfor_name.c)\<close>

text \<open>
  \<open>q t\<close> is the answer of \<open>names_query_name\<close> at time \<open>t\<close> (in ms); \<open>l4_sleep\<close> advances the
  time. The result holds the time of the last query and its answer.
\<close>

partial_function (option) waitfor_loop ::
  "(int \<Rightarrow> int \<times> l4_threadid_t option) \<Rightarrow> int \<Rightarrow> int \<Rightarrow> int \<Rightarrow> (int \<times> int \<times> l4_threadid_t option) option" where
  "waitfor_loop q t rem to =
     (if rem = to \<or> fst (q t) \<noteq> 0 then Some (t, q t)
      else (let rem' = rem - to; to' = (if to < 100 then to + to else to)
            in waitfor_loop q (t + to) rem' (if to' > rem' then rem' else to')))"

definition names_waitfor_name ::
  "(int \<Rightarrow> int \<times> l4_threadid_t option) \<Rightarrow> int \<Rightarrow> int \<Rightarrow> (int \<times> int \<times> l4_threadid_t option) option" where
  "names_waitfor_name q t timeout = waitfor_loop q t timeout (if timeout \<noteq> 0 then 10 else 0)"

section \<open>Searching the table\<close>

lemma kernel_register_entries [simp]: "ns_entries (kernel_register_thread_name i n s) = ns_entries s"
  by (simp add: kernel_register_thread_name_def)

lemma note_logserver_entries [simp]: "ns_entries (note_logserver i s) = ns_entries s"
  by (simp add: note_logserver_def)

lemma set_entry_entries [simp]: "ns_entries (set_entry i e s) = (ns_entries s)(i := e)"
  by (simp add: set_entry_def)

lemma clear_entry_entries [simp]:
  "ns_entries (clear_entry i s) = (ns_entries s)(i := (ns_entries s i)\<lparr>e_id := L4_INVALID_ID, e_name := []\<rparr>)"
  by (simp add: clear_entry_def)

lemma clear_matching_entries:
  "ns_entries (clear_matching P i n s) =
     (\<lambda>k. if i \<le> k \<and> k < i + n \<and> P (ns_entries s k) then (ns_entries s k)\<lparr>e_id := L4_INVALID_ID, e_name := []\<rparr>
          else ns_entries s k)"
proof (induction P i n s rule: clear_matching.induct)
  case (2 P i n s)
  show ?case by (rule ext) (auto simp: 2 not_less_eq_eq less_Suc_eq_le)
qed (auto simp: fun_eq_iff)

text \<open>\<open>strong\<close> and \<open>weak\<close> matches of a predicate in the whole table.\<close>

definition strong_match :: "(entry_t \<Rightarrow> bool) \<Rightarrow> (nat \<Rightarrow> entry_t) \<Rightarrow> nat \<Rightarrow> bool" where
  "strong_match P E k \<longleftrightarrow> P (E k) \<and> e_weak (E k) \<noteq> 1"

lemma find_entry_gen:
  "find_entry P E i n w =
     (case first_index (strong_match P E) i n of
        Some k \<Rightarrow> Some k
      | None \<Rightarrow> (case w of Some k \<Rightarrow> Some k | None \<Rightarrow> first_index (\<lambda>k. P (E k)) i n))"
  by (induction P E i n w rule: find_entry.induct) (auto simp: strong_match_def split: option.splits)

lemma find_entry_spec:
  "find_entry P E i n None =
     (case first_index (strong_match P E) i n of Some k \<Rightarrow> Some k | None \<Rightarrow> first_index (\<lambda>k. P (E k)) i n)"
  by (simp add: find_entry_gen split: option.splits)

lemma find_entry_SomeD:
  "find_entry P E i n None = Some k \<Longrightarrow> i \<le> k \<and> k < i + n \<and> P (E k)"
  by (auto simp: find_entry_spec strong_match_def dest!: first_index_SomeD split: option.splits)

lemma find_entry_None_iff: "find_entry P E i n None = None \<longleftrightarrow> (\<forall>k. i \<le> k \<and> k < i + n \<longrightarrow> \<not> P (E k))"
proof (cases "first_index (strong_match P E) i n")
  case None
  then show ?thesis by (simp add: find_entry_spec) (simp add: first_index_None_iff)
next
  case (Some k)
  with first_index_SomeD [OF this] show ?thesis by (auto simp: find_entry_spec strong_match_def)
qed

text \<open>With one strong match it is found.\<close>

lemma find_entry_unique_strong:
  assumes "i \<le> k" "k < i + n" "strong_match P E k"
    and "\<And>j. i \<le> j \<Longrightarrow> j < i + n \<Longrightarrow> strong_match P E j \<Longrightarrow> j = k"
  shows "find_entry P E i n None = Some k"
proof -
  have "first_index (strong_match P E) i n = Some k"
    unfolding first_index_eq_Some_iff using assms by (metis order.strict_trans less_irrefl)
  then show ?thesis by (simp add: find_entry_spec)
qed

section \<open>The invariant\<close>

text \<open>
  Entries are strong or weak, stored names fit the buffer, and no name has two strong entries. The
  empty name is the mark of a deleted entry.
\<close>

definition names_inv :: "names_srv \<Rightarrow> bool" where
  "names_inv s \<longleftrightarrow>
     (\<forall>i < NAMES_MAX_ENTRIES. e_weak (ns_entries s i) \<in> {0, 1} \<and>
        length (e_name (ns_entries s i)) \<le> NAMES_MAX_NAME_LEN) \<and>
     (\<forall>i < NAMES_MAX_ENTRIES. \<forall>j < NAMES_MAX_ENTRIES.
        e_weak (ns_entries s i) = 0 \<and> e_weak (ns_entries s j) = 0 \<and>
        e_name (ns_entries s i) = e_name (ns_entries s j) \<and> e_name (ns_entries s i) \<noteq> [] \<longrightarrow> i = j)"

lemma names_invD:
  assumes "names_inv s" "i < NAMES_MAX_ENTRIES"
  shows "e_weak (ns_entries s i) = 0 \<or> e_weak (ns_entries s i) = 1"
    "length (e_name (ns_entries s i)) \<le> NAMES_MAX_NAME_LEN"
    "j < NAMES_MAX_ENTRIES \<Longrightarrow> e_weak (ns_entries s i) = 0 \<Longrightarrow> e_weak (ns_entries s j) = 0 \<Longrightarrow>
     e_name (ns_entries s i) = e_name (ns_entries s j) \<Longrightarrow> e_name (ns_entries s i) \<noteq> [] \<Longrightarrow> i = j"
  using assms unfolding names_inv_def by auto

lemma register_cases [consumes 1, case_names taken full registered]:
  assumes "server_names_register name tid weak s = (s', r)"
  obtains k where "r = 0" "s' = s" "weak = 0" "k < NAMES_MAX_ENTRIES" "e_weak (ns_entries s k) = 0"
      "e_name (ns_entries s k) = name"
  | "r = 0" "s' = s" "\<And>k. k < NAMES_MAX_ENTRIES \<Longrightarrow> \<not> l4_is_invalid_id (e_id (ns_entries s k))"
  | k where "r = 1" "k < NAMES_MAX_ENTRIES" "l4_is_invalid_id (e_id (ns_entries s k))"
      "ns_entries s' = (ns_entries s)(k := \<lparr>e_name = stored_name name, e_id = tid, e_weak = weak\<rparr>)"
      "\<And>j. weak = 0 \<Longrightarrow> j < NAMES_MAX_ENTRIES \<Longrightarrow> e_weak (ns_entries s j) = 0 \<Longrightarrow> e_name (ns_entries s j) \<noteq> name"
proof (cases "first_index (\<lambda>i. weak = 0 \<and> e_weak (ns_entries s i) = 0 \<and> e_name (ns_entries s i) = name) 0 NAMES_MAX_ENTRIES")
  case (Some k)
  have "s' = s" "r = 0" using assms unfolding server_names_register_def Some option.case by auto
  with first_index_SomeD [OF Some] show thesis by (intro that(1) [of k]) auto
next
  case None
  note free = this
  show thesis
  proof (cases "first_index (\<lambda>i. l4_is_invalid_id (e_id (ns_entries s i))) 0 NAMES_MAX_ENTRIES")
    case None
    have "s' = s" "r = 0" using assms unfolding server_names_register_def free None option.case by auto
    with None show thesis by (intro that(2)) (auto simp: first_index_None_iff)
  next
    case (Some k)
    have "r = 1" "ns_entries s' = (ns_entries s)(k := \<lparr>e_name = stored_name name, e_id = tid, e_weak = weak\<rparr>)"
      using assms unfolding server_names_register_def free Some option.case by auto
    with first_index_SomeD [OF Some] free show thesis by (intro that(3) [of k]) (auto simp: first_index_None_iff)
  qed
qed

lemma register_inv:
  assumes inv: "names_inv s" and r: "server_names_register name tid weak s = (s', r)"
    and len: "length name \<le> NAMES_MAX_NAME_LEN" and w: "weak = 0 \<or> weak = 1"
  shows "names_inv s'"
  using r
proof (cases rule: register_cases)
  case (registered k)
  have st: "stored_name name = name" using len by (simp add: stored_name_def)
  have "i = j" if "i < NAMES_MAX_ENTRIES" "j < NAMES_MAX_ENTRIES" "e_weak (ns_entries s' i) = 0" "e_weak (ns_entries s' j) = 0"
    "e_name (ns_entries s' i) = e_name (ns_entries s' j)" "e_name (ns_entries s' i) \<noteq> []" for i j
    using that registered(4) registered(5) [of i] registered(5) [of j] names_invD(3) [OF inv that(1,2)] st
    by (auto split: if_splits)
  moreover have "e_weak (ns_entries s' i) \<in> {0, 1} \<and> length (e_name (ns_entries s' i)) \<le> NAMES_MAX_NAME_LEN"
    if "i < NAMES_MAX_ENTRIES" for i
    using that registered(4) names_invD(1,2) [OF inv that] st len w by auto
  ultimately show ?thesis unfolding names_inv_def by blast
qed (use inv in simp_all)

lemma clear_matching_inv:
  assumes "names_inv s"
  shows "names_inv (clear_matching P i n s)"
  using assms unfolding names_inv_def clear_matching_entries by simp blast

section \<open>What a client of the service relies on\<close>

text \<open>
  The contract of a name service: a registration that is accepted binds the name to the id; a
  binding stays until a request removes it, makes the name resolve to the id and keeps others
  from binding it.
\<close>

locale name_service =
  fixes reg :: "'n \<Rightarrow> 'i \<Rightarrow> 's \<Rightarrow> 's \<times> bool"
    and look :: "'s \<Rightarrow> 'n \<Rightarrow> 'i option"
    and ok :: "'n \<Rightarrow> 'i \<Rightarrow> bool"
    and inv :: "'s \<Rightarrow> bool"
    and bound :: "'s \<Rightarrow> 'n \<Rightarrow> 'i \<Rightarrow> bool"
    and step :: "'op \<Rightarrow> 's \<Rightarrow> 's"
    and op_ok :: "'op \<Rightarrow> bool"
    and removes :: "'op \<Rightarrow> 'n \<Rightarrow> 'i \<Rightarrow> bool"
  assumes reg_inv: "inv s \<Longrightarrow> ok n i \<Longrightarrow> inv (fst (reg n i s))"
    and reg_bound: "ok n i \<Longrightarrow> snd (reg n i s) \<Longrightarrow> bound (fst (reg n i s)) n i"
    and reg_refused: "bound s n i \<Longrightarrow> \<not> snd (reg n j s)"
    and bound_look: "inv s \<Longrightarrow> bound s n i \<Longrightarrow> look s n = Some i"
    and step_inv: "inv s \<Longrightarrow> op_ok p \<Longrightarrow> inv (step p s)"
    and step_keeps: "bound s n i \<Longrightarrow> \<not> removes p n i \<Longrightarrow> bound (step p s) n i"
begin

lemma run_inv: "inv s \<Longrightarrow> \<forall>p \<in> set ops. op_ok p \<Longrightarrow> inv (fold step ops s)"
  by (induction ops arbitrary: s) (auto intro: step_inv)

lemma run_keeps: "bound s n i \<Longrightarrow> \<forall>p \<in> set ops. \<not> removes p n i \<Longrightarrow> bound (fold step ops s) n i"
  by (induction ops arbitrary: s) (auto intro: step_keeps)

lemma registered_resolves:
  assumes "inv s" "ok n i" "snd (reg n i s)" "\<forall>p \<in> set ops. op_ok p \<and> \<not> removes p n i"
  shows "look (fold step ops (fst (reg n i s))) n = Some i"
  using assms by (intro bound_look run_inv run_keeps reg_inv reg_bound) auto

lemma registered_once:
  assumes "ok n i" "snd (reg n i s)" "\<forall>p \<in> set ops. \<not> removes p n i"
  shows "\<not> snd (reg n j (fold step ops (fst (reg n i s))))"
  using assms by (intro reg_refused [where i = i] run_keeps reg_bound) auto

end

text \<open>The server provides it for strong registrations of valid threads under names that are not empty and fit
  the buffer.\<close>

definition reg_strong :: "string \<Rightarrow> l4_threadid_t \<Rightarrow> names_srv \<Rightarrow> names_srv \<times> bool" where
  "reg_strong n i s = (case names_register_component i n s of (s', r) \<Rightarrow> (s', r \<noteq> 0))"

definition look_name :: "names_srv \<Rightarrow> string \<Rightarrow> l4_threadid_t option" where
  "look_name s n = snd (names_query_name_component (Some n) s)"

definition name_ok :: "string \<Rightarrow> l4_threadid_t \<Rightarrow> bool" where
  "name_ok n i \<longleftrightarrow> n \<noteq> [] \<and> length n \<le> NAMES_MAX_NAME_LEN \<and> i \<noteq> L4_INVALID_ID"

definition bound_strong :: "names_srv \<Rightarrow> string \<Rightarrow> l4_threadid_t \<Rightarrow> bool" where
  "bound_strong s n i \<longleftrightarrow> n \<noteq> [] \<and> i \<noteq> L4_INVALID_ID \<and>
     (\<exists>k < NAMES_MAX_ENTRIES. e_weak (ns_entries s k) = 0 \<and> e_name (ns_entries s k) = n \<and> e_id (ns_entries s k) = i)"

lemma bound_strong_look:
  assumes inv: "names_inv s" and b: "bound_strong s n i"
  shows "look_name s n = Some i"
proof -
  obtain k where k: "k < NAMES_MAX_ENTRIES" "e_weak (ns_entries s k) = 0" "e_name (ns_entries s k) = n"
    "e_id (ns_entries s k) = i" and n: "n \<noteq> []"
    using b by (auto simp: bound_strong_def)
  have "find_entry (\<lambda>e. e_name e = n) (ns_entries s) 0 NAMES_MAX_ENTRIES None = Some k"
  proof (rule find_entry_unique_strong)
    fix j assume "j < 0 + NAMES_MAX_ENTRIES" and j: "strong_match (\<lambda>e. e_name e = n) (ns_entries s) j"
    then have jm: "j < NAMES_MAX_ENTRIES" by simp
    from j names_invD(1) [OF inv jm] have "e_weak (ns_entries s j) = 0" by (auto simp: strong_match_def)
    then show "j = k" using names_invD(3) [OF inv jm k(1)] j k n by (auto simp: strong_match_def)
  qed (use k in \<open>auto simp: strong_match_def\<close>)
  then show ?thesis using k by (simp add: look_name_def names_query_name_component_def)
qed

lemma reg_strong_bound:
  assumes "name_ok n i" "snd (reg_strong n i s)"
  shows "bound_strong (fst (reg_strong n i s)) n i"
proof -
  obtain s' r where e: "server_names_register n i 0 s = (s', r)" by fastforce
  then have r: "r \<noteq> 0" using assms(2) by (simp add: reg_strong_def names_register_component_def)
  from e have "bound_strong s' n i"
    using assms(1) r by (cases rule: register_cases) (auto simp: bound_strong_def name_ok_def stored_name_def)
  then show ?thesis using e by (simp add: reg_strong_def names_register_component_def)
qed

lemma register_keeps:
  assumes b: "bound_strong s m j" and e: "server_names_register n i w s = (s', r)"
  shows "bound_strong s' m j"
  using e
proof (cases rule: register_cases)
  case (registered k)
  obtain l where l: "l < NAMES_MAX_ENTRIES" "e_weak (ns_entries s l) = 0" "e_name (ns_entries s l) = m"
    "e_id (ns_entries s l) = j" "m \<noteq> []" "j \<noteq> L4_INVALID_ID" using b by (auto simp: bound_strong_def)
  have "l \<noteq> k" using l registered(3) by (auto simp: l4_is_invalid_id_def L4_INVALID_ID_def)
  then show ?thesis using l registered(4) by (auto simp: bound_strong_def)
qed (use b in simp_all)

lemma clear_matching_keeps:
  assumes "bound_strong s m j" "\<And>e. e_id e = j \<Longrightarrow> e_name e = m \<Longrightarrow> \<not> P e"
  shows "bound_strong (clear_matching P i n s) m j"
  using assms unfolding bound_strong_def clear_matching_entries by auto

lemma reg_strong_refused:
  assumes "bound_strong s n j"
  shows "\<not> snd (reg_strong n i s)"
proof -
  obtain s' r where e: "server_names_register n i 0 s = (s', r)" by fastforce
  from e have "r = 0" using assms by (cases rule: register_cases) (auto simp: bound_strong_def)
  then show ?thesis using e by (simp add: reg_strong_def names_register_component_def)
qed

lemma reg_strong_inv: "names_inv s \<Longrightarrow> name_ok n i \<Longrightarrow> names_inv (fst (reg_strong n i s))"
  by (cases "server_names_register n i 0 s")
    (auto simp: reg_strong_def names_register_component_def name_ok_def intro: register_inv)

text \<open>The requests that change the table, with the id \<open>c\<close> of the sender.\<close>

datatype names_op =
    Register l4_threadid_t string
  | RegisterThread l4_threadid_t string l4_threadid_t
  | UnregisterThread l4_threadid_t string l4_threadid_t
  | UnregisterTask l4_threadid_t l4_threadid_t

fun names_step :: "names_op \<Rightarrow> names_srv \<Rightarrow> names_srv" where
  "names_step (Register c n) s = fst (names_register_component c n s)"
| "names_step (RegisterThread c n i) s = fst (names_register_thread_component c n i s)"
| "names_step (UnregisterThread c n i) s = fst (names_unregister_thread_component c n i s)"
| "names_step (UnregisterTask c i) s = fst (names_unregister_task_component c i s)"

text \<open>The interface definition limits the length of names.\<close>

fun names_op_ok :: "names_op \<Rightarrow> bool" where
  "names_op_ok (Register c n) = (length n \<le> NAMES_MAX_NAME_LEN)"
| "names_op_ok (RegisterThread c n i) = (length n \<le> NAMES_MAX_NAME_LEN)"
| "names_op_ok _ = True"

fun names_removes :: "names_op \<Rightarrow> string \<Rightarrow> l4_threadid_t \<Rightarrow> bool" where
  "names_removes (UnregisterThread c m j) n i = (m = n \<and> j = i)"
| "names_removes (UnregisterTask c j) n i = (id_task j = id_task i)"
| "names_removes _ n i = False"

lemma names_inv_entries: "ns_entries s' = ns_entries s \<Longrightarrow> names_inv s' = names_inv s"
  by (simp add: names_inv_def)

lemma bound_strong_entries: "ns_entries s' = ns_entries s \<Longrightarrow> bound_strong s' = bound_strong s"
  by (simp add: bound_strong_def fun_eq_iff)

lemma names_step_inv: "names_inv s \<Longrightarrow> names_op_ok p \<Longrightarrow> names_inv (names_step p s)"
proof (cases p)
  case (Register c n)
  then show "names_inv s \<Longrightarrow> names_op_ok p \<Longrightarrow> ?thesis"
    by (cases "server_names_register n c 0 s") (auto simp: names_register_component_def intro: register_inv)
next
  case (RegisterThread c n i)
  then show "names_inv s \<Longrightarrow> names_op_ok p \<Longrightarrow> ?thesis"
    by (cases "server_names_register n i 1 s") (auto simp: names_register_thread_component_def intro: register_inv)
qed (auto simp: names_unregister_thread_component_def names_unregister_task_component_def Let_def
       intro!: clear_matching_inv intro: names_inv_entries [THEN iffD2])

lemma names_step_keeps: "bound_strong s n i \<Longrightarrow> \<not> names_removes p n i \<Longrightarrow> bound_strong (names_step p s) n i"
proof (cases p)
  case (Register c m)
  then show "bound_strong s n i \<Longrightarrow> ?thesis"
    by (cases "server_names_register m c 0 s") (auto simp: names_register_component_def intro: register_keeps)
next
  case (RegisterThread c m j)
  then show "bound_strong s n i \<Longrightarrow> ?thesis"
    by (cases "server_names_register m j 1 s") (auto simp: names_register_thread_component_def intro: register_keeps)
next
  case (UnregisterThread c m j)
  define s1 where "s1 = (if ns_use_logserver s \<and> l4_thread_equal (ns_logserver_id s) c
    then s\<lparr>ns_log_server := False, ns_logserver_id := L4_NIL_ID\<rparr> else s)"
  have b: "bound_strong s1 = bound_strong s" by (rule bound_strong_entries) (simp add: s1_def)
  assume "bound_strong s n i" "\<not> names_removes p n i"
  then have "bound_strong (clear_matching (\<lambda>e. l4_thread_equal (e_id e) j \<and> e_name e = m) 0 NAMES_MAX_ENTRIES s1) n i"
    using UnregisterThread b by (intro clear_matching_keeps) (auto simp: l4_thread_equal_def)
  then show ?thesis unfolding UnregisterThread by (simp add: names_unregister_thread_component_def Let_def s1_def)
qed (auto simp: names_unregister_task_component_def l4_tasknum_equal_def intro!: clear_matching_keeps)

interpretation names: name_service reg_strong look_name name_ok names_inv bound_strong names_step names_op_ok names_removes
  by unfold_locales
    (auto intro: reg_strong_inv reg_strong_bound bound_strong_look names_step_inv names_step_keeps dest: reg_strong_refused)

section \<open>Dump\<close>

definition dump_key :: "l4_threadid_t \<Rightarrow> int" where
  "dump_key i = uint (id_task i) * 128 + uint (id_lthread i)"

lemma dump_dist_key: "dump_dist i t = dump_key i - dump_key t"
  by (simp add: dump_dist_def dump_key_def algebra_simps)

lemma dump_key_bounds: "0 \<le> dump_key i" "dump_key i < 2 ^ 20"
proof -
  have "uint (id_task i) < 2048" using id_task_bound [of i] unfolding unat_eq_nat_uint by linarith
  moreover have "uint (id_lthread i) \<le> 127"
    using word_and_le_right [of "drop_bit 10 i" "0x7F"] by (simp add: id_lthread_def word_le_def)
  ultimately show "dump_key i < 2 ^ 20" by (simp add: dump_key_def)
qed (simp add: dump_key_def)

definition dump_cand :: "(nat \<Rightarrow> entry_t) \<Rightarrow> (nat \<Rightarrow> bool) \<Rightarrow> nat \<Rightarrow> bool" where
  "dump_cand E found k \<longleftrightarrow> \<not> l4_is_invalid_id (e_id (E k)) \<and> \<not> found k"

definition dump_range :: "(nat \<Rightarrow> entry_t) \<Rightarrow> (nat \<Rightarrow> bool) \<Rightarrow> l4_threadid_t \<Rightarrow> nat \<Rightarrow> nat \<Rightarrow> nat set" where
  "dump_range E found t i n =
     {k. i \<le> k \<and> k < i + n \<and> dump_cand E found k \<and> dump_key t \<le> dump_key (e_id (E k))}"

lemma dump_range_Suc:
  "dump_range E found t i (Suc n) =
     (if dump_cand E found i \<and> dump_key t \<le> dump_key (e_id (E i)) then {i} else {}) \<union> dump_range E found t (Suc i) n"
proof (rule set_eqI)
  fix k show "k \<in> dump_range E found t i (Suc n) \<longleftrightarrow> k \<in> (if dump_cand E found i \<and> dump_key t \<le> dump_key (e_id (E i))
      then {i} else {}) \<union> dump_range E found t (Suc i) n"
    by (cases "k = i") (auto simp: dump_range_def)
qed

lemma dump_scan_spec:
  "dump_scan E found t i n (idx, dist) = r \<Longrightarrow>
     r = idx \<and> (\<forall>k \<in> dump_range E found t i n. dist \<le> dump_key (e_id (E k)) - dump_key t) \<or>
     (\<exists>j \<in> dump_range E found t i n. r = Some j \<and> dump_key (e_id (E j)) - dump_key t < dist \<and>
          (\<forall>k \<in> dump_range E found t i n. dump_key (e_id (E j)) \<le> dump_key (e_id (E k))))"
proof (induction n arbitrary: i idx dist)
  case (Suc n)
  let ?K = "\<lambda>k. dump_key (e_id (E k))" and ?R = "dump_range E found t (Suc i) n"
  show ?case
  proof (cases "dump_cand E found i \<and> dump_key t \<le> ?K i \<and> ?K i - dump_key t < dist")
    case True
    then have R: "dump_range E found t i (Suc n) = insert i ?R" by (simp add: dump_range_Suc)
    have "dump_scan E found t (Suc i) n (Some i, ?K i - dump_key t) = r"
      using True Suc.prems by (simp add: dump_cand_def dump_dist_key)
    from Suc.IH [OF this] show ?thesis
    proof
      assume "r = Some i \<and> (\<forall>k \<in> ?R. ?K i - dump_key t \<le> ?K k - dump_key t)"
      then show ?thesis using True unfolding R by auto
    next
      assume "\<exists>j \<in> ?R. r = Some j \<and> ?K j - dump_key t < ?K i - dump_key t \<and> (\<forall>k \<in> ?R. ?K j \<le> ?K k)"
      then show ?thesis using True unfolding R by force
    qed
  next
    case False
    then have R: "\<forall>k \<in> dump_range E found t i (Suc n) - ?R. dist \<le> ?K k - dump_key t" "?R \<subseteq> dump_range E found t i (Suc n)"
      by (auto simp: dump_range_Suc)
    have "dump_scan E found t (Suc i) n (idx, dist) = r"
      using False Suc.prems by (auto simp: dump_cand_def dump_dist_key split: if_splits)
    from Suc.IH [OF this] show ?thesis
    proof
      assume "r = idx \<and> (\<forall>k \<in> ?R. dist \<le> ?K k - dump_key t)"
      then show ?thesis using R by blast
    next
      assume "\<exists>j \<in> ?R. r = Some j \<and> ?K j - dump_key t < dist \<and> (\<forall>k \<in> ?R. ?K j \<le> ?K k)"
      then obtain j where j: "j \<in> ?R" "r = Some j" "?K j - dump_key t < dist" "\<forall>k \<in> ?R. ?K j \<le> ?K k" by blast
      have "?K j \<le> ?K k" if "k \<in> dump_range E found t i (Suc n)" for k
        using that j(3,4) R(1) by (cases "k \<in> ?R") (auto, force)
      then show ?thesis using j R(2) by blast
    qed
  qed
qed (simp add: dump_range_def)

lemma dump_scan_top:
  assumes "\<And>k. k < NAMES_MAX_ENTRIES \<Longrightarrow> dump_cand E found k \<Longrightarrow> dump_key t \<le> dump_key (e_id (E k))"
  shows "(case dump_scan E found t 0 NAMES_MAX_ENTRIES (None, 2 ^ 20) of
      None \<Rightarrow> \<forall>k < NAMES_MAX_ENTRIES. \<not> dump_cand E found k
    | Some j \<Rightarrow> j < NAMES_MAX_ENTRIES \<and> dump_cand E found j \<and>
        (\<forall>k < NAMES_MAX_ENTRIES. dump_cand E found k \<longrightarrow> dump_key (e_id (E j)) \<le> dump_key (e_id (E k))))"
proof -
  have "\<not> 2 ^ 20 \<le> dump_key a - dump_key b" for a b using dump_key_bounds [of a] dump_key_bounds [of b] by linarith
  moreover have "dump_range E found t 0 NAMES_MAX_ENTRIES = {k. k < NAMES_MAX_ENTRIES \<and> dump_cand E found k}"
    using assms by (auto simp: dump_range_def)
  ultimately show ?thesis using dump_scan_spec [OF refl, of E found t 0 NAMES_MAX_ENTRIES None "2 ^ 20"]
    by (auto split: option.splits)
qed

lemma dump_loop_spec:
  assumes "\<And>k. k < NAMES_MAX_ENTRIES \<Longrightarrow> dump_cand E found k \<Longrightarrow> dump_key t \<le> dump_key (e_id (E k))"
  shows "\<exists>xs. dump_loop E found t = Some xs \<and> distinct xs \<and> set xs = {k. k < NAMES_MAX_ENTRIES \<and> dump_cand E found k} \<and>
           sorted (map (\<lambda>k. dump_key (e_id (E k))) xs)"
  using assms
proof (induction "card {k. k < NAMES_MAX_ENTRIES \<and> dump_cand E found k}" arbitrary: found t rule: less_induct)
  case less
  let ?C = "\<lambda>found. {k. k < NAMES_MAX_ENTRIES \<and> dump_cand E found k}"
  show ?case
  proof (cases "dump_scan E found t 0 NAMES_MAX_ENTRIES (None, 2 ^ 20)")
    case None
    with dump_scan_top [of E found t, OF less.prems] have "?C found = {}" by auto
    moreover have "dump_loop E found t = Some []" by (subst dump_loop.simps) (simp only: None option.case)
    ultimately show ?thesis by simp
  next
    case (Some j)
    with dump_scan_top [of E found t, OF less.prems]
    have j: "j < NAMES_MAX_ENTRIES" "dump_cand E found j"
      "\<And>k. k < NAMES_MAX_ENTRIES \<Longrightarrow> dump_cand E found k \<Longrightarrow> dump_key (e_id (E j)) \<le> dump_key (e_id (E k))" by auto
    let ?f = "found(j := True)"
    have C: "?C found = insert j (?C ?f)" and nj: "j \<notin> ?C ?f" using j by (auto simp: dump_cand_def)
    have lt: "card (?C ?f) < card (?C found)" unfolding C using nj by simp
    have "dump_key (e_id (E j)) \<le> dump_key (e_id (E k))" if "k < NAMES_MAX_ENTRIES" "dump_cand E ?f k" for k
      using j(3) [OF that(1)] that(2) by (auto simp: dump_cand_def split: if_splits)
    from less.hyps [OF lt this] obtain xs where
      xs: "dump_loop E ?f (e_id (E j)) = Some xs" "distinct xs" "set xs = ?C ?f" "sorted (map (\<lambda>k. dump_key (e_id (E k))) xs)"
      by blast
    have "dump_loop E found t = Some (j # xs)" by (subst dump_loop.simps) (simp only: Some option.case xs(1) bind.bind_lunit)
    moreover have "dump_key (e_id (E j)) \<le> dump_key (e_id (E k))" if "k \<in> set xs" for k
      using that xs(3) j(3) C by auto
    ultimately show ?thesis using xs C nj by auto
  qed
qed


section \<open>Waiting\<close>

text \<open>
  From the second round on \<open>0 < to \<le> rem\<close> holds and \<open>to \<le> 160\<close>: the loop ends, and when it gives
  up at most 160 ms of the timeout are left.
\<close>

definition wait_step :: "int \<Rightarrow> int \<Rightarrow> bool" where
  "wait_step rem to \<longleftrightarrow> 0 < to \<and> to \<le> rem \<and> (to = rem \<and> to \<le> 160 \<or> to \<in> {10, 20, 40, 80, 160})"

lemma waitfor_loop_spec:
  "wait_step rem to \<Longrightarrow>
   \<exists>t'. waitfor_loop q t rem to = Some (t', q t') \<and> t \<le> t' \<and> t' < t + rem \<and>
        (fst (q t') = 0 \<longrightarrow> t + rem - 160 \<le> t')"
proof (induction "nat rem" arbitrary: t rem to rule: less_induct)
  case less
  show ?case
  proof (cases "rem = to \<or> fst (q t) \<noteq> 0")
    case True
    then have "waitfor_loop q t rem to = Some (t, q t)" by (subst waitfor_loop.simps) simp
    then show ?thesis using less.prems True by (auto simp: wait_step_def)
  next
    case False
    let ?r = "rem - to" and ?to = "if to < 100 then to + to else to"
    let ?n = "if ?to > ?r then ?r else ?to"
    have n: "nat ?r < nat rem" "wait_step ?r ?n" using less.prems False by (auto simp: wait_step_def)
    from less.hyps [OF n, of "t + to"] obtain t' where t': "waitfor_loop q (t + to) ?r ?n = Some (t', q t')" "t + to \<le> t'"
      "t' < t + to + ?r" "fst (q t') = 0 \<longrightarrow> t + to + ?r - 160 \<le> t'" by blast
    have "waitfor_loop q t rem to = Some (t', q t')"
      by (subst waitfor_loop.simps) (use False t'(1) in \<open>simp add: Let_def\<close>)
    then show ?thesis using t' less.prems by (auto simp: wait_step_def)
  qed
qed

text \<open>A timeout below 10 that is not 0: one sleep of 10 ms.\<close>

lemma waitfor_short:
  assumes "timeout < 10" "timeout \<noteq> 0"
  shows "names_waitfor_name q t timeout = (if fst (q t) \<noteq> 0 then Some (t, q t) else Some (t + 10, q (t + 10)))"
proof -
  have r: "waitfor_loop q (t + 10) r r = Some (t + 10, q (t + 10))" for r by (subst waitfor_loop.simps) simp
  show ?thesis using assms unfolding names_waitfor_name_def by (subst waitfor_loop.simps) (simp add: Let_def r)
qed

section \<open>Properties\<close>

text \<open>
  C35: An accepted strong registration holds until it is removed: whatever other requests the server
  handles (registrations, strong or weak, of any name; removals of other names, threads and tasks), the
  name resolves to the thread that registered it, and no other thread can register the name.
\<close>

theorem names_registration_holds:
  assumes "names_inv s" "name_ok n i" "names_register_component i n s = (s1, r)" "r \<noteq> 0"
    and "\<forall>p \<in> set ops. names_op_ok p \<and> \<not> names_removes p n i"
  shows "names_query_name_component (Some n) (fold names_step ops s1) = (1, Some i) \<and>
         snd (names_register_component j n (fold names_step ops s1)) = 0"
proof -
  have r: "reg_strong n i s = (s1, True)" using assms(3,4) by (simp add: reg_strong_def)
  have "look_name (fold names_step ops s1) n = Some i" "\<not> snd (reg_strong n j (fold names_step ops s1))"
    using names.registered_resolves [OF assms(1,2) _ assms(5)] names.registered_once [OF assms(2), of s ops j] assms(5) r
    by auto
  then show ?thesis
    by (auto simp: look_name_def reg_strong_def names_query_name_component_def split: option.splits prod.splits)
qed

definition names_boot :: names_srv where
  "names_boot = init_entries \<lparr>ns_entries = (\<lambda>_. \<lparr>e_name = [], e_id = 0, e_weak = 0\<rparr>), ns_use_logserver = True,
     ns_register_thread_names = True, ns_logserver_id = 0, ns_logserver_name = ''stdlogV05'', ns_log_server = False,
     ns_kernel_names = []\<rparr>"

lemma names_boot_inv: "names_inv names_boot"
  by (simp add: names_inv_def names_boot_def init_entries_def)

lemma first_index_first: "0 < n \<Longrightarrow> P i \<Longrightarrow> first_index P i n = Some i"
  by (cases n) auto

lemma register_boot:
  assumes "name_ok n i"
  shows "\<exists>s1. names_register_component i n names_boot = (s1, 1)"
proof -
  have "first_index (\<lambda>k. l4_is_invalid_id (e_id (ns_entries names_boot k))) 0 NAMES_MAX_ENTRIES = Some 0"
    by (rule first_index_first) (simp_all add: names_boot_def init_entries_def l4_is_invalid_id_def L4_INVALID_ID_def NAMES_MAX_ENTRIES_def)
  moreover have "first_index (\<lambda>k. (0::int) = 0 \<and> e_weak (ns_entries names_boot k) = 0 \<and> e_name (ns_entries names_boot k) = n) 0
      NAMES_MAX_ENTRIES = None"
    using assms by (auto simp: first_index_None_iff names_boot_def init_entries_def name_ok_def)
  ultimately show ?thesis unfolding names_register_component_def server_names_register_def by simp
qed

theorem names_registration_holds_witness:
  "\<exists>s1. names_query_name_component (Some ''log'') (fold names_step [Register 8 ''log'', UnregisterThread 7 ''log'' 8] s1) = (1, Some 7)"
proof -
  have ok: "name_ok ''log'' 7" by (simp add: name_ok_def NAMES_MAX_NAME_LEN_def L4_INVALID_ID_def)
  obtain s1 where s1: "names_register_component 7 ''log'' names_boot = (s1, 1)" using register_boot [OF ok] by blast
  show ?thesis
    using names_registration_holds [OF names_boot_inv ok s1, of "[Register 8 ''log'', UnregisterThread 7 ''log'' 8]"]
    by (auto simp: NAMES_MAX_NAME_LEN_def)
qed

text \<open>
  The removals do what they promise: after \<open>unregister_task\<close> no valid entry belongs to the task, after
  \<open>unregister_thread\<close> no entry has both the name and the id, its answer tells whether there was one, and in
  both cases entries that do not match are as before.
\<close>

theorem names_unregister_spec:
  assumes "i \<noteq> L4_INVALID_ID" "k < NAMES_MAX_ENTRIES"
  shows "(\<not> l4_is_invalid_id (e_id (ns_entries (fst (names_unregister_task_component c i s)) k)) \<longrightarrow>
            id_task (e_id (ns_entries (fst (names_unregister_task_component c i s)) k)) \<noteq> id_task i) \<and>
         (id_task (e_id (ns_entries s k)) \<noteq> id_task i \<longrightarrow>
            ns_entries (fst (names_unregister_task_component c i s)) k = ns_entries s k) \<and>
         \<not> (e_id (ns_entries (fst (names_unregister_thread_component c n i s)) k) = i \<and>
            e_name (ns_entries (fst (names_unregister_thread_component c n i s)) k) = n) \<and>
         (\<not> (e_id (ns_entries s k) = i \<and> e_name (ns_entries s k) = n) \<longrightarrow>
            ns_entries (fst (names_unregister_thread_component c n i s)) k = ns_entries s k) \<and>
         (snd (names_unregister_thread_component c n i s) = 1 \<longleftrightarrow>
            (\<exists>j < NAMES_MAX_ENTRIES. e_id (ns_entries s j) = i \<and> e_name (ns_entries s j) = n))"
proof -
  let ?P = "\<lambda>j. l4_thread_equal (e_id (ns_entries s j)) i \<and> e_name (ns_entries s j) = n"
  have "first_index ?P 0 NAMES_MAX_ENTRIES = None \<longleftrightarrow> (\<forall>j < NAMES_MAX_ENTRIES. \<not> ?P j)" by (simp add: first_index_None_iff)
  then show ?thesis
    using assms
    by (auto simp: names_unregister_task_component_def names_unregister_thread_component_def clear_matching_entries
        Let_def l4_tasknum_equal_def l4_thread_equal_def l4_is_invalid_id_def L4_INVALID_ID_def)
qed

theorem names_unregister_spec_witness:
  "\<not> (e_id (ns_entries (fst (names_unregister_thread_component 7 ''log'' 7 names_boot)) 3) = 7 \<and>
      e_name (ns_entries (fst (names_unregister_thread_component 7 ''log'' 7 names_boot)) 3) = ''log'')"
  using names_unregister_spec [of 7 3 7 names_boot "''log''"] by (simp add: L4_INVALID_ID_def NAMES_MAX_ENTRIES_def)

text \<open>
  \<open>names_dump\<close> ends and prints every valid entry exactly once, ordered by task and thread number.
\<close>

theorem names_dump_spec:
  "\<exists>xs. names_dump_component s = Some xs \<and> distinct xs \<and>
     set xs = {k. k < NAMES_MAX_ENTRIES \<and> \<not> l4_is_invalid_id (e_id (ns_entries s k))} \<and>
     sorted (map (\<lambda>k. uint (id_task (e_id (ns_entries s k))) * 128 + uint (id_lthread (e_id (ns_entries s k)))) xs)"
proof -
  have nil: "dump_key L4_NIL_ID = 0" by (simp add: dump_key_def L4_NIL_ID_def id_task_def id_lthread_def)
  then have "dump_key L4_NIL_ID \<le> dump_key x" for x using dump_key_bounds(1) [of x] by simp
  from dump_loop_spec [of "ns_entries s" "\<lambda>_. False" L4_NIL_ID, OF this] show ?thesis
    by (simp add: names_dump_component_def dump_cand_def dump_key_def)
qed

text \<open>
  \<open>names_waitfor_name\<close> returns, after the number of milliseconds allowed at most (10 for shorter
  timeouts), with the answer of its last query; it gives up only when at most 160 ms of the timeout are left. A
  name that is registered from then on is therefore found.
\<close>

theorem names_waitfor_name_returns:
  "\<exists>t'. names_waitfor_name q t timeout = Some (t', q t') \<and> t \<le> t' \<and> t' \<le> t + max 10 timeout \<and>
     ((\<forall>u \<ge> t + timeout - 160. u \<ge> t \<longrightarrow> fst (q u) \<noteq> 0) \<longrightarrow> fst (q t') \<noteq> 0)"
proof -
  consider "timeout = 0" | "timeout < 10" "timeout \<noteq> 0" | "10 \<le> timeout" by linarith
  then show ?thesis
  proof cases
    case 1
    then have "names_waitfor_name q t timeout = Some (t, q t)"
      unfolding names_waitfor_name_def by (subst waitfor_loop.simps) simp
    then show ?thesis using 1 by auto
  next
    case 2
    then show ?thesis by (auto simp: waitfor_short)
  next
    case 3
    then have "wait_step timeout 10" by (simp add: wait_step_def)
    from waitfor_loop_spec [OF this, of q t] 3 show ?thesis unfolding names_waitfor_name_def by force
  qed
qed

theorem names_waitfor_name_returns_witness:
  "\<exists>t'. names_waitfor_name (\<lambda>u. if u < 300 then (0, None) else (1, Some 7)) 0 500 = Some (t', 1, Some 7)"
proof -
  let ?q = "\<lambda>u :: int. if u < 300 then (0 :: int, None) else (1, Some (7 :: l4_threadid_t))"
  from names_waitfor_name_returns [of ?q 0 500] obtain t' where
    t': "names_waitfor_name ?q 0 500 = Some (t', ?q t')" "fst (?q t') \<noteq> 0" by auto
  then show ?thesis by (auto split: if_splits)
qed

section \<open>Observations\<close>

text \<open>A negative number indexes before the table.\<close>

lemma query_nr_negative: "nr < 0 \<Longrightarrow> names_query_nr_component nr s = Inl OutOfBounds"
  by (simp add: names_query_nr_component_def NAMES_MAX_ENTRIES_def)

text \<open>The empty name is found as long as one entry is free; the answer is then an invalid id.\<close>

lemma query_empty_name: "names_query_name_component (Some []) names_boot = (1, Some L4_INVALID_ID)"
proof -
  have "find_entry (\<lambda>e. e_name e = []) (ns_entries names_boot) 0 512 None = Some 0"
    by (simp add: names_boot_def init_entries_def NAMES_MAX_ENTRIES_def numeral_eq_Suc del: fun_upd_apply)
  then show ?thesis
    by (simp add: names_query_name_component_def NAMES_MAX_ENTRIES_def) (simp add: names_boot_def init_entries_def NAMES_MAX_ENTRIES_def)
qed

text \<open>\<open>unregister_task\<close> reports success also when it found nothing.\<close>

lemma unregister_task_always_1: "snd (names_unregister_task_component c i s) = 1"
  by (simp add: names_unregister_task_component_def)

end
