(* ===== verification/Base64.thy ===== *)
theory Base64
  imports L4Prelude
begin

text \<open>
  The base64 functions of \<open>l4util/lib/src/base64.c\<close>. Bytes are 8-bit words. The functions write their
  result through an index into a buffer of fixed size; a write behind its end is \<open>OutOfBounds\<close>. The
  result is the text before the terminator. A failing \<open>malloc\<close> is not modelled (the code does not test for it).
\<close>

section \<open>Tables\<close>

definition cb64 :: "u8 list" where
  "cb64 = map of_char ''ABCDEFGHIJKLMNOPQRSTUVWXYZabcdefghijklmnopqrstuvwxyz0123456789+/''"

definition cd64 :: "u8 list" where
  "cd64 = map of_char (''|$$$}rstuvwxyz{$$$$$$$>?@ABCDEFGHIJKLMNOPQRSTUVW$$$$$$XYZ['' @ [CHR 0x5C] @ '']^_`abcdefghijklmnopq'')"

section \<open>Blocks\<close>

definition base64_encodeblock :: "u8 \<Rightarrow> u8 \<Rightarrow> u8 \<Rightarrow> nat \<Rightarrow> u8 list" where
  "base64_encodeblock in0 in1 in2 len =
     [cb64 ! unat (drop_bit 2 in0),
      cb64 ! unat (push_bit 4 (in0 AND 0x03) OR drop_bit 4 (in1 AND 0xf0)),
      if len > 1 then cb64 ! unat (push_bit 2 (in1 AND 0x0f) OR drop_bit 6 (in2 AND 0xc0)) else 61,
      if len > 2 then cb64 ! unat (in2 AND 0x3f) else 61]"

definition base64_decodeblock :: "(nat \<Rightarrow> u8) \<Rightarrow> u8 list" where
  "base64_decodeblock inn =
     [push_bit 2 (inn 0) OR drop_bit 4 (inn 1), push_bit 4 (inn 1) OR drop_bit 2 (inn 2),
      (push_bit 6 (inn 2) AND 0xc0) OR inn 3]"

section \<open>The buffer\<close>

definition put_bytes :: "nat \<Rightarrow> u8 list \<Rightarrow> u8 list \<Rightarrow> u8 list res" where
  "put_bytes cap buf bs = (if length buf + length bs \<le> cap then Inr (buf @ bs) else Inl OutOfBounds)"

text \<open>\<open>temp[out_count]=0\<close>\<close>

definition put_end :: "nat \<Rightarrow> u8 list \<Rightarrow> u8 list res" where
  "put_end cap buf = (if length buf < cap then Inr buf else Inl OutOfBounds)"

section \<open>Encoding\<close>

fun encode_loop :: "nat \<Rightarrow> u8 list \<Rightarrow> u8 list \<Rightarrow> u8 list res" where
  "encode_loop cap [] buf = put_end cap buf"
| "encode_loop cap [a] buf = bind_res (put_bytes cap buf (base64_encodeblock a 0 0 1)) (encode_loop cap [])"
| "encode_loop cap [a, b] buf = bind_res (put_bytes cap buf (base64_encodeblock a b 0 2)) (encode_loop cap [])"
| "encode_loop cap (a # b # c # xs) buf =
     bind_res (put_bytes cap buf (base64_encodeblock a b c 3)) (encode_loop cap xs)"

text \<open>\<open>malloc(in_size*2)\<close>, computed in \<open>unsigned int\<close>\<close>

definition base64_encode :: "u8 list \<Rightarrow> u8 list res" where
  "base64_encode infile = encode_loop (unat (of_nat (length infile) * 2 :: u32)) infile []"

section \<open>Decoding\<close>

text \<open>The value of a character plus 1, or 0 for characters that do not count.\<close>

definition d64 :: "u8 \<Rightarrow> u8" where
  "d64 c =
     (let v = (if c < 43 \<or> c > 122 then 0 else cd64 ! unat (c - 43))
      in if v \<noteq> 0 then (if v = of_char CHR ''$'' then 0 else v - 61) else v)"

text \<open>The inner \<open>while\<close>: the first character that counts, and what is left of the input.\<close>

fun fetch :: "u8 list \<Rightarrow> u8 \<times> u8 list" where
  "fetch [] = (0, [])"
| "fetch (c # cs) = (if d64 c = 0 then fetch cs else (d64 c, cs))"

lemma fetch_shorter [simp]: "length (snd (fetch cs)) \<le> length cs"
  by (induction cs) auto

text \<open>The \<open>for\<close> loop, with the number of rounds left: up to four characters into the array \<open>in\<close>.\<close>

fun gather :: "nat \<Rightarrow> u8 list \<Rightarrow> (nat \<Rightarrow> u8) \<Rightarrow> nat \<Rightarrow> u8 list \<times> (nat \<Rightarrow> u8) \<times> nat" where
  "gather 0 cs inn len = (cs, inn, len)"
| "gather (Suc k) cs inn len =
     (if cs = [] then (cs, inn, len)
      else (case fetch cs of
              (v, cs') \<Rightarrow>
                if cs' \<noteq> [] then gather k cs' (if v \<noteq> 0 then inn(3 - k := v - 1) else inn) (Suc len)
                else gather k cs' (inn(3 - k := 0)) len))"

lemma gather_Nil [simp]: "gather k [] inn len = ([], inn, len)"
  by (cases k) auto

lemma gather_le: "length (fst (gather k cs inn len)) \<le> length cs"
proof (induction k cs inn len rule: gather.induct)
  case (2 k cs inn len)
  obtain v cs' where f: "fetch cs = (v, cs')" by fastforce
  have "length cs' \<le> length cs" using fetch_shorter [of cs] f by simp
  then show ?case using 2 f by (auto split: prod.splits intro: le_trans)
qed simp

lemma fetch_Cons_shorter: "cs \<noteq> [] \<Longrightarrow> length (snd (fetch cs)) < length cs"
proof (induction cs)
  case (Cons c cs)
  then show ?case using fetch_shorter [of cs] by (auto simp: le_imp_less_Suc)
qed simp

lemma gather_shorter:
  assumes "cs \<noteq> []" "gather 4 cs inn 0 = (cs', inn', len)"
  shows "length cs' < length cs"
proof -
  obtain v cs1 where f: "fetch cs = (v, cs1)" by fastforce
  have "length cs1 < length cs" using fetch_Cons_shorter [OF assms(1)] f by simp
  moreover have "length (fst (gather 4 cs inn 0)) \<le> length cs1"
    using assms(1) f gather_le [of 3 cs1] gather.simps(2) [of 3 cs inn 0] by simp
  ultimately show ?thesis using assms(2) by simp
qed

function decode_loop :: "nat \<Rightarrow> u8 list \<Rightarrow> (nat \<Rightarrow> u8) \<Rightarrow> u8 list \<Rightarrow> u8 list res" where
  "decode_loop cap cs inn buf =
     (if cs \<noteq> []
      then (case gather 4 cs inn 0 of
              (cs', inn', len) \<Rightarrow>
                if len \<noteq> 0
                then bind_res (put_bytes cap buf (take (len - 1) (base64_decodeblock inn'))) (decode_loop cap cs' inn')
                else decode_loop cap cs' inn' buf)
      else put_end cap buf)"
  by auto
termination
  by (relation "measure (\<lambda>(_, cs, _). length cs)") (auto dest: gather_shorter [OF _ sym])

declare decode_loop.simps [simp del]

text \<open>\<open>malloc(in_size)\<close>; \<open>junk\<close> is the content of the array \<open>in\<close> before it is written.\<close>

definition base64_decode :: "(nat \<Rightarrow> u8) \<Rightarrow> u8 list \<Rightarrow> u8 list res" where
  "base64_decode junk infile = decode_loop (length infile) infile junk []"

lemma cb64_eval: "cb64 = [
     65, 66, 67, 68, 69, 70, 71, 72, 73, 74, 75, 76, 77, 78, 79, 80, 81, 82, 83, 84, 85, 86, 87, 
     88, 89, 90, 97, 98, 99, 100, 101, 102, 103, 104, 105, 106, 107, 108, 109, 110, 111, 112, 113, 
     114, 115, 116, 117, 118, 119, 120, 121, 122, 48, 49, 50, 51, 52, 53, 54, 55, 56, 57, 43, 47]"
  by (simp add: cb64_def)

lemma cd64_eval: "cd64 = [
     124, 36, 36, 36, 125, 114, 115, 116, 117, 118, 119, 120, 121, 122, 123, 36, 36, 36, 36, 36, 
     36, 36, 62, 63, 64, 65, 66, 67, 68, 69, 70, 71, 72, 73, 74, 75, 76, 77, 78, 79, 80, 81, 82, 
     83, 84, 85, 86, 87, 36, 36, 36, 36, 36, 36, 88, 89, 90, 91, 92, 93, 94, 95, 96, 97, 98, 99, 
     100, 101, 102, 103, 104, 105, 106, 107, 108, 109, 110, 111, 112, 113]"
  by (simp add: cd64_def)

lemma d64_cb64_all: "map d64 cb64 = [
     1, 2, 3, 4, 5, 6, 7, 8, 9, 10, 11, 12, 13, 14, 15, 16, 17, 18, 19, 20, 21, 22, 23, 24, 25, 26, 
     27, 28, 29, 30, 31, 32, 33, 34, 35, 36, 37, 38, 39, 40, 41, 42, 43, 44, 45, 46, 47, 48, 49, 
     50, 51, 52, 53, 54, 55, 56, 57, 58, 59, 60, 61, 62, 63, 64]"
  by (simp add: cb64_eval d64_def cd64_eval)

section \<open>Blocks are inverse\<close>

lemma length_cb64 [simp]: "length cb64 = 64"
  by (simp add: cb64_eval)

lemma d64_cb64:
  assumes "v < 64"
  shows "d64 (cb64 ! unat v) = v + 1"
proof -
  have l: "unat v < 64" using assms by (simp add: word_less_unat)
  have "map d64 cb64 = map (\<lambda>k. of_nat (Suc k)) [0..<64]"
    unfolding d64_cb64_all by (simp add: upt_conv_Cons)
  then have "d64 (cb64 ! unat v) = map (\<lambda>k. of_nat (Suc k)) [0..<64] ! unat v"
    using l by (metis length_cb64 nth_map)
  then show ?thesis using l by simp
qed

lemma d64_noise [simp]: "d64 61 = 0" "d64 0 = 0"
  by (simp_all add: d64_def cd64_eval)

lemma u8_eqI:
  fixes x y :: u8
  assumes "bit x 0 = bit y 0" "bit x 1 = bit y 1" "bit x 2 = bit y 2" "bit x 3 = bit y 3"
    "bit x 4 = bit y 4" "bit x 5 = bit y 5" "bit x 6 = bit y 6" "bit x 7 = bit y 7"
  shows "x = y"
proof (rule bit_word_eqI)
  fix n assume "n < LENGTH(8)"
  then have "n \<in> {0, 1, 2, 3, 4, 5, 6, 7}" by auto
  then show "bit x n = bit y n" using assms by auto
qed

lemma less_64I: "x AND 0x3f = x \<Longrightarrow> x < 64" for x :: u8
  using word_and_le1 [of x "0x3f"] by (simp add: word_less_unat word_le_unat)

lemma u8_bit_ge: "8 \<le> n \<Longrightarrow> \<not> bit a n" for a :: u8
  by (auto dest: bit_imp_le_length)

lemma sextets:
  fixes a b c :: u8
  shows "drop_bit 2 a < 64" "push_bit 4 (a AND 0x03) OR drop_bit 4 (b AND 0xf0) < 64"
    "push_bit 2 (b AND 0x0f) OR drop_bit 6 (c AND 0xc0) < 64" "c AND 0x3f < 64"
  by (rule less_64I, rule u8_eqI; simp add: bit_simps u8_bit_ge)+

lemma octets:
  fixes a b c :: u8
  defines "s0 \<equiv> drop_bit 2 a" and "s1 \<equiv> push_bit 4 (a AND 0x03) OR drop_bit 4 (b AND 0xf0)"
    and "s2 \<equiv> push_bit 2 (b AND 0x0f) OR drop_bit 6 (c AND 0xc0)" and "s3 \<equiv> c AND 0x3f"
  shows "push_bit 2 s0 OR drop_bit 4 s1 = a" "push_bit 4 s1 OR drop_bit 2 s2 = b" "(push_bit 6 s2 AND 0xc0) OR s3 = c"
  unfolding s0_def s1_def s2_def s3_def by (rule u8_eqI; simp add: bit_simps u8_bit_ge)+

section \<open>Round trip\<close>

text \<open>The text the encoder produces, without the buffer.\<close>

fun base64_text :: "u8 list \<Rightarrow> u8 list" where
  "base64_text [] = []"
| "base64_text [a] = base64_encodeblock a 0 0 1"
| "base64_text [a, b] = base64_encodeblock a b 0 2"
| "base64_text (a # b # c # xs) = base64_encodeblock a b c 3 @ base64_text xs"

lemma length_encodeblock [simp]: "length (base64_encodeblock a b c n) = 4"
  by (simp add: base64_encodeblock_def)

lemma length_base64_text: "length (base64_text xs) = 4 * ((length xs + 2) div 3)"
proof (induction xs rule: base64_text.induct)
  case (4 a b c xs)
  have "(5 + length xs) div 3 = Suc ((2 + length xs) div 3)" by arith
  then show ?case using 4 by simp
qed auto

lemma encode_loop_text:
  "encode_loop cap xs buf =
     (if length buf + length (base64_text xs) < cap then Inr (buf @ base64_text xs) else Inl OutOfBounds)"
  by (induction cap xs buf rule: encode_loop.induct) (auto simp: put_bytes_def put_end_def)

lemma sextet_Suc: "v < 64 \<Longrightarrow> v + 1 \<noteq> 0" for v :: u8
  by (auto simp: word_less_unat dest!: arg_cong [of "v + 1" 0 unat] simp: unat_word_ariths)

lemma gather_sextet:
  assumes "v < 64" "cs \<noteq> []"
  shows "gather (Suc k) (cb64 ! unat v # cs) inn len = gather k cs (inn(3 - k := v)) (Suc len)"
proof -
  have "fetch (cb64 ! unat v # cs) = (v + 1, cs)" using d64_cb64 [OF assms(1)] sextet_Suc [OF assms(1)] by simp
  then show ?thesis using assms(2) sextet_Suc [OF assms(1)] by simp
qed

lemma gather_4: "gather 4 cs inn len = gather (Suc (Suc (Suc (Suc 0)))) cs inn len"
  by (simp add: numeral_eq_Suc)

lemma gather_quad:
  assumes "v0 < 64" "v1 < 64" "v2 < 64" "v3 < 64" "cs \<noteq> []"
  shows "gather 4 (cb64 ! unat v0 # cb64 ! unat v1 # cb64 ! unat v2 # cb64 ! unat v3 # cs) inn 0 =
    (cs, inn(0 := v0, 1 := v1, 2 := v2, 3 := v3), 4)"
  using assms unfolding gather_4 by (simp add: gather_sextet del: gather.simps(2))

lemma gather_triple:
  assumes "v0 < 64" "v1 < 64" "v2 < 64"
  shows "gather 4 [cb64 ! unat v0, cb64 ! unat v1, cb64 ! unat v2, 61, 0] inn 0 =
    ([], inn(0 := v0, 1 := v1, 2 := v2, 3 := 0), 3)"
proof -
  have "gather (Suc 0) [61, 0] f n = ([], f(3 := 0), n)" for f n by simp
  then show ?thesis using assms unfolding gather_4 by (simp add: gather_sextet del: gather.simps(2))
qed

lemma gather_pair:
  assumes "v0 < 64" "v1 < 64"
  shows "gather 4 [cb64 ! unat v0, cb64 ! unat v1, 61, 61, 0] inn 0 = ([], inn(0 := v0, 1 := v1, 2 := 0), 2)"
proof -
  have "gather (Suc (Suc 0)) [61, 61, 0] f n = ([], f(2 := 0), n)" for f n by simp
  then show ?thesis using assms unfolding gather_4 by (simp add: gather_sextet del: gather.simps(2))
qed

text \<open>What the loop reads back from a whole block and from the two padded ones.\<close>

lemma gather_block:
  assumes "cs \<noteq> []"
  shows "\<exists>inn'. gather 4 (base64_encodeblock a b c 3 @ cs) inn 0 = (cs, inn', 4) \<and> base64_decodeblock inn' = [a, b, c]"
proof -
  note g = gather_quad [OF sextets(1) [of a] sextets(2) [of a b] sextets(3) [of b c] sextets(4) [of c] assms, of inn]
  have "base64_encodeblock a b c 3 @ cs = cb64 ! unat (drop_bit 2 a) #
      cb64 ! unat (push_bit 4 (a AND 0x03) OR drop_bit 4 (b AND 0xf0)) #
      cb64 ! unat (push_bit 2 (b AND 0x0f) OR drop_bit 6 (c AND 0xc0)) # cb64 ! unat (c AND 0x3f) # cs"
    by (simp add: base64_encodeblock_def)
  with g octets(1) [of a b] octets(2) [of a b c] octets(3) [of b c] show ?thesis by (simp only:) (simp add: base64_decodeblock_def)
qed

lemma gather_padded1:
  "\<exists>inn'. gather 4 (base64_encodeblock a 0 0 1 @ [0]) inn 0 = ([], inn', 2) \<and> take 1 (base64_decodeblock inn') = [a]"
proof -
  note g = gather_pair [OF sextets(1) [of a] sextets(2) [of a 0], of inn]
  have "base64_encodeblock a 0 0 1 @ [0] = [cb64 ! unat (drop_bit 2 a),
      cb64 ! unat (push_bit 4 (a AND 0x03) OR drop_bit 4 (0 AND 0xf0)), 61, 61, 0]" by (simp add: base64_encodeblock_def)
  with g octets(1) [of a 0] show ?thesis by (simp only:) (simp add: base64_decodeblock_def)
qed

lemma gather_padded2:
  "\<exists>inn'. gather 4 (base64_encodeblock a b 0 2 @ [0]) inn 0 = ([], inn', 3) \<and> take 2 (base64_decodeblock inn') = [a, b]"
proof -
  note g = gather_triple [OF sextets(1) [of a] sextets(2) [of a b] sextets(3) [of b 0], of inn]
  have "base64_encodeblock a b 0 2 @ [0] = [cb64 ! unat (drop_bit 2 a),
      cb64 ! unat (push_bit 4 (a AND 0x03) OR drop_bit 4 (b AND 0xf0)),
      cb64 ! unat (push_bit 2 (b AND 0x0f) OR drop_bit 6 (0 AND 0xc0)), 61, 0]" by (simp add: base64_encodeblock_def)
  with g octets(1) [of a b] octets(2) [of a b 0] show ?thesis by (simp only:) (simp add: base64_decodeblock_def)
qed

lemma decode_Nil: "decode_loop cap [] inn buf = put_end cap buf"
  by (simp add: decode_loop.simps)

lemma decode_block:
  "cs \<noteq> [] \<Longrightarrow> gather 4 cs inn 0 = (cs', inn', Suc len) \<Longrightarrow>
   decode_loop cap cs inn buf = bind_res (put_bytes cap buf (take len (base64_decodeblock inn'))) (decode_loop cap cs' inn')"
  by (simp add: decode_loop.simps [of cap cs])

lemma decode_text:
  "length buf + length xs < cap \<Longrightarrow> decode_loop cap (base64_text xs @ [0]) inn buf = Inr (buf @ xs)"
proof (induction xs arbitrary: inn buf rule: base64_text.induct)
  case 1
  have "gather 4 [0] inn 0 = ([], inn(0 := 0), 0)" by (simp add: numeral_eq_Suc)
  then show ?case using 1 by (simp add: decode_loop.simps [of cap "[0]"] decode_Nil put_end_def)
next
  case (2 a)
  obtain inn' where g: "gather 4 (base64_text [a] @ [0]) inn 0 = ([], inn', Suc 1)" "take 1 (base64_decodeblock inn') = [a]"
    using gather_padded1 [of a inn] by auto
  show ?case using 2 g(2) by (subst decode_block [OF _ g(1)]) (simp_all add: decode_Nil put_end_def put_bytes_def)
next
  case (3 a b)
  obtain inn' where g: "gather 4 (base64_text [a, b] @ [0]) inn 0 = ([], inn', Suc 2)" "take 2 (base64_decodeblock inn') = [a, b]"
    using gather_padded2 [of a b inn] by (auto simp: numeral_eq_Suc)
  show ?case using 3 g(2) by (subst decode_block [OF _ g(1)]) (simp_all add: decode_Nil put_end_def put_bytes_def)
next
  case (4 a b c xs)
  obtain inn' where g: "gather 4 (base64_text (a # b # c # xs) @ [0]) inn 0 = (base64_text xs @ [0], inn', Suc 3)"
    "base64_decodeblock inn' = [a, b, c]"
    using gather_block [of "base64_text xs @ [0]" a b c inn] by auto
  show ?case using 4 g(2) by (subst decode_block [OF _ g(1)]) (simp_all add: put_bytes_def)
qed

text \<open>
  C39: Decoding gives back what was encoded, for every byte string, when the decoder gets the encoded text
  together with its terminator.
\<close>

theorem base64_roundtrip:
  assumes "base64_encode xs = Inr text"
  shows "base64_decode junk (text @ [0]) = Inr xs"
proof -
  have t: "text = base64_text xs" using assms by (auto simp: base64_encode_def encode_loop_text split: if_splits)
  have "length xs < length (text @ [0])" unfolding t by (simp add: length_base64_text)
  then show ?thesis unfolding base64_decode_def t by (subst decode_text) simp_all
qed

theorem base64_roundtrip_witness: "base64_decode (\<lambda>_. 0) (base64_text [65, 66, 67] @ [0]) = Inr [65, 66, 67]"
proof -
  have "base64_encode [65, 66, 67] = Inr (base64_text [65, 66, 67])"
    by (simp add: base64_encode_def encode_loop_text)
  then show ?thesis by (rule base64_roundtrip)
qed

text \<open>
  C40: The encoder stays in its buffer exactly for inputs of 3 bytes or of more than 4 (below 2 GB); for those the text
  has four characters for every three bytes begun, and otherwise it writes behind the buffer.
\<close>

theorem base64_encode_bounds:
  assumes "length xs < 2 ^ 31"
  shows "base64_encode xs =
    (if length xs = 3 \<or> length xs > 4 then Inr (base64_text xs) else Inl OutOfBounds)"
proof -
  have "unat (of_nat (length xs) * 2 :: u32) = length xs * 2"
    using assms by (simp add: unat_word_ariths unsigned_of_nat take_bit_nat_eq_self)
  moreover have "4 * ((n + 2) div 3) < n * 2 \<longleftrightarrow> n = 3 \<or> n > 4" for n :: nat
  proof (cases "n > 4")
    case False
    then have "n \<in> {0, 1, 2, 3, 4}" by auto
    then show ?thesis by auto
  next
    case True
    then show ?thesis by arith
  qed
  ultimately show ?thesis by (simp add: base64_encode_def encode_loop_text length_base64_text)
qed

theorem base64_encode_bounds_witness: "base64_encode [65, 66] = Inl OutOfBounds"
  using base64_encode_bounds [of "[65, 66]"] by simp

section \<open>Observations\<close>

text \<open>Without the terminator the decoder drops the last character of the text.\<close>

lemma base64_decode_drops_last: "base64_decode junk (base64_text [65, 66, 67]) = Inr [65, 66]"
proof -
  have t: "base64_text [65, 66, 67] = [81, 85, 74, 68]" by (simp add: base64_encodeblock_def cb64_eval)
  have d: "d64 81 = 17" "d64 85 = 21" "d64 74 = 10" "d64 68 = 4" by (simp_all add: d64_def cd64_eval)
  have "gather 4 [81, 85, 74, 68] junk 0 = ([], junk(0 := 16, 1 := 20, 2 := 9, 3 := 0), 3)"
    by (simp add: gather_4 d)
  then have g: "gather 4 [81, 85, 74, 68] junk 0 = ([], junk(0 := 16, 1 := 20, 2 := 9, 3 := 0), Suc 2)" by simp
  show ?thesis unfolding t base64_decode_def decode_block [OF list.distinct(2) g]
    by (simp add: base64_decodeblock_def put_bytes_def decode_Nil put_end_def)
qed

end
