(* ===== verification/BitAlloc.thy ===== *)
theory BitAlloc
  imports L4Prelude
begin

text \<open>
  The bit-array allocator of \<open>l4util/lib/src/alloc.c\<close>: it hands out the numbers \<open>base\<close> to
  \<open>base + count - 1\<close> in turn. The array \<open>bits\<close> is a function on word indices; elements are
  \<open>int\<close>s, and sums of \<open>base\<close> and \<open>count\<close> are assumed to stay in the range of \<open>int\<close>.
\<close>

section \<open>Definitions\<close>

definition L4UTIL_ALLOC_BITS_SIZE :: nat where [l4_const]: "L4UTIL_ALLOC_BITS_SIZE = 32"

record l4util_alloc_t =
  al_base :: int
  al_count :: int
  al_next_elem :: int
  al_bits :: "nat \<Rightarrow> u32"

text \<open>\<open>junk\<close> is the content of the fresh array; \<open>ok1\<close> and \<open>ok2\<close> are the outcomes of the two \<open>malloc\<close>s.
  The \<open>memset\<close> clears \<open>(count + 31) / 8\<close> bytes, that is, every word that holds one of \<open>count\<close> bits.\<close>

definition l4util_alloc_init :: "bool \<Rightarrow> bool \<Rightarrow> (nat \<Rightarrow> u32) \<Rightarrow> int \<Rightarrow> int \<Rightarrow> l4util_alloc_t option" where
  "l4util_alloc_init ok1 ok2 junk count base =
     (if \<not> ok1 \<or> \<not> ok2 then None
      else Some \<lparr>al_base = base, al_count = count, al_next_elem = base,
                 al_bits = memset_arr junk 0 0 (nat (count + 31) div 8 div 4)\<rparr>)"

definition l4util_alloc_avail :: "l4util_alloc_t \<Rightarrow> int \<Rightarrow> int" where
  "l4util_alloc_avail al elem =
     (if elem < al_base al \<or> elem \<ge> al_base al + al_count al then 0
      else (let e = nat (elem - al_base al)
            in if bit (al_bits al (e div L4UTIL_ALLOC_BITS_SIZE)) (e mod L4UTIL_ALLOC_BITS_SIZE) then 0 else 1))"

definition l4util_alloc_occupy :: "l4util_alloc_t \<Rightarrow> int \<Rightarrow> l4util_alloc_t \<times> int" where
  "l4util_alloc_occupy al elem =
     (if elem < al_base al \<or> elem \<ge> al_base al + al_count al then (al, 1)
      else (let e = nat (elem - al_base al); i = e div L4UTIL_ALLOC_BITS_SIZE; b = e mod L4UTIL_ALLOC_BITS_SIZE
            in (al\<lparr>al_bits := (al_bits al)(i := Bit_Operations.set_bit b (al_bits al i))\<rparr>,
                if bit (al_bits al i) b then 1 else 0)))"

definition l4util_alloc_free :: "l4util_alloc_t \<Rightarrow> int \<Rightarrow> l4util_alloc_t \<times> int" where
  "l4util_alloc_free al elem =
     (if elem < al_base al \<or> elem \<ge> al_base al + al_count al then (al, 1)
      else (let e = nat (elem - al_base al); i = e div L4UTIL_ALLOC_BITS_SIZE; b = e mod L4UTIL_ALLOC_BITS_SIZE
            in (al\<lparr>al_bits := (al_bits al)(i := unset_bit b (al_bits al i))\<rparr>,
                if bit (al_bits al i) b then 0 else 1)))"

text \<open>The \<open>while\<close> loop: the element found, or -1 after a full turn.\<close>

partial_function (option) alloc_loop :: "l4util_alloc_t \<Rightarrow> int \<Rightarrow> (l4util_alloc_t \<times> int) option" where
  "alloc_loop al elem =
     (case l4util_alloc_occupy al elem of
        (al', busy) \<Rightarrow>
          if busy = 0 then Some (al', elem)
          else (let elem = (if elem + 1 \<ge> al_base al' + al_count al' then 0 else elem + 1)
                in if elem = al_next_elem al' then Some (al', -1) else alloc_loop al' elem))"

definition l4util_alloc_alloc :: "l4util_alloc_t \<Rightarrow> (l4util_alloc_t \<times> int) option" where
  "l4util_alloc_alloc al =
     (case alloc_loop al (al_next_elem al) of
        None \<Rightarrow> None
      | Some (al', elem) \<Rightarrow>
          if elem = -1 then Some (al', -1)
          else (let n = elem + 1
                in Some (al'\<lparr>al_next_elem := (if n = al_base al' + al_count al' then al_base al' else n)\<rparr>, elem)))"

section \<open>Occupied elements\<close>

definition in_range :: "l4util_alloc_t \<Rightarrow> int \<Rightarrow> bool" where
  "in_range al e \<longleftrightarrow> al_base al \<le> e \<and> e < al_base al + al_count al"

definition occupied :: "l4util_alloc_t \<Rightarrow> int \<Rightarrow> bool" where
  "occupied al e \<longleftrightarrow> in_range al e \<and> bit (al_bits al (nat (e - al_base al) div 32)) (nat (e - al_base al) mod 32)"

lemma avail_iff: "l4util_alloc_avail al e = 1 \<longleftrightarrow> in_range al e \<and> \<not> occupied al e"
  by (auto simp: l4util_alloc_avail_def in_range_def occupied_def Let_def L4UTIL_ALLOC_BITS_SIZE_def)

lemma div_mod_eq: "a div 32 = b div 32 \<Longrightarrow> a mod 32 = b mod 32 \<Longrightarrow> a = b" for a b :: nat
  by (metis div_mult_mod_eq)

lemma same_elem:
  "in_range al e \<Longrightarrow> in_range al f \<Longrightarrow>
   nat (e - al_base al) div 32 = nat (f - al_base al) div 32 \<Longrightarrow>
   nat (e - al_base al) mod 32 = nat (f - al_base al) mod 32 \<Longrightarrow> e = f"
  using div_mod_eq [of "nat (e - al_base al)" "nat (f - al_base al)"] unfolding in_range_def by linarith

lemma bit_index_bound: "nat k mod 32 < 32"
  by simp

lemma occupy_spec:
  assumes "l4util_alloc_occupy al e = (al', r)"
  shows "al_base al' = al_base al" "al_count al' = al_count al" "al_next_elem al' = al_next_elem al"
    "r = 0 \<longleftrightarrow> in_range al e \<and> \<not> occupied al e" "r \<noteq> 0 \<Longrightarrow> r = 1 \<and> occupied al' = occupied al"
    "r = 0 \<Longrightarrow> occupied al' = (occupied al)(e := True)"
proof -
  show f: "al_base al' = al_base al" "al_count al' = al_count al" "al_next_elem al' = al_next_elem al"
    using assms by (auto simp: l4util_alloc_occupy_def Let_def split: if_splits)
  show r: "r = 0 \<longleftrightarrow> in_range al e \<and> \<not> occupied al e"
    using assms by (auto simp: l4util_alloc_occupy_def occupied_def in_range_def Let_def L4UTIL_ALLOC_BITS_SIZE_def split: if_splits)
  have o: "occupied al' x = (if in_range al e \<and> x = e then True else occupied al x)" for x
  proof (cases "in_range al e")
    case True
    then have "al' = al\<lparr>al_bits := (al_bits al)(nat (e - al_base al) div 32 :=
        Bit_Operations.set_bit (nat (e - al_base al) mod 32) (al_bits al (nat (e - al_base al) div 32)))\<rparr>"
      using assms by (auto simp: l4util_alloc_occupy_def in_range_def Let_def L4UTIL_ALLOC_BITS_SIZE_def)
    moreover have "in_range al' x = in_range al x" using f by (simp add: in_range_def)
    ultimately show ?thesis using True same_elem [OF True, of x] bit_index_bound [of "e - al_base al"]
      by (auto simp: occupied_def bit_set_bit_iff)
  next
    case False
    then have "al' = al" using assms by (auto simp: l4util_alloc_occupy_def in_range_def Let_def split: if_splits)
    then show ?thesis using False by simp
  qed
  have "r = 0 \<or> r = 1" using assms by (auto simp: l4util_alloc_occupy_def Let_def split: if_splits)
  then show "r \<noteq> 0 \<Longrightarrow> r = 1 \<and> occupied al' = occupied al" using o r by (auto simp: fun_eq_iff occupied_def)
  show "r = 0 \<Longrightarrow> occupied al' = (occupied al)(e := True)" using o r by (auto simp: fun_eq_iff)
qed

lemma occupy_busy:
  assumes "l4util_alloc_occupy al e = (al', r)" "r \<noteq> 0"
  shows "al' = al"
proof -
  have "Bit_Operations.set_bit b w = w" if "bit w b" for b and w :: u32
    using that by (intro bit_word_eqI) (auto simp: bit_set_bit_iff)
  then show ?thesis using assms by (auto simp: l4util_alloc_occupy_def Let_def split: if_splits)
qed

lemma free_spec:
  assumes "l4util_alloc_free al e = (al', r)"
  shows "al_base al' = al_base al" "al_count al' = al_count al" "al_next_elem al' = al_next_elem al"
    "r = 0 \<longleftrightarrow> occupied al e" "occupied al' = (occupied al)(e := False)"
proof -
  show f: "al_base al' = al_base al" "al_count al' = al_count al" "al_next_elem al' = al_next_elem al"
    using assms by (auto simp: l4util_alloc_free_def Let_def split: if_splits)
  show "r = 0 \<longleftrightarrow> occupied al e"
    using assms by (auto simp: l4util_alloc_free_def occupied_def in_range_def Let_def L4UTIL_ALLOC_BITS_SIZE_def split: if_splits)
  have "occupied al' x = (occupied al x \<and> x \<noteq> e)" for x
  proof (cases "in_range al e")
    case True
    then have "al' = al\<lparr>al_bits := (al_bits al)(nat (e - al_base al) div 32 :=
        unset_bit (nat (e - al_base al) mod 32) (al_bits al (nat (e - al_base al) div 32)))\<rparr>"
      using assms by (auto simp: l4util_alloc_free_def in_range_def Let_def L4UTIL_ALLOC_BITS_SIZE_def)
    moreover have "in_range al' x = in_range al x" using f by (simp add: in_range_def)
    ultimately show ?thesis using True same_elem [OF True, of x] bit_index_bound [of "e - al_base al"]
      by (auto simp: occupied_def bit_unset_bit_iff)
  next
    case False
    then have "al' = al" using assms by (auto simp: l4util_alloc_free_def in_range_def Let_def split: if_splits)
    then show ?thesis using False by (auto simp: occupied_def)
  qed
  then show "occupied al' = (occupied al)(e := False)" by (auto simp: fun_eq_iff)
qed

section \<open>The search\<close>

definition alloc_inv :: "l4util_alloc_t \<Rightarrow> bool" where
  "alloc_inv al \<longleftrightarrow> 0 \<le> al_base al \<and> in_range al (al_next_elem al)"

text \<open>The numbers the loop has passed when it is at \<open>elem\<close>, and how many are left.\<close>

definition passed :: "l4util_alloc_t \<Rightarrow> int \<Rightarrow> int \<Rightarrow> bool" where
  "passed al elem x \<longleftrightarrow>
     (if al_next_elem al \<le> elem then al_next_elem al \<le> x \<and> x < elem
      else al_next_elem al \<le> x \<and> x < al_base al + al_count al \<or> 0 \<le> x \<and> x < elem)"

definition left_over :: "l4util_alloc_t \<Rightarrow> int \<Rightarrow> int" where
  "left_over al elem = (if elem < al_next_elem al then al_next_elem al - elem
     else al_base al + al_count al - elem + al_next_elem al)"

lemma alloc_loop_spec:
  assumes "alloc_inv al"
  shows "0 \<le> elem \<Longrightarrow> elem < al_base al + al_count al \<Longrightarrow>
    (\<And>x. passed al elem x \<Longrightarrow> in_range al x \<Longrightarrow> occupied al x) \<Longrightarrow>
    (\<exists>al'. alloc_loop al elem = Some (al', -1) \<and> al' = al \<and> (\<forall>x. in_range al x \<longrightarrow> occupied al x)) \<or>
    (\<exists>al' e. alloc_loop al elem = Some (al', e) \<and> in_range al e \<and> \<not> occupied al e \<and> l4util_alloc_occupy al e = (al', 0))"
proof (induction "nat (left_over al elem)" arbitrary: elem rule: less_induct)
  case less
  obtain al' r where o: "l4util_alloc_occupy al elem = (al', r)" by fastforce
  let ?e = "if elem + 1 \<ge> al_base al + al_count al then 0 else elem + 1"
  show ?case
  proof (cases "r = 0")
    case True
    then have "alloc_loop al elem = Some (al', elem)" using o by (subst alloc_loop.simps) simp
    then show ?thesis using occupy_spec(4) [OF o] True o by blast
  next
    case False
    have al: "al' = al" by (rule occupy_busy [OF o False])
    have busy: "in_range al elem \<Longrightarrow> occupied al elem" using occupy_spec(4) [OF o] False by simp
    have step: "alloc_loop al elem = (if ?e = al_next_elem al then Some (al, -1) else alloc_loop al ?e)"
      using o False al by (subst alloc_loop.simps) (simp add: Let_def)
    show ?thesis
    proof (cases "?e = al_next_elem al")
      case True
      have "occupied al x" if "in_range al x" for x
      proof (cases "x = elem")
        case True then show ?thesis using busy that by simp
      next
        case False
        then have "passed al elem x"
          using that \<open>?e = al_next_elem al\<close> assms less.prems(1,2)
          by (auto simp: passed_def in_range_def alloc_inv_def split: if_splits)
        then show ?thesis using less.prems(3) that by blast
      qed
      then show ?thesis using step True by simp
    next
      case False
      have "nat (left_over al ?e) < nat (left_over al elem)" "0 \<le> ?e" "?e < al_base al + al_count al"
        using False less.prems(1,2) assms by (auto simp: left_over_def in_range_def alloc_inv_def)
      moreover have "occupied al x" if "passed al ?e x" "in_range al x" for x
      proof (cases "x = elem")
        case True then show ?thesis using busy that by simp
      next
        case neq: False
        then have "passed al elem x"
          using that False assms less.prems(1,2) by (auto simp: passed_def in_range_def alloc_inv_def split: if_splits)
        then show ?thesis using less.prems(3) that by blast
      qed
      ultimately show ?thesis using less.hyps [of ?e] step False by simp
    qed
  qed
qed

section \<open>Properties\<close>

text \<open>
  \<open>l4util_alloc_alloc\<close> returns for every allocator with at least one element. It answers -1 exactly when all
  elements are occupied, and otherwise an element that was free, which is occupied afterwards while all
  other elements are as before; the allocator stays well formed.
\<close>

theorem l4util_alloc_alloc_spec:
  assumes "alloc_inv al"
  shows "\<exists>al' e. l4util_alloc_alloc al = Some (al', e) \<and> alloc_inv al' \<and>
    (e = -1 \<longleftrightarrow> (\<forall>x. in_range al x \<longrightarrow> occupied al x)) \<and>
    (if e = -1 then al' = al else in_range al e \<and> \<not> occupied al e \<and> occupied al' = (occupied al)(e := True))"
proof -
  have "passed al (al_next_elem al) x \<Longrightarrow> False" for x unfolding passed_def by simp linarith
  with alloc_loop_spec [OF assms, of "al_next_elem al"] assms
  consider "alloc_loop al (al_next_elem al) = Some (al, -1)" "\<forall>x. in_range al x \<longrightarrow> occupied al x"
    | al1 e where "alloc_loop al (al_next_elem al) = Some (al1, e)" "in_range al e" "\<not> occupied al e"
        "l4util_alloc_occupy al e = (al1, 0)"
    by (auto simp: alloc_inv_def in_range_def)
  then show ?thesis
  proof cases
    case 1
    then show ?thesis using assms by (simp add: l4util_alloc_alloc_def)
  next
    case (2 al1 e)
    note o = occupy_spec [OF 2(4)]
    let ?al = "al1\<lparr>al_next_elem := (if e + 1 = al_base al1 + al_count al1 then al_base al1 else e + 1)\<rparr>"
    have ne: "e \<noteq> -1" using 2(2) assms by (auto simp: in_range_def alloc_inv_def)
    have r: "l4util_alloc_alloc al = Some (?al, e)" using 2(1) ne by (simp add: l4util_alloc_alloc_def Let_def)
    have "occupied ?al = occupied al1" by (simp add: occupied_def in_range_def fun_eq_iff)
    moreover have "alloc_inv ?al" using o(1,2) assms 2(2) by (auto simp: alloc_inv_def in_range_def)
    ultimately show ?thesis using r ne 2(2,3) o(6) by auto
  qed
qed

lemma init_inv:
  "0 \<le> base \<Longrightarrow> 0 < count \<Longrightarrow> l4util_alloc_init True True junk count base = Some al \<Longrightarrow>
   alloc_inv al \<and> (\<forall>e. \<not> occupied al e)"
proof -
  assume a: "0 \<le> base" "0 < count" "l4util_alloc_init True True junk count base = Some al"
  have "al_bits al (nat (e - base) div 32) = 0" if "base \<le> e" "e < base + count" for e
  proof -
    have "nat (e - base) div 32 < nat (count + 31) div 32" using that a(2) by linarith
    then show ?thesis using a(3) by (auto simp: l4util_alloc_init_def memset_arr_def div_mult2_eq [symmetric])
  qed
  moreover have "al_base al = base" "al_count al = count" "al_next_elem al = base" using a(3) by (auto simp: l4util_alloc_init_def)
  ultimately show ?thesis using a(1,2) by (auto simp: alloc_inv_def in_range_def occupied_def)
qed

theorem l4util_alloc_alloc_spec_witness:
  "\<exists>al al' e. l4util_alloc_init True True (\<lambda>_. 7) 40 2 = Some al \<and> l4util_alloc_alloc al = Some (al', e) \<and> e \<noteq> -1"
proof -
  obtain al where al: "l4util_alloc_init True True (\<lambda>_. 7) 40 2 = Some al" by (simp add: l4util_alloc_init_def)
  from init_inv [OF _ _ this] have i: "alloc_inv al" "\<not> occupied al 2" "in_range al 2"
    using al by (auto simp: l4util_alloc_init_def in_range_def)
  from l4util_alloc_alloc_spec [OF i(1)] i(2,3) al show ?thesis by blast
qed

text \<open>
  Freeing undoes allocating: \<open>l4util_alloc_free\<close> accepts exactly the occupied elements and makes them available, and
  \<open>l4util_alloc_avail\<close> and \<open>l4util_alloc_occupy\<close> agree on what is available.
\<close>

theorem l4util_alloc_free_spec:
  "(snd (l4util_alloc_free al e) = 0 \<longleftrightarrow> occupied al e) \<and>
   occupied (fst (l4util_alloc_free al e)) = (occupied al)(e := False) \<and>
   (snd (l4util_alloc_occupy al e) = 0 \<longleftrightarrow> l4util_alloc_avail al e = 1) \<and>
   occupied (fst (l4util_alloc_occupy al e)) = (if in_range al e then (occupied al)(e := True) else occupied al)"
proof -
  obtain a1 r1 where f: "l4util_alloc_free al e = (a1, r1)" by fastforce
  obtain a2 r2 where o: "l4util_alloc_occupy al e = (a2, r2)" by fastforce
  show ?thesis
    using free_spec [OF f] occupy_spec [OF o] f o by (cases "r2 = 0") (auto simp: avail_iff fun_eq_iff)
qed

section \<open>Observations\<close>

text \<open>An allocator without elements and a positive base searches for ever.\<close>

lemma alloc_loop_empty:
  "alloc_loop al elem = Some y \<Longrightarrow>
   al_count al = 0 \<and> 0 < al_base al \<and> al_next_elem al = al_base al \<and> elem \<le> al_base al \<longrightarrow> False"
proof (erule alloc_loop.raw_induct [where P = "\<lambda>al elem y.
    al_count al = 0 \<and> 0 < al_base al \<and> al_next_elem al = al_base al \<and> elem \<le> al_base al \<longrightarrow> False", rotated])
  fix f al elem y
  assume IH: "\<And>al elem y. f al elem = Some y \<Longrightarrow>
      al_count al = 0 \<and> 0 < al_base al \<and> al_next_elem al = al_base al \<and> elem \<le> al_base al \<longrightarrow> False"
    and e: "(case l4util_alloc_occupy al elem of
        (al', busy) \<Rightarrow>
          if busy = 0 then Some (al', elem)
          else let elem = if elem + 1 \<ge> al_base al' + al_count al' then 0 else elem + 1
               in if elem = al_next_elem al' then Some (al', -1) else f al' elem) = Some y"
  show "al_count al = 0 \<and> 0 < al_base al \<and> al_next_elem al = al_base al \<and> elem \<le> al_base al \<longrightarrow> False"
  proof
    assume a: "al_count al = 0 \<and> 0 < al_base al \<and> al_next_elem al = al_base al \<and> elem \<le> al_base al"
    then have "l4util_alloc_occupy al elem = (al, 1)" by (auto simp: l4util_alloc_occupy_def)
    with e a IH [of al "if elem + 1 \<ge> al_base al then 0 else elem + 1" y] show False
      by (auto simp: Let_def split: if_splits)
  qed
qed

lemma alloc_empty_diverges:
  assumes "al_count al = 0" "0 < al_base al" "al_next_elem al = al_base al"
  shows "l4util_alloc_alloc al = None"
proof -
  have "alloc_loop al (al_next_elem al) = None"
    using alloc_loop_empty [of al "al_next_elem al"] assms by (cases "alloc_loop al (al_next_elem al)") auto
  then show ?thesis by (simp add: l4util_alloc_alloc_def)
qed

end
