(* ===== verification/ListAlloc.thy ===== *)
theory ListAlloc
  imports L4Sys
begin

text \<open>
  The list based allocator of \<open>l4util/lib/src/list_alloc.c\<close>. The free list, whose nodes are the headers of the
  free blocks, is a list of addresses and sizes in the order of the \<open>next\<close> pointers; the address 0 is the null
  pointer. Failing assertions are \<open>Panic\<close>; the sanity checks only print and are left out.
\<close>

section \<open>Definitions\<close>

type_synonym la_list = "(l4_addr_t \<times> u32) list"

text \<open>\<open>sizeof(l4la_free_t) - 1\<close>\<close>

definition ALIGN_MASK :: u32 where "ALIGN_MASK = 7"

definition la_round :: "u32 \<Rightarrow> u32" where
  "la_round sz = (sz + ALIGN_MASK) AND NOT ALIGN_MASK"

fun la_merge :: "la_list \<Rightarrow> la_list res" where
  "la_merge [] = Inr []"
| "la_merge [b] = Inr [b]"
| "la_merge ((c, sz) # (n, nsz) # bs) =
     (if c + sz = n
      then (if sz + nsz \<ge> 8 then la_merge ((c, sz + nsz) # bs) else Inl Panic)
      else bind_res (la_merge ((n, nsz) # bs)) (\<lambda>r. Inr ((c, sz) # r)))"

text \<open>The search for the place of the block, the insertion and the assertions around it.\<close>

fun la_insert :: "l4_addr_t \<Rightarrow> u32 \<Rightarrow> la_list \<Rightarrow> la_list res" where
  "la_insert block sz [] = Inr [(block, sz)]"
| "la_insert block sz ((c, csz) # bs) =
     (if c < block then bind_res (la_insert block sz bs) (\<lambda>r. Inr ((c, csz) # r))
      else if c = block then Inl Panic
      else if block + sz \<le> c then Inr ((block, sz) # (c, csz) # bs)
      else Inl Panic)"

definition l4la_free :: "la_list \<Rightarrow> l4_addr_t \<Rightarrow> u32 \<Rightarrow> la_list res" where
  "l4la_free first block sz =
     (if block = 0 then Inl Undefined
      else bind_res (la_insert block (la_round sz) first) la_merge)"

fun la_search :: "u32 \<Rightarrow> l4_addr_t \<Rightarrow> la_list \<Rightarrow> (la_list \<times> l4_addr_t) res" where
  "la_search sz almask [] = Inr ([], 0)"
| "la_search sz almask ((c, csz) # bs) =
     (let go_on = bind_res (la_search sz almask bs) (\<lambda>(bs', r). Inr ((c, csz) # bs', r)) in
      if csz < sz then go_on
      else if c AND almask = 0
      then (if csz = sz then Inr (bs, c)
            else if csz - sz \<ge> 8 then Inr ((c + sz, csz - sz) # bs, c)
            else Inl Panic)
      else (let a_start = (c AND NOT almask) + 1 + almask in
            if a_start - c \<ge> csz then go_on
            else (let a_size = csz - a_start + c in
                  if a_size \<ge> sz
                  then (if a_size = sz then Inr ((c, csz - a_size) # bs, a_start)
                        else if a_size - sz \<ge> 8 \<and> csz - a_size \<ge> 8
                        then Inr ((c, csz - a_size) # (a_start + sz, a_size - sz) # bs, a_start)
                        else Inl Panic)
                  else go_on)))"

definition l4la_alloc :: "la_list \<Rightarrow> u32 \<Rightarrow> nat \<Rightarrow> (la_list \<times> l4_addr_t) res" where
  "l4la_alloc first sz align =
     (if align \<ge> 31 then Inl Undefined
      else la_search (la_round sz) (push_bit align 1 - 1) first)"

fun la_sum :: "la_list \<Rightarrow> u32 \<Rightarrow> u32" where
  "la_sum [] a = a"
| "la_sum ((c, csz) # bs) a = la_sum bs (a + csz)"

definition l4la_avail :: "la_list \<Rightarrow> u32" where
  "l4la_avail first = la_sum first 0"

definition l4la_init :: la_list where
  "l4la_init = []"

section \<open>Free memory\<close>

definition span :: "l4_addr_t \<Rightarrow> u32 \<Rightarrow> nat set" where
  "span a sz = {unat a ..< unat a + unat sz}"

fun la_cover :: "la_list \<Rightarrow> nat set" where
  "la_cover [] = {}"
| "la_cover ((c, csz) # bs) = span c csz \<union> la_cover bs"

text \<open>
  Blocks are ordered by address and do not overlap, start at \<open>lo\<close> or behind, have addresses and sizes that are multiples of
  8, are not empty and end below 4 GB.
\<close>

fun la_ok :: "nat \<Rightarrow> la_list \<Rightarrow> bool" where
  "la_ok lo [] = True"
| "la_ok lo ((c, csz) # bs) =
     (lo \<le> unat c \<and> 0 < unat c \<and> 8 dvd unat c \<and> 8 dvd unat csz \<and> 0 < unat csz \<and> unat c + unat csz < 2 ^ 32 \<and>
      la_ok (unat c + unat csz) bs)"

lemma la_ok_mono: "la_ok lo bs \<Longrightarrow> lo' \<le> lo \<Longrightarrow> la_ok lo' bs"
  by (cases bs) auto

lemma la_cover_ge: "la_ok lo bs \<Longrightarrow> x \<in> la_cover bs \<Longrightarrow> lo \<le> x"
proof (induction lo bs rule: la_ok.induct)
  case (2 lo c csz bs)
  then show ?case by (auto simp: span_def)
qed simp

lemma dvd8_ge: "8 dvd n \<Longrightarrow> 0 < n \<Longrightarrow> 8 \<le> n" for n :: nat
  by (auto simp: dvd_def)

lemma unat_la_round:
  assumes "unat sz \<le> 2 ^ 32 - 8"
  shows "unat (la_round sz) = (unat sz + 7) div 8 * 8"
proof -
  have "la_round sz = (sz + 7) AND NOT (mask 3)" by (simp add: la_round_def ALIGN_MASK_def mask_eq_exp_minus_1)
  moreover have "unat (sz + 7) = unat sz + 7" using assms by (subst unat_add_lt) auto
  ultimately show ?thesis by (simp add: and_not_mask_unat)
qed

lemma la_round_dvd: "8 dvd unat (la_round sz)"
proof -
  have "la_round sz = (sz + 7) AND NOT (mask 3)" by (simp add: la_round_def ALIGN_MASK_def mask_eq_exp_minus_1)
  then show ?thesis by (simp add: and_not_mask_unat)
qed

section \<open>Freeing\<close>

lemma la_insert_ok:
  "la_ok lo bs \<Longrightarrow> lo \<le> unat b \<Longrightarrow> 0 < unat b \<Longrightarrow> 8 dvd unat b \<Longrightarrow> 8 dvd unat sz \<Longrightarrow> 0 < unat sz \<Longrightarrow>
   unat b + unat sz < 2 ^ 32 \<Longrightarrow> span b sz \<inter> la_cover bs = {} \<Longrightarrow>
   \<exists>bs'. la_insert b sz bs = Inr bs' \<and> la_ok lo bs' \<and> la_cover bs' = la_cover bs \<union> span b sz"
proof (induction lo bs rule: la_ok.induct)
  case (2 lo c csz bs)
  have d: "span b sz \<inter> span c csz = {}" "span b sz \<inter> la_cover bs = {}" using 2(9) by auto
  have us: "unat (b + sz) = unat b + unat sz" using 2(8) by (subst unat_add_lt) simp_all
  have cp: "0 < unat csz" and ok: "la_ok (unat c + unat csz) bs" using 2(2) by auto
  show ?case
  proof (cases "c < b")
    case True
    then have le: "unat c + unat csz \<le> unat b"
      using d(1) cp 2(7) by (auto simp: span_def word_less_unat not_le disjoint_iff)
    from 2(1) [OF ok le 2(4-8) d(2)] obtain bs' where
      "la_insert b sz bs = Inr bs'" "la_ok (unat c + unat csz) bs'" "la_cover bs' = la_cover bs \<union> span b sz" by blast
    then show ?thesis using True 2(2) by auto
  next
    case False
    have ne: "c \<noteq> b" using d(1) cp 2(7) by (auto simp: span_def disjoint_iff)
    then have lt: "unat b < unat c" using False by (metis linorder_neqE word_less_unat)
    then have le: "unat b + unat sz \<le> unat c"
      using d(1) cp 2(7) by (auto simp: span_def not_le disjoint_iff)
    then have "b + sz \<le> c" using us by (simp add: word_le_unat)
    then show ?thesis using False ne 2(2-8) le by auto
  qed
qed simp

lemma la_merge_ok:
  "la_ok lo bs \<Longrightarrow> \<exists>bs'. la_merge bs = Inr bs' \<and> la_ok lo bs' \<and> la_cover bs' = la_cover bs"
proof (induction bs arbitrary: lo rule: la_merge.induct)
  case (3 c sz n nsz bs)
  have uc: "unat (c + sz) = unat c + unat sz" using 3(3) by (subst unat_add_lt) auto
  show ?case
  proof (cases "c + sz = n")
    case True
    have n: "unat n = unat c + unat sz" using True uc by simp
    have us: "unat (sz + nsz) = unat sz + unat nsz" using 3(3) n by (subst unat_add_lt) auto
    have ge: "sz + nsz \<ge> 8" using 3(3) dvd8_ge [of "unat sz"] us by (simp add: word_le_unat)
    have ok: "la_ok lo ((c, sz + nsz) # bs)" using 3(3) us n by (auto simp: add.assoc)
    have "span c (sz + nsz) = span c sz \<union> span n nsz" using us n by (auto simp: span_def)
    with 3(1) [OF True ge ok] True ge show ?thesis by auto
  next
    case False
    have "la_ok (unat c + unat sz) ((n, nsz) # bs)" using 3(3) by simp
    with 3(2) [OF False this] False 3(3) show ?thesis by auto
  qed
qed auto

section \<open>Allocating\<close>

text \<open>The alignment mask, and the next aligned address behind a block that is not aligned.\<close>

lemma almask_mask: "push_bit al 1 - 1 = (mask al :: u32)"
  by (simp add: mask_eq_exp_minus_1 push_bit_eq_mult)

lemma and_mask_dvd: "c AND mask al = 0 \<longleftrightarrow> 2 ^ al dvd unat c" for c :: u32
proof -
  have "unat (c AND mask al) = unat c mod 2 ^ al"
    unfolding take_bit_eq_mask [symmetric] unsigned_take_bit_eq by (rule take_bit_eq_mod)
  then show ?thesis by (metis dvd_eq_mod_eq_0 unat_eq_zero)
qed

definition next_al :: "nat \<Rightarrow> nat \<Rightarrow> nat" where
  "next_al al c = c div 2 ^ al * 2 ^ al + 2 ^ al"

lemma next_al_props:
  "2 ^ al dvd next_al al c" "c < next_al al c" "next_al al c \<le> c + 2 ^ al"
  "2 ^ al dvd q \<Longrightarrow> \<not> 2 ^ al dvd c \<Longrightarrow> c \<le> q \<Longrightarrow> next_al al c \<le> q"
proof -
  show "2 ^ al dvd next_al al c" by (simp add: next_al_def)
  have m: "c div 2 ^ al * 2 ^ al + c mod 2 ^ al = c" by (rule div_mult_mod_eq)
  have "c mod 2 ^ al < 2 ^ al" by simp
  then show "c < next_al al c" using m unfolding next_al_def by linarith
  show "next_al al c \<le> c + 2 ^ al" using m unfolding next_al_def by linarith
  assume q: "2 ^ al dvd q" "\<not> 2 ^ al dvd c" "c \<le> q"
  obtain k where k: "q = 2 ^ al * k" using q(1) by (auto simp: dvd_def)
  have "c < q" using q k by (cases "c = q") auto
  then have "c div 2 ^ al < k" using k by (simp add: less_mult_imp_div_less mult.commute)
  then have "(c div 2 ^ al + 1) * 2 ^ al \<le> k * 2 ^ al" by (intro mult_right_mono) auto
  then show "next_al al c \<le> q" using k by (simp add: next_al_def mult.commute)
qed

lemma a_start_minus:
  fixes c :: u32
  assumes "al < 31"
  defines "A \<equiv> (c AND NOT (mask al)) + 1 + mask al"
  shows "unat (A - c) = next_al al (unat c) - unat c"
    "next_al al (unat c) < 2 ^ 32 \<Longrightarrow> unat A = next_al al (unat c)"
proof -
  let ?N = "next_al al (unat c)"
  have l: "(2 :: nat) ^ al < 2 ^ 31" using assms(1) by (intro power_strict_increasing) auto
  have A: "A = of_nat ?N"
  proof -
    have "c AND NOT (mask al) = of_nat (unat c div 2 ^ al * 2 ^ al)" by (metis and_not_mask_unat of_nat_unat ucast_id)
    then show ?thesis by (simp add: A_def next_al_def mask_eq_exp_minus_1)
  qed
  then show "?N < 2 ^ 32 \<Longrightarrow> unat A = ?N" by (simp add: unat_of_nat_lt)
  have "A - c = of_nat (?N - unat c)" using A next_al_props(2) [of "unat c" al] by (simp add: of_nat_diff)
  moreover have "?N - unat c < 2 ^ 32" using next_al_props(3) [of al "unat c"] l by simp
  ultimately show "unat (A - c) = ?N - unat c" by (simp add: unat_of_nat_lt)
qed

definition fits :: "u32 \<Rightarrow> nat \<Rightarrow> nat \<Rightarrow> l4_addr_t \<times> u32 \<Rightarrow> bool" where
  "fits sz al q b \<longleftrightarrow> 2 ^ al dvd q \<and> unat (fst b) \<le> q \<and> q + unat sz \<le> unat (fst b) + unat (snd b)"

text \<open>What a search has to deliver: the lists before and after, and the answer.\<close>

definition served :: "u32 \<Rightarrow> nat \<Rightarrow> la_list \<Rightarrow> la_list \<Rightarrow> l4_addr_t \<Rightarrow> bool" where
  "served sz al bs bs' p \<longleftrightarrow>
     (if p = 0 then bs' = bs \<and> (\<forall>b \<in> set bs. \<forall>q. \<not> fits sz al q b)
      else 2 ^ al dvd unat p \<and> span p sz \<subseteq> la_cover bs \<and> la_cover bs' = la_cover bs - span p sz)"

lemma served_skip:
  assumes "la_ok lo ((c, csz) # bs)" "\<And>q. \<not> fits sz al q (c, csz)"
    and "\<exists>bs' p. la_search sz m bs = Inr (bs', p) \<and> la_ok (unat c + unat csz) bs' \<and> served sz al bs bs' p"
  shows "\<exists>bs' p. bind_res (la_search sz m bs) (\<lambda>(bs', r). Inr ((c, csz) # bs', r)) = Inr (bs', p) \<and>
    la_ok lo bs' \<and> served sz al ((c, csz) # bs) bs' p"
proof -
  from assms(3) obtain bs' p where r: "la_search sz m bs = Inr (bs', p)" "la_ok (unat c + unat csz) bs'" "served sz al bs bs' p"
    by blast
  have "la_ok (unat c + unat csz) bs" using assms(1) by simp
  then have "span c csz \<inter> span p sz = {}" if "span p sz \<subseteq> la_cover bs"
    using that la_cover_ge [of "unat c + unat csz" bs] by (fastforce simp: span_def)
  then have "served sz al ((c, csz) # bs) ((c, csz) # bs') p" using r(3) assms(2) by (auto simp: served_def)
  moreover have "la_ok lo ((c, csz) # bs')" using assms(1) r(2) by simp
  ultimately show ?thesis using r(1) by simp
qed

lemma la_search_aligned:
  assumes ok: "la_ok lo ((c, csz) # bs)" and sz: "8 dvd unat sz" "0 < unat sz" and ge: "\<not> csz < sz"
    and al: "2 ^ al dvd unat c"
  defines "r \<equiv> if csz = sz then Inr (bs, c) else if csz - sz \<ge> 8 then Inr ((c + sz, csz - sz) # bs, c) else Inl Panic"
  shows "\<exists>bs' p. r = Inr (bs', p) \<and> la_ok lo bs' \<and> served sz al ((c, csz) # bs) bs' p"
proof (cases "csz = sz")
  case True
  have "span c sz \<inter> la_cover bs = {}"
    using la_cover_ge [of "unat c + unat csz" bs] ok True by (fastforce simp: span_def)
  moreover have "la_ok lo bs" using ok la_ok_mono [of "unat c + unat csz" bs lo] by simp
  ultimately show ?thesis using True ok al by (auto simp: r_def served_def)
next
  case False
  have le: "unat sz \<le> unat csz" using ge by (simp add: word_less_unat)
  have ne: "unat sz \<noteq> unat csz" using False by (metis word_unat_eq_iff)
  have us: "unat (csz - sz) = unat csz - unat sz" using le by (intro unat_sub_le) (simp add: word_le_unat)
  have uc: "unat (c + sz) = unat c + unat sz" using ok le by (subst unat_add_lt) auto
  have d: "8 dvd unat csz - unat sz" using ok sz by (auto intro: dvd_diff_nat)
  have "csz - sz \<ge> 8" using dvd8_ge [OF d] le ne us by (simp add: word_le_unat)
  then have r: "r = Inr ((c + sz, csz - sz) # bs, c)" using False by (simp add: r_def)
  have "span c csz = span c sz \<union> span (c + sz) (csz - sz)" "span c sz \<inter> span (c + sz) (csz - sz) = {}"
    using uc us le by (auto simp: span_def)
  moreover have "span c sz \<inter> la_cover bs = {}"
    using la_cover_ge [of "unat c + unat csz" bs] ok le by (fastforce simp: span_def)
  moreover have "c \<noteq> 0" using ok by auto
  ultimately have "served sz al ((c, csz) # bs) ((c + sz, csz - sz) # bs) c" using al by (auto simp: served_def)
  moreover have "la_ok lo ((c + sz, csz - sz) # bs)" using ok sz uc us le ne d by (auto simp: word_unat_eq_iff)
  ultimately show ?thesis using r by blast
qed

lemma a_size_unat:
  fixes c csz :: u32
  assumes "al < 31" "next_al al (unat c) < unat c + unat csz" "unat c + unat csz < 2 ^ 32"
  defines "A \<equiv> (c AND NOT (mask al)) + 1 + mask al"
  shows "unat (csz - A + c) = unat c + unat csz - next_al al (unat c)"
proof -
  let ?N = "next_al al (unat c)"
  have uA: "unat A = ?N" using a_start_minus(2) [OF assms(1), of c] assms(2,3) by (simp add: A_def)
  have w: "x = of_nat (unat x)" for x :: u32 by simp
  have "csz - A + c = of_nat (unat csz) - of_nat ?N + of_nat (unat c)" using w [of csz] w [of A] w [of c] uA by simp
  also have "\<dots> = of_nat (unat c + unat csz - ?N)" using assms(2) by (subst of_nat_diff) (simp_all add: algebra_simps)
  finally show ?thesis using assms(3) by (simp add: unat_of_nat_lt)
qed

text \<open>A block that is not aligned is cut at the next aligned address.\<close>

lemma la_search_unaligned:
  assumes ok: "la_ok lo ((c, csz) # bs)" and sz: "8 dvd unat sz" "0 < unat sz" and al: "al < 31"
    and na: "\<not> 2 ^ al dvd unat c"
  defines "A \<equiv> (c AND NOT (mask al)) + 1 + mask al" and "N \<equiv> next_al al (unat c)"
  assumes in_block: "\<not> csz \<le> A - c" and fit: "sz \<le> csz - A + c"
  defines "r \<equiv> if csz - A + c = sz then Inr ((c, csz - (csz - A + c)) # bs, A)
    else if csz - A + c - sz \<ge> 8 \<and> csz - (csz - A + c) \<ge> 8
    then Inr ((c, csz - (csz - A + c)) # (A + sz, csz - A + c - sz) # bs, A) else Inl Panic"
  shows "\<exists>bs' p. r = Inr (bs', p) \<and> la_ok lo bs' \<and> served sz al ((c, csz) # bs) bs' p"
proof -
  have al3: "3 \<le> al"
  proof (rule ccontr)
    assume "\<not> 3 \<le> al"
    then have "(2 :: nat) ^ al dvd 2 ^ 3" by (intro le_imp_power_dvd) simp
    then have "2 ^ al dvd unat c" using ok by (auto intro: dvd_trans)
    then show False using na by simp
  qed
  then have "(2 :: nat) ^ 3 dvd 2 ^ al" by (intro le_imp_power_dvd)
  then have N8: "8 dvd N" using next_al_props(1) [of al "unat c"] by (auto simp: N_def intro: dvd_trans)
  have cN: "unat c < N" using next_al_props(2) by (simp add: N_def)
  have NE: "N < unat c + unat csz" using in_block a_start_minus(1) [OF al, of c] cN
    by (simp add: A_def N_def word_le_unat not_le)
  then have uA: "unat A = N" using a_start_minus(2) [OF al, of c] ok by (simp add: A_def N_def)
  let ?R = "unat c + unat csz - N"
  have uR: "unat (csz - A + c) = ?R" using a_size_unat [OF al, of c csz] NE ok by (simp add: A_def N_def)
  have Rc: "?R \<le> unat csz" using cN by simp
  have us: "unat (csz - (csz - A + c)) = N - unat c"
    using Rc uR NE by (subst unat_sub_le) (auto simp: word_le_unat)
  have d1: "8 dvd N - unat c" using N8 ok by (auto intro: dvd_diff_nat)
  have d2: "8 dvd ?R" using N8 ok by (auto intro: dvd_diff_nat)
  have fR: "unat sz \<le> ?R" using fit uR by (simp add: word_le_unat)
  have uAs: "unat (A + sz) = N + unat sz" using uA ok fR NE by (subst unat_add_lt) auto
  have urest: "unat (csz - A + c - sz) = ?R - unat sz" using fR uR by (subst unat_sub_le) (auto simp: word_le_unat)
  have pA: "A \<noteq> 0" using uA cN by auto
  have ge1: "csz - (csz - A + c) \<ge> 8" using dvd8_ge [OF d1] us cN by (simp add: word_le_unat)
  have disj: "span A sz \<inter> la_cover bs = {}"
    using la_cover_ge [of "unat c + unat csz" bs] ok fR uA by (fastforce simp: span_def)
  have al_A: "2 ^ al dvd unat A" using next_al_props(1) uA by (simp add: N_def)
  have front: "span c (csz - (csz - A + c)) = {unat c ..< N}" using us cN by (auto simp: span_def)
  have mid: "span A sz = {N ..< N + unat sz}" using uA by (simp add: span_def)
  show ?thesis
  proof (cases "csz - A + c = sz")
    case True
    have e: "N + unat sz = unat c + unat csz" using True uR NE by auto
    have "served sz al ((c, csz) # bs) ((c, csz - (csz - A + c)) # bs) A"
      using pA al_A disj cN e unfolding served_def la_cover.simps front mid by (auto simp: span_def)
    moreover have "la_ok lo ((c, csz - (csz - A + c)) # bs)"
      using ok us cN d1 NE la_ok_mono [of "unat c + unat csz" bs N] by auto
    ultimately show ?thesis using True by (simp add: r_def)
  next
    case False
    have ne: "unat sz \<noteq> ?R" using False uR by (metis word_unat_eq_iff)
    have d3: "8 dvd ?R - unat sz" by (rule dvd_diff_nat [OF d2 sz(1)])
    have ge2: "csz - A + c - sz \<ge> 8" using dvd8_ge [OF d3] fR ne urest by (simp add: word_le_unat)
    have rear: "span (A + sz) (csz - A + c - sz) = {N + unat sz ..< unat c + unat csz}"
      using uAs urest fR NE by (auto simp: span_def)
    let ?bs = "(c, csz - (csz - A + c)) # (A + sz, csz - A + c - sz) # bs"
    have "served sz al ((c, csz) # bs) ?bs A"
      using pA al_A disj cN fR NE unfolding served_def la_cover.simps front mid rear by (auto simp: span_def)
    moreover have "N + unat sz + (?R - unat sz) = unat c + unat csz" using fR NE by simp
    then have "la_ok lo ?bs"
      using ok us cN d1 d3 NE uAs urest fR ne N8 sz by (auto intro: dvd_add)
    ultimately show ?thesis using False ge1 ge2 by (simp add: r_def)
  qed
qed

lemma la_search_ok:
  assumes sz: "8 dvd unat sz" "0 < unat sz" and al: "al < 31"
  shows "la_ok lo bs \<Longrightarrow>
    \<exists>bs' p. la_search sz (mask al) bs = Inr (bs', p) \<and> la_ok lo bs' \<and> served sz al bs bs' p"
proof (induction lo bs rule: la_ok.induct)
  case (2 lo c csz bs)
  let ?A = "(c AND NOT (mask al)) + 1 + mask al"
  have IH: "\<exists>bs' p. la_search sz (mask al) bs = Inr (bs', p) \<and> la_ok (unat c + unat csz) bs' \<and> served sz al bs bs' p"
    using 2 by simp
  note skip = served_skip [OF 2(2) _ IH]
  consider "csz < sz" | "\<not> csz < sz" "2 ^ al dvd unat c" | "\<not> csz < sz" "\<not> 2 ^ al dvd unat c" "csz \<le> ?A - c \<or> \<not> sz \<le> csz - ?A + c"
    | "\<not> csz < sz" "\<not> 2 ^ al dvd unat c" "\<not> csz \<le> ?A - c" "sz \<le> csz - ?A + c" by blast
  then show ?case
  proof cases
    case 1
    then have "\<not> fits sz al q (c, csz)" for q by (auto simp: fits_def word_less_unat)
    from skip [OF this] 1 show ?thesis by (simp add: Let_def)
  next
    case 2
    from la_search_aligned [OF \<open>la_ok lo ((c, csz) # bs)\<close> sz 2] 2 show ?thesis by (simp add: Let_def and_mask_dvd)
  next
    case 3
    have "\<not> fits sz al q (c, csz)" for q
    proof
      assume f: "fits sz al q (c, csz)"
      let ?N = "next_al al (unat c)"
      have le: "?N + unat sz \<le> unat c + unat csz"
        using f next_al_props(4) [of al q "unat c"] 3(2) by (auto simp: fits_def)
      then have lt: "?N < unat c + unat csz" using sz by simp
      have e: "unat c + unat csz < 2 ^ 32" using \<open>la_ok lo ((c, csz) # bs)\<close> by simp
      have "\<not> csz \<le> ?A - c" using a_start_minus(1) [OF al, of c] lt next_al_props(2) [of "unat c" al] by (simp add: word_le_unat)
      moreover have "sz \<le> csz - ?A + c" using a_size_unat [OF al lt e] le by (simp add: word_le_unat)
      ultimately show False using 3(3) by simp
    qed
    from skip [OF this] 3 show ?thesis by (auto simp: Let_def and_mask_dvd)
  next
    case 4
    from la_search_unaligned [OF \<open>la_ok lo ((c, csz) # bs)\<close> sz al 4(2-4)] 4 show ?thesis
      by (simp add: Let_def and_mask_dvd)
  qed
qed (simp add: served_def)

section \<open>Properties\<close>

lemma la_round_pos: "0 < unat sz \<Longrightarrow> unat sz \<le> 2 ^ 32 - 8 \<Longrightarrow> unat sz \<le> unat (la_round sz) \<and> 0 < unat (la_round sz)"
  by (simp add: unat_la_round) arith



text \<open>
  \<open>l4la_free\<close> of a block outside the free memory succeeds, keeps the list well formed and adds exactly the rounded
  block to the free memory.
\<close>

theorem l4la_free_spec:
  assumes "la_ok 0 first" "0 < unat sz" "unat sz \<le> 2 ^ 32 - 8" "block \<noteq> 0" "8 dvd unat block"
    and "unat block + unat (la_round sz) < 2 ^ 32" "span block (la_round sz) \<inter> la_cover first = {}"
  shows "\<exists>first'. l4la_free first block sz = Inr first' \<and> la_ok 0 first' \<and>
    la_cover first' = la_cover first \<union> span block (la_round sz)"
proof -
  have r: "0 < unat (la_round sz)" using la_round_pos [OF assms(2,3)] by simp
  have b: "0 < unat block" using assms(4) by (simp add: unat_gt_0)
  from la_insert_ok [OF assms(1) _ b assms(5) la_round_dvd r assms(6,7)] obtain bs where
    bs: "la_insert block (la_round sz) first = Inr bs" "la_ok 0 bs" "la_cover bs = la_cover first \<union> span block (la_round sz)" by auto
  from la_merge_ok [OF bs(2)] bs assms(4) show ?thesis by (auto simp: l4la_free_def)
qed

theorem l4la_free_spec_witness: "\<exists>first'. l4la_free [(4096, 64)] 8192 16 = Inr first' \<and> la_ok 0 first'"
proof -
  have "la_round 16 = 16" by (simp add: la_round_def ALIGN_MASK_def)
  then show ?thesis using l4la_free_spec [of "[(4096, 64)]" 16 8192] by (auto simp: span_def dvd_def)
qed

lemma la_cover_below: "la_ok lo bs \<Longrightarrow> la_cover bs \<subseteq> {1 ..< 2 ^ 32}"
proof (induction lo bs rule: la_ok.induct)
  case (2 lo c csz bs)
  then show ?case by (auto simp: span_def)
qed simp

lemma la_sum_cover:
  "la_ok lo bs \<Longrightarrow> unat a + card (la_cover bs) < 2 ^ 32 \<Longrightarrow> unat (la_sum bs a) = unat a + card (la_cover bs)"
proof (induction lo bs arbitrary: a rule: la_ok.induct)
  case (2 lo c csz bs)
  have ok: "la_ok (unat c + unat csz) bs" using 2(2) by simp
  have f: "finite (la_cover bs)" using la_cover_below [OF ok] finite_subset by blast
  have "span c csz \<inter> la_cover bs = {}" using la_cover_ge [OF ok] by (fastforce simp: span_def)
  moreover have "finite (span c csz)" "card (span c csz) = unat csz" by (simp_all add: span_def)
  ultimately have c: "card (la_cover ((c, csz) # bs)) = unat csz + card (la_cover bs)"
    using f by (simp add: card_Un_disjoint)
  have "unat (a + csz) = unat a + unat csz" using 2(3) c by (subst unat_add_lt) simp_all
  with 2(1) [OF ok, of "a + csz"] 2(3) c show ?case by simp
qed simp

text \<open>
  \<open>l4la_avail\<close> is the number of free bytes.
\<close>

theorem l4la_avail_spec:
  assumes "la_ok 0 first"
  shows "unat (l4la_avail first) = card (la_cover first)"
proof -
  have "card (la_cover first) \<le> card {1 ..< 2 ^ 32 :: nat}" using la_cover_below [OF assms] by (intro card_mono) auto
  then show ?thesis using la_sum_cover [OF assms, of 0] by (simp add: l4la_avail_def)
qed

theorem l4la_avail_spec_witness: "unat (l4la_avail [(4096, 64)]) = card (la_cover [(4096, 64)])"
  by (rule l4la_avail_spec) (simp add: dvd_def)

section \<open>Observations\<close>

text \<open>A request of no bytes, or of more than 4 GB - 8, which rounds to 0, gets a block that stays in the list.\<close>

lemma l4la_alloc_zero: "l4la_alloc [(4096, 64)] 0 0 = Inr ([(4096, 64)], 4096)" "l4la_alloc [(4096, 64)] 0xFFFFFFFF 0 = Inr ([(4096, 64)], 4096)"
  by (simp_all add: l4la_alloc_def la_round_def ALIGN_MASK_def)

end
