(* ===== verification/L4Bits.thy ===== *)
theory L4Bits
  imports L4Sys
begin

text \<open>
  Bit scans of \<open>l4util/bitops.h\<close>, and the loop that unmaps a range of addresses with the largest flexpages possible.
  The loop stands twice in the sources, in the region mapper (\<open>l4rm_unmap_region\<close>) and in the dataspace manager
  (\<open>__unmap_area\<close>).
\<close>

section \<open>Bit scans\<close>

text \<open>Index of the highest and of the lowest bit that is set.\<close>

fun bit_down :: "u32 \<Rightarrow> nat \<Rightarrow> nat option" where
  "bit_down x 0 = None"
| "bit_down x (Suc n) = (if bit x n then Some n else bit_down x n)"

definition l4util_bsr :: "u32 \<Rightarrow> nat option" where
  "l4util_bsr x = bit_down x 32"

definition l4util_bsf :: "u32 \<Rightarrow> nat option" where
  "l4util_bsf x = first_index (bit x) 0 32"

lemma bit_down_SomeD: "bit_down x n = Some k \<Longrightarrow> k < n \<and> bit x k \<and> (\<forall>j. k < j \<and> j < n \<longrightarrow> \<not> bit x j)"
  by (induction n) (auto split: if_splits simp: less_Suc_eq)

lemma bit_down_None_iff: "bit_down x n = None \<longleftrightarrow> (\<forall>j < n. \<not> bit x j)"
  by (induction n) (auto simp: less_Suc_eq)

lemma bsr_bounds:
  assumes "l4util_bsr x = Some n"
  shows "n < 32" "unat x < 2 ^ Suc n" "2 ^ n \<le> unat x"
proof -
  note b = bit_down_SomeD [OF assms [unfolded l4util_bsr_def]]
  then show n: "n < 32" by simp
  have "take_bit (Suc n) x = x" using b by (intro bit_word_eqI) (auto simp: bit_simps not_less_eq)
  then have "unat x = unat x mod 2 ^ Suc n" by (metis unat_take_bit_mod)
  then show "unat x < 2 ^ Suc n" by (metis mod_less_divisor zero_less_numeral zero_less_power)
  have "bit (unat x) n" using b by (simp add: bit_unsigned_iff)
  then show "2 ^ n \<le> unat x" by (metis bit_iff_odd div_less even_zero not_less)
qed

lemma bsr_eq_bsf: "l4util_bsr x = Some n \<Longrightarrow> l4util_bsf x = Some n \<Longrightarrow> x = 2 ^ n"
  using bit_down_SomeD [of x 32 n] first_index_SomeD [of "bit x" 0 32 n]
  by (intro bit_word_eqI) (auto simp: l4util_bsr_def l4util_bsf_def bit_simps, metis linorder_neqE_nat)

lemma bsf_exp: "k < 32 \<Longrightarrow> l4util_bsf (2 ^ k) = Some k"
  unfolding l4util_bsf_def first_index_eq_Some_iff by (auto simp: bit_simps)

lemma bsf_spec:
  assumes "a \<noteq> 0"
  obtains n where "l4util_bsf a = Some n" "n < 32" "\<And>k. k \<le> n \<longleftrightarrow> k < 32 \<and> 2 ^ k dvd unat a"
proof -
  have "\<exists>k. bit a k" using assms by (metis bit_0_eq bit_word_eqI bot_apply bot_bool_def)
  then obtain i where i: "bit a i" by blast
  have "i < 32" using bit_imp_le_length [OF i] by simp
  then have "first_index (bit a) 0 32 \<noteq> None" using first_index_None_iff [of "bit a" 0 32] i by auto
  then obtain n where n: "first_index (bit a) 0 32 = Some n" by blast
  note f = first_index_SomeD [OF n]
  have d: "2 ^ k dvd unat a \<longleftrightarrow> (\<forall>i < k. \<not> bit a i)" for k
  proof -
    have "2 ^ k dvd unat a \<longleftrightarrow> unat (take_bit k a) = 0" by (simp add: unat_take_bit_mod dvd_eq_mod_eq_0)
    also have "\<dots> \<longleftrightarrow> take_bit k a = 0" by (simp only: unat_eq_0)
    also have "\<dots> \<longleftrightarrow> (\<forall>i < k. \<not> bit a i)"
      using bit_imp_le_length [of a] by (auto simp: bit_eq_iff bit_simps)
    finally show ?thesis .
  qed
  show ?thesis
  proof (rule that [of n])
    show "l4util_bsf a = Some n" using n by (simp add: l4util_bsf_def)
    show "n < 32" using f by simp
    show "k \<le> n \<longleftrightarrow> k < 32 \<and> 2 ^ k dvd unat a" for k unfolding d using f by (metis add_0 le_less_trans less_le_trans not_le zero_le)
  qed
qed

lemma bsr_Some: "x \<noteq> 0 \<Longrightarrow> \<exists>n. l4util_bsr x = Some n"
  using bit_down_None_iff [of x 32]
  by (cases "l4util_bsr x") (auto simp: l4util_bsr_def intro: bit_word_eqI)

section \<open>Unmapping a range\<close>

text \<open>The flexpages of the calls of \<open>l4_fpage_unmap\<close>, as address and size exponent.\<close>

partial_function (option) unmap_loop :: "l4_addr_t \<Rightarrow> u32 \<Rightarrow> (l4_addr_t \<times> nat) list option" where
  "unmap_loop a sz =
     (if sz = 0 then Some []
      else (let addr_align = (if a = 0 then 32 else the (l4util_bsf a)); log2_size = the (l4util_bsr sz);
                fpage_size = (if addr_align < log2_size then addr_align else log2_size)
            in Option.bind (unmap_loop (a + push_bit fpage_size 1) (sz - push_bit fpage_size 1))
                 (\<lambda>l. Some ((a, fpage_size) # l))))"

text \<open>Every flexpage of the loop is aligned and inside the range, and no smaller than the alignment of the range.\<close>

lemma unmap_step:
  assumes "sz \<noteq> 0" "unat a + unat sz \<le> 2 ^ 32"
  obtains k where "unmap_loop a sz = Option.bind (unmap_loop (a + push_bit k 1) (sz - push_bit k 1)) (\<lambda>l. Some ((a, k) # l))"
    "k < 32" "2 ^ k \<le> unat sz" "2 ^ k dvd unat a" "\<And>j. j < 32 \<Longrightarrow> 2 ^ j dvd unat a \<Longrightarrow> 2 ^ j dvd unat sz \<Longrightarrow> j \<le> k"
proof -
  obtain m where m: "l4util_bsr sz = Some m" using bsr_Some [OF assms(1)] by blast
  note b = bsr_bounds [OF m]
  have pos: "0 < unat sz" using assms(1) by (simp add: unat_gt_0)
  have jm: "j \<le> m" if "2 ^ j dvd unat sz" for j
  proof -
    have "(2 :: nat) ^ j \<le> unat sz" using that pos by (rule dvd_imp_le)
    then have "(2 :: nat) ^ j < 2 ^ Suc m" using b(2) by linarith
    then have "j < Suc m" by (rule power_less_imp_less_exp [rotated]) simp
    then show ?thesis by simp
  qed
  define al where "al = (if a = 0 then 32 else the (l4util_bsf a))"
  define k where "k = (if al < m then al else m)"
  have al: "j \<le> al \<longleftrightarrow> 2 ^ j dvd unat a" if "j < 32" for j
  proof (cases "a = 0")
    case False
    then obtain n where "l4util_bsf a = Some n" "\<And>k. k \<le> n \<longleftrightarrow> k < 32 \<and> 2 ^ k dvd unat a" using bsf_spec by blast
    then show ?thesis using that False by (simp add: al_def)
  qed (use that in \<open>simp add: al_def\<close>)
  have k: "k \<le> m" "k \<le> al" "k < 32" using b(1) by (auto simp: k_def)
  show ?thesis
  proof (rule that [of k])
    show "unmap_loop a sz = Option.bind (unmap_loop (a + push_bit k 1) (sz - push_bit k 1)) (\<lambda>l. Some ((a, k) # l))"
      using assms(1) m by (subst unmap_loop.simps) (simp add: Let_def k_def al_def)
    show "k < 32" by (rule k(3))
    have "(2 :: nat) ^ k \<le> 2 ^ m" using k(1) by (intro power_increasing) simp_all
    then show "2 ^ k \<le> unat sz" using b(3) by linarith
    show "2 ^ k dvd unat a" using al [OF k(3)] k(2) by simp
    show "j \<le> k" if "j < 32" "2 ^ j dvd unat a" "2 ^ j dvd unat sz" for j using al [OF that(1)] that(2) jm [OF that(3)] by (simp add: k_def)
  qed
qed

lemma unmap_loop_ok:
  "unat a + unat sz \<le> 2 ^ 32 \<Longrightarrow> \<exists>l. unmap_loop a sz = Some l \<and>
     (\<Union>(b, k) \<in> set l. {unat b ..< unat b + 2 ^ k}) = {unat a ..< unat a + unat sz} \<and>
     (\<forall>(b, k) \<in> set l. 2 ^ k dvd unat b \<and> (2 ^ 12 dvd unat a \<longrightarrow> 2 ^ 12 dvd unat sz \<longrightarrow> 12 \<le> k))"
proof (induction "unat sz" arbitrary: a sz rule: less_induct)
  case less
  show ?case
  proof (cases "sz = 0")
    case True
    then show ?thesis by (simp add: unmap_loop.simps)
  next
    case False
    obtain k where k: "unmap_loop a sz = Option.bind (unmap_loop (a + push_bit k 1) (sz - push_bit k 1)) (\<lambda>l. Some ((a, k) # l))"
      "k < 32" "2 ^ k \<le> unat sz" "2 ^ k dvd unat a" "\<And>j. j < 32 \<Longrightarrow> 2 ^ j dvd unat a \<Longrightarrow> 2 ^ j dvd unat sz \<Longrightarrow> j \<le> k"
      using unmap_step [OF False less.prems] by blast
    have e: "unat (push_bit k 1 :: u32) = 2 ^ k" using k(2) unat_exp32 by simp
    have us: "unat (sz - push_bit k 1) = unat sz - 2 ^ k" using k(3) e by (subst unat_sub_le) (simp_all add: word_le_unat)
    have lt: "unat (sz - push_bit k 1) < unat sz" using us k(3) zero_less_power [of "2 :: nat" k] by linarith
    show ?thesis
    proof (cases "unat a + unat sz = 2 ^ 32 \<and> unat sz = 2 ^ k")
      case True
      then have "sz - push_bit k 1 = 0" using us by (simp add: unat_eq_0)
      then have "unmap_loop a sz = Some [(a, k)]" using k(1) by (simp add: unmap_loop.simps)
      then show ?thesis using True k(4) k(5) [of 12] by auto
    next
      case False
      have "unat a + 2 ^ k < 2 ^ 32" using False less.prems k(3) by linarith
      then have ua: "unat (a + push_bit k 1) = unat a + 2 ^ k" using e by (subst unat_add_lt) simp_all
      have "unat (a + push_bit k 1) + unat (sz - push_bit k 1) \<le> 2 ^ 32" using ua us less.prems k(3) by linarith
      from less.hyps [OF lt this] obtain l where l: "unmap_loop (a + push_bit k 1) (sz - push_bit k 1) = Some l"
        "(\<Union>(b, k) \<in> set l. {unat b ..< unat b + 2 ^ k}) = {unat a + 2 ^ k ..< unat a + unat sz}"
        "\<forall>(b, k') \<in> set l. 2 ^ k' dvd unat b \<and> (2 ^ 12 dvd unat a + 2 ^ k \<longrightarrow> 2 ^ 12 dvd unat sz - 2 ^ k \<longrightarrow> 12 \<le> k')"
        using ua us k(3) by auto
      have "2 ^ 12 dvd unat a + 2 ^ k \<and> 2 ^ 12 dvd unat sz - 2 ^ k" if "2 ^ 12 dvd unat a" "2 ^ 12 dvd unat sz"
      proof -
        have "(2 :: nat) ^ 12 dvd 2 ^ k" using that k(5) [of 12] by (intro le_imp_power_dvd) simp
        then show ?thesis using that by (auto intro: dvd_add dvd_diff_nat)
      qed
      moreover have "{unat a ..< unat a + 2 ^ k} \<union> {unat a + 2 ^ k ..< unat a + unat sz} = {unat a ..< unat a + unat sz}"
        using k(3) by (intro ivl_disj_un_two) simp_all
      ultimately show ?thesis using k l k(5) [of 12] by (intro exI [of _ "(a, k) # l"]) auto
    qed
  qed
qed

end
