(* ===== verification/Slab.thy ===== *)
theory Slab
  imports L4Bits
begin

text \<open>
  The slab allocator (\<open>slab/lib/src/slab.c\<close>, \<open>slab/lib/include/__slab.h\<close>). Slab descriptors lie in memory at the end of
  their buffers: they are a partial function on addresses, \<open>None\<close> where no descriptor of the cache is. The linked
  lists (the three lists of slabs, the chain of free objects in a slab) are lists of addresses in link order; the
  null pointer is 0, a null cache descriptor is \<open>None\<close>. The grow callback is an argument of the operations that may
  call it, its answer; calls of the release callback are recorded.
\<close>

section \<open>Data\<close>

definition sizeof_slab :: u32 where [l4_const]: "sizeof_slab = 24"

record slab =
  sl_num_free :: int
  sl_free_objs :: "l4_addr_t list"
  sl_data :: u32

record slab_cache =
  sc_obj_size :: u32
  sc_slab_size :: u32
  sc_num_objs :: int
  sc_num_slabs :: int
  sc_num_free :: int
  sc_max_free :: u32
  sc_full :: "l4_addr_t list"
  sc_part :: "l4_addr_t list"
  sc_free :: "l4_addr_t list"
  sc_grow_fn :: bool
  sc_release_fn :: bool
  sc_data :: u32
  sc_slab :: "l4_addr_t \<Rightarrow> slab option"
  sc_released :: "(l4_addr_t \<times> u32) list"

definition slab_from_pointer :: "slab_cache \<Rightarrow> l4_addr_t \<Rightarrow> l4_addr_t" where
  "slab_from_pointer c p = ((p + sc_slab_size c) AND NOT (sc_slab_size c - 1)) - sizeof_slab"

definition buffer_from_pointer :: "slab_cache \<Rightarrow> l4_addr_t \<Rightarrow> l4_addr_t" where
  "buffer_from_pointer c p = p AND NOT (sc_slab_size c - 1)"

section \<open>Lists\<close>

datatype slab_list = Full | Part | Free

fun get_list :: "slab_list \<Rightarrow> slab_cache \<Rightarrow> l4_addr_t list" where
  "get_list Full c = sc_full c"
| "get_list Part c = sc_part c"
| "get_list Free c = sc_free c"

fun set_list :: "slab_list \<Rightarrow> l4_addr_t list \<Rightarrow> slab_cache \<Rightarrow> slab_cache" where
  "set_list Full l c = c\<lparr>sc_full := l\<rparr>"
| "set_list Part l c = c\<lparr>sc_part := l\<rparr>"
| "set_list Free l c = c\<lparr>sc_free := l\<rparr>"

definition relink :: "l4_addr_t \<Rightarrow> slab_list \<Rightarrow> slab_list \<Rightarrow> slab_cache \<Rightarrow> slab_cache" where
  "relink s olist nlist c =
     (let c1 = set_list olist (remove1 s (get_list olist c)) c in set_list nlist (s # get_list nlist c1) c1)"

section \<open>Slabs\<close>

text \<open>The chain of free objects: \<open>n\<close> links after the object at \<open>p\<close>.\<close>

fun obj_chain :: "u32 \<Rightarrow> nat \<Rightarrow> l4_addr_t \<Rightarrow> l4_addr_t list" where
  "obj_chain obj 0 p = [p]"
| "obj_chain obj (Suc n) p = p # obj_chain obj n (p + (obj div 4) * 4)"

definition add_slab :: "slab_cache \<Rightarrow> l4_addr_t \<Rightarrow> u32 \<Rightarrow> slab_cache" where
  "add_slab c buffer d =
     (let s = slab_from_pointer c buffer
      in c\<lparr>sc_slab := (sc_slab c)(s \<mapsto> \<lparr>sl_num_free = sc_num_objs c,
             sl_free_objs = obj_chain (sc_obj_size c) (nat (sc_num_objs c - 1)) buffer, sl_data = d\<rparr>),
           sc_free := s # sc_free c, sc_num_slabs := sc_num_slabs c + 1, sc_num_free := sc_num_free c + 1\<rparr>)"

text \<open>\<open>g\<close>: the buffer and the data the callback returns, \<open>None\<close> for a null pointer.\<close>

definition grow_cache :: "(l4_addr_t \<times> u32) option \<Rightarrow> slab_cache \<Rightarrow> (slab_cache \<times> int) res" where
  "grow_cache g c =
     (if \<not> sc_grow_fn c then Inr (c, -1)
      else (case g of
              None \<Rightarrow> Inr (c, -1)
            | Some (buffer, d) \<Rightarrow>
                if buffer AND (sc_slab_size c - 1) = 0 then Inr (add_slab c buffer d, 0) else Inl Panic))"

text \<open>\<open>num_free\<close> is compared as an unsigned number; the loop runs over the list of free slabs.\<close>

fun shrink_loop :: "l4_addr_t list \<Rightarrow> slab_cache \<Rightarrow> slab_cache res" where
  "shrink_loop [] c = (if of_int (sc_num_free c) > sc_max_free c then Inl Exit else Inr c)"
| "shrink_loop (s # ss) c =
     (if of_int (sc_num_free c) > sc_max_free c
      then (case sc_slab c s of
              None \<Rightarrow> Inl Panic
            | Some sl \<Rightarrow>
                if sl_num_free sl = sc_num_objs c
                then shrink_loop ss
                       (c\<lparr>sc_free := ss, sc_num_slabs := sc_num_slabs c - 1, sc_num_free := sc_num_free c - 1,
                          sc_slab := (sc_slab c)(s := None),
                          sc_released := (buffer_from_pointer c s, sl_data sl) # sc_released c\<rparr>)
                else Inl Panic)
      else Inr c)"

definition shrink_cache :: "slab_cache \<Rightarrow> slab_cache res" where
  "shrink_cache c = (if \<not> sc_release_fn c then Inr c else shrink_loop (sc_free c) c)"

section \<open>The interface\<close>

text \<open>The size of a slab for objects of an aligned size; \<open>None\<close> when the shift leaves the width of the type.\<close>

definition slab_size_for :: "u32 \<Rightarrow> u32 option" where
  "slab_size_for obj =
     (let sz = (obj * 8 + sizeof_slab + L4_PAGESIZE - 1) AND L4_PAGEMASK
      in case l4util_bsr sz of
           None \<Rightarrow> Some sz
         | Some most \<Rightarrow>
             if Some most \<noteq> l4util_bsf sz
             then (if most + 1 < 31 then Some (push_bit (most + 1) 1) else None)
             else Some sz)"

definition l4slab_cache_init ::
  "slab_cache option \<Rightarrow> u32 \<Rightarrow> u32 \<Rightarrow> bool \<Rightarrow> bool \<Rightarrow> (slab_cache option \<times> int) res" where
  "l4slab_cache_init cache obj_size max_free grow_fn release_fn =
     (case cache of
        None \<Rightarrow> Inr (None, - L4_EINVAL)
      | Some c \<Rightarrow>
          if obj_size = 0 then Inr (Some c, - L4_EINVAL)
          else (let obj = (obj_size + 3) AND NOT 3
                in case slab_size_for obj of
                     None \<Rightarrow> Inl Undefined
                   | Some sz \<Rightarrow>
                       if obj = 0 then Inl Undefined
                       else Inr (Some (c\<lparr>sc_obj_size := obj, sc_slab_size := sz,
                              sc_num_objs := uint ((sz - sizeof_slab) div obj), sc_num_slabs := 0, sc_num_free := 0,
                              sc_max_free := max_free, sc_full := [], sc_part := [], sc_free := [],
                              sc_grow_fn := grow_fn, sc_release_fn := release_fn, sc_data := 0\<rparr>), 0)))"

text \<open>The releases of \<open>l4slab_destroy\<close>, for the slabs of a list.\<close>

definition destroy_list :: "slab_cache \<Rightarrow> l4_addr_t list \<Rightarrow> (l4_addr_t \<times> u32) list" where
  "destroy_list c ss = map (\<lambda>s. (buffer_from_pointer c s, case sc_slab c s of Some sl \<Rightarrow> sl_data sl | None \<Rightarrow> 0)) ss"

definition l4slab_destroy :: "slab_cache option \<Rightarrow> slab_cache option res" where
  "l4slab_destroy cache =
     (case cache of
        None \<Rightarrow> Inl Undefined
      | Some c \<Rightarrow>
          if \<not> sc_release_fn c then Inr (Some c)
          else Inr (Some (c\<lparr>sc_released := rev (destroy_list c (sc_full c @ sc_part c @ sc_free c)) @ sc_released c\<rparr>)))"

text \<open>The slab an object is taken from, and the list it is in.\<close>

definition pick_slab :: "(l4_addr_t \<times> u32) option \<Rightarrow> slab_cache \<Rightarrow> (slab_cache \<times> (l4_addr_t \<times> slab_list) option) res" where
  "pick_slab g c =
     (case sc_part c of
        s # _ \<Rightarrow> Inr (c, Some (s, Part))
      | [] \<Rightarrow>
          (case sc_free c of
             s # _ \<Rightarrow> Inr (c, Some (s, Free))
           | [] \<Rightarrow>
               bind_res (grow_cache g c) (\<lambda>(c1, ret).
                 if ret < 0 then Inr (c1, None)
                 else (case sc_free c1 of s # _ \<Rightarrow> Inr (c1, Some (s, Free)) | [] \<Rightarrow> Inl Undefined))))"

definition take_object :: "l4_addr_t \<Rightarrow> slab_list \<Rightarrow> slab_cache \<Rightarrow> (slab_cache \<times> l4_addr_t) res" where
  "take_object s olist c =
     (case sc_slab c s of
        None \<Rightarrow> Inl Panic
      | Some sl \<Rightarrow>
          (case sl_free_objs sl of
             [] \<Rightarrow> Inl Undefined
           | objp # rest \<Rightarrow>
               (let nf = sl_num_free sl - 1;
                    c1 = c\<lparr>sc_slab := (sc_slab c)(s \<mapsto> sl\<lparr>sl_free_objs := rest, sl_num_free := nf\<rparr>)\<rparr>
                in if nf = sc_num_objs c - 1
                   then Inr (relink s olist Part (c1\<lparr>sc_num_free := sc_num_free c1 - 1\<rparr>), objp)
                   else if nf = 0 then Inr (relink s olist Full c1, objp)
                   else Inr (c1, objp))))"

definition l4slab_alloc ::
  "(l4_addr_t \<times> u32) option \<Rightarrow> slab_cache option \<Rightarrow> (slab_cache option \<times> l4_addr_t) res" where
  "l4slab_alloc g cache =
     (case cache of
        None \<Rightarrow> Inr (None, 0)
      | Some c \<Rightarrow>
          bind_res (pick_slab g c) (\<lambda>(c1, r).
            case r of
              None \<Rightarrow> Inr (Some c1, 0)
            | Some (s, olist) \<Rightarrow> bind_res (take_object s olist c1) (\<lambda>(c2, objp). Inr (Some c2, objp))))"

definition put_object :: "l4_addr_t \<Rightarrow> slab_cache \<Rightarrow> slab_cache res" where
  "put_object objp c =
     (let s = slab_from_pointer c objp in
      case sc_slab c s of
        None \<Rightarrow> Inl Panic
      | Some sl \<Rightarrow>
          (let nf = sl_num_free sl + 1;
               c1 = c\<lparr>sc_slab := (sc_slab c)(s \<mapsto> sl\<lparr>sl_free_objs := objp # sl_free_objs sl, sl_num_free := nf\<rparr>)\<rparr>
           in if nf = 1 then Inr (relink s Full Part c1)
              else if nf = sc_num_objs c then Inr (relink s Part Free (c1\<lparr>sc_num_free := sc_num_free c1 + 1\<rparr>))
              else Inr c1))"

definition l4slab_free :: "slab_cache option \<Rightarrow> l4_addr_t \<Rightarrow> slab_cache option res" where
  "l4slab_free cache objp =
     (case cache of
        None \<Rightarrow> Inr None
      | Some c \<Rightarrow>
          if objp = 0 then Inr (Some c)
          else bind_res (put_object objp c) (\<lambda>c1.
                 if of_int (sc_num_free c1) > sc_max_free c1
                 then bind_res (shrink_cache c1) (\<lambda>c2. Inr (Some c2)) else Inr (Some c1)))"

definition l4slab_add_slab :: "slab_cache option \<Rightarrow> l4_addr_t \<Rightarrow> u32 \<Rightarrow> slab_cache option" where
  "l4slab_add_slab cache buffer d =
     (case cache of
        None \<Rightarrow> None
      | Some c \<Rightarrow>
          if buffer = 0 then Some c
          else if buffer AND (sc_slab_size c - 1) \<noteq> 0 then Some c
          else Some (add_slab c buffer d))"

definition l4slab_set_data :: "slab_cache option \<Rightarrow> u32 \<Rightarrow> slab_cache option" where
  "l4slab_set_data cache d = map_option (\<lambda>c. c\<lparr>sc_data := d\<rparr>) cache"

definition l4slab_get_data :: "slab_cache option \<Rightarrow> u32" where
  "l4slab_get_data cache = (case cache of None \<Rightarrow> 0 | Some c \<Rightarrow> sc_data c)"

section \<open>Geometry\<close>

text \<open>The slab size is a power of two that holds the objects and the descriptor.\<close>

definition slab_geo :: "slab_cache \<Rightarrow> nat \<Rightarrow> bool" where
  "slab_geo c m \<longleftrightarrow> m < 32 \<and> sc_slab_size c = 2 ^ m \<and> 2 \<le> sc_num_objs c \<and> 0 < unat (sc_obj_size c) \<and>
     4 dvd unat (sc_obj_size c) \<and> nat (sc_num_objs c) * unat (sc_obj_size c) + 24 \<le> 2 ^ m"

lemma and_not_mask_minus: "x AND NOT (mask m) = x - take_bit m x" for x :: "'a::len word"
proof -
  have "x - take_bit m x = x AND NOT (take_bit m x)"
    by (rule disjunctive_diff_eq_and_not) (rule bit_word_eqI, auto simp: bit_simps)
  also have "\<dots> = x AND NOT (mask m)" by (rule bit_word_eqI) (auto simp: bit_simps)
  finally show ?thesis by simp
qed

lemma unat_take_bit_add:
  "m \<le> 32 \<Longrightarrow> unat (take_bit m (a + b)) = (unat a + unat b) mod 2 ^ m" for a b :: u32
proof -
  assume "m \<le> 32"
  then have "(2 :: nat) ^ m dvd 2 ^ 32" by (rule le_imp_power_dvd)
  then have "(unat a + unat b) mod 2 ^ 32 mod 2 ^ m = (unat a + unat b) mod 2 ^ m" by (rule mod_mod_cancel)
  then show ?thesis by (simp add: unat_take_bit_mod unat_word_ariths)
qed

lemma size_mask: "slab_geo c m \<Longrightarrow> sc_slab_size c - 1 = mask m"
  by (simp add: slab_geo_def mask_eq_exp_minus_1)

lemma buffer_eq: "slab_geo c m \<Longrightarrow> buffer_from_pointer c p = p - take_bit m p"
  by (simp add: buffer_from_pointer_def size_mask and_not_mask_minus)

lemma slab_from_buffer:
  assumes "slab_geo c m"
  shows "slab_from_pointer c p = buffer_from_pointer c p + sc_slab_size c - sizeof_slab"
proof -
  have m: "m < 32" using assms by (simp add: slab_geo_def)
  have "unat (take_bit m (p + 2 ^ m)) = unat (take_bit m p)"
    using unat_take_bit_add [of m p "2 ^ m"] m by (simp add: unat_exp32) (simp add: unat_take_bit_mod)
  then have "take_bit m (p + 2 ^ m) = take_bit m p" by (simp only: word_unat_eq_iff)
  then show ?thesis
    using assms by (simp add: slab_from_pointer_def buffer_eq size_mask and_not_mask_minus) (simp add: slab_geo_def)
qed

lemma buffer_offset:
  assumes "slab_geo c m" "buffer_from_pointer c b = b" "k < 2 ^ m"
  shows "buffer_from_pointer c (b + of_nat k) = b"
proof -
  have m: "m < 32" using assms(1) by (simp add: slab_geo_def)
  have "(2 :: nat) ^ m \<le> 2 ^ 32" using m by (intro power_increasing) auto
  then have k: "unat (of_nat k :: u32) = k" using assms(3) by (intro unat_of_nat_lt) simp
  have "take_bit m b = 0" using assms(1,2) by (simp add: buffer_eq)
  then have "unat (take_bit m b) = 0" by simp
  then have "unat b mod 2 ^ m = 0" unfolding unat_take_bit_mod .
  then have "(unat b + k) mod 2 ^ m = k" using assms(3) by (metis add_0 mod_add_left_eq mod_less)
  then have "unat (take_bit m (b + of_nat k)) = unat (of_nat k :: u32)" using m k by (simp add: unat_take_bit_add)
  then have "take_bit m (b + of_nat k) = of_nat k" by (simp only: word_unat_eq_iff)
  then show ?thesis using assms(1) by (simp add: buffer_eq)
qed

text \<open>The objects of the slab with the descriptor at \<open>s\<close>.\<close>

definition slots :: "slab_cache \<Rightarrow> l4_addr_t \<Rightarrow> l4_addr_t set" where
  "slots c s = (\<lambda>k. buffer_from_pointer c s + of_nat (k * unat (sc_obj_size c))) ` {..< nat (sc_num_objs c)}"

definition desc_ok :: "slab_cache \<Rightarrow> l4_addr_t \<Rightarrow> bool" where
  "desc_ok c s \<longleftrightarrow> slab_from_pointer c s = s \<and> buffer_from_pointer c s \<noteq> 0"

lemma buffer_idem: "slab_geo c m \<Longrightarrow> buffer_from_pointer c (buffer_from_pointer c p) = buffer_from_pointer c p"
proof -
  assume g: "slab_geo c m"
  have "(p AND NOT (mask m)) AND NOT (mask m) = p AND NOT (mask m)" by (rule bit_word_eqI) (auto simp: bit_simps)
  then show ?thesis using g by (simp add: buffer_from_pointer_def size_mask)
qed

lemma slot_bound:
  assumes "slab_geo c m" "k < nat (sc_num_objs c)"
  shows "k * unat (sc_obj_size c) < 2 ^ m"
proof -
  have "k * unat (sc_obj_size c) \<le> nat (sc_num_objs c) * unat (sc_obj_size c)" using assms(2) by (intro mult_right_mono) auto
  moreover have "nat (sc_num_objs c) * unat (sc_obj_size c) + 24 \<le> 2 ^ m" using assms(1) by (simp add: slab_geo_def)
  ultimately show ?thesis by linarith
qed

lemma slots_buffer:
  assumes "slab_geo c m" "p \<in> slots c s"
  shows "buffer_from_pointer c p = buffer_from_pointer c s"
proof -
  obtain k where k: "k < nat (sc_num_objs c)" "p = buffer_from_pointer c s + of_nat (k * unat (sc_obj_size c))"
    using assms(2) by (auto simp: slots_def simp del: of_nat_mult)
  show ?thesis unfolding k(2) by (rule buffer_offset [OF assms(1) buffer_idem [OF assms(1)] slot_bound [OF assms(1) k(1)]])
qed

lemma slots_slab:
  assumes "slab_geo c m" "desc_ok c s" "p \<in> slots c s"
  shows "slab_from_pointer c p = s"
  using slots_buffer [OF assms(1,3)] slab_from_buffer [OF assms(1)] assms(2) by (simp add: desc_ok_def)

lemma slots_nonzero:
  assumes "slab_geo c m" "desc_ok c s" "p \<in> slots c s"
  shows "p \<noteq> 0"
proof
  assume "p = 0"
  then have "buffer_from_pointer c s = buffer_from_pointer c 0" using slots_buffer [OF assms(1,3)] by simp
  then show False using assms(2) by (simp add: desc_ok_def buffer_from_pointer_def)
qed

lemma slots_inj:
  assumes "slab_geo c m"
  shows "inj_on (\<lambda>k. buffer_from_pointer c s + of_nat (k * unat (sc_obj_size c))) {..< nat (sc_num_objs c)}"
proof (rule inj_onI)
  fix j k assume jk: "j \<in> {..< nat (sc_num_objs c)}" "k \<in> {..< nat (sc_num_objs c)}"
    "buffer_from_pointer c s + of_nat (j * unat (sc_obj_size c)) = buffer_from_pointer c s + of_nat (k * unat (sc_obj_size c))"
  have u: "unat (of_nat (i * unat (sc_obj_size c)) :: u32) = i * unat (sc_obj_size c)" if "i < nat (sc_num_objs c)" for i
  proof (rule unat_of_nat_lt)
    have "(2 :: nat) ^ m \<le> 2 ^ 32" using assms by (intro power_increasing) (auto simp: slab_geo_def)
    then show "i * unat (sc_obj_size c) < 2 ^ LENGTH(32)" using slot_bound [OF assms that] by simp
  qed
  have "(of_nat (j * unat (sc_obj_size c)) :: u32) = of_nat (k * unat (sc_obj_size c))" using jk(3) by (simp only: add_left_cancel)
  then have "j * unat (sc_obj_size c) = k * unat (sc_obj_size c)"
    using u [of j] u [of k] jk(1,2) by (metis lessThan_iff)
  then show "j = k" using assms by (simp add: slab_geo_def)
qed

lemma card_slots: "slab_geo c m \<Longrightarrow> card (slots c s) = nat (sc_num_objs c)"
  unfolding slots_def using card_image [OF slots_inj] by simp

section \<open>The invariant\<close>

definition free_of :: "slab_cache \<Rightarrow> l4_addr_t \<Rightarrow> l4_addr_t list" where
  "free_of c s = (case sc_slab c s of Some sl \<Rightarrow> sl_free_objs sl | None \<Rightarrow> [])"

definition slab_ok :: "slab_cache \<Rightarrow> l4_addr_t \<Rightarrow> bool" where
  "slab_ok c s \<longleftrightarrow> desc_ok c s \<and> distinct (free_of c s) \<and> set (free_of c s) \<subseteq> slots c s \<and>
     (\<exists>sl. sc_slab c s = Some sl \<and> sl_num_free sl = int (length (sl_free_objs sl)))"

definition all_slabs :: "slab_cache \<Rightarrow> l4_addr_t list" where
  "all_slabs c = sc_full c @ sc_part c @ sc_free c"

definition slab_inv :: "slab_cache \<Rightarrow> bool" where
  "slab_inv c \<longleftrightarrow> (\<exists>m. slab_geo c m) \<and> distinct (all_slabs c) \<and> (\<forall>s \<in> set (all_slabs c). slab_ok c s) \<and>
     (\<forall>s \<in> set (sc_full c). free_of c s = []) \<and>
     (\<forall>s \<in> set (sc_part c). free_of c s \<noteq> [] \<and> int (length (free_of c s)) < sc_num_objs c) \<and>
     (\<forall>s \<in> set (sc_free c). int (length (free_of c s)) = sc_num_objs c) \<and>
     sc_num_free c = int (length (sc_free c)) \<and> sc_num_slabs c = int (length (all_slabs c))"

text \<open>Objects the clients hold.\<close>

definition in_use :: "slab_cache \<Rightarrow> l4_addr_t \<Rightarrow> bool" where
  "in_use c p \<longleftrightarrow> (\<exists>s \<in> set (all_slabs c). p \<in> slots c s \<and> p \<notin> set (free_of c s))"

text \<open>Operations keep the geometry; what depends on it only is the same before and after.\<close>

definition same_geo :: "slab_cache \<Rightarrow> slab_cache \<Rightarrow> bool" where
  "same_geo c c' \<longleftrightarrow> sc_obj_size c' = sc_obj_size c \<and> sc_slab_size c' = sc_slab_size c \<and> sc_num_objs c' = sc_num_objs c"

lemma same_geo_eqs:
  assumes "same_geo c c'"
  shows "slab_geo c' = slab_geo c" "slots c' = slots c" "desc_ok c' = desc_ok c" "slab_from_pointer c' = slab_from_pointer c"
    "buffer_from_pointer c' = buffer_from_pointer c" "sc_num_objs c' = sc_num_objs c"
proof -
  have b: "buffer_from_pointer c' = buffer_from_pointer c" "slab_from_pointer c' = slab_from_pointer c"
    using assms by (auto simp: same_geo_def buffer_from_pointer_def slab_from_pointer_def)
  then show "slots c' = slots c" "desc_ok c' = desc_ok c" "slab_geo c' = slab_geo c" "sc_num_objs c' = sc_num_objs c"
    using assms by (auto simp: same_geo_def slots_def desc_ok_def slab_geo_def fun_eq_iff)
  show "buffer_from_pointer c' = buffer_from_pointer c" "slab_from_pointer c' = slab_from_pointer c" using b by auto
qed

lemma set_list_geo [simp]: "same_geo c (set_list l x c') = same_geo c c'"
  by (cases l) (auto simp: same_geo_def)

lemma relink_geo [simp]: "same_geo c (relink s ol nl c') = same_geo c c'"
  by (simp add: relink_def Let_def)

lemma relink_lists:
  "sc_full (relink s Full Part c) = remove1 s (sc_full c)" "sc_part (relink s Full Part c) = s # sc_part c"
  "sc_free (relink s Full Part c) = sc_free c"
  "sc_part (relink s Part Full c) = remove1 s (sc_part c)" "sc_full (relink s Part Full c) = s # sc_full c"
  "sc_free (relink s Part Full c) = sc_free c"
  "sc_part (relink s Part Free c) = remove1 s (sc_part c)" "sc_free (relink s Part Free c) = s # sc_free c"
  "sc_full (relink s Part Free c) = sc_full c"
  "sc_free (relink s Free Part c) = remove1 s (sc_free c)" "sc_part (relink s Free Part c) = s # sc_part c"
  "sc_full (relink s Free Part c) = sc_full c"
  by (simp_all add: relink_def Let_def)

lemma relink_fields [simp]:
  "sc_slab (relink s ol nl c) = sc_slab c" "sc_num_free (relink s ol nl c) = sc_num_free c"
  "sc_num_slabs (relink s ol nl c) = sc_num_slabs c" "sc_max_free (relink s ol nl c) = sc_max_free c"
  "sc_num_objs (relink s ol nl c) = sc_num_objs c" "sc_release_fn (relink s ol nl c) = sc_release_fn c"
  by (cases ol; cases nl; simp add: relink_def Let_def)+

lemma desc_ok_inj:
  "slab_geo c m \<Longrightarrow> desc_ok c s \<Longrightarrow> desc_ok c t \<Longrightarrow> p \<in> slots c s \<Longrightarrow> p \<in> slots c t \<Longrightarrow> s = t"
  using slots_slab by metis

text \<open>The effect of changing the free objects of one slab on \<open>in_use\<close>.\<close>

lemma in_use_upd:
  assumes inv: "slab_inv c" and s: "s \<in> set (all_slabs c)" and g: "same_geo c c'"
    and a: "set (all_slabs c') = set (all_slabs c)" and o: "\<And>t. t \<noteq> s \<Longrightarrow> free_of c' t = free_of c t"
  shows "in_use c' p = (if p \<in> slots c s then p \<notin> set (free_of c' s) else in_use c p)"
proof -
  obtain m where m: "slab_geo c m" using inv by (auto simp: slab_inv_def)
  have ok: "desc_ok c t" if "t \<in> set (all_slabs c)" for t using inv that by (simp add: slab_inv_def slab_ok_def)
  show ?thesis
  proof (cases "p \<in> slots c s")
    case True
    then have "t \<in> set (all_slabs c) \<and> p \<in> slots c t \<longleftrightarrow> t = s" for t using desc_ok_inj [OF m, of t s p] ok s by blast
    then have "in_use c' p \<longleftrightarrow> p \<notin> set (free_of c' s)" unfolding in_use_def a same_geo_eqs(2) [OF g] by metis
    then show ?thesis using True by simp
  next
    case False
    then have "p \<in> slots c t \<and> p \<notin> set (free_of c' t) \<longleftrightarrow> p \<in> slots c t \<and> p \<notin> set (free_of c t)" for t
      using o by (cases "t = s") auto
    then show ?thesis using False a same_geo_eqs(2) [OF g] by (simp add: in_use_def)
  qed
qed

lemma slab_ok_upd:
  assumes "slab_inv c" "same_geo c c'" "t \<in> set (all_slabs c)" "sc_slab c' t = sc_slab c t"
  shows "slab_ok c' t"
  using assms same_geo_eqs [OF assms(2)] by (auto simp: slab_inv_def slab_ok_def free_of_def)


section \<open>Taking an object\<close>

lemma slab_invD:
  assumes "slab_inv c"
  shows "distinct (all_slabs c)" "2 \<le> sc_num_objs c" "\<And>s. s \<in> set (all_slabs c) \<Longrightarrow> slab_ok c s"
    "\<And>s. s \<in> set (sc_full c) \<Longrightarrow> free_of c s = []"
    "\<And>s. s \<in> set (sc_part c) \<Longrightarrow> free_of c s \<noteq> [] \<and> int (length (free_of c s)) < sc_num_objs c"
    "\<And>s. s \<in> set (sc_free c) \<Longrightarrow> int (length (free_of c s)) = sc_num_objs c"
    "sc_num_free c = int (length (sc_free c))" "sc_num_slabs c = int (length (all_slabs c))"
  using assms by (auto simp: slab_inv_def slab_geo_def)

text \<open>An invariant of the new cache follows from the lists and the changed slab alone.\<close>

lemma slab_inv_upd:
  assumes inv: "slab_inv c" and g: "same_geo c c'" and s: "s \<in> set (all_slabs c)"
    and al: "distinct (all_slabs c')" "set (all_slabs c') = set (all_slabs c)"
    and sl: "sc_slab c' = (sc_slab c)(s \<mapsto> sl)" "sl_num_free sl = int (length (sl_free_objs sl))"
      "distinct (sl_free_objs sl)" "set (sl_free_objs sl) \<subseteq> slots c s"
    and ls: "\<And>t. t \<in> set (sc_full c') \<Longrightarrow> if t = s then sl_free_objs sl = [] else t \<in> set (sc_full c)"
      "\<And>t. t \<in> set (sc_part c') \<Longrightarrow> if t = s then sl_free_objs sl \<noteq> [] \<and> int (length (sl_free_objs sl)) < sc_num_objs c
         else t \<in> set (sc_part c)"
      "\<And>t. t \<in> set (sc_free c') \<Longrightarrow> if t = s then int (length (sl_free_objs sl)) = sc_num_objs c else t \<in> set (sc_free c)"
    and n: "sc_num_free c' = int (length (sc_free c'))" "sc_num_slabs c' = sc_num_slabs c"
  shows "slab_inv c'"
proof -
  have f: "free_of c' t = (if t = s then sl_free_objs sl else free_of c t)" for t using sl(1) by (simp add: free_of_def)
  have "slab_ok c' t" if "t \<in> set (all_slabs c')" for t
  proof (cases "t = s")
    case True
    then show ?thesis
      using slab_invD(3) [OF inv s] same_geo_eqs [OF g] sl f by (auto simp: slab_ok_def)
  next
    case False
    then show ?thesis using slab_ok_upd [OF inv g, of t] that al(2) sl(1) by simp
  qed
  moreover have "length (all_slabs c') = length (all_slabs c)"
    using al slab_invD(1) [OF inv] by (metis distinct_card)
  moreover have "\<exists>m. slab_geo c' m" using inv same_geo_eqs(1) [OF g] by (simp add: slab_inv_def)
  ultimately show ?thesis
    unfolding slab_inv_def same_geo_eqs(6) [OF g]
    using al(1) ls n slab_invD [OF inv] f by (auto split: if_splits)
qed

lemma take_object_spec:
  assumes inv: "slab_inv c" and s: "(olist = Part \<and> s \<in> set (sc_part c)) \<or> (olist = Free \<and> s \<in> set (sc_free c))"
  shows "\<exists>c' p. take_object s olist c = Inr (c', p) \<and> slab_inv c' \<and> same_geo c c' \<and> set (all_slabs c') = set (all_slabs c) \<and>
    p \<in> slots c s \<and> \<not> in_use c p \<and> in_use c' = (in_use c)(p := True)"
proof -
  have mem: "s \<in> set (all_slabs c)" using s by (auto simp: all_slabs_def)
  note ok = slab_invD(3) [OF inv mem] and n2 = slab_invD(2) [OF inv]
  obtain sl where sl: "sc_slab c s = Some sl" "sl_num_free sl = int (length (sl_free_objs sl))" using ok by (auto simp: slab_ok_def)
  have fo: "free_of c s = sl_free_objs sl" using sl by (simp add: free_of_def)
  have "free_of c s \<noteq> []" using s slab_invD(5,6) [OF inv] n2 by force
  then obtain p rest where pr: "sl_free_objs sl = p # rest" using fo by (cases "sl_free_objs sl") auto
  define sl' where "sl' = sl\<lparr>sl_free_objs := rest, sl_num_free := sl_num_free sl - 1\<rparr>"
  define c1 where "c1 = c\<lparr>sc_slab := (sc_slab c)(s \<mapsto> sl')\<rparr>"
  define c' where "c' = (if olist = Free then relink s Free Part (c1\<lparr>sc_num_free := sc_num_free c1 - 1\<rparr>)
    else if rest = [] then relink s Part Full c1 else c1)"
  have len: "olist = Free \<longleftrightarrow> int (length rest) + 1 = sc_num_objs c"
    using s slab_invD(5,6) [OF inv, of s] fo pr by auto
  have lt: "int (length rest) < sc_num_objs c" using s slab_invD(5,6) [OF inv, of s] fo pr by auto
  have r: "take_object s olist c = Inr (c', p)"
    using sl pr len s n2 by (auto simp: take_object_def Let_def c'_def c1_def sl'_def)
  have g: "same_geo c c'" by (auto simp: c'_def c1_def) (auto simp: same_geo_def)
  have sl1: "sc_slab c' = (sc_slab c)(s \<mapsto> sl')" by (simp add: c'_def c1_def)
  have d: "distinct (p # rest)" "set (p # rest) \<subseteq> slots c s" using ok fo pr by (auto simp: slab_ok_def)
  have dl: "distinct (sc_full c @ sc_part c @ sc_free c)" using slab_invD(1) [OF inv] by (simp add: all_slabs_def)
  have al: "distinct (all_slabs c')" "set (all_slabs c') = set (all_slabs c)"
    using dl s unfolding all_slabs_def c'_def c1_def by (auto simp: relink_lists)
  have i: "slab_inv c'"
  proof (rule slab_inv_upd [OF inv g mem al sl1])
    show "sl_num_free sl' = int (length (sl_free_objs sl'))" using sl pr by (simp add: sl'_def)
    show "sc_num_free c' = int (length (sc_free c'))"
      using slab_invD(7) [OF inv] s dl length_pos_if_in_set [of s "sc_free c"]
      by (auto simp: c'_def c1_def relink_lists length_remove1 of_nat_diff Suc_le_eq)
  qed (use d len lt dl s n2 in \<open>auto simp: c'_def c1_def sl'_def relink_lists split: if_splits\<close>)
  have u: "in_use c' q = (if q \<in> slots c s then q \<notin> set rest else in_use c q)" for q
    using in_use_upd [OF inv mem g al(2)] sl1 by (simp add: free_of_def sl'_def)
  have v: "in_use c q \<longleftrightarrow> q \<notin> set (p # rest)" if "q \<in> slots c s" for q
    using in_use_upd [OF inv mem, of c q] that fo pr by (simp add: same_geo_def)
  have "in_use c' = (in_use c)(p := True)" using u v d by (auto simp: fun_eq_iff)
  then show ?thesis using r i g al(2) d v [of p] by auto
qed

section \<open>Adding a slab\<close>

lemma obj_chain_eq:
  "(obj div 4) * 4 = obj \<Longrightarrow> obj_chain obj n p = map (\<lambda>k. p + of_nat (k * unat obj)) [0 ..< Suc n]"
proof (induction n arbitrary: p)
  case (Suc n)
  have "obj_chain obj (Suc n) p = p # map (\<lambda>k. p + obj + of_nat (k * unat obj)) [0 ..< Suc n]"
    using Suc by simp
  also have "\<dots> = map (\<lambda>k. p + of_nat (k * unat obj)) (0 # map Suc [0 ..< Suc n])"
    by (simp add: o_def algebra_simps)
  also have "0 # map Suc [0 ..< Suc n] = [0 ..< Suc (Suc n)]"
    by (simp only: map_Suc_upt upt_conv_Cons [of 0 "Suc (Suc n)", OF zero_less_Suc])
  finally show ?case .
qed simp

lemma aligned4: "4 dvd unat (x :: u32) \<Longrightarrow> (x div 4) * 4 = x"
  by (simp add: word_unat_eq_iff unat_div unat_word_ariths)

lemma add_slab_fields [simp]:
  "sc_slab (add_slab c b d) = (sc_slab c)(slab_from_pointer c b \<mapsto> \<lparr>sl_num_free = sc_num_objs c,
     sl_free_objs = obj_chain (sc_obj_size c) (nat (sc_num_objs c - 1)) b, sl_data = d\<rparr>)"
  "sc_free (add_slab c b d) = slab_from_pointer c b # sc_free c" "sc_part (add_slab c b d) = sc_part c"
  "sc_full (add_slab c b d) = sc_full c" "sc_num_slabs (add_slab c b d) = sc_num_slabs c + 1"
  "sc_num_free (add_slab c b d) = sc_num_free c + 1" "same_geo c (add_slab c b d)"
  by (simp_all add: add_slab_def Let_def same_geo_def)

text \<open>Where the descriptor of an aligned buffer lies: inside the buffer.\<close>

lemma slab_of_aligned:
  assumes g: "slab_geo c m" and b: "b AND (sc_slab_size c - 1) = 0"
  shows "buffer_from_pointer c (slab_from_pointer c b) = b" "slab_from_pointer c (slab_from_pointer c b) = slab_from_pointer c b"
    "buffer_from_pointer c b = b"
proof -
  have m: "m < 32" "24 \<le> (2 :: nat) ^ m" using g by (auto simp: slab_geo_def)
  have "take_bit m b = 0" using b size_mask [OF g] by (simp add: take_bit_eq_mask)
  then show 1: "buffer_from_pointer c b = b" using buffer_eq [OF g] by simp
  have "(2 :: u32) ^ m - 24 = of_nat (2 ^ m - 24)" using m by (simp add: of_nat_diff)
  then have s: "slab_from_pointer c b = b + of_nat (2 ^ m - 24)"
    using slab_from_buffer [OF g, of b] 1 g by (simp add: slab_geo_def sizeof_slab_def algebra_simps)
  have "(2 :: nat) ^ m - 24 < 2 ^ m" by simp
  then show 2: "buffer_from_pointer c (slab_from_pointer c b) = b" unfolding s using buffer_offset [OF g 1] by blast
  show "slab_from_pointer c (slab_from_pointer c b) = slab_from_pointer c b"
    using slab_from_buffer [OF g] 1 2 by simp
qed

lemma add_slab_spec:
  assumes inv: "slab_inv c" and b: "b AND (sc_slab_size c - 1) = 0" "b \<noteq> 0" "slab_from_pointer c b \<notin> set (all_slabs c)"
  shows "slab_inv (add_slab c b d)" "in_use (add_slab c b d) = in_use c"
proof -
  let ?s = "slab_from_pointer c b" and ?c = "add_slab c b d"
  obtain m where g: "slab_geo c m" using inv by (auto simp: slab_inv_def)
  have n2: "2 \<le> sc_num_objs c" using g by (simp add: slab_geo_def)
  note e = same_geo_eqs [OF add_slab_fields(7), of c b d] and o = slab_of_aligned [OF g b(1)]
  have "4 dvd unat (sc_obj_size c)" using g by (simp add: slab_geo_def)
  then have ch: "obj_chain (sc_obj_size c) (nat (sc_num_objs c - 1)) b = map (\<lambda>k. b + of_nat (k * unat (sc_obj_size c))) [0 ..< nat (sc_num_objs c)]"
    using obj_chain_eq [OF aligned4, of "sc_obj_size c" "nat (sc_num_objs c - 1)" b] n2 by (simp add: Suc_nat_eq_nat_zadd1)
  have fs: "free_of ?c ?s = map (\<lambda>k. b + of_nat (k * unat (sc_obj_size c))) [0 ..< nat (sc_num_objs c)]"
    using ch by (simp add: free_of_def)
  have st: "set (free_of ?c ?s) = slots c ?s" unfolding fs slots_def o by auto
  have di: "distinct (free_of ?c ?s)"
    unfolding fs using slots_inj [OF g, of ?s] by (simp add: o distinct_map lessThan_atLeast0)
  have ln: "length (free_of ?c ?s) = nat (sc_num_objs c)" unfolding fs by simp
  have f: "free_of ?c t = free_of c t" if "t \<noteq> ?s" for t using that by (simp add: free_of_def)
  have oks: "slab_ok ?c ?s" using di st o b(2) e n2 ch by (auto simp: slab_ok_def desc_ok_def)
  have al: "set (all_slabs ?c) = insert ?s (set (all_slabs c))" "length (all_slabs ?c) = Suc (length (all_slabs c))"
    "distinct (all_slabs ?c)"
    using b(3) slab_invD(1) [OF inv] by (auto simp: all_slabs_def)
  have ok: "slab_ok ?c t" if "t \<in> set (all_slabs ?c)" for t
    using that oks slab_ok_upd [OF inv add_slab_fields(7), of t] al(1) by (cases "t = ?s") auto
  have ne: "t \<noteq> ?s" if "t \<in> set (all_slabs c)" for t using that b(3) by auto
  have ne': "t \<noteq> ?s" if "t \<in> set (sc_full c) \<or> t \<in> set (sc_part c) \<or> t \<in> set (sc_free c)" for t
    using ne [of t] that by (auto simp: all_slabs_def)
  have "\<exists>m. slab_geo ?c m" using g e by metis
  then show "slab_inv ?c"
    unfolding slab_inv_def e(6) using al(2,3) ok ne' f ln n2 slab_invD [OF inv] by auto
  show "in_use ?c = in_use c"
    unfolding in_use_def al(1) e(2) using st ne f by (auto simp: fun_eq_iff)
qed

section \<open>Allocation\<close>

text \<open>A buffer the grow callback may hand out: aligned, not null and not in use as a slab of the cache.\<close>

definition fresh_buffer :: "slab_cache \<Rightarrow> l4_addr_t \<Rightarrow> bool" where
  "fresh_buffer c b \<longleftrightarrow> b AND (sc_slab_size c - 1) = 0 \<and> b \<noteq> 0 \<and> slab_from_pointer c b \<notin> set (all_slabs c)"

lemma pick_slab_spec:
  assumes inv: "slab_inv c" and g: "\<And>b d. g = Some (b, d) \<Longrightarrow> fresh_buffer c b"
  shows "\<exists>c1 r. pick_slab g c = Inr (c1, r) \<and> slab_inv c1 \<and> in_use c1 = in_use c \<and> same_geo c c1 \<and>
    (case r of None \<Rightarrow> sc_part c = [] \<and> sc_free c = [] \<and> (\<not> sc_grow_fn c \<or> g = None)
     | Some (s, ol) \<Rightarrow> (ol = Part \<and> s \<in> set (sc_part c1)) \<or> (ol = Free \<and> s \<in> set (sc_free c1)))"
proof -
  have [simp]: "same_geo c c" by (simp add: same_geo_def)
  show ?thesis
  proof (cases "sc_part c = [] \<and> sc_free c = [] \<and> sc_grow_fn c \<and> g \<noteq> None")
    case True
    then obtain b d where bd: "g = Some (b, d)" by auto
    have "fresh_buffer c b" by (rule g [OF bd])
    then show ?thesis
      using True bd add_slab_spec [OF inv, of b d] by (simp add: pick_slab_def grow_cache_def fresh_buffer_def)
  next
    case False
    then show ?thesis using inv by (auto simp: pick_slab_def grow_cache_def split: list.splits option.splits)
  qed
qed


lemma slab_alloc_ok:
  assumes "slab_inv c" "\<And>b d. g = Some (b, d) \<Longrightarrow> fresh_buffer c b"
  shows "\<exists>c' p. l4slab_alloc g (Some c) = Inr (Some c', p) \<and> slab_inv c' \<and>
    (if p = 0 then in_use c' = in_use c \<and> sc_part c = [] \<and> sc_free c = [] \<and> (\<not> sc_grow_fn c \<or> g = None)
     else \<not> in_use c p \<and> in_use c' = (in_use c)(p := True))"
proof -
  obtain c1 r where p: "pick_slab g c = Inr (c1, r)" "slab_inv c1" "in_use c1 = in_use c" "same_geo c c1"
    and r: "case r of None \<Rightarrow> sc_part c = [] \<and> sc_free c = [] \<and> (\<not> sc_grow_fn c \<or> g = None)
      | Some (s, ol) \<Rightarrow> (ol = Part \<and> s \<in> set (sc_part c1)) \<or> (ol = Free \<and> s \<in> set (sc_free c1))"
    using pick_slab_spec [OF assms(1), of g] assms(2) by blast
  show ?thesis
  proof (cases r)
    case None
    then show ?thesis using p r by (simp add: l4slab_alloc_def)
  next
    case (Some so)
    obtain s ol where so: "so = (s, ol)" by force
    then have m: "(ol = Part \<and> s \<in> set (sc_part c1)) \<or> (ol = Free \<and> s \<in> set (sc_free c1))" using r Some by simp
    obtain c' q where q: "take_object s ol c1 = Inr (c', q)" "slab_inv c'" "q \<in> slots c1 s" "\<not> in_use c1 q"
      "in_use c' = (in_use c1)(q := True)" using take_object_spec [OF p(2) m] by blast
    have "s \<in> set (all_slabs c1)" using m by (auto simp: all_slabs_def)
    then have "desc_ok c1 s" using slab_invD(3) [OF p(2)] by (simp add: slab_ok_def)
    moreover obtain k where "slab_geo c1 k" using p(2) by (auto simp: slab_inv_def)
    ultimately have "q \<noteq> 0" using slots_nonzero q(3) by blast
    then show ?thesis using p q Some so by (simp add: l4slab_alloc_def)
  qed
qed

text \<open>C36: allocation from a cache that satisfies its invariant always returns, keeps the invariant, and either
  hands out an object no client held, which is in use from then on, or returns the null pointer; the latter only
  when no slab has a free object and the grow callback is missing or gave no memory.\<close>

theorem l4slab_alloc_spec:
  assumes "slab_inv c" "\<And>b d. g = Some (b, d) \<Longrightarrow> fresh_buffer c b"
  shows "\<exists>c' p. l4slab_alloc g (Some c) = Inr (Some c', p) \<and> slab_inv c' \<and>
    (if p = 0 then in_use c' = in_use c \<and> sc_part c = [] \<and> sc_free c = [] \<and> (\<not> sc_grow_fn c \<or> g = None)
     else \<not> in_use c p \<and> in_use c' = (in_use c)(p := True))"
  using slab_alloc_ok [OF assms(1), of g] assms(2) by blast

section \<open>Releasing\<close>

lemma free_slab_unused:
  assumes inv: "slab_inv c" and s: "s \<in> set (sc_free c)"
  shows "set (free_of c s) = slots c s"
proof (rule card_subset_eq)
  obtain m where g: "slab_geo c m" using inv by (auto simp: slab_inv_def)
  have ok: "slab_ok c s" using slab_invD(3) [OF inv] s by (simp add: all_slabs_def)
  show "finite (slots c s)" by (simp add: slots_def)
  show "set (free_of c s) \<subseteq> slots c s" using ok by (simp add: slab_ok_def)
  have "card (set (free_of c s)) = length (free_of c s)" using ok by (simp add: slab_ok_def distinct_card)
  then show "card (set (free_of c s)) = card (slots c s)" using card_slots [OF g] slab_invD(6) [OF inv s] by simp
qed

lemma drop_free_slab:
  assumes inv: "slab_inv c" and s: "sc_free c = s # ss"
    and c': "c' = c\<lparr>sc_free := ss, sc_num_slabs := sc_num_slabs c - 1, sc_num_free := sc_num_free c - 1,
      sc_slab := (sc_slab c)(s := None), sc_released := x\<rparr>"
  shows "slab_inv c'" "in_use c' = in_use c"
proof -
  have g: "same_geo c c'" using c' by (simp add: same_geo_def)
  have d: "distinct (sc_full c @ sc_part c @ s # ss)" using slab_invD(1) [OF inv] s by (simp add: all_slabs_def)
  have a: "all_slabs c' = sc_full c @ sc_part c @ ss" "set (all_slabs c) = insert s (set (all_slabs c'))"
    "s \<notin> set (all_slabs c')" using c' s d by (auto simp: all_slabs_def)
  have f: "free_of c' t = free_of c t" if "t \<in> set (all_slabs c')" for t
    using that a(3) c' by (auto simp: free_of_def)
  have ok: "slab_ok c' t" if "t \<in> set (all_slabs c')" for t
  proof -
    have "t \<in> set (all_slabs c)" "t \<noteq> s" using that a by auto
    then show ?thesis using slab_ok_upd [OF inv g, of t] c' by simp
  qed
  have "\<exists>m. slab_geo c' m" using inv same_geo_eqs(1) [OF g] by (simp add: slab_inv_def)
  moreover have "sc_full c' = sc_full c" "sc_part c' = sc_part c" "sc_free c' = ss" using c' by simp_all
  moreover have "sc_num_free c' = int (length ss)" "sc_num_slabs c' = int (length (all_slabs c'))"
    using c' s slab_invD(7,8) [OF inv] by (simp_all add: all_slabs_def)
  moreover have "free_of c' t = free_of c t" if "t \<in> set (sc_full c) \<union> set (sc_part c) \<union> set ss" for t
    using f [of t] a(1) that by auto
  ultimately show "slab_inv c'"
    unfolding slab_inv_def same_geo_eqs(6) [OF g] using ok d a slab_invD [OF inv] s by simp
  have "set (free_of c s) = slots c s" using free_slab_unused [OF inv] s by simp
  then show "in_use c' = in_use c" unfolding in_use_def a(2) same_geo_eqs(2) [OF g] using f by (auto simp: fun_eq_iff)
qed

lemma shrink_loop_spec:
  assumes "slab_inv c" "sc_free c = ss"
  shows "\<exists>c'. shrink_loop ss c = Inr c' \<and> slab_inv c' \<and> in_use c' = in_use c \<and> of_int (sc_num_free c') \<le> sc_max_free c'"
  using assms
proof (induction ss arbitrary: c)
  case Nil
  then show ?case using slab_invD(7) by force
next
  case (Cons s ss)
  show ?case
  proof (cases "of_int (sc_num_free c) > sc_max_free c")
    case True
    have m: "s \<in> set (sc_free c)" "s \<in> set (all_slabs c)" using Cons.prems by (simp_all add: all_slabs_def)
    obtain sl where sl: "sc_slab c s = Some sl" "sl_num_free sl = sc_num_objs c"
      using slab_invD(3) [OF Cons.prems(1) m(2)] slab_invD(6) [OF Cons.prems(1) m(1)] by (auto simp: slab_ok_def free_of_def)
    let ?c = "c\<lparr>sc_free := ss, sc_num_slabs := sc_num_slabs c - 1, sc_num_free := sc_num_free c - 1,
      sc_slab := (sc_slab c)(s := None), sc_released := (buffer_from_pointer c s, sl_data sl) # sc_released c\<rparr>"
    have "slab_inv ?c" "in_use ?c = in_use c" using drop_free_slab [OF Cons.prems refl] by simp_all
    then show ?thesis using Cons.IH [of ?c] True sl by simp
  next
    case False
    then show ?thesis using Cons.prems by auto
  qed
qed

lemma put_object_spec:
  assumes inv: "slab_inv c" and u: "in_use c p"
  shows "\<exists>c'. put_object p c = Inr c' \<and> slab_inv c' \<and> in_use c' = (in_use c)(p := False) \<and>
    sc_release_fn c' = sc_release_fn c \<and> sc_max_free c' = sc_max_free c"
proof -
  obtain s where s: "s \<in> set (all_slabs c)" "p \<in> slots c s" "p \<notin> set (free_of c s)" using u by (auto simp: in_use_def)
  note ok = slab_invD(3) [OF inv s(1)] and n2 = slab_invD(2) [OF inv]
  obtain m where g: "slab_geo c m" using inv by (auto simp: slab_inv_def)
  have sp: "slab_from_pointer c p = s" using slots_slab [OF g _ s(2)] ok by (simp add: slab_ok_def)
  obtain sl where sl: "sc_slab c s = Some sl" "sl_num_free sl = int (length (sl_free_objs sl))" using ok by (auto simp: slab_ok_def)
  have fo: "free_of c s = sl_free_objs sl" using sl by (simp add: free_of_def)
  have nf: "s \<notin> set (sc_free c)" using free_slab_unused [OF inv] s by blast
  have fl: "s \<in> set (sc_full c) \<longleftrightarrow> sl_free_objs sl = []" "s \<notin> set (sc_full c) \<Longrightarrow> s \<in> set (sc_part c)"
    using s(1) nf slab_invD(4,5) [OF inv, of s] fo by (auto simp: all_slabs_def)
  have lt: "int (length (sl_free_objs sl)) < sc_num_objs c" using fl slab_invD(5) [OF inv, of s] fo n2 by (cases "sl_free_objs sl = []") auto
  define sl' where "sl' = sl\<lparr>sl_free_objs := p # sl_free_objs sl, sl_num_free := sl_num_free sl + 1\<rparr>"
  define c1 where "c1 = c\<lparr>sc_slab := (sc_slab c)(s \<mapsto> sl')\<rparr>"
  define c' where "c' = (if sl_free_objs sl = [] then relink s Full Part c1
    else if int (length (sl_free_objs sl)) + 1 = sc_num_objs c then relink s Part Free (c1\<lparr>sc_num_free := sc_num_free c1 + 1\<rparr>)
    else c1)"
  have r: "put_object p c = Inr c'" using sp sl by (auto simp: put_object_def Let_def c'_def c1_def sl'_def)
  have ge: "same_geo c c'" by (auto simp: c'_def c1_def) (auto simp: same_geo_def)
  have sl1: "sc_slab c' = (sc_slab c)(s \<mapsto> sl')" by (simp add: c'_def c1_def)
  have dl: "distinct (sc_full c @ sc_part c @ sc_free c)" using slab_invD(1) [OF inv] by (simp add: all_slabs_def)
  have al: "distinct (all_slabs c')" "set (all_slabs c') = set (all_slabs c)"
    using dl fl nf unfolding all_slabs_def c'_def c1_def by (auto simp: relink_lists)
  have i: "slab_inv c'"
  proof (rule slab_inv_upd [OF inv ge s(1) al sl1])
    show "sc_num_free c' = int (length (sc_free c'))"
      using slab_invD(7) [OF inv] by (auto simp: c'_def c1_def relink_lists)
  qed (use ok fo s sl fl nf lt dl n2 in \<open>auto simp: slab_ok_def c'_def c1_def sl'_def relink_lists split: if_splits\<close>)
  have "in_use c' q = (if q \<in> slots c s then q \<notin> set (p # sl_free_objs sl) else in_use c q)" for q
    using in_use_upd [OF inv s(1) ge al(2)] sl1 by (simp add: free_of_def sl'_def)
  moreover have "in_use c q \<longleftrightarrow> q \<notin> set (sl_free_objs sl)" if "q \<in> slots c s" for q
    using in_use_upd [OF inv s(1), of c q] that fo by (simp add: same_geo_def)
  ultimately have "in_use c' = (in_use c)(p := False)" using s(2) by (auto simp: fun_eq_iff)
  moreover have "sc_release_fn c' = sc_release_fn c" "sc_max_free c' = sc_max_free c" by (simp_all add: c'_def c1_def)
  ultimately show ?thesis using r i by blast
qed

lemma slab_free_ok:
  assumes "slab_inv c" "in_use c p"
  shows "\<exists>c'. l4slab_free (Some c) p = Inr (Some c') \<and> slab_inv c' \<and> in_use c' = (in_use c)(p := False) \<and>
    (sc_release_fn c \<longrightarrow> of_int (sc_num_free c') \<le> sc_max_free c')"
proof -
  obtain c1 where c1: "put_object p c = Inr c1" "slab_inv c1" "in_use c1 = (in_use c)(p := False)"
    "sc_release_fn c1 = sc_release_fn c" using put_object_spec [OF assms] by blast
  obtain c2 where c2: "shrink_loop (sc_free c1) c1 = Inr c2" "slab_inv c2" "in_use c2 = in_use c1"
    "of_int (sc_num_free c2) \<le> sc_max_free c2" using shrink_loop_spec [OF c1(2) refl] by blast
  obtain s m where "s \<in> set (all_slabs c)" "p \<in> slots c s" "slab_geo c m"
    using assms by (auto simp: in_use_def slab_inv_def)
  moreover have "desc_ok c s" if "s \<in> set (all_slabs c)" for s using slab_invD(3) [OF assms(1) that] by (simp add: slab_ok_def)
  ultimately have "p \<noteq> 0" using slots_nonzero by blast
  then show ?thesis using c1 c2 by (auto simp: l4slab_free_def shrink_cache_def)
qed

text \<open>C37: giving back an object that a client holds always returns, keeps the invariant of the cache, takes exactly
  this object out of use, and leaves no more than \<open>max_free\<close> unused slabs when there is a release callback: the
  \<open>exit\<close> for a corrupted list of free slabs and the assertions are never reached.\<close>

theorem l4slab_free_spec:
  assumes "slab_inv c" "in_use c p"
  shows "\<exists>c'. l4slab_free (Some c) p = Inr (Some c') \<and> slab_inv c' \<and> in_use c' = (in_use c)(p := False) \<and>
    (sc_release_fn c \<longrightarrow> of_int (sc_num_free c') \<le> sc_max_free c')"
  by (rule slab_free_ok [OF assms])

section \<open>Initialisation\<close>

text \<open>The slab size is the next power of two.\<close>

lemma slab_size_for_spec:
  assumes "unat obj * 8 + 24 \<le> 2 ^ 30"
  shows "\<exists>m. slab_size_for obj = Some (2 ^ m) \<and> m \<le> 30 \<and> unat obj * 8 + 24 \<le> 2 ^ m"
proof -
  define sz where "sz = (obj * 8 + sizeof_slab + L4_PAGESIZE - 1) AND L4_PAGEMASK"
  have u: "unat (obj * 8 + sizeof_slab + L4_PAGESIZE - 1) = unat obj * 8 + 24 + 4095"
    using assms by (simp add: l4_const unat_word_ariths)
  have r: "unat sz = (unat obj * 8 + 24 + 4095) div 4096 * 4096" unfolding sz_def unat_and_PAGEMASK u ..
  have lo: "unat obj * 8 + 24 \<le> unat sz" and hi: "unat sz \<le> 2 ^ 30" using assms unfolding r by simp_all
  then have "sz \<noteq> 0" by auto
  moreover have "sz = 0" if "l4util_bsr sz = None"
    using that bit_down_None_iff [of sz 32] by (intro bit_word_eqI) (simp add: l4util_bsr_def)
  ultimately obtain n where n: "l4util_bsr sz = Some n" by blast
  note b = bsr_bounds [OF n]
  have "(2 :: nat) ^ n \<le> 2 ^ 30" using b(3) hi by linarith
  from power_le_imp_le_exp [OF _ this] have n30: "n \<le> 30" by simp
  show ?thesis
  proof (cases "l4util_bsf sz = Some n")
    case True
    then have z: "sz = 2 ^ n" using bsr_eq_bsf [OF n] by simp
    then show ?thesis using n True n30 lo b(1) sz_def by (intro exI [of _ n]) (simp add: slab_size_for_def Let_def unat_exp32)
  next
    case False
    have "n \<noteq> 30"
    proof
      assume "n = 30"
      then have "unat sz = unat (2 ^ 30 :: u32)" using b(3) hi by simp
      then have "sz = 2 ^ 30" by (simp only: word_unat_eq_iff)
      then show False using False \<open>n = 30\<close> bsf_exp [of 30] by simp
    qed
    then have "n + 1 < 31" using n30 by simp
    then show ?thesis
      using n False lo b(2) sz_def by (intro exI [of _ "n + 1"]) (auto simp: slab_size_for_def Let_def push_bit_of_1)
  qed
qed

text \<open>for objects of at most 2^27 - 4 bytes (and more than none) the initialisation succeeds and sets up an
  empty cache that satisfies the invariant: the slab size is a power of two, and a slab holds at least the eight
  objects the comment asks for, each of at least the size wanted.\<close>

theorem l4slab_cache_init_spec:
  assumes "0 < unat obj_size" "unat obj_size \<le> 2 ^ 27 - 4"
  shows "\<exists>c'. l4slab_cache_init (Some c) obj_size max_free grow_fn release_fn = Inr (Some c', 0) \<and> slab_inv c' \<and>
    8 \<le> sc_num_objs c' \<and> obj_size \<le> sc_obj_size c' \<and> unat (sc_obj_size c') < unat obj_size + 4 \<and>
    (\<forall>p. \<not> in_use c' p) \<and> sc_max_free c' = max_free \<and> sc_grow_fn c' = grow_fn \<and> sc_release_fn c' = release_fn"
proof -
  define obj where "obj = (obj_size + 3) AND NOT 3"
  have three: "(3 :: u32) = mask 2" by (simp add: mask_eq_exp_minus_1)
  have "unat (obj_size + 3) = unat obj_size + 3" using assms by (simp add: unat_word_ariths)
  then have u: "unat obj = (unat obj_size + 3) div 4 * 4" unfolding obj_def three by (simp add: and_not_mask_unat)
  have "(unat obj_size + 3) div 4 \<le> (2 ^ 27 - 1) div 4" using assms(2) by (intro div_le_mono) simp
  then have o: "unat obj_size \<le> unat obj" "unat obj < unat obj_size + 4" "0 < unat obj" "4 dvd unat obj"
    "unat obj * 8 + 24 \<le> 2 ^ 30"
    using assms unfolding u by simp_all
  obtain m where m: "slab_size_for obj = Some (2 ^ m)" "m \<le> 30" "unat obj * 8 + 24 \<le> 2 ^ m"
    using slab_size_for_spec [OF o(5)] by blast
  have "unat ((2 :: u32) ^ m - sizeof_slab) = 2 ^ m - 24"
    using m by (simp add: unat_sub_if_size unat_exp32 word_le_nat_alt l4_const)
  then have n: "uint ((2 ^ m - sizeof_slab) div obj) = int ((2 ^ m - 24) div unat obj)"
    by (simp add: unat_div uint_nat del: uint_div) 
  define k where "k = (2 ^ m - 24) div unat obj"
  have k: "8 \<le> k" "k * unat obj + 24 \<le> 2 ^ m"
  proof -
    have "unat obj * 8 \<le> 2 ^ m - 24" using m(3) by simp
    then show "8 \<le> k" unfolding k_def using o(3) by (simp add: less_eq_div_iff_mult_less_eq mult.commute)
    have "k * unat obj \<le> 2 ^ m - 24" unfolding k_def by simp
    then show "k * unat obj + 24 \<le> 2 ^ m" using m(3) by linarith
  qed
  have "obj \<noteq> 0" "obj_size \<noteq> 0" using o(3) assms(1) by auto
  then show ?thesis
    using m(1) m(2) n k o obj_def [symmetric] 
    by (auto simp: l4slab_cache_init_def Let_def k_def slab_inv_def slab_geo_def all_slabs_def in_use_def word_le_nat_alt
        intro!: exI [of _ m])
qed

section \<open>Concrete caches\<close>

text \<open>Objects of 500 bytes: empty, and with one slab at 0x10000 of which the first object is in use.\<close>

definition demo_cache :: slab_cache where
  "demo_cache = \<lparr>sc_obj_size = 500, sc_slab_size = 4096, sc_num_objs = 8, sc_num_slabs = 0, sc_num_free = 0, sc_max_free = 1,
     sc_full = [], sc_part = [], sc_free = [], sc_grow_fn = True, sc_release_fn = True, sc_data = 0,
     sc_slab = (\<lambda>_. None), sc_released = []\<rparr>"

definition demo_used :: slab_cache where
  "demo_used = demo_cache\<lparr>sc_num_slabs := 1, sc_part := [0x10FE8],
     sc_slab := [0x10FE8 \<mapsto> \<lparr>sl_num_free = 7,
       sl_free_objs = [0x101F4, 0x103E8, 0x105DC, 0x107D0, 0x109C4, 0x10BB8, 0x10DAC], sl_data = 0\<rparr>]\<rparr>"

lemma slots_list: "slots c s = set (map (\<lambda>k. buffer_from_pointer c s + of_nat (k * unat (sc_obj_size c))) [0 ..< nat (sc_num_objs c)])"
  by (auto simp: slots_def)

lemma slots_demo: "slots demo_used 0x10FE8 = {0x10000, 0x101F4, 0x103E8, 0x105DC, 0x107D0, 0x109C4, 0x10BB8, 0x10DAC}"
  unfolding slots_list by (simp add: demo_used_def demo_cache_def buffer_from_pointer_def upt_rec)

lemma used_fields:
  "all_slabs demo_used = [0x10FE8]" "sc_full demo_used = []" "sc_part demo_used = [0x10FE8]" "sc_free demo_used = []"
  "free_of demo_used 0x10FE8 = [0x101F4, 0x103E8, 0x105DC, 0x107D0, 0x109C4, 0x10BB8, 0x10DAC]"
  "sc_num_objs demo_used = 8" "sc_num_free demo_used = 0" "sc_num_slabs demo_used = 1"
  "\<exists>sl. sc_slab demo_used 0x10FE8 = Some sl \<and> sl_num_free sl = int (length (sl_free_objs sl))"
  by (simp_all add: demo_used_def demo_cache_def all_slabs_def free_of_def)

lemma slab_inv_demo: "slab_inv demo_cache"
  by (auto simp: slab_inv_def slab_geo_def demo_cache_def all_slabs_def intro!: exI [of _ 12])

lemma slab_inv_used: "slab_inv demo_used"
proof -
  have "\<exists>m. slab_geo demo_used m" by (intro exI [of _ 12]) (simp add: slab_geo_def demo_used_def demo_cache_def)
  moreover have "desc_ok demo_used 0x10FE8"
    by (simp add: desc_ok_def demo_used_def demo_cache_def slab_from_pointer_def buffer_from_pointer_def sizeof_slab_def)
  ultimately show ?thesis by (simp add: slab_inv_def slab_ok_def slots_demo used_fields)
qed

theorem l4slab_alloc_spec_witness:
  "\<exists>c' p. l4slab_alloc (Some (0x10000, 0)) (Some demo_cache) = Inr (Some c', p) \<and> slab_inv c' \<and>
    \<not> in_use demo_cache p \<and> in_use c' p"
proof -
  have "fresh_buffer demo_cache 0x10000"
    by (simp add: fresh_buffer_def demo_cache_def all_slabs_def)
  then show ?thesis
    using l4slab_alloc_spec [OF slab_inv_demo, of "Some (0x10000, 0)"]
    by (auto simp: demo_cache_def split: if_splits)
qed

theorem l4slab_free_spec_witness:
  "\<exists>c'. l4slab_free (Some demo_used) 0x10000 = Inr (Some c') \<and> slab_inv c' \<and> in_use demo_used 0x10000 \<and> \<not> in_use c' 0x10000"
proof -
  have "in_use demo_used 0x10000"
    by (simp add: in_use_def slots_demo used_fields)
  then show ?thesis using l4slab_free_spec [OF slab_inv_used, of "0x10000"] by auto
qed

theorem l4slab_cache_init_spec_witness:
  "\<exists>c'. l4slab_cache_init (Some demo_used) 497 1 True True = Inr (Some c', 0) \<and> slab_inv c' \<and> 8 \<le> sc_num_objs c'"
  using l4slab_cache_init_spec [of 497 demo_used 1 True True] by auto

section \<open>Limits of the interface\<close>

text \<open>Without a cache descriptor: the operations do nothing, except for the destructor, which reads the descriptor
  before the check.\<close>

lemma null_cache:
  "l4slab_cache_init None n m g r = Inr (None, - L4_EINVAL)" "l4slab_alloc a None = Inr (None, 0)"
  "l4slab_free None p = Inr None" "l4slab_add_slab None b d = None" "l4slab_get_data None = 0"
  "l4slab_destroy None = Inl Undefined"
  by (simp_all add: l4slab_cache_init_def l4slab_alloc_def l4slab_free_def l4slab_add_slab_def l4slab_get_data_def
      l4slab_destroy_def)

text \<open>There is no error for a size that is too big: with objects of 2^29 bytes, eight of which wrap around to
  nothing, the initialisation succeeds and sets up a cache that has slabs of a page and no room for an object.\<close>

lemma cache_init_too_big:
  "\<exists>c'. l4slab_cache_init (Some demo_cache) (2 ^ 29) 1 True True = Inr (Some c', 0) \<and> sc_slab_size c' = 4096 \<and> sc_num_objs c' = 0"
proof -
  have "slab_size_for (2 ^ 29) = Some 4096" "((2 ^ 29 :: u32) + 3) AND NOT 3 = 2 ^ 29" "(2 :: u32) ^ 29 \<noteq> 0"
    "uint (((4096 :: u32) - sizeof_slab) div 2 ^ 29) = 0"
    by code_simp+
  then show ?thesis by (simp only: l4slab_cache_init_def Let_def option.case if_False) simp
qed

end
