(* ===== verification/DmTypes.thy ===== *)
theory DmTypes
  imports L4Sys
begin

text \<open>
  Error codes (\<open>l4env/include/errno.h\<close>) and the types and constants of dataspaces (\<open>dm_generic/include/types.h\<close>,
  \<open>dm_generic/include/consts.h\<close>, \<open>dm_phys/include/consts.h\<close>), which the region mapper and the dataspace manager share.
\<close>

section \<open>Error codes\<close>

definition L4_ENOMEM :: int where [l4_const]: "L4_ENOMEM = 2"
definition L4_EIPC :: int where [l4_const]: "L4_EIPC = 5"
definition L4_ENOMAP :: int where [l4_const]: "L4_ENOMAP = 6"
definition L4_ENOTFOUND :: int where [l4_const]: "L4_ENOTFOUND = 8"
definition L4_EUSED :: int where [l4_const]: "L4_EUSED = 14"
definition L4_EEXISTS :: int where [l4_const]: "L4_EEXISTS = 23"
definition L4_EINVAL_OFFS :: int where [l4_const]: "L4_EINVAL_OFFS = 4"
definition L4_EPERM :: int where [l4_const]: "L4_EPERM = 17"
definition L4_ENOHANDLE :: int where [l4_const]: "L4_ENOHANDLE = 20"

section \<open>Dataspaces\<close>

record l4dm_dataspace_t =
  ds_id :: u32
  ds_manager :: l4_threadid_t

definition L4DM_INVALID_DATASPACE :: l4dm_dataspace_t where
  "L4DM_INVALID_DATASPACE = \<lparr>ds_id = - 1, ds_manager = L4_INVALID_ID\<rparr>"

definition l4dm_is_invalid_ds :: "l4dm_dataspace_t \<Rightarrow> bool" where
  "l4dm_is_invalid_ds ds \<longleftrightarrow> ds_id ds = ds_id L4DM_INVALID_DATASPACE \<and> l4_thread_equal (ds_manager ds) (ds_manager L4DM_INVALID_DATASPACE)"

definition L4DM_READ :: u32 where [l4_const]: "L4DM_READ = 1"
definition L4DM_WRITE :: u32 where [l4_const]: "L4DM_WRITE = 2"
definition L4DM_RESIZE :: u32 where [l4_const]: "L4DM_RESIZE = 0x80"
definition L4DM_RIGHTS_MASK :: u32 where [l4_const]: "L4DM_RIGHTS_MASK = 0xFF"
definition L4DM_CONTIGUOUS :: u32 where [l4_const]: "L4DM_CONTIGUOUS = 0x100"
definition L4DM_MAP_PARTIAL :: u32 where [l4_const]: "L4DM_MAP_PARTIAL = 0x800"
definition L4DM_MAP_MORE :: u32 where [l4_const]: "L4DM_MAP_MORE = 0x1000"
definition L4DM_SAME_TASK :: u32 where [l4_const]: "L4DM_SAME_TASK = 0x2000"
definition L4DM_DS_NAME_MAX_LEN :: nat where [l4_const]: "L4DM_DS_NAME_MAX_LEN = 32"
definition L4DM_WHOLE_DS :: u32 where [l4_const]: "L4DM_WHOLE_DS = 0xFFFFFFFF"
definition L4DM_MEMPHYS_ANY_ADDR :: l4_addr_t where [l4_const]: "L4DM_MEMPHYS_ANY_ADDR = 0xFFFFFFFF"
definition L4DM_MEMPHYS_SUPERPAGES :: u32 where [l4_const]: "L4DM_MEMPHYS_SUPERPAGES = 0x10000"
definition L4DM_MEMPHYS_SAME_POOL :: u32 where [l4_const]: "L4DM_MEMPHYS_SAME_POOL = 0x20000"

end
