(* ===== verification/RmRegion.thy ===== *)
theory RmRegion
  imports Slab DmTypes
begin

text \<open>
  The region list of the region mapper (\<open>l4rm/lib/src/region.c\<close>, \<open>l4rm/include/l4rm.h\<close>). The doubly linked list of
  descriptors is the list of their addresses and contents in link order: the predecessor and the successor of a
  descriptor are its neighbours. Descriptors come from a slab cache, whose grow callback is an argument (its answer) of
  the operations that allocate. A descriptor that is not in the list yet is a value next to its address.
\<close>

section \<open>Data\<close>

text \<open>The union of a descriptor; nothing is stored in it for the other types of regions.\<close>

datatype region_data = Data_none | Data_ds l4dm_dataspace_t u32 u32 | Data_pager l4_threadid_t

record region_desc =
  rd_start :: l4_addr_t
  rd_end :: l4_addr_t
  rd_flags :: u32
  rd_data :: region_data
  rd_userptr :: l4_addr_t

definition REGION_FREE :: u32 where [l4_const]: "REGION_FREE = 0"
definition REGION_DATASPACE :: u32 where [l4_const]: "REGION_DATASPACE = 0x10000000"
definition REGION_PAGER :: u32 where [l4_const]: "REGION_PAGER = 0x20000000"
definition REGION_EXCEPTION :: u32 where [l4_const]: "REGION_EXCEPTION = 0x30000000"
definition REGION_BLOCKED :: u32 where [l4_const]: "REGION_BLOCKED = 0x40000000"
definition AREA_MASK :: u32 where [l4_const]: "AREA_MASK = 0x000FFFFF"
definition TYPE_MASK :: u32 where [l4_const]: "TYPE_MASK = 0xF0000000"
definition L4RM_DEFAULT_REGION_AREA :: u32 where [l4_const]: "L4RM_DEFAULT_REGION_AREA = 0"
definition L4RM_LOG2_ALIGNED :: u32 where [l4_const]: "L4RM_LOG2_ALIGNED = 0x02000000"
definition L4RM_LOG2_ALLOC :: u32 where [l4_const]: "L4RM_LOG2_ALLOC = 0x04000000"
definition L4RM_SUPERPAGE_ALIGNED :: u32 where [l4_const]: "L4RM_SUPERPAGE_ALIGNED = 0x08000000"
definition L4RM_TREE_INSERT :: u32 where [l4_const]: "L4RM_TREE_INSERT = 0x80000000"
definition L4RM_SET_AREA :: u32 where [l4_const]: "L4RM_SET_AREA = 0x40000000"
definition L4RM_MODIFY_DIRECT :: u32 where [l4_const]: "L4RM_MODIFY_DIRECT = 0x20000000"
definition L4RM_ADDR_FIND :: l4_addr_t where [l4_const]: "L4RM_ADDR_FIND = 0xFFFFFFFF"

definition REGION_TYPE :: "region_desc \<Rightarrow> u32" where "REGION_TYPE r = rd_flags r AND TYPE_MASK"
definition REGION_AREA :: "region_desc \<Rightarrow> u32" where "REGION_AREA r = rd_flags r AND AREA_MASK"
definition IS_FREE_REGION :: "region_desc \<Rightarrow> bool" where "IS_FREE_REGION r \<longleftrightarrow> REGION_TYPE r = REGION_FREE"
definition SET_REGION_TYPE :: "u32 \<Rightarrow> region_desc \<Rightarrow> region_desc" where
  "SET_REGION_TYPE t r = r\<lparr>rd_flags := (rd_flags r AND AREA_MASK) OR t\<rparr>"
definition SET_AREA :: "u32 \<Rightarrow> region_desc \<Rightarrow> region_desc" where
  "SET_AREA a r = r\<lparr>rd_flags := (a AND AREA_MASK) OR (rd_flags r AND NOT AREA_MASK)\<rparr>"

type_synonym region_list = "(l4_addr_t \<times> region_desc) list"

record rm_state =
  rm_vm_start :: l4_addr_t
  rm_vm_end :: l4_addr_t
  rm_head :: region_list
  rm_cache :: slab_cache

type_synonym grow_answer = "(l4_addr_t \<times> u32) option"

section \<open>Descriptors\<close>

text \<open>The descriptor is set up with no flags and no user pointer; its other fields are written before they are read.\<close>

definition region_fresh :: region_desc where
  "region_fresh = \<lparr>rd_start = 0, rd_end = 0, rd_flags = 0, rd_data = Data_none, rd_userptr = 0\<rparr>"

definition l4rm_region_desc_alloc :: "grow_answer \<Rightarrow> rm_state \<Rightarrow> (rm_state \<times> l4_addr_t) res" where
  "l4rm_region_desc_alloc g s =
     bind_res (l4slab_alloc g (Some (rm_cache s))) (\<lambda>(c, r).
       case c of None \<Rightarrow> Inl Undefined | Some c1 \<Rightarrow> Inr (s\<lparr>rm_cache := c1\<rparr>, r))"

definition l4rm_region_desc_free :: "l4_addr_t \<Rightarrow> rm_state \<Rightarrow> rm_state res" where
  "l4rm_region_desc_free r s =
     bind_res (l4slab_free (Some (rm_cache s)) r) (\<lambda>c.
       case c of None \<Rightarrow> Inl Undefined | Some c1 \<Rightarrow> Inr (s\<lparr>rm_cache := c1\<rparr>))"

section \<open>The region list\<close>

text \<open>The list before, at and after the descriptor at an address.\<close>

definition before_region :: "l4_addr_t \<Rightarrow> region_list \<Rightarrow> region_list" where
  "before_region p l = takeWhile (\<lambda>x. fst x \<noteq> p) l"

definition from_region :: "l4_addr_t \<Rightarrow> region_list \<Rightarrow> region_list" where
  "from_region p l = dropWhile (\<lambda>x. fst x \<noteq> p) l"

text \<open>\<open>__insert_region\<close>: \<open>rp\<close> is the address of a descriptor of the list, \<open>(p, region)\<close> the new one.\<close>

definition insert_region :: "grow_answer \<Rightarrow> l4_addr_t \<Rightarrow> region_desc \<Rightarrow> l4_addr_t \<Rightarrow> rm_state \<Rightarrow> (rm_state \<times> int) res" where
  "insert_region g p region rp s =
     (case from_region rp (rm_head s) of
        [] \<Rightarrow> Inl Undefined
      | (_, d) # post \<Rightarrow>
          (let pre = before_region rp (rm_head s) in
           if rd_flags region = rd_flags d then Inl Panic
           else if rd_start d = rd_start region
           then (if rd_end d = rd_end region
                 then bind_res (l4rm_region_desc_free rp (s\<lparr>rm_head := pre @ (p, region) # post\<rparr>)) (\<lambda>s1. Inr (s1, 0))
                 else Inr (s\<lparr>rm_head := pre @ (p, region) # (rp, d\<lparr>rd_start := rd_end region + 1\<rparr>) # post\<rparr>, 0))
           else if rd_end d = rd_end region
           then Inr (s\<lparr>rm_head := pre @ (rp, d\<lparr>rd_end := rd_start region - 1\<rparr>) # (p, region) # post\<rparr>, 0)
           else bind_res (l4rm_region_desc_alloc g s) (\<lambda>(s1, tmp).
                  if tmp = 0 then Inr (s1, - L4_ENOMEM)
                  else (let t = region_fresh\<lparr>rd_start := rd_end region + 1, rd_end := rd_end d, rd_flags := rd_flags d\<rparr>
                        in Inr (s1\<lparr>rm_head := pre @ (rp, d\<lparr>rd_end := rd_start region - 1\<rparr>) # (p, region) # (tmp, t) # post\<rparr>, 0)))))"

text \<open>The two joins of \<open>__modify_region\<close>, for the descriptor \<open>(p, d)\<close> between \<open>pre\<close> and \<open>post\<close>.\<close>

definition join_next :: "region_list \<Rightarrow> l4_addr_t \<Rightarrow> region_desc \<Rightarrow> region_list \<Rightarrow> rm_state \<Rightarrow> rm_state res" where
  "join_next pre p d post s =
     (case post of
        (n, dn) # post' \<Rightarrow>
          if rd_flags d = rd_flags dn
          then l4rm_region_desc_free p (s\<lparr>rm_head := pre @ (n, dn\<lparr>rd_start := rd_start d\<rparr>) # post'\<rparr>)
          else Inr (s\<lparr>rm_head := pre @ (p, d) # post\<rparr>)
      | [] \<Rightarrow> Inr (s\<lparr>rm_head := pre @ [(p, d)]\<rparr>))"

definition modify_region :: "l4_addr_t \<Rightarrow> u32 \<Rightarrow> rm_state \<Rightarrow> rm_state res" where
  "modify_region p new_flags s =
     (case from_region p (rm_head s) of
        [] \<Rightarrow> Inl Undefined
      | (_, d0) # post \<Rightarrow>
          (let pre = before_region p (rm_head s); d = d0\<lparr>rd_flags := new_flags\<rparr> in
           if \<not> IS_FREE_REGION d then Inr (s\<lparr>rm_head := pre @ (p, d) # post\<rparr>)
           else if pre \<noteq> [] \<and> rd_flags (snd (last pre)) = rd_flags d
           then bind_res (l4rm_region_desc_free p s) (\<lambda>s1.
                  join_next (butlast pre) (fst (last pre)) ((snd (last pre))\<lparr>rd_end := rd_end d\<rparr>) post s1)
           else join_next pre p d post s))"

text \<open>The alignment is the exponent; \<open>None\<close> as a result means that there is no suitable region.\<close>

fun free_region_from :: "u32 \<Rightarrow> u32 \<Rightarrow> u32 \<Rightarrow> region_list \<Rightarrow> (l4_addr_t \<times> l4_addr_t) option" where
  "free_region_from sz area a_size [] = None"
| "free_region_from sz area a_size ((p, d) # l) =
     (let a_addr = (rd_start d + a_size - 1) AND NOT (a_size - 1); offs = a_addr - rd_start d
      in if IS_FREE_REGION d \<and> REGION_AREA d = area \<and> rd_end d - rd_start d + 1 \<ge> sz + offs
         then Some (p, a_addr) else free_region_from sz area a_size l)"

definition find_free_region :: "u32 \<Rightarrow> u32 \<Rightarrow> nat \<Rightarrow> rm_state \<Rightarrow> (l4_addr_t \<times> l4_addr_t) option res" where
  "find_free_region sz area align s =
     (if align \<ge> 32 then Inl Undefined else Inr (free_region_from sz area (push_bit align 1) (rm_head s)))"

fun region_from :: "l4_addr_t \<Rightarrow> region_list \<Rightarrow> (l4_addr_t \<times> region_desc) option" where
  "region_from a [] = None"
| "region_from a ((p, d) # l) = (if rd_end d < a then region_from a l else Some (p, d))"

text \<open>\<open>__find_region\<close>: an error code, or 0 with the address of the descriptor.\<close>

definition find_region :: "l4_addr_t \<Rightarrow> u32 \<Rightarrow> u32 \<Rightarrow> rm_state \<Rightarrow> (int \<times> l4_addr_t) res" where
  "find_region a sz area s =
     (if a < rm_vm_start s \<or> a > rm_vm_end s \<or> a + sz > rm_vm_end s then Inr (- L4_EINVAL, 0)
      else (case region_from a (rm_head s) of
              None \<Rightarrow> Inl Panic
            | Some (p, d) \<Rightarrow>
                if \<not> IS_FREE_REGION d \<or> REGION_AREA d \<noteq> area \<or> rd_end d < a + sz - 1 then Inr (- L4_EUSED, 0)
                else Inr (0, p)))"

definition l4rm_free_region :: "l4_addr_t \<Rightarrow> rm_state \<Rightarrow> rm_state res" where
  "l4rm_free_region p s =
     (case map_of (rm_head s) p of
        None \<Rightarrow> Inl Undefined
      | Some r \<Rightarrow>
          if IS_FREE_REGION r then Inr s else modify_region p (rd_flags (SET_REGION_TYPE REGION_FREE r)) s)"

text \<open>One turn of the loop of \<open>l4rm_reset_area\<close> for every region that is found; \<open>None\<close> if it does not end.\<close>

definition area_region :: "u32 \<Rightarrow> region_list \<Rightarrow> (l4_addr_t \<times> region_desc) option" where
  "area_region area l = find (\<lambda>x. REGION_AREA (snd x) = area) l"

partial_function (option) reset_area_loop :: "u32 \<Rightarrow> rm_state \<Rightarrow> rm_state res option" where
  "reset_area_loop area s =
     (case area_region area (rm_head s) of
        None \<Rightarrow> Some (Inr s)
      | Some x \<Rightarrow>
          (case modify_region (fst x) (rd_flags (SET_AREA L4RM_DEFAULT_REGION_AREA (snd x))) s of
             Inl e \<Rightarrow> Some (Inl e)
           | Inr s1 \<Rightarrow> reset_area_loop area s1))"

definition l4rm_reset_area :: "u32 \<Rightarrow> rm_state \<Rightarrow> rm_state res option" where
  "l4rm_reset_area area s = reset_area_loop area s"

definition l4rm_find_region :: "l4_addr_t \<Rightarrow> rm_state \<Rightarrow> (l4_addr_t \<times> region_desc) option res" where
  "l4rm_find_region a s =
     (if a < rm_vm_start s \<or> a > rm_vm_end s then Inr None
      else (case region_from a (rm_head s) of None \<Rightarrow> Inl Panic | Some x \<Rightarrow> Inr (Some x)))"

definition l4rm_unmap_region :: "region_desc \<Rightarrow> (l4_addr_t \<times> nat) list option" where
  "l4rm_unmap_region r = unmap_loop (rd_start r) (rd_end r - rd_start r + 1)"

definition sizeof_region_desc :: u32 where [l4_const]: "sizeof_region_desc = 40"

definition l4rm_region_alloc_init :: "rm_state \<Rightarrow> (rm_state \<times> int) res" where
  "l4rm_region_alloc_init s =
     bind_res (l4slab_cache_init (Some (rm_cache s)) sizeof_region_desc 1 True False) (\<lambda>(c, ret).
       if ret < 0 then Inl Panic
       else (case c of None \<Rightarrow> Inl Undefined | Some c1 \<Rightarrow> Inr (s\<lparr>rm_cache := c1\<rparr>, 0)))"

text \<open>\<open>l4rm_init_regions\<close>: the whole address space is one free region. The bounds of the address space come from
  the environment.\<close>

definition l4rm_init_regions :: "grow_answer \<Rightarrow> l4_addr_t \<Rightarrow> l4_addr_t \<Rightarrow> rm_state \<Rightarrow> (rm_state \<times> int) res" where
  "l4rm_init_regions g vm_lo vm_hi s =
     bind_res (l4rm_region_alloc_init s) (\<lambda>(s0, ret).
       if ret < 0 then Inr (s0, -1)
       else bind_res (l4rm_region_desc_alloc g (s0\<lparr>rm_vm_start := vm_lo, rm_vm_end := vm_hi\<rparr>)) (\<lambda>(s1, h).
              if h = 0 then Inr (s1\<lparr>rm_head := []\<rparr>, -1)
              else Inr (s1\<lparr>rm_head := [(h, SET_AREA L4RM_DEFAULT_REGION_AREA (SET_REGION_TYPE REGION_FREE
                          (region_fresh\<lparr>rd_start := vm_lo, rd_end := vm_hi\<rparr>)))]\<rparr>, 0)))"

section \<open>Tilings\<close>

text \<open>The regions of the list cover an interval of addresses without gaps and without overlaps, in order.\<close>

fun tiles :: "l4_addr_t \<Rightarrow> l4_addr_t \<Rightarrow> region_list \<Rightarrow> bool" where
  "tiles lo hi [] = False"
| "tiles lo hi [(p, d)] = (rd_start d = lo \<and> rd_end d = hi \<and> lo \<le> hi)"
| "tiles lo hi ((p, d) # x # l) = (rd_start d = lo \<and> lo \<le> rd_end d \<and> rd_end d < hi \<and> tiles (rd_end d + 1) hi (x # l))"

text \<open>The abstract view: the flags and the data at every address.\<close>

definition in_region :: "region_desc \<Rightarrow> l4_addr_t \<Rightarrow> bool" where
  "in_region d a \<longleftrightarrow> rd_start d \<le> a \<and> a \<le> rd_end d"

fun flags_at :: "region_list \<Rightarrow> l4_addr_t \<Rightarrow> u32 option" where
  "flags_at [] a = None"
| "flags_at ((p, d) # l) a = (if in_region d a then Some (rd_flags d) else flags_at l a)"

lemma tiles_le: "tiles lo hi l \<Longrightarrow> lo \<le> hi"
  by (induction lo hi l rule: tiles.induct) auto

lemma unat_succ: "a < b \<Longrightarrow> unat (a + 1) = Suc (unat a)" for a b :: u32
proof -
  assume "a < b"
  then have "unat a + 1 < 4294967296" using unat_lt32 [of b] unfolding word_less_unat by linarith
  then show ?thesis by (subst unat_add_lt) simp_all
qed

lemma succ_le: "a < b \<Longrightarrow> a + 1 \<le> b \<and> a < a + 1" for a b :: u32
  by (simp add: unat_succ word_less_unat word_le_unat)

lemma succ_le_iff: "a < b \<Longrightarrow> a + 1 \<le> x \<longleftrightarrow> a < x" for a b x :: u32
  by (simp add: unat_succ word_less_unat word_le_unat Suc_le_eq)

lemma le_pred_iff: "a < b \<Longrightarrow> x \<le> b - 1 \<longleftrightarrow> x < b" for a b x :: u32
proof -
  assume "a < b"
  then have b: "b \<noteq> 0" "0 < unat b" by (auto simp: word_less_unat)
  then show ?thesis unfolding word_less_unat word_le_unat unat_sub_one [OF b(1)] by linarith
qed

lemma tiles_Cons:
  "l \<noteq> [] \<Longrightarrow> tiles lo hi ((p, d) # l) \<longleftrightarrow>
     rd_start d = lo \<and> lo \<le> rd_end d \<and> rd_end d < hi \<and> tiles (rd_end d + 1) hi l"
  by (cases l) auto

lemma tiles_append:
  assumes "ys \<noteq> []" "xs \<noteq> []"
  shows "tiles lo hi (xs @ ys) \<longleftrightarrow> (\<exists>m. tiles lo m xs \<and> m < hi \<and> tiles (m + 1) hi ys)"
  using assms(2)
proof (induction xs arbitrary: lo)
  case (Cons x xs)
  obtain p d where x: "x = (p, d)" by force
  show ?case
  proof (cases "xs = []")
    case True
    then show ?thesis using assms(1) x by (auto simp: tiles_Cons)
  next
    case False
    have "rd_end d < m" if "rd_end d < hi" "tiles (rd_end d + 1) m xs" for m
      using succ_le [OF that(1)] tiles_le [OF that(2)] by (meson less_le_trans)
    then show ?thesis using Cons.IH [OF False] x assms(1) False
      by (auto simp: tiles_Cons dest: less_trans)
  qed
qed simp

lemma flags_at_range: "tiles lo hi l \<Longrightarrow> flags_at l a \<noteq> None \<longleftrightarrow> lo \<le> a \<and> a \<le> hi"
proof (induction lo hi l rule: tiles.induct)
  case (3 lo hi p d x l)
  then have t: "rd_start d = lo" "lo \<le> rd_end d" "rd_end d < hi" "tiles (rd_end d + 1) hi (x # l)" by simp_all
  then have "flags_at (x # l) a \<noteq> None \<longleftrightarrow> rd_end d + 1 \<le> a \<and> a \<le> hi" using 3 by simp
  moreover have "rd_end d + 1 \<le> a \<longleftrightarrow> rd_end d < a" using succ_le [OF t(3)] succ_le [of "rd_end d" a] by (metis less_le_trans)
  ultimately show ?case using t by (auto simp: in_region_def)
qed (auto simp: in_region_def)

lemma flags_at_append: "flags_at (xs @ ys) a = (case flags_at xs a of None \<Rightarrow> flags_at ys a | Some f \<Rightarrow> Some f)"
  by (induction xs a rule: flags_at.induct) auto

text \<open>Replacing a part of the list by another tiling of the same interval.\<close>

lemma tiles_split:
  assumes "tiles lo hi (pre @ mid @ post)" "mid \<noteq> []"
  shows "\<exists>a b. tiles a b mid \<and> lo \<le> a \<and> b \<le> hi"
  using assms
proof -
  obtain a where a: "tiles a hi (mid @ post)" "lo \<le> a"
  proof (cases "pre = []")
    case False
    then obtain m where m: "tiles lo m pre" "m < hi" "tiles (m + 1) hi (mid @ post)" using assms by (auto simp: tiles_append)
    then show ?thesis using that [of "m + 1"] tiles_le [OF m(1)] succ_le [OF m(2)] by (meson le_less_trans less_imp_le)
  qed (use assms that in auto)
  then show ?thesis
  proof (cases "post = []")
    case False
    then show ?thesis using a assms(2) by (auto simp: tiles_append) (meson less_imp_le)
  qed auto
qed

lemma tiles_unique: "tiles a b l \<Longrightarrow> tiles a' b' l \<Longrightarrow> a = a' \<and> b = b'"
proof (induction a b l arbitrary: a' b' rule: tiles.induct)
  case (3 lo hi p d x l)
  then have "tiles (rd_end d + 1) hi (x # l)" "tiles (rd_end d + 1) b' (x # l)" "lo = a'" by simp_all
  then show ?case using "3.IH" by blast
qed auto

lemma tiles_replace:
  assumes t: "tiles lo hi (pre @ mid @ post)" and m: "tiles a b mid" "tiles a b mid'"
  shows "tiles lo hi (pre @ mid' @ post)"
    "flags_at (pre @ mid' @ post) x = (if a \<le> x \<and> x \<le> b then flags_at mid' x else flags_at (pre @ mid @ post) x)"
proof -
  have ne: "mid \<noteq> []" "mid' \<noteq> []" using m by auto
  have uniq: "a' = a \<and> b' = b" if "tiles a' b' mid" for a' b' by (rule tiles_unique [OF that m(1)])
  have right: "l = a \<and> tiles l hi (mid' @ post)" if r: "tiles l hi (mid @ post)" for l
  proof (cases "post = []")
    case True
    then have "tiles l hi mid" using r by simp
    then have "l = a" "hi = b" using uniq by blast+
    then show ?thesis using m(2) True by simp
  next
    case False
    then obtain k where k: "tiles l k mid" "k < hi" "tiles (k + 1) hi post" using r tiles_append [OF False ne(1)] by blast
    then have "l = a" "k = b" using uniq by blast+
    then show ?thesis using k m(2) tiles_append [OF False ne(2)] by blast
  qed
  show "tiles lo hi (pre @ mid' @ post)"
    using t right ne by (cases "pre = []") (auto simp: tiles_append)
  have mid: "flags_at mid x = None \<longleftrightarrow> \<not> (a \<le> x \<and> x \<le> b)" "flags_at mid' x = None \<longleftrightarrow> \<not> (a \<le> x \<and> x \<le> b)"
    using flags_at_range [OF m(1), of x] flags_at_range [OF m(2), of x] by auto
  have pre: "flags_at pre x = None" if "a \<le> x"
  proof (cases "pre = []")
    case False
    then obtain k where k: "tiles lo k pre" "k < hi" "tiles (k + 1) hi (mid @ post)" using t ne by (auto simp: tiles_append)
    then have "a = k + 1" using right by blast
    then have "k < x" using succ_le [OF k(2)] that by auto
    then show ?thesis using flags_at_range [OF k(1), of x] by auto
  qed simp
  show "flags_at (pre @ mid' @ post) x = (if a \<le> x \<and> x \<le> b then flags_at mid' x else flags_at (pre @ mid @ post) x)"
    using mid pre by (auto simp: flags_at_append split: option.splits)
qed

lemma region_parts:
  assumes "(p, d) \<in> set l" "distinct (map fst l)"
  shows "l = before_region p l @ (p, d) # tl (from_region p l)" "from_region p l = (p, d) # tl (from_region p l)"
proof -
  have l: "l = before_region p l @ from_region p l" by (simp add: before_region_def from_region_def)
  obtain q e r where r: "from_region p l = (q, e) # r"
  proof (cases "from_region p l")
    case Nil
    then show ?thesis using assms(1) by (force simp: from_region_def dropWhile_eq_Nil_conv)
  next
    case (Cons x r)
    then show ?thesis using that by (cases x) auto
  qed
  have q: "q = p" using hd_dropWhile [of "\<lambda>x. fst x \<noteq> p" l] r unfolding from_region_def by (metis fst_conv list.distinct(1) list.sel(1))
  have "(q, e) \<in> set l" using l r by (metis in_set_conv_decomp)
  then have "e = d" using assms q by (metis eq_key_imp_eq_value)
  then show "l = before_region p l @ (p, d) # tl (from_region p l)" "from_region p l = (p, d) # tl (from_region p l)"
    using l r q by simp_all
qed

section \<open>The invariant\<close>

definition rm_inv :: "rm_state \<Rightarrow> bool" where
  "rm_inv s \<longleftrightarrow> slab_inv (rm_cache s) \<and> distinct (map fst (rm_head s)) \<and> (\<forall>p \<in> fst ` set (rm_head s). in_use (rm_cache s) p) \<and>
     tiles (rm_vm_start s) (rm_vm_end s) (rm_head s)"

text \<open>A descriptor a client of the list holds, which is not in the list.\<close>

definition loose_desc :: "rm_state \<Rightarrow> l4_addr_t \<Rightarrow> bool" where
  "loose_desc s p \<longleftrightarrow> in_use (rm_cache s) p \<and> p \<notin> fst ` set (rm_head s)"

definition grow_ok :: "grow_answer \<Rightarrow> rm_state \<Rightarrow> bool" where
  "grow_ok g s \<longleftrightarrow> (\<forall>b d. g = Some (b, d) \<longrightarrow> fresh_buffer (rm_cache s) b)"

lemma desc_alloc_ok:
  assumes "slab_inv (rm_cache s)" "grow_ok g s"
  shows "\<exists>c p. l4rm_region_desc_alloc g s = Inr (s\<lparr>rm_cache := c\<rparr>, p) \<and> slab_inv c \<and>
    (p \<noteq> 0 \<longrightarrow> \<not> in_use (rm_cache s) p) \<and> in_use c = (if p = 0 then in_use (rm_cache s) else (in_use (rm_cache s))(p := True))"
proof -
  obtain c p where "l4slab_alloc g (Some (rm_cache s)) = Inr (Some c, p)" "slab_inv c"
    "if p = 0 then in_use c = in_use (rm_cache s) \<and> sc_part (rm_cache s) = [] \<and> sc_free (rm_cache s) = [] \<and> (\<not> sc_grow_fn (rm_cache s) \<or> g = None)
     else \<not> in_use (rm_cache s) p \<and> in_use c = (in_use (rm_cache s))(p := True)"
    using slab_alloc_ok [OF assms(1), of g] assms(2) unfolding grow_ok_def by blast
  then show ?thesis by (intro exI [of _ c] exI [of _ p]) (auto simp: l4rm_region_desc_alloc_def)
qed

lemma desc_free_ok:
  assumes "slab_inv (rm_cache s)" "in_use (rm_cache s) p"
  shows "\<exists>c. l4rm_region_desc_free p s = Inr (s\<lparr>rm_cache := c\<rparr>) \<and> slab_inv c \<and> in_use c = (in_use (rm_cache s))(p := False)"
proof -
  obtain c where "l4slab_free (Some (rm_cache s)) p = Inr (Some c)" "slab_inv c" "in_use c = (in_use (rm_cache s))(p := False)"
    using slab_free_ok [OF assms] by blast
  then show ?thesis by (intro exI [of _ c]) (simp add: l4rm_region_desc_free_def)
qed

text \<open>Replacing one region by a tiling of its interval keeps the invariant if the addresses are those of allocated
  descriptors.\<close>

lemma rm_inv_replace:
  assumes inv: "rm_inv s" and l: "rm_head s = pre @ mid @ post" and t: "tiles a b mid" "tiles a b mid'"
    and c: "slab_inv c" "distinct (map fst mid')" "fst ` set mid' \<inter> fst ` set (pre @ post) = {}"
      "\<forall>p \<in> fst ` set (pre @ mid' @ post). in_use c p"
  shows "rm_inv (s\<lparr>rm_head := pre @ mid' @ post, rm_cache := c\<rparr>)"
  using inv tiles_replace(1) [of _ _ pre mid post a b mid', OF _ t] c l unfolding rm_inv_def by (auto simp: image_Un)

lemma tiles_mid:
  assumes "rm_inv s" "rm_head s = pre @ mid @ post" "mid \<noteq> []"
  obtains a b where "tiles a b mid" "rm_vm_start s \<le> a" "b \<le> rm_vm_end s"
  using assms tiles_split [of "rm_vm_start s" "rm_vm_end s" pre mid post] that by (auto simp: rm_inv_def)

section \<open>Inserting a region\<close>

definition used_regions :: "rm_state \<Rightarrow> (l4_addr_t \<times> region_desc) set" where
  "used_regions s = {x \<in> set (rm_head s). \<not> IS_FREE_REGION (snd x)}"

text \<open>The result of an insertion: the state is well formed, the region is in the list, the flags change inside the
  region only, and so do the regions in use.\<close>

definition inserted :: "l4_addr_t \<Rightarrow> region_desc \<Rightarrow> rm_state \<Rightarrow> rm_state \<Rightarrow> bool" where
  "inserted p r s s' \<longleftrightarrow> rm_inv s' \<and> rm_vm_start s' = rm_vm_start s \<and> rm_vm_end s' = rm_vm_end s \<and> (p, r) \<in> set (rm_head s') \<and>
     (\<forall>x. flags_at (rm_head s') x = (if in_region r x then Some (rd_flags r) else flags_at (rm_head s) x)) \<and>
     used_regions s' = used_regions s \<union> (if IS_FREE_REGION r then {} else {(p, r)})"

lemma head_cache: "s\<lparr>rm_cache := c, rm_head := l\<rparr> = s\<lparr>rm_head := l, rm_cache := c\<rparr>"
  by simp

lemma inserted_replace:
  assumes inv: "rm_inv s" and l: "rm_head s = pre @ [(rp, d)] @ post" and d: "IS_FREE_REGION d" and p: "p \<notin> fst ` set (rm_head s)"
    and t: "tiles (rd_start d) (rd_end d) mid'" "(p, r) \<in> set mid'" "\<And>x. x \<in> set mid' \<Longrightarrow> x \<noteq> (p, r) \<Longrightarrow> IS_FREE_REGION (snd x)"
      "\<And>x. in_region d x \<Longrightarrow> flags_at mid' x = (if in_region r x then Some (rd_flags r) else Some (rd_flags d))"
      "\<And>x. in_region r x \<Longrightarrow> in_region d x"
    and c: "slab_inv c" "distinct (map fst mid')" "fst ` set mid' \<inter> fst ` set (pre @ post) = {}"
      "\<forall>p \<in> fst ` set (pre @ mid' @ post). in_use c p"
  shows "inserted p r s (s\<lparr>rm_head := pre @ mid' @ post, rm_cache := c\<rparr>)"
proof -
  obtain a b where "tiles a b [(rp, d)]" using tiles_mid [OF inv l] by blast
  then have td: "tiles (rd_start d) (rd_end d) [(rp, d)]" by simp
  have ti: "tiles (rm_vm_start s) (rm_vm_end s) (pre @ [(rp, d)] @ post)" using inv l by (simp add: rm_inv_def)
  have f: "flags_at (pre @ mid' @ post) x = (if in_region d x then flags_at mid' x else flags_at (rm_head s) x)" for x
    using tiles_replace(2) [OF ti td t(1), of x] l by (simp add: in_region_def)
  have e: "flags_at (rm_head s) x = Some (rd_flags d)" if "in_region d x" for x
    using tiles_replace(2) [OF ti td td, of x] l that by (simp add: in_region_def)
  have fl: "flags_at (pre @ mid' @ post) x = (if in_region r x then Some (rd_flags r) else flags_at (rm_head s) x)" for x
    using f [of x] t(4,5) [of x] e by auto
  have "x \<in> set mid' \<and> \<not> IS_FREE_REGION (snd x) \<longleftrightarrow> x = (p, r) \<and> \<not> IS_FREE_REGION r" for x
    using t(2) t(3) [of x] by (cases "x = (p, r)") auto
  then have u: "used_regions (s\<lparr>rm_head := pre @ mid' @ post, rm_cache := c\<rparr>) = used_regions s \<union> (if IS_FREE_REGION r then {} else {(p, r)})"
    using d l by (auto simp: used_regions_def)
  have "rm_inv (s\<lparr>rm_head := pre @ mid' @ post, rm_cache := c\<rparr>)" by (rule rm_inv_replace [OF inv l td t(1) c])
  then show ?thesis unfolding inserted_def using fl u t(2) by auto
qed

lemma insert_region_ok:
  assumes inv: "rm_inv s" and rp: "(rp, d) \<in> set (rm_head s)" and p: "loose_desc s p" and g: "grow_ok g s" and d: "IS_FREE_REGION d"
    and r: "rd_start d \<le> rd_start r" "rd_start r \<le> rd_end r" "rd_end r \<le> rd_end d" "rd_flags r \<noteq> rd_flags d"
  shows "\<exists>s' ret. insert_region g p r rp s = Inr (s', ret) \<and>
    (ret = 0 \<and> inserted p r s s' \<or> ret = - L4_ENOMEM \<and> (\<exists>c. s' = s\<lparr>rm_cache := c\<rparr> \<and> slab_inv c \<and> in_use c = in_use (rm_cache s)))"
proof -
  define pre where "pre = before_region rp (rm_head s)"
  define post where "post = tl (from_region rp (rm_head s))"
  have di: "distinct (map fst (rm_head s))" and ci: "slab_inv (rm_cache s)" and ui: "\<forall>p \<in> fst ` set (rm_head s). in_use (rm_cache s) p"
    using inv by (auto simp: rm_inv_def)
  note parts = region_parts [OF rp di, folded pre_def post_def]
  have l: "rm_head s = pre @ [(rp, d)] @ post" using parts(1) by simp
  note fr = parts(2)
  have pn: "p \<notin> fst ` set (rm_head s)" "in_use (rm_cache s) p" using p by (auto simp: loose_desc_def)
  have nr: "rp \<notin> fst ` set pre" "rp \<notin> fst ` set post" "p \<notin> fst ` set pre" "p \<notin> fst ` set post" "p \<noteq> rp" using l di pn by auto
  have ul: "in_use (rm_cache s) rp" "\<And>q e. (q, e) \<in> set pre \<Longrightarrow> in_use (rm_cache s) q" "\<And>q e. (q, e) \<in> set post \<Longrightarrow> in_use (rm_cache s) q"
    using ui l by force+
  note ins = inserted_replace [OF inv l d pn(1)]
  have w: "rd_end r + 1 \<le> x \<longleftrightarrow> rd_end r < x" if "rd_end d \<noteq> rd_end r" for x
    using succ_le_iff [of "rd_end r" "rd_end d"] r(3) that by auto
  have v: "x \<le> rd_start r - 1 \<longleftrightarrow> x < rd_start r" "rd_start r - 1 < x \<longleftrightarrow> rd_start r \<le> x" if "rd_start d \<noteq> rd_start r" for x
    using le_pred_iff [of "rd_start d" "rd_start r" x] r(1) that by (auto simp: linorder_not_le [symmetric])
  consider "rd_start d = rd_start r" "rd_end d = rd_end r" | "rd_start d = rd_start r" "rd_end d \<noteq> rd_end r"
    | "rd_start d \<noteq> rd_start r" "rd_end d = rd_end r" | "rd_start d \<noteq> rd_start r" "rd_end d \<noteq> rd_end r" by blast
  then show ?thesis
  proof cases
    case 1
    obtain c where c: "l4rm_region_desc_free rp (s\<lparr>rm_head := pre @ (p, r) # post\<rparr>) = Inr (s\<lparr>rm_head := pre @ (p, r) # post, rm_cache := c\<rparr>)"
      "slab_inv c" "in_use c = (in_use (rm_cache s))(rp := False)"
      using desc_free_ok [of "s\<lparr>rm_head := pre @ (p, r) # post\<rparr>" rp] ci ul by auto
    have "inserted p r s (s\<lparr>rm_head := pre @ [(p, r)] @ post, rm_cache := c\<rparr>)"
      by (rule ins) (use 1 c nr pn ul r in \<open>auto simp: in_region_def\<close>)
    then show ?thesis using fr pre_def 1 c r by (simp add: insert_region_def)
  next
    case 2
    have "inserted p r s (s\<lparr>rm_head := pre @ [(p, r), (rp, d\<lparr>rd_start := rd_end r + 1\<rparr>)] @ post, rm_cache := rm_cache s\<rparr>)"
      by (rule ins) (use 2 w ci nr pn ul r d in \<open>auto simp: in_region_def IS_FREE_REGION_def REGION_TYPE_def\<close>)
    then show ?thesis using fr pre_def 2 r by (simp add: insert_region_def)
  next
    case 3
    have "inserted p r s (s\<lparr>rm_head := pre @ [(rp, d\<lparr>rd_end := rd_start r - 1\<rparr>), (p, r)] @ post, rm_cache := rm_cache s\<rparr>)"
      by (rule ins) (use 3 v ci nr pn ul r d in \<open>auto simp: in_region_def IS_FREE_REGION_def REGION_TYPE_def\<close>)
    then show ?thesis using fr pre_def 3 r by (simp add: insert_region_def)
  next
    case 4
    obtain c t where c: "l4rm_region_desc_alloc g s = Inr (s\<lparr>rm_cache := c\<rparr>, t)" "slab_inv c" "t \<noteq> 0 \<longrightarrow> \<not> in_use (rm_cache s) t"
      "in_use c = (if t = 0 then in_use (rm_cache s) else (in_use (rm_cache s))(t := True))"
      using desc_alloc_ok [OF ci g] by blast
    show ?thesis
    proof (cases "t = 0")
      case True
      then show ?thesis using fr pre_def 4 r c by (auto simp: insert_region_def)
    next
      case False
      then have nt: "t \<noteq> p" "t \<noteq> rp" "t \<notin> fst ` set pre" "t \<notin> fst ` set post" using c(3) pn(2) ul by auto
      have "inserted p r s (s\<lparr>rm_head := pre @ [(rp, d\<lparr>rd_end := rd_start r - 1\<rparr>), (p, r),
          (t, region_fresh\<lparr>rd_start := rd_end r + 1, rd_end := rd_end d, rd_flags := rd_flags d\<rparr>)] @ post, rm_cache := c\<rparr>)"
        by (rule ins) (use 4 v w c False nt nr pn ul r d in \<open>auto simp: in_region_def IS_FREE_REGION_def REGION_TYPE_def\<close>)
      then show ?thesis using fr pre_def 4 r c False by (simp add: insert_region_def Let_def head_cache)
    qed
  qed
qed

section \<open>Changing the flags of a region\<close>

definition used_of :: "region_list \<Rightarrow> (l4_addr_t \<times> region_desc) set" where
  "used_of l = {x \<in> set l. \<not> IS_FREE_REGION (snd x)}"

definition cnt :: "(u32 \<Rightarrow> bool) \<Rightarrow> region_list \<Rightarrow> nat" where
  "cnt P l = length (filter (\<lambda>x. P (rd_flags (snd x))) l)"

lemma used_of_simps [simp]:
  "used_of [] = {}" "used_of (x # l) = (if IS_FREE_REGION (snd x) then used_of l else insert x (used_of l))"
  "used_of (l @ l') = used_of l \<union> used_of l'"
  by (auto simp: used_of_def)

lemma cnt_simps [simp]:
  "cnt P [] = 0" "cnt P (x # l) = (if P (rd_flags (snd x)) then Suc (cnt P l) else cnt P l)" "cnt P (l @ l') = cnt P l + cnt P l'"
  by (simp_all add: cnt_def)

text \<open>A list and a cache that make up a well-formed state, seen as the list \<open>l\<close> was seen.\<close>

definition rl_ok :: "rm_state \<Rightarrow> slab_cache \<Rightarrow> region_list \<Rightarrow> bool" where
  "rl_ok s c l \<longleftrightarrow> rm_inv (s\<lparr>rm_head := l, rm_cache := c\<rparr>)"

definition same_view :: "u32 \<Rightarrow> region_list \<Rightarrow> region_list \<Rightarrow> bool" where
  "same_view f l l' \<longleftrightarrow> flags_at l' = flags_at l \<and> used_of l' = used_of l \<and> (\<forall>P. \<not> P f \<longrightarrow> cnt P l' = cnt P l)"

text \<open>Joining two neighbours with the same flags.\<close>

lemma merge_ok:
  assumes ok: "rl_ok s c (pre @ [(a, da), (b, db)] @ post)" and f: "rd_flags da = f" "rd_flags db = f" "rd_flags m = f"
    and m: "rd_start m = rd_start da" "rd_end m = rd_end db" "IS_FREE_REGION m"
    and q: "(q, o') = (a, b) \<or> (q, o') = (b, a)"
  shows "\<exists>c'. l4rm_region_desc_free o' (s\<lparr>rm_head := l, rm_cache := c\<rparr>) = Inr (s\<lparr>rm_head := l, rm_cache := c'\<rparr>) \<and>
    rl_ok s c' (pre @ (q, m) # post) \<and> same_view f (pre @ [(a, da), (b, db)] @ post) (pre @ (q, m) # post)"
proof -
  let ?l = "pre @ [(a, da), (b, db)] @ post" and ?s = "s\<lparr>rm_head := pre @ [(a, da), (b, db)] @ post, rm_cache := c\<rparr>"
  have inv: "rm_inv ?s" using ok by (simp add: rl_ok_def)
  then have di: "distinct (map fst ?l)" and ci: "slab_inv c" and ui: "\<forall>p \<in> fst ` set ?l. in_use c p" by (auto simp: rm_inv_def)
  obtain c' where c': "l4rm_region_desc_free o' (s\<lparr>rm_head := l, rm_cache := c\<rparr>) = Inr (s\<lparr>rm_head := l, rm_cache := c'\<rparr>)"
    "slab_inv c'" "in_use c' = (in_use c)(o' := False)"
    using desc_free_ok [of "s\<lparr>rm_head := l, rm_cache := c\<rparr>" o'] ci ui q by auto
  have h: "rm_head ?s = pre @ [(a, da), (b, db)] @ post" by simp
  obtain x y where "tiles x y [(a, da), (b, db)]" using tiles_mid [OF inv h] by blast
  then have t: "tiles (rd_start da) (rd_end db) [(a, da), (b, db)]" by simp
  have n: "rd_end da < rd_end db" "rd_start da \<le> rd_end da" "rd_start db = rd_end da + 1" using t by auto
  have t': "tiles (rd_start da) (rd_end db) [(q, m)]" using m n by auto
  have "rm_inv (?s\<lparr>rm_head := pre @ [(q, m)] @ post, rm_cache := c'\<rparr>)"
    by (rule rm_inv_replace [OF inv h t t']) (use di ui c' q in \<open>auto simp: image_iff\<close>)
  then have ok': "rl_ok s c' (pre @ (q, m) # post)" by (simp add: rl_ok_def)
  have "tiles (rm_vm_start s) (rm_vm_end s) (pre @ [(a, da), (b, db)] @ post)" using inv by (simp add: rm_inv_def)
  note tr = tiles_replace(2) [OF this t t'] and ts = tiles_replace(2) [OF this t t]
  have g: "flags_at (pre @ [(q, m)] @ post) x = flags_at ?l x" for x
  proof (cases "in_region m x")
    case True
    have "rd_end da + 1 \<le> x \<longleftrightarrow> rd_end da < x" by (rule succ_le_iff [OF n(1)])
    then have "flags_at [(a, da), (b, db)] x = Some f" using True m n f by (auto simp: in_region_def)
    moreover have "rd_start da \<le> x \<and> x \<le> rd_end db" using True m by (simp add: in_region_def)
    then have "flags_at ?l x = flags_at [(a, da), (b, db)] x" using ts [of x] by (simp only: simp_thms if_True)
    ultimately show ?thesis using tr [of x] True m f by (simp add: in_region_def)
  next
    case False
    then show ?thesis using tr [of x] m by (auto simp: in_region_def)
  qed
  have u: "IS_FREE_REGION da" "IS_FREE_REGION db" using f m(3) by (simp_all add: IS_FREE_REGION_def REGION_TYPE_def)
  have "same_view f ?l (pre @ (q, m) # post)"
    using g u m f by (auto simp: same_view_def fun_eq_iff)
  then show ?thesis using c' ok' by blast
qed

lemma same_view_refl [simp]: "same_view f l l"
  by (simp add: same_view_def)

lemma same_view_trans: "same_view f l l' \<Longrightarrow> same_view f l' l'' \<Longrightarrow> same_view f l l''"
  by (simp add: same_view_def)

lemma join_next_ok:
  assumes ok: "rl_ok s c (pre @ (p, d) # post)" and d: "IS_FREE_REGION d"
  shows "\<exists>l' c'. join_next pre p d post (s\<lparr>rm_cache := c\<rparr>) = Inr (s\<lparr>rm_head := l', rm_cache := c'\<rparr>) \<and> rl_ok s c' l' \<and>
    same_view (rd_flags d) (pre @ (p, d) # post) l'"
proof (cases "post \<noteq> [] \<and> rd_flags d = rd_flags (snd (hd post))")
  case True
  then obtain n dn post' where post: "post = (n, dn) # post'" "rd_flags d = rd_flags dn" by (cases post) auto
  let ?m = "dn\<lparr>rd_start := rd_start d\<rparr>"
  have fr: "IS_FREE_REGION ?m" using d post(2) by (simp add: IS_FREE_REGION_def REGION_TYPE_def)
  have "rl_ok s c (pre @ [(p, d), (n, dn)] @ post')" using ok post by simp
  from merge_ok [OF this refl post(2) [symmetric] _ _ _ fr, of n p] post(2)
  obtain c' where "l4rm_region_desc_free p (s\<lparr>rm_head := pre @ (n, ?m) # post', rm_cache := c\<rparr>) = Inr (s\<lparr>rm_head := pre @ (n, ?m) # post', rm_cache := c'\<rparr>)"
    "rl_ok s c' (pre @ (n, ?m) # post')" "same_view (rd_flags d) (pre @ [(p, d), (n, dn)] @ post') (pre @ (n, ?m) # post')"
    by force
  then show ?thesis using post by (auto simp: join_next_def head_cache)
next
  case False
  then have "join_next pre p d post (s\<lparr>rm_cache := c\<rparr>) = Inr (s\<lparr>rm_head := pre @ (p, d) # post, rm_cache := c\<rparr>)"
    by (cases post) (auto simp: join_next_def head_cache)
  then show ?thesis using ok by (intro exI [of _ "pre @ (p, d) # post"] exI [of _ c]) simp
qed

text \<open>What a change of the flags of the region \<open>(p, d)\<close> to \<open>f\<close> does.\<close>

definition reflagged :: "l4_addr_t \<Rightarrow> region_desc \<Rightarrow> u32 \<Rightarrow> rm_state \<Rightarrow> rm_state \<Rightarrow> bool" where
  "reflagged p d f s s' \<longleftrightarrow> rm_inv s' \<and> rm_vm_start s' = rm_vm_start s \<and> rm_vm_end s' = rm_vm_end s \<and>
     (\<forall>x. flags_at (rm_head s') x = (if in_region d x then Some f else flags_at (rm_head s) x)) \<and>
     used_regions s' = used_regions s - {(p, d)} \<union> (if IS_FREE_REGION (d\<lparr>rd_flags := f\<rparr>) then {} else {(p, d\<lparr>rd_flags := f\<rparr>)}) \<and>
     (\<forall>P. P (rd_flags d) \<longrightarrow> \<not> P f \<longrightarrow> cnt P (rm_head s') < cnt P (rm_head s))"

lemma used_regions_of: "used_regions s = used_of (rm_head s)"
  by (simp add: used_regions_def used_of_def)

lemma modify_region_ok:
  assumes inv: "rm_inv s" and p: "(p, d0) \<in> set (rm_head s)"
  shows "\<exists>s'. modify_region p f s = Inr s' \<and> reflagged p d0 f s s'"
proof -
  define pre where "pre = before_region p (rm_head s)"
  define post where "post = tl (from_region p (rm_head s))"
  define d where "d = d0\<lparr>rd_flags := f\<rparr>"
  have di: "distinct (map fst (rm_head s))" and ci: "slab_inv (rm_cache s)" and ui: "\<forall>p \<in> fst ` set (rm_head s). in_use (rm_cache s) p"
    using inv by (auto simp: rm_inv_def)
  note parts = region_parts [OF p di, folded pre_def post_def]
  have l: "rm_head s = pre @ [(p, d0)] @ post" using parts(1) by simp
  obtain a b where "tiles a b [(p, d0)]" using tiles_mid [OF inv l] by blast
  then have t: "tiles (rd_start d0) (rd_end d0) [(p, d0)]" "tiles (rd_start d0) (rd_end d0) [(p, d)]" by (simp_all add: d_def)
  let ?L = "pre @ [(p, d)] @ post"
  have "rm_inv (s\<lparr>rm_head := ?L, rm_cache := rm_cache s\<rparr>)"
    by (rule rm_inv_replace [OF inv l t ci]) (use di ui l in \<open>auto\<close>)
  then have okL: "rl_ok s (rm_cache s) (pre @ (p, d) # post)" by (simp add: rl_ok_def)
  have ti: "tiles (rm_vm_start s) (rm_vm_end s) (pre @ [(p, d0)] @ post)" using inv l by (simp add: rm_inv_def)
  have fL: "flags_at (pre @ (p, d) # post) x = (if in_region d0 x then Some f else flags_at (rm_head s) x)" for x
    using tiles_replace(2) [OF ti t, of x] l by (auto simp: in_region_def d_def)
  have np: "(p, d0) \<notin> used_of pre" "(p, d0) \<notin> used_of post" using di l by (force simp: used_of_def)+
  have view: "reflagged p d0 f s (s\<lparr>rm_head := l', rm_cache := c'\<rparr>)"
    if "rl_ok s c' l'" "same_view f (pre @ (p, d) # post) l'" for c' l'
    unfolding reflagged_def used_regions_of l
    using that fL np by (auto simp: rl_ok_def same_view_def l d_def)
  have joined: "\<exists>s'. join_next pre' p' d' post (s\<lparr>rm_cache := c'\<rparr>) = Inr s' \<and> reflagged p d0 f s s'"
    if a: "rl_ok s c' (pre' @ (p', d') # post)" "same_view f (pre @ (p, d) # post) (pre' @ (p', d') # post)" "IS_FREE_REGION d'" "rd_flags d' = f"
    for pre' p' d' c'
  proof -
    obtain l2 c2 where j: "join_next pre' p' d' post (s\<lparr>rm_cache := c'\<rparr>) = Inr (s\<lparr>rm_head := l2, rm_cache := c2\<rparr>)" "rl_ok s c2 l2"
      "same_view f (pre' @ (p', d') # post) l2" using join_next_ok [OF a(1,3)] a(4) by blast
    then show ?thesis using view [OF j(2) same_view_trans [OF a(2) j(3)]] by blast
  qed
  have fr: "from_region p (rm_head s) = (p, d0) # post" by (rule parts(2))
  consider "\<not> IS_FREE_REGION d" | "IS_FREE_REGION d" "pre \<noteq> []" "rd_flags (snd (last pre)) = f"
    | "IS_FREE_REGION d" "\<not> (pre \<noteq> [] \<and> rd_flags (snd (last pre)) = f)" by blast
  then show ?thesis
  proof cases
    case 1
    then have "modify_region p f s = Inr (s\<lparr>rm_head := pre @ (p, d) # post, rm_cache := rm_cache s\<rparr>)"
      using fr by (simp add: modify_region_def pre_def d_def Let_def)
    then show ?thesis using view [OF okL same_view_refl] by blast
  next
    case 2
    obtain pre' q dq where pre: "pre = pre' @ [(q, dq)]" "rd_flags dq = f" using 2 by (cases pre rule: rev_cases) auto
    let ?m = "dq\<lparr>rd_end := rd_end d\<rparr>"
    have frm: "IS_FREE_REGION ?m" using 2(1) pre(2) by (simp add: IS_FREE_REGION_def REGION_TYPE_def d_def)
    have "rl_ok s (rm_cache s) (pre' @ [(q, dq), (p, d)] @ post)" using okL pre by simp
    from merge_ok [OF this pre(2) _ _ _ _ frm, of q p "rm_head s"] pre(2)
    obtain c' where c': "l4rm_region_desc_free p s = Inr (s\<lparr>rm_cache := c'\<rparr>)"
      "rl_ok s c' (pre' @ (q, ?m) # post)" "same_view f (pre' @ [(q, dq), (p, d)] @ post) (pre' @ (q, ?m) # post)"
      by (force simp: d_def)
    obtain s' where s': "join_next pre' q ?m post (s\<lparr>rm_cache := c'\<rparr>) = Inr s'" "reflagged p d0 f s s'"
      using joined [OF c'(2) _ frm] c'(3) pre by auto
    have "modify_region p f s = bind_res (l4rm_region_desc_free p s) (\<lambda>s1. join_next pre' q ?m post s1)"
      using fr 2 pre by (simp add: modify_region_def pre_def [symmetric] d_def [symmetric] Let_def) (simp add: d_def)
    then show ?thesis using c' s' by simp
  next
    case 3
    obtain s' where s': "join_next pre p d post (s\<lparr>rm_cache := rm_cache s\<rparr>) = Inr s'" "reflagged p d0 f s s'"
      using joined [OF okL same_view_refl 3(1)] by (auto simp: d_def)
    have "modify_region p f s = join_next pre p d post s"
      using fr 3 by (auto simp: modify_region_def pre_def [symmetric] d_def [symmetric] Let_def) (auto simp: d_def)
    then show ?thesis using s' by auto
  qed
qed

section \<open>Freeing regions and areas\<close>

lemma map_of_region: "rm_inv s \<Longrightarrow> (p, d) \<in> set (rm_head s) \<Longrightarrow> map_of (rm_head s) p = Some d"
  by (simp add: rm_inv_def)

lemma type_area_mask: "TYPE_MASK AND AREA_MASK = 0" "AREA_MASK AND TYPE_MASK = 0"
  by (simp_all add: l4_const)

lemma free_flags: "IS_FREE_REGION (d\<lparr>rd_flags := rd_flags d' AND AREA_MASK\<rparr>)"
  by (simp add: IS_FREE_REGION_def REGION_TYPE_def REGION_FREE_def and.assoc type_area_mask)

lemma free_region_ok:
  assumes inv: "rm_inv s" and p: "(p, d) \<in> set (rm_head s)" "\<not> IS_FREE_REGION d"
  shows "\<exists>s'. l4rm_free_region p s = Inr s' \<and> reflagged p d (rd_flags d AND AREA_MASK) s s'"
  using modify_region_ok [OF inv p(1), of "rd_flags d AND AREA_MASK"] map_of_region [OF inv p(1)] p(2)
  by (simp add: l4rm_free_region_def SET_REGION_TYPE_def REGION_FREE_def)

text \<open>The flags after an area was reset.\<close>

definition reset_flags :: "u32 \<Rightarrow> u32 \<Rightarrow> u32" where
  "reset_flags area f = (if f AND AREA_MASK = area then f AND NOT AREA_MASK else f)"

definition reset_desc :: "u32 \<Rightarrow> region_desc \<Rightarrow> region_desc" where
  "reset_desc area d = d\<lparr>rd_flags := reset_flags area (rd_flags d)\<rparr>"

definition reset_done :: "u32 \<Rightarrow> rm_state \<Rightarrow> rm_state \<Rightarrow> bool" where
  "reset_done area s s' \<longleftrightarrow> rm_inv s' \<and> rm_vm_start s' = rm_vm_start s \<and> rm_vm_end s' = rm_vm_end s \<and>
     (\<forall>x. flags_at (rm_head s') x = map_option (reset_flags area) (flags_at (rm_head s) x)) \<and>
     used_regions s' = apsnd (reset_desc area) ` used_regions s"

lemma reset_desc_free: "IS_FREE_REGION (reset_desc area d) = IS_FREE_REGION d"
proof -
  have "NOT AREA_MASK AND TYPE_MASK = TYPE_MASK" by (simp add: l4_const)
  then show ?thesis by (simp add: IS_FREE_REGION_def REGION_TYPE_def reset_desc_def reset_flags_def and.assoc)
qed

lemma flags_at_mem: "flags_at l x = Some f \<Longrightarrow> \<exists>y \<in> set l. in_region (snd y) x \<and> rd_flags (snd y) = f"
  by (induction l x rule: flags_at.induct) (auto split: if_splits)

lemma flags_at_region:
  assumes "rm_inv s" "(p, d) \<in> set (rm_head s)" "in_region d x"
  shows "flags_at (rm_head s) x = Some (rd_flags d)"
proof -
  define pre where "pre = before_region p (rm_head s)"
  define post where "post = tl (from_region p (rm_head s))"
  have "distinct (map fst (rm_head s))" using assms(1) by (simp add: rm_inv_def)
  then have l: "rm_head s = pre @ [(p, d)] @ post" using region_parts(1) [OF assms(2)] by (simp add: pre_def post_def)
  obtain a b where "tiles a b [(p, d)]" using tiles_mid [OF assms(1) l] by blast
  then have t: "tiles (rd_start d) (rd_end d) [(p, d)]" by simp
  have "tiles (rm_vm_start s) (rm_vm_end s) (pre @ [(p, d)] @ post)" using assms(1) l by (simp add: rm_inv_def)
  from tiles_replace(2) [OF this t t, of x] assms(3) l show ?thesis by (simp add: in_region_def)
qed

lemma area_region_iff:
  "area_region area l = None \<longleftrightarrow> (\<forall>y \<in> set l. REGION_AREA (snd y) \<noteq> area)"
  "area_region area l = Some y \<Longrightarrow> y \<in> set l \<and> REGION_AREA (snd y) = area"
  unfolding area_region_def find_None_iff find_Some_iff by (blast, metis nth_mem)

lemma default_area: "rd_flags (SET_AREA L4RM_DEFAULT_REGION_AREA d) = rd_flags d AND NOT AREA_MASK"
  by (simp add: SET_AREA_def L4RM_DEFAULT_REGION_AREA_def)

lemma reset_flags_idem: "area \<noteq> 0 \<Longrightarrow> reset_flags area (f AND NOT AREA_MASK) = f AND NOT AREA_MASK"
  by (simp add: reset_flags_def and.assoc)

lemma reset_area_ok:
  assumes "rm_inv s" "area \<noteq> 0"
  shows "\<exists>s'. reset_area_loop area s = Some (Inr s') \<and> reset_done area s s'"
  using assms(1)
proof (induction "cnt (\<lambda>f. f AND AREA_MASK = area) (rm_head s)" arbitrary: s rule: less_induct)
  case less
  show ?case
  proof (cases "area_region area (rm_head s)")
    case None
    then have "flags_at (rm_head s) x = map_option (reset_flags area) (flags_at (rm_head s) x)" for x
      using flags_at_mem [of "rm_head s" x] area_region_iff(1) [of area "rm_head s"]
      by (cases "flags_at (rm_head s) x") (auto simp: reset_flags_def REGION_AREA_def)
    moreover have "apsnd (reset_desc area) y = y" if "y \<in> used_regions s" for y
      using that None area_region_iff(1) [of area "rm_head s"] by (cases y) (auto simp: used_regions_def reset_desc_def reset_flags_def REGION_AREA_def)
    then have "used_regions s = apsnd (reset_desc area) ` used_regions s" by (simp cong: image_cong)
    ultimately show ?thesis using None less.prems by (subst reset_area_loop.simps) (simp add: reset_done_def)
  next
    case (Some y)
    obtain p d where y: "y = (p, d)" by force
    then have pd: "(p, d) \<in> set (rm_head s)" "rd_flags d AND AREA_MASK = area"
      using area_region_iff(2) [OF Some] by (auto simp: REGION_AREA_def)
    obtain s1 where s1: "modify_region p (rd_flags d AND NOT AREA_MASK) s = Inr s1" "reflagged p d (rd_flags d AND NOT AREA_MASK) s s1"
      using modify_region_ok [OF less.prems pd(1)] by blast
    have "(rd_flags d AND NOT AREA_MASK) AND AREA_MASK \<noteq> area" using assms(2) by (simp add: and.assoc)
    then have "cnt (\<lambda>f. f AND AREA_MASK = area) (rm_head s1) < cnt (\<lambda>f. f AND AREA_MASK = area) (rm_head s)"
      using s1(2) pd(2) unfolding reflagged_def by simp
    moreover have "rm_inv s1" using s1(2) by (simp add: reflagged_def)
    ultimately obtain s' where s': "reset_area_loop area s1 = Some (Inr s')" "reset_done area s1 s'" using less.hyps by blast
    have "reset_area_loop area s = Some (Inr s')"
      using Some y s1(1) s'(1) by (subst reset_area_loop.simps) (simp add: default_area)
    moreover have "map_option (reset_flags area) (flags_at (rm_head s1) x) = map_option (reset_flags area) (flags_at (rm_head s) x)" for x
      using s1(2) flags_at_region [OF less.prems pd(1), of x] pd(2) reset_flags_idem [OF assms(2)]
      unfolding reflagged_def by (auto simp: reset_flags_def)
    moreover have "apsnd (reset_desc area) ` used_regions s1 = apsnd (reset_desc area) ` used_regions s"
    proof -
      let ?d = "d\<lparr>rd_flags := rd_flags d AND NOT AREA_MASK\<rparr>" and ?f = "apsnd (reset_desc area) :: l4_addr_t \<times> region_desc \<Rightarrow> _"
      have d: "reset_desc area d = ?d" "reset_desc area ?d = ?d" using pd(2) reset_flags_idem [OF assms(2)] by (auto simp: reset_desc_def reset_flags_def)
      have f: "IS_FREE_REGION ?d = IS_FREE_REGION d" using reset_desc_free [of area d] d(1) by simp
      have m: "(p, d) \<in> used_regions s \<longleftrightarrow> \<not> IS_FREE_REGION d" using pd(1) by (simp add: used_regions_def)
      have u: "used_regions s1 = used_regions s - {(p, d)} \<union> (if IS_FREE_REGION ?d then {} else {(p, ?d)})" using s1(2) by (simp add: reflagged_def)
      show ?thesis
      proof (cases "IS_FREE_REGION d")
        case True
        then have "used_regions s1 = used_regions s" using u f m by auto
        then show ?thesis by simp
      next
        case False
        then have "used_regions s = insert (p, d) (used_regions s - {(p, d)})" using m by auto
        then have "?f ` used_regions s = insert (p, ?d) (?f ` (used_regions s - {(p, d)}))" using d(1) by (metis (no_types, lifting) apsnd_conv image_insert)
        moreover have "?f ` used_regions s1 = insert (p, ?d) (?f ` (used_regions s - {(p, d)}))" using u f False d(2) by simp
        ultimately show ?thesis by simp
      qed
    qed
    ultimately show ?thesis using s' s1(2) by (auto simp: reset_done_def reflagged_def)
  qed
qed

text \<open>The default area cannot be released: the loop finds the same region again and again.\<close>

lemma region_nonempty:
  assumes "rm_inv s" "(p, d) \<in> set (rm_head s)" shows "in_region d (rd_start d)"
proof -
  have "distinct (map fst (rm_head s))" using assms(1) by (simp add: rm_inv_def)
  from region_parts(1) [OF assms(2) this] have l: "rm_head s = before_region p (rm_head s) @ [(p, d)] @ tl (from_region p (rm_head s))" by simp
  obtain a b where "tiles a b [(p, d)]" using tiles_mid [OF assms(1) l] by blast
  then show ?thesis by (auto simp: in_region_def)
qed

lemma reset_loop_default:
  "reset_area_loop area t = Some r \<Longrightarrow> area = 0 \<and> rm_inv t \<and> (\<exists>y \<in> set (rm_head t). REGION_AREA (snd y) = 0) \<longrightarrow> False"
proof (erule reset_area_loop.raw_induct [where P = "\<lambda>area t r.
    area = 0 \<and> rm_inv t \<and> (\<exists>y \<in> set (rm_head t). REGION_AREA (snd y) = 0) \<longrightarrow> False", rotated], intro impI)
  fix f area t r
  assume IH: "\<And>area t r. f area t = Some r \<Longrightarrow> area = 0 \<and> rm_inv t \<and> (\<exists>y \<in> set (rm_head t). REGION_AREA (snd y) = 0) \<longrightarrow> False"
    and e: "(case area_region area (rm_head t) of None \<Rightarrow> Some (Inr t)
      | Some x \<Rightarrow> (case modify_region (fst x) (rd_flags (SET_AREA L4RM_DEFAULT_REGION_AREA (snd x))) t of
          Inl e \<Rightarrow> Some (Inl e) | Inr s1 \<Rightarrow> f area s1)) = Some r"
    and a: "area = 0 \<and> rm_inv t \<and> (\<exists>y \<in> set (rm_head t). REGION_AREA (snd y) = 0)"
  obtain y where y: "area_region area (rm_head t) = Some y"
    using a area_region_iff(1) [of 0 "rm_head t"] by (cases "area_region area (rm_head t)") auto
  obtain q e where qe: "y = (q, e)" by force
  then have m: "(q, e) \<in> set (rm_head t)" using area_region_iff(2) [OF y] by simp
  obtain t1 where t1: "modify_region q (rd_flags e AND NOT AREA_MASK) t = Inr t1" "reflagged q e (rd_flags e AND NOT AREA_MASK) t t1"
    using modify_region_ok [of t q e] a m by blast
  have "flags_at (rm_head t1) (rd_start e) = Some (rd_flags e AND NOT AREA_MASK)"
    using t1(2) region_nonempty [OF _ m] a by (simp add: reflagged_def)
  then obtain y' where y': "y' \<in> set (rm_head t1)" "rd_flags (snd y') = rd_flags e AND NOT AREA_MASK" using flags_at_mem by blast
  then have "REGION_AREA (snd y') = 0" by (simp add: REGION_AREA_def and.assoc)
  then have "\<exists>y \<in> set (rm_head t1). REGION_AREA (snd y) = 0" using y'(1) by blast
  moreover have "f area t1 = Some r" using e y qe t1(1) by (simp add: default_area)
  moreover have "rm_inv t1" using t1(2) by (simp add: reflagged_def)
  ultimately show False using IH [of area t1 r] a by blast
qed

lemma reset_default_diverges:
  assumes "rm_inv s" "(p, d) \<in> set (rm_head s)" "REGION_AREA d = 0"
  shows "l4rm_reset_area 0 s = None"
proof -
  have "\<exists>y \<in> set (rm_head s). REGION_AREA (snd y) = 0" using assms(2,3) by force
  then show ?thesis using reset_loop_default [of 0 s] assms(1) by (cases "reset_area_loop 0 s") (auto simp: l4rm_reset_area_def)
qed

section \<open>Searching\<close>

text \<open>The region an address belongs to.\<close>

lemma region_from_spec:
  "tiles lo hi l \<Longrightarrow> lo \<le> a \<Longrightarrow> a \<le> hi \<Longrightarrow> \<exists>p d. region_from a l = Some (p, d) \<and> (p, d) \<in> set l \<and> in_region d a"
proof (induction lo hi l rule: tiles.induct)
  case (3 lo hi p d x l)
  then have t: "rd_start d = lo" "rd_end d < hi" "tiles (rd_end d + 1) hi (x # l)" by simp_all
  show ?case
  proof (cases "rd_end d < a")
    case True
    then have "rd_end d + 1 \<le> a" using succ_le_iff [OF t(2)] by blast
    then obtain p' d' where "region_from a (x # l) = Some (p', d') \<and> (p', d') \<in> set (x # l) \<and> in_region d' a"
      using 3(1) [OF t(3)] 3(4) by blast
    then show ?thesis using True by auto
  next
    case False
    then show ?thesis using t(1) 3(3) by (auto simp: in_region_def)
  qed
qed (auto simp: in_region_def)

text \<open>A free region: the chunk found is aligned, lies in a free region of the area and does not leave it, unless the
  request is so large that the sums wrap around.\<close>

lemma free_region_from_mem:
  "free_region_from sz area a_size l = Some (p, a) \<Longrightarrow>
   \<exists>d. (p, d) \<in> set l \<and> IS_FREE_REGION d \<and> REGION_AREA d = area \<and> a = (rd_start d + a_size - 1) AND NOT (a_size - 1) \<and>
     sz + (a - rd_start d) \<le> rd_end d - rd_start d + 1"
  by (induction sz area a_size l rule: free_region_from.induct) (auto simp: Let_def split: if_splits)

lemma align_up:
  assumes "k < 32" "unat x + 2 ^ k \<le> 2 ^ 32"
  shows "unat ((x + push_bit k 1 - 1) AND NOT (push_bit k 1 - 1) :: u32) = (unat x + 2 ^ k - 1) div 2 ^ k * 2 ^ k"
proof -
  have m: "push_bit k 1 - 1 = (mask k :: u32)" by (simp add: mask_eq_exp_minus_1)
  have pos: "(1 :: nat) \<le> 2 ^ k" by simp
  have "(2 :: u32) ^ k \<noteq> 0" using assms(1) by simp
  then have "unat (mask k :: u32) = 2 ^ k - 1" using unat_exp32 [OF assms(1)] by (simp add: mask_eq_exp_minus_1)
  then have u: "unat (x + mask k) = unat x + 2 ^ k - 1" using assms(2) pos by (subst unat_add_lt) simp_all
  have e: "x + push_bit k 1 - 1 = x + mask k" unfolding m [symmetric] by (simp add: algebra_simps)
  show ?thesis unfolding e m and_not_mask_unat u ..
qed

lemma find_free_region_sound:
  assumes inv: "rm_inv s" and k: "k < 32" "unat (rm_vm_end s) + 2 ^ k < 2 ^ 32" and sz: "unat sz + 2 ^ k \<le> 2 ^ 32" "0 < unat (rm_vm_start s)"
    and f: "find_free_region sz area k s = Inr (Some (p, a))" "sz \<noteq> 0"
  shows "\<exists>d. (p, d) \<in> set (rm_head s) \<and> IS_FREE_REGION d \<and> REGION_AREA d = area \<and> 2 ^ k dvd unat a \<and>
    rd_start d \<le> a \<and> unat a + unat sz \<le> unat (rd_end d) + 1"
proof -
  have "free_region_from sz area (push_bit k 1) (rm_head s) = Some (p, a)" using f k(1) by (simp add: find_free_region_def)
  then obtain d where d: "(p, d) \<in> set (rm_head s)" "IS_FREE_REGION d" "REGION_AREA d = area"
    "a = (rd_start d + push_bit k 1 - 1) AND NOT (push_bit k 1 - 1)" "sz + (a - rd_start d) \<le> rd_end d - rd_start d + 1"
    using free_region_from_mem by blast
  have ti: "tiles (rm_vm_start s) (rm_vm_end s) (rm_head s)" using inv by (simp add: rm_inv_def)
  have "flags_at (rm_head s) (rd_start d) \<noteq> None" using flags_at_region [OF inv d(1) region_nonempty [OF inv d(1)]] by simp
  then have lo: "rm_vm_start s \<le> rd_start d" using flags_at_range [OF ti] by blast
  have se: "rd_start d \<le> rd_end d" using region_nonempty [OF inv d(1)] by (simp add: in_region_def)
  then have "in_region d (rd_end d)" by (simp add: in_region_def)
  then have "flags_at (rm_head s) (rd_end d) \<noteq> None" using flags_at_region [OF inv d(1)] by simp
  then have hi: "rd_end d \<le> rm_vm_end s" using flags_at_range [OF ti] by blast
  let ?st = "unat (rd_start d)" and ?en = "unat (rd_end d)"
  have n: "?st \<le> ?en" "?en \<le> unat (rm_vm_end s)" "0 < ?st" using se hi lo sz(2) by (auto simp: word_le_unat)
  have ua: "unat a = (?st + 2 ^ k - 1) div 2 ^ k * 2 ^ k" unfolding d(4) using n k by (intro align_up) linarith+
  have q: "?st \<le> unat a" "unat a < ?st + 2 ^ k"
  proof -
    have p: "(0 :: nat) < 2 ^ k" by simp
    show "unat a < ?st + 2 ^ k" unfolding ua using div_times_less_eq_dividend [of "?st + 2 ^ k - 1" "2 ^ k"] p by linarith
    have "(?st + 2 ^ k - 1) div 2 ^ k * 2 ^ k + (?st + 2 ^ k - 1) mod 2 ^ k = ?st + 2 ^ k - 1" by (rule div_mult_mod_eq)
    moreover have "(?st + 2 ^ k - 1) mod 2 ^ k < 2 ^ k" using p by simp
    ultimately show "?st \<le> unat a" unfolding ua using p by linarith
  qed
  have "unat (a - rd_start d) = unat a - ?st" using q by (intro unat_sub_le) (simp add: word_le_unat)
  then have u1: "unat (sz + (a - rd_start d)) = unat sz + (unat a - ?st)" using sz(1) q by (subst unat_add_lt) simp_all
  have "unat (rd_end d - rd_start d) = ?en - ?st" using se by (rule unat_sub_le)
  then have u2: "unat (rd_end d - rd_start d + 1) = ?en - ?st + 1" using n k(2) by (subst unat_add_lt) simp_all
  have "unat sz + (unat a - ?st) \<le> ?en - ?st + 1" using d(5) unfolding word_le_unat u1 u2 .
  then have "unat a + unat sz \<le> ?en + 1" using q n by linarith
  moreover have "2 ^ k dvd unat a" unfolding ua by simp
  ultimately show ?thesis using d q by (auto simp: word_le_unat)
qed

section \<open>Unmapping\<close>

lemma unmap_region_ok:
  assumes "rd_start r \<le> rd_end r" "0 < rd_start r"
  shows "\<exists>l. l4rm_unmap_region r = Some l \<and>
    (\<Union>(b, k) \<in> set l. {unat b ..< unat b + 2 ^ k}) = {unat (rd_start r) .. unat (rd_end r)} \<and>
    (\<forall>(b, k) \<in> set l. 2 ^ k dvd unat b \<and>
       (2 ^ 12 dvd unat (rd_start r) \<longrightarrow> 2 ^ 12 dvd Suc (unat (rd_end r)) \<longrightarrow> 12 \<le> k))"
proof -
  let ?sz = "rd_end r - rd_start r + 1"
  have p: "0 < unat (rd_start r)" using assms(2) by (simp add: word_less_unat)
  have d: "unat (rd_end r - rd_start r) = unat (rd_end r) - unat (rd_start r)" by (rule unat_sub_le [OF assms(1)])
  have n: "unat (rd_start r) \<le> unat (rd_end r)" "unat (rd_end r) < 2 ^ 32" using assms(1) unat_lt32 [of "rd_end r"] by (simp_all add: word_le_unat)
  have sz: "unat ?sz = unat (rd_end r) - unat (rd_start r) + 1" 
  proof -
    have "unat (1 :: u32) = 1" by simp
    then have "unat (rd_end r - rd_start r) + unat (1 :: u32) < 2 ^ 32" unfolding d using n p by linarith
    then show ?thesis using d by (subst unat_add_lt) simp_all
  qed
  have "unat (rd_start r) + unat ?sz \<le> 2 ^ 32" using sz n by linarith
  from unmap_loop_ok [OF this] obtain l where l: "unmap_loop (rd_start r) ?sz = Some l"
    "(\<Union>(b, k) \<in> set l. {unat b ..< unat b + 2 ^ k}) = {unat (rd_start r) ..< unat (rd_start r) + unat ?sz}"
    "\<forall>(b, k) \<in> set l. 2 ^ k dvd unat b \<and> (2 ^ 12 dvd unat (rd_start r) \<longrightarrow> 2 ^ 12 dvd unat ?sz \<longrightarrow> 12 \<le> k)" by blast
  have e: "unat (rd_start r) + unat ?sz = Suc (unat (rd_end r))" using sz n by simp
  then have "2 ^ 12 dvd unat (rd_start r) \<Longrightarrow> 2 ^ 12 dvd Suc (unat (rd_end r)) \<Longrightarrow> 2 ^ 12 dvd unat ?sz"
    by (metis dvd_add_right_iff)
  moreover have "{unat (rd_start r) ..< Suc (unat (rd_end r))} = {unat (rd_start r) .. unat (rd_end r)}" by (rule atLeastLessThanSuc_atLeastAtMost)
  ultimately show ?thesis using l e by (auto simp: l4rm_unmap_region_def)
qed

section \<open>Properties\<close>

text \<open>A region list with one region, for the witnesses.\<close>

definition demo_region :: "u32 \<Rightarrow> region_desc" where
  "demo_region f = \<lparr>rd_start = 0x1000, rd_end = 0xBFFFEFFF, rd_flags = f, rd_data = Data_none, rd_userptr = 0\<rparr>"

definition demo_rm :: "u32 \<Rightarrow> rm_state" where
  "demo_rm f = \<lparr>rm_vm_start = 0x1000, rm_vm_end = 0xBFFFEFFF, rm_head = [(0x10000, demo_region f)], rm_cache = demo_used\<rparr>"

lemma demo_in_use: "in_use demo_used p \<longleftrightarrow> p = 0x10000"
  by (auto simp: in_use_def slots_demo used_fields)

lemma demo_rm_inv [simp]: "rm_inv (demo_rm f)"
  by (simp add: rm_inv_def demo_rm_def demo_region_def slab_inv_used demo_in_use)

lemma demo_rm_mem [simp]: "(0x10000, demo_region f) \<in> set (rm_head (demo_rm f))"
  by (simp add: demo_rm_def)

text \<open>
  Freeing a region: \<open>l4rm_free_region\<close> returns with a well-formed region list that still covers the address space,
  in which the addresses of the region are free in the area the region had, all other addresses keep their flags, and
  the other regions in use stay.
\<close>

theorem l4rm_free_region_spec:
  assumes "rm_inv s" "(p, d) \<in> set (rm_head s)" "\<not> IS_FREE_REGION d"
  shows "\<exists>s'. l4rm_free_region p s = Inr s' \<and> rm_inv s' \<and> rm_vm_start s' = rm_vm_start s \<and> rm_vm_end s' = rm_vm_end s \<and>
    (\<forall>x. flags_at (rm_head s') x = (if in_region d x then Some (rd_flags d AND AREA_MASK) else flags_at (rm_head s) x)) \<and>
    used_regions s' = used_regions s - {(p, d)}"
  using free_region_ok [OF assms] free_flags [of d d] unfolding reflagged_def by auto

theorem l4rm_free_region_spec_witness:
  "\<exists>s'. l4rm_free_region 0x10000 (demo_rm 0x10000007) = Inr s' \<and> rm_inv s' \<and> flags_at (rm_head s') 0x2000 = Some 7"
proof -
  have "\<not> IS_FREE_REGION (demo_region 0x10000007)" by (simp add: demo_region_def IS_FREE_REGION_def REGION_TYPE_def l4_const)
  from l4rm_free_region_spec [OF demo_rm_inv demo_rm_mem this]
  obtain s' where s': "l4rm_free_region 0x10000 (demo_rm 0x10000007) = Inr s'" "rm_inv s'"
    "\<forall>x. flags_at (rm_head s') x = (if in_region (demo_region 0x10000007) x then Some (rd_flags (demo_region 0x10000007) AND AREA_MASK)
       else flags_at (rm_head (demo_rm 0x10000007)) x)" by blast
  then have "flags_at (rm_head s') 0x2000 = Some 7" by (simp add: in_region_def demo_region_def l4_const)
  then show ?thesis using s' by blast
qed

text \<open>
  Releasing an area: for every area but the default one the loop of \<open>l4rm_reset_area\<close> ends, with a well-formed list
  in which exactly the addresses of the area lost their area id and no other flag changed.
\<close>

theorem l4rm_reset_area_spec:
  assumes "rm_inv s" "area \<noteq> L4RM_DEFAULT_REGION_AREA"
  shows "\<exists>s'. l4rm_reset_area area s = Some (Inr s') \<and> rm_inv s' \<and> rm_vm_start s' = rm_vm_start s \<and> rm_vm_end s' = rm_vm_end s \<and>
    (\<forall>x. flags_at (rm_head s') x =
       map_option (\<lambda>f. if f AND AREA_MASK = area then f AND NOT AREA_MASK else f) (flags_at (rm_head s) x))"
  using reset_area_ok [of s area] assms
  unfolding l4rm_reset_area_def reset_done_def L4RM_DEFAULT_REGION_AREA_def reset_flags_def by blast

theorem l4rm_reset_area_spec_witness:
  "\<exists>s'. l4rm_reset_area 7 (demo_rm 7) = Some (Inr s') \<and> flags_at (rm_head s') 0x2000 = Some 0"
proof -
  have "(7 :: u32) \<noteq> L4RM_DEFAULT_REGION_AREA" by (simp add: l4_const)
  from l4rm_reset_area_spec [OF demo_rm_inv this, of 7]
  obtain s' where s': "l4rm_reset_area 7 (demo_rm 7) = Some (Inr s')" "\<forall>x. flags_at (rm_head s') x =
       map_option (\<lambda>f. if f AND AREA_MASK = 7 then f AND NOT AREA_MASK else f) (flags_at (rm_head (demo_rm 7)) x)" by blast
  then have "flags_at (rm_head s') 0x2000 = Some 0"
    by (simp add: demo_rm_def in_region_def demo_region_def l4_const)
  then show ?thesis using s'(1) by blast
qed

text \<open>
  Unmapping a region: the loop of \<open>l4rm_unmap_region\<close> ends; the flexpages it unmaps cover the addresses of the
  region and nothing else, each is aligned to its size, and none is smaller than a page if the region starts and ends
  at page boundaries.
\<close>

theorem l4rm_unmap_region_spec:
  assumes "rd_start r \<le> rd_end r" "0 < rd_start r"
  shows "\<exists>l. l4rm_unmap_region r = Some l \<and>
    (\<Union>(b, k) \<in> set l. {unat b ..< unat b + 2 ^ k}) = {unat (rd_start r) .. unat (rd_end r)} \<and>
    (\<forall>(b, k) \<in> set l. 2 ^ k dvd unat b \<and>
       (2 ^ 12 dvd unat (rd_start r) \<longrightarrow> 2 ^ 12 dvd Suc (unat (rd_end r)) \<longrightarrow> 12 \<le> k))"
  by (rule unmap_region_ok [OF assms])

theorem l4rm_unmap_region_spec_witness:
  "\<exists>l. l4rm_unmap_region (demo_region 0) = Some l \<and> (\<forall>(b, k) \<in> set l. 12 \<le> k)"
proof -
  have "rd_start (demo_region 0) \<le> rd_end (demo_region 0)" "0 < rd_start (demo_region 0)" by (simp_all add: demo_region_def)
  from l4rm_unmap_region_spec [OF this] obtain l where "l4rm_unmap_region (demo_region 0) = Some l"
    "\<forall>(b, k) \<in> set l. 2 ^ k dvd unat b \<and> (2 ^ 12 dvd unat (rd_start (demo_region 0)) \<longrightarrow>
       2 ^ 12 dvd Suc (unat (rd_end (demo_region 0))) \<longrightarrow> 12 \<le> k)" by blast
  then show ?thesis by (auto simp: demo_region_def)
qed

end
