(* ===== verification/RmAvl.thy ===== *)
theory RmAvl
  imports L4Sys "HOL-Library.Sublist"
begin

text \<open>
  The AVL tree of the region mapper (\<open>l4rm/lib/src/avl_tree.c\<close>, \<open>l4rm/lib/include/__avl_tree.h\<close>), which finds the region
  of an address. A node is a value that contains its subtrees, the null pointer is \<open>Tip\<close>. The pointers the algorithms
  keep into the tree are positions: the list of directions from the root; the pointer to \<open>tree_head\<close>, whose right
  successor is the root, is \<open>None\<close>. Writing to a node is replacing the subtree at its position. Whether a node can be
  allocated is an argument of the insertion.
\<close>

section \<open>Data\<close>

record avlt_key =
  k_start :: l4_addr_t
  k_end :: l4_addr_t

definition AVLT_IS_LOWER :: "avlt_key \<Rightarrow> avlt_key \<Rightarrow> bool" where "AVLT_IS_LOWER a b \<longleftrightarrow> k_end a < k_start b"
definition AVLT_IS_GREATER :: "avlt_key \<Rightarrow> avlt_key \<Rightarrow> bool" where "AVLT_IS_GREATER a b \<longleftrightarrow> k_start a > k_end b"
definition AVLT_IS_EQUAL :: "avlt_key \<Rightarrow> avlt_key \<Rightarrow> bool" where
  "AVLT_IS_EQUAL a b \<longleftrightarrow> k_start a = k_start b \<and> k_end a = k_end b"
definition AVLT_IS_IN :: "avlt_key \<Rightarrow> avlt_key \<Rightarrow> bool" where
  "AVLT_IS_IN a b \<longleftrightarrow> k_start a \<ge> k_start b \<and> k_end a \<le> k_end b"

definition AVLT_NOT_FOUND :: int where [l4_const]: "AVLT_NOT_FOUND = 2"
definition AVLT_NO_MEM :: int where [l4_const]: "AVLT_NO_MEM = 3"
definition AVLT_EXISTS :: int where [l4_const]: "AVLT_EXISTS = 4"
definition AVLT_INVAL :: int where [l4_const]: "AVLT_INVAL = 5"

datatype avlt = Tip | Nd avlt avlt_key u32 int avlt

datatype dir = L | R

record avlt_tree =
  at_root :: avlt
  at_height :: u32

fun subtree :: "dir list \<Rightarrow> avlt \<Rightarrow> avlt" where
  "subtree [] t = t"
| "subtree (L # p) (Nd l k d b r) = subtree p l"
| "subtree (R # p) (Nd l k d b r) = subtree p r"
| "subtree (_ # p) Tip = Tip"

fun put_at :: "dir list \<Rightarrow> avlt \<Rightarrow> avlt \<Rightarrow> avlt" where
  "put_at [] x t = x"
| "put_at (L # p) x (Nd l k d b r) = Nd (put_at p x l) k d b r"
| "put_at (R # p) x (Nd l k d b r) = Nd l k d b (put_at p x r)"
| "put_at (_ # p) x Tip = Tip"

fun bal_of :: "avlt \<Rightarrow> int" where
  "bal_of Tip = 0"
| "bal_of (Nd l k d b r) = b"

definition avlt_init :: "avlt_tree \<Rightarrow> avlt_tree" where
  "avlt_init t = t\<lparr>at_root := Tip, at_height := 0\<rparr>"

section \<open>Insertion\<close>

text \<open>The search for the place: \<open>p\<close> and \<open>s\<close> are the positions of the current node and of the last one that was not in
  balance. The answer is the position of the new node and \<open>s\<close>; \<open>None\<close> if the key exists.\<close>

fun insert_search :: "avlt_key \<Rightarrow> avlt \<Rightarrow> dir list \<Rightarrow> dir list \<Rightarrow> (dir list \<times> dir list) option" where
  "insert_search key Tip p s = Some (p, s)"
| "insert_search key (Nd l k d b r) p s =
     (if AVLT_IS_LOWER key k
      then (case l of Tip \<Rightarrow> Some (p @ [L], s)
            | Nd _ _ _ bq _ \<Rightarrow> insert_search key l (p @ [L]) (if bq \<noteq> 0 then p @ [L] else s))
      else if AVLT_IS_GREATER key k
      then (case r of Tip \<Rightarrow> Some (p @ [R], s)
            | Nd _ _ _ bq _ \<Rightarrow> insert_search key r (p @ [R]) (if bq \<noteq> 0 then p @ [R] else s))
      else None)"

text \<open>The balance factors on the way down to the new node; the list has one entry for every step that is left.\<close>

fun adjust_down :: "avlt_key \<Rightarrow> dir list \<Rightarrow> avlt \<Rightarrow> avlt" where
  "adjust_down key (_ # ds) (Nd l k d b r) =
     (if AVLT_IS_LOWER key k then Nd (adjust_down key ds l) k d (-1) r else Nd l k d 1 (adjust_down key ds r))"
| "adjust_down key _ t = t"

text \<open>The rotations for the side \<open>a\<close> that has grown.\<close>

fun rotate_ins :: "int \<Rightarrow> avlt \<Rightarrow> avlt res" where
  "rotate_ins a (Nd sl sk sd sb sr) =
     (if a = -1
      then (case sl of
              Tip \<Rightarrow> Inl Undefined
            | Nd rl rk rd rb rr \<Rightarrow>
                if rb = a then Inr (Nd rl rk rd 0 (Nd rr sk sd 0 sr))
                else (case rr of
                        Tip \<Rightarrow> Inl Undefined
                      | Nd pl pk pd pb pr \<Rightarrow>
                          let (sb', rb') = (if pb = a then (-a, 0) else if pb = 0 then (0, 0) else (0, a))
                          in Inr (Nd (Nd rl rk rd rb' pl) pk pd 0 (Nd pr sk sd sb' sr))))
      else (case sr of
              Tip \<Rightarrow> Inl Undefined
            | Nd rl rk rd rb rr \<Rightarrow>
                if rb = a then Inr (Nd (Nd sl sk sd 0 rl) rk rd 0 rr)
                else (case rl of
                        Tip \<Rightarrow> Inl Undefined
                      | Nd pl pk pd pb pr \<Rightarrow>
                          let (sb', rb') = (if pb = a then (-a, 0) else if pb = 0 then (0, 0) else (0, a))
                          in Inr (Nd (Nd sl sk sd sb' pl) pk pd 0 (Nd pr rk rd rb' rr)))))"
| "rotate_ins a Tip = Inl Undefined"

text \<open>The balancing at \<open>s\<close>, after its side \<open>a\<close> has grown: the new subtree, and whether it is higher.\<close>

fun balance_ins :: "int \<Rightarrow> avlt \<Rightarrow> (avlt \<times> bool) res" where
  "balance_ins a (Nd l k d b r) =
     (if b = 0 then Inr (Nd l k d a r, True)
      else if b = -a then Inr (Nd l k d 0 r, False)
      else bind_res (rotate_ins a (Nd l k d b r)) (\<lambda>x. Inr (x, False)))"
| "balance_ins a Tip = Inl Undefined"

text \<open>What follows the insertion of the node at \<open>q\<close>, in a tree that has it already.\<close>

definition insert_fixup :: "avlt_key \<Rightarrow> dir list \<Rightarrow> dir list \<Rightarrow> avlt \<Rightarrow> (avlt \<times> bool) res" where
  "insert_fixup key q s t =
     (case subtree s t of
        Tip \<Rightarrow> Inl Undefined
      | Nd l k d b r \<Rightarrow>
          (let a = (if AVLT_IS_LOWER key k then -1 else 1); ds = drop (length s + 1) q;
               s1 = (if a = -1 then Nd (adjust_down key ds l) k d b r else Nd l k d b (adjust_down key ds r))
           in bind_res (balance_ins a s1) (\<lambda>(x, grown). Inr (put_at s x t, grown))))"

definition avlt_insert :: "bool \<Rightarrow> avlt_key \<Rightarrow> u32 \<Rightarrow> avlt_tree \<Rightarrow> (avlt_tree \<times> int) res" where
  "avlt_insert mem key data t =
     (case at_root t of
        Tip \<Rightarrow>
          if \<not> mem then Inr (t, - AVLT_NO_MEM)
          else Inr (t\<lparr>at_root := Nd Tip key data 0 Tip, at_height := 1\<rparr>, 0)
      | root \<Rightarrow>
          (case insert_search key root [] [] of
             None \<Rightarrow> Inr (t, - AVLT_EXISTS)
           | Some (q, s) \<Rightarrow>
               if \<not> mem then Inr (t, - AVLT_NO_MEM)
               else bind_res (insert_fixup key q s (put_at q (Nd Tip key data 0 Tip) root)) (\<lambda>(x, grown).
                      Inr (t\<lparr>at_root := x, at_height := (if grown then at_height t + 1 else at_height t)\<rparr>, 0))))"

section \<open>Removal\<close>

type_synonym pos = "dir list option"

definition parent :: "dir list \<Rightarrow> pos" where
  "parent q = (if q = [] then None else Some (butlast q))"

text \<open>The search for the node: its position and the position \<open>s\<close> of the last node in balance above it.\<close>

fun remove_search :: "avlt_key \<Rightarrow> avlt \<Rightarrow> dir list \<Rightarrow> pos \<Rightarrow> (dir list \<times> pos) option" where
  "remove_search key Tip q s = None"
| "remove_search key (Nd l k d b r) q s =
     (if AVLT_IS_EQUAL key k then Some (q, s)
      else (let s' = (if b = 0 then Some q else s)
            in if AVLT_IS_LOWER key k then remove_search key l (q @ [L]) s'
               else if AVLT_IS_GREATER key k then remove_search key r (q @ [R]) s'
               else None))"

text \<open>The symmetric predecessor, from the left successor on.\<close>

fun max_search :: "avlt \<Rightarrow> dir list \<Rightarrow> pos \<Rightarrow> dir list \<times> pos" where
  "max_search (Nd l k d b r) q s = (if r = Tip then (q, s) else max_search r (q @ [R]) (if b = 0 then Some q else s))"
| "max_search Tip q s = (q, s)"

fun take_key :: "avlt \<Rightarrow> avlt \<Rightarrow> avlt" where
  "take_key (Nd l k d b r) (Nd l' k' d' b' r') = Nd l k' d' b r"
| "take_key t _ = t"

text \<open>The node to take out, after a node with two successors took over key and data of its predecessor.\<close>

definition replace_inner :: "dir list \<Rightarrow> pos \<Rightarrow> avlt \<Rightarrow> dir list \<times> pos \<times> avlt" where
  "replace_inner q s t =
     (case subtree q t of
        Nd l k d b r \<Rightarrow>
          if l \<noteq> Tip \<and> r \<noteq> Tip
          then (let (q', s') = max_search l (q @ [L]) (if b = 0 then Some q else s)
                in (q', s', put_at q (take_key (subtree q t) (subtree q' t)) t))
          else (q, s, t)
      | Tip \<Rightarrow> (q, s, t))"

fun splice :: "avlt \<Rightarrow> avlt" where
  "splice (Nd l k d b r) = (if l \<noteq> Tip then l else r)"
| "splice Tip = Tip"

text \<open>One round of the rebalancing of a node whose left (\<open>a = 1\<close>) or right (\<open>a = -1\<close>) subtree got shorter: the new
  subtree, whether the rebalancing is done, and whether a rotation linked a new node to the parent.\<close>

fun rebalance :: "int \<Rightarrow> avlt \<Rightarrow> (avlt \<times> bool \<times> bool) res" where
  "rebalance a Tip = Inl Undefined"
| "rebalance a (Nd l k d b r) =
     (if a = 1
      then (if b = -1 then Inr (Nd l k d 0 r, False, False)
            else if b = 0 then Inr (Nd l k d 1 r, True, False)
            else (case r of
                    Tip \<Rightarrow> Inl Undefined
                  | Nd rl rk rd rb rr \<Rightarrow>
                      if rb = 0 then Inr (Nd (Nd l k d 1 rl) rk rd (-1) rr, True, True)
                      else if rb = 1 then Inr (Nd (Nd l k d 0 rl) rk rd 0 rr, False, True)
                      else (case rl of
                              Tip \<Rightarrow> Inl Undefined
                            | Nd ol ok od ob or' \<Rightarrow>
                                let (pb', rb') = (if ob = 0 then (0, 0) else if ob = -1 then (0, 1) else (-1, 0))
                                in Inr (Nd (Nd l k d pb' ol) ok od 0 (Nd or' rk rd rb' rr), False, True))))
      else (if b = 1 then Inr (Nd l k d 0 r, False, False)
            else if b = 0 then Inr (Nd l k d (-1) r, True, False)
            else (case l of
                    Tip \<Rightarrow> Inl Undefined
                  | Nd rl rk rd rb rr \<Rightarrow>
                      if rb = 0 then Inr (Nd rl rk rd 1 (Nd rr k d (-1) r), True, True)
                      else if rb = -1 then Inr (Nd rl rk rd 0 (Nd rr k d 0 r), False, True)
                      else (case rr of
                              Tip \<Rightarrow> Inl Undefined
                            | Nd ol ok od ob or' \<Rightarrow>
                                let (rb', pb') = (if ob = 0 then (0, 0) else if ob = -1 then (0, 1) else (-1, 0))
                                in Inr (Nd (Nd rl rk rd rb' ol) ok od 0 (Nd or' k d pb' r), False, True)))))"

text \<open>The way down from \<open>s\<close> to the parent \<open>r\<close> of the subtree with the key \<open>qk\<close>, and the parent of \<open>r\<close>.\<close>

fun find_down :: "avlt_key \<Rightarrow> pos \<Rightarrow> avlt \<Rightarrow> dir list \<Rightarrow> pos \<Rightarrow> (dir list \<times> pos) option" where
  "find_down qk r Tip p t = None"
| "find_down qk r (Nd l k d b rr) p t =
     (if Some p = r then Some (p, t)
      else if AVLT_IS_LOWER qk k then find_down qk r l (p @ [L]) (Some p)
      else find_down qk r rr (p @ [R]) (Some p))"

definition shorter_side :: "dir list \<Rightarrow> dir list \<Rightarrow> int option" where
  "shorter_side p q = (if p @ [L] = q then Some 1 else if p @ [R] = q then Some (-1) else None)"

fun key_of :: "avlt \<Rightarrow> avlt_key" where
  "key_of (Nd l k d b r) = k"
| "key_of Tip = \<lparr>k_start = 0, k_end = 0\<rparr>"

text \<open>The node to rebalance next, one level up: position, side, its parent. The assertions and the panic for a
  corrupted tree are failures.\<close>

definition next_up :: "dir list \<Rightarrow> pos \<Rightarrow> pos \<Rightarrow> avlt \<Rightarrow> (dir list \<times> int \<times> pos) res" where
  "next_up p s t x =
     (if t = s
      then (case s of
              None \<Rightarrow> Inl Undefined
            | Some p' \<Rightarrow>
                (case shorter_side p' p of
                   None \<Rightarrow> Inl Panic
                 | Some a \<Rightarrow> if bal_of (subtree p' x) = 0 then Inr (p', a, t) else Inl Panic))
      else (case (case s of None \<Rightarrow> find_down (key_of (subtree p x)) t x [] None
                  | Some ps \<Rightarrow> find_down (key_of (subtree p x)) t (subtree ps x) ps s) of
              None \<Rightarrow> Inl Panic
            | Some (p', t') \<Rightarrow>
                (case shorter_side p' p of
                   None \<Rightarrow> Inl Panic
                 | Some a \<Rightarrow> if t' = Some p' then Inl Panic else Inr (p', a, t'))))"

text \<open>The rebalancing loop; the flag of the answer tells that the whole tree got shorter.\<close>

partial_function (option) rebalance_loop :: "dir list \<Rightarrow> int \<Rightarrow> pos \<Rightarrow> pos \<Rightarrow> avlt \<Rightarrow> (avlt \<times> bool) res option" where
  "rebalance_loop p a s t x =
     (case rebalance a (subtree p x) of
        Inl e \<Rightarrow> Some (Inl e)
      | Inr (n, dn, rot) \<Rightarrow>
          if rot \<and> t \<noteq> parent p then Some (Inl Undefined)
          else if dn then Some (Inr (put_at p n x, False))
          else if t = s \<and> s = None then Some (Inr (put_at p n x, True))
          else (case next_up p s t (put_at p n x) of
                  Inl e \<Rightarrow> Some (Inl e)
                | Inr (p', a', t') \<Rightarrow> rebalance_loop p' a' s t' (put_at p n x)))"

definition avlt_remove :: "avlt_key \<Rightarrow> avlt_tree \<Rightarrow> (avlt_tree \<times> int) res option" where
  "avlt_remove key t =
     (case remove_search key (at_root t) [] None of
        None \<Rightarrow> Some (Inr (t, - AVLT_NOT_FOUND))
      | Some (q0, s0) \<Rightarrow>
          (case replace_inner q0 s0 (at_root t) of
             (q, s, x) \<Rightarrow>
               if q = []
               then (let y = splice x
                     in Some (Inr (t\<lparr>at_root := y, at_height := (if y = Tip then 0 else at_height t - 1)\<rparr>, 0)))
               else (let p = butlast q; a = (if last q = R then -1 else 1)
                     in map_option (\<lambda>m. bind_res m (\<lambda>(y, sh).
                          Inr (t\<lparr>at_root := y, at_height := (if sh then at_height t - 1 else at_height t)\<rparr>, 0)))
                          (rebalance_loop p a s (parent p) (put_at q (splice (subtree q x)) x)))))"

section \<open>Search\<close>

fun find_node :: "avlt_key \<Rightarrow> avlt \<Rightarrow> u32 option" where
  "find_node key Tip = None"
| "find_node key (Nd l k d b r) =
     (if AVLT_IS_IN key k then Some d
      else if AVLT_IS_LOWER key k then find_node key l
      else if AVLT_IS_GREATER key k then find_node key r
      else None)"

definition avlt_find :: "avlt_key \<Rightarrow> avlt_tree \<Rightarrow> int \<times> u32 option" where
  "avlt_find key t = (case find_node key (at_root t) of None \<Rightarrow> (- AVLT_NOT_FOUND, None) | Some d \<Rightarrow> (0, Some d))"

section \<open>Order and balance\<close>

fun nodes :: "avlt \<Rightarrow> (avlt_key \<times> u32) list" where
  "nodes Tip = []"
| "nodes (Nd l k d b r) = nodes l @ (k, d) # nodes r"

fun ht :: "avlt \<Rightarrow> nat" where
  "ht Tip = 0"
| "ht (Nd l k d b r) = Suc (max (ht l) (ht r))"

fun avl :: "avlt \<Rightarrow> bool" where
  "avl Tip = True"
| "avl (Nd l k d b r) \<longleftrightarrow> b \<in> {-1, 0, 1} \<and> int (ht r) = int (ht l) + b \<and> avl l \<and> avl r"

definition key_ok :: "avlt_key \<Rightarrow> bool" where
  "key_ok k \<longleftrightarrow> k_start k \<le> k_end k"

text \<open>The keys are intervals, in order and without overlaps.\<close>

definition ordered :: "(avlt_key \<times> u32) list \<Rightarrow> bool" where
  "ordered xs \<longleftrightarrow> (\<forall>x \<in> set xs. key_ok (fst x)) \<and> sorted_wrt (\<lambda>x y. AVLT_IS_LOWER (fst x) (fst y)) xs"

lemma ordered_simps [simp]:
  "ordered []"
  "ordered (xs @ x # ys) \<longleftrightarrow> ordered xs \<and> ordered ys \<and> key_ok (fst x) \<and> (\<forall>y \<in> set xs. AVLT_IS_LOWER (fst y) (fst x)) \<and>
     (\<forall>y \<in> set ys. AVLT_IS_LOWER (fst x) (fst y)) \<and> (\<forall>y \<in> set xs. \<forall>z \<in> set ys. AVLT_IS_LOWER (fst y) (fst z))"
  by (auto simp: ordered_def sorted_wrt_append)

lemma ordered_key: "ordered xs \<Longrightarrow> x \<in> set xs \<Longrightarrow> key_ok (fst x)"
  by (simp add: ordered_def)

lemma lower_trans: "AVLT_IS_LOWER a b \<Longrightarrow> key_ok b \<Longrightarrow> AVLT_IS_LOWER b c \<Longrightarrow> AVLT_IS_LOWER a c"
  unfolding AVLT_IS_LOWER_def key_ok_def by (meson le_less_trans less_trans)

lemma greater_lower: "AVLT_IS_GREATER a b \<longleftrightarrow> AVLT_IS_LOWER b a"
  by (simp add: AVLT_IS_LOWER_def AVLT_IS_GREATER_def)

lemma lower_not_sym: "AVLT_IS_LOWER a b \<Longrightarrow> key_ok a \<Longrightarrow> key_ok b \<Longrightarrow> \<not> AVLT_IS_LOWER b a"
  unfolding AVLT_IS_LOWER_def key_ok_def by auto

section \<open>A recursive insertion\<close>

text \<open>The reference: insertion as a recursion that tells whether the tree has grown.\<close>

fun ins :: "avlt_key \<Rightarrow> u32 \<Rightarrow> avlt \<Rightarrow> (avlt \<times> bool) res option" where
  "ins key data Tip = Some (Inr (Nd Tip key data 0 Tip, True))"
| "ins key data (Nd l k d b r) =
     (if AVLT_IS_LOWER key k
      then map_option (\<lambda>m. bind_res m (\<lambda>(l', g). if g then balance_ins (-1) (Nd l' k d b r) else Inr (Nd l' k d b r, False))) (ins key data l)
      else if AVLT_IS_GREATER key k
      then map_option (\<lambda>m. bind_res m (\<lambda>(r', g). if g then balance_ins 1 (Nd l k d b r') else Inr (Nd l k d b r', False))) (ins key data r)
      else None)"

text \<open>The search from a node that is not the root.\<close>

lemma insert_search_shift:
  "insert_search key t p s = map_option (\<lambda>(q, s'). (p @ q, if s' = [] then s else p @ s')) (insert_search key t [] [])"
proof (induction t arbitrary: p s)
  case (Nd l k d b r)
  have left: ?case if "AVLT_IS_LOWER key k"
  proof (cases l)
    case (Nd l' k' d' b' r')
    let ?c = "insert_search key l [] []"
    have "insert_search key l (p @ [L]) s' = map_option (\<lambda>(q, s''). ((p @ [L]) @ q, if s'' = [] then s' else (p @ [L]) @ s'')) ?c"
      "insert_search key l [L] s' = map_option (\<lambda>(q, s''). ([L] @ q, if s'' = [] then s' else [L] @ s'')) ?c" for s'
      by (rule Nd.IH(1))+
    then show ?thesis using that Nd by (cases ?c) auto
  qed (use that in simp)
  have right: ?case if "AVLT_IS_GREATER key k" "\<not> AVLT_IS_LOWER key k"
  proof (cases r)
    case (Nd l' k' d' b' r')
    let ?c = "insert_search key r [] []"
    have "insert_search key r (p @ [R]) s' = map_option (\<lambda>(q, s''). ((p @ [R]) @ q, if s'' = [] then s' else (p @ [R]) @ s'')) ?c"
      "insert_search key r [R] s' = map_option (\<lambda>(q, s''). ([R] @ q, if s'' = [] then s' else [R] @ s'')) ?c" for s'
      by (rule Nd.IH(2))+
    then show ?thesis using that Nd by (cases ?c) auto
  qed (use that in simp)
  show ?case using left right by (cases "AVLT_IS_LOWER key k"; cases "AVLT_IS_GREATER key k") simp_all
qed simp

lemma bal_put: "p \<noteq> [] \<Longrightarrow> bal_of (subtree s (put_at (s @ p) x t)) = bal_of (subtree s t)"
proof (induction s t rule: subtree.induct)
  case (1 t)
  then show ?case by (cases t; cases p; cases "hd p") auto
qed auto

lemma fixup_zero:
  "q \<noteq> [] \<Longrightarrow> bal_of t = 0 \<Longrightarrow> t \<noteq> Tip \<Longrightarrow> insert_fixup key q [] t = Inr (adjust_down key q t, True)"
  by (cases t; cases q) (auto simp: insert_fixup_def Let_def)

lemma fixup_grown: "insert_fixup key q s t = Inr (x, g) \<Longrightarrow> bal_of (subtree s t) \<noteq> 0 \<Longrightarrow> \<not> g"
  by (cases "subtree s t") (auto simp: insert_fixup_def Let_def bind_res_Inr_iff split: if_splits)

lemma fixup_child:
  "insert_fixup key (L # q) (L # s) (Nd l k d b r) = bind_res (insert_fixup key q s l) (\<lambda>(x, g). Inr (Nd x k d b r, g))"
  "insert_fixup key (R # q) (R # s) (Nd l k d b r) = bind_res (insert_fixup key q s r) (\<lambda>(x, g). Inr (Nd l k d b x, g))"
  by (auto simp: insert_fixup_def Let_def bind_res_assoc split: avlt.splits intro!: arg_cong2 [where f = bind_res])

lemma put_at_ne: "t \<noteq> Tip \<Longrightarrow> q \<noteq> [] \<Longrightarrow> put_at q x t \<noteq> Tip"
  by (cases t; cases q; cases "hd q") auto

lemma search_child:
  "l \<noteq> Tip \<Longrightarrow> AVLT_IS_LOWER key k \<Longrightarrow>
     insert_search key (Nd l k d b r) [] [] = insert_search key l [L] (if bal_of l \<noteq> 0 then [L] else [])"
  "r \<noteq> Tip \<Longrightarrow> \<not> AVLT_IS_LOWER key k \<Longrightarrow> AVLT_IS_GREATER key k \<Longrightarrow>
     insert_search key (Nd l k d b r) [] [] = insert_search key r [R] (if bal_of r \<noteq> 0 then [R] else [])"
  unfolding insert_search.simps(2) [of key l k d b r]
  by (cases l; simp del: insert_search.simps) (cases r; simp del: insert_search.simps)

text \<open>The loops compute what the recursion computes.\<close>

definition loops_ok :: "avlt_key \<Rightarrow> u32 \<Rightarrow> avlt \<Rightarrow> bool" where
  "loops_ok key data t \<longleftrightarrow> (case insert_search key t [] [] of
      None \<Rightarrow> ins key data t = None
    | Some (q, s) \<Rightarrow> (\<exists>p. p \<noteq> [] \<and> q = s @ p) \<and> (s = [] \<or> bal_of (subtree s t) \<noteq> 0) \<and>
        ins key data t = Some (insert_fixup key q s (put_at q (Nd Tip key data 0 Tip) t)))"

lemma bind_res_id [simp]: "bind_res m Inr = m"
  by (cases m) simp_all

lemma grown_or_not:
  assumes "\<And>x g. m = Inr (x, g) \<Longrightarrow> \<not> g"
  shows "bind_res m (\<lambda>(x, g). if g then f x else Inr (h x, False)) = bind_res m (\<lambda>(x, g). Inr (h x, g))"
  using assms by (cases m) auto

lemma loops_child:
  assumes c: "loops_ok key data c" "c \<noteq> Tip"
    and srch: "insert_search key t [] [] = insert_search key c [dr] (if bal_of c \<noteq> 0 then [dr] else [])"
    and sub: "\<And>p. subtree (dr # p) t = subtree p c" "\<And>p x. put_at (dr # p) x t = f (put_at p x c)"
    and fx: "\<And>q s c'. insert_fixup key (dr # q) (dr # s) (f c') = bind_res (insert_fixup key q s c') (\<lambda>(x, g). Inr (f x, g))"
      "\<And>q c'. insert_fixup key (dr # q) [] (f c') = balance_ins a (f (adjust_down key q c'))"
    and ins: "ins key data t = map_option (\<lambda>m. bind_res m (\<lambda>(x, g). if g then balance_ins a (f x) else Inr (f x, False))) (ins key data c)"
  shows "loops_ok key data t"
proof -
  let ?n = "Nd Tip key data 0 Tip"
  have srch: "insert_search key t [] [] = map_option (\<lambda>(q, s'). (dr # q, if s' = [] then (if bal_of c \<noteq> 0 then [dr] else []) else dr # s')) (insert_search key c [] [])"
    unfolding srch by (subst insert_search_shift) (cases "insert_search key c [] []"; auto)
  show ?thesis
  proof (cases "insert_search key c [] []")
    case None
    then show ?thesis using srch c ins by (simp add: loops_ok_def)
  next
    case (Some qs)
    obtain q s where qs: "qs = (q, s)" by force
    then obtain p where i: "p \<noteq> []" "q = s @ p" "s = [] \<or> bal_of (subtree s c) \<noteq> 0"
      "ins key data c = Some (insert_fixup key q s (put_at q ?n c))" using c Some unfolding loops_ok_def by auto
    have qne: "q \<noteq> []" using i by auto
    show ?thesis
    proof (cases "s = [] \<and> bal_of c = 0")
      case True
      have "bal_of (put_at q ?n c) = 0" using bal_put [of q "[]" ?n c] True qne by simp
      then have "insert_fixup key q [] (put_at q ?n c) = Inr (adjust_down key q (put_at q ?n c), True)"
        using fixup_zero [OF qne] put_at_ne [OF c(2) qne] by blast
      then show ?thesis using srch Some qs True i ins sub fx by (simp add: loops_ok_def)
    next
      case False
      then have nz: "bal_of (subtree s c) \<noteq> 0" using i(3) by (cases "s = []") auto
      then have "bal_of (subtree s (put_at q ?n c)) \<noteq> 0" using bal_put [OF i(1)] i(2) by simp
      then have "insert_fixup key q s (put_at q ?n c) = Inr (x, g) \<Longrightarrow> \<not> g" for x g using fixup_grown by blast
      note gn = grown_or_not [OF this]
      have "insert_search key t [] [] = Some (dr # q, dr # s)" using srch Some qs False by auto
      then show ?thesis using i ins sub fx nz gn by (simp add: loops_ok_def)
    qed
  qed
qed

lemma insert_loops: "t \<noteq> Tip \<Longrightarrow> loops_ok key data t"
proof (induction t)
  case (Nd l k d b r)
  consider "AVLT_IS_LOWER key k" "l = Tip" | "AVLT_IS_LOWER key k" "l \<noteq> Tip"
    | "\<not> AVLT_IS_LOWER key k" "AVLT_IS_GREATER key k" "r = Tip" | "\<not> AVLT_IS_LOWER key k" "AVLT_IS_GREATER key k" "r \<noteq> Tip"
    | "\<not> AVLT_IS_LOWER key k" "\<not> AVLT_IS_GREATER key k" by blast
  then show ?case
  proof cases
    case 2
    show ?thesis
      by (rule loops_child [OF Nd.IH(1) [OF 2(2)] 2(2) search_child(1) [OF 2(2,1)], where f = "\<lambda>c. Nd c k d b r" and a = "-1"])
        (use 2 in \<open>simp_all add: fixup_child insert_fixup_def [where s = "[]"] Let_def split_def del: balance_ins.simps\<close>)
  next
    case 4
    show ?thesis
      by (rule loops_child [OF Nd.IH(2) [OF 4(3)] 4(3) search_child(2) [OF 4(3,1,2)], where f = "\<lambda>c. Nd l k d b c" and a = 1])
        (use 4 in \<open>simp_all add: fixup_child insert_fixup_def [where s = "[]"] Let_def split_def del: balance_ins.simps\<close>)
  qed (auto simp: loops_ok_def insert_fixup_def Let_def)
qed simp

section \<open>The recursion keeps order and balance\<close>

lemma balance_ins_left:
  assumes "avl l'" "avl r" "ht l' = Suc (ht l)" "int (ht r) = int (ht l) + b" "b \<in> {-1, 0, 1}" "bal_of l' \<noteq> 0 \<or> ht l = 0"
  shows "\<exists>x g. balance_ins (-1) (Nd l' k d b r) = Inr (x, g) \<and> avl x \<and> nodes x = nodes (Nd l' k d b r) \<and>
    ht x = Suc (max (ht l) (ht r)) + (if g then 1 else 0) \<and> (g \<longrightarrow> bal_of x \<noteq> 0)"
proof -
  consider "b = 0" | "b = 1" | "b = -1" using assms(5) by auto
  then show ?thesis
  proof cases
    case 3
    then have hr: "ht l = Suc (ht r)" using assms(4) by linarith
    then obtain rl rk rd rb rr where l': "l' = Nd rl rk rd rb rr" "rb \<noteq> 0" using assms(3,6) by (cases l') auto
    consider "rb = -1" | "rb = 1" using l' assms(1) by auto
    then show ?thesis
    proof cases
      case 1
      then show ?thesis using 3 l' assms(1,2,3) hr by (auto simp: max_def)
    next
      case 2
      then obtain pl pk pd pb pr where rr: "rr = Nd pl pk pd pb pr" using l' assms(1,3) by (cases rr) auto
      then show ?thesis using 2 3 l' assms(1,2,3) hr by (cases "pb = 0"; cases "pb = 1") (auto simp: max_def split: if_splits)
    qed
  qed (use assms in \<open>auto simp: max_def\<close>)
qed

lemma balance_ins_right:
  assumes "avl l" "avl r'" "ht r' = Suc (ht r)" "int (ht r) = int (ht l) + b" "b \<in> {-1, 0, 1}" "bal_of r' \<noteq> 0 \<or> ht r = 0"
  shows "\<exists>x g. balance_ins 1 (Nd l k d b r') = Inr (x, g) \<and> avl x \<and> nodes x = nodes (Nd l k d b r') \<and>
    ht x = Suc (max (ht l) (ht r)) + (if g then 1 else 0) \<and> (g \<longrightarrow> bal_of x \<noteq> 0)"
proof -
  consider "b = 0" | "b = -1" | "b = 1" using assms(5) by auto
  then show ?thesis
  proof cases
    case 3
    then have hr: "ht r = Suc (ht l)" using assms(4) by linarith
    then obtain rl rk rd rb rr where r': "r' = Nd rl rk rd rb rr" "rb \<noteq> 0" using assms(3,6) by (cases r') auto
    consider "rb = 1" | "rb = -1" using r' assms(2) by auto
    then show ?thesis
    proof cases
      case 1
      then show ?thesis using 3 r' assms(1,2,3) hr by (auto simp: max_def)
    next
      case 2
      then obtain pl pk pd pb pr where rl: "rl = Nd pl pk pd pb pr" using r' assms(2,3) by (cases rl) auto
      then show ?thesis using 2 3 r' assms(1,2,3) hr by (cases "pb = 0"; cases "pb = 1") (auto simp: max_def split: if_splits)
    qed
  qed (use assms in \<open>auto simp: max_def\<close>)
qed

text \<open>A key that is already there, at least in part.\<close>

definition overlaps_node :: "avlt_key \<Rightarrow> avlt \<Rightarrow> bool" where
  "overlaps_node key t \<longleftrightarrow> (\<exists>x \<in> set (nodes t). \<not> AVLT_IS_LOWER key (fst x) \<and> \<not> AVLT_IS_LOWER (fst x) key)"

definition inserted_node :: "avlt_key \<Rightarrow> u32 \<Rightarrow> avlt \<Rightarrow> avlt \<Rightarrow> bool" where
  "inserted_node key data t t' \<longleftrightarrow> avl t' \<and> ordered (nodes t') \<and> set (nodes t') = insert (key, data) (set (nodes t))"

lemma ins_ok:
  assumes "avl t" "ordered (nodes t)" "key_ok key"
  shows "case ins key data t of
      None \<Rightarrow> overlaps_node key t
    | Some m \<Rightarrow> \<not> overlaps_node key t \<and> (\<exists>t' g. m = Inr (t', g) \<and> inserted_node key data t t' \<and>
        ht t' = ht t + (if g then 1 else 0) \<and> (g \<longrightarrow> t = Tip \<or> bal_of t' \<noteq> 0))"
  using assms(1,2)
proof (induction t)
  case Tip
  then show ?case using assms(3) ordered_simps(2) [of "[]" _ "[]"] by (simp add: inserted_node_def overlaps_node_def) blast
next
  case (Nd l k d b r)
  have av: "avl l" "avl r" "int (ht r) = int (ht l) + b" "b \<in> {-1, 0, 1}" using Nd.prems by simp_all
  have od: "ordered (nodes l)" "ordered (nodes r)" "key_ok k" "\<forall>y \<in> set (nodes l). AVLT_IS_LOWER (fst y) k \<and> key_ok (fst y)"
    "\<forall>y \<in> set (nodes r). AVLT_IS_LOWER k (fst y) \<and> key_ok (fst y)" "\<forall>y \<in> set (nodes l). \<forall>z \<in> set (nodes r). AVLT_IS_LOWER (fst y) (fst z)"
    using Nd.prems ordered_key [of "nodes l"] ordered_key [of "nodes r"] by auto
  consider "AVLT_IS_LOWER key k" | "AVLT_IS_LOWER k key" "\<not> AVLT_IS_LOWER key k" | "\<not> AVLT_IS_LOWER key k" "\<not> AVLT_IS_LOWER k key" by blast
  then show ?case
  proof cases
    case 1
    have rt: "\<forall>y \<in> set (nodes r). AVLT_IS_LOWER key (fst y)" using 1 od lower_trans by blast
    then have ov: "overlaps_node key (Nd l k d b r) = overlaps_node key l" using 1 by (auto simp: overlaps_node_def)
    note IH = Nd.IH(1) [OF av(1) od(1)]
    show ?thesis
    proof (cases "ins key data l")
      case None
      then show ?thesis using IH 1 ov by simp
    next
      case (Some m)
      then obtain l' g where l': "m = Inr (l', g)" "inserted_node key data l l'" "ht l' = ht l + (if g then 1 else 0)"
        "g \<longrightarrow> l = Tip \<or> bal_of l' \<noteq> 0" "\<not> overlaps_node key l" using IH by auto
      have o': "ordered (nodes (Nd l' k d b r))" using l'(2) 1 od rt by (auto simp: inserted_node_def)
      have s': "set (nodes (Nd l' k d b r)) = insert (key, data) (set (nodes (Nd l k d b r)))" using l'(2) by (auto simp: inserted_node_def)
      show ?thesis
      proof (cases g)
        case True
        obtain x gx where x: "balance_ins (-1) (Nd l' k d b r) = Inr (x, gx)" "avl x" "nodes x = nodes (Nd l' k d b r)"
          "ht x = Suc (max (ht l) (ht r)) + (if gx then 1 else 0)" "gx \<longrightarrow> bal_of x \<noteq> 0"
          using balance_ins_left [of l' r l b k d] l' av True by (auto simp: inserted_node_def)
        then show ?thesis using 1 Some l' True o' s' ov by (simp add: inserted_node_def del: balance_ins.simps)
      next
        case False
        then show ?thesis using 1 Some l' o' s' ov av by (simp add: inserted_node_def) blast
      qed
    qed
  next
    case 2
    have lt: "\<forall>y \<in> set (nodes l). AVLT_IS_LOWER (fst y) key" using 2 od lower_trans by blast
    then have ov: "overlaps_node key (Nd l k d b r) = overlaps_node key r" using 2 by (auto simp: overlaps_node_def)
    note IH = Nd.IH(2) [OF av(2) od(2)]
    show ?thesis
    proof (cases "ins key data r")
      case None
      then show ?thesis using IH 2 ov by (simp add: greater_lower)
    next
      case (Some m)
      then obtain r' g where r': "m = Inr (r', g)" "inserted_node key data r r'" "ht r' = ht r + (if g then 1 else 0)"
        "g \<longrightarrow> r = Tip \<or> bal_of r' \<noteq> 0" "\<not> overlaps_node key r" using IH by auto
      have o': "ordered (nodes (Nd l k d b r'))" using r'(2) 2 od lt by (auto simp: inserted_node_def)
      have s': "set (nodes (Nd l k d b r')) = insert (key, data) (set (nodes (Nd l k d b r)))" using r'(2) by (auto simp: inserted_node_def)
      show ?thesis
      proof (cases g)
        case True
        obtain x gx where x: "balance_ins 1 (Nd l k d b r') = Inr (x, gx)" "avl x" "nodes x = nodes (Nd l k d b r')"
          "ht x = Suc (max (ht l) (ht r)) + (if gx then 1 else 0)" "gx \<longrightarrow> bal_of x \<noteq> 0"
          using balance_ins_right [of l r' r b k d] r' av True by (auto simp: inserted_node_def)
        then show ?thesis using 2 Some r' True o' s' ov by (simp add: inserted_node_def greater_lower del: balance_ins.simps)
      next
        case False
        then show ?thesis using 2 Some r' o' s' ov av by (simp add: inserted_node_def greater_lower) blast
      qed
    qed
  next
    case 3
    then show ?thesis by (auto simp: greater_lower overlaps_node_def)
  qed
qed

section \<open>Insertion and search on the tree of the module\<close>

definition tree_inv :: "avlt_tree \<Rightarrow> bool" where
  "tree_inv t \<longleftrightarrow> avl (at_root t) \<and> ordered (nodes (at_root t)) \<and> at_height t = of_nat (ht (at_root t))"

definition entries :: "avlt_tree \<Rightarrow> (avlt_key \<times> u32) set" where
  "entries t = set (nodes (at_root t))"

definition overlaps_entry :: "avlt_key \<Rightarrow> avlt_tree \<Rightarrow> bool" where
  "overlaps_entry key t \<longleftrightarrow> (\<exists>x \<in> entries t. \<not> AVLT_IS_LOWER key (fst x) \<and> \<not> AVLT_IS_LOWER (fst x) key)"

lemma case_Nd: "x \<noteq> Tip \<Longrightarrow> (case x of Tip \<Rightarrow> a | Nd l k d b r \<Rightarrow> f (Nd l k d b r)) = f x"
  by (cases x) simp_all

lemma avlt_insert_ok:
  assumes t: "tree_inv t" "key_ok key"
  shows "\<exists>t' ret. avlt_insert mem key data t = Inr (t', ret) \<and> tree_inv t' \<and>
    (if overlaps_entry key t then ret = - AVLT_EXISTS \<and> t' = t
     else if \<not> mem then ret = - AVLT_NO_MEM \<and> t' = t
     else ret = 0 \<and> entries t' = insert (key, data) (entries t))"
proof -
  let ?n = "Nd Tip key data 0 Tip"
  have ov: "overlaps_entry key t = overlaps_node key (at_root t)" by (simp add: overlaps_entry_def overlaps_node_def entries_def)
  show ?thesis
  proof (cases "at_root t = Tip")
    case True
    then show ?thesis using t ov ordered_simps(2) [of "[]" _ "[]"]
      by (auto simp: avlt_insert_def overlaps_node_def tree_inv_def entries_def)
  next
    case False
    note lo = insert_loops [OF False, of key data] and io = ins_ok [of "at_root t" key data]
    have av: "avl (at_root t)" "ordered (nodes (at_root t))" using t by (auto simp: tree_inv_def)
    have eq: "avlt_insert mem key data t = (case insert_search key (at_root t) [] [] of
        None \<Rightarrow> Inr (t, - AVLT_EXISTS)
      | Some (q, s) \<Rightarrow> if \<not> mem then Inr (t, - AVLT_NO_MEM)
          else bind_res (insert_fixup key q s (put_at q ?n (at_root t))) (\<lambda>(x, grown).
                 Inr (t\<lparr>at_root := x, at_height := (if grown then at_height t + 1 else at_height t)\<rparr>, 0)))"
      unfolding avlt_insert_def by (rule case_Nd [OF False])
    show ?thesis
    proof (cases "insert_search key (at_root t) [] []")
      case None
      then show ?thesis using lo io av t ov eq by (auto simp: loops_ok_def)
    next
      case (Some qs)
      then obtain q s where qs: "insert_search key (at_root t) [] [] = Some (q, s)" by (cases qs) auto
      then have i: "ins key data (at_root t) = Some (insert_fixup key q s (put_at q ?n (at_root t)))" using lo by (simp add: loops_ok_def)
      then obtain t' g where f: "insert_fixup key q s (put_at q ?n (at_root t)) = Inr (t', g)" "inserted_node key data (at_root t) t'"
        "ht t' = ht (at_root t) + (if g then 1 else 0)" "\<not> overlaps_node key (at_root t)"
        using io av t(2) by auto
      then show ?thesis using qs eq ov t(1) by (auto simp: tree_inv_def inserted_node_def entries_def)
    qed
  qed
qed

lemma find_node_ok:
  "ordered (nodes t) \<Longrightarrow> key_ok key \<Longrightarrow> find_node key t = Some d \<longleftrightarrow> (\<exists>k. (k, d) \<in> set (nodes t) \<and> AVLT_IS_IN key k)"
proof (induction t)
  case (Nd l k d' b r)
  have od: "ordered (nodes l)" "ordered (nodes r)" "key_ok k" "\<forall>y \<in> set (nodes l). AVLT_IS_LOWER (fst y) k \<and> key_ok (fst y)"
    "\<forall>y \<in> set (nodes r). AVLT_IS_LOWER k (fst y) \<and> key_ok (fst y)"
    using Nd.prems ordered_key [of "nodes l"] ordered_key [of "nodes r"] by auto
  have out: "\<not> AVLT_IS_IN key k'" if "AVLT_IS_LOWER key k' \<or> AVLT_IS_LOWER k' key" for k'
    using that Nd.prems(2) unfolding AVLT_IS_IN_def AVLT_IS_LOWER_def key_ok_def by auto
  have out2: "\<not> AVLT_IS_IN key k''" if "AVLT_IS_LOWER k' k'' \<or> AVLT_IS_LOWER k'' k'" "\<not> AVLT_IS_LOWER key k'" "\<not> AVLT_IS_LOWER k' key"
    for k' k''
    using that Nd.prems(2) unfolding AVLT_IS_IN_def AVLT_IS_LOWER_def key_ok_def by auto
  have in2: "\<not> AVLT_IS_LOWER key k" "\<not> AVLT_IS_LOWER k key" if "AVLT_IS_IN key k" using out that by blast+
  consider "AVLT_IS_LOWER key k" | "AVLT_IS_LOWER k key" | "\<not> AVLT_IS_LOWER key k" "\<not> AVLT_IS_LOWER k key" by blast
  then show ?case
  proof cases
    case 1
    then have "\<forall>y \<in> set (nodes r). AVLT_IS_LOWER key (fst y)" using od lower_trans by blast
    then show ?thesis using 1 out Nd.IH(1) [OF od(1) Nd.prems(2)] by auto
  next
    case 2
    then have "\<not> AVLT_IS_LOWER key k" using lower_not_sym od(3) Nd.prems(2) by blast
    moreover have "\<forall>y \<in> set (nodes l). AVLT_IS_LOWER (fst y) key" using 2 od lower_trans by blast
    ultimately show ?thesis using 2 out Nd.IH(2) [OF od(2) Nd.prems(2)] by (auto simp: greater_lower)
  next
    case 3
    then show ?thesis using od out2 [of k] by (auto simp: greater_lower)
  qed
qed simp

lemma avlt_find_ok:
  assumes "tree_inv t" "key_ok key"
  shows "avlt_find key t = (0, Some d) \<longleftrightarrow> (\<exists>k. (k, d) \<in> entries t \<and> AVLT_IS_IN key k)"
    "avlt_find key t = (- AVLT_NOT_FOUND, None) \<longleftrightarrow> (\<forall>x \<in> entries t. \<not> AVLT_IS_IN key (fst x))"
proof -
  have o: "ordered (nodes (at_root t))" using assms(1) by (simp add: tree_inv_def)
  note f = find_node_ok [OF o assms(2)]
  show "avlt_find key t = (0, Some d) \<longleftrightarrow> (\<exists>k. (k, d) \<in> entries t \<and> AVLT_IS_IN key k)"
    using f [of d] by (cases "find_node key (at_root t)") (auto simp: avlt_find_def entries_def AVLT_NOT_FOUND_def)
  have "find_node key (at_root t) = None \<longleftrightarrow> (\<forall>x \<in> entries t. \<not> AVLT_IS_IN key (fst x))"
  proof (cases "find_node key (at_root t)")
    case None
    then show ?thesis using f by (force simp: entries_def)
  next
    case (Some d)
    then obtain k where "(k, d) \<in> entries t" "AVLT_IS_IN key k" using f [of d] by (auto simp: entries_def)
    then show ?thesis using Some by force
  qed
  then show "avlt_find key t = (- AVLT_NOT_FOUND, None) \<longleftrightarrow> (\<forall>x \<in> entries t. \<not> AVLT_IS_IN key (fst x))"
    by (cases "find_node key (at_root t)") (auto simp: avlt_find_def)
qed

section \<open>Positions\<close>

lemma subtree_Tip [simp]: "subtree p Tip = Tip"
  by (cases p) (auto intro: subtree.simps)

lemma subtree_append: "subtree (p @ q) t = subtree q (subtree p t)"
  by (induction p t rule: subtree.induct) auto

lemma put_at_append: "put_at (p @ q) x t = put_at p (put_at q x (subtree p t)) t"
  by (induction p x t rule: put_at.induct) auto

lemma put_at_put_at [simp]: "put_at p x (put_at p y t) = put_at p x t"
  by (induction p x t rule: put_at.induct) auto

lemma subtree_put_at [simp]: "subtree p t \<noteq> Tip \<Longrightarrow> subtree p (put_at p x t) = x"
  by (induction p x t rule: put_at.induct) auto

lemma put_at_above: "put_at p n (put_at (p @ q) c t) = put_at p n t"
  by (simp add: put_at_append)

text \<open>The inorder list of a tree, seen from a position.\<close>

lemma nodes_at:
  assumes "subtree p t \<noteq> Tip"
  obtains xs ys where "\<And>x. nodes (put_at p x t) = xs @ nodes x @ ys" "nodes t = xs @ nodes (subtree p t) @ ys"
  using assms
proof (induction p t arbitrary: thesis rule: subtree.induct)
  case (1 t)
  show ?case by (rule 1(1) [of "[]" "[]"]) simp_all
next
  case (2 p l k d b r)
  obtain xs ys where "\<And>x. nodes (put_at p x l) = xs @ nodes x @ ys" "nodes l = xs @ nodes (subtree p l) @ ys"
    using 2 by auto
  then show ?case by (intro 2(2) [of xs "ys @ (k, d) # nodes r"]) simp_all
next
  case (3 p l k d b r)
  obtain xs ys where "\<And>x. nodes (put_at p x r) = xs @ nodes x @ ys" "nodes r = xs @ nodes (subtree p r) @ ys"
    using 3 by auto
  then show ?case by (intro 3(2) [of "nodes l @ (k, d) # xs" ys]) simp_all
qed simp

section \<open>A recursive removal\<close>

text \<open>The reference: a changed subtree on its way up, with the flag that tells whether it got shorter.\<close>

definition shrink_at :: "int \<Rightarrow> avlt \<Rightarrow> (avlt \<times> bool) res" where
  "shrink_at a t = bind_res (rebalance a t) (\<lambda>(n, dn, rot). Inr (n, \<not> dn))"

fun up :: "dir list \<Rightarrow> avlt \<Rightarrow> (avlt \<times> bool) res \<Rightarrow> (avlt \<times> bool) res" where
  "up [] t m = m"
| "up (L # p) (Nd l k d b r) m =
     bind_res (up p l m) (\<lambda>(x, sh). if sh then shrink_at 1 (Nd x k d b r) else Inr (Nd x k d b r, False))"
| "up (R # p) (Nd l k d b r) m =
     bind_res (up p r m) (\<lambda>(x, sh). if sh then shrink_at (-1) (Nd l k d b x) else Inr (Nd l k d b x, False))"
| "up (_ # p) Tip m = Inl Undefined"

lemma up_append: "subtree p t \<noteq> Tip \<Longrightarrow> up (p @ q) t m = up p t (up q (subtree p t) m)"
  by (induction p t rule: subtree.induct) auto

lemma up_False: "subtree p t \<noteq> Tip \<Longrightarrow> up p t (Inr (x, False)) = Inr (put_at p x t, False)"
  by (induction p t rule: subtree.induct) auto

lemma up_Inl: "up p t (Inl e) = Inr x \<Longrightarrow> False"
  by (induction p t "Inl e :: (avlt \<times> bool) res" arbitrary: x rule: up.induct) (auto simp: bind_res_Inr_iff)

lemma shrink_left:
  assumes "avl l'" "avl r" "ht l = Suc (ht l')" "int (ht r) = int (ht l) + b" "b \<in> {-1, 0, 1}"
  shows "\<exists>n dn rot. rebalance 1 (Nd l' k d b r) = Inr (n, dn, rot) \<and> avl n \<and> nodes n = nodes (Nd l' k d b r) \<and>
    Suc (max (ht l) (ht r)) = ht n + (if dn then 0 else 1)"
proof -
  consider "b = -1" | "b = 0" | "b = 1" using assms(5) by auto
  then show ?thesis
  proof cases
    case 3
    then have hr: "ht r = Suc (Suc (ht l'))" using assms(3,4) by linarith
    then obtain rl rk rd rb rr where r: "r = Nd rl rk rd rb rr" by (cases r) auto
    consider "rb = 0" | "rb = 1" | "rb = -1" using r assms(2) by auto
    then show ?thesis
    proof cases
      case 3
      then obtain ol k' od ob or' where rl: "rl = Nd ol k' od ob or'" using r assms(2) hr by (cases rl) auto
      then show ?thesis using 3 \<open>b = 1\<close> r assms(1,2,3) hr by (cases "ob = 0"; cases "ob = 1") (auto simp: max_def split: if_splits)
    qed (use \<open>b = 1\<close> r assms(1,2,3) hr in \<open>auto simp: max_def split: if_splits\<close>)
  qed (use assms in \<open>auto simp: max_def\<close>)
qed

lemma shrink_right:
  assumes "avl l" "avl r'" "ht r = Suc (ht r')" "int (ht r) = int (ht l) + b" "b \<in> {-1, 0, 1}"
  shows "\<exists>n dn rot. rebalance (-1) (Nd l k d b r') = Inr (n, dn, rot) \<and> avl n \<and> nodes n = nodes (Nd l k d b r') \<and>
    Suc (max (ht l) (ht r)) = ht n + (if dn then 0 else 1)"
proof -
  consider "b = 1" | "b = 0" | "b = -1" using assms(5) by auto
  then show ?thesis
  proof cases
    case 3
    then have hr: "ht l = Suc (Suc (ht r'))" using assms(3,4) by linarith
    then obtain rl rk rd rb rr where l: "l = Nd rl rk rd rb rr" by (cases l) auto
    consider "rb = 0" | "rb = -1" | "rb = 1" using l assms(1) by auto
    then show ?thesis
    proof cases
      case 3
      then obtain ol k' od ob or' where rr: "rr = Nd ol k' od ob or'" using l assms(1) hr by (cases rr) auto
      then show ?thesis using 3 \<open>b = -1\<close> l assms(1,2,3) hr by (cases "ob = 0"; cases "ob = 1") (auto simp: max_def split: if_splits)
    qed (use \<open>b = -1\<close> l assms(1,2,3) hr in \<open>auto simp: max_def split: if_splits\<close>)
  qed (use assms in \<open>auto simp: max_def\<close>)
qed

text \<open>A subtree that lost one level at most is taken up to the root: the tree is balanced again.\<close>

lemma up_ok:
  assumes "avl t" "subtree p t \<noteq> Tip" "avl c" "ht (subtree p t) = ht c + (if sh then 1 else 0)"
  shows "\<exists>t' sh'. up p t (Inr (c, sh)) = Inr (t', sh') \<and> avl t' \<and> ht t = ht t' + (if sh' then 1 else 0) \<and>
    nodes t' = nodes (put_at p c t)"
  using assms
proof (induction p t rule: subtree.induct)
  case (2 p l k d b r)
  then obtain l' s' where l': "up p l (Inr (c, sh)) = Inr (l', s')" "avl l'" "ht l = ht l' + (if s' then 1 else 0)"
    "nodes l' = nodes (put_at p c l)" by auto
  show ?case
  proof (cases s')
    case True
    then obtain n dn rot where "rebalance 1 (Nd l' k d b r) = Inr (n, dn, rot)" "avl n" "nodes n = nodes (Nd l' k d b r)"
      "Suc (max (ht l) (ht r)) = ht n + (if dn then 0 else 1)" using shrink_left [of l' r l b k d] l' 2(2) by auto
    then show ?thesis using True l' by (auto simp: shrink_at_def simp del: rebalance.simps)
  next
    case False
    then show ?thesis using l' 2(2) by auto
  qed
next
  case (3 p l k d b r)
  then obtain r' s' where r': "up p r (Inr (c, sh)) = Inr (r', s')" "avl r'" "ht r = ht r' + (if s' then 1 else 0)"
    "nodes r' = nodes (put_at p c r)" by auto
  show ?case
  proof (cases s')
    case True
    then obtain n dn rot where "rebalance (-1) (Nd l k d b r') = Inr (n, dn, rot)" "avl n" "nodes n = nodes (Nd l k d b r')"
      "Suc (max (ht l) (ht r)) = ht n + (if dn then 0 else 1)" using shrink_right [of l r' r b k d] r' 3(2) by auto
    then show ?thesis using True r' by (auto simp: shrink_at_def simp del: rebalance.simps)
  next
    case False
    then show ?thesis using r' 3(2) by auto
  qed
qed auto

section \<open>The rebalancing loop\<close>

text \<open>The last balanced node above a position.\<close>

definition last_bal :: "dir list \<Rightarrow> pos \<Rightarrow> avlt \<Rightarrow> bool" where
  "last_bal q s t \<longleftrightarrow> (case s of
      None \<Rightarrow> \<forall>p. strict_prefix p q \<longrightarrow> bal_of (subtree p t) \<noteq> 0
    | Some p0 \<Rightarrow> strict_prefix p0 q \<and> bal_of (subtree p0 t) = 0 \<and> (\<forall>p. strict_prefix p0 p \<longrightarrow> strict_prefix p q \<longrightarrow> bal_of (subtree p t) \<noteq> 0))"

lemma strict_prefix_snoc: "strict_prefix p (q @ [d]) \<longleftrightarrow> prefix p q"
  by (auto simp: strict_prefix_def)

lemma last_bal_step: "last_bal q s t \<Longrightarrow> last_bal (q @ [d]) (if bal_of (subtree q t) = 0 then Some q else s) t"
  unfolding last_bal_def strict_prefix_snoc
  by (auto simp: strict_prefix_def split: option.splits)

lemma last_bal_up:
  "last_bal (q @ [d]) s t \<Longrightarrow> bal_of (subtree q t) \<noteq> 0 \<Longrightarrow> last_bal q s t"
  unfolding last_bal_def strict_prefix_snoc
  by (auto simp: strict_prefix_def split: option.splits)

fun side :: "dir \<Rightarrow> int" where
  "side L = 1"
| "side R = -1"

lemma shorter_side_snoc [simp]: "shorter_side p (p @ [d]) = Some (side d)"
  by (cases d) (simp_all add: shorter_side_def)

text \<open>The way down by the keys follows a position below which the key is found.\<close>

fun follows :: "avlt_key \<Rightarrow> dir list \<Rightarrow> avlt \<Rightarrow> bool" where
  "follows qk [] t = True"
| "follows qk (L # p) (Nd l k d b r) \<longleftrightarrow> AVLT_IS_LOWER qk k \<and> follows qk p l"
| "follows qk (R # p) (Nd l k d b r) \<longleftrightarrow> \<not> AVLT_IS_LOWER qk k \<and> follows qk p r"
| "follows qk (_ # p) Tip = False"

lemma follows_append: "follows qk (p @ q) t \<longleftrightarrow> follows qk p t \<and> follows qk q (subtree p t)"
  by (induction qk p t rule: follows.induct) auto

lemma nodes_subtree: "set (nodes (subtree p t)) \<subseteq> set (nodes t)"
  by (induction p t rule: subtree.induct) auto

lemma ordered_follows: "ordered (nodes t) \<Longrightarrow> x \<in> set (nodes (subtree p t)) \<Longrightarrow> follows (fst x) p t"
proof (induction p t rule: subtree.induct)
  case (2 p l k d b r)
  then show ?case using nodes_subtree [of p l] by auto
next
  case (3 p l k d b r)
  then have "x \<in> set (nodes r)" using nodes_subtree [of p r] by auto
  then show ?case using 3 lower_not_sym [of k "fst x"] ordered_key [of "nodes r" x] by auto
qed auto

lemma find_down_ok:
  "follows qk p t \<Longrightarrow> subtree p t \<noteq> Tip \<Longrightarrow>
   find_down qk (Some (q @ p)) t q t0 = Some (q @ p, if p = [] then t0 else Some (q @ butlast p))"
proof (induction qk p t arbitrary: q t0 rule: follows.induct)
  case (1 qk t)
  then show ?case by (cases t) auto
next
  case (2 qk p l k d b r)
  then show ?case using 2(1) [of "q @ [L]" "Some q"] by auto
next
  case (3 qk p l k d b r)
  then show ?case using 3(1) [of "q @ [R]" "Some q"] by auto
qed simp

lemma rebalance_facts:
  assumes "rebalance a (Nd l k d b r) = Inr (n, dn, rot)"
  shows "rot \<Longrightarrow> b \<noteq> 0" "\<not> dn \<Longrightarrow> b \<noteq> 0" "n \<noteq> Tip" "nodes n = nodes (Nd l k d b r)"
  using assms by (auto simp: Let_def split: if_splits avlt.splits)

lemma next_up_ok:
  assumes n: "n \<noteq> Tip" "subtree (p @ [d]) t \<noteq> Tip" and o: "ordered (nodes (put_at (p @ [d]) n t))"
    and s: "last_bal (p @ [d]) s t"
  shows "\<exists>t'. next_up (p @ [d]) s (Some p) (put_at (p @ [d]) n t) = Inr (p, side d, t') \<and>
    (t' = parent p \<or> bal_of (subtree p t) = 0)"
proof -
  let ?x = "put_at (p @ [d]) n t"
  have sn: "subtree (p @ [d]) ?x = n" using n by simp
  obtain l k e b r where nn: "n = Nd l k e b r" using n(1) by (cases n) auto
  have fl: "follows (key_of n) (p @ [d]) ?x" using ordered_follows [OF o, of "(k, e)" "p @ [d]"] sn nn by simp
  have sp: "subtree p ?x \<noteq> Tip" using sn n by (auto simp: subtree_append)
  show ?thesis
  proof (cases "s = Some p")
    case True
    then have "bal_of (subtree p t) = 0" using s by (simp add: last_bal_def)
    moreover have "bal_of (subtree p ?x) = bal_of (subtree p t)" by (rule bal_put) simp
    ultimately show ?thesis using True by (simp add: next_up_def)
  next
    case False
    have "\<exists>t'. (case s of None \<Rightarrow> find_down (key_of n) (Some p) ?x [] None
        | Some ps \<Rightarrow> find_down (key_of n) (Some p) (subtree ps ?x) ps s) = Some (p, t') \<and> t' = parent p"
    proof (cases s)
      case None
      have "follows (key_of n) p ?x" using fl by (simp add: follows_append)
      then show ?thesis using find_down_ok [of "key_of n" p ?x "[]" None] sp None by (simp add: parent_def)
    next
      case (Some p0)
      then obtain q where q: "p = p0 @ q" using s by (auto simp: last_bal_def strict_prefix_snoc prefix_def)
      then have qne: "q \<noteq> []" using False Some by auto
      have "follows (key_of n) q (subtree p0 ?x)" using fl q by (simp add: follows_append)
      moreover have "subtree q (subtree p0 ?x) \<noteq> Tip" using sp q by (simp add: subtree_append)
      ultimately show ?thesis using find_down_ok [of "key_of n" q "subtree p0 ?x" p0 s] q qne Some by (simp add: parent_def butlast_append)
    qed
    moreover have "parent p \<noteq> Some p"
    proof (cases "p = []")
      case False
      then have "length (butlast p) < length p" by simp
      then have "butlast p \<noteq> p" by (metis less_irrefl)
      then show ?thesis by (simp add: parent_def)
    qed (simp add: parent_def)
    ultimately show ?thesis unfolding next_up_def sn using False by auto
  qed
qed

text \<open>The loop takes the change up exactly like the recursion.\<close>

lemma rebalance_loop_up:
  assumes "subtree (p @ [d]) t \<noteq> Tip" "ordered (nodes (put_at (p @ [d]) c t))" "last_bal (p @ [d]) s t"
    and "t0 = parent p \<or> bal_of (subtree p t) = 0" "up (p @ [d]) t (Inr (c, True)) = Inr (t', sh)"
  shows "rebalance_loop p (side d) s t0 (put_at (p @ [d]) c t) = Some (Inr (t', sh))"
  using assms
proof (induction p arbitrary: d c t0 rule: rev_induct)
  case Nil
  then obtain l k e b r where t: "t = Nd l k e b r" by (cases t) auto
  define m where "m = (case d of L \<Rightarrow> Nd c k e b r | R \<Rightarrow> Nd l k e b c)"
  have x: "put_at [d] c t = m" "up [d] t (Inr (c, True)) = shrink_at (side d) m" using t by (cases d; simp add: m_def)+
  then obtain n dn rot where rb: "rebalance (side d) m = Inr (n, dn, rot)" "t' = n" "sh = (\<not> dn)"
    using Nil(5) by (auto simp: shrink_at_def bind_res_Inr_iff)
  obtain lm rm where mm: "m = Nd lm k e b rm" by (cases d) (simp_all add: m_def)
  have b0: "rot \<Longrightarrow> b \<noteq> 0" "\<not> dn \<Longrightarrow> b \<noteq> 0" using rebalance_facts(1,2) [OF rb(1) [unfolded mm]] by blast+
  have s: "\<not> dn \<Longrightarrow> s = None" using Nil(3) b0 t by (auto simp: last_bal_def strict_prefix_snoc [of _ "[]", simplified] split: option.splits)
  have t0: "t0 = None" if "b \<noteq> 0" using Nil(4) that t by (simp add: parent_def)
  show ?case using x rb b0 s t0 by (subst rebalance_loop.simps) (auto simp: parent_def)
next
  case (snoc d' p')
  let ?p = "p' @ [d']"
  have st: "subtree ?p t \<noteq> Tip" using snoc.prems(1) subtree_append [of ?p "[d]" t] by auto
  then obtain l k e b r where t: "subtree ?p t = Nd l k e b r" by (cases "subtree ?p t") auto
  define m where "m = (case d of L \<Rightarrow> Nd c k e b r | R \<Rightarrow> Nd l k e b c)"
  have x: "subtree ?p (put_at (?p @ [d]) c t) = m" using st t put_at_append [of ?p "[d]" c t] by (cases d) (simp_all add: m_def)
  have "up (?p @ [d]) t (Inr (c, True)) = up ?p t (shrink_at (side d) m)" using up_append [OF st, of "[d]"] t by (cases d) (simp_all add: m_def)
  then have u: "up ?p t (shrink_at (side d) m) = Inr (t', sh)" using snoc.prems(5) by simp
  obtain n dn rot where rb: "rebalance (side d) m = Inr (n, dn, rot)"
  proof (cases "rebalance (side d) m")
    case (Inl e)
    then show ?thesis using u up_Inl [of ?p t e "(t', sh)"] by (simp add: shrink_at_def)
  qed (use that in auto)
  have u': "up ?p t (Inr (n, \<not> dn)) = Inr (t', sh)" using u rb by (simp add: shrink_at_def)
  have fx: "rot \<Longrightarrow> b \<noteq> 0" "\<not> dn \<Longrightarrow> b \<noteq> 0" "n \<noteq> Tip" "nodes n = nodes m"
  proof -
    obtain lm rm where mm: "m = Nd lm k e b rm" by (cases d) (simp_all add: m_def)
    show "rot \<Longrightarrow> b \<noteq> 0" "\<not> dn \<Longrightarrow> b \<noteq> 0" "n \<noteq> Tip" "nodes n = nodes m"
      using rebalance_facts [OF rb [unfolded mm]] mm by blast+
  qed
  have pa: "put_at ?p n (put_at (?p @ [d]) c t) = put_at ?p n t" by (rule put_at_above)
  have t0: "b \<noteq> 0 \<Longrightarrow> t0 = Some p'" using snoc.prems(4) t by (simp add: parent_def)
  show ?case
  proof (cases dn)
    case True
    then have "t' = put_at ?p n t \<and> sh = False" using u' up_False [OF st] by simp
    then show ?thesis using True x rb fx t0 pa by (subst rebalance_loop.simps) (auto simp: parent_def)
  next
    case False
    then have bn: "b \<noteq> 0" using fx by simp
    have "last_bal ?p s t" using last_bal_up [OF snoc.prems(3)] bn t by simp
    moreover have ord: "ordered (nodes (put_at ?p n t))"
    proof -
      obtain xs ys where "\<And>z. nodes (put_at ?p z t) = xs @ nodes z @ ys" using nodes_at [OF st] by blast
      moreover have "put_at (?p @ [d]) c t = put_at ?p m t" using put_at_append [of ?p "[d]" c t] t by (cases d) (simp_all add: m_def)
      ultimately show ?thesis using snoc.prems(2) fx(4) by simp
    qed
    ultimately obtain t1 where t1: "next_up ?p s (Some p') (put_at ?p n t) = Inr (p', side d', t1)" "t1 = parent p' \<or> bal_of (subtree p' t) = 0"
      using next_up_ok [OF fx(3) st] by blast
    have "rebalance_loop p' (side d') s t1 (put_at ?p n t) = Some (Inr (t', sh))"
      using snoc.IH [OF st ord \<open>last_bal ?p s t\<close> t1(2)] u' False by simp
    then show ?thesis using False x rb fx t0 [OF bn] pa t1(1) by (subst rebalance_loop.simps) (auto simp: parent_def)
  qed
qed

section \<open>The node that is taken out\<close>

lemma is_equal_iff [simp]: "AVLT_IS_EQUAL a b \<longleftrightarrow> a = b"
  by (cases a; cases b) (simp add: AVLT_IS_EQUAL_def)

lemma remove_search_ok:
  assumes "remove_search key u q s = Some (q', s')" "u = subtree q t" "last_bal q s t"
  shows "\<exists>l d b r. subtree q' t = Nd l key d b r \<and> last_bal q' s' t"
  using assms
proof (induction key u q s rule: remove_search.induct)
  case (2 key l k d b r q s)
  have c: "subtree (q @ [L]) t = l" "subtree (q @ [R]) t = r" "bal_of (subtree q t) = b" using 2(4) [symmetric] by (simp_all add: subtree_append)
  let ?s = "if b = 0 then Some q else s"
  have lb: "last_bal (q @ [e]) ?s t" for e using last_bal_step [OF 2(5)] c(3) by simp
  show ?case
  proof (cases "key = k")
    case True
    then show ?thesis using 2(3,5) 2(4) [symmetric] by auto
  next
    case False
    then have ne: "\<not> AVLT_IS_EQUAL key k" by simp
    show ?thesis
    proof (cases "AVLT_IS_LOWER key k")
      case True
      then have "remove_search key l (q @ [L]) ?s = Some (q', s')" using 2(3) False by (simp add: Let_def)
      then show ?thesis using 2(1) [OF ne refl True _ c(1) [symmetric] lb] by blast
    next
      case lower: False
      then have g: "AVLT_IS_GREATER key k" and "remove_search key r (q @ [R]) ?s = Some (q', s')"
        using 2(3) False by (simp_all add: Let_def split: if_splits)
      then show ?thesis using 2(2) [OF ne refl lower g _ c(2) [symmetric] lb] by blast
    qed
  qed
qed simp

lemma remove_search_complete:
  assumes "ordered (nodes u)" "(key, d) \<in> set (nodes u)"
  shows "remove_search key u q s \<noteq> None"
  using assms
proof (induction u arbitrary: q s)
  case (Nd l k d' b r)
  have od: "ordered (nodes l)" "ordered (nodes r)" "key_ok k" "\<forall>y \<in> set (nodes l). AVLT_IS_LOWER (fst y) k \<and> key_ok (fst y)"
    "\<forall>y \<in> set (nodes r). AVLT_IS_LOWER k (fst y) \<and> key_ok (fst y)"
    using Nd.prems(1) ordered_key [of "nodes l"] ordered_key [of "nodes r"] by auto
  consider "key = k" | "key \<noteq> k" "(key, d) \<in> set (nodes l)" | "key \<noteq> k" "(key, d) \<in> set (nodes r)" using Nd.prems(2) by auto
  then show ?case
  proof cases
    case 2
    then show ?thesis using Nd.IH(1) od by (auto simp: Let_def)
  next
    case 3
    then have "AVLT_IS_LOWER k key" "\<not> AVLT_IS_LOWER key k" using od lower_not_sym by force+
    then show ?thesis using 3 Nd.IH(2) od by (auto simp: Let_def greater_lower)
  qed simp
qed simp

lemma max_search_ok:
  assumes "max_search u q s = (q', s')" "u = subtree q t" "u \<noteq> Tip" "last_bal q s t"
  shows "\<exists>p l k d b. q' = q @ p \<and> subtree p u = Nd l k d b Tip \<and> last_bal q' s' t \<and> nodes u = nodes (put_at p l u) @ [(k, d)]"
  using assms
proof (induction u q s rule: max_search.induct)
  case (1 l k d b r q s)
  show ?case
  proof (cases "r = Tip")
    case True
    then show ?thesis using 1(2,5) by (intro exI [of _ "[]"]) auto
  next
    case False
    have c: "subtree (q @ [R]) t = r" "bal_of (subtree q t) = b" using 1(3) [symmetric] by (simp_all add: subtree_append)
    have m: "max_search r (q @ [R]) (if b = 0 then Some q else s) = (q', s')" using 1(2) False by simp
    have lb: "last_bal (q @ [R]) (if b = 0 then Some q else s) t" using last_bal_step [OF 1(5), of R] c(2) by simp
    obtain p l' k' d' b' where "q' = (q @ [R]) @ p" "subtree p r = Nd l' k' d' b' Tip" "last_bal q' s' t"
      "nodes r = nodes (put_at p l' r) @ [(k', d')]"
      using 1(1) [OF False m c(1) [symmetric] False lb] by blast
    then show ?thesis by (intro exI [of _ "R # p"] exI [of _ l'] exI [of _ k'] exI [of _ d'] exI [of _ b']) simp
  qed
qed simp

text \<open>Writing other key and data into a node changes neither heights nor balance factors.\<close>

lemma rekey:
  assumes "subtree q t = Nd l k d b r"
  shows "avl (put_at q (Nd l k' d' b r) t) = avl t" "ht (put_at q (Nd l k' d' b r) t) = ht t"
    "bal_of (subtree p (put_at q (Nd l k' d' b r) t)) = bal_of (subtree p t)"
proof -
  show h: "ht (put_at q (Nd l k' d' b r) t) = ht t" using assms by (induction q t rule: subtree.induct) auto
  show "avl (put_at q (Nd l k' d' b r) t) = avl t" using assms
  proof (induction q t rule: subtree.induct)
    case (2 p l0 k0 d0 b0 r0)
    have "ht (put_at p (Nd l k' d' b r) l0) = ht l0" using 2(2) by (induction p l0 rule: subtree.induct) auto
    then show ?case using 2 by simp
  next
    case (3 p l0 k0 d0 b0 r0)
    have "ht (put_at p (Nd l k' d' b r) r0) = ht r0" using 3(2) by (induction p r0 rule: subtree.induct) auto
    then show ?case using 3 by simp
  qed auto
  show "bal_of (subtree p (put_at q (Nd l k' d' b r) t)) = bal_of (subtree p t)" using assms
  proof (induction q t arbitrary: p rule: subtree.induct)
    case (1 t)
    then show ?case by (cases p; cases "hd p") auto
  next
    case (2 q l0 k0 d0 b0 r0)
    then show ?case by (cases p; cases "hd p") auto
  next
    case (3 q l0 k0 d0 b0 r0)
    then show ?case by (cases p; cases "hd p") auto
  qed simp
qed

lemma replace_inner_ok:
  assumes q: "subtree q t = Nd l k d b r" and s: "last_bal q s t" and x: "replace_inner q s t = (q', s', x)"
    and n: "\<And>y. nodes (put_at q y t) = xs @ nodes y @ ys"
  shows "\<exists>l' k' d' b' r'. subtree q' x = Nd l' k' d' b' r' \<and> (l' = Tip \<or> r' = Tip) \<and> last_bal q' s' x \<and>
    avl x = avl t \<and> ht x = ht t \<and> nodes (put_at q' (splice (subtree q' x)) x) = xs @ nodes l @ nodes r @ ys"
proof (cases "l \<noteq> Tip \<and> r \<noteq> Tip")
  case True
  have ql: "subtree (q @ [L]) t = l" "bal_of (subtree q t) = b" using q by (simp_all add: subtree_append)
  obtain q1 s1 where m: "max_search l (q @ [L]) (if b = 0 then Some q else s) = (q1, s1)" by force
  obtain p l1 k1 d1 b1 where p: "q1 = q @ L # p" "subtree p l = Nd l1 k1 d1 b1 Tip" "last_bal q1 s1 t"
    "nodes l = nodes (put_at p l1 l) @ [(k1, d1)]"
    using max_search_ok [OF m ql(1) [symmetric]] True last_bal_step [OF s, of L] ql(2) by auto
  have sq1: "subtree q1 t = Nd l1 k1 d1 b1 Tip" using p q by (simp add: subtree_append)
  have e: "q' = q1" "s' = s1" "x = put_at q (Nd l k1 d1 b r) t" using x q True m sq1 by (simp_all add: replace_inner_def)
  note rk = rekey [OF q, where k' = k1 and d' = d1]
  have "subtree q x = Nd l k1 d1 b r" using e(3) q by simp
  then have sx: "subtree q' x = Nd l1 k1 d1 b1 Tip" using e p by (simp add: subtree_append)
  have "splice (Nd l1 k1 d1 b1 Tip) = l1" by simp
  moreover have "put_at q' l1 x = put_at q (Nd (put_at p l1 l) k1 d1 b r) t"
    using e p q by (simp add: put_at_append [of q "L # p"])
  ultimately have "nodes (put_at q' (splice (subtree q' x)) x) = xs @ nodes l @ nodes r @ ys" using sx n p(4) by simp
  moreover have "last_bal q' s' x" using p(3) rk(3) e by (cases s1) (simp_all add: last_bal_def)
  ultimately show ?thesis using sx rk(1,2) e by auto
next
  case False
  then have "q' = q" "s' = s" "x = t" using x q by (auto simp: replace_inner_def)
  then show ?thesis using q s n False by auto
qed

lemma splice_ok:
  assumes "avl (Nd l k d b r)" "l = Tip \<or> r = Tip"
  shows "avl (splice (Nd l k d b r))" "ht (Nd l k d b r) = Suc (ht (splice (Nd l k d b r)))"
  using assms by auto

lemma avl_subtree: "avl t \<Longrightarrow> avl (subtree p t)"
  by (induction p t rule: subtree.induct) auto

text \<open>The removal on the root: the recursion gives the tree the loop computes.\<close>

lemma remove_node_ok:
  assumes inv: "avl t" "ordered (nodes t)" and f: "remove_search key t [] None = Some (q0, s0)" and r: "replace_inner q0 s0 t = (q, s, x)"
  shows "\<exists>y sh. avl y \<and> ordered (nodes y) \<and> set (nodes y) = {e \<in> set (nodes t). fst e \<noteq> key} \<and> ht t = ht y + (if sh then 1 else 0) \<and>
    (\<exists>d. (key, d) \<in> set (nodes t)) \<and>
    (if q = [] then y = splice x \<and> sh
     else rebalance_loop (butlast q) (if last q = R then -1 else 1) s (parent (butlast q)) (put_at q (splice (subtree q x)) x) = Some (Inr (y, sh)))"
proof -
  have "last_bal [] None t" by (simp add: last_bal_def)
  then obtain l d b rr where q0: "subtree q0 t = Nd l key d b rr" "last_bal q0 s0 t"
    using remove_search_ok [OF f, of t] by auto
  have "subtree q0 t \<noteq> Tip" using q0(1) by simp
  then obtain xs ys where n: "\<And>y. nodes (put_at q0 y t) = xs @ nodes y @ ys" "nodes t = xs @ nodes (subtree q0 t) @ ys"
    using nodes_at by blast
  obtain l' k' d' b' r' where q: "subtree q x = Nd l' k' d' b' r'" "l' = Tip \<or> r' = Tip" "last_bal q s x" "avl x" "ht x = ht t"
    "nodes (put_at q (splice (subtree q x)) x) = xs @ nodes l @ nodes rr @ ys"
    using replace_inner_ok [OF q0 r n(1)] inv(1) by auto
  let ?c = "splice (subtree q x)"
  have c: "avl ?c" "ht (subtree q x) = Suc (ht ?c)" using splice_ok [of l' k' d' b' r'] q(1,2) avl_subtree [OF q(4), of q] by auto
  have nt: "nodes t = (xs @ nodes l) @ (key, d) # (nodes rr @ ys)" using n(2) q0(1) by simp
  have ord: "ordered (xs @ nodes l @ nodes rr @ ys)" using inv(2) unfolding nt by (auto simp: ordered_def sorted_wrt_append)
  have ne: "fst e \<noteq> key" if "e \<in> set (xs @ nodes l @ nodes rr @ ys)" for e
    using inv(2) that lower_not_sym [of key key] unfolding nt ordered_simps by auto
  then have set: "set (xs @ nodes l @ nodes rr @ ys) = {e \<in> set (nodes t). fst e \<noteq> key}" unfolding nt by auto
  have mem: "\<exists>d. (key, d) \<in> set (nodes t)" unfolding nt by auto
  show ?thesis
  proof (cases "q = []")
    case True
    then have "nodes (splice x) = xs @ nodes l @ nodes rr @ ys" "avl (splice x)" "ht t = Suc (ht (splice x))" using q c by simp_all
    then show ?thesis using True ord set mem by (intro exI [of _ "splice x"] exI [of _ True]) auto
  next
    case False
    then obtain p dd where pq: "q = p @ [dd]" by (cases q rule: rev_cases) auto
    have sq: "subtree q x \<noteq> Tip" using q(1) by simp
    obtain y sh where y: "up q x (Inr (?c, True)) = Inr (y, sh)" "avl y" "ht x = ht y + (if sh then 1 else 0)" "nodes y = nodes (put_at q ?c x)"
      using up_ok [OF q(4) sq c(1), of True] c(2) by auto
    have "rebalance_loop p (side dd) s (parent p) (put_at q ?c x) = Some (Inr (y, sh))"
      using rebalance_loop_up [of p dd x ?c s "parent p" y sh] sq q(3,6) ord y(1) pq by simp
    moreover have "side dd = (if last q = R then -1 else 1)" using pq by (cases dd) simp_all
    ultimately show ?thesis using False pq y q ord set mem by (intro exI [of _ y] exI [of _ sh]) auto
  qed
qed

lemma avlt_remove_ok:
  assumes "tree_inv t"
  shows "\<exists>t' ret. avlt_remove key t = Some (Inr (t', ret)) \<and> tree_inv t' \<and>
    (if \<exists>d. (key, d) \<in> entries t then ret = 0 \<and> entries t' = {e \<in> entries t. fst e \<noteq> key} else ret = - AVLT_NOT_FOUND \<and> t' = t)"
proof -
  have inv: "avl (at_root t)" "ordered (nodes (at_root t))" "at_height t = of_nat (ht (at_root t))" using assms by (auto simp: tree_inv_def)
  show ?thesis
  proof (cases "remove_search key (at_root t) [] None")
    case None
    then have "\<nexists>d. (key, d) \<in> entries t" using remove_search_complete [OF inv(2), of key _ "[]" None] unfolding entries_def by blast
    then show ?thesis using None assms by (simp add: avlt_remove_def)
  next
    case (Some qs)
    obtain q0 s0 where f: "remove_search key (at_root t) [] None = Some (q0, s0)" using Some by (cases qs) auto
    obtain q s x where r: "replace_inner q0 s0 (at_root t) = (q, s, x)" by (cases "replace_inner q0 s0 (at_root t)") auto
    obtain y sh where y: "avl y" "ordered (nodes y)" "set (nodes y) = {e \<in> set (nodes (at_root t)). fst e \<noteq> key}"
      "ht (at_root t) = ht y + (if sh then 1 else 0)" "\<exists>d. (key, d) \<in> set (nodes (at_root t))"
      and lo: "if q = [] then y = splice x \<and> sh
        else rebalance_loop (butlast q) (if last q = R then -1 else 1) s (parent (butlast q)) (put_at q (splice (subtree q x)) x) = Some (Inr (y, sh))"
      using remove_node_ok [OF inv(1,2) f r] by blast
    have "avlt_remove key t = Some (Inr (t\<lparr>at_root := y, at_height := (if y = Tip \<and> q = [] then 0 else if sh then at_height t - 1 else at_height t)\<rparr>, 0))"
      using f r lo by (cases "q = []") (auto simp: avlt_remove_def Let_def)
    then show ?thesis using y inv(3) by (auto simp: tree_inv_def entries_def)
  qed
qed

section \<open>Properties\<close>

text \<open>
  C26: The insertion with its loops, which keeps one position where a rotation may become necessary, computes what the
  textbook recursion computes, which goes down and decides on the way back at every node.
\<close>

theorem avlt_insert_reference:
  assumes "at_root t \<noteq> Tip"
  shows "avlt_insert True key data t = (case ins key data (at_root t) of
      None \<Rightarrow> Inr (t, - AVLT_EXISTS)
    | Some m \<Rightarrow> bind_res m (\<lambda>(x, grown). Inr (t\<lparr>at_root := x, at_height := (if grown then at_height t + 1 else at_height t)\<rparr>, 0)))"
proof -
  have "avlt_insert True key data t = (case insert_search key (at_root t) [] [] of
      None \<Rightarrow> Inr (t, - AVLT_EXISTS)
    | Some (q, s) \<Rightarrow> if \<not> True then Inr (t, - AVLT_NO_MEM)
        else bind_res (insert_fixup key q s (put_at q (Nd Tip key data 0 Tip) (at_root t))) (\<lambda>(x, grown).
               Inr (t\<lparr>at_root := x, at_height := (if grown then at_height t + 1 else at_height t)\<rparr>, 0)))"
    unfolding avlt_insert_def by (rule case_Nd [OF assms])
  then show ?thesis using insert_loops [OF assms, of key data] by (auto simp: loops_ok_def split: option.splits)
qed

definition demo_key :: "u32 \<Rightarrow> avlt_key" where
  "demo_key a = \<lparr>k_start = a, k_end = a + 0xFFF\<rparr>"

definition demo_tree :: avlt_tree where
  "demo_tree = \<lparr>at_root = Nd (Nd Tip (demo_key 0x1000) 1 0 Tip) (demo_key 0x3000) 2 (-1) Tip, at_height = 2\<rparr>"

lemma demo_tree_inv: "tree_inv demo_tree"
  by (simp add: tree_inv_def demo_tree_def demo_key_def ordered_def key_ok_def AVLT_IS_LOWER_def)

lemmas demo_simps = demo_tree_def demo_key_def AVLT_IS_LOWER_def AVLT_IS_GREATER_def

theorem avlt_insert_reference_witness:
  "avlt_insert True (demo_key 0x2000) 3 demo_tree =
     Inr (\<lparr>at_root = Nd (Nd Tip (demo_key 0x1000) 1 0 Tip) (demo_key 0x2000) 3 0 (Nd Tip (demo_key 0x3000) 2 0 Tip), at_height = 2\<rparr>, 0)"
proof -
  have "at_root demo_tree \<noteq> Tip" by (simp add: demo_tree_def)
  from avlt_insert_reference [OF this, of "demo_key 0x2000" 3] show ?thesis by (simp add: demo_simps Let_def)
qed

text \<open>
  Insertion into a well-formed tree always succeeds in returning a well-formed tree: balanced, with the right
  balance factors and height, and with the keys in order. It refuses a key that overlaps a key of the tree, returns
  without a change when there is no memory, and otherwise adds exactly the new entry.
\<close>

theorem avlt_insert_spec:
  assumes "tree_inv t" "key_ok key"
  shows "\<exists>t' ret. avlt_insert mem key data t = Inr (t', ret) \<and> tree_inv t' \<and>
    (if \<exists>x \<in> entries t. \<not> AVLT_IS_LOWER key (fst x) \<and> \<not> AVLT_IS_LOWER (fst x) key then ret = - AVLT_EXISTS \<and> t' = t
     else if \<not> mem then ret = - AVLT_NO_MEM \<and> t' = t
     else ret = 0 \<and> entries t' = insert (key, data) (entries t))"
  using avlt_insert_ok [OF assms, of mem data] unfolding overlaps_entry_def .

theorem avlt_insert_spec_witness:
  "\<exists>t'. avlt_insert True (demo_key 0x2000) 3 demo_tree = Inr (t', 0) \<and> tree_inv t' \<and>
    entries t' = {(demo_key 0x1000, 1), (demo_key 0x2000, 3), (demo_key 0x3000, 2)}"
proof -
  have k: "key_ok (demo_key 0x2000)" by (simp add: key_ok_def demo_key_def)
  have e: "entries demo_tree = {(demo_key 0x1000, 1), (demo_key 0x3000, 2)}" by (simp add: entries_def demo_tree_def)
  from avlt_insert_spec [OF demo_tree_inv k, of True 3] show ?thesis
    unfolding e by (auto simp: demo_key_def AVLT_IS_LOWER_def)
qed

text \<open>
  C10: Removal returns for every well-formed tree, and the panic for a corrupted tree and the assertions are not
  reached: the rebalancing loop, which looks for the parent of a node by the keys from the last balanced node on,
  ends. A key of the tree is taken out with its entry, the others are kept; a key that is not there is reported.
\<close>

theorem avlt_remove_spec:
  assumes "tree_inv t"
  shows "\<exists>t' ret. avlt_remove key t = Some (Inr (t', ret)) \<and> tree_inv t' \<and>
    (if \<exists>d. (key, d) \<in> entries t then ret = 0 \<and> entries t' = {e \<in> entries t. fst e \<noteq> key} else ret = - AVLT_NOT_FOUND \<and> t' = t)"
  by (rule avlt_remove_ok [OF assms])

theorem avlt_remove_spec_witness:
  "\<exists>t'. avlt_remove (demo_key 0x3000) demo_tree = Some (Inr (t', 0)) \<and> tree_inv t' \<and> entries t' = {(demo_key 0x1000, 1)}"
proof -
  have e: "entries demo_tree = {(demo_key 0x1000, 1), (demo_key 0x3000, 2)}" by (simp add: entries_def demo_tree_def)
  from avlt_remove_spec [OF demo_tree_inv, of "demo_key 0x3000"] show ?thesis
    unfolding e by (auto simp: demo_key_def)
qed

text \<open>
  The search finds the entry whose interval contains the interval it is asked for, and fails exactly if there is
  none.
\<close>

theorem avlt_find_spec:
  assumes "tree_inv t" "key_ok key"
  shows "(\<forall>d. avlt_find key t = (0, Some d) \<longleftrightarrow> (\<exists>k. (k, d) \<in> entries t \<and> AVLT_IS_IN key k)) \<and>
    (avlt_find key t = (- AVLT_NOT_FOUND, None) \<longleftrightarrow> (\<forall>x \<in> entries t. \<not> AVLT_IS_IN key (fst x)))"
  using avlt_find_ok [OF assms] by blast

theorem avlt_find_spec_witness:
  "avlt_find \<lparr>k_start = 0x3010, k_end = 0x3010\<rparr> demo_tree = (0, Some 2)"
proof -
  have "key_ok \<lparr>k_start = 0x3010, k_end = 0x3010\<rparr>" by (simp add: key_ok_def)
  moreover have "(demo_key 0x3000, 2) \<in> entries demo_tree" "AVLT_IS_IN \<lparr>k_start = 0x3010, k_end = 0x3010\<rparr> (demo_key 0x3000)"
    by (simp_all add: entries_def demo_tree_def AVLT_IS_IN_def demo_key_def)
  ultimately show ?thesis using avlt_find_spec [OF demo_tree_inv, of "\<lparr>k_start = 0x3010, k_end = 0x3010\<rparr>"] by blast
qed

end
