(* ===== verification/Semaphore.thy ===== *)
theory Semaphore
  imports L4Sys
begin

text \<open>
  The semaphore library: the counter operations of the clients (\<open>semaphore/include\<close>, x86 assembler and
  \<open>archindep.h\<close>) and the semaphore thread that keeps the wait queues (\<open>semaphore/lib/src/semaphore.c\<close>). The wait queue
  entries are a static array; the queues are doubly linked through it, with indices as pointers. The configuration is
  that of the headers: priority-sorted queues, restarted IPC, wakeup by a call.
\<close>

section \<open>Data\<close>

record l4sem_wq =
  wq_thread :: l4_threadid_t
  wq_prio :: int
  wq_next :: "nat option"
  wq_prev :: "nat option"

record l4semaphore =
  sem_counter :: u32
  sem_pending :: nat
  sem_queue :: "nat option"

definition L4SEMAPHORE_INIT :: "u32 \<Rightarrow> l4semaphore" where
  "L4SEMAPHORE_INIT x = \<lparr>sem_counter = x, sem_pending = 0, sem_queue = None\<rparr>"

definition L4SEMAPHORE_MAX_WQ_ENTRIES :: nat where [l4_const]: "L4SEMAPHORE_MAX_WQ_ENTRIES = 256"
definition L4SEMAPHORE_BLOCK :: u32 where [l4_const]: "L4SEMAPHORE_BLOCK = 1"
definition L4SEMAPHORE_RELEASE :: u32 where [l4_const]: "L4SEMAPHORE_RELEASE = 2"
definition L4SEMAPHORE_BLOCKTIMED :: u32 where [l4_const]: "L4SEMAPHORE_BLOCKTIMED = 3"
definition L4SEMAPHORE_RELEASETIMED :: u32 where [l4_const]: "L4SEMAPHORE_RELEASETIMED = 4"

text \<open>
  The memory of the semaphore thread: the array of entries, where the next search for an entry starts, the semaphores
  at their addresses, and the data pointer of every thread under the data key of the semaphore thread. The thread
  library knows the priorities of the threads it manages; it ignores data pointers of other threads.
\<close>

record sem_mem =
  wq_entries :: "nat \<Rightarrow> l4sem_wq"
  next_entry :: nat
  sems :: "l4_addr_t \<Rightarrow> l4semaphore"
  wq_data :: "l4_threadid_t \<Rightarrow> nat option"

type_synonym tcb_prios = "l4_threadid_t \<Rightarrow> int option"

definition l4thread_get_prio :: "tcb_prios \<Rightarrow> l4_threadid_t \<Rightarrow> int" where
  "l4thread_get_prio tcb t = (case tcb t of None \<Rightarrow> - L4_EINVAL | Some p \<Rightarrow> p)"

definition l4thread_data_set :: "tcb_prios \<Rightarrow> l4_threadid_t \<Rightarrow> nat option \<Rightarrow> sem_mem \<Rightarrow> sem_mem" where
  "l4thread_data_set tcb t v s = (if tcb t = None then s else s\<lparr>wq_data := (wq_data s)(t := v)\<rparr>)"

definition l4thread_data_get :: "tcb_prios \<Rightarrow> l4_threadid_t \<Rightarrow> sem_mem \<Rightarrow> nat option" where
  "l4thread_data_get tcb t s = (if tcb t = None then None else wq_data s t)"

section \<open>Wait queue entries\<close>

text \<open>
  The search of \<open>__alloc_entry\<close>: the outer \<open>None\<close> is a search that does not end, the inner one that no entry is free.
\<close>

partial_function (option) alloc_search :: "(nat \<Rightarrow> l4sem_wq) \<Rightarrow> nat \<Rightarrow> nat \<Rightarrow> nat option option" where
  "alloc_search es start i =
     (if l4_is_invalid_id (wq_thread (es i)) then Some (Some i)
      else (let i' = (i + 1) mod L4SEMAPHORE_MAX_WQ_ENTRIES
            in if i' = start then Some None else alloc_search es start i'))"

definition alloc_entry :: "sem_mem \<Rightarrow> (sem_mem \<times> nat) res" where
  "alloc_entry s =
     (case alloc_search (wq_entries s) (next_entry s) (next_entry s) of
        None \<Rightarrow> Inl Diverge
      | Some None \<Rightarrow> Inl Panic
      | Some (Some i) \<Rightarrow> Inr (s\<lparr>next_entry := (i + 1) mod L4SEMAPHORE_MAX_WQ_ENTRIES\<rparr>, i))"

definition set_next :: "nat option \<Rightarrow> nat option \<Rightarrow> (nat \<Rightarrow> l4sem_wq) \<Rightarrow> (nat \<Rightarrow> l4sem_wq)" where
  "set_next i v es = (case i of None \<Rightarrow> es | Some k \<Rightarrow> es(k := (es k)\<lparr>wq_next := v\<rparr>))"

definition set_prev :: "nat option \<Rightarrow> nat option \<Rightarrow> (nat \<Rightarrow> l4sem_wq) \<Rightarrow> (nat \<Rightarrow> l4sem_wq)" where
  "set_prev i v es = (case i of None \<Rightarrow> es | Some k \<Rightarrow> es(k := (es k)\<lparr>wq_prev := v\<rparr>))"

definition free_entry :: "nat \<Rightarrow> (nat \<Rightarrow> l4sem_wq) \<Rightarrow> (nat \<Rightarrow> l4sem_wq)" where
  "free_entry wq es =
     (let es1 = es(wq := (es wq)\<lparr>wq_thread := L4_INVALID_ID\<rparr>);
          es2 = set_next (wq_prev (es1 wq)) (wq_next (es1 wq)) es1
      in set_prev (wq_next (es2 wq)) (wq_prev (es2 wq)) es2)"

section \<open>Wait queues\<close>

text \<open>The position behind which \<open>__enqueue_thread\<close> inserts; \<open>None\<close> if the links form a cycle.\<close>

partial_function (option) enqueue_pos :: "(nat \<Rightarrow> l4sem_wq) \<Rightarrow> int \<Rightarrow> nat \<Rightarrow> nat option" where
  "enqueue_pos es prio wp =
     (case wq_next (es wp) of
        None \<Rightarrow> Some wp
      | Some n \<Rightarrow> if wq_prio (es n) \<ge> prio then enqueue_pos es prio n else Some wp)"

definition set_sem :: "l4_addr_t \<Rightarrow> (l4semaphore \<Rightarrow> l4semaphore) \<Rightarrow> sem_mem \<Rightarrow> sem_mem" where
  "set_sem a f s = s\<lparr>sems := (sems s)(a := f (sems s a))\<rparr>"

definition enqueue_thread :: "tcb_prios \<Rightarrow> l4_addr_t \<Rightarrow> l4_threadid_t \<Rightarrow> sem_mem \<Rightarrow> (sem_mem \<times> nat) res" where
  "enqueue_thread tcb sem t s =
     (let p = l4thread_get_prio tcb t; prio = (if p < 0 then 0 else p) in
      bind_res (alloc_entry s) (\<lambda>(s1, wq).
        let es = (wq_entries s1)(wq := (wq_entries s1 wq)\<lparr>wq_thread := t, wq_prio := prio, wq_next := None\<rparr>) in
        (case sem_queue (sems s1 sem) of
           None \<Rightarrow>
             Inr (set_sem sem (sem_queue_update (\<lambda>_. Some wq))
               (s1\<lparr>wq_entries := es(wq := (es wq)\<lparr>wq_prev := None\<rparr>)\<rparr>), wq)
         | Some q \<Rightarrow>
             if wq_prio (es q) < prio
             then Inr (set_sem sem (sem_queue_update (\<lambda>_. Some wq))
                    (s1\<lparr>wq_entries := set_prev (Some q) (Some wq) (es(wq := (es wq)\<lparr>wq_next := Some q, wq_prev := None\<rparr>))\<rparr>), wq)
             else (case enqueue_pos es prio q of
                     None \<Rightarrow> Inl Diverge
                   | Some wp \<Rightarrow>
                       (let nx = wq_next (es wp);
                            es1 = es(wq := (es wq)\<lparr>wq_prev := Some wp, wq_next := nx\<rparr>)
                        in Inr (s1\<lparr>wq_entries := set_next (Some wp) (Some wq) (set_prev nx (Some wq) es1)\<rparr>, wq))))))"

section \<open>The semaphore thread\<close>

text \<open>
  \<open>__wakeup_thread\<close>: whether the message reaches a thread depends on the thread, so it is an argument, \<open>deliver t
  nowait\<close>. The threads reached are recorded.
\<close>

type_synonym deliver = "l4_threadid_t \<Rightarrow> bool \<Rightarrow> bool"

definition wakeup_thread :: "deliver \<Rightarrow> l4_threadid_t \<Rightarrow> bool \<Rightarrow> l4_threadid_t list \<times> bool" where
  "wakeup_thread deliver t nowait = (if deliver t nowait then ([t], True) else ([], False))"

text \<open>The loop of the release request; \<open>None\<close> if it does not end.\<close>

partial_function (option) release_loop ::
    "tcb_prios \<Rightarrow> deliver \<Rightarrow> l4_addr_t \<Rightarrow> sem_mem \<Rightarrow> (sem_mem \<times> l4_threadid_t list) option" where
  "release_loop tcb deliver sem s =
     (case sem_queue (sems s sem) of
        None \<Rightarrow> Some (s, [])
      | Some wp \<Rightarrow>
          (let wakeup = wq_thread (wq_entries s wp);
               s1 = set_sem sem (sem_queue_update (\<lambda>_. wq_next (wq_entries s wp))) s;
               s2 = s1\<lparr>wq_entries := free_entry wp (wq_entries s1)\<rparr>
           in if \<not> l4_is_invalid_id wakeup
              then (if l4thread_data_get tcb wakeup s2 \<noteq> None
                    then (let s3 = l4thread_data_set tcb wakeup None s2; w = wakeup_thread deliver wakeup True
                          in if snd w then Some (s3, fst w) else release_loop tcb deliver sem s3)
                    else Some (s2, fst (wakeup_thread deliver wakeup False)))
              else release_loop tcb deliver sem s2))"

definition handle_block :: "tcb_prios \<Rightarrow> deliver \<Rightarrow> l4_addr_t \<Rightarrow> l4_threadid_t \<Rightarrow> sem_mem \<Rightarrow> (sem_mem \<times> l4_threadid_t list) res" where
  "handle_block tcb deliver sem src s =
     (if sem_pending (sems s sem) > 0
      then Inr (set_sem sem (sem_pending_update (\<lambda>p. p - 1)) s, fst (wakeup_thread deliver src False))
      else bind_res (enqueue_thread tcb sem src s) (\<lambda>(s1, _). Inr (s1, [])))"

definition handle_blocktimed :: "tcb_prios \<Rightarrow> deliver \<Rightarrow> l4_addr_t \<Rightarrow> l4_threadid_t \<Rightarrow> sem_mem \<Rightarrow> (sem_mem \<times> l4_threadid_t list) res" where
  "handle_blocktimed tcb deliver sem src s =
     (if sem_pending (sems s sem) > 0
      then (let w = wakeup_thread deliver src True
            in if snd w then Inr (set_sem sem (sem_pending_update (\<lambda>p. p - 1)) s, fst w) else Inr (s, fst w))
      else bind_res (enqueue_thread tcb sem src s) (\<lambda>(s1, wp). Inr (l4thread_data_set tcb src (Some wp) s1, [])))"

definition handle_release :: "tcb_prios \<Rightarrow> deliver \<Rightarrow> l4_addr_t \<Rightarrow> sem_mem \<Rightarrow> (sem_mem \<times> l4_threadid_t list) res" where
  "handle_release tcb deliver sem s =
     (if sem_queue (sems s sem) = None then Inr (set_sem sem (sem_pending_update (\<lambda>p. p + 1)) s, [])
      else (case release_loop tcb deliver sem s of None \<Rightarrow> Inl Diverge | Some r \<Rightarrow> Inr r))"

definition handle_releasetimed :: "tcb_prios \<Rightarrow> l4_addr_t \<Rightarrow> l4_threadid_t \<Rightarrow> sem_mem \<Rightarrow> sem_mem" where
  "handle_releasetimed tcb sem src s =
     (case l4thread_data_get tcb src s of
        None \<Rightarrow> s
      | Some wp \<Rightarrow>
          (let s1 = (if wq_prev (wq_entries s wp) = None
                     then set_sem sem (sem_queue_update (\<lambda>_. wq_next (wq_entries s wp))) s else s)
           in l4thread_data_set tcb src None (s1\<lparr>wq_entries := free_entry wp (wq_entries s1)\<rparr>)))"

text \<open>One turn of the loop of \<open>l4semaphore_thread\<close>: a message \<open>(dw0, dw1)\<close> of the thread \<open>src\<close> was received.\<close>

definition l4semaphore_thread ::
    "tcb_prios \<Rightarrow> deliver \<Rightarrow> l4_threadid_t \<Rightarrow> l4_threadid_t \<Rightarrow> u32 \<Rightarrow> l4_addr_t \<Rightarrow> sem_mem \<Rightarrow> (sem_mem \<times> l4_threadid_t list) res" where
  "l4semaphore_thread tcb deliver me src dw0 sem s =
     (if \<not> l4_task_equal me src then Inr (s, [])
      else if sem = 0 then Inr (s, [])
      else if dw0 = L4SEMAPHORE_BLOCK then handle_block tcb deliver sem src s
      else if dw0 = L4SEMAPHORE_BLOCKTIMED then handle_blocktimed tcb deliver sem src s
      else if dw0 = L4SEMAPHORE_RELEASE then handle_release tcb deliver sem s
      else if dw0 = L4SEMAPHORE_RELEASETIMED then Inr (handle_releasetimed tcb sem src s, [])
      else Inr (s, []))"

text \<open>The set-up of the entries when the semaphore thread starts.\<close>

definition setup_entries :: "sem_mem \<Rightarrow> sem_mem" where
  "setup_entries s = s\<lparr>wq_entries := (\<lambda>i. if i < L4SEMAPHORE_MAX_WQ_ENTRIES
     then (wq_entries s i)\<lparr>wq_thread := L4_INVALID_ID\<rparr> else wq_entries s i)\<rparr>"

section \<open>The counter operations of the clients\<close>

text \<open>
  \<open>decl\<close> and \<open>incl\<close> of the assembler code are one instruction each, followed by a signed conditional jump on the exact
  result (\<open>jge\<close>, \<open>jg\<close>); the flag says whether the semaphore thread has to be called. \<open>l4semaphore_try_down\<close> and the generic
  loops retry until their exchange succeeds, which takes effect as one step.
\<close>

definition down_counter :: "l4semaphore \<Rightarrow> l4semaphore \<times> bool" where
  "down_counter m = (m\<lparr>sem_counter := sem_counter m - 1\<rparr>, sint (sem_counter m) - 1 < 0)"

definition up_counter :: "l4semaphore \<Rightarrow> l4semaphore \<times> bool" where
  "up_counter m = (m\<lparr>sem_counter := sem_counter m + 1\<rparr>, sint (sem_counter m) + 1 \<le> 0)"

definition l4semaphore_try_down :: "l4semaphore \<Rightarrow> l4semaphore \<times> bool" where
  "l4semaphore_try_down m = (if sint (sem_counter m) \<le> 0 then (m, False) else (m\<lparr>sem_counter := sem_counter m - 1\<rparr>, True))"

section \<open>Linked queues\<close>

text \<open>A segment of a doubly linked queue from the pointer \<open>q\<close>, entered from \<open>p\<close>, to the pointer \<open>r\<close>, left from \<open>rp\<close>.\<close>

fun dseg :: "(nat \<Rightarrow> l4sem_wq) \<Rightarrow> nat option \<Rightarrow> nat option \<Rightarrow> nat list \<Rightarrow> nat option \<Rightarrow> nat option \<Rightarrow> bool" where
  "dseg es q p [] r rp \<longleftrightarrow> q = r \<and> p = rp"
| "dseg es q p (i # l) r rp \<longleftrightarrow> q = Some i \<and> wq_prev (es i) = p \<and> dseg es (wq_next (es i)) (Some i) l r rp"

definition linked :: "(nat \<Rightarrow> l4sem_wq) \<Rightarrow> nat option \<Rightarrow> nat list \<Rightarrow> bool" where
  "linked es q l \<longleftrightarrow> distinct l \<and> (\<exists>rp. dseg es q None l None rp)"

lemma dseg_append: "dseg es q p (xs @ ys) r rp \<longleftrightarrow> (\<exists>m mp. dseg es q p xs m mp \<and> dseg es m mp ys r rp)"
  by (induction xs arbitrary: q p) auto

lemma dseg_cong:
  "(\<And>i. i \<in> set l \<Longrightarrow> wq_next (es i) = wq_next (es' i) \<and> wq_prev (es i) = wq_prev (es' i)) \<Longrightarrow> dseg es q p l r rp = dseg es' q p l r rp"
  by (induction l arbitrary: q p) auto

lemma linked_cong:
  "(\<And>i. i \<in> set l \<Longrightarrow> wq_next (es i) = wq_next (es' i) \<and> wq_prev (es i) = wq_prev (es' i)) \<Longrightarrow> linked es q l = linked es' q l"
  unfolding linked_def using dseg_cong [of l es es'] by auto

lemma dseg_ends:
  "dseg es q p l r rp \<Longrightarrow> l \<noteq> [] \<Longrightarrow> q = Some (hd l) \<and> rp = Some (last l)"
proof (induction l arbitrary: q p)
  case (Cons i l)
  then show ?case by (cases "l = []") auto
qed simp

lemma dseg_set_prev:
  assumes "dseg es m mp l None rp" "distinct l"
  shows "\<exists>rp'. dseg (set_prev m v es) m v l None rp'"
proof (cases l)
  case (Cons i l')
  then have "dseg (set_prev m v es) (wq_next (es i)) (Some i) l' None rp"
  proof -
    have "dseg es (wq_next (es i)) (Some i) l' None rp = dseg (set_prev m v es) (wq_next (es i)) (Some i) l' None rp"
      by (rule dseg_cong) (use assms Cons in \<open>auto simp: set_prev_def\<close>)
    then show ?thesis using assms(1) Cons by (metis dseg.simps(2))
  qed
  then show ?thesis using Cons assms by (auto simp: set_prev_def)
qed (use assms in \<open>auto simp: set_prev_def\<close>)

lemma dseg_set_next:
  assumes "dseg es q p l m mp" "distinct l" "l \<noteq> []"
  shows "dseg (set_next mp v es) q p l v mp"
  using assms
proof (induction l arbitrary: q p)
  case (Cons i l)
  have mp: "mp = Some (last (i # l))" using dseg_ends Cons.prems by blast
  show ?case
  proof (cases "l = []")
    case True
    then show ?thesis using Cons.prems mp by (auto simp: set_next_def)
  next
    case False
    then have "dseg (set_next mp v es) (wq_next (es i)) (Some i) l v mp" using Cons by auto
    moreover have "i \<noteq> last l" using Cons.prems False by auto
    then have "set_next mp v es i = es i" using mp False by (simp add: set_next_def)
    ultimately show ?thesis using Cons.prems by simp
  qed
qed simp

lemma set_next_prev_fields:
  "wq_thread (set_next p v es i) = wq_thread (es i)" "wq_prio (set_next p v es i) = wq_prio (es i)"
  "wq_thread (set_prev p v es i) = wq_thread (es i)" "wq_prio (set_prev p v es i) = wq_prio (es i)"
  "wq_prev (set_next p v es i) = wq_prev (es i)" "wq_next (set_prev p v es i) = wq_next (es i)"
  "p \<noteq> Some i \<Longrightarrow> set_next p v es i = es i" "p \<noteq> Some i \<Longrightarrow> set_prev p v es i = es i"
  by (auto simp: set_next_def set_prev_def split: option.splits)

text \<open>Inserting the entry \<open>w\<close> between two parts, and taking it out.\<close>

lemma linked_insert:
  assumes l: "linked es q (xs @ ys)" and w: "w \<notin> set (xs @ ys)" and x: "xs \<noteq> []" "wp = last xs" "nx = wq_next (es wp)"
    and es': "es' = set_next (Some wp) (Some w) (set_prev nx (Some w) (es(w := (es w)\<lparr>wq_thread := t, wq_prio := k, wq_prev := Some wp, wq_next := nx\<rparr>)))"
  shows "linked es' q (xs @ w # ys)"
proof -
  obtain rp m mp where d: "distinct (xs @ ys)" "dseg es q None xs m mp" "dseg es m mp ys None rp" using l by (auto simp: linked_def dseg_append)
  have mp: "mp = Some wp" using dseg_ends [OF d(2) x(1)] x(2) by simp
  have m: "m = nx" using d(2) x
  proof -
    have "dseg es q None (butlast xs @ [wp]) m mp" using d(2) x by simp
    then show ?thesis unfolding dseg_append using x(3) by auto
  qed
  let ?e = "es(w := (es w)\<lparr>wq_thread := t, wq_prio := k, wq_prev := Some wp, wq_next := nx\<rparr>)"
  have wn: "wp \<noteq> w" "wp \<in> set xs" using x w by auto
  have 1: "dseg (set_next mp (Some w) es) q None xs (Some w) mp" using dseg_set_next [OF d(2) _ x(1)] d(1) by simp
  have nxs: "nx \<noteq> Some i" if "i \<in> set xs" for i
    using dseg_ends [OF d(3)] d(1,3) that m by (cases ys) auto
  have "dseg es' q None xs (Some w) mp = dseg (set_next mp (Some w) es) q None xs (Some w) mp"
  proof (rule dseg_cong)
    fix i assume i: "i \<in> set xs"
    then show "wq_next (es' i) = wq_next (set_next mp (Some w) es i) \<and> wq_prev (es' i) = wq_prev (set_next mp (Some w) es i)"
      using w nxs [OF i] mp by (auto simp: es' set_next_def set_prev_def split: option.splits)
  qed
  then have a: "dseg es' q None xs (Some w) mp" using 1 by simp
  obtain rp' where b1: "dseg (set_prev m (Some w) es) m (Some w) ys None rp'" using dseg_set_prev [OF d(3)] d(1) by auto
  have "dseg es' m (Some w) ys None rp' = dseg (set_prev m (Some w) es) m (Some w) ys None rp'"
    by (rule dseg_cong) (use w wn d(1) m in \<open>auto simp: es' set_next_def set_prev_def split: option.splits\<close>)
  then have b: "dseg es' m (Some w) ys None rp'" using b1 by simp
  have "nx \<noteq> Some w" using dseg_ends [OF d(3)] d(3) w m by (cases ys) auto
  then have "wq_prev (es' w) = Some wp" "wq_next (es' w) = nx"
    using wn by (auto simp: es' set_next_prev_fields)
  then have "dseg es' q None (xs @ w # ys) None rp'" using a b m mp by (auto simp: dseg_append)
  then show ?thesis using d(1) w by (auto simp: linked_def)
qed

lemma linked_push:
  assumes l: "linked es q ys" and w: "w \<notin> set ys"
    and es': "es' = set_prev q (Some w) (es(w := (es w)\<lparr>wq_thread := t, wq_prio := k, wq_next := q, wq_prev := None\<rparr>))"
  shows "linked es' (Some w) (w # ys)"
proof -
  obtain rp where d: "distinct ys" "dseg es q None ys None rp" using l by (auto simp: linked_def)
  obtain rp' where b: "dseg (set_prev q (Some w) es) q (Some w) ys None rp'" using dseg_set_prev [OF d(2,1)] by blast
  have "q \<noteq> Some w" using dseg_ends [OF d(2)] d(2) w by (cases ys) auto
  then have "es' w = (es w)\<lparr>wq_thread := t, wq_prio := k, wq_next := q, wq_prev := None\<rparr>" by (simp add: es' set_next_prev_fields)
  moreover have "dseg es' q (Some w) ys None rp' = dseg (set_prev q (Some w) es) q (Some w) ys None rp'"
    by (rule dseg_cong) (use w in \<open>auto simp: es' set_prev_def split: option.splits\<close>)
  ultimately show ?thesis using b d(1) w by (auto simp: linked_def)
qed

lemma linked_free:
  assumes l: "linked es q (xs @ w # ys)"
  shows "linked (free_entry w es) (if xs = [] then wq_next (es w) else q) (xs @ ys)"
proof -
  obtain rp mp where d: "distinct (xs @ w # ys)" "dseg es q None xs (Some w) mp" "wq_prev (es w) = mp"
    "dseg es (wq_next (es w)) (Some w) ys None rp" using l by (auto simp: linked_def dseg_append)
  let ?n = "wq_next (es w)" and ?e = "es(w := (es w)\<lparr>wq_thread := L4_INVALID_ID\<rparr>)"
  have mpw: "mp \<noteq> Some w" using dseg_ends [OF d(2)] d(1,2) by (cases "xs = []") auto
  have e: "free_entry w es = set_prev ?n mp (set_next mp ?n ?e)"
    using mpw d(3) by (simp add: free_entry_def Let_def set_next_prev_fields)
  obtain rp' where b: "dseg (set_prev ?n mp es) ?n mp ys None rp'" using dseg_set_prev [OF d(4)] d(1) by auto
  have mpx: "mp = Some i \<Longrightarrow> i \<in> set xs" for i using dseg_ends [OF d(2)] d(2) by (cases "xs = []") auto
  have ny: "?n = Some i \<Longrightarrow> i \<in> set ys" for i using dseg_ends [OF d(4)] d(4) by (cases "ys = []") auto
  have "dseg (free_entry w es) ?n mp ys None rp' = dseg (set_prev ?n mp es) ?n mp ys None rp'"
  proof (rule dseg_cong)
    fix i assume "i \<in> set ys"
    then have "mp \<noteq> Some i" "i \<noteq> w" using mpx d(1) by auto
    then show "wq_next (free_entry w es i) = wq_next (set_prev ?n mp es i) \<and> wq_prev (free_entry w es i) = wq_prev (set_prev ?n mp es i)"
      unfolding e by (auto simp: set_next_def set_prev_def split: option.splits)
  qed
  then have b': "dseg (free_entry w es) ?n mp ys None rp'" using b by simp
  have "dseg (free_entry w es) (if xs = [] then ?n else q) None xs ?n mp"
  proof (cases "xs = []")
    case False
    have "dseg (set_next mp ?n es) q None xs ?n mp" using dseg_set_next [OF d(2) _ False] d(1) by simp
    moreover have "dseg (free_entry w es) q None xs ?n mp = dseg (set_next mp ?n es) q None xs ?n mp"
    proof (rule dseg_cong)
      fix i assume "i \<in> set xs"
      then have "?n \<noteq> Some i" "i \<noteq> w" using ny d(1) by auto
      then show "wq_next (free_entry w es i) = wq_next (set_next mp ?n es i) \<and> wq_prev (free_entry w es i) = wq_prev (set_next mp ?n es i)"
        unfolding e by (auto simp: set_next_def set_prev_def split: option.splits)
    qed
    ultimately show ?thesis using False by simp
  qed (use d(2) in simp)
  then have "dseg (free_entry w es) (if xs = [] then ?n else q) None (xs @ ys) None rp'" unfolding dseg_append using b' by blast
  then show ?thesis using d(1) by (auto simp: linked_def)
qed

lemma free_entry_fields:
  "wq_thread (free_entry w es i) = (if i = w then L4_INVALID_ID else wq_thread (es i))" "wq_prio (free_entry w es i) = wq_prio (es i)"
  by (auto simp: free_entry_def Let_def set_next_prev_fields)

section \<open>Well-formed queues\<close>

text \<open>\<open>Q a\<close> lists the entries of the queue of the semaphore at \<open>a\<close>; the entries of the array are free or in one queue.\<close>

definition sem_wf :: "sem_mem \<Rightarrow> (l4_addr_t \<Rightarrow> nat list) \<Rightarrow> bool" where
  "sem_wf s Q \<longleftrightarrow> next_entry s < L4SEMAPHORE_MAX_WQ_ENTRIES \<and>
     (\<forall>a. linked (wq_entries s) (sem_queue (sems s a)) (Q a)) \<and>
     (\<forall>a b. a \<noteq> b \<longrightarrow> set (Q a) \<inter> set (Q b) = {}) \<and>
     (\<forall>i. (\<exists>a. i \<in> set (Q a)) \<longleftrightarrow> i < L4SEMAPHORE_MAX_WQ_ENTRIES \<and> \<not> l4_is_invalid_id (wq_thread (wq_entries s i)))"

lemma sem_wfD:
  assumes "sem_wf s Q"
  shows "next_entry s < 256" "linked (wq_entries s) (sem_queue (sems s a)) (Q a)" "a \<noteq> b \<Longrightarrow> set (Q a) \<inter> set (Q b) = {}"
    "i \<in> set (Q a) \<Longrightarrow> i < 256 \<and> \<not> l4_is_invalid_id (wq_thread (wq_entries s i))" "distinct (Q a)"
  using assms by (auto simp: sem_wf_def linked_def L4SEMAPHORE_MAX_WQ_ENTRIES_def)

lemma linked_head: "linked es q l \<Longrightarrow> q = (case l of [] \<Rightarrow> None | i # _ \<Rightarrow> Some i)"
  by (cases l) (auto simp: linked_def)

lemma queue_empty_iff: "sem_wf s Q \<Longrightarrow> sem_queue (sems s a) = None \<longleftrightarrow> Q a = []"
  using linked_head [OF sem_wfD(2)] by (auto split: list.splits)

text \<open>The search for an entry succeeds if one is free.\<close>

lemma alloc_search_from:
  assumes "start < 256" "k \<le> j" "j < 256" "l4_is_invalid_id (wq_thread (es ((start + j) mod 256)))"
  shows "\<exists>x < 256. alloc_search es start ((start + k) mod 256) = Some (Some x) \<and> l4_is_invalid_id (wq_thread (es x))"
  using assms(2)
proof (induction "j - k" arbitrary: k)
  case 0
  then show ?case using assms(4) by (subst alloc_search.simps) (auto intro!: exI [of _ "(start + j) mod 256"])
next
  case (Suc n)
  then have k: "Suc k \<le> j" "n = j - Suc k" by auto
  obtain x where x: "x < 256" "alloc_search es start ((start + Suc k) mod 256) = Some (Some x)" "l4_is_invalid_id (wq_thread (es x))"
    using Suc(1) [OF k(2) k(1)] by blast
  have "((start + k) mod 256 + 1) mod 256 = (start + Suc k) mod 256" by (simp add: mod_Suc_eq)
  moreover have "(start + Suc k) mod 256 \<noteq> start" using assms(1,3) k(1) by (cases "start + Suc k < 256") (simp_all add: le_mod_geq mod_less)
  ultimately show ?case using x
    by (subst alloc_search.simps) (auto simp: Let_def L4SEMAPHORE_MAX_WQ_ENTRIES_def)
qed

lemma alloc_entry_ok:
  assumes "next_entry s < 256" "i < 256" "l4_is_invalid_id (wq_thread (wq_entries s i))"
  shows "\<exists>w < 256. alloc_entry s = Inr (s\<lparr>next_entry := (w + 1) mod 256\<rparr>, w) \<and> l4_is_invalid_id (wq_thread (wq_entries s w))"
proof -
  let ?j = "(i + 256 - next_entry s) mod 256"
  have j: "(next_entry s + ?j) mod 256 = i" using assms(1,2) by (cases "next_entry s \<le> i") (simp_all add: le_mod_geq)
  have "?j < 256" by simp
  from alloc_search_from [OF assms(1) _ this, of 0 "wq_entries s"] j assms(1,3)
  obtain x where "x < 256" "alloc_search (wq_entries s) (next_entry s) (next_entry s) = Some (Some x)" "l4_is_invalid_id (wq_thread (wq_entries s x))"
    by auto
  then show ?thesis by (auto simp: alloc_entry_def L4SEMAPHORE_MAX_WQ_ENTRIES_def)
qed

lemma enqueue_pos_ok:
  "dseg es q p (x # xs) None rp \<Longrightarrow>
   enqueue_pos es k x = Some (last (x # takeWhile (\<lambda>i. k \<le> wq_prio (es i)) xs))"
proof (induction xs arbitrary: q p x)
  case Nil
  then show ?case by (subst enqueue_pos.simps) simp
next
  case (Cons y ys)
  then have n: "wq_next (es x) = Some y" and d: "dseg es (Some y) (Some x) (y # ys) None rp" by auto
  show ?case using Cons.IH [OF d] n by (subst enqueue_pos.simps) auto
qed

definition wq_prio_of :: "tcb_prios \<Rightarrow> l4_threadid_t \<Rightarrow> int" where
  "wq_prio_of tcb t = (if l4thread_get_prio tcb t < 0 then 0 else l4thread_get_prio tcb t)"

text \<open>The queue with the entry \<open>w\<close> behind all entries of at least its priority.\<close>

definition queue_insert :: "(nat \<Rightarrow> int) \<Rightarrow> int \<Rightarrow> nat \<Rightarrow> nat list \<Rightarrow> nat list" where
  "queue_insert pr k w l = takeWhile (\<lambda>i. k \<le> pr i) l @ w # dropWhile (\<lambda>i. k \<le> pr i) l"

lemma set_queue_insert [simp]: "set (queue_insert pr k w l) = insert w (set l)"
proof -
  have "set (takeWhile (\<lambda>i. k \<le> pr i) l) \<union> set (dropWhile (\<lambda>i. k \<le> pr i) l) = set l"
    by (metis set_append takeWhile_dropWhile_id)
  then show ?thesis by (auto simp: queue_insert_def)
qed

text \<open>What an enqueued thread changes.\<close>

definition enqueued :: "tcb_prios \<Rightarrow> l4_addr_t \<Rightarrow> l4_threadid_t \<Rightarrow> nat \<Rightarrow> sem_mem \<Rightarrow> sem_mem \<Rightarrow> bool" where
  "enqueued tcb a t w s s' \<longleftrightarrow> wq_data s' = wq_data s \<and>
     (\<forall>b. sem_counter (sems s' b) = sem_counter (sems s b) \<and> sem_pending (sems s' b) = sem_pending (sems s b)) \<and>
     (\<forall>i. wq_thread (wq_entries s' i) = (if i = w then t else wq_thread (wq_entries s i)) \<and>
          wq_prio (wq_entries s' i) = (if i = w then wq_prio_of tcb t else wq_prio (wq_entries s i)))"

lemma sem_wf_update:
  assumes wf: "sem_wf s Q" and n: "next_entry s' < 256" and l: "linked (wq_entries s') (sem_queue (sems s' a)) l"
    and o: "\<And>b. b \<noteq> a \<Longrightarrow> sems s' b = sems s b"
    and f: "\<And>b i. b \<noteq> a \<Longrightarrow> i \<in> set (Q b) \<Longrightarrow> wq_entries s' i = wq_entries s i"
    and d: "\<And>b. b \<noteq> a \<Longrightarrow> set l \<inter> set (Q b) = {}"
    and i: "\<And>i. i \<in> set l \<or> (\<exists>b. b \<noteq> a \<and> i \<in> set (Q b)) \<longleftrightarrow> i < 256 \<and> \<not> l4_is_invalid_id (wq_thread (wq_entries s' i))"
  shows "sem_wf s' (Q(a := l))"
proof -
  have "linked (wq_entries s') (sem_queue (sems s' b)) (Q b)" if "b \<noteq> a" for b
    using linked_cong [of "Q b" "wq_entries s'" "wq_entries s"] f [OF that] o [OF that] sem_wfD(2) [OF wf, of b] by simp
  moreover have "set ((Q(a := l)) b) \<inter> set ((Q(a := l)) c) = {}" if "b \<noteq> c" for b c
    using that d [of b] d [of c] sem_wfD(3) [OF wf that] by auto
  moreover have "(\<exists>b. i \<in> set ((Q(a := l)) b)) \<longleftrightarrow> i \<in> set l \<or> (\<exists>b. b \<noteq> a \<and> i \<in> set (Q b))" for i by (auto split: if_splits)
  ultimately show ?thesis unfolding sem_wf_def L4SEMAPHORE_MAX_WQ_ENTRIES_def using n l i by (auto simp del: fun_upd_apply) (simp add: fun_upd_def)
qed

lemma set_sem_simps [simp]:
  "wq_entries (set_sem a f s) = wq_entries s" "next_entry (set_sem a f s) = next_entry s" "wq_data (set_sem a f s) = wq_data s"
  "sems (set_sem a f s) = (sems s)(a := f (sems s a))"
  by (simp_all add: set_sem_def)

lemma takeWhile_last:
  "P x \<Longrightarrow> takeWhile P (x # xs) \<noteq> [] \<and> last (takeWhile P (x # xs)) = last (x # takeWhile P xs)"
  by simp

text \<open>The links around a new entry in the middle of a queue.\<close>

lemma enqueue_links:
  assumes l: "linked es (Some x) (x # xs)" and w: "w \<notin> set (x # xs)" and k: "k \<le> wq_prio (es x)"
    and wp: "enqueue_pos es0 k x = Some wp" and es0: "es0 = es(w := (es w)\<lparr>wq_thread := t, wq_prio := k, wq_next := None\<rparr>)"
    and es': "es' = set_next (Some wp) (Some w) (set_prev (wq_next (es0 wp)) (Some w)
                (es0(w := (es0 w)\<lparr>wq_prev := Some wp, wq_next := wq_next (es0 wp)\<rparr>)))"
  shows "linked es' (Some x) (queue_insert (\<lambda>i. wq_prio (es i)) k w (x # xs))"
    "wp \<in> set (x # xs) \<and> (\<forall>n. wq_next (es0 wp) = Some n \<longrightarrow> n \<in> set (x # xs))"
proof -
  let ?P = "\<lambda>i. k \<le> wq_prio (es i)"
  obtain rp where d: "dseg es (Some x) None (x # xs) None rp" using l by (auto simp: linked_def)
  have "dseg es0 (Some x) None (x # xs) None rp = dseg es (Some x) None (x # xs) None rp"
    by (rule dseg_cong) (use w in \<open>auto simp: es0\<close>)
  then have d0: "dseg es0 (Some x) None (x # xs) None rp" using d by blast
  have "takeWhile (\<lambda>i. k \<le> wq_prio (es0 i)) xs = takeWhile ?P xs"
    by (rule takeWhile_cong) (use w in \<open>auto simp: es0\<close>)
  then have wpe: "wp = last (takeWhile ?P (x # xs))" using enqueue_pos_ok [OF d0, of k] wp takeWhile_last [of ?P x xs] k by simp
  have ne: "takeWhile ?P (x # xs) \<noteq> []" using k by simp
  have wpm: "wp \<in> set (x # xs)" using wpe ne by (metis last_in_set set_takeWhileD)
  then have ww: "wp \<noteq> w" using w by auto
  have nx: "wq_next (es0 wp) = wq_next (es wp)" using ww by (simp add: es0)
  have "linked es (Some x) (takeWhile ?P (x # xs) @ dropWhile ?P (x # xs))" using l by simp
  from linked_insert [OF this _ ne wpe refl, where w = w and es' = es' and t = t and k = k] w
  show "linked es' (Some x) (queue_insert (\<lambda>i. wq_prio (es i)) k w (x # xs))"
    unfolding queue_insert_def nx es' by (simp add: es0 nx del: takeWhile.simps dropWhile.simps)
  have "n \<in> set (x # xs)" if "wq_next (es wp) = Some n" for n
  proof -
    obtain ys zs where s: "x # xs = ys @ wp # zs" using wpm by (meson split_list)
    then obtain m mp where "dseg es m mp (wp # zs) None rp" using d unfolding s dseg_append by blast
    then have "dseg es (Some n) (Some wp) zs None rp" using that by auto
    then show ?thesis unfolding s by (cases zs) auto
  qed
  then show "wp \<in> set (x # xs) \<and> (\<forall>n. wq_next (es0 wp) = Some n \<longrightarrow> n \<in> set (x # xs))" using wpm nx by auto
qed

lemma enqueue_ok:
  assumes wf: "sem_wf s Q" and t: "\<not> l4_is_invalid_id t" and i: "i < 256" "l4_is_invalid_id (wq_thread (wq_entries s i))"
  shows "\<exists>s' w. enqueue_thread tcb a t s = Inr (s', w) \<and> w < 256 \<and> l4_is_invalid_id (wq_thread (wq_entries s w)) \<and> enqueued tcb a t w s s' \<and>
    sem_wf s' (Q(a := queue_insert (\<lambda>i. wq_prio (wq_entries s i)) (wq_prio_of tcb t) w (Q a)))"
proof -
  obtain w where w: "w < 256" "alloc_entry s = Inr (s\<lparr>next_entry := (w + 1) mod 256\<rparr>, w)" "l4_is_invalid_id (wq_thread (wq_entries s w))"
    using alloc_entry_ok [OF sem_wfD(1) [OF wf] i] by blast
  let ?es = "wq_entries s" and ?k = "wq_prio_of tcb t" and ?s1 = "s\<lparr>next_entry := (w + 1) mod 256\<rparr>"
  let ?l = "queue_insert (\<lambda>i. wq_prio (?es i)) ?k w (Q a)"
  define es0 where "es0 = ?es(w := (?es w)\<lparr>wq_thread := t, wq_prio := ?k, wq_next := None\<rparr>)"
  have wq: "w \<notin> set (Q b)" for b using sem_wfD(4) [OF wf] w(3) by blast
  have dis: "set ?l \<inter> set (Q b) = {}" if "b \<noteq> a" for b using wq [of b] sem_wfD(3) [OF wf that] by auto
  have mem: "j \<in> set ?l \<or> (\<exists>b. b \<noteq> a \<and> j \<in> set (Q b)) \<longleftrightarrow> j < 256 \<and> \<not> l4_is_invalid_id (wq_thread (es' j))"
    if "\<And>j. wq_thread (es' j) = (if j = w then t else wq_thread (?es j))" for j es'
  proof -
    have "(\<exists>b. j \<in> set (Q b)) \<longleftrightarrow> j < 256 \<and> \<not> l4_is_invalid_id (wq_thread (?es j))"
      using wf by (simp add: sem_wf_def L4SEMAPHORE_MAX_WQ_ENTRIES_def)
    moreover have "j \<in> set ?l \<or> (\<exists>b. b \<noteq> a \<and> j \<in> set (Q b)) \<longleftrightarrow> j = w \<or> (\<exists>b. j \<in> set (Q b))"
      unfolding set_queue_insert insert_iff by metis
    ultimately show ?thesis unfolding that using w(1) t by (simp split: if_split)
  qed
  have main: "w < 256 \<and> l4_is_invalid_id (wq_thread (?es w)) \<and> enqueued tcb a t w s s' \<and> sem_wf s' (Q(a := ?l))"
    if e: "\<And>j. wq_thread (wq_entries s' j) = (if j = w then t else wq_thread (?es j)) \<and>
          wq_prio (wq_entries s' j) = (if j = w then ?k else wq_prio (?es j))"
      and s': "next_entry s' = (w + 1) mod 256" "wq_data s' = wq_data s" "sems s' = (sems s)(a := (sems s a)\<lparr>sem_queue := q'\<rparr>)"
      and l': "linked (wq_entries s') q' ?l" and f: "\<And>j. j \<noteq> w \<Longrightarrow> j \<notin> set (Q a) \<Longrightarrow> wq_entries s' j = ?es j" for s' q'
  proof -
    have "sem_wf s' (Q(a := ?l))"
    proof (rule sem_wf_update [OF wf])
      show "next_entry s' < 256" "linked (wq_entries s') (sem_queue (sems s' a)) ?l" using s' l' by simp_all
      show "sems s' b = sems s b" if "b \<noteq> a" for b using that s'(3) by simp
      show "set ?l \<inter> set (Q b) = {}" if "b \<noteq> a" for b by (rule dis [OF that])
      show "wq_entries s' j = ?es j" if h: "b \<noteq> a" "j \<in> set (Q b)" for b j
      proof (rule f)
        show "j \<noteq> w" using h(2) wq by metis
        show "j \<notin> set (Q a)" using h sem_wfD(3) [OF wf h(1)] by (metis IntI empty_iff)
      qed
      show "j \<in> set ?l \<or> (\<exists>b. b \<noteq> a \<and> j \<in> set (Q b)) \<longleftrightarrow> j < 256 \<and> \<not> l4_is_invalid_id (wq_thread (wq_entries s' j))" for j
        by (rule mem) (simp add: e)
    qed
    then show ?thesis using w e s' by (auto simp: enqueued_def)
  qed
  have ql: "linked ?es (sem_queue (sems s a)) (Q a)" by (rule sem_wfD(2) [OF wf])
  show ?thesis
  proof (cases "Q a")
    case Nil
    then have q: "sem_queue (sems s a) = None" using queue_empty_iff [OF wf] by blast
    let ?s' = "set_sem a (sem_queue_update (\<lambda>_. Some w)) (?s1\<lparr>wq_entries := es0(w := (es0 w)\<lparr>wq_prev := None\<rparr>)\<rparr>)"
    have r: "enqueue_thread tcb a t s = Inr (?s', w)" using w(2) q by (simp add: enqueue_thread_def Let_def es0_def wq_prio_of_def)
    have "linked (wq_entries ?s') (Some w) ?l" using Nil by (simp add: es0_def queue_insert_def linked_def)
    then show ?thesis using r main [of ?s' "Some w"] by (auto simp: es0_def)
  next
    case (Cons x xs)
    then have q: "sem_queue (sems s a) = Some x" using linked_head [OF ql] by simp
    have xw: "x \<noteq> w" using wq [of a] Cons by auto
    show ?thesis
    proof (cases "wq_prio (?es x) < ?k")
      case True
      let ?e = "set_prev (Some x) (Some w) (es0(w := (es0 w)\<lparr>wq_next := Some x, wq_prev := None\<rparr>))"
      let ?s' = "set_sem a (sem_queue_update (\<lambda>_. Some w)) (?s1\<lparr>wq_entries := ?e\<rparr>)"
      have r: "enqueue_thread tcb a t s = Inr (?s', w)"
        using w(2) q True xw by (simp add: enqueue_thread_def Let_def es0_def wq_prio_of_def)
      have "linked ?e (Some w) (w # Q a)"
        by (rule linked_push [OF ql wq, where t = t and k = ?k]) (simp add: es0_def q)
      then have "linked (wq_entries ?s') (Some w) ?l" using Cons True by (simp add: queue_insert_def)
      then show ?thesis using r main [of ?s' "Some w"] Cons xw by (auto simp: es0_def set_prev_def)
    next
      case False
      obtain rp where "dseg ?es (Some x) None (x # xs) None rp" using ql Cons q by (auto simp: linked_def)
      moreover have "dseg es0 (Some x) None (x # xs) None rp = dseg ?es (Some x) None (x # xs) None rp"
        by (rule dseg_cong) (use wq [of a] Cons in \<open>auto simp: es0_def\<close>)
      ultimately obtain wp where wp: "enqueue_pos es0 ?k x = Some wp" using enqueue_pos_ok by blast
      define e where "e = set_next (Some wp) (Some w) (set_prev (wq_next (es0 wp)) (Some w)
        (es0(w := (es0 w)\<lparr>wq_prev := Some wp, wq_next := wq_next (es0 wp)\<rparr>)))"
      let ?s' = "?s1\<lparr>wq_entries := e\<rparr>"
      have r: "enqueue_thread tcb a t s = Inr (?s', w)"
        using w(2) q False xw wp by (simp add: enqueue_thread_def Let_def es0_def wq_prio_of_def e_def)
      have ll: "linked ?es (Some x) (x # xs)" and lw: "w \<notin> set (x # xs)" and lk: "?k \<le> wq_prio (?es x)" using ql q Cons wq [of a] False by auto
      note el = enqueue_links [OF ll lw lk wp es0_def e_def]
      have 1: "wq_thread (e j) = wq_thread (es0 j) \<and> wq_prio (e j) = wq_prio (es0 j)" for j by (simp add: e_def set_next_prev_fields)
      have 2: "e j = ?es j" if "j \<noteq> w" "j \<notin> set (Q a)" for j
      proof -
        have "wp \<noteq> j" "wq_next (es0 wp) \<noteq> Some j" using el(2) that Cons by auto
        then show ?thesis using that unfolding e_def by (simp add: set_next_prev_fields) (simp add: es0_def)
      qed
      have "sems ?s' = (sems s)(a := (sems s a)\<lparr>sem_queue := Some x\<rparr>)" using q by (auto simp: fun_eq_iff)
      then show ?thesis using r main [of ?s' "Some x"] el(1) Cons 1 2 by (auto simp: es0_def)
    qed
  qed
qed

text \<open>Taking the entry \<open>w\<close> out of the queue of the semaphore at \<open>a\<close>.\<close>

definition remove_entry :: "l4_addr_t \<Rightarrow> nat \<Rightarrow> sem_mem \<Rightarrow> sem_mem" where
  "remove_entry a w s =
     (let s1 = (if wq_prev (wq_entries s w) = None
                then set_sem a (sem_queue_update (\<lambda>_. wq_next (wq_entries s w))) s else s)
      in s1\<lparr>wq_entries := free_entry w (wq_entries s1)\<rparr>)"

lemma linked_prev: "linked es q (xs @ w # ys) \<Longrightarrow> wq_prev (es w) = None \<longleftrightarrow> xs = []"
proof -
  assume "linked es q (xs @ w # ys)"
  then obtain m mp where d: "dseg es q None xs m mp" "wq_prev (es w) = mp" by (auto simp: linked_def dseg_append)
  then show ?thesis using dseg_ends [OF d(1)] by (cases "xs = []") auto
qed

lemma free_entry_frame:
  assumes "linked es q l" "w \<in> set l" "j \<notin> set l"
  shows "free_entry w es j = es j"
proof -
  obtain xs ys where l: "l = xs @ w # ys" using assms(2) by (meson split_list)
  obtain mp rp where d: "dseg es q None xs (Some w) mp" "wq_prev (es w) = mp" "dseg es (wq_next (es w)) (Some w) ys None rp"
    using assms(1) unfolding l by (auto simp: linked_def dseg_append)
  have "wq_prev (es w) \<noteq> Some j" using dseg_ends [OF d(1)] d(1,2) assms(3) l by (cases "xs = []") auto
  moreover have "wq_next (es w) \<noteq> Some j" using dseg_ends [OF d(3)] d(3) assms(3) l by (cases "ys = []") auto
  moreover have "wq_prev (es w) \<noteq> Some w" using dseg_ends [OF d(1)] d(1,2) assms(1) l by (cases "xs = []") (auto simp: linked_def)
  moreover have "j \<noteq> w" using assms by blast
  ultimately show ?thesis by (simp add: free_entry_def Let_def set_next_prev_fields)
qed

lemma remove_entry_fields:
  "wq_data (remove_entry a w s) = wq_data s" "next_entry (remove_entry a w s) = next_entry s"
  "wq_thread (wq_entries (remove_entry a w s) i) = (if i = w then L4_INVALID_ID else wq_thread (wq_entries s i))"
  "wq_prio (wq_entries (remove_entry a w s) i) = wq_prio (wq_entries s i)"
  "sem_counter (sems (remove_entry a w s) b) = sem_counter (sems s b)" "sem_pending (sems (remove_entry a w s) b) = sem_pending (sems s b)"
  "b \<noteq> a \<Longrightarrow> sems (remove_entry a w s) b = sems s b"
  by (auto simp: remove_entry_def Let_def free_entry_fields)

lemma remove_entry_wf:
  assumes wf: "sem_wf s Q" and q: "Q a = xs @ w # ys"
  shows "sem_wf (remove_entry a w s) (Q(a := xs @ ys))"
proof (rule sem_wf_update [OF wf])
  let ?s' = "remove_entry a w s"
  have l: "linked (wq_entries s) (sem_queue (sems s a)) (xs @ w # ys)" using sem_wfD(2) [OF wf, of a] q by simp
  have e: "wq_entries ?s' = free_entry w (wq_entries s)" by (simp add: remove_entry_def Let_def)
  show "next_entry ?s' < 256" using sem_wfD(1) [OF wf] by (simp add: remove_entry_fields)
  show "linked (wq_entries ?s') (sem_queue (sems ?s' a)) (xs @ ys)"
    using linked_free [OF l] linked_prev [OF l] unfolding e by (auto simp: remove_entry_def Let_def)
  show "sems ?s' b = sems s b" if "b \<noteq> a" for b using that by (rule remove_entry_fields)
  show "wq_entries ?s' i = wq_entries s i" if "b \<noteq> a" "i \<in> set (Q b)" for b i
    unfolding e using free_entry_frame [OF l, of w i] sem_wfD(3) [OF wf that(1)] that(2) q by auto
  show "set (xs @ ys) \<inter> set (Q b) = {}" if "b \<noteq> a" for b using sem_wfD(3) [OF wf that] q by auto
  fix i
  have m: "(\<exists>b. i \<in> set (Q b)) \<longleftrightarrow> i < 256 \<and> \<not> l4_is_invalid_id (wq_thread (wq_entries s i))"
    using wf by (simp add: sem_wf_def L4SEMAPHORE_MAX_WQ_ENTRIES_def)
  have wd: "w \<notin> set (xs @ ys)" using sem_wfD(5) [OF wf, of a] q by auto
  have wb: "b \<noteq> a \<Longrightarrow> w \<notin> set (Q b)" for b using sem_wfD(3) [OF wf, of a b] q by auto
  have "i \<in> set (xs @ ys) \<or> (\<exists>b. b \<noteq> a \<and> i \<in> set (Q b)) \<longleftrightarrow> i \<noteq> w \<and> (\<exists>b. i \<in> set (Q b))"
  proof (cases "i = w")
    case True
    then show ?thesis using wd wb by blast
  next
    case False
    then have "i \<in> set (xs @ ys) \<longleftrightarrow> i \<in> set (Q a)" using q by auto
    then show ?thesis using False by metis
  qed
  also have "\<dots> \<longleftrightarrow> i < 256 \<and> \<not> l4_is_invalid_id (wq_thread (wq_entries ?s' i))"
    unfolding m by (simp add: remove_entry_fields l4_is_invalid_id_def L4_INVALID_ID_def)
  finally show "i \<in> set (xs @ ys) \<or> (\<exists>b. b \<noteq> a \<and> i \<in> set (Q b)) \<longleftrightarrow>
      i < 256 \<and> \<not> l4_is_invalid_id (wq_thread (wq_entries ?s' i))" .
qed

lemma releasetimed_remove:
  "handle_releasetimed tcb sem src s =
     (case l4thread_data_get tcb src s of None \<Rightarrow> s | Some wp \<Rightarrow> l4thread_data_set tcb src None (remove_entry sem wp s))"
  by (simp add: handle_releasetimed_def remove_entry_def Let_def split: option.split)

text \<open>A release with a waiter that did not give a timeout: the head of the queue is woken.\<close>

lemma handle_release_head:
  assumes wf: "sem_wf s Q" and q: "Q a = x # xs" and d: "wq_data s = (\<lambda>_. None)"
    and dl: "deliver (wq_thread (wq_entries s x)) False"
  shows "handle_release tcb deliver a s = Inr (remove_entry a x s, [wq_thread (wq_entries s x)])"
proof -
  have l: "linked (wq_entries s) (sem_queue (sems s a)) (x # xs)" using sem_wfD(2) [OF wf, of a] q by simp
  have h: "sem_queue (sems s a) = Some x" using linked_head [OF l] by simp
  have v: "\<not> l4_is_invalid_id (wq_thread (wq_entries s x))" using sem_wfD(4) [OF wf, of x a] q by simp
  have "wq_prev (wq_entries s x) = None" using linked_prev [of _ _ "[]" x xs] l by auto
  then show ?thesis using h v d dl
    by (simp add: handle_release_def release_loop.simps [of tcb deliver a s] Let_def l4thread_data_get_def wakeup_thread_def remove_entry_def)
qed

lemma handle_release_empty:
  "sem_wf s Q \<Longrightarrow> Q a = [] \<Longrightarrow> handle_release tcb deliver a s = Inr (set_sem a (sem_pending_update (\<lambda>p. p + 1)) s, [])"
  using queue_empty_iff [of s Q a] by (simp add: handle_release_def)

section \<open>Threads and semaphores\<close>

text \<open>
  The threads of the task and the semaphore thread run concurrently. A thread is modelled by the point of the semaphore
  operation it has reached: between the change of the counter and the message to the semaphore thread (\<open>PreBlock\<close>,
  \<open>PreRelease\<close> and their variants for \<open>l4semaphore_down_timed\<close>), waiting for the answer (\<open>Blocked\<close>), or after a
  timeout (\<open>TimedOut\<close>, before the counter is given back). A message is received and handled in one step, because the
  semaphore thread takes one message at a time. \<open>passed\<close> and \<open>posted\<close> count the completed down and the started up
  operations.
\<close>

datatype sem_pc = Idle | PreBlock l4_addr_t | Blocked l4_addr_t | PreRelease l4_addr_t
  | PreBlockTimed l4_addr_t | BlockedTimed l4_addr_t | TimedOut l4_addr_t | PreReleaseTimed l4_addr_t

record sem_sys =
  sys_mem :: sem_mem
  sys_pc :: "l4_threadid_t \<Rightarrow> sem_pc"
  passed :: "l4_addr_t \<Rightarrow> nat"
  posted :: "l4_addr_t \<Rightarrow> nat"

text \<open>A message of the semaphore thread reaches the threads that wait for one.\<close>

definition receiving :: "(l4_threadid_t \<Rightarrow> sem_pc) \<Rightarrow> deliver" where
  "receiving p t nowait = (case p t of Blocked _ \<Rightarrow> True | BlockedTimed _ \<Rightarrow> True | _ \<Rightarrow> False)"

text \<open>\<open>l4semaphore_down\<close> and \<open>l4semaphore_down_timed\<close> up to the call of the semaphore thread.\<close>

definition do_down :: "(l4_addr_t \<Rightarrow> sem_pc) \<Rightarrow> l4_threadid_t \<Rightarrow> l4_addr_t \<Rightarrow> sem_sys \<Rightarrow> sem_sys" where
  "do_down next_pc t a s =
     (let (m, block) = down_counter (sems (sys_mem s) a); s1 = s\<lparr>sys_mem := set_sem a (\<lambda>_. m) (sys_mem s)\<rparr>
      in if block then s1\<lparr>sys_pc := (sys_pc s)(t := next_pc a)\<rparr>
         else s1\<lparr>passed := (passed s)(a := Suc (passed s a))\<rparr>)"

definition do_try_down :: "l4_threadid_t \<Rightarrow> l4_addr_t \<Rightarrow> sem_sys \<Rightarrow> sem_sys" where
  "do_try_down t a s =
     (let (m, got) = l4semaphore_try_down (sems (sys_mem s) a); s1 = s\<lparr>sys_mem := set_sem a (\<lambda>_. m) (sys_mem s)\<rparr>
      in if got then s1\<lparr>passed := (passed s)(a := Suc (passed s a))\<rparr> else s1)"

definition do_up :: "l4_threadid_t \<Rightarrow> l4_addr_t \<Rightarrow> sem_sys \<Rightarrow> sem_sys" where
  "do_up t a s =
     (let (m, call) = up_counter (sems (sys_mem s) a)
      in s\<lparr>sys_mem := set_sem a (\<lambda>_. m) (sys_mem s), posted := (posted s)(a := Suc (posted s a)),
           sys_pc := (sys_pc s)(t := if call then PreRelease a else Idle)\<rparr>)"

text \<open>The thread \<open>t\<close> sends the request \<open>dw0\<close> and goes on to \<open>p\<close>; the threads that the semaphore thread wakes have passed.\<close>

definition do_request ::
    "tcb_prios \<Rightarrow> l4_threadid_t \<Rightarrow> l4_threadid_t \<Rightarrow> u32 \<Rightarrow> l4_addr_t \<Rightarrow> sem_pc \<Rightarrow> sem_sys \<Rightarrow> sem_sys res" where
  "do_request tcb me t dw0 a p s =
     (let pc1 = (sys_pc s)(t := p) in
      bind_res (l4semaphore_thread tcb (receiving pc1) me t dw0 a (sys_mem s)) (\<lambda>(m, ws).
        Inr (s\<lparr>sys_mem := m, sys_pc := fold (\<lambda>x pc. pc(x := Idle)) ws pc1, passed := (passed s)(a := passed s a + length ws)\<rparr>)))"

text \<open>The counter is given back after a timeout.\<close>

definition do_give_back :: "sem_pc \<Rightarrow> l4_threadid_t \<Rightarrow> l4_addr_t \<Rightarrow> sem_sys \<Rightarrow> sem_sys" where
  "do_give_back p t a s =
     s\<lparr>sys_mem := set_sem a (\<lambda>m. m\<lparr>sem_counter := sem_counter m + 1\<rparr>) (sys_mem s), sys_pc := (sys_pc s)(t := p)\<rparr>"

text \<open>
  \<open>timed\<close> says whether \<open>l4semaphore_down_timed\<close> is used. With the timeout 0 it is \<open>l4semaphore_try_down\<close>. An up operation at
  the largest counter value overflows the counter; the steps leave it out.
\<close>

inductive sem_step :: "bool \<Rightarrow> tcb_prios \<Rightarrow> l4_threadid_t \<Rightarrow> sem_sys \<Rightarrow> sem_sys \<Rightarrow> bool" for timed tcb me where
  down: "l4_task_equal me t \<Longrightarrow> a \<noteq> 0 \<Longrightarrow> sys_pc s t = Idle \<Longrightarrow> sem_step timed tcb me s (do_down PreBlock t a s)"
| block: "sys_pc s t = PreBlock a \<Longrightarrow> do_request tcb me t L4SEMAPHORE_BLOCK a (Blocked a) s = Inr s' \<Longrightarrow> sem_step timed tcb me s s'"
| try_down: "l4_task_equal me t \<Longrightarrow> a \<noteq> 0 \<Longrightarrow> sys_pc s t = Idle \<Longrightarrow> sem_step timed tcb me s (do_try_down t a s)"
| up: "l4_task_equal me t \<Longrightarrow> a \<noteq> 0 \<Longrightarrow> sys_pc s t = Idle \<Longrightarrow> sint (sem_counter (sems (sys_mem s) a)) < 2 ^ 31 - 1 \<Longrightarrow> sem_step timed tcb me s (do_up t a s)"
| release: "sys_pc s t = PreRelease a \<Longrightarrow> do_request tcb me t L4SEMAPHORE_RELEASE a Idle s = Inr s' \<Longrightarrow> sem_step timed tcb me s s'"
| down_timed: "timed \<Longrightarrow> l4_task_equal me t \<Longrightarrow> a \<noteq> 0 \<Longrightarrow> sys_pc s t = Idle \<Longrightarrow> sem_step timed tcb me s (do_down PreBlockTimed t a s)"
| block_timed: "timed \<Longrightarrow> sys_pc s t = PreBlockTimed a \<Longrightarrow>
    do_request tcb me t L4SEMAPHORE_BLOCKTIMED a (BlockedTimed a) s = Inr s' \<Longrightarrow> sem_step timed tcb me s s'"
| block_timed_late: "timed \<Longrightarrow> sys_pc s t = PreBlockTimed a \<Longrightarrow>
    do_request tcb me t L4SEMAPHORE_BLOCKTIMED a (TimedOut a) s = Inr s' \<Longrightarrow> sem_step timed tcb me s s'"
| block_timed_not_sent: "timed \<Longrightarrow> sys_pc s t = PreBlockTimed a \<Longrightarrow> sem_step timed tcb me s (do_give_back Idle t a s)"
| timeout: "timed \<Longrightarrow> sys_pc s t = BlockedTimed a \<Longrightarrow> sem_step timed tcb me s (s\<lparr>sys_pc := (sys_pc s)(t := TimedOut a)\<rparr>)"
| give_back: "timed \<Longrightarrow> sys_pc s t = TimedOut a \<Longrightarrow> sem_step timed tcb me s (do_give_back (PreReleaseTimed a) t a s)"
| release_timed: "timed \<Longrightarrow> sys_pc s t = PreReleaseTimed a \<Longrightarrow>
    do_request tcb me t L4SEMAPHORE_RELEASETIMED a Idle s = Inr s' \<Longrightarrow> sem_step timed tcb me s s'"

text \<open>The start: the semaphores are initialised with the values \<open>n\<close> and the semaphore thread has set up its entries.\<close>

definition sem_start :: "(l4_addr_t \<Rightarrow> nat) \<Rightarrow> sem_mem \<Rightarrow> sem_sys" where
  "sem_start n m =
     \<lparr>sys_mem = setup_entries (m\<lparr>next_entry := 0, sems := (\<lambda>a. L4SEMAPHORE_INIT (of_nat (n a))), wq_data := (\<lambda>_. None)\<rparr>),
      sys_pc = (\<lambda>_. Idle), passed = (\<lambda>_. 0), posted = (\<lambda>_. 0)\<rparr>"

inductive sem_reach :: "bool \<Rightarrow> tcb_prios \<Rightarrow> l4_threadid_t \<Rightarrow> (l4_addr_t \<Rightarrow> nat) \<Rightarrow> sem_sys \<Rightarrow> bool" for timed tcb me n where
  sem_reach_start: "sem_reach timed tcb me n (sem_start n m)"
| sem_reach_step: "sem_reach timed tcb me n s \<Longrightarrow> sem_step timed tcb me s s' \<Longrightarrow> sem_reach timed tcb me n s'"

section \<open>The invariant\<close>

text \<open>The number of threads at some program points.\<close>

definition num :: "(l4_threadid_t \<Rightarrow> sem_pc) \<Rightarrow> (sem_pc \<Rightarrow> bool) \<Rightarrow> int" where
  "num p S = int (card {t. S (p t)})"

lemma num_upd:
  "num (p(t := q)) S = num p S + of_bool (S q) - of_bool (S (p t))"
proof -
  have r: "{x. S ((p(t := q)) x)} - {t} = {x. S (p x)} - {t}" by auto
  have c: "int (card A) = int (card (A - {t})) + of_bool (t \<in> A)" for A :: "l4_threadid_t set"
  proof (cases "t \<in> A")
    case True
    then show ?thesis using card_Suc_Diff1 [OF finite True] by simp
  qed simp
  show ?thesis unfolding num_def using c [of "{x. S ((p(t := q)) x)}"] c [of "{x. S (p x)}"] unfolding r by auto
qed

lemma num_nonneg [simp]: "0 \<le> num p S"
  by (simp add: num_def)

lemma num_pos_iff: "0 < num p S \<longleftrightarrow> (\<exists>t. S (p t))"
  by (auto simp: num_def card_gt_0_iff)

lemma num_mono: "(\<And>q. S q \<Longrightarrow> S' q) \<Longrightarrow> num p S \<le> num p S'"
  unfolding num_def by (simp add: card_mono Collect_mono)

definition waits :: "l4_addr_t \<Rightarrow> sem_pc \<Rightarrow> bool" where
  "waits a q \<longleftrightarrow> q = PreBlock a \<or> q = Blocked a"

text \<open>There are 128 threads in a task.\<close>

lemma same_task_thread: "l4_task_equal me t \<Longrightarrow> l4_task_equal me u \<Longrightarrow> id_lthread t = id_lthread u \<Longrightarrow> t = u"
proof -
  assume a: "l4_task_equal me t" "l4_task_equal me u" "id_lthread t = id_lthread u"
  have m: "TASK_MASK = NOT (push_bit 10 (mask 7))" by (simp add: TASK_MASK_def mask_eq_exp_minus_1)
  have "x = (x AND TASK_MASK) OR push_bit 10 (id_lthread x)" for x :: u32
    unfolding m id_lthread_def mask_7 by (rule bit_word_eqI) (auto simp: bit_simps)
  moreover have "t AND TASK_MASK = u AND TASK_MASK" using a by (simp add: l4_task_equal_def)
  ultimately show ?thesis using a(3) by metis
qed

lemma card_task: "card {t. l4_task_equal me t} \<le> 128"
proof -
  have b: "unat (id_lthread t) < 128" for t
    using word_and_le_right [of "drop_bit 10 t" "0x7F"] by (simp add: id_lthread_def word_le_unat)
  have "card {t. l4_task_equal me t} \<le> card {..< 128 :: nat}"
  proof (rule card_inj_on_le [of "unat \<circ> id_lthread"])
    show "inj_on (unat \<circ> id_lthread) {t. l4_task_equal me t}" by (rule inj_onI) (auto intro: same_task_thread unsigned_word_eqI)
  qed (use b in auto)
  then show ?thesis by simp
qed

text \<open>The invariant without timeouts: program points, wait queues, and the accounts of every semaphore.\<close>

definition pcs_ok :: "l4_threadid_t \<Rightarrow> (l4_threadid_t \<Rightarrow> sem_pc) \<Rightarrow> bool" where
  "pcs_ok me p \<longleftrightarrow> (\<forall>t. p t \<noteq> Idle \<longrightarrow> l4_task_equal me t \<and> (\<exists>a. a \<noteq> 0 \<and> p t \<in> {PreBlock a, Blocked a, PreRelease a}))"

definition queues_ok :: "tcb_prios \<Rightarrow> (l4_threadid_t \<Rightarrow> sem_pc) \<Rightarrow> sem_mem \<Rightarrow> (l4_addr_t \<Rightarrow> nat list) \<Rightarrow> bool" where
  "queues_ok tcb p m Q \<longleftrightarrow> sem_wf m Q \<and> wq_data m = (\<lambda>_. None) \<and>
     (\<forall>a. distinct (map (\<lambda>i. wq_thread (wq_entries m i)) (Q a)) \<and> (\<lambda>i. wq_thread (wq_entries m i)) ` set (Q a) = {t. p t = Blocked a} \<and>
       (Q a \<noteq> [] \<longrightarrow> sem_pending (sems m a) = 0) \<and> sorted_wrt (\<lambda>i j. wq_prio (wq_entries m i) \<ge> wq_prio (wq_entries m j)) (Q a) \<and>
       (\<forall>i \<in> set (Q a). wq_prio (wq_entries m i) = wq_prio_of tcb (wq_thread (wq_entries m i))))"

definition exact_counter :: "(l4_addr_t \<Rightarrow> nat) \<Rightarrow> sem_sys \<Rightarrow> l4_addr_t \<Rightarrow> int" where
  "exact_counter n s a = int (n a) + int (posted s a) - int (passed s a) - num (sys_pc s) (waits a)"

definition counts_ok :: "(l4_addr_t \<Rightarrow> nat) \<Rightarrow> sem_sys \<Rightarrow> l4_addr_t \<Rightarrow> bool" where
  "counts_ok n s a \<longleftrightarrow> exact_counter n s a < 2 ^ 31 \<and> sem_counter (sems (sys_mem s) a) = word_of_int (exact_counter n s a) \<and>
     num (sys_pc s) (waits a) = max 0 (- exact_counter n s a) + num (sys_pc s) (\<lambda>q. q = PreRelease a) + int (sem_pending (sems (sys_mem s) a))"

definition sem_inv :: "tcb_prios \<Rightarrow> l4_threadid_t \<Rightarrow> (l4_addr_t \<Rightarrow> nat) \<Rightarrow> sem_sys \<Rightarrow> bool" where
  "sem_inv tcb me n s \<longleftrightarrow> pcs_ok me (sys_pc s) \<and> (\<exists>Q. queues_ok tcb (sys_pc s) (sys_mem s) Q) \<and> (\<forall>a. counts_ok n s a)"

lemma num_task: "pcs_ok me p \<Longrightarrow> \<not> S Idle \<Longrightarrow> num p S \<le> 128"
proof -
  assume a: "pcs_ok me p" "\<not> S Idle"
  then have "{t. S (p t)} \<subseteq> {t. l4_task_equal me t}" by (auto simp: pcs_ok_def) (metis)
  then have "card {t. S (p t)} \<le> card {t. l4_task_equal me t}" by (intro card_mono) simp_all
  then show ?thesis using card_task [of me] by (simp add: num_def)
qed

lemma counter_sint:
  assumes "counts_ok n s a" "pcs_ok me (sys_pc s)"
  shows "sint (sem_counter (sems (sys_mem s) a)) = exact_counter n s a"
proof -
  let ?X = "exact_counter n s a"
  have "num (sys_pc s) (waits a) \<le> 128" by (rule num_task [OF assms(2)]) (simp add: waits_def)
  moreover have "- ?X \<le> num (sys_pc s) (waits a)"
    using assms(1) num_nonneg [of "sys_pc s" "\<lambda>q. q = PreRelease a"] unfolding counts_ok_def by linarith
  moreover have "?X < 2147483648" using assms(1) by (simp add: counts_ok_def)
  ultimately have "- 2147483648 \<le> ?X" "?X < 2147483648" by linarith+
  then have "sint (word_of_int ?X :: u32) = ?X" by (simp add: signed_of_int signed_take_bit_int_eq_self)
  then show ?thesis using assms(1) by (simp add: counts_ok_def)
qed

text \<open>A step that changes neither the queues nor the blocked threads.\<close>

lemma queues_ok_frame:
  assumes "queues_ok tcb p m Q" "wq_entries m' = wq_entries m" "wq_data m' = wq_data m" "next_entry m' = next_entry m"
    "\<And>a. sem_queue (sems m' a) = sem_queue (sems m a)" "\<And>a. Q a \<noteq> [] \<Longrightarrow> sem_pending (sems m' a) = 0"
    "\<And>a. {t. p' t = Blocked a} = {t. p t = Blocked a}"
  shows "queues_ok tcb p' m' Q"
  using assms unfolding queues_ok_def sem_wf_def by simp

lemma counter_simps [simp]:
  "sem_queue (fst (down_counter m)) = sem_queue m" "sem_pending (fst (down_counter m)) = sem_pending m"
  "sem_counter (fst (down_counter m)) = sem_counter m - 1" "snd (down_counter m) \<longleftrightarrow> sint (sem_counter m) < 1"
  "sem_queue (fst (up_counter m)) = sem_queue m" "sem_pending (fst (up_counter m)) = sem_pending m"
  "sem_counter (fst (up_counter m)) = sem_counter m + 1" "snd (up_counter m) \<longleftrightarrow> sint (sem_counter m) < 0"
  by (auto simp: down_counter_def up_counter_def)

lemma queues_pending: "queues_ok tcb p m Q \<Longrightarrow> Q a \<noteq> [] \<Longrightarrow> sem_pending (sems m a) = 0"
  by (auto simp: queues_ok_def)

lemma pc_frame: "\<forall>a. p t \<noteq> Blocked a \<and> q \<noteq> Blocked a \<Longrightarrow> {x. (p(t := q)) x = Blocked a} = {x. p x = Blocked a}"
  by auto

lemma down_inv:
  assumes inv: "sem_inv tcb me n s" and t: "l4_task_equal me t" "a \<noteq> 0" "sys_pc s t = Idle"
  shows "sem_inv tcb me n (do_down PreBlock t a s)"
proof -
  let ?m = "fst (down_counter (sems (sys_mem s) a))" and ?p = "(sys_pc s)(t := PreBlock a)"
  let ?mem = "set_sem a (\<lambda>_. ?m) (sys_mem s)"
  have i: "pcs_ok me (sys_pc s)" "\<And>b. counts_ok n s b" using inv by (auto simp: sem_inv_def)
  obtain Q where Q: "queues_ok tcb (sys_pc s) (sys_mem s) Q" using inv by (auto simp: sem_inv_def)
  have c: "sint (sem_counter (sems (sys_mem s) a)) = exact_counter n s a" by (rule counter_sint [OF i(2) i(1)])
  have e: "do_down PreBlock t a s = (if exact_counter n s a < 1 then s\<lparr>sys_mem := ?mem, sys_pc := ?p\<rparr>
      else s\<lparr>sys_mem := ?mem, passed := (passed s)(a := Suc (passed s a))\<rparr>)" (is "_ = ?s'")
    using c by (simp add: do_down_def Let_def case_prod_unfold)
  have q1: "queues_ok tcb p ?mem Q" if "p = sys_pc s \<or> p = ?p" for p
    by (rule queues_ok_frame [OF Q]) (use that t Q queues_pending in \<open>auto split: if_splits\<close>)
  have "counts_ok n ?s' x" for x
  proof (cases "x = a")
    case True
    then show ?thesis using i(2) [of a] t(3) unfolding counts_ok_def exact_counter_def by (auto simp: num_upd waits_def)
  next
    case False
    then show ?thesis using i(2) [of x] t(3) unfolding counts_ok_def exact_counter_def by (auto simp: num_upd waits_def)
  qed
  moreover have "pcs_ok me ?p" using i(1) t by (auto simp: pcs_ok_def)
  ultimately show ?thesis unfolding e sem_inv_def using i(1) q1 by auto
qed

lemma try_down_inv:
  assumes inv: "sem_inv tcb me n s"
  shows "sem_inv tcb me n (do_try_down t a s)"
proof -
  let ?m = "fst (l4semaphore_try_down (sems (sys_mem s) a))" let ?mem = "set_sem a (\<lambda>_. ?m) (sys_mem s)"
  have i: "pcs_ok me (sys_pc s)" "\<And>b. counts_ok n s b" using inv by (auto simp: sem_inv_def)
  obtain Q where Q: "queues_ok tcb (sys_pc s) (sys_mem s) Q" using inv by (auto simp: sem_inv_def)
  have c: "sint (sem_counter (sems (sys_mem s) a)) = exact_counter n s a" by (rule counter_sint [OF i(2) i(1)])
  have e: "do_try_down t a s = (if exact_counter n s a \<le> 0 then s\<lparr>sys_mem := ?mem\<rparr>
      else s\<lparr>sys_mem := ?mem, passed := (passed s)(a := Suc (passed s a))\<rparr>)" (is "_ = ?s'")
    using c by (simp add: do_try_down_def Let_def case_prod_unfold l4semaphore_try_down_def)
  have q: "queues_ok tcb (sys_pc s) ?mem Q"
    by (rule queues_ok_frame [OF Q]) (use Q queues_pending in \<open>auto simp: l4semaphore_try_down_def\<close>)
  have "counts_ok n ?s' x" for x
    using i(2) [of x] c by (cases "x = a") (auto simp: counts_ok_def exact_counter_def l4semaphore_try_down_def)
  then show ?thesis unfolding e sem_inv_def using i(1) q by auto
qed

lemma up_inv:
  assumes inv: "sem_inv tcb me n s" and t: "l4_task_equal me t" "a \<noteq> 0" "sys_pc s t = Idle"
    and g: "sint (sem_counter (sems (sys_mem s) a)) < 2 ^ 31 - 1"
  shows "sem_inv tcb me n (do_up t a s)"
proof -
  let ?m = "fst (up_counter (sems (sys_mem s) a))" and ?p = "(sys_pc s)(t := if exact_counter n s a < 0 then PreRelease a else Idle)"
  let ?mem = "set_sem a (\<lambda>_. ?m) (sys_mem s)"
  have i: "pcs_ok me (sys_pc s)" "\<And>b. counts_ok n s b" using inv by (auto simp: sem_inv_def)
  obtain Q where Q: "queues_ok tcb (sys_pc s) (sys_mem s) Q" using inv by (auto simp: sem_inv_def)
  have c: "sint (sem_counter (sems (sys_mem s) a)) = exact_counter n s a" by (rule counter_sint [OF i(2) i(1)])
  have e: "do_up t a s = s\<lparr>sys_mem := ?mem, posted := (posted s)(a := Suc (posted s a)), sys_pc := ?p\<rparr>" (is "_ = ?s'")
    using c by (simp add: do_up_def Let_def case_prod_unfold)
  have q: "queues_ok tcb ?p ?mem Q"
    by (rule queues_ok_frame [OF Q]) (use t Q queues_pending in \<open>auto split: if_splits\<close>)
  have "counts_ok n ?s' x" for x
  proof (cases "x = a")
    case True
    then show ?thesis using i(2) [of a] t(3) g c unfolding counts_ok_def exact_counter_def by (auto simp: num_upd waits_def)
  next
    case False
    then show ?thesis using i(2) [of x] t(3) unfolding counts_ok_def exact_counter_def by (auto simp: num_upd waits_def)
  qed
  moreover have "pcs_ok me ?p" using i(1) t by (auto simp: pcs_ok_def)
  ultimately show ?thesis unfolding e sem_inv_def using q by auto
qed

text \<open>There is always an entry left for one more thread.\<close>

lemma entry_left:
  assumes "queues_ok tcb p m Q" "pcs_ok me p"
  shows "\<exists>i < 256. l4_is_invalid_id (wq_thread (wq_entries m i))"
proof (rule ccontr)
  assume "\<not> ?thesis"
  then have v: "\<And>i. i < 256 \<Longrightarrow> \<not> l4_is_invalid_id (wq_thread (wq_entries m i))" by blast
  have wf: "sem_wf m Q" using assms(1) by (simp add: queues_ok_def)
  then have q: "\<And>i. i < 256 \<Longrightarrow> \<exists>a. i \<in> set (Q a)" using v by (auto simp: sem_wf_def L4SEMAPHORE_MAX_WQ_ENTRIES_def)
  let ?f = "\<lambda>i. wq_thread (wq_entries m i)"
  have bl: "p (?f i) = Blocked a" if "i \<in> set (Q a)" for i a using assms(1) that unfolding queues_ok_def by blast
  have "inj_on ?f {..< 256}"
  proof (rule inj_onI)
    fix i j assume h: "i \<in> {..< 256}" "j \<in> {..< 256}" "?f i = ?f j"
    then obtain a b where ab: "i \<in> set (Q a)" "j \<in> set (Q b)" using q by blast
    then have "a = b" using bl h(3) by (metis sem_pc.inject(2))
    moreover have "inj_on ?f (set (Q a))" using assms(1) unfolding queues_ok_def distinct_map by blast
    ultimately show "i = j" using ab h(3) by (metis inj_onD)
  qed
  then have "card (?f ` {..< 256}) = 256" using card_image by fastforce
  moreover have "?f ` {..< 256} \<subseteq> {t. l4_task_equal me t}" using q bl assms(2) by (fastforce simp: pcs_ok_def)
  then have "card (?f ` {..< 256}) \<le> card {t. l4_task_equal me t}" by (intro card_mono) simp_all
  ultimately show False using card_task [of me] by simp
qed

lemma sorted_queue_insert:
  assumes "sorted_wrt (\<lambda>i j. pr i \<ge> pr j) l"
  shows "sorted_wrt (\<lambda>i j. pr i \<ge> pr j) (queue_insert pr (pr w) w l)"
proof -
  let ?P = "\<lambda>i. pr w \<le> pr i"
  have s: "sorted_wrt (\<lambda>i j. pr i \<ge> pr j) (takeWhile ?P l @ dropWhile ?P l)" using assms by simp
  have t: "\<And>i. i \<in> set (takeWhile ?P l) \<Longrightarrow> pr w \<le> pr i" by (meson set_takeWhileD)
  have d: "pr i \<le> pr w" if i: "i \<in> set (dropWhile ?P l)" for i
  proof (cases "dropWhile ?P l")
    case (Cons x xs)
    then have "\<not> ?P x" using hd_dropWhile [of ?P l] by simp
    moreover have "sorted_wrt (\<lambda>i j. pr i \<ge> pr j) (x # xs)" using s Cons by (simp add: sorted_wrt_append)
    ultimately show ?thesis using i Cons by auto
  next
    case Nil
    then show ?thesis using i by (metis empty_iff list.set(1))
  qed
  have s1: "sorted_wrt (\<lambda>i j. pr i \<ge> pr j) (takeWhile ?P l)" "sorted_wrt (\<lambda>i j. pr i \<ge> pr j) (dropWhile ?P l)"
    "\<forall>i \<in> set (takeWhile ?P l). \<forall>j \<in> set (dropWhile ?P l). pr i \<ge> pr j"
    using s unfolding sorted_wrt_append by blast+
  have *: "sorted_wrt (\<lambda>i j. pr i \<ge> pr j) (A @ w # B)"
    if "sorted_wrt (\<lambda>i j. pr i \<ge> pr j) A" "sorted_wrt (\<lambda>i j. pr i \<ge> pr j) B" "\<forall>i \<in> set A. \<forall>j \<in> set B. pr i \<ge> pr j"
      "\<forall>i \<in> set A. pr w \<le> pr i" "\<forall>i \<in> set B. pr i \<le> pr w" for A B
    using that by (simp add: sorted_wrt_append)
  show ?thesis unfolding queue_insert_def by (rule * [OF s1]) (use t d in blast)+
qed

lemma queue_insert_cong: "(\<And>i. i \<in> set l \<Longrightarrow> pr i = pr' i) \<Longrightarrow> queue_insert pr k w l = queue_insert pr' k w l"
proof -
  assume a: "\<And>i. i \<in> set l \<Longrightarrow> pr i = pr' i"
  have "takeWhile (\<lambda>i. k \<le> pr i) l = takeWhile (\<lambda>i. k \<le> pr' i) l" by (rule takeWhile_cong) (simp_all add: a)
  moreover have "dropWhile (\<lambda>i. k \<le> pr i) l = dropWhile (\<lambda>i. k \<le> pr' i) l" by (rule dropWhile_cong) (simp_all add: a)
  ultimately show ?thesis by (simp add: queue_insert_def)
qed

lemma distinct_queue_insert: "distinct (map f l) \<Longrightarrow> f w \<notin> f ` set l \<Longrightarrow> distinct (map f (queue_insert pr k w l))"
proof -
  assume a: "distinct (map f l)" "f w \<notin> f ` set l"
  let ?P = "\<lambda>i. k \<le> pr i"
  have "distinct (map f (takeWhile ?P l) @ map f (dropWhile ?P l))" using a(1) by (metis map_append takeWhile_dropWhile_id)
  moreover have "f ` set (takeWhile ?P l) \<subseteq> f ` set l" "f ` set (dropWhile ?P l) \<subseteq> f ` set l"
    by (auto dest: set_takeWhileD set_dropWhileD)
  ultimately show ?thesis using a(2) unfolding queue_insert_def by auto
qed

text \<open>The answers to the requests of the clients.\<close>

lemma block_pending:
  assumes "l4_task_equal me t" "a \<noteq> 0" "sem_pending (sems (sys_mem s) a) > 0"
  shows "do_request tcb me t L4SEMAPHORE_BLOCK a (Blocked a) s =
    Inr (s\<lparr>sys_mem := set_sem a (sem_pending_update (\<lambda>p. p - 1)) (sys_mem s), sys_pc := (sys_pc s)(t := Idle),
      passed := (passed s)(a := Suc (passed s a))\<rparr>)"
  using assms by (simp add: do_request_def Let_def l4semaphore_thread_def handle_block_def wakeup_thread_def receiving_def)

lemma block_queued:
  assumes Q: "queues_ok tcb (sys_pc s) (sys_mem s) Q" and p: "pcs_ok me (sys_pc s)" and n: "\<not> l4_task_equal me L4_INVALID_ID"
    and t: "sys_pc s t = PreBlock a" and z: "sem_pending (sems (sys_mem s) a) = 0"
  shows "\<exists>m w. do_request tcb me t L4SEMAPHORE_BLOCK a (Blocked a) s = Inr (s\<lparr>sys_mem := m, sys_pc := (sys_pc s)(t := Blocked a)\<rparr>) \<and>
    enqueued tcb a t w (sys_mem s) m \<and>
    queues_ok tcb ((sys_pc s)(t := Blocked a)) m (Q(a := queue_insert (\<lambda>i. wq_prio (wq_entries m i)) (wq_prio_of tcb t) w (Q a)))"
proof -
  have ta: "l4_task_equal me t" "a \<noteq> 0" using p t by (auto simp: pcs_ok_def) (metis sem_pc.distinct sem_pc.inject)+
  have tv: "\<not> l4_is_invalid_id t" using ta n by (auto simp: l4_is_invalid_id_def L4_INVALID_ID_def)
  have wf: "sem_wf (sys_mem s) Q" using Q by (simp add: queues_ok_def)
  obtain i where i: "i < 256" "l4_is_invalid_id (wq_thread (wq_entries (sys_mem s) i))" using entry_left [OF Q p] by blast
  obtain m w where m: "enqueue_thread tcb a t (sys_mem s) = Inr (m, w)" "l4_is_invalid_id (wq_thread (wq_entries (sys_mem s) w))"
    "enqueued tcb a t w (sys_mem s) m"
    "sem_wf m (Q(a := queue_insert (\<lambda>i. wq_prio (wq_entries (sys_mem s) i)) (wq_prio_of tcb t) w (Q a)))"
    using enqueue_ok [OF wf tv i, of tcb a] by blast
  let ?Q = "Q(a := queue_insert (\<lambda>i. wq_prio (wq_entries m i)) (wq_prio_of tcb t) w (Q a))"
  have wq: "w \<notin> set (Q b)" for b using sem_wfD(4) [OF wf, of w b] m(2) by blast
  have e: "wq_thread (wq_entries m i) = (if i = w then t else wq_thread (wq_entries (sys_mem s) i))"
    "wq_prio (wq_entries m i) = (if i = w then wq_prio_of tcb t else wq_prio (wq_entries (sys_mem s) i))" for i
    using m(3) by (simp_all add: enqueued_def)
  have ei: "wq_thread (wq_entries m i) = wq_thread (wq_entries (sys_mem s) i)" "wq_prio (wq_entries m i) = wq_prio (wq_entries (sys_mem s) i)"
    if "i \<in> set (Q b)" for i b using e wq that by auto
  have eq: "queue_insert (\<lambda>i. wq_prio (wq_entries (sys_mem s) i)) (wq_prio_of tcb t) w (Q a) =
      queue_insert (\<lambda>i. wq_prio (wq_entries m i)) (wq_prio_of tcb t) w (Q a)"
    by (rule queue_insert_cong) (simp add: ei)
  have im: "(\<lambda>i. wq_thread (wq_entries m i)) ` set (Q b) = {x. sys_pc s x = Blocked b}" for b
    using Q ei(1) [of _ b] unfolding queues_ok_def by (metis (no_types, lifting) image_cong)
  have ma: "map (\<lambda>i. wq_thread (wq_entries m i)) (Q b) = map (\<lambda>i. wq_thread (wq_entries (sys_mem s) i)) (Q b)" for b using ei by simp
  have so: "sorted_wrt (\<lambda>i j. wq_prio (wq_entries m i) \<ge> wq_prio (wq_entries m j)) (Q b)" for b
  proof -
    have "sorted_wrt (\<lambda>i j. wq_prio (wq_entries (sys_mem s) i) \<ge> wq_prio (wq_entries (sys_mem s) j)) (Q b)" using Q by (simp add: queues_ok_def)
    then show ?thesis by (rule sorted_wrt_mono_rel [rotated]) (simp add: ei)
  qed
  have "queues_ok tcb ((sys_pc s)(t := Blocked a)) m ?Q"
    unfolding queues_ok_def
  proof (intro conjI allI)
    show "sem_wf m ?Q" using m(4) unfolding eq .
    show "wq_data m = (\<lambda>_. None)" using m(3) Q by (simp add: enqueued_def queues_ok_def)
    fix b
    have d: "distinct (map (\<lambda>i. wq_thread (wq_entries m i)) (Q b))" unfolding ma using Q by (simp add: queues_ok_def)
    have tn: "t \<notin> (\<lambda>i. wq_thread (wq_entries m i)) ` set (Q a)" using im t by auto
    show "distinct (map (\<lambda>i. wq_thread (wq_entries m i)) (?Q b))"
      using d distinct_queue_insert [of "\<lambda>i. wq_thread (wq_entries m i)" "Q a" w] tn e(1) [of w] by auto
    show "(\<lambda>i. wq_thread (wq_entries m i)) ` set (?Q b) = {x. ((sys_pc s)(t := Blocked a)) x = Blocked b}"
      using im [of b] im [of a] e(1) [of w] t by (cases "b = a") auto
    show "?Q b \<noteq> [] \<longrightarrow> sem_pending (sems m b) = 0" using m(3) Q z by (auto simp: enqueued_def queues_ok_def)
    show "sorted_wrt (\<lambda>i j. wq_prio (wq_entries m i) \<ge> wq_prio (wq_entries m j)) (?Q b)"
      using so [of b] sorted_queue_insert [of "\<lambda>i. wq_prio (wq_entries m i)" "Q a" w] so [of a] e(2) [of w] by auto
    show "\<forall>i \<in> set (?Q b). wq_prio (wq_entries m i) = wq_prio_of tcb (wq_thread (wq_entries m i))"
      using Q ei e [of w] unfolding queues_ok_def by (cases "b = a") auto
  qed
  moreover have "do_request tcb me t L4SEMAPHORE_BLOCK a (Blocked a) s = Inr (s\<lparr>sys_mem := m, sys_pc := (sys_pc s)(t := Blocked a)\<rparr>)"
    using ta z m(1) by (simp add: do_request_def Let_def l4semaphore_thread_def handle_block_def)
  ultimately show ?thesis using m(3) by blast
qed

lemma release_stored:
  assumes Q: "queues_ok tcb (sys_pc s) (sys_mem s) Q" and t: "l4_task_equal me t" "a \<noteq> 0" and e: "Q a = []"
  shows "do_request tcb me t L4SEMAPHORE_RELEASE a Idle s =
    Inr (s\<lparr>sys_mem := set_sem a (sem_pending_update (\<lambda>p. p + 1)) (sys_mem s), sys_pc := (sys_pc s)(t := Idle)\<rparr>)"
proof -
  have "sem_wf (sys_mem s) Q" using Q by (simp add: queues_ok_def)
  from handle_release_empty [OF this e] t show ?thesis
    by (simp add: do_request_def Let_def l4semaphore_thread_def l4_const)
qed

lemma release_woken:
  assumes Q: "queues_ok tcb (sys_pc s) (sys_mem s) Q" and t: "l4_task_equal me t" "a \<noteq> 0" "sys_pc s t = PreRelease a" and q: "Q a = x # xs"
  shows "\<exists>y. do_request tcb me t L4SEMAPHORE_RELEASE a Idle s =
      Inr (s\<lparr>sys_mem := remove_entry a x (sys_mem s), sys_pc := (sys_pc s)(t := Idle, y := Idle), passed := (passed s)(a := Suc (passed s a))\<rparr>) \<and>
    sys_pc s y = Blocked a \<and> (\<forall>z. sys_pc s z = Blocked a \<longrightarrow> wq_prio_of tcb z \<le> wq_prio_of tcb y) \<and>
    queues_ok tcb ((sys_pc s)(t := Idle, y := Idle)) (remove_entry a x (sys_mem s)) (Q(a := xs))"
proof -
  let ?m = "sys_mem s" let ?f = "\<lambda>i. wq_thread (wq_entries ?m i)" let ?m' = "remove_entry a x ?m"
  have wf: "sem_wf ?m Q" and d: "wq_data ?m = (\<lambda>_. None)" using Q by (simp_all add: queues_ok_def)
  have im: "?f ` set (Q b) = {u. sys_pc s u = Blocked b}" for b using Q unfolding queues_ok_def by blast
  have di: "distinct (map ?f (Q b))" for b using Q unfolding queues_ok_def by blast
  have so: "sorted_wrt (\<lambda>i j. wq_prio (wq_entries ?m i) \<ge> wq_prio (wq_entries ?m j)) (Q b)" for b using Q unfolding queues_ok_def by blast
  have pr: "i \<in> set (Q b) \<Longrightarrow> wq_prio (wq_entries ?m i) = wq_prio_of tcb (?f i)" for i b using Q unfolding queues_ok_def by blast
  let ?y = "?f x"
  have y: "sys_pc s ?y = Blocked a" using im [of a] q by auto
  then have yt: "?y \<noteq> t" using t(3) by auto
  have mx: "wq_prio_of tcb z \<le> wq_prio_of tcb ?y" if z: "sys_pc s z = Blocked a" for z
  proof -
    obtain i where i: "i \<in> set (Q a)" "z = ?f i" using im [of a] z by auto
    then have "wq_prio (wq_entries ?m i) \<le> wq_prio (wq_entries ?m x)" using so [of a] q by auto
    then show ?thesis using pr [OF i(1)] pr [of x a] i(2) q by simp
  qed
  have "receiving ((sys_pc s)(t := Idle)) ?y False" using y yt by (simp add: receiving_def)
  then have "handle_release tcb (receiving ((sys_pc s)(t := Idle))) a ?m = Inr (?m', [?y])" by (rule handle_release_head [OF wf q d])
  with t(1,2)
  have r: "do_request tcb me t L4SEMAPHORE_RELEASE a Idle s =
      Inr (s\<lparr>sys_mem := ?m', sys_pc := (sys_pc s)(t := Idle, ?y := Idle), passed := (passed s)(a := Suc (passed s a))\<rparr>)"
    by (simp add: do_request_def Let_def l4semaphore_thread_def l4_const)
  have wf': "sem_wf ?m' (Q(a := xs))" using remove_entry_wf [OF wf, of a "[]" x xs] q by simp
  have xq: "x \<notin> set ((Q(a := xs)) b)" for b using sem_wfD(3) [OF wf, of a b] sem_wfD(5) [OF wf, of a] q by (cases "b = a") auto
  have sub: "set ((Q(a := xs)) b) \<subseteq> set (Q b)" for b using q by auto
  have f': "wq_thread (wq_entries ?m' i) = ?f i" if "i \<in> set ((Q(a := xs)) b)" for i b using xq that by (auto simp: remove_entry_fields)
  have "queues_ok tcb ((sys_pc s)(t := Idle, ?y := Idle)) ?m' (Q(a := xs))"
    unfolding queues_ok_def
  proof (intro conjI allI)
    show "sem_wf ?m' (Q(a := xs))" by (rule wf')
    show "wq_data ?m' = (\<lambda>_. None)" using d by (simp add: remove_entry_fields)
    fix b
    have mp: "map (\<lambda>i. wq_thread (wq_entries ?m' i)) ((Q(a := xs)) b) = map ?f ((Q(a := xs)) b)" using f' [of _ b] by (intro map_cong) simp_all
    show "distinct (map (\<lambda>i. wq_thread (wq_entries ?m' i)) ((Q(a := xs)) b))" unfolding mp using di [of b] q by auto
    have "(\<lambda>i. wq_thread (wq_entries ?m' i)) ` set ((Q(a := xs)) b) = ?f ` set ((Q(a := xs)) b)" using f' [of _ b] by (intro image_cong) simp_all
    also have "\<dots> = {u. sys_pc s u = Blocked b} - (if b = a then {?y} else {})"
    proof (cases "b = a")
      case True
      have "?f ` set (Q a) - {?y} = ?f ` set xs" using di [of a] q by (auto simp: image_iff)
      then show ?thesis using True im [of a] by simp
    qed (use im [of b] in simp)
    also have "\<dots> = {u. ((sys_pc s)(t := Idle, ?y := Idle)) u = Blocked b}" using y yt t(3) by (cases "b = a") auto
    finally show "(\<lambda>i. wq_thread (wq_entries ?m' i)) ` set ((Q(a := xs)) b) = {u. ((sys_pc s)(t := Idle, ?y := Idle)) u = Blocked b}" .
    show "(Q(a := xs)) b \<noteq> [] \<longrightarrow> sem_pending (sems ?m' b) = 0" using Q q unfolding queues_ok_def by (auto simp: remove_entry_fields)
    show "sorted_wrt (\<lambda>i j. wq_prio (wq_entries ?m' i) \<ge> wq_prio (wq_entries ?m' j)) ((Q(a := xs)) b)"
      using so [of b] so [of a] q by (auto simp: remove_entry_fields)
    show "\<forall>i \<in> set ((Q(a := xs)) b). wq_prio (wq_entries ?m' i) = wq_prio_of tcb (wq_thread (wq_entries ?m' i))"
    proof
      fix i assume i: "i \<in> set ((Q(a := xs)) b)"
      then have "i \<in> set (Q b)" using sub [of b] by blast
      then show "wq_prio (wq_entries ?m' i) = wq_prio_of tcb (wq_thread (wq_entries ?m' i))"
        unfolding f' [OF i] remove_entry_fields(4) by (rule pr)
    qed
  qed
  then show ?thesis using r y mx by blast
qed

lemma pc_place:
  assumes "pcs_ok me p" "p t = PreBlock a \<or> p t = PreRelease a"
  shows "l4_task_equal me t" "a \<noteq> 0"
  using assms by (auto simp: pcs_ok_def) (metis sem_pc.distinct sem_pc.inject)+

lemma pcs_ok_upd: "pcs_ok me p \<Longrightarrow> q = Idle \<or> l4_task_equal me t \<and> a \<noteq> 0 \<and> q = Blocked a \<Longrightarrow> pcs_ok me (p(t := q))"
  by (auto simp: pcs_ok_def)

lemma block_inv:
  assumes inv: "sem_inv tcb me n s" and n: "\<not> l4_task_equal me L4_INVALID_ID" and t: "sys_pc s t = PreBlock a"
  shows "\<exists>s'. do_request tcb me t L4SEMAPHORE_BLOCK a (Blocked a) s = Inr s' \<and> sem_inv tcb me n s' \<and> posted s' = posted s \<and>
    (sys_pc s' = (sys_pc s)(t := Blocked a) \<and> passed s' = passed s \<or>
     sys_pc s' = (sys_pc s)(t := Idle) \<and> passed s' = (passed s)(a := Suc (passed s a)))"
proof -
  have i: "pcs_ok me (sys_pc s)" "\<And>b. counts_ok n s b" using inv by (auto simp: sem_inv_def)
  obtain Q where Q: "queues_ok tcb (sys_pc s) (sys_mem s) Q" using inv by (auto simp: sem_inv_def)
  have ta: "l4_task_equal me t" "a \<noteq> 0" using pc_place [OF i(1)] t by blast+
  show ?thesis
  proof (cases "sem_pending (sems (sys_mem s) a) > 0")
    case True
    let ?s' = "s\<lparr>sys_mem := set_sem a (sem_pending_update (\<lambda>p. p - 1)) (sys_mem s), sys_pc := (sys_pc s)(t := Idle),
      passed := (passed s)(a := Suc (passed s a))\<rparr>"
    have "counts_ok n ?s' x" for x
      using i(2) [of x] t True unfolding counts_ok_def exact_counter_def by (cases "x = a") (auto simp: num_upd waits_def)
    moreover have "queues_ok tcb (sys_pc ?s') (sys_mem ?s') Q"
      by (rule queues_ok_frame [OF Q]) (use t True Q queues_pending in \<open>auto split: if_splits\<close>)
    ultimately show ?thesis using block_pending [OF ta True] pcs_ok_upd [OF i(1)] by (auto simp: sem_inv_def)
  next
    case False
    then obtain m w where m: "do_request tcb me t L4SEMAPHORE_BLOCK a (Blocked a) s = Inr (s\<lparr>sys_mem := m, sys_pc := (sys_pc s)(t := Blocked a)\<rparr>)"
      "enqueued tcb a t w (sys_mem s) m"
      "queues_ok tcb ((sys_pc s)(t := Blocked a)) m (Q(a := queue_insert (\<lambda>i. wq_prio (wq_entries m i)) (wq_prio_of tcb t) w (Q a)))"
      using block_queued [OF Q i(1) n t] by blast
    have "counts_ok n (s\<lparr>sys_mem := m, sys_pc := (sys_pc s)(t := Blocked a)\<rparr>) x" for x
      using i(2) [of x] t m(2) unfolding counts_ok_def exact_counter_def enqueued_def by (cases "x = a") (auto simp: num_upd waits_def)
    moreover have "pcs_ok me ((sys_pc s)(t := Blocked a))" using pcs_ok_upd [OF i(1)] ta by blast
    ultimately have "sem_inv tcb me n (s\<lparr>sys_mem := m, sys_pc := (sys_pc s)(t := Blocked a)\<rparr>)" using m(3) by (auto simp: sem_inv_def)
    then show ?thesis using m(1) by simp
  qed
qed

lemma release_inv:
  assumes inv: "sem_inv tcb me n s" and t: "sys_pc s t = PreRelease a"
  shows "\<exists>s'. do_request tcb me t L4SEMAPHORE_RELEASE a Idle s = Inr s' \<and> sem_inv tcb me n s' \<and> posted s' = posted s \<and>
    (if \<exists>u. sys_pc s u = Blocked a
     then \<exists>y. sys_pc s y = Blocked a \<and> sys_pc s' = (sys_pc s)(t := Idle, y := Idle) \<and> passed s' = (passed s)(a := Suc (passed s a)) \<and>
       (\<forall>z. sys_pc s z = Blocked a \<longrightarrow> wq_prio_of tcb z \<le> wq_prio_of tcb y)
     else sys_pc s' = (sys_pc s)(t := Idle) \<and> passed s' = passed s)"
proof -
  have i: "pcs_ok me (sys_pc s)" "\<And>b. counts_ok n s b" using inv by (auto simp: sem_inv_def)
  obtain Q where Q: "queues_ok tcb (sys_pc s) (sys_mem s) Q" using inv by (auto simp: sem_inv_def)
  have ta: "l4_task_equal me t" "a \<noteq> 0" using pc_place [OF i(1)] t by blast+
  have im: "(\<lambda>i. wq_thread (wq_entries (sys_mem s) i)) ` set (Q a) = {u. sys_pc s u = Blocked a}" using Q unfolding queues_ok_def by blast
  show ?thesis
  proof (cases "Q a")
    case Nil
    let ?s' = "s\<lparr>sys_mem := set_sem a (sem_pending_update (\<lambda>p. p + 1)) (sys_mem s), sys_pc := (sys_pc s)(t := Idle)\<rparr>"
    have "counts_ok n ?s' x" for x
      using i(2) [of x] t unfolding counts_ok_def exact_counter_def by (cases "x = a") (auto simp: num_upd waits_def)
    moreover have "queues_ok tcb (sys_pc ?s') (sys_mem ?s') Q"
      by (rule queues_ok_frame [OF Q]) (use t Nil Q queues_pending in \<open>auto split: if_splits\<close>)
    ultimately have "sem_inv tcb me n ?s'" using pcs_ok_upd [OF i(1)] by (auto simp: sem_inv_def)
    moreover have "\<not> (\<exists>u. sys_pc s u = Blocked a)" using im Nil by auto
    ultimately show ?thesis using release_stored [OF Q ta Nil] by simp
  next
    case (Cons x xs)
    obtain y where y: "do_request tcb me t L4SEMAPHORE_RELEASE a Idle s =
        Inr (s\<lparr>sys_mem := remove_entry a x (sys_mem s), sys_pc := (sys_pc s)(t := Idle, y := Idle), passed := (passed s)(a := Suc (passed s a))\<rparr>)"
      "sys_pc s y = Blocked a" "\<forall>z. sys_pc s z = Blocked a \<longrightarrow> wq_prio_of tcb z \<le> wq_prio_of tcb y"
      "queues_ok tcb ((sys_pc s)(t := Idle, y := Idle)) (remove_entry a x (sys_mem s)) (Q(a := xs))"
      using release_woken [OF Q ta t Cons] by blast
    let ?s' = "s\<lparr>sys_mem := remove_entry a x (sys_mem s), sys_pc := (sys_pc s)(t := Idle, y := Idle), passed := (passed s)(a := Suc (passed s a))\<rparr>"
    have yt: "y \<noteq> t" using y(2) t by auto
    have "counts_ok n ?s' b" for b
      using i(2) [of b] t y(2) yt unfolding counts_ok_def exact_counter_def by (cases "b = a") (auto simp: num_upd waits_def remove_entry_fields)
    moreover have "pcs_ok me (sys_pc ?s')" using pcs_ok_upd [OF pcs_ok_upd [OF i(1)]] by simp
    ultimately have "sem_inv tcb me n ?s'" using y(4) by (auto simp: sem_inv_def)
    then show ?thesis using y by (intro exI [of _ ?s']) auto
  qed
qed

lemma start_inv:
  assumes "\<And>a. n a < 2 ^ 31"
  shows "sem_inv tcb me n (sem_start n m)"
proof -
  have z: "num (\<lambda>_. Idle) S = 0" if "\<not> S Idle" for S using that by (simp add: num_def)
  have "sem_wf (sys_mem (sem_start n m)) (\<lambda>_. [])"
    by (auto simp: sem_wf_def sem_start_def setup_entries_def L4SEMAPHORE_INIT_def linked_def l4_is_invalid_id_def L4_INVALID_ID_def l4_const)
  then have "queues_ok tcb (sys_pc (sem_start n m)) (sys_mem (sem_start n m)) (\<lambda>_. [])"
    by (simp add: queues_ok_def) (simp add: sem_start_def setup_entries_def)
  moreover have "counts_ok n (sem_start n m) a" for a
    using assms [of a] by (simp add: counts_ok_def exact_counter_def sem_start_def setup_entries_def L4SEMAPHORE_INIT_def z waits_def)
  ultimately show ?thesis unfolding sem_inv_def by (auto simp: pcs_ok_def sem_start_def)
qed

lemma step_inv:
  assumes "sem_step False tcb me s s'" "sem_inv tcb me n s" "\<not> l4_task_equal me L4_INVALID_ID"
  shows "sem_inv tcb me n s'"
  using assms(1)
proof cases
  case (down t a)
  then show ?thesis using down_inv [OF assms(2)] by blast
next
  case (block t a)
  then show ?thesis using block_inv [OF assms(2,3)] by fastforce
next
  case (try_down t a)
  then show ?thesis using try_down_inv [OF assms(2)] by blast
next
  case (up t a)
  then show ?thesis using up_inv [OF assms(2)] by blast
next
  case (release t a)
  then show ?thesis using release_inv [OF assms(2)] by fastforce
qed simp_all

lemma reach_inv:
  assumes "sem_reach False tcb me n s" "\<not> l4_task_equal me L4_INVALID_ID" "\<And>a. n a < 2 ^ 31"
  shows "sem_inv tcb me n s"
  using assms(1)
proof induction
  case (sem_reach_start m)
  show ?case by (rule start_inv [OF assms(3)])
next
  case (sem_reach_step s s')
  then show ?case using step_inv assms(2) by blast
qed

text \<open>The accounts of a semaphore in terms of its counter.\<close>

lemma reach_accounts:
  assumes "sem_reach False tcb me n s" "\<not> l4_task_equal me L4_INVALID_ID" "\<And>a. n a < 2 ^ 31"
  shows "int (passed s a) + max 0 (sint (sem_counter (sems (sys_mem s) a))) + num (sys_pc s) (\<lambda>q. q = PreRelease a)
    + int (sem_pending (sems (sys_mem s) a)) = int (n a) + int (posted s a)"
proof -
  have i: "pcs_ok me (sys_pc s)" "counts_ok n s a" using reach_inv [OF assms] by (auto simp: sem_inv_def)
  have "sint (sem_counter (sems (sys_mem s) a)) = exact_counter n s a" by (rule counter_sint [OF i(2,1)])
  then show ?thesis using i(2) unfolding counts_ok_def exact_counter_def by (auto simp: max_def split: if_splits)
qed

section \<open>The contract for clients\<close>

text \<open>What a client that pairs its up operations with earlier down operations may rely on.\<close>

locale semaphore_contract =
  fixes reach :: "'s \<Rightarrow> bool" and passes :: "'s \<Rightarrow> nat" and posts :: "'s \<Rightarrow> nat" and permits :: nat
  assumes permits: "reach s \<Longrightarrow> passes s \<le> permits + posts s"
begin

lemma holders_bounded: "reach s \<Longrightarrow> passes s = posts s + card H \<Longrightarrow> card H \<le> permits"
  using permits [of s] by simp

lemma holders_exclude:
  assumes "permits = 1" "reach s" "finite H" "passes s = posts s + card H" "t \<in> H" "u \<in> H"
  shows "t = u"
  using holders_bounded [OF assms(2,4)] assms(1,3,5,6) by (metis card_le_Suc0_iff_eq One_nat_def)

end

interpretation sem: semaphore_contract
  "\<lambda>s. sem_reach False tcb me n s \<and> \<not> l4_task_equal me L4_INVALID_ID \<and> (\<forall>b. n b < 2 ^ 31)" "\<lambda>s. passed s a" "\<lambda>s. posted s a" "n a"
  for tcb me n a
proof
  fix s assume "sem_reach False tcb me n s \<and> \<not> l4_task_equal me L4_INVALID_ID \<and> (\<forall>b. n b < 2 ^ 31)"
  then show "passed s a \<le> n a + posted s a"
    using reach_accounts [of tcb me n s a] num_nonneg [of "sys_pc s" "\<lambda>q. q = PreRelease a"] by (simp del: num_nonneg)
qed

section \<open>Properties\<close>

text \<open>
  C6. A semaphore gives no more passes than it has permits: whatever the interleaving of the threads that use it with
  \<open>l4semaphore_down\<close>, \<open>l4semaphore_try_down\<close> and \<open>l4semaphore_up\<close>, the completed down operations, the free permits (the
  positive counter), the wake-ups on their way to the semaphore thread and those it has stored add up to the initial
  value and the up operations. So a semaphore of initial value 1 excludes. The task is not the one whose number is that of
  the invalid thread.
\<close>

theorem semaphore_permits:
  assumes "sem_reach False tcb me n s" "\<not> l4_task_equal me L4_INVALID_ID" "\<forall>b. n b < 2 ^ 31"
  shows "int (passed s a) + max 0 (sint (sem_counter (sems (sys_mem s) a))) + int (card {t. sys_pc s t = PreRelease a})
      + int (sem_pending (sems (sys_mem s) a)) = int (n a) + int (posted s a) \<and>
    passed s a \<le> n a + posted s a"
proof -
  from reach_accounts [of tcb me n s a] assms show ?thesis by (simp add: num_def)
qed

text \<open>
  C22. No wake-up is lost: while a thread is blocked at a semaphore and no wake-up is on its way to the semaphore thread,
  all permits are used up, in every interleaving without timeouts.
\<close>

theorem semaphore_no_lost_wakeup:
  assumes "sem_reach False tcb me n s" "\<not> l4_task_equal me L4_INVALID_ID" "\<forall>b. n b < 2 ^ 31"
    "sys_pc s t = Blocked a" "\<forall>u. sys_pc s u \<noteq> PreRelease a"
  shows "passed s a = n a + posted s a"
proof -
  note inv = reach_inv [OF assms(1,2)]
  then obtain Q where Q: "queues_ok tcb (sys_pc s) (sys_mem s) Q" and i: "pcs_ok me (sys_pc s)" "counts_ok n s a"
    using assms(3) by (auto simp: sem_inv_def)
  have "(\<lambda>i. wq_thread (wq_entries (sys_mem s) i)) ` set (Q a) = {t. sys_pc s t = Blocked a}" using Q unfolding queues_ok_def by blast
  then have "Q a \<noteq> []" using assms(4) by auto
  then have p: "sem_pending (sems (sys_mem s) a) = 0" by (rule queues_pending [OF Q])
  have r: "num (sys_pc s) (\<lambda>q. q = PreRelease a) = 0" using assms(5) by (simp add: num_def)
  have "0 < num (sys_pc s) (waits a)" unfolding num_pos_iff using assms(4) by (auto simp: waits_def)
  then have "exact_counter n s a < 0" using i(2) p r unfolding counts_ok_def by linarith
  then have "sint (sem_counter (sems (sys_mem s) a)) < 0" using counter_sint [OF i(2,1)] by simp
  then show ?thesis using reach_accounts [OF assms(1,2), of a] assms(3) p r by simp
qed


text \<open>The state of a system that uses the semaphore at \<open>0x1000\<close> with the initial value 1; threads of the task \<open>512\<close>.\<close>

definition demo_wq :: "l4_threadid_t \<Rightarrow> int \<Rightarrow> l4sem_wq" where
  "demo_wq t p = \<lparr>wq_thread = t, wq_prio = p, wq_next = None, wq_prev = None\<rparr>"

definition demo_sys :: "(nat \<Rightarrow> l4sem_wq) \<Rightarrow> nat \<Rightarrow> u32 \<Rightarrow> nat \<Rightarrow> nat option \<Rightarrow> (l4_threadid_t \<Rightarrow> nat option) \<Rightarrow>
    (l4_threadid_t \<Rightarrow> sem_pc) \<Rightarrow> nat \<Rightarrow> nat \<Rightarrow> sem_sys" where
  "demo_sys es nx c p q d pcs dn un =
     \<lparr>sys_mem = \<lparr>wq_entries = es, next_entry = nx,
        sems = (\<lambda>_. L4SEMAPHORE_INIT 1)(0x1000 := \<lparr>sem_counter = c, sem_pending = p, sem_queue = q\<rparr>), wq_data = d\<rparr>,
      sys_pc = pcs, passed = (\<lambda>_. 0)(0x1000 := dn), posted = (\<lambda>_. 0)(0x1000 := un)\<rparr>"

abbreviation thread_a :: l4_threadid_t where "thread_a \<equiv> 0x04000400"
abbreviation thread_b :: l4_threadid_t where "thread_b \<equiv> 0x04000800"
abbreviation thread_c :: l4_threadid_t where "thread_c \<equiv> 0x04000C00"
abbreviation sem_server :: l4_threadid_t where "sem_server \<equiv> 0x04000000"
abbreviation no_wq :: "nat \<Rightarrow> l4sem_wq" where "no_wq \<equiv> (\<lambda>_. demo_wq L4_INVALID_ID 0)"
abbreviation prio10 :: tcb_prios where "prio10 \<equiv> (\<lambda>_. Some 10)"

lemma demo_tasks [simp]:
  "l4_task_equal sem_server thread_a" "l4_task_equal sem_server thread_b" "l4_task_equal sem_server thread_c"
  "\<not> l4_task_equal sem_server L4_INVALID_ID" "\<not> l4_is_invalid_id thread_a" "\<not> l4_is_invalid_id thread_b" "\<not> l4_is_invalid_id thread_c"
  "l4_is_invalid_id L4_INVALID_ID"
  by (simp_all add: l4_task_equal_def l4_const L4_INVALID_ID_def l4_is_invalid_id_def)

lemma demo_start: "sem_reach timed tcb me (\<lambda>_. 1) (demo_sys no_wq 0 1 0 None (\<lambda>_. None) (\<lambda>_. Idle) 0 0)"
proof -
  have "demo_sys no_wq 0 1 0 None (\<lambda>_. None) (\<lambda>_. Idle) 0 0 = sem_start (\<lambda>_. 1) (sys_mem (demo_sys no_wq 0 1 0 None (\<lambda>_. None) (\<lambda>_. Idle) 0 0))"
    by (auto simp: demo_sys_def sem_start_def setup_entries_def L4SEMAPHORE_INIT_def demo_wq_def fun_eq_iff)
  then show ?thesis by (metis sem_reach_start)
qed

lemma alloc_entry_next:
  "l4_is_invalid_id (wq_thread (wq_entries s (next_entry s))) \<Longrightarrow>
   alloc_entry s = Inr (s\<lparr>next_entry := (next_entry s + 1) mod 256\<rparr>, next_entry s)"
  by (simp add: alloc_entry_def alloc_search.simps l4_const)

lemmas sem_demo_simps = demo_sys_def do_down_def do_up_def do_request_def do_give_back_def down_counter_def up_counter_def Let_def
  case_prod_unfold set_sem_def l4semaphore_thread_def handle_block_def handle_blocktimed_def handle_release_def handle_releasetimed_def
  enqueue_thread_def alloc_entry_next demo_wq_def l4thread_get_prio_def l4thread_data_set_def l4thread_data_get_def wakeup_thread_def
  receiving_def L4SEMAPHORE_BLOCK_def L4SEMAPHORE_RELEASE_def L4SEMAPHORE_BLOCKTIMED_def L4SEMAPHORE_RELEASETIMED_def

text \<open>One step of thread \<open>t\<close> in a run.\<close>

lemma demo_next:
  "sem_reach timed tcb me n s \<Longrightarrow> sem_step timed tcb me s s' \<Longrightarrow> s' = s'' \<Longrightarrow> sem_reach timed tcb me n s''"
  by (blast intro: sem_reach_step)

lemma demo_blocked:
  "sem_reach False prio10 sem_server (\<lambda>_. 1)
     (demo_sys (no_wq(0 := demo_wq thread_b 10)) 1 (- 1) 0 (Some 0) (\<lambda>_. None) ((\<lambda>_. Idle)(thread_b := PreBlock 0x1000, thread_b := Blocked 0x1000)) 1 0)"
proof -
  note r0 = demo_start [of False prio10 sem_server]
  have r1: "sem_reach False prio10 sem_server (\<lambda>_. 1) (demo_sys no_wq 0 0 0 None (\<lambda>_. None) (\<lambda>_. Idle) 1 0)"
    by (rule demo_next [OF r0 down [of _ thread_a "0x1000"]]) (simp_all add: sem_demo_simps)
  have r2: "sem_reach False prio10 sem_server (\<lambda>_. 1) (demo_sys no_wq 0 (- 1) 0 None (\<lambda>_. None) ((\<lambda>_. Idle)(thread_b := PreBlock 0x1000)) 1 0)"
    by (rule demo_next [OF r1 down [of _ thread_b "0x1000"]]) (simp_all add: sem_demo_simps)
  show ?thesis
    by (rule demo_next [OF r2 block [of _ thread_b "0x1000"] refl]) (simp_all add: sem_demo_simps)
qed

lemma demo_fields [simp]:
  "posted (demo_sys es nx c p q d pcs dn un) = (\<lambda>_. 0)(0x1000 := un)" "passed (demo_sys es nx c p q d pcs dn un) = (\<lambda>_. 0)(0x1000 := dn)"
  "sys_pc (demo_sys es nx c p q d pcs dn un) = pcs"
  "sems (sys_mem (demo_sys es nx c p q d pcs dn un)) 0x1000 = \<lparr>sem_counter = c, sem_pending = p, sem_queue = q\<rparr>"
  by (simp_all add: demo_sys_def)

theorem semaphore_permits_witness: "\<exists>s. sem_reach False prio10 sem_server (\<lambda>_. 1) s \<and> passed s 0x1000 = 1 \<and> passed s 0x1000 \<le> 1 + posted s 0x1000"
  using semaphore_permits [OF demo_blocked, of "0x1000"] demo_blocked by (intro exI conjI) (assumption, simp_all)

theorem semaphore_no_lost_wakeup_witness:
  "\<exists>s. sem_reach False prio10 sem_server (\<lambda>_. 1) s \<and> sys_pc s thread_b = Blocked 0x1000 \<and> passed s 0x1000 = 1 + posted s 0x1000"
  using semaphore_no_lost_wakeup [OF demo_blocked, of thread_b "0x1000"] demo_blocked by (intro exI conjI) (assumption, simp_all)


section \<open>Timeouts\<close>

text \<open>
  With \<open>l4semaphore_down_timed\<close> a permit can be lost: a wake-up that finds only a waiter whose timeout has expired is
  dropped, although another thread has already decremented the counter and is about to send its block message. That
  thread then waits for ever at a free semaphore.
\<close>

lemma timed_lost_wakeup:
  "\<exists>s. sem_reach True prio10 sem_server (\<lambda>_. 1) s \<and> sys_pc s thread_c = Blocked 0x1000 \<and> (\<forall>u. u \<noteq> thread_c \<longrightarrow> sys_pc s u = Idle) \<and>
    passed s 0x1000 = 1 \<and> posted s 0x1000 = 1 \<and> sem_counter (sems (sys_mem s) 0x1000) = 0 \<and> sem_pending (sems (sys_mem s) 0x1000) = 0"
proof -
  let ?E1 = "no_wq(0 := demo_wq thread_b 10)" and ?E2 = "no_wq(0 := demo_wq L4_INVALID_ID 10)"
  let ?p2 = "(\<lambda>_. Idle)(thread_b := PreBlockTimed 0x1000)" let ?p3 = "?p2(thread_b := BlockedTimed 0x1000)"
  let ?p4 = "?p3(thread_c := PreBlock 0x1000)" let ?p5 = "?p4(thread_b := TimedOut 0x1000)"
  let ?p6 = "?p5(thread_a := PreRelease 0x1000)" let ?p7 = "?p6(thread_a := Idle)" let ?p8 = "?p7(thread_b := PreReleaseTimed 0x1000)"
  let ?p9 = "?p8(thread_b := Idle)" let ?p10 = "?p9(thread_c := Blocked 0x1000)"
  let ?N = "\<lambda>_ :: l4_threadid_t. None :: nat option" let ?D = "?N(thread_b := Some 0)"
  let ?R = "sem_reach True prio10 sem_server (\<lambda>_. 1)"
  note r0 = demo_start [of True prio10 sem_server]
  have r1: "?R (demo_sys no_wq 0 0 0 None ?N (\<lambda>_. Idle) 1 0)"
    by (rule demo_next [OF r0 down [of _ thread_a "0x1000"]]) (simp_all add: sem_demo_simps)
  have r2: "?R (demo_sys no_wq 0 (- 1) 0 None ?N ?p2 1 0)"
    by (rule demo_next [OF r1 down_timed [of _ _ thread_b "0x1000"]]) (simp_all add: sem_demo_simps)
  have r3: "?R (demo_sys ?E1 1 (- 1) 0 (Some 0) ?D ?p3 1 0)"
    by (rule demo_next [OF r2 block_timed [of _ _ thread_b "0x1000"] refl]) (simp_all add: sem_demo_simps)
  have r4: "?R (demo_sys ?E1 1 (- 2) 0 (Some 0) ?D ?p4 1 0)"
    by (rule demo_next [OF r3 down [of _ thread_c "0x1000"]]) (simp_all add: sem_demo_simps)
  have r5: "?R (demo_sys ?E1 1 (- 2) 0 (Some 0) ?D ?p5 1 0)"
    by (rule demo_next [OF r4 timeout [of _ _ thread_b "0x1000"]]) (simp_all add: demo_sys_def)
  have r6: "?R (demo_sys ?E1 1 (- 1) 0 (Some 0) ?D ?p6 1 1)"
    by (rule demo_next [OF r5 up [of _ thread_a "0x1000"]]) (simp_all add: sem_demo_simps)
  have r7: "?R (demo_sys ?E2 1 (- 1) 0 None ?N ?p7 1 1)"
    by (rule demo_next [OF r6 release [of _ thread_a "0x1000"] refl])
      (simp_all add: sem_demo_simps release_loop.simps free_entry_def set_next_def set_prev_def)
  have r8: "?R (demo_sys ?E2 1 0 0 None ?N ?p8 1 1)"
    by (rule demo_next [OF r7 give_back [of _ _ thread_b "0x1000"]]) (simp_all add: sem_demo_simps)
  have r9: "?R (demo_sys ?E2 1 0 0 None ?N ?p9 1 1)"
    by (rule demo_next [OF r8 release_timed [of _ _ thread_b "0x1000"] refl]) (simp_all add: sem_demo_simps)
  have r10: "?R (demo_sys (?E2(1 := demo_wq thread_c 10)) 2 0 0 (Some 1) ?N ?p10 1 1)"
    by (rule demo_next [OF r9 block [of _ thread_c "0x1000"] refl]) (simp_all add: sem_demo_simps)
  then show ?thesis by (intro exI conjI) (assumption, simp_all)
qed

text \<open>
  A stored wake-up is not taken back when the thread it belongs to times out before the answer to its block message:
  the thread gives its count back, and the stored wake-up is one permit too many.
\<close>

lemma timed_extra_permit:
  "\<exists>s. sem_reach True prio10 sem_server (\<lambda>_. 1) s \<and> passed s 0x1000 = 3 \<and> posted s 0x1000 = 1"
proof -
  let ?p2 = "(\<lambda>_. Idle)(thread_b := PreBlockTimed 0x1000)" let ?p3 = "?p2(thread_a := PreRelease 0x1000)" let ?p4 = "?p3(thread_a := Idle)"
  let ?p5 = "?p4(thread_b := TimedOut 0x1000)" let ?p6 = "?p5(thread_b := PreReleaseTimed 0x1000)" let ?p7 = "?p6(thread_b := Idle)"
  let ?p9 = "?p7(thread_c := PreBlock 0x1000)" let ?p10 = "?p9(thread_c := Blocked 0x1000, thread_c := Idle)"
  let ?N = "\<lambda>_ :: l4_threadid_t. None :: nat option"
  let ?R = "sem_reach True prio10 sem_server (\<lambda>_. 1)"
  note r0 = demo_start [of True prio10 sem_server]
  have r1: "?R (demo_sys no_wq 0 0 0 None ?N (\<lambda>_. Idle) 1 0)"
    by (rule demo_next [OF r0 down [of _ thread_a "0x1000"]]) (simp_all add: sem_demo_simps)
  have r2: "?R (demo_sys no_wq 0 (- 1) 0 None ?N ?p2 1 0)"
    by (rule demo_next [OF r1 down_timed [of _ _ thread_b "0x1000"]]) (simp_all add: sem_demo_simps)
  have r3: "?R (demo_sys no_wq 0 0 0 None ?N ?p3 1 1)"
    by (rule demo_next [OF r2 up [of _ thread_a "0x1000"]]) (simp_all add: sem_demo_simps)
  have r4: "?R (demo_sys no_wq 0 0 1 None ?N ?p4 1 1)"
    by (rule demo_next [OF r3 release [of _ thread_a "0x1000"] refl]) (simp_all add: sem_demo_simps)
  have r5: "?R (demo_sys no_wq 0 0 1 None ?N ?p5 1 1)"
    by (rule demo_next [OF r4 block_timed_late [of _ _ thread_b "0x1000"] refl]) (simp_all add: sem_demo_simps)
  have r6: "?R (demo_sys no_wq 0 1 1 None ?N ?p6 1 1)"
    by (rule demo_next [OF r5 give_back [of _ _ thread_b "0x1000"]]) (simp_all add: sem_demo_simps)
  have r7: "?R (demo_sys no_wq 0 1 1 None ?N ?p7 1 1)"
    by (rule demo_next [OF r6 release_timed [of _ _ thread_b "0x1000"] refl]) (simp_all add: sem_demo_simps)
  have r8: "?R (demo_sys no_wq 0 0 1 None ?N ?p7 (Suc 1) 1)"
    by (rule demo_next [OF r7 down [of _ thread_a "0x1000"]]) (simp_all add: sem_demo_simps)
  have r9: "?R (demo_sys no_wq 0 (- 1) 1 None ?N ?p9 (Suc 1) 1)"
    by (rule demo_next [OF r8 down [of _ thread_c "0x1000"]]) (simp_all add: sem_demo_simps)
  have r10: "?R (demo_sys no_wq 0 (- 1) 0 None ?N ?p10 (Suc (Suc 1)) 1)"
    by (rule demo_next [OF r9 block [of _ thread_c "0x1000"] refl]) (simp_all add: sem_demo_simps)
  then show ?thesis by (intro exI conjI) (assumption, simp_all)
qed

end
