(* ===== verification/L4Lock.thy ===== *)
theory L4Lock
  imports Semaphore
begin

text \<open>
  The lock library (\<open>lock/include/lock.h\<close>): a lock that its owner may enter again, on top of a semaphore. The semaphore is
  the first member of \<open>struct l4lock\<close>, so the address of the lock is the address of its semaphore. The threads of the task
  run concurrently with each other and with the semaphore thread; a step is one access to the lock or one step of the
  semaphore operations. For clients that are modelled one call at a time, the lock operations are also given as functions
  on the lock alone.
\<close>

section \<open>The lock for one caller\<close>

record l4lock_t =
  lk_counter :: u32
  lk_owner :: l4_threadid_t
  lk_ref_count :: int

definition L4THREAD_INVALID_ID :: l4_threadid_t where "L4THREAD_INVALID_ID = L4_INVALID_ID"

definition L4LOCK_UNLOCKED :: l4lock_t where
  "L4LOCK_UNLOCKED = \<lparr>lk_counter = 1, lk_owner = L4THREAD_INVALID_ID, lk_ref_count = 0\<rparr>"

text \<open>A call of \<open>l4lock_lock\<close> returns at once or waits for another thread; nothing is known of the other threads here, so
  the wait is \<open>Diverge\<close>. \<open>l4lock_unlock\<close> raises the semaphore.\<close>

definition l4lock_lock :: "l4_threadid_t \<Rightarrow> l4lock_t \<Rightarrow> l4lock_t res" where
  "l4lock_lock me l =
     (if lk_owner l = me then Inr (l\<lparr>lk_ref_count := lk_ref_count l + 1\<rparr>)
      else if sint (lk_counter l) - 1 < 0 then Inl Diverge
      else Inr (l\<lparr>lk_counter := lk_counter l - 1, lk_owner := me, lk_ref_count := 1\<rparr>))"

definition l4lock_unlock :: "l4_threadid_t \<Rightarrow> l4lock_t \<Rightarrow> l4lock_t" where
  "l4lock_unlock me l =
     (if lk_owner l \<noteq> me then l
      else (let l1 = l\<lparr>lk_ref_count := lk_ref_count l - 1\<rparr>
            in if lk_ref_count l1 \<le> 0 then l1\<lparr>lk_owner := L4THREAD_INVALID_ID, lk_counter := lk_counter l1 + 1\<rparr> else l1))"

definition l4lock_owner :: "l4lock_t \<Rightarrow> l4_threadid_t" where
  "l4lock_owner l = lk_owner l"

text \<open>The lock is free, or held by its owner.\<close>

definition lock_free_for :: "l4_threadid_t \<Rightarrow> l4lock_t \<Rightarrow> bool" where
  "lock_free_for me l \<longleftrightarrow> me \<noteq> L4THREAD_INVALID_ID \<and> (l = L4LOCK_UNLOCKED \<or> lk_owner l = me \<and> 0 < lk_ref_count l)"

lemma lock_unlock_back:
  assumes "lock_free_for me l"
  shows "\<exists>l1. l4lock_lock me l = Inr l1 \<and> l4lock_unlock me l1 = l"
  using assms by (cases l) (auto simp: lock_free_for_def l4lock_lock_def l4lock_unlock_def L4LOCK_UNLOCKED_def Let_def)

section \<open>Concurrent callers\<close>

text \<open>
  \<open>LOut\<close> and \<open>LIn\<close>: outside and between lock and unlock. \<open>LDown\<close>: in the semaphore operation of lock. \<open>LOwner\<close>: the owner
  is set, the reference counter not yet. \<open>LRelease\<close>: the reference counter has reached 0. \<open>LUp\<close>: the owner is cleared.
\<close>

datatype lk_point = LOut | LDown | LOwner | LIn | LRelease | LUp

record lock_sys =
  ls_sem :: sem_sys
  ls_owner :: l4_threadid_t
  ls_ref_count :: int
  ls_pc :: "l4_threadid_t \<Rightarrow> lk_point"

definition at_point :: "l4_threadid_t \<Rightarrow> lk_point \<Rightarrow> lock_sys \<Rightarrow> lock_sys" where
  "at_point t p s = s\<lparr>ls_pc := (ls_pc s)(t := p)\<rparr>"

definition lock_enter :: "l4_addr_t \<Rightarrow> l4_threadid_t \<Rightarrow> lock_sys \<Rightarrow> lock_sys" where
  "lock_enter a t s =
     (if ls_owner s = t then s\<lparr>ls_ref_count := ls_ref_count s + 1\<rparr>
      else at_point t LDown (s\<lparr>ls_sem := do_down PreBlock t a (ls_sem s)\<rparr>))"

definition try_enter :: "l4_addr_t \<Rightarrow> l4_threadid_t \<Rightarrow> lock_sys \<Rightarrow> lock_sys" where
  "try_enter a t s =
     (if ls_owner s = t then s\<lparr>ls_ref_count := ls_ref_count s + 1\<rparr>
      else (let s1 = s\<lparr>ls_sem := do_try_down t a (ls_sem s)\<rparr>
            in if snd (l4semaphore_try_down (sems (sys_mem (ls_sem s)) a)) then at_point t LDown s1 else s1))"

definition lock_leave :: "l4_threadid_t \<Rightarrow> lock_sys \<Rightarrow> lock_sys" where
  "lock_leave t s =
     (if ls_owner s \<noteq> t then s
      else (let s1 = s\<lparr>ls_ref_count := ls_ref_count s - 1\<rparr>
            in if ls_ref_count s1 \<le> 0 then at_point t LRelease s1 else s1))"

inductive lk_step :: "tcb_prios \<Rightarrow> l4_threadid_t \<Rightarrow> l4_addr_t \<Rightarrow> lock_sys \<Rightarrow> lock_sys \<Rightarrow> bool" for tcb me a where
  lk_enter: "l4_task_equal me t \<Longrightarrow> ls_pc s t \<in> {LOut, LIn} \<Longrightarrow> sys_pc (ls_sem s) t = Idle \<Longrightarrow> lk_step tcb me a s (lock_enter a t s)"
| lk_try: "l4_task_equal me t \<Longrightarrow> ls_pc s t \<in> {LOut, LIn} \<Longrightarrow> sys_pc (ls_sem s) t = Idle \<Longrightarrow> lk_step tcb me a s (try_enter a t s)"
| lk_block: "sys_pc (ls_sem s) t = PreBlock a \<Longrightarrow> do_request tcb me t L4SEMAPHORE_BLOCK a (Blocked a) (ls_sem s) = Inr s' \<Longrightarrow>
    lk_step tcb me a s (s\<lparr>ls_sem := s'\<rparr>)"
| lk_release: "sys_pc (ls_sem s) t = PreRelease a \<Longrightarrow> do_request tcb me t L4SEMAPHORE_RELEASE a Idle (ls_sem s) = Inr s' \<Longrightarrow>
    lk_step tcb me a s (s\<lparr>ls_sem := s'\<rparr>)"
| lk_got: "ls_pc s t = LDown \<Longrightarrow> sys_pc (ls_sem s) t = Idle \<Longrightarrow> lk_step tcb me a s (at_point t LOwner (s\<lparr>ls_owner := t\<rparr>))"
| lk_count: "ls_pc s t = LOwner \<Longrightarrow> lk_step tcb me a s (at_point t LIn (s\<lparr>ls_ref_count := 1\<rparr>))"
| lk_leave: "l4_task_equal me t \<Longrightarrow> ls_pc s t \<in> {LOut, LIn} \<Longrightarrow> sys_pc (ls_sem s) t = Idle \<Longrightarrow> lk_step tcb me a s (lock_leave t s)"
| lk_clear: "ls_pc s t = LRelease \<Longrightarrow> lk_step tcb me a s (at_point t LUp (s\<lparr>ls_owner := L4THREAD_INVALID_ID\<rparr>))"
| lk_up: "ls_pc s t = LUp \<Longrightarrow> lk_step tcb me a s (at_point t LOut (s\<lparr>ls_sem := do_up t a (ls_sem s)\<rparr>))"

text \<open>\<open>L4LOCK_UNLOCKED_INITIALIZER\<close>.\<close>

definition lock_start :: "sem_mem \<Rightarrow> lock_sys" where
  "lock_start m = \<lparr>ls_sem = sem_start (\<lambda>_. 1) m, ls_owner = L4THREAD_INVALID_ID, ls_ref_count = 0, ls_pc = (\<lambda>_. LOut)\<rparr>"

inductive lk_reach :: "tcb_prios \<Rightarrow> l4_threadid_t \<Rightarrow> l4_addr_t \<Rightarrow> lock_sys \<Rightarrow> bool" for tcb me a where
  lk_reach_start: "lk_reach tcb me a (lock_start m)"
| lk_reach_step: "lk_reach tcb me a s \<Longrightarrow> lk_step tcb me a s s' \<Longrightarrow> lk_reach tcb me a s'"

section \<open>The invariant\<close>

text \<open>The threads that have passed the semaphore and not raised it yet.\<close>

definition holders :: "lock_sys \<Rightarrow> l4_threadid_t set" where
  "holders s = {t. ls_pc s t \<in> {LOwner, LIn, LRelease, LUp} \<or> ls_pc s t = LDown \<and> sys_pc (ls_sem s) t = Idle}"

text \<open>How far a thread can be in the semaphore operations at a point of the lock operations.\<close>

fun point_ok :: "l4_addr_t \<Rightarrow> lk_point \<Rightarrow> sem_pc \<Rightarrow> bool" where
  "point_ok a LDown q \<longleftrightarrow> q = Idle \<or> q = PreBlock a \<or> q = Blocked a"
| "point_ok a LOut q \<longleftrightarrow> q = Idle \<or> q = PreRelease a"
| "point_ok a _ q \<longleftrightarrow> q = Idle"

definition owning :: "lk_point \<Rightarrow> bool" where
  "owning p \<longleftrightarrow> p = LOwner \<or> p = LIn \<or> p = LRelease"

definition lk_inv :: "tcb_prios \<Rightarrow> l4_threadid_t \<Rightarrow> l4_addr_t \<Rightarrow> lock_sys \<Rightarrow> bool" where
  "lk_inv tcb me a s \<longleftrightarrow> sem_reach False tcb me (\<lambda>_. 1) (ls_sem s) \<and>
     passed (ls_sem s) a = posted (ls_sem s) a + card (holders s) \<and>
     (\<forall>t. ls_pc s t \<noteq> LOut \<longrightarrow> l4_task_equal me t) \<and>
     (\<forall>t. point_ok a (ls_pc s t) (sys_pc (ls_sem s) t)) \<and>
     (\<forall>t. l4_task_equal me t \<longrightarrow> (ls_owner s = t \<longleftrightarrow> owning (ls_pc s t))) \<and>
     (\<forall>t. ls_pc s t = LIn \<longrightarrow> 1 \<le> ls_ref_count s)"

lemma card_upd:
  fixes A B :: "l4_threadid_t set"
  assumes "\<And>x. x \<noteq> t \<Longrightarrow> x \<in> A \<longleftrightarrow> x \<in> B"
  shows "card A + of_bool (t \<in> B) = card B + of_bool (t \<in> A)"
proof -
  have d: "A - {t} = B - {t}" using assms by auto
  have c: "card C = card (C - {t}) + of_bool (t \<in> C)" for C :: "l4_threadid_t set"
  proof (cases "t \<in> C")
    case True
    then show ?thesis using card_Suc_Diff1 [OF finite True] by simp
  qed simp
  have "card A = card (B - {t}) + of_bool (t \<in> A)" using c [of A] unfolding d .
  then show ?thesis using c [of B] by linarith
qed

lemma lk_excl:
  assumes "lk_inv tcb me a s" "\<not> l4_task_equal me L4_INVALID_ID" "t \<in> holders s" "u \<in> holders s"
  shows "t = u"
  by (rule sem.holders_exclude [of "\<lambda>_. 1" a tcb me "ls_sem s"]) (use assms in \<open>auto simp: lk_inv_def\<close>)

lemma lk_parts:
  assumes "lk_inv tcb me a s"
  shows "sem_reach False tcb me (\<lambda>_. 1) (ls_sem s)" "passed (ls_sem s) a = posted (ls_sem s) a + card (holders s)"
    "ls_pc s t \<noteq> LOut \<Longrightarrow> l4_task_equal me t" "point_ok a (ls_pc s t) (sys_pc (ls_sem s) t)"
    "l4_task_equal me t \<Longrightarrow> ls_owner s = t \<longleftrightarrow> owning (ls_pc s t)" "ls_pc s t = LIn \<Longrightarrow> 1 \<le> ls_ref_count s"
  using assms unfolding lk_inv_def by blast+

text \<open>A step that changes who holds the semaphore for the thread \<open>t\<close> only.\<close>

lemma lk_inv_step:
  assumes inv: "lk_inv tcb me a s" and r: "sem_reach False tcb me (\<lambda>_. 1) (ls_sem s')"
    and h: "\<And>x. x \<noteq> t \<Longrightarrow> x \<in> holders s' \<longleftrightarrow> x \<in> holders s"
    and acc: "passed (ls_sem s') a + posted (ls_sem s) a + of_bool (t \<in> holders s) = passed (ls_sem s) a + posted (ls_sem s') a + of_bool (t \<in> holders s')"
    and "\<And>x. ls_pc s' x \<noteq> LOut \<Longrightarrow> l4_task_equal me x" "\<And>x. point_ok a (ls_pc s' x) (sys_pc (ls_sem s') x)"
    "\<And>x. l4_task_equal me x \<Longrightarrow> ls_owner s' = x \<longleftrightarrow> owning (ls_pc s' x)" "\<And>x. ls_pc s' x = LIn \<Longrightarrow> 1 \<le> ls_ref_count s'"
  shows "lk_inv tcb me a s'"
proof -
  have "card (holders s') + of_bool (t \<in> holders s) = card (holders s) + of_bool (t \<in> holders s')" by (rule card_upd) (rule h)
  then have "passed (ls_sem s') a = posted (ls_sem s') a + card (holders s')" using lk_parts(2) [OF inv] acc by linarith
  then show ?thesis unfolding lk_inv_def using assms(2,5-8) by blast
qed

lemma at_point_simps [simp]:
  "ls_pc (at_point t p s) = (ls_pc s)(t := p)" "ls_sem (at_point t p s) = ls_sem s" "ls_owner (at_point t p s) = ls_owner s"
  "ls_ref_count (at_point t p s) = ls_ref_count s"
  by (simp_all add: at_point_def)

lemma owning_simps [simp]: "owning LOwner" "owning LIn" "owning LRelease" "\<not> owning LOut" "\<not> owning LDown" "\<not> owning LUp"
  by (simp_all add: owning_def)

lemma holders_iff:
  "x \<in> holders s \<longleftrightarrow> owning (ls_pc s x) \<or> ls_pc s x = LUp \<or> ls_pc s x = LDown \<and> sys_pc (ls_sem s) x = Idle"
  by (auto simp: holders_def owning_def)

lemma point_idle: "point_ok a p q \<Longrightarrow> p \<noteq> LDown \<Longrightarrow> p \<noteq> LOut \<Longrightarrow> q = Idle"
  by (cases p) simp_all

lemma down_pcs:
  "sys_pc (do_down PreBlock t a s) = sys_pc s \<and> passed (do_down PreBlock t a s) = (passed s)(a := Suc (passed s a)) \<or>
   sys_pc (do_down PreBlock t a s) = (sys_pc s)(t := PreBlock a) \<and> passed (do_down PreBlock t a s) = passed s"
  "posted (do_down PreBlock t a s) = posted s"
  by (auto simp: do_down_def Let_def case_prod_unfold)

lemma enter_inv:
  assumes inv: "lk_inv tcb me a s" and a: "a \<noteq> 0" and t: "l4_task_equal me t" "ls_pc s t \<in> {LOut, LIn}" "sys_pc (ls_sem s) t = Idle"
  shows "lk_inv tcb me a (lock_enter a t s)"
proof (cases "ls_owner s = t")
  case True
  then have "owning (ls_pc s t)" using lk_parts(5) [OF inv t(1)] by simp
  have e: "lock_enter a t s = s\<lparr>ls_ref_count := ls_ref_count s + 1\<rparr>" using True by (simp add: lock_enter_def)
  show ?thesis unfolding e
    by (rule lk_inv_step [OF inv, where t = t]) (use lk_parts [OF inv] in \<open>auto simp: holders_iff dest: order_trans [rotated]\<close>, fastforce)
next
  case False
  then have p: "ls_pc s t = LOut" using lk_parts(5) [OF inv t(1)] t(2) by auto
  let ?d = "do_down PreBlock t a (ls_sem s)"
  have e: "lock_enter a t s = at_point t LDown (s\<lparr>ls_sem := ?d\<rparr>)" using False by (simp add: lock_enter_def)
  have st: "sem_step False tcb me (ls_sem s) ?d" by (rule down [OF t(1) a t(3)])
  note r = sem_reach_step [OF lk_parts(1) [OF inv] st]
  have pk: "\<And>x. point_ok a (ls_pc s x) (sys_pc (ls_sem s) x)" by (rule lk_parts(4) [OF inv])
  show ?thesis unfolding e
    by (rule lk_inv_step [OF inv, where t = t])
      (use r p t pk down_pcs [of t a "ls_sem s"] lk_parts(3,5,6) [OF inv] False in \<open>auto simp: holders_iff split: if_splits\<close>)
qed

lemma try_inv:
  assumes inv: "lk_inv tcb me a s" and a: "a \<noteq> 0" and t: "l4_task_equal me t" "ls_pc s t \<in> {LOut, LIn}" "sys_pc (ls_sem s) t = Idle"
  shows "lk_inv tcb me a (try_enter a t s)"
proof (cases "ls_owner s = t")
  case True
  then show ?thesis using enter_inv [OF assms] by (simp add: try_enter_def lock_enter_def)
next
  case False
  then have p: "ls_pc s t = LOut" using lk_parts(5) [OF inv t(1)] t(2) by auto
  let ?d = "do_try_down t a (ls_sem s)" and ?g = "snd (l4semaphore_try_down (sems (sys_mem (ls_sem s)) a))"
  have e: "try_enter a t s = (if ?g then at_point t LDown (s\<lparr>ls_sem := ?d\<rparr>) else s\<lparr>ls_sem := ?d\<rparr>)" using False by (simp add: try_enter_def Let_def)
  have st: "sem_step False tcb me (ls_sem s) ?d" by (rule try_down [OF t(1) a t(3)])
  note r = sem_reach_step [OF lk_parts(1) [OF inv] st]
  have d: "sys_pc ?d = sys_pc (ls_sem s)" "posted ?d = posted (ls_sem s)"
    "passed ?d = (if ?g then (passed (ls_sem s))(a := Suc (passed (ls_sem s) a)) else passed (ls_sem s))"
    by (auto simp: do_try_down_def Let_def case_prod_unfold)
  show ?thesis unfolding e
    by (rule lk_inv_step [OF inv, where t = t])
      (use r p t d lk_parts(3-6) [OF inv] False in \<open>auto simp: holders_iff split: if_splits\<close>)
qed

lemma block_lk_inv:
  assumes inv: "lk_inv tcb me a s" and n: "\<not> l4_task_equal me L4_INVALID_ID" and t: "sys_pc (ls_sem s) t = PreBlock a"
    and d: "do_request tcb me t L4SEMAPHORE_BLOCK a (Blocked a) (ls_sem s) = Inr s'"
  shows "lk_inv tcb me a (s\<lparr>ls_sem := s'\<rparr>)"
proof -
  have i: "sem_inv tcb me (\<lambda>_. 1) (ls_sem s)" by (rule reach_inv [OF lk_parts(1) [OF inv] n]) simp
  have s': "posted s' = posted (ls_sem s)"
    "sys_pc s' = (sys_pc (ls_sem s))(t := Blocked a) \<and> passed s' = passed (ls_sem s) \<or>
     sys_pc s' = (sys_pc (ls_sem s))(t := Idle) \<and> passed s' = (passed (ls_sem s))(a := Suc (passed (ls_sem s) a))"
    using block_inv [OF i n t] d by auto
  have r: "sem_reach False tcb me (\<lambda>_. 1) s'" using sem_reach_step [OF lk_parts(1) [OF inv] block [OF t d]] .
  have p: "ls_pc s t = LDown" using lk_parts(4) [OF inv, of t] t by (cases "ls_pc s t") simp_all
  show ?thesis
    by (rule lk_inv_step [OF inv, where t = t]) (use r p t s' lk_parts(3-6) [OF inv] in \<open>auto simp: holders_iff split: if_splits\<close>)
qed

lemma release_lk_inv:
  assumes inv: "lk_inv tcb me a s" and n: "\<not> l4_task_equal me L4_INVALID_ID" and t: "sys_pc (ls_sem s) t = PreRelease a"
    and d: "do_request tcb me t L4SEMAPHORE_RELEASE a Idle (ls_sem s) = Inr s'"
  shows "lk_inv tcb me a (s\<lparr>ls_sem := s'\<rparr>)"
proof -
  have i: "sem_inv tcb me (\<lambda>_. 1) (ls_sem s)" by (rule reach_inv [OF lk_parts(1) [OF inv] n]) simp
  have r: "sem_reach False tcb me (\<lambda>_. 1) s'" using sem_reach_step [OF lk_parts(1) [OF inv] release [OF t d]] .
  have p: "ls_pc s t = LOut" using lk_parts(4) [OF inv, of t] t by (cases "ls_pc s t") simp_all
  have po: "posted s' = posted (ls_sem s)" using release_inv [OF i t] d by auto
  show ?thesis
  proof (cases "\<exists>u. sys_pc (ls_sem s) u = Blocked a")
    case True
    then obtain y where y: "sys_pc (ls_sem s) y = Blocked a" "sys_pc s' = (sys_pc (ls_sem s))(t := Idle, y := Idle)"
      "passed s' = (passed (ls_sem s))(a := Suc (passed (ls_sem s) a))" using release_inv [OF i t] d by auto
    have py: "ls_pc s y = LDown" using lk_parts(4) [OF inv, of y] y(1) by (cases "ls_pc s y") simp_all
    show ?thesis
      by (rule lk_inv_step [OF inv, where t = y]) (use r p py t y po lk_parts(3-6) [OF inv] in \<open>auto simp: holders_iff split: if_splits\<close>)
  next
    case False
    then have "sys_pc s' = (sys_pc (ls_sem s))(t := Idle)" "passed s' = passed (ls_sem s)" using release_inv [OF i t] d by auto
    then show ?thesis
      by (intro lk_inv_step [OF inv, where t = t]) (use r p t po lk_parts(3-6) [OF inv] in \<open>auto simp: holders_iff split: if_splits\<close>)
  qed
qed

lemma got_inv:
  assumes inv: "lk_inv tcb me a s" and n: "\<not> l4_task_equal me L4_INVALID_ID" and t: "ls_pc s t = LDown" "sys_pc (ls_sem s) t = Idle"
  shows "lk_inv tcb me a (at_point t LOwner (s\<lparr>ls_owner := t\<rparr>))"
proof -
  have ex: "owning (ls_pc s x) \<Longrightarrow> x = t" for x using lk_excl [OF inv n, of x t] t by (simp add: holders_iff)
  have nl: "ls_pc s x \<noteq> LIn" for x using ex [of x] t(1) by (metis lk_point.distinct owning_simps(2))
  show ?thesis
    by (rule lk_inv_step [OF inv, where t = t]) (use t ex nl lk_parts [OF inv] in \<open>auto simp: holders_iff split: if_splits\<close>)
qed

lemma count_inv:
  assumes inv: "lk_inv tcb me a s" and t: "ls_pc s t = LOwner"
  shows "lk_inv tcb me a (at_point t LIn (s\<lparr>ls_ref_count := 1\<rparr>))"
  by (rule lk_inv_step [OF inv, where t = t])
    (use t lk_parts [OF inv] point_idle [OF lk_parts(4) [OF inv, of t]] in \<open>auto simp: holders_iff split: if_splits\<close>)

lemma leave_inv:
  assumes inv: "lk_inv tcb me a s" and n: "\<not> l4_task_equal me L4_INVALID_ID" and t: "l4_task_equal me t" "ls_pc s t \<in> {LOut, LIn}"
  shows "lk_inv tcb me a (lock_leave t s)"
proof (cases "ls_owner s = t")
  case True
  then have p: "ls_pc s t = LIn" using lk_parts(5) [OF inv t(1)] t(2) by auto
  have ex: "x \<noteq> t \<Longrightarrow> ls_pc s x \<noteq> LIn" for x using lk_excl [OF inv n, of x t] p by (auto simp: holders_iff)
  have i: "sys_pc (ls_sem s) t = Idle" using lk_parts(4) [OF inv, of t] p by simp
  show ?thesis
  proof (cases "ls_ref_count s - 1 \<le> 0")
    case r: True
    have e: "lock_leave t s = at_point t LRelease (s\<lparr>ls_ref_count := ls_ref_count s - 1\<rparr>)"
      using True r by (simp add: lock_leave_def Let_def)
    show ?thesis unfolding e
      by (rule lk_inv_step [OF inv, where t = t])
        (use p ex i lk_parts [OF inv] in \<open>auto simp: holders_iff split: if_splits\<close>)
  next
    case r: False
    have e: "lock_leave t s = s\<lparr>ls_ref_count := ls_ref_count s - 1\<rparr>" using True r by (simp add: lock_leave_def Let_def)
    show ?thesis unfolding e
      by (rule lk_inv_step [OF inv, where t = t]) (use r lk_parts [OF inv] in \<open>auto simp: holders_iff\<close>)
  qed
qed (simp add: lock_leave_def inv)

lemma clear_inv:
  assumes inv: "lk_inv tcb me a s" and n: "\<not> l4_task_equal me L4_INVALID_ID" and t: "ls_pc s t = LRelease"
  shows "lk_inv tcb me a (at_point t LUp (s\<lparr>ls_owner := L4THREAD_INVALID_ID\<rparr>))"
proof -
  have ex: "owning (ls_pc s x) \<Longrightarrow> x = t" for x using lk_excl [OF inv n, of x t] t by (simp add: holders_iff)
  have o: "l4_task_equal me x \<Longrightarrow> x \<noteq> L4THREAD_INVALID_ID" for x using n by (auto simp: L4THREAD_INVALID_ID_def)
  show ?thesis
    by (rule lk_inv_step [OF inv, where t = t])
      (use t ex o lk_parts [OF inv] point_idle [OF lk_parts(4) [OF inv, of t]] in \<open>auto simp: holders_iff split: if_splits\<close>)
qed

lemma up_lk_inv:
  assumes inv: "lk_inv tcb me a s" and a: "a \<noteq> 0" and n: "\<not> l4_task_equal me L4_INVALID_ID" and t: "ls_pc s t = LUp"
  shows "lk_inv tcb me a (at_point t LOut (s\<lparr>ls_sem := do_up t a (ls_sem s)\<rparr>))"
proof -
  have ti: "l4_task_equal me t" "sys_pc (ls_sem s) t = Idle" using lk_parts(3,4) [OF inv, of t] t by auto
  have "max 0 (sint (sem_counter (sems (sys_mem (ls_sem s)) a))) \<le> 1 + int (posted (ls_sem s) a) - int (passed (ls_sem s) a)"
  proof -
    have "int (passed (ls_sem s) a) + max 0 (sint (sem_counter (sems (sys_mem (ls_sem s)) a))) + num (sys_pc (ls_sem s)) (\<lambda>q. q = PreRelease a)
      + int (sem_pending (sems (sys_mem (ls_sem s)) a)) = int 1 + int (posted (ls_sem s) a)"
      by (rule reach_accounts [OF lk_parts(1) [OF inv] n]) simp
    then show ?thesis using num_nonneg [of "sys_pc (ls_sem s)" "\<lambda>q. q = PreRelease a"] by linarith
  qed
  also have "\<dots> \<le> 1" using lk_parts(2) [OF inv] by simp
  finally have "sint (sem_counter (sems (sys_mem (ls_sem s)) a)) < 2 ^ 31 - 1" by simp
  from sem_reach_step [OF lk_parts(1) [OF inv] up [OF ti(1) a ti(2) this]]
  have r: "sem_reach False tcb me (\<lambda>_. 1) (do_up t a (ls_sem s))" .
  have d: "passed (do_up t a (ls_sem s)) = passed (ls_sem s)" "posted (do_up t a (ls_sem s)) = (posted (ls_sem s))(a := Suc (posted (ls_sem s) a))"
    "sys_pc (do_up t a (ls_sem s)) = (sys_pc (ls_sem s))(t := PreRelease a) \<or> sys_pc (do_up t a (ls_sem s)) = (sys_pc (ls_sem s))(t := Idle)"
    by (auto simp: do_up_def Let_def case_prod_unfold)
  show ?thesis
    by (rule lk_inv_step [OF inv, where t = t]) (use r t ti d lk_parts(3-6) [OF inv] in \<open>auto simp: holders_iff split: if_splits\<close>)
qed

lemma lk_reach_inv:
  assumes "lk_reach tcb me a s" "a \<noteq> 0" "\<not> l4_task_equal me L4_INVALID_ID"
  shows "lk_inv tcb me a s"
  using assms(1)
proof induction
  case (lk_reach_start m)
  have "sem_reach False tcb me (\<lambda>_. 1) (ls_sem (lock_start m))" by (simp add: lock_start_def sem_reach_start [of False tcb me "\<lambda>_. Suc 0"])
  moreover have "L4THREAD_INVALID_ID \<noteq> t" if "l4_task_equal me t" for t using that assms(3) by (auto simp: L4THREAD_INVALID_ID_def)
  ultimately show ?case by (auto simp: lk_inv_def holders_def lock_start_def sem_start_def)
next
  case (lk_reach_step s s')
  from lk_reach_step(2) show ?case
  proof cases
    case (lk_enter t)
    then show ?thesis using enter_inv [OF lk_reach_step(3) assms(2)] by simp
  next
    case (lk_try t)
    then show ?thesis using try_inv [OF lk_reach_step(3) assms(2)] by simp
  next
    case (lk_block t s'')
    then show ?thesis using block_lk_inv [OF lk_reach_step(3) assms(3)] by simp
  next
    case (lk_release t s'')
    then show ?thesis using release_lk_inv [OF lk_reach_step(3) assms(3)] by simp
  next
    case (lk_got t)
    then show ?thesis using got_inv [OF lk_reach_step(3) assms(3)] by simp
  next
    case (lk_count t)
    then show ?thesis using count_inv [OF lk_reach_step(3)] by simp
  next
    case (lk_leave t)
    then show ?thesis using leave_inv [OF lk_reach_step(3) assms(3)] by simp
  next
    case (lk_clear t)
    then show ?thesis using clear_inv [OF lk_reach_step(3) assms(3)] by simp
  next
    case (lk_up t)
    then show ?thesis using up_lk_inv [OF lk_reach_step(3) assms(2,3)] by simp
  qed
qed

section \<open>Properties\<close>

text \<open>
  C11. The lock excludes: in every interleaving of the threads of a task and the semaphore thread, at most one thread is
  between \<open>l4lock_lock\<close> and the last \<open>l4lock_unlock\<close>; it is the owner of the lock and the reference counter is positive; and
  an unlock of another thread changes nothing.
\<close>

theorem l4lock_excludes:
  assumes "lk_reach tcb me a s" "a \<noteq> 0" "\<not> l4_task_equal me L4_INVALID_ID" "ls_pc s t = LIn"
  shows "ls_owner s = t \<and> 1 \<le> ls_ref_count s \<and>
    (\<forall>u. u \<noteq> t \<longrightarrow> \<not> owning (ls_pc s u) \<and> lock_leave u s = s)"
proof -
  note inv = lk_reach_inv [OF assms(1-3)]
  have "ls_owner s = t" using lk_parts(3,5) [OF inv, of t] assms(4) by simp
  moreover have "\<not> owning (ls_pc s u)" if "u \<noteq> t" for u
    using lk_excl [OF inv assms(3), of u t] that assms(4) by (auto simp: holders_iff)
  ultimately show ?thesis using lk_parts(6) [OF inv, of t] assms(4) by (simp add: lock_leave_def)
qed

theorem l4lock_excludes_witness:
  "\<exists>s. lk_reach prio10 sem_server 0x1000 s \<and> ls_pc s thread_a = LIn \<and> ls_owner s = thread_a \<and> \<not> owning (ls_pc s thread_b)"
proof -
  let ?m = "sys_mem (demo_sys no_wq 0 1 0 None (\<lambda>_. None) (\<lambda>_. Idle) 0 0)"
  let ?s1 = "lock_enter 0x1000 thread_a (lock_start ?m)" let ?s2 = "at_point thread_a LOwner (?s1\<lparr>ls_owner := thread_a\<rparr>)"
  let ?s3 = "at_point thread_a LIn (?s2\<lparr>ls_ref_count := 1\<rparr>)"
  have p: "L4THREAD_INVALID_ID \<noteq> thread_a" by (simp add: L4THREAD_INVALID_ID_def L4_INVALID_ID_def)
  have r1: "lk_reach prio10 sem_server 0x1000 ?s1"
    by (rule lk_reach_step [OF lk_reach_start], rule lk_enter) (simp_all add: lock_start_def sem_start_def)
  have r2: "lk_reach prio10 sem_server 0x1000 ?s2"
    by (rule lk_reach_step [OF r1], rule lk_got)
      (use p in \<open>simp_all add: lock_enter_def lock_start_def sem_start_def do_down_def down_counter_def Let_def setup_entries_def L4SEMAPHORE_INIT_def set_sem_def\<close>)
  have r3: "lk_reach prio10 sem_server 0x1000 ?s3"
    by (rule lk_reach_step [OF r2], rule lk_count) simp
  from l4lock_excludes [OF r3, of thread_a] r3 show ?thesis by (intro exI [of _ ?s3]) simp
qed

end
