(* ===== verification/RmMapper.thy ===== *)
theory RmMapper
  imports RmRegion RmAvl L4Lock
begin

text \<open>
  The region mapper library on top of the region list and the region tree: \<open>region_tree.c\<close>, \<open>l4rm_new_region\<close> of
  \<open>region.c\<close>, and the client functions of \<open>attach.c\<close>, \<open>detach.c\<close>, \<open>reserve.c\<close>, \<open>release.c\<close>, \<open>setup.c\<close>, \<open>lookup.c\<close> and
  \<open>userptr.c\<close> under \<open>l4rm/lib/src\<close>, with the wrappers of \<open>l4rm/include/l4rm.h\<close>. A call runs to its end: the state is
  that of the library, the lock around the region list is that of the lock library. What a call gets from outside is in
  its environment: the calling thread, the memory the slab caches get, whether a tree node can be allocated and whether
  the message to the region mapper thread is delivered.
\<close>

section \<open>State\<close>

record l4rm_state =
  lm_rm :: rm_state
  lm_tree :: avlt_tree
  lm_lock :: l4lock_t
  lm_unmapped :: "(l4_addr_t \<times> nat) list"
  lm_service_id :: l4_threadid_t
  lm_task_pager :: l4_threadid_t
  arg_key :: avlt_key
  arg_addr :: l4_addr_t
  arg_type :: u32
  arg_data :: l4_addr_t

record rm_env =
  env_me :: l4_threadid_t
  env_grow :: grow_answer
  env_grow_split :: grow_answer
  env_node :: bool
  env_ipc :: bool

definition L4RM_MAP :: u32 where [l4_const]: "L4RM_MAP = 0x01000000"
definition L4RM_REGION_FREE :: int where [l4_const]: "L4RM_REGION_FREE = 1"
definition L4RM_REGION_RESERVED :: int where [l4_const]: "L4RM_REGION_RESERVED = 2"
definition L4RM_REGION_DATASPACE :: int where [l4_const]: "L4RM_REGION_DATASPACE = 3"
definition L4RM_REGION_PAGER :: int where [l4_const]: "L4RM_REGION_PAGER = 4"
definition L4RM_REGION_EXCEPTION :: int where [l4_const]: "L4RM_REGION_EXCEPTION = 5"
definition L4RM_REGION_BLOCKED :: int where [l4_const]: "L4RM_REGION_BLOCKED = 6"
definition L4RM_REGION_UNKNOWN :: int where [l4_const]: "L4RM_REGION_UNKNOWN = 7"
definition DICE_NO_REPLY :: int where [l4_const]: "DICE_NO_REPLY = 2"
text \<open>The descriptor at an address; only descriptors of the list are reached through a pointer.\<close>

definition region_at :: "l4_addr_t \<Rightarrow> l4rm_state \<Rightarrow> region_desc option" where
  "region_at p s = map_of (rm_head (lm_rm s)) p"

section \<open>The lock\<close>

definition l4rm_lock_region_list :: "l4_threadid_t \<Rightarrow> l4rm_state \<Rightarrow> l4rm_state res" where
  "l4rm_lock_region_list me s = bind_res (l4lock_lock me (lm_lock s)) (\<lambda>l. Inr (s\<lparr>lm_lock := l\<rparr>))"

definition l4rm_unlock_region_list :: "l4_threadid_t \<Rightarrow> l4rm_state \<Rightarrow> l4rm_state" where
  "l4rm_unlock_region_list me s = s\<lparr>lm_lock := l4lock_unlock me (lm_lock s)\<rparr>"

definition l4rm_lock_region_list_direct :: "l4_threadid_t \<Rightarrow> u32 \<Rightarrow> l4rm_state \<Rightarrow> l4rm_state res" where
  "l4rm_lock_region_list_direct me flags s =
     (if flags AND L4RM_MODIFY_DIRECT = 0 then l4rm_lock_region_list me s else Inr s)"

definition l4rm_unlock_region_list_direct :: "l4_threadid_t \<Rightarrow> u32 \<Rightarrow> l4rm_state \<Rightarrow> l4rm_state" where
  "l4rm_unlock_region_list_direct me flags s =
     (if flags AND L4RM_MODIFY_DIRECT = 0 then l4rm_unlock_region_list me s else s)"

section \<open>The region tree\<close>

definition add_region :: "bool \<Rightarrow> l4rm_state \<Rightarrow> (l4rm_state \<times> int) res" where
  "add_region node s =
     bind_res (avlt_insert node (arg_key s) (arg_data s) (lm_tree s)) (\<lambda>(t, ret).
       let s1 = s\<lparr>lm_tree := t\<rparr>
       in if ret < 0 then (if ret = - AVLT_NO_MEM then Inr (s1, - L4_ENOMEM) else Inr (s1, - L4_EEXISTS)) else Inr (s1, 0))"

definition remove_region :: "l4rm_state \<Rightarrow> (l4rm_state \<times> int) res" where
  "remove_region s =
     (case avlt_find \<lparr>k_start = arg_addr s, k_end = arg_addr s\<rparr> (lm_tree s) of
        (ret, None) \<Rightarrow> Inr (s, - L4_ENOTFOUND)
      | (ret, Some d) \<Rightarrow>
          (let s1 = s\<lparr>arg_data := d\<rparr> in
           (case region_at d s1 of
              None \<Rightarrow> Inl Undefined
            | Some r \<Rightarrow>
                if REGION_TYPE r = arg_type s1
                then (case avlt_remove \<lparr>k_start = rd_start r, k_end = rd_end r\<rparr> (lm_tree s1) of
                        None \<Rightarrow> Inl Diverge
                      | Some (Inl e) \<Rightarrow> Inl e
                      | Some (Inr (t, ret2)) \<Rightarrow> Inr (s1\<lparr>lm_tree := t\<rparr>, if ret2 < 0 then - L4_EINVAL else 0))
                else Inr (s1, - L4_EINVAL))))"

text \<open>The server side of the two calls. The result is the value of the call at the client; that includes
  \<open>DICE_NO_REPLY\<close>, which the two functions return like any other value.\<close>

definition l4_rm_add_component :: "bool \<Rightarrow> l4_threadid_t \<Rightarrow> l4rm_state \<Rightarrow> (l4rm_state \<times> int) res" where
  "l4_rm_add_component node src s =
     (if \<not> l4_task_equal src (lm_service_id s) then Inr (s, DICE_NO_REPLY) else add_region node s)"

definition l4_rm_remove_component :: "l4_threadid_t \<Rightarrow> l4rm_state \<Rightarrow> (l4rm_state \<times> int) res" where
  "l4_rm_remove_component src s =
     (if \<not> l4_task_equal src (lm_service_id s) then Inr (s, DICE_NO_REPLY) else remove_region s)"

definition l4rm_tree_insert_region :: "rm_env \<Rightarrow> l4_addr_t \<Rightarrow> region_desc \<Rightarrow> u32 \<Rightarrow> l4rm_state \<Rightarrow> (l4rm_state \<times> int) res" where
  "l4rm_tree_insert_region e p r flags s =
     (let s1 = s\<lparr>arg_key := \<lparr>k_start = rd_start r, k_end = rd_end r\<rparr>, arg_data := p\<rparr> in
      if flags AND L4RM_MODIFY_DIRECT \<noteq> 0 then add_region (env_node e) s1
      else if \<not> env_ipc e then Inr (s1, - L4_EIPC)
      else l4_rm_add_component (env_node e) (env_me e) s1)"

text \<open>The result has the descriptor \<open>*region\<close>; \<open>None\<close> if it was not written.\<close>

definition l4rm_tree_remove_region ::
    "rm_env \<Rightarrow> l4_addr_t \<Rightarrow> u32 \<Rightarrow> u32 \<Rightarrow> l4rm_state \<Rightarrow> (l4rm_state \<times> int \<times> l4_addr_t option) res" where
  "l4rm_tree_remove_region e addr type flags s =
     (let s1 = s\<lparr>arg_addr := addr, arg_type := type\<rparr> in
      if flags AND L4RM_MODIFY_DIRECT \<noteq> 0 then bind_res (remove_region s1) (\<lambda>(s2, ret). Inr (s2, ret, None))
      else if \<not> env_ipc e then Inr (s1, - L4_EIPC, Some 0)
      else bind_res (l4_rm_remove_component (env_me e) s1) (\<lambda>(s2, ret).
             if ret \<noteq> 0 then Inr (s2, ret, Some 0) else Inr (s2, 0, Some (arg_data s2))))"

definition l4rm_find_used_region :: "l4_addr_t \<Rightarrow> l4rm_state \<Rightarrow> l4_addr_t option" where
  "l4rm_find_used_region addr s =
     (case avlt_find \<lparr>k_start = addr, k_end = addr\<rparr> (lm_tree s) of (ret, r) \<Rightarrow> if ret \<noteq> 0 then None else r)"

section \<open>New regions\<close>

text \<open>The alignment exponent and the size of a search.\<close>

definition new_region_align :: "u32 \<Rightarrow> u32 \<Rightarrow> (nat \<times> u32) res" where
  "new_region_align size0 flags =
     bind_res
       (if flags AND L4RM_LOG2_ALIGNED = 0 then Inr (12, size0)
        else (case l4util_bsr size0 of
                None \<Rightarrow> Inl Undefined
              | Some k \<Rightarrow>
                  (let al = (if size0 > push_bit k 1 then k + 1 else k)
                   in if flags AND L4RM_LOG2_ALLOC = 0 then Inr (al, size0)
                      else if al \<ge> 32 then Inl Undefined else Inr (al, push_bit al 1))))
       (\<lambda>(al, size1). Inr (if flags AND L4RM_SUPERPAGE_ALIGNED \<noteq> 0 \<and> al < 22 then 22 else al, size1))"

text \<open>The place: the free region, the start and the size, or an error.\<close>

definition new_region_place :: "l4_addr_t \<Rightarrow> u32 \<Rightarrow> u32 \<Rightarrow> u32 \<Rightarrow> l4rm_state \<Rightarrow> (int + l4_addr_t \<times> l4_addr_t \<times> u32) res" where
  "new_region_place addr sz area flags s =
     (let size0 = l4_round_page sz in
      if addr = L4RM_ADDR_FIND
      then bind_res (new_region_align size0 flags) (\<lambda>(al, size1).
             bind_res (find_free_region size1 area al (lm_rm s)) (\<lambda>f.
               case f of None \<Rightarrow> Inr (Inl (- L4_ENOMAP)) | Some (rp, map_addr) \<Rightarrow> Inr (Inr (rp, map_addr, size1))))
      else (let map_addr = l4_trunc_page addr in
            bind_res (find_region map_addr size0 area (lm_rm s)) (\<lambda>(ret, rp).
              if ret < 0 then Inr (Inl ret) else Inr (Inr (rp, map_addr, size0)))))"

definition new_region_desc :: "l4_addr_t \<Rightarrow> u32 \<Rightarrow> u32 \<Rightarrow> u32 \<Rightarrow> region_desc \<Rightarrow> region_desc" where
  "new_region_desc map_addr sz area flags r =
     SET_AREA (if flags AND L4RM_SET_AREA \<noteq> 0 then drop_bit L4_PAGESHIFT map_addr else area)
       (r\<lparr>rd_start := map_addr, rd_end := map_addr + sz - 1\<rparr>)"

text \<open>\<open>l4rm_new_region\<close> for the new descriptor \<open>(p, r)\<close>; the result has the descriptor as it was filled in.\<close>

definition l4rm_new_region ::
    "rm_env \<Rightarrow> l4_addr_t \<Rightarrow> region_desc \<Rightarrow> l4_addr_t \<Rightarrow> u32 \<Rightarrow> u32 \<Rightarrow> u32 \<Rightarrow> l4rm_state \<Rightarrow> (l4rm_state \<times> region_desc \<times> int) res" where
  "l4rm_new_region e p r addr sz area flags s =
     bind_res (new_region_place addr sz area flags s) (\<lambda>pl.
       case pl of
         Inl ret \<Rightarrow> Inr (s, r, ret)
       | Inr (rp, map_addr, size1) \<Rightarrow>
           (let r1 = new_region_desc map_addr size1 area flags r in
            bind_res (insert_region (env_grow_split e) p r1 rp (lm_rm s)) (\<lambda>(m, ret).
              let s1 = s\<lparr>lm_rm := m\<rparr> in
              if ret < 0 then Inr (s1, r1, ret)
              else if flags AND L4RM_TREE_INSERT = 0 then Inr (s1, r1, 0)
              else bind_res (l4rm_tree_insert_region e p r1 flags s1) (\<lambda>(s2, ret2).
                     if ret2 < 0
                     then (if ret2 = - L4_EEXISTS then Inl Panic
                           else bind_res (l4rm_free_region p (lm_rm s2)) (\<lambda>m2. Inr (s2\<lparr>lm_rm := m2\<rparr>, r1, ret2)))
                     else Inr (s2, r1, 0)))))"

section \<open>Client functions\<close>

text \<open>The descriptor is allocated before the list is locked; a failure of \<open>l4rm_new_region\<close> frees it.\<close>

definition alloc_desc :: "rm_env \<Rightarrow> l4rm_state \<Rightarrow> (l4rm_state \<times> l4_addr_t) res" where
  "alloc_desc e s = bind_res (l4rm_region_desc_alloc (env_grow e) (lm_rm s)) (\<lambda>(m, p). Inr (s\<lparr>lm_rm := m\<rparr>, p))"

definition free_desc :: "l4_addr_t \<Rightarrow> l4rm_state \<Rightarrow> l4rm_state res" where
  "free_desc p s = bind_res (l4rm_region_desc_free p (lm_rm s)) (\<lambda>m. Inr (s\<lparr>lm_rm := m\<rparr>))"

text \<open>\<open>l4rm_do_attach\<close>: the result has \<open>*addr\<close> and the error code. The immediate mapping of the area
  (\<open>L4RM_MAP\<close>) is a call of the dataspace manager whose result is ignored.\<close>

definition l4rm_do_attach ::
    "rm_env \<Rightarrow> l4dm_dataspace_t \<Rightarrow> u32 \<Rightarrow> l4_addr_t \<Rightarrow> u32 \<Rightarrow> u32 \<Rightarrow> u32 \<Rightarrow> l4rm_state \<Rightarrow> (l4rm_state \<times> l4_addr_t \<times> int) res" where
  "l4rm_do_attach e ds area addr sz ds_offs flags s =
     (if l4dm_is_invalid_ds ds then Inr (s, addr, - L4_EINVAL)
      else (let rights = flags AND L4DM_RIGHTS_MASK; start_offs = l4_trunc_page ds_offs; map_offs = ds_offs - start_offs in
            bind_res (alloc_desc e s) (\<lambda>(s1, p).
              if p = 0 then Inr (s1, addr, - L4_ENOMEM)
              else (let r = SET_REGION_TYPE REGION_DATASPACE (region_fresh\<lparr>rd_data := Data_ds ds start_offs rights\<rparr>) in
                    bind_res (l4rm_lock_region_list_direct (env_me e) flags s1) (\<lambda>s2.
                    bind_res (l4rm_new_region e p r addr (sz + map_offs) area (flags OR L4RM_TREE_INSERT) s2) (\<lambda>(s3, r1, ret).
                      if ret < 0
                      then bind_res (free_desc p s3) (\<lambda>s4. Inr (l4rm_unlock_region_list_direct (env_me e) flags s4, addr, ret))
                      else Inr (l4rm_unlock_region_list_direct (env_me e) flags s3, rd_start r1 + map_offs, 0)))))))"

definition l4rm_detach :: "rm_env \<Rightarrow> l4_addr_t \<Rightarrow> l4rm_state \<Rightarrow> (l4rm_state \<times> int) res" where
  "l4rm_detach e addr s =
     bind_res (l4rm_lock_region_list (env_me e) s) (\<lambda>s1.
     bind_res (l4rm_tree_remove_region e addr REGION_DATASPACE 0 s1) (\<lambda>(s2, ret, rp).
       if ret < 0 then Inr (l4rm_unlock_region_list (env_me e) s2, ret)
       else (case rp of
               None \<Rightarrow> Inl Undefined
             | Some p \<Rightarrow>
                 (case region_at p s2 of
                    None \<Rightarrow> Inl Undefined
                  | Some r \<Rightarrow>
                      (case l4rm_unmap_region r of
                         None \<Rightarrow> Inl Diverge
                       | Some fps \<Rightarrow>
                           bind_res (l4rm_free_region p (lm_rm s2)) (\<lambda>m.
                             Inr (l4rm_unlock_region_list (env_me e) (s2\<lparr>lm_rm := m, lm_unmapped := lm_unmapped s2 @ fps\<rparr>), 0)))))))"

text \<open>\<open>l4rm_do_reserve\<close>: the result has \<open>*addr\<close>, \<open>*area\<close> and the error code.\<close>

definition l4rm_do_reserve :: "rm_env \<Rightarrow> l4_addr_t \<Rightarrow> u32 \<Rightarrow> u32 \<Rightarrow> u32 \<Rightarrow> l4rm_state \<Rightarrow> (l4rm_state \<times> l4_addr_t \<times> u32 \<times> int) res" where
  "l4rm_do_reserve e addr sz flags area s =
     bind_res (alloc_desc e s) (\<lambda>(s1, p).
       if p = 0 then Inr (s1, addr, area, - L4_ENOMEM)
       else (let r = SET_REGION_TYPE REGION_FREE region_fresh in
             bind_res (l4rm_lock_region_list_direct (env_me e) flags s1) (\<lambda>s2.
             bind_res (l4rm_new_region e p r addr sz L4RM_DEFAULT_REGION_AREA (flags OR L4RM_SET_AREA) s2) (\<lambda>(s3, r1, ret).
               let s4 = l4rm_unlock_region_list_direct (env_me e) flags s3 in
               if ret < 0 then bind_res (free_desc p s4) (\<lambda>s5. Inr (s5, addr, area, ret))
               else Inr (s4, rd_start r1, REGION_AREA r1, 0)))))"

definition l4rm_area_release :: "rm_env \<Rightarrow> u32 \<Rightarrow> l4rm_state \<Rightarrow> (l4rm_state \<times> int) res" where
  "l4rm_area_release e area s =
     bind_res (l4rm_lock_region_list (env_me e) s) (\<lambda>s1.
       case l4rm_reset_area area (lm_rm s1) of
         None \<Rightarrow> Inl Diverge
       | Some m \<Rightarrow> bind_res m (\<lambda>m1. Inr (l4rm_unlock_region_list (env_me e) (s1\<lparr>lm_rm := m1\<rparr>), 0)))"

definition l4rm_area_release_addr :: "rm_env \<Rightarrow> l4_addr_t \<Rightarrow> l4rm_state \<Rightarrow> (l4rm_state \<times> int) res" where
  "l4rm_area_release_addr e ptr s =
     bind_res (l4rm_lock_region_list (env_me e) s) (\<lambda>s1.
     bind_res (l4rm_find_region ptr (lm_rm s1)) (\<lambda>rp.
       if (case rp of None \<Rightarrow> True | Some (_, r) \<Rightarrow> REGION_AREA r = L4RM_DEFAULT_REGION_AREA) then Inr (s1, - L4_EINVAL)
       else (case l4rm_reset_area (REGION_AREA (snd (the rp))) (lm_rm s1) of
               None \<Rightarrow> Inl Diverge
             | Some m \<Rightarrow> bind_res m (\<lambda>m1. Inr (l4rm_unlock_region_list (env_me e) (s1\<lparr>lm_rm := m1\<rparr>), 0)))))"

definition l4rm_do_area_setup ::
    "rm_env \<Rightarrow> l4_addr_t \<Rightarrow> u32 \<Rightarrow> u32 \<Rightarrow> int \<Rightarrow> u32 \<Rightarrow> l4_threadid_t \<Rightarrow> l4rm_state \<Rightarrow> (l4rm_state \<times> l4_addr_t \<times> int) res" where
  "l4rm_do_area_setup e addr sz area type flags pager s =
     (if type \<noteq> L4RM_REGION_PAGER \<and> type \<noteq> L4RM_REGION_EXCEPTION \<and> type \<noteq> L4RM_REGION_BLOCKED then Inr (s, addr, - L4_EINVAL)
      else bind_res (alloc_desc e s) (\<lambda>(s1, p).
        if p = 0 then Inr (s1, addr, - L4_ENOMEM)
        else (let r = (if type = L4RM_REGION_PAGER
                       then SET_REGION_TYPE REGION_PAGER (region_fresh\<lparr>rd_data :=
                              Data_pager (if l4_is_invalid_id pager then lm_task_pager s1 else pager)\<rparr>)
                       else if type = L4RM_REGION_EXCEPTION then SET_REGION_TYPE REGION_EXCEPTION region_fresh
                       else SET_REGION_TYPE REGION_BLOCKED region_fresh) in
              bind_res (l4rm_lock_region_list_direct (env_me e) flags s1) (\<lambda>s2.
              bind_res (l4rm_new_region e p r addr sz area (flags OR L4RM_TREE_INSERT) s2) (\<lambda>(s3, r1, ret).
                let s4 = l4rm_unlock_region_list_direct (env_me e) flags s3 in
                if ret < 0 then bind_res (free_desc p s4) (\<lambda>s5. Inr (s5, addr, ret)) else Inr (s4, rd_start r1, 0))))))"

definition l4rm_area_clear_region :: "rm_env \<Rightarrow> l4_addr_t \<Rightarrow> l4rm_state \<Rightarrow> (l4rm_state \<times> int) res" where
  "l4rm_area_clear_region e addr s =
     bind_res (l4rm_lock_region_list (env_me e) s) (\<lambda>s1.
       case l4rm_find_used_region addr s1 of
         None \<Rightarrow> Inr (l4rm_unlock_region_list (env_me e) s1, - L4_ENOTFOUND)
       | Some p0 \<Rightarrow>
           (case region_at p0 s1 of
              None \<Rightarrow> Inl Undefined
            | Some r0 \<Rightarrow>
                if REGION_TYPE r0 = REGION_DATASPACE then Inr (l4rm_unlock_region_list (env_me e) s1, - L4_EINVAL)
                else bind_res (l4rm_tree_remove_region e addr (REGION_TYPE r0) 0 s1) (\<lambda>(s2, ret, rp).
                  if ret < 0 then Inr (l4rm_unlock_region_list (env_me e) s2, ret)
                  else (case rp of
                          None \<Rightarrow> Inl Undefined
                        | Some p \<Rightarrow>
                            (case region_at p s2 of
                               None \<Rightarrow> Inl Undefined
                             | Some r \<Rightarrow>
                                 (case l4rm_unmap_region r of
                                    None \<Rightarrow> Inl Diverge
                                  | Some fps \<Rightarrow>
                                      bind_res (l4rm_free_region p (lm_rm s2)) (\<lambda>m.
                                        Inr (l4rm_unlock_region_list (env_me e) (s2\<lparr>lm_rm := m, lm_unmapped := lm_unmapped s2 @ fps\<rparr>), 0))))))))"

section \<open>Lookup\<close>

record lookup_out =
  lo_map_addr :: l4_addr_t
  lo_map_size :: u32
  lo_ds :: l4dm_dataspace_t
  lo_offset :: u32
  lo_pager :: l4_threadid_t

definition lookup_init :: "region_desc \<Rightarrow> lookup_out" where
  "lookup_init r = \<lparr>lo_map_addr = rd_start r, lo_map_size = rd_end r - rd_start r + 1, lo_ds = L4DM_INVALID_DATASPACE,
     lo_offset = 0, lo_pager = L4_INVALID_ID\<rparr>"

text \<open>The switch over the type of the region, the same in both functions for the regions in use. The union is read as
  the member the type says.\<close>

definition lookup_type :: "l4_addr_t \<Rightarrow> region_desc \<Rightarrow> (int \<times> lookup_out) res" where
  "lookup_type a r =
     (if REGION_TYPE r = REGION_DATASPACE
      then (case rd_data r of
              Data_ds ds offs _ \<Rightarrow> Inr (L4RM_REGION_DATASPACE, (lookup_init r)\<lparr>lo_ds := ds, lo_offset := (a - rd_start r) + offs\<rparr>)
            | _ \<Rightarrow> Inl Undefined)
      else if REGION_TYPE r = REGION_PAGER
      then (case rd_data r of
              Data_pager t \<Rightarrow> Inr (L4RM_REGION_PAGER, (lookup_init r)\<lparr>lo_pager := t\<rparr>)
            | _ \<Rightarrow> Inl Undefined)
      else if REGION_TYPE r = REGION_EXCEPTION then Inr (L4RM_REGION_EXCEPTION, lookup_init r)
      else if REGION_TYPE r = REGION_BLOCKED then Inr (L4RM_REGION_BLOCKED, lookup_init r)
      else Inr (L4RM_REGION_UNKNOWN, lookup_init r))"

definition l4rm_lookup :: "rm_env \<Rightarrow> l4_addr_t \<Rightarrow> l4rm_state \<Rightarrow> (l4rm_state \<times> int \<times> lookup_out option) res" where
  "l4rm_lookup e a s =
     bind_res (l4rm_lock_region_list (env_me e) s) (\<lambda>s1.
       case l4rm_find_used_region a s1 of
         None \<Rightarrow> Inr (l4rm_unlock_region_list (env_me e) s1, - L4_ENOTFOUND, None)
       | Some p \<Rightarrow>
           (case region_at p s1 of
              None \<Rightarrow> Inl Undefined
            | Some r \<Rightarrow> bind_res (lookup_type a r) (\<lambda>(type, out).
                Inr (l4rm_unlock_region_list (env_me e) s1, type, Some out))))"

definition l4rm_lookup_region :: "rm_env \<Rightarrow> l4_addr_t \<Rightarrow> l4rm_state \<Rightarrow> (l4rm_state \<times> int \<times> lookup_out option) res" where
  "l4rm_lookup_region e a s =
     bind_res (l4rm_lock_region_list (env_me e) s) (\<lambda>s1.
     bind_res (l4rm_find_region a (lm_rm s1)) (\<lambda>f.
       case f of
         None \<Rightarrow> Inr (l4rm_unlock_region_list (env_me e) s1, - L4_ENOTFOUND, None)
       | Some (_, r) \<Rightarrow>
           bind_res (if REGION_TYPE r = REGION_FREE
                     then Inr (if REGION_AREA r = L4RM_DEFAULT_REGION_AREA then L4RM_REGION_FREE else L4RM_REGION_RESERVED, lookup_init r)
                     else lookup_type a r) (\<lambda>(type, out).
             Inr (l4rm_unlock_region_list (env_me e) s1, type, Some out))))"

definition l4rm_get_userptr :: "rm_env \<Rightarrow> l4_addr_t \<Rightarrow> l4rm_state \<Rightarrow> (l4rm_state \<times> l4_addr_t) res" where
  "l4rm_get_userptr e addr s =
     bind_res (l4rm_lock_region_list (env_me e) s) (\<lambda>s1.
       case l4rm_find_used_region addr s1 of
         None \<Rightarrow> Inr (l4rm_unlock_region_list (env_me e) s1, 0)
       | Some p \<Rightarrow>
           (case region_at p s1 of None \<Rightarrow> Inl Undefined | Some r \<Rightarrow> Inr (l4rm_unlock_region_list (env_me e) s1, rd_userptr r)))"

definition set_userptr_at :: "l4_addr_t \<Rightarrow> l4_addr_t \<Rightarrow> region_list \<Rightarrow> region_list" where
  "set_userptr_at p v l = map (\<lambda>x. if fst x = p then (p, (snd x)\<lparr>rd_userptr := v\<rparr>) else x) l"

definition l4rm_set_userptr :: "rm_env \<Rightarrow> l4_addr_t \<Rightarrow> l4_addr_t \<Rightarrow> l4rm_state \<Rightarrow> (l4rm_state \<times> int) res" where
  "l4rm_set_userptr e addr ptr s =
     bind_res (l4rm_lock_region_list (env_me e) s) (\<lambda>s1.
       case l4rm_find_used_region addr s1 of
         None \<Rightarrow> Inr (l4rm_unlock_region_list (env_me e) s1, - L4_EINVAL)
       | Some p \<Rightarrow>
           if region_at p s1 = None then Inl Undefined
           else Inr (l4rm_unlock_region_list (env_me e)
                  (s1\<lparr>lm_rm := (lm_rm s1)\<lparr>rm_head := set_userptr_at p ptr (rm_head (lm_rm s1))\<rparr>\<rparr>), 0))"

section \<open>Where a new region is placed\<close>

definition vm_ok :: "rm_state \<Rightarrow> bool" where
  "vm_ok m \<longleftrightarrow> 0x1000 \<le> rm_vm_start m \<and> rm_vm_end m < 0xC0000000"

lemma tiles_mem_bounds:
  "tiles lo hi l \<Longrightarrow> (p, d) \<in> set l \<Longrightarrow> lo \<le> rd_start d \<and> rd_end d \<le> hi \<and> rd_start d \<le> rd_end d"
proof (induction lo hi l rule: tiles.induct)
  case (3 lo hi p0 d0 x l)
  then have t: "rd_start d0 = lo" "lo \<le> rd_end d0" "rd_end d0 < hi" "tiles (rd_end d0 + 1) hi (x # l)" by simp_all
  show ?case
  proof (cases "(p, d) = (p0, d0)")
    case True
    then show ?thesis using t by auto
  next
    case False
    then have "rd_end d0 + 1 \<le> rd_start d \<and> rd_end d \<le> hi \<and> rd_start d \<le> rd_end d" using 3 t(4) by auto
    then show ?thesis using succ_le [OF t(3)] t(2) by (meson le_less_trans less_imp_le less_le_trans)
  qed
qed auto

lemma region_from_unique:
  "tiles lo hi l \<Longrightarrow> (p, d) \<in> set l \<Longrightarrow> in_region d a \<Longrightarrow> region_from a l = Some (p, d)"
proof (induction lo hi l rule: tiles.induct)
  case (3 lo hi p0 d0 x l)
  then have t: "rd_end d0 < hi" "tiles (rd_end d0 + 1) hi (x # l)" by simp_all
  show ?case
  proof (cases "(p, d) = (p0, d0)")
    case True
    then show ?thesis using 3(4) by (auto simp: in_region_def)
  next
    case False
    then have m: "(p, d) \<in> set (x # l)" using 3(3) by auto
    have "rd_end d0 + 1 \<le> rd_start d" using tiles_mem_bounds [OF t(2) m] by blast
    then have "rd_end d0 < a" using succ_le_iff [OF t(1), of "rd_start d"] 3(4) by (auto simp: in_region_def)
    then show ?thesis using 3(1) [OF t(2) m 3(4)] by auto
  qed
qed (auto simp: in_region_def)

lemma region_unique:
  assumes "rm_inv m" "(p, d) \<in> set (rm_head m)" "in_region d a" "(q, d') \<in> set (rm_head m)" "in_region d' a"
  shows "p = q \<and> d = d'"
proof -
  have t: "tiles (rm_vm_start m) (rm_vm_end m) (rm_head m)" using assms(1) by (simp add: rm_inv_def)
  show ?thesis using region_from_unique [OF t assms(2,3)] region_from_unique [OF t assms(4,5)] by simp
qed

text \<open>The rounded size and the alignment of a search, for sizes below 512 MB.\<close>

lemma round_bounds:
  assumes "0 < unat sz" "unat sz \<le> 0x1FFFF000"
  shows "unat sz \<le> unat (l4_round_page sz)" "unat (l4_round_page sz) \<le> 0x1FFFF000" "4096 dvd unat (l4_round_page sz)" "4096 \<le> unat (l4_round_page sz)"
proof -
  have e: "unat (l4_round_page sz) = (unat sz + 4095) div 4096 * 4096" using assms(2) by (intro unat_round_page) simp
  show "4096 dvd unat (l4_round_page sz)" unfolding e by simp
  have m: "(unat sz + 4095) div 4096 * 4096 + (unat sz + 4095) mod 4096 = unat sz + 4095" by (rule div_mult_mod_eq)
  moreover have "(unat sz + 4095) mod 4096 < 4096" by simp
  ultimately show l: "unat sz \<le> unat (l4_round_page sz)" unfolding e by linarith
  have "(unat sz + 4095) div 4096 \<le> (0x1FFFF000 + 4095) div 4096" using assms(2) by (intro div_le_mono) simp
  then show "unat (l4_round_page sz) \<le> 0x1FFFF000" unfolding e by simp
  have "(1 + 4095) div 4096 \<le> (unat sz + 4095) div 4096" using assms(1) by (intro div_le_mono) simp
  then show "4096 \<le> unat (l4_round_page sz)" unfolding e by simp
qed

lemma new_region_align_ok:
  assumes "4096 \<le> unat sz" "unat sz \<le> 0x1FFFF000" "4096 dvd unat sz"
  shows "\<exists>k sz1. new_region_align sz flags = Inr (k, sz1) \<and> 12 \<le> k \<and> k \<le> 29 \<and> unat sz \<le> unat sz1 \<and> unat sz1 \<le> 2 ^ 29 \<and> 4096 dvd unat sz1"
proof -
  have nz: "sz \<noteq> 0" using assms(1) by auto
  obtain m where m: "l4util_bsr sz = Some m" using bsr_Some [OF nz] by blast
  note b = bsr_bounds [OF m]
  have "2 ^ 12 < (2 :: nat) ^ Suc m" using b(2) assms(1) by simp
  then have "12 < Suc m" by (rule power_less_imp_less_exp [rotated]) simp
  then have m12: "12 \<le> m" by simp
  have "(2 :: nat) ^ m < 2 ^ 29" using b(3) assms(2) by simp
  then have m28: "m < 29" by (rule power_less_imp_less_exp [rotated]) simp
  define al where "al = (if sz > push_bit m 1 then m + 1 else m)"
  have al: "12 \<le> al" "al \<le> 29" using m12 m28 by (auto simp: al_def)
  have e: "unat (push_bit k 1 :: u32) = 2 ^ k" if "k < 32" for k using unat_exp32 [OF that] by simp
  have up: "unat sz \<le> 2 ^ al"
  proof (cases "sz > push_bit m 1")
    case True
    then show ?thesis using b(2) by (simp add: al_def)
  next
    case False
    then show ?thesis using e [of m] m28 by (simp add: al_def word_less_unat not_less)
  qed
  have d: "(4096 :: nat) dvd 2 ^ al" using le_imp_power_dvd [OF al(1), of "2 :: nat"] by simp
  have p: "(2 :: nat) ^ al \<le> 2 ^ 29" using al(2) by (intro power_increasing) simp_all
  have s29: "unat sz \<le> 2 ^ 29" using assms(2) by simp
  let ?k = "\<lambda>k. if flags AND L4RM_SUPERPAGE_ALIGNED \<noteq> 0 \<and> k < 22 then 22 else k :: nat"
  consider "flags AND L4RM_LOG2_ALIGNED = 0" | "flags AND L4RM_LOG2_ALIGNED \<noteq> 0" "flags AND L4RM_LOG2_ALLOC = 0"
    | "flags AND L4RM_LOG2_ALIGNED \<noteq> 0" "flags AND L4RM_LOG2_ALLOC \<noteq> 0" by blast
  then show ?thesis
  proof cases
    case 1
    then have "new_region_align sz flags = Inr (?k 12, sz)" by (simp add: new_region_align_def)
    then show ?thesis using assms s29 by (intro exI [of _ "?k 12"] exI [of _ sz]) simp
  next
    case 2
    then have "new_region_align sz flags = Inr (?k al, sz)" using m by (simp add: new_region_align_def al_def Let_def)
    then show ?thesis using assms s29 al by (intro exI [of _ "?k al"] exI [of _ sz]) simp
  next
    case 3
    then have "new_region_align sz flags = Inr (?k al, push_bit al 1)" using m al by (simp add: new_region_align_def al_def Let_def)
    then show ?thesis using al d p up e [of al] by (intro exI [of _ "?k al"] exI [of _ "push_bit al 1"]) simp
  qed
qed

text \<open>A place lies inside one free region of the area.\<close>

definition place_ok :: "rm_state \<Rightarrow> u32 \<Rightarrow> u32 \<Rightarrow> l4_addr_t \<times> l4_addr_t \<times> u32 \<Rightarrow> bool" where
  "place_ok m sz area pl \<longleftrightarrow> (case pl of (rp, a, sz1) \<Rightarrow>
     unat sz \<le> unat sz1 \<and> 4096 dvd unat sz1 \<and> 4096 dvd unat a \<and> 0 < unat sz1 \<and>
     (\<exists>d. (rp, d) \<in> set (rm_head m) \<and> IS_FREE_REGION d \<and> REGION_AREA d = area \<and> rd_start d \<le> a \<and> unat a + unat sz1 \<le> unat (rd_end d) + 1))"

lemma find_region_sound:
  assumes inv: "rm_inv m" and v: "vm_ok m" and sz: "4096 \<le> unat sz" "unat sz \<le> 0x1FFFF000"
  shows "\<exists>ret rp. find_region a sz area m = Inr (ret, rp) \<and>
    (ret = - L4_EINVAL \<or> ret = - L4_EUSED \<or> ret = 0 \<and>
     (\<exists>d. (rp, d) \<in> set (rm_head m) \<and> IS_FREE_REGION d \<and> REGION_AREA d = area \<and> rd_start d \<le> a \<and> unat a + unat sz \<le> unat (rd_end d) + 1))"
proof (cases "a < rm_vm_start m \<or> a > rm_vm_end m \<or> a + sz > rm_vm_end m")
  case True
  then show ?thesis by (simp add: find_region_def)
next
  case False
  have t: "tiles (rm_vm_start m) (rm_vm_end m) (rm_head m)" using inv by (simp add: rm_inv_def)
  obtain p d where d: "region_from a (rm_head m) = Some (p, d)" "(p, d) \<in> set (rm_head m)" "in_region d a"
    using region_from_spec [OF t, of a] False by (auto simp: not_less)
  have "unat a \<le> unat (rm_vm_end m)" "unat (rm_vm_end m) < 0xC0000000" using False v by (auto simp: not_less word_le_unat word_less_unat vm_ok_def)
  then have "unat a + unat sz < 2 ^ 32" using sz(2) by simp
  then have u: "unat (a + sz) = unat a + unat sz" by (subst unat_add_lt) simp_all
  have nz: "a + sz \<noteq> 0" using u sz(1) by auto
  have "unat a + unat sz \<le> unat (rd_end d) + 1" if "\<not> rd_end d < a + sz - 1"
    using that unat_sub_one [OF nz] u by (simp add: not_less word_le_unat)
  then show ?thesis using d False by (simp add: find_region_def in_region_def L4_EINVAL_def L4_EUSED_def) auto
qed

lemma new_region_place_ok:
  assumes inv: "rm_inv (lm_rm s)" and v: "vm_ok (lm_rm s)" and sz: "0 < unat sz" "unat sz \<le> 0x1FFFF000"
  shows "\<exists>pl. new_region_place addr sz area flags s = Inr pl \<and>
    (case pl of Inl ret \<Rightarrow> ret \<in> {- L4_ENOMAP, - L4_EINVAL, - L4_EUSED} | Inr x \<Rightarrow> place_ok (lm_rm s) sz area x)"
proof -
  let ?sz = "l4_round_page sz"
  note rb = round_bounds [OF sz]
  show ?thesis
  proof (cases "addr = L4RM_ADDR_FIND")
    case True
    obtain k sz1 where k: "new_region_align ?sz flags = Inr (k, sz1)" "12 \<le> k" "k \<le> 29" "unat ?sz \<le> unat sz1" "unat sz1 \<le> 2 ^ 29" "4096 dvd unat sz1"
      using new_region_align_ok [OF rb(4,2,3)] by blast
    have p: "(2 :: nat) ^ k \<le> 2 ^ 29" using k(3) by (intro power_increasing) simp_all
    have b: "k < 32" "unat (rm_vm_end (lm_rm s)) + 2 ^ k < 2 ^ 32" "unat sz1 + 2 ^ k \<le> 2 ^ 32" "0 < unat (rm_vm_start (lm_rm s))" "sz1 \<noteq> 0"
      using v k p rb(4) by (auto simp: vm_ok_def word_less_unat word_le_unat)
    obtain f where f: "find_free_region sz1 area k (lm_rm s) = Inr f" using b(1) by (simp add: find_free_region_def)
    show ?thesis
    proof (cases f)
      case None
      then show ?thesis using True k(1) f by (simp add: new_region_place_def Let_def)
    next
      case (Some x)
      obtain rp a where x: "x = (rp, a)" by force
      have "find_free_region sz1 area k (lm_rm s) = Inr (Some (rp, a))" using f Some x by simp
      from find_free_region_sound [OF inv b(1-4) this b(5)]
      obtain d where d: "(rp, d) \<in> set (rm_head (lm_rm s))" "IS_FREE_REGION d" "REGION_AREA d = area" "2 ^ k dvd unat a" "rd_start d \<le> a"
        "unat a + unat sz1 \<le> unat (rd_end d) + 1" by blast
      have "(4096 :: nat) dvd 2 ^ k" using le_imp_power_dvd [OF k(2), of "2 :: nat"] by simp
      then have "4096 dvd unat a" using d(4) by (rule dvd_trans)
      then have "place_ok (lm_rm s) sz area (rp, a, sz1)" using d k rb(1,4) by (auto simp: place_ok_def)
      then show ?thesis using True k(1) f Some x by (simp add: new_region_place_def Let_def)
    qed
  next
    case False
    let ?a = "l4_trunc_page addr"
    obtain ret rp where r: "find_region ?a ?sz area (lm_rm s) = Inr (ret, rp)"
      "ret = - L4_EINVAL \<or> ret = - L4_EUSED \<or> ret = 0 \<and>
       (\<exists>d. (rp, d) \<in> set (rm_head (lm_rm s)) \<and> IS_FREE_REGION d \<and> REGION_AREA d = area \<and> rd_start d \<le> ?a \<and> unat ?a + unat ?sz \<le> unat (rd_end d) + 1)"
      using find_region_sound [OF inv v rb(4,2)] by blast
    have "4096 dvd unat ?a" by (simp add: unat_trunc_page)
    then have "place_ok (lm_rm s) sz area (rp, ?a, ?sz)" if "ret = 0"
      using r(2) that rb by (auto simp: place_ok_def L4_EINVAL_def L4_EUSED_def)
    then show ?thesis using False r by (auto simp: new_region_place_def Let_def L4_EINVAL_def L4_EUSED_def)
  qed
qed

section \<open>The invariant\<close>

definition region_key :: "l4_addr_t \<times> region_desc \<Rightarrow> avlt_key \<times> u32" where
  "region_key x = (\<lparr>k_start = rd_start (snd x), k_end = rd_end (snd x)\<rparr>, fst x)"

definition data_ok :: "region_desc \<Rightarrow> bool" where
  "data_ok r \<longleftrightarrow> (REGION_TYPE r = REGION_DATASPACE \<longrightarrow> (\<exists>ds offs rights. rd_data r = Data_ds ds offs rights)) \<and>
     (REGION_TYPE r = REGION_PAGER \<longrightarrow> (\<exists>t. rd_data r = Data_pager t))"

text \<open>The region list is well formed, and the tree has exactly its regions in use.\<close>

definition lm_inv :: "l4rm_state \<Rightarrow> bool" where
  "lm_inv s \<longleftrightarrow> rm_inv (lm_rm s) \<and> vm_ok (lm_rm s) \<and> tree_inv (lm_tree s) \<and>
     entries (lm_tree s) = region_key ` used_regions (lm_rm s) \<and> (\<forall>x \<in> used_regions (lm_rm s). data_ok (snd x))"

text \<open>The regions in use as a client sees them.\<close>

definition used_at :: "l4rm_state \<Rightarrow> l4_addr_t \<Rightarrow> (l4_addr_t \<times> region_desc) option" where
  "used_at s a = (case region_from a (rm_head (lm_rm s)) of
     Some x \<Rightarrow> if in_region (snd x) a \<and> \<not> IS_FREE_REGION (snd x) then Some x else None | None \<Rightarrow> None)"

lemma used_at_iff:
  assumes "rm_inv (lm_rm s)"
  shows "used_at s a = Some x \<longleftrightarrow> x \<in> used_regions (lm_rm s) \<and> in_region (snd x) a"
proof -
  have t: "tiles (rm_vm_start (lm_rm s)) (rm_vm_end (lm_rm s)) (rm_head (lm_rm s))" using assms by (simp add: rm_inv_def)
  have "region_from a l = Some x \<Longrightarrow> x \<in> set l" for l by (induction a l rule: region_from.induct) (auto split: if_splits)
  then show ?thesis using region_from_unique [OF t, of "fst x" "snd x" a]
    by (auto simp: used_at_def used_regions_def split: option.splits if_splits)
qed

lemma region_at_iff: "rm_inv (lm_rm s) \<Longrightarrow> region_at p s = Some r \<longleftrightarrow> (p, r) \<in> set (rm_head (lm_rm s))"
  by (simp add: region_at_def rm_inv_def)

lemma tree_find:
  assumes "lm_inv s"
  shows "avlt_find \<lparr>k_start = a, k_end = a\<rparr> (lm_tree s) =
    (case used_at s a of Some x \<Rightarrow> (0, Some (fst x)) | None \<Rightarrow> (- AVLT_NOT_FOUND, None))"
proof -
  let ?k = "\<lparr>k_start = a, k_end = a\<rparr>"
  have inv: "rm_inv (lm_rm s)" "tree_inv (lm_tree s)" and e: "entries (lm_tree s) = region_key ` used_regions (lm_rm s)" using assms by (auto simp: lm_inv_def)
  have k: "key_ok ?k" by (simp add: key_ok_def)
  have i: "AVLT_IS_IN ?k (fst (region_key x)) \<longleftrightarrow> in_region (snd x) a" for x by (simp add: AVLT_IS_IN_def region_key_def in_region_def)
  note f = avlt_find_ok [OF inv(2) k]
  show ?thesis
  proof (cases "used_at s a")
    case None
    then have "\<forall>x \<in> entries (lm_tree s). \<not> AVLT_IS_IN ?k (fst x)" unfolding e using i used_at_iff [OF inv(1), of a] by fastforce
    then show ?thesis using f(2) None by simp
  next
    case (Some x)
    then have x: "x \<in> used_regions (lm_rm s)" "in_region (snd x) a" using used_at_iff [OF inv(1)] by blast+
    then have "\<exists>k. (k, fst x) \<in> entries (lm_tree s) \<and> AVLT_IS_IN ?k k"
      unfolding e using i [of x] by (intro exI [of _ "fst (region_key x)"]) (auto simp: region_key_def image_iff intro!: bexI [of _ x])
    then show ?thesis using f(1) Some by simp
  qed
qed

lemma find_used: "lm_inv s \<Longrightarrow> l4rm_find_used_region a s = map_option fst (used_at s a)"
  by (simp add: l4rm_find_used_region_def tree_find AVLT_NOT_FOUND_def split: option.split)

section \<open>Adding a region\<close>

definition lm_frame :: "l4rm_state \<Rightarrow> l4rm_state \<Rightarrow> bool" where
  "lm_frame s s' \<longleftrightarrow> lm_lock s' = lm_lock s \<and> lm_unmapped s' = lm_unmapped s \<and> lm_service_id s' = lm_service_id s \<and> lm_task_pager s' = lm_task_pager s"

text \<open>The environment of a call that succeeds in reaching the region mapper thread and in getting a tree node.\<close>

definition env_ok :: "rm_env \<Rightarrow> l4rm_state \<Rightarrow> bool" where
  "env_ok e s \<longleftrightarrow> env_node e \<and> env_ipc e \<and> l4_task_equal (env_me e) (lm_service_id s)"

lemma desc_bounds:
  assumes "place_ok m sz area (rp, a, sz1)" "rm_inv m"
  obtains d where "(rp, d) \<in> set (rm_head m)" "IS_FREE_REGION d" "REGION_AREA d = area" "rd_start d \<le> a" "a \<le> a + sz1 - 1" "a + sz1 - 1 \<le> rd_end d"
    "unat (a + sz1 - 1) = unat a + unat sz1 - 1"
proof -
  obtain d where d: "(rp, d) \<in> set (rm_head m)" "IS_FREE_REGION d" "REGION_AREA d = area" "rd_start d \<le> a" "unat a + unat sz1 \<le> unat (rd_end d) + 1"
    and z: "0 < unat sz1" using assms(1) by (auto simp: place_ok_def)
  have "sz1 \<noteq> 0" using z by auto
  then have s1: "unat (sz1 - 1) = unat sz1 - 1" by simp
  have "unat a + unat (sz1 - 1) < 4294967296" using s1 d(5) z unat_lt32 [of "rd_end d"] by linarith
  then have "unat (a + (sz1 - 1)) = unat a + (unat sz1 - 1)" using s1 by (subst unat_add_lt) simp_all
  then have u: "unat (a + sz1 - 1) = unat a + unat sz1 - 1" using z by (simp add: add_diff_eq)
  show ?thesis by (rule that [OF d(1-4) _ _ u]) (use u d(5) z in \<open>auto simp: word_le_unat\<close>)
qed

lemma new_desc_fields:
  "rd_start (new_region_desc a sz area flags r) = a" "rd_end (new_region_desc a sz area flags r) = a + sz - 1"
  "rd_data (new_region_desc a sz area flags r) = rd_data r" "REGION_TYPE (new_region_desc a sz area flags r) = REGION_TYPE r"
  "REGION_AREA (new_region_desc a sz area flags r) = (if flags AND L4RM_SET_AREA \<noteq> 0 then drop_bit L4_PAGESHIFT a else area) AND AREA_MASK"
proof -
  let ?x = "(if flags AND L4RM_SET_AREA \<noteq> 0 then drop_bit L4_PAGESHIFT a else area)"
  have f: "rd_flags (new_region_desc a sz area flags r) = (?x AND AREA_MASK) OR (rd_flags r AND NOT AREA_MASK)"
    by (simp add: new_region_desc_def SET_AREA_def)
  have m: "NOT AREA_MASK AND TYPE_MASK = TYPE_MASK" by (simp add: l4_const)
  show "REGION_TYPE (new_region_desc a sz area flags r) = REGION_TYPE r"
    unfolding REGION_TYPE_def f bit.conj_disj_distrib2 and.assoc m type_area_mask by simp
  show "REGION_AREA (new_region_desc a sz area flags r) = ?x AND AREA_MASK"
    unfolding REGION_AREA_def f bit.conj_disj_distrib2 and.assoc by simp
qed (simp_all add: new_region_desc_def SET_AREA_def)

text \<open>A region inside a free region does not overlap a region in use.\<close>

lemma no_overlap:
  assumes inv: "lm_inv s" and d: "(rp, d) \<in> set (rm_head (lm_rm s))" "IS_FREE_REGION d" and r: "rd_start d \<le> a" "a \<le> b" "b \<le> rd_end d"
  shows "\<not> overlaps_entry \<lparr>k_start = a, k_end = b\<rparr> (lm_tree s)"
proof
  assume "overlaps_entry \<lparr>k_start = a, k_end = b\<rparr> (lm_tree s)"
  then obtain q u where u: "(q, u) \<in> used_regions (lm_rm s)" "rd_start u \<le> b" "a \<le> rd_end u"
    using inv by (auto simp: overlaps_entry_def lm_inv_def region_key_def AVLT_IS_LOWER_def not_less)
  then have qu: "(q, u) \<in> set (rm_head (lm_rm s))" "\<not> IS_FREE_REGION u" by (auto simp: used_regions_def)
  have ri: "rm_inv (lm_rm s)" using inv by (simp add: lm_inv_def)
  have "rd_start u \<le> rd_end u" using tiles_mem_bounds [OF _ qu(1)] ri unfolding rm_inv_def by blast
  then have "in_region u (max a (rd_start u))" "in_region d (max a (rd_start u))" using u r by (auto simp: in_region_def max_def)
  then have "u = d" using region_unique [OF ri qu(1) _ d(1)] by blast
  then show False using qu(2) d(2) by simp
qed

lemma tree_insert_ok:
  assumes inv: "tree_inv (lm_tree s)" and k: "rd_start r \<le> rd_end r"
    and o: "\<not> overlaps_entry \<lparr>k_start = rd_start r, k_end = rd_end r\<rparr> (lm_tree s)" and e: "env_ok e s"
  shows "\<exists>t s'. l4rm_tree_insert_region e p r flags s = Inr (s', 0) \<and> lm_tree s' = t \<and> tree_inv t \<and> entries t = insert (region_key (p, r)) (entries (lm_tree s)) \<and>
    lm_rm s' = lm_rm s \<and> lm_frame s s'"
proof -
  let ?k = "\<lparr>k_start = rd_start r, k_end = rd_end r\<rparr>"
  have "key_ok ?k" using k by (simp add: key_ok_def)
  from avlt_insert_ok [OF inv this, of True p] o
  obtain t where t: "avlt_insert True ?k p (lm_tree s) = Inr (t, 0)" "tree_inv t" "entries t = insert (?k, p) (entries (lm_tree s))" by auto
  let ?s1 = "s\<lparr>arg_key := ?k, arg_data := p\<rparr>"
  have a: "add_region True ?s1 = Inr (?s1\<lparr>lm_tree := t\<rparr>, 0)" using t(1) by (simp add: add_region_def)
  have "l4rm_tree_insert_region e p r flags s = Inr (?s1\<lparr>lm_tree := t\<rparr>, 0)"
    using e a by (simp add: l4rm_tree_insert_region_def Let_def env_ok_def l4_rm_add_component_def)
  then show ?thesis using t by (intro exI [of _ t] exI [of _ "?s1\<lparr>lm_tree := t\<rparr>"]) (simp add: region_key_def lm_frame_def)
qed

definition attached :: "u32 \<Rightarrow> u32 \<Rightarrow> l4_addr_t \<Rightarrow> region_desc \<Rightarrow> l4rm_state \<Rightarrow> l4rm_state \<Rightarrow> bool" where
  "attached sz area p r s s' \<longleftrightarrow> lm_inv s' \<and> used_regions (lm_rm s') = insert (p, r) (used_regions (lm_rm s)) \<and>
     4096 dvd unat (rd_start r) \<and> unat sz \<le> unat (rd_end r) + 1 - unat (rd_start r) \<and> rd_start r \<le> rd_end r \<and>
     (\<forall>x. in_region r x \<longrightarrow> (\<exists>f. flags_at (rm_head (lm_rm s)) x = Some f \<and> f AND TYPE_MASK = REGION_FREE \<and> f AND AREA_MASK = area)) \<and>
     (\<forall>x. flags_at (rm_head (lm_rm s')) x = (if in_region r x then Some (rd_flags r) else flags_at (rm_head (lm_rm s)) x))"

definition refused :: "l4_addr_t \<Rightarrow> l4rm_state \<Rightarrow> l4rm_state \<Rightarrow> bool" where
  "refused p s s' \<longleftrightarrow> lm_inv s' \<and> lm_tree s' = lm_tree s \<and> rm_head (lm_rm s') = rm_head (lm_rm s) \<and> loose_desc (lm_rm s') p"

lemma new_region_ok:
  assumes inv: "lm_inv s" and p: "loose_desc (lm_rm s) p" and g: "grow_ok (env_grow_split e) (lm_rm s)" and e: "env_ok e s"
    and sz: "0 < unat sz" "unat sz \<le> 0x1FFFF000" and r: "REGION_TYPE r \<noteq> REGION_FREE" "data_ok r" and f: "flags AND L4RM_TREE_INSERT \<noteq> 0"
  shows "\<exists>s' r' ret. l4rm_new_region e p r addr sz area flags s = Inr (s', r', ret) \<and> lm_frame s s' \<and>
    (ret = 0 \<and> attached sz area p r' s s' \<and> rd_data r' = rd_data r \<and> REGION_TYPE r' = REGION_TYPE r \<or>
     ret \<in> {- L4_ENOMAP, - L4_EINVAL, - L4_EUSED, - L4_ENOMEM} \<and> refused p s s')"
proof -
  have ri: "rm_inv (lm_rm s)" and v: "vm_ok (lm_rm s)" using inv by (auto simp: lm_inv_def)
  obtain pl where pl: "new_region_place addr sz area flags s = Inr pl"
    "case pl of Inl ret \<Rightarrow> ret \<in> {- L4_ENOMAP, - L4_EINVAL, - L4_EUSED} | Inr x \<Rightarrow> place_ok (lm_rm s) sz area x"
    using new_region_place_ok [OF ri v sz] by blast
  show ?thesis
  proof (cases pl)
    case (Inl ret)
    then have "l4rm_new_region e p r addr sz area flags s = Inr (s, r, ret)" using pl by (simp add: l4rm_new_region_def)
    then show ?thesis using pl Inl inv p by (auto simp: refused_def lm_frame_def)
  next
    case (Inr x)
    obtain rp a sz1 where x: "x = (rp, a, sz1)" by (cases x) auto
    have po: "place_ok (lm_rm s) sz area (rp, a, sz1)" using pl Inr x by simp
    obtain d where d: "(rp, d) \<in> set (rm_head (lm_rm s))" "IS_FREE_REGION d" "REGION_AREA d = area" "rd_start d \<le> a" "a \<le> a + sz1 - 1" "a + sz1 - 1 \<le> rd_end d"
      "unat (a + sz1 - 1) = unat a + unat sz1 - 1" using desc_bounds [OF po ri] by metis
    define r1 where "r1 = new_region_desc a sz1 area flags r"
    note r1 = new_desc_fields [of a sz1 area flags r, folded r1_def]
    have nf: "\<not> IS_FREE_REGION r1" using r(1) r1 by (simp add: IS_FREE_REGION_def)
    have fl: "rd_flags r1 \<noteq> rd_flags d" using nf d(2) by (auto simp: IS_FREE_REGION_def REGION_TYPE_def)
    obtain m ret where m: "insert_region (env_grow_split e) p r1 rp (lm_rm s) = Inr (m, ret)"
      "ret = 0 \<and> inserted p r1 (lm_rm s) m \<or> ret = - L4_ENOMEM \<and> (\<exists>c. m = (lm_rm s)\<lparr>rm_cache := c\<rparr> \<and> slab_inv c \<and> in_use c = in_use (rm_cache (lm_rm s)))"
      using insert_region_ok [OF ri d(1) p g d(2), of r1] r1 d fl by auto
    let ?s1 = "s\<lparr>lm_rm := m\<rparr>"
    have body: "l4rm_new_region e p r addr sz area flags s =
        (if ret < 0 then Inr (?s1, r1, ret) else bind_res (l4rm_tree_insert_region e p r1 flags ?s1) (\<lambda>(s2, ret2).
           if ret2 < 0 then (if ret2 = - L4_EEXISTS then Inl Panic
             else bind_res (l4rm_free_region p (lm_rm s2)) (\<lambda>m2. Inr (s2\<lparr>lm_rm := m2\<rparr>, r1, ret2))) else Inr (s2, r1, 0)))"
      using pl(1) Inr x m(1) f unfolding r1_def by (simp add: l4rm_new_region_def Let_def)
    from m(2) show ?thesis
    proof (elim disjE conjE exE)
      fix c assume h: "ret = - L4_ENOMEM" "m = (lm_rm s)\<lparr>rm_cache := c\<rparr>" "slab_inv c" "in_use c = in_use (rm_cache (lm_rm s))"
      have "rm_inv m" using ri h by (auto simp: rm_inv_def)
      then have "refused p s ?s1" using inv p h by (auto simp: refused_def lm_inv_def used_regions_def vm_ok_def loose_desc_def)
      then show ?thesis using body h(1) by (auto simp: L4_ENOMEM_def lm_frame_def)
    next
      assume h: "ret = 0" "inserted p r1 (lm_rm s) m"
      have te: "tree_inv (lm_tree ?s1)" using inv by (simp add: lm_inv_def)
      have k: "rd_start r1 \<le> rd_end r1" using r1 d by simp
      have ov: "\<not> overlaps_entry \<lparr>k_start = rd_start r1, k_end = rd_end r1\<rparr> (lm_tree ?s1)"
        using no_overlap [OF inv d(1,2,4,5,6)] r1 by simp
      have ee: "env_ok e ?s1" using e by (simp add: env_ok_def)
      obtain s2 where s2: "l4rm_tree_insert_region e p r1 flags ?s1 = Inr (s2, 0)" "tree_inv (lm_tree s2)"
        "entries (lm_tree s2) = insert (region_key (p, r1)) (entries (lm_tree s))" "lm_rm s2 = m" "lm_frame ?s1 s2"
        using tree_insert_ok [OF te k ov ee, of p flags] by auto
      have iu: "used_regions m = insert (p, r1) (used_regions (lm_rm s))" "rm_inv m" "vm_ok m" using h(2) nf v by (auto simp: inserted_def vm_ok_def)
      have "data_ok r1" using r(2) r1 by (simp add: data_ok_def)
      then have li: "lm_inv s2" using s2 iu inv by (auto simp: lm_inv_def)
      have fa: "flags_at (rm_head m) x = (if in_region r1 x then Some (rd_flags r1) else flags_at (rm_head (lm_rm s)) x)" for x
        using h(2) by (simp add: inserted_def)
      have old: "\<exists>f. flags_at (rm_head (lm_rm s)) x = Some f \<and> f AND TYPE_MASK = REGION_FREE \<and> f AND AREA_MASK = area" if "in_region r1 x" for x
      proof -
        have "in_region d x" using that r1 d by (auto simp: in_region_def)
        then show ?thesis using flags_at_region [OF ri d(1)] d(2,3) by (auto simp: IS_FREE_REGION_def REGION_TYPE_def REGION_AREA_def)
      qed
      have "attached sz area p r1 s s2"
        unfolding attached_def using li s2(4) iu(1) fa old k r1 d(7) po by (auto simp: place_ok_def)
      moreover have "lm_frame s s2" using s2(5) by (simp add: lm_frame_def)
      ultimately show ?thesis using body h(1) s2(1) r1 by auto
    qed
  qed
qed

section \<open>Descriptors and the lock\<close>

lemma alloc_desc_ok:
  assumes inv: "lm_inv s" and g: "grow_ok (env_grow e) (lm_rm s)"
  shows "\<exists>s' p. alloc_desc e s = Inr (s', p) \<and> lm_inv s' \<and> lm_frame s s' \<and> lm_tree s' = lm_tree s \<and> rm_head (lm_rm s') = rm_head (lm_rm s) \<and>
    (p \<noteq> 0 \<longrightarrow> loose_desc (lm_rm s') p)"
proof -
  have ri: "rm_inv (lm_rm s)" using inv by (simp add: lm_inv_def)
  then have ci: "slab_inv (rm_cache (lm_rm s))" by (simp add: rm_inv_def)
  obtain c p where c: "l4rm_region_desc_alloc (env_grow e) (lm_rm s) = Inr ((lm_rm s)\<lparr>rm_cache := c\<rparr>, p)" "slab_inv c"
    "p \<noteq> 0 \<longrightarrow> \<not> in_use (rm_cache (lm_rm s)) p"
    "in_use c = (if p = 0 then in_use (rm_cache (lm_rm s)) else (in_use (rm_cache (lm_rm s)))(p := True))"
    using desc_alloc_ok [OF ci g] by blast
  have "rm_inv ((lm_rm s)\<lparr>rm_cache := c\<rparr>)" using ri c by (auto simp: rm_inv_def)
  moreover have "loose_desc ((lm_rm s)\<lparr>rm_cache := c\<rparr>) p" if "p \<noteq> 0"
    using that c ri by (auto simp: loose_desc_def rm_inv_def)
  ultimately show ?thesis using c(1) inv
    by (auto simp: alloc_desc_def lm_inv_def lm_frame_def vm_ok_def used_regions_def)
qed

lemma free_desc_ok:
  assumes inv: "lm_inv s" and p: "loose_desc (lm_rm s) p"
  shows "\<exists>s'. free_desc p s = Inr s' \<and> lm_inv s' \<and> lm_frame s s' \<and> lm_tree s' = lm_tree s \<and> rm_head (lm_rm s') = rm_head (lm_rm s)"
proof -
  have ri: "rm_inv (lm_rm s)" using inv by (simp add: lm_inv_def)
  obtain c where c: "l4rm_region_desc_free p (lm_rm s) = Inr ((lm_rm s)\<lparr>rm_cache := c\<rparr>)" "slab_inv c" "in_use c = (in_use (rm_cache (lm_rm s)))(p := False)"
    using desc_free_ok [of "lm_rm s" p] ri p by (auto simp: rm_inv_def loose_desc_def)
  have "rm_inv ((lm_rm s)\<lparr>rm_cache := c\<rparr>)" using ri c p by (auto simp: rm_inv_def loose_desc_def)
  then show ?thesis using c(1) inv by (auto simp: free_desc_def lm_inv_def lm_frame_def vm_ok_def used_regions_def)
qed

text \<open>Locking is possible, and unlocking a state with the same lock restores it.\<close>

definition can_lock :: "rm_env \<Rightarrow> u32 \<Rightarrow> l4rm_state \<Rightarrow> bool" where
  "can_lock e flags s \<longleftrightarrow> flags AND L4RM_MODIFY_DIRECT = 0 \<longrightarrow> lock_free_for (env_me e) (lm_lock s)"

lemma lock_direct_ok:
  assumes "can_lock e flags s"
  shows "\<exists>l. l4rm_lock_region_list_direct (env_me e) flags s = Inr (s\<lparr>lm_lock := l\<rparr>) \<and>
    (\<forall>s'. lm_lock s' = l \<longrightarrow> l4rm_unlock_region_list_direct (env_me e) flags s' = s'\<lparr>lm_lock := lm_lock s\<rparr>)"
proof (cases "flags AND L4RM_MODIFY_DIRECT = 0")
  case True
  then obtain l where "l4lock_lock (env_me e) (lm_lock s) = Inr l" "l4lock_unlock (env_me e) l = lm_lock s"
    using lock_unlock_back assms by (auto simp: can_lock_def)
  then show ?thesis using True
    by (auto simp: l4rm_lock_region_list_direct_def l4rm_lock_region_list_def l4rm_unlock_region_list_direct_def l4rm_unlock_region_list_def)
next
  case False
  then show ?thesis by (intro exI [of _ "lm_lock s"]) (auto simp: l4rm_lock_region_list_direct_def l4rm_unlock_region_list_direct_def)
qed

lemma lock_ok:
  fixes e :: rm_env
  assumes "lock_free_for (env_me e) (lm_lock s)"
  shows "\<exists>l. l4rm_lock_region_list (env_me e) s = Inr (s\<lparr>lm_lock := l\<rparr>) \<and>
    (\<forall>s'. lm_lock s' = l \<longrightarrow> l4rm_unlock_region_list (env_me e) s' = s'\<lparr>lm_lock := lm_lock s\<rparr>)"
  using lock_direct_ok [of e 0 s] assms by (simp add: can_lock_def l4rm_lock_region_list_direct_def l4rm_unlock_region_list_direct_def)

lemma lm_lock_inv [simp]: "lm_inv (s\<lparr>lm_lock := l\<rparr>) = lm_inv s"
  by (simp add: lm_inv_def)

definition mem_ok :: "rm_env \<Rightarrow> l4rm_state \<Rightarrow> bool" where
  "mem_ok e s \<longleftrightarrow> grow_ok (env_grow e) (lm_rm s) \<and> (\<forall>s1 p. alloc_desc e s = Inr (s1, p) \<longrightarrow> grow_ok (env_grow_split e) (lm_rm s1))"

text \<open>The part that attach, reserve and set-up share: the lock is held around \<open>l4rm_new_region\<close>.\<close>

lemma add_region_ok:
  assumes inv: "lm_inv s" and m: "mem_ok e s" and e: "env_ok e s" and l: "can_lock e flags s"
    and sz: "0 < unat sz" "unat sz \<le> 0x1FFFF000" and r: "REGION_TYPE r \<noteq> REGION_FREE" "data_ok r"
    and f: "flags' AND L4RM_TREE_INSERT \<noteq> 0"
  shows "\<exists>s1 p. alloc_desc e s = Inr (s1, p) \<and> lm_inv s1 \<and> lm_frame s s1 \<and> lm_tree s1 = lm_tree s \<and> rm_head (lm_rm s1) = rm_head (lm_rm s) \<and>
    (p \<noteq> 0 \<longrightarrow> (\<exists>k s3 r1 ret. l4rm_lock_region_list_direct (env_me e) flags s1 = Inr (s1\<lparr>lm_lock := k\<rparr>) \<and>
       l4rm_new_region e p r addr sz area flags' (s1\<lparr>lm_lock := k\<rparr>) = Inr (s3, r1, ret) \<and> lm_lock s3 = k \<and> lm_unmapped s3 = lm_unmapped s \<and>
       lm_service_id s3 = lm_service_id s \<and> lm_task_pager s3 = lm_task_pager s \<and>
       (\<forall>s'. lm_lock s' = k \<longrightarrow> l4rm_unlock_region_list_direct (env_me e) flags s' = s'\<lparr>lm_lock := lm_lock s\<rparr>) \<and>
       (ret = 0 \<and> attached sz area p r1 s s3 \<and> rd_data r1 = rd_data r \<and> REGION_TYPE r1 = REGION_TYPE r \<or>
        ret \<in> {- L4_ENOMAP, - L4_EINVAL, - L4_EUSED, - L4_ENOMEM} \<and> refused p s s3)))"
proof -
  obtain s1 p where a: "alloc_desc e s = Inr (s1, p)" "lm_inv s1" "lm_frame s s1" "lm_tree s1 = lm_tree s" "rm_head (lm_rm s1) = rm_head (lm_rm s)"
    "p \<noteq> 0 \<longrightarrow> loose_desc (lm_rm s1) p"
    using alloc_desc_ok [OF inv, of e] m by (auto simp: mem_ok_def)
  have fr: "lm_lock s1 = lm_lock s" "lm_unmapped s1 = lm_unmapped s" "lm_service_id s1 = lm_service_id s" "lm_task_pager s1 = lm_task_pager s"
    using a(3) by (auto simp: lm_frame_def)
  have "can_lock e flags s1" using l fr by (simp add: can_lock_def)
  then obtain k where k: "l4rm_lock_region_list_direct (env_me e) flags s1 = Inr (s1\<lparr>lm_lock := k\<rparr>)"
    "\<forall>s'. lm_lock s' = k \<longrightarrow> l4rm_unlock_region_list_direct (env_me e) flags s' = s'\<lparr>lm_lock := lm_lock s\<rparr>"
    using lock_direct_ok [of e flags s1] fr by auto
  let ?s2 = "s1\<lparr>lm_lock := k\<rparr>"
  have g: "grow_ok (env_grow_split e) (lm_rm ?s2)" using m a(1) by (simp add: mem_ok_def)
  have ee: "env_ok e ?s2" using e fr by (simp add: env_ok_def)
  have "\<exists>s3 r1 ret. l4rm_new_region e p r addr sz area flags' ?s2 = Inr (s3, r1, ret) \<and> lm_frame ?s2 s3 \<and>
      (ret = 0 \<and> attached sz area p r1 ?s2 s3 \<and> rd_data r1 = rd_data r \<and> REGION_TYPE r1 = REGION_TYPE r \<or>
       ret \<in> {- L4_ENOMAP, - L4_EINVAL, - L4_EUSED, - L4_ENOMEM} \<and> refused p ?s2 s3)" if "p \<noteq> 0"
    using a(2,6) that by (intro new_region_ok [OF _ _ g ee sz r f]) simp_all
  moreover have "attached sz area p r1 ?s2 s3 = attached sz area p r1 s s3" "refused p ?s2 s3 = refused p s s3" for r1 s3
    using a(4,5) by (simp_all add: attached_def refused_def used_regions_def)
  ultimately show ?thesis using a k fr by (intro exI [of _ s1] exI [of _ p]) (fastforce simp: lm_frame_def)
qed

section \<open>Attaching\<close>

lemma map_offs:
  "unat (x - l4_trunc_page x) = unat x mod 4096" "l4_trunc_page x \<le> x"
proof -
  have t: "unat (l4_trunc_page x) = unat x div 4096 * 4096" by (rule unat_trunc_page)
  show l: "l4_trunc_page x \<le> x" unfolding word_le_unat t by simp
  show "unat (x - l4_trunc_page x) = unat x mod 4096" unfolding unat_sub_le [OF l] t by (simp add: minus_div_mult_eq_mod)
qed

lemma set_type_type: "t AND TYPE_MASK = t \<Longrightarrow> REGION_TYPE (SET_REGION_TYPE t r) = t"
  by (simp add: REGION_TYPE_def SET_REGION_TYPE_def bit.conj_disj_distrib2 and.assoc type_area_mask)

lemma region_types:
  "REGION_TYPE (SET_REGION_TYPE REGION_DATASPACE r) = REGION_DATASPACE" "REGION_TYPE (SET_REGION_TYPE REGION_PAGER r) = REGION_PAGER"
  "REGION_TYPE (SET_REGION_TYPE REGION_EXCEPTION r) = REGION_EXCEPTION" "REGION_TYPE (SET_REGION_TYPE REGION_BLOCKED r) = REGION_BLOCKED"
  "REGION_DATASPACE \<noteq> REGION_FREE" "REGION_PAGER \<noteq> REGION_FREE" "REGION_EXCEPTION \<noteq> REGION_FREE" "REGION_BLOCKED \<noteq> REGION_FREE"
  "REGION_DATASPACE \<noteq> REGION_PAGER" "REGION_EXCEPTION \<noteq> REGION_DATASPACE" "REGION_EXCEPTION \<noteq> REGION_PAGER"
  "REGION_BLOCKED \<noteq> REGION_DATASPACE" "REGION_BLOCKED \<noteq> REGION_PAGER" "REGION_PAGER \<noteq> REGION_DATASPACE"
  by (rule set_type_type, simp add: l4_const)+ (simp_all add: l4_const)

lemma set_type_data: "rd_data (SET_REGION_TYPE t r) = rd_data r"
  by (simp add: SET_REGION_TYPE_def)

lemma or_and_absorb: "(x OR t) AND t = t" for x t :: u32
  by (rule bit_word_eqI) (auto simp: bit_simps)

lemma tree_insert_flag: "(flags OR L4RM_TREE_INSERT) AND L4RM_TREE_INSERT \<noteq> 0"
  unfolding or_and_absorb by (simp add: l4_const)

text \<open>What an attached region looks like to the client.\<close>

definition region_added :: "l4rm_state \<Rightarrow> l4rm_state \<Rightarrow> u32 \<Rightarrow> l4_addr_t \<Rightarrow> region_desc \<Rightarrow> bool" where
  "region_added s s' area p r \<longleftrightarrow> used_regions (lm_rm s') = insert (p, r) (used_regions (lm_rm s)) \<and> 4096 dvd unat (rd_start r) \<and>
     (\<forall>x. in_region r x \<longrightarrow> (\<exists>f. flags_at (rm_head (lm_rm s)) x = Some f \<and> f AND TYPE_MASK = REGION_FREE \<and> f AND AREA_MASK = area)) \<and>
     (\<forall>x. flags_at (rm_head (lm_rm s')) x = (if in_region r x then Some (rd_flags r) else flags_at (rm_head (lm_rm s)) x))"

lemma attachedD:
  "attached sz area p r s s' \<Longrightarrow> lm_inv s' \<and> region_added s s' area p r \<and> unat (rd_start r) + unat sz \<le> unat (rd_end r) + 1"
  by (auto simp: attached_def region_added_def word_le_unat)

lemma region_added_lock [simp]: "region_added s (s'\<lparr>lm_lock := l\<rparr>) = region_added s s'"
  by (simp add: region_added_def fun_eq_iff)

lemma attach_ok:
  assumes inv: "lm_inv s" and m: "mem_ok e s" and e: "env_ok e s" and l: "can_lock e flags s" and ds: "\<not> l4dm_is_invalid_ds ds"
    and sz: "0 < unat sz" "unat sz \<le> 0x1FFFE000"
  shows "\<exists>s' a' ret. l4rm_do_attach e ds area addr sz ds_offs flags s = Inr (s', a', ret) \<and> lm_inv s' \<and> lm_frame s s' \<and>
    (ret = 0 \<and> (\<exists>p r. region_added s s' area p r \<and> REGION_TYPE r = REGION_DATASPACE \<and>
        rd_data r = Data_ds ds (l4_trunc_page ds_offs) (flags AND L4DM_RIGHTS_MASK) \<and>
        a' = rd_start r + (ds_offs - l4_trunc_page ds_offs) \<and> rd_start r \<le> a' \<and> unat a' + unat sz \<le> unat (rd_end r) + 1) \<or>
     ret \<in> {- L4_ENOMAP, - L4_EINVAL, - L4_EUSED, - L4_ENOMEM} \<and> a' = addr \<and> rm_head (lm_rm s') = rm_head (lm_rm s) \<and> lm_tree s' = lm_tree s)"
proof -
  let ?mo = "ds_offs - l4_trunc_page ds_offs" and ?r = "SET_REGION_TYPE REGION_DATASPACE
    (region_fresh\<lparr>rd_data := Data_ds ds (l4_trunc_page ds_offs) (flags AND L4DM_RIGHTS_MASK)\<rparr>)"
  have mo: "unat ?mo < 4096" using map_offs(1) [of ds_offs] by simp
  then have us: "unat (sz + ?mo) = unat sz + unat ?mo" using sz by (subst unat_add_lt) simp_all
  then have sz': "0 < unat (sz + ?mo)" "unat (sz + ?mo) \<le> 0x1FFFF000" using sz mo by simp_all
  have ty: "REGION_TYPE ?r \<noteq> REGION_FREE" using region_types(1,5) by simp
  have da: "data_ok ?r" by (simp add: data_ok_def region_types set_type_data)
  obtain s1 p where a: "alloc_desc e s = Inr (s1, p)" "lm_inv s1" "lm_frame s s1" "lm_tree s1 = lm_tree s" "rm_head (lm_rm s1) = rm_head (lm_rm s)"
    and n: "p \<noteq> 0 \<longrightarrow> (\<exists>k s3 r1 ret. l4rm_lock_region_list_direct (env_me e) flags s1 = Inr (s1\<lparr>lm_lock := k\<rparr>) \<and>
       l4rm_new_region e p ?r addr (sz + ?mo) area (flags OR L4RM_TREE_INSERT) (s1\<lparr>lm_lock := k\<rparr>) = Inr (s3, r1, ret) \<and> lm_lock s3 = k \<and>
       lm_unmapped s3 = lm_unmapped s \<and> lm_service_id s3 = lm_service_id s \<and> lm_task_pager s3 = lm_task_pager s \<and>
       (\<forall>s'. lm_lock s' = k \<longrightarrow> l4rm_unlock_region_list_direct (env_me e) flags s' = s'\<lparr>lm_lock := lm_lock s\<rparr>) \<and>
       (ret = 0 \<and> attached (sz + ?mo) area p r1 s s3 \<and> rd_data r1 = rd_data ?r \<and> REGION_TYPE r1 = REGION_TYPE ?r \<or>
        ret \<in> {- L4_ENOMAP, - L4_EINVAL, - L4_EUSED, - L4_ENOMEM} \<and> refused p s s3))"
    using add_region_ok [OF inv m e l sz' ty da tree_insert_flag, of addr area flags] by blast
  show ?thesis
  proof (cases "p = 0")
    case True
    then show ?thesis using a ds by (simp add: l4rm_do_attach_def Let_def)
  next
    case False
    then obtain k s3 r1 ret where h: "l4rm_lock_region_list_direct (env_me e) flags s1 = Inr (s1\<lparr>lm_lock := k\<rparr>)"
       "l4rm_new_region e p ?r addr (sz + ?mo) area (flags OR L4RM_TREE_INSERT) (s1\<lparr>lm_lock := k\<rparr>) = Inr (s3, r1, ret)" "lm_lock s3 = k"
       "lm_unmapped s3 = lm_unmapped s" "lm_service_id s3 = lm_service_id s" "lm_task_pager s3 = lm_task_pager s"
       "\<forall>s'. lm_lock s' = k \<longrightarrow> l4rm_unlock_region_list_direct (env_me e) flags s' = s'\<lparr>lm_lock := lm_lock s\<rparr>"
       "ret = 0 \<and> attached (sz + ?mo) area p r1 s s3 \<and> rd_data r1 = rd_data ?r \<and> REGION_TYPE r1 = REGION_TYPE ?r \<or>
        ret \<in> {- L4_ENOMAP, - L4_EINVAL, - L4_EUSED, - L4_ENOMEM} \<and> refused p s s3" using n by blast
    have body: "l4rm_do_attach e ds area addr sz ds_offs flags s =
        (if ret < 0 then bind_res (free_desc p s3) (\<lambda>s4. Inr (l4rm_unlock_region_list_direct (env_me e) flags s4, addr, ret))
         else Inr (s3\<lparr>lm_lock := lm_lock s\<rparr>, rd_start r1 + ?mo, 0))"
      using ds a(1) False h(1,2,3,7) by (simp add: l4rm_do_attach_def Let_def)
    from h(8) show ?thesis
    proof (elim disjE conjE)
      assume g: "ret = 0" "attached (sz + ?mo) area p r1 s s3" "rd_data r1 = rd_data ?r" "REGION_TYPE r1 = REGION_TYPE ?r"
      note at = attachedD [OF g(2)]
      have "unat (rd_start r1) + unat ?mo < 4294967296" using at us sz(1) unat_lt32 [of "rd_end r1"] by linarith
      then have ua: "unat (rd_start r1 + ?mo) = unat (rd_start r1) + unat ?mo" by (subst unat_add_lt) simp_all
      have "REGION_TYPE r1 = REGION_DATASPACE" "rd_data r1 = Data_ds ds (l4_trunc_page ds_offs) (flags AND L4DM_RIGHTS_MASK)"
        using g(3,4) by (simp_all add: region_types set_type_data)
      moreover have "rd_start r1 \<le> rd_start r1 + ?mo" "unat (rd_start r1 + ?mo) + unat sz \<le> unat (rd_end r1) + 1"
        using ua at us by (auto simp: word_le_unat)
      ultimately show ?thesis using body g(1) at h(4-6) by (auto simp: lm_frame_def)
    next
      assume g: "ret \<in> {- L4_ENOMAP, - L4_EINVAL, - L4_EUSED, - L4_ENOMEM}" "refused p s s3"
      have neg: "ret < 0" using g(1) by (auto simp: l4_const)
      obtain s4 where s4: "free_desc p s3 = Inr s4" "lm_inv s4" "lm_frame s3 s4" "lm_tree s4 = lm_tree s3" "rm_head (lm_rm s4) = rm_head (lm_rm s3)"
        using free_desc_ok [of s3 p] g(2) by (auto simp: refused_def)
      have "l4rm_unlock_region_list_direct (env_me e) flags s4 = s4\<lparr>lm_lock := lm_lock s\<rparr>" using h(3,7) s4(3) by (simp add: lm_frame_def)
      then show ?thesis using body neg s4 g h(4-6) by (auto simp: lm_frame_def refused_def)
    qed
  qed
qed

section \<open>Detaching\<close>

lemma region_key_inj:
  assumes "rm_inv m" "x \<in> used_regions m" "y \<in> used_regions m" "fst (region_key x) = fst (region_key y)"
  shows "x = y"
proof -
  have m: "(fst x, snd x) \<in> set (rm_head m)" "(fst y, snd y) \<in> set (rm_head m)" using assms by (auto simp: used_regions_def)
  have "in_region (snd x) (rd_start (snd x))" "in_region (snd y) (rd_start (snd x))"
    using region_nonempty [OF assms(1) m(1)] region_nonempty [OF assms(1) m(2)] assms(4) by (auto simp: region_key_def)
  then have "fst x = fst y \<and> snd x = snd y" by (rule region_unique [OF assms(1) m(1) _ m(2)])
  then show ?thesis by (simp add: prod_eq_iff)
qed

definition ipc_ok :: "rm_env \<Rightarrow> l4rm_state \<Rightarrow> bool" where
  "ipc_ok e s \<longleftrightarrow> env_ipc e \<and> l4_task_equal (env_me e) (lm_service_id s)"

lemma tree_remove_ok:
  assumes inv: "lm_inv s" and e: "ipc_ok e s" and u: "used_at s addr = Some (p, r)" and t: "REGION_TYPE r = type"
  shows "\<exists>s'. l4rm_tree_remove_region e addr type 0 s = Inr (s', 0, Some p) \<and> lm_rm s' = lm_rm s \<and> tree_inv (lm_tree s') \<and>
    entries (lm_tree s') = region_key ` (used_regions (lm_rm s) - {(p, r)}) \<and> lm_frame s s'"
proof -
  let ?s1 = "s\<lparr>arg_addr := addr, arg_type := type\<rparr>" and ?k = "\<lparr>k_start = rd_start r, k_end = rd_end r\<rparr>"
  have ri: "rm_inv (lm_rm s)" and ti: "tree_inv (lm_tree s)" and en: "entries (lm_tree s) = region_key ` used_regions (lm_rm s)"
    using inv by (auto simp: lm_inv_def)
  have m: "(p, r) \<in> used_regions (lm_rm s)" using u used_at_iff [OF ri] by blast
  then have mh: "region_at p (s\<lparr>arg_addr := addr, arg_type := type, arg_data := p\<rparr>) = Some r"
    using region_at_iff [OF ri, of p r] by (simp add: used_regions_def region_at_def)
  have f: "avlt_find \<lparr>k_start = addr, k_end = addr\<rparr> (lm_tree s) = (0, Some p)" using tree_find [OF inv, of addr] u by simp
  have "(?k, p) \<in> entries (lm_tree s)" unfolding en using m by (force simp: region_key_def)
  then have kx: "\<exists>d. (?k, d) \<in> entries (lm_tree s)" by blast
  obtain t' where t': "avlt_remove ?k (lm_tree s) = Some (Inr (t', 0))" "tree_inv t'" "entries t' = {x \<in> entries (lm_tree s). fst x \<noteq> ?k}"
    using avlt_remove_ok [OF ti, of ?k] unfolding if_P [OF kx] by blast
  have "{x \<in> region_key ` used_regions (lm_rm s). fst x \<noteq> ?k} = region_key ` (used_regions (lm_rm s) - {(p, r)})"
  proof -
    have k: "fst (region_key (p, r)) = ?k" by (simp add: region_key_def)
    have "fst (region_key x) \<noteq> ?k \<longleftrightarrow> x \<noteq> (p, r)" if "x \<in> used_regions (lm_rm s)" for x using region_key_inj [OF ri that m] k by metis
    then show ?thesis by blast
  qed
  then have e': "entries t' = region_key ` (used_regions (lm_rm s) - {(p, r)})" unfolding t'(3) en .
  have "remove_region ?s1 = Inr (?s1\<lparr>arg_data := p, lm_tree := t'\<rparr>, 0)"
    using f mh t'(1) t by (simp add: remove_region_def Let_def)
  then have "l4rm_tree_remove_region e addr type 0 s = Inr (?s1\<lparr>arg_data := p, lm_tree := t'\<rparr>, 0, Some p)"
    using e by (simp add: l4rm_tree_remove_region_def Let_def ipc_ok_def l4_rm_remove_component_def)
  then show ?thesis using t'(2) e' by (intro exI [of _ "?s1\<lparr>arg_data := p, lm_tree := t'\<rparr>"]) (simp add: lm_frame_def)
qed

text \<open>The part detach and clear share: unmap the region and free it in the list.\<close>

definition region_removed :: "l4rm_state \<Rightarrow> l4rm_state \<Rightarrow> l4_addr_t \<Rightarrow> region_desc \<Rightarrow> bool" where
  "region_removed s s' p r \<longleftrightarrow> used_regions (lm_rm s') = used_regions (lm_rm s) - {(p, r)} \<and>
     (\<forall>x. flags_at (rm_head (lm_rm s')) x = (if in_region r x then Some (rd_flags r AND AREA_MASK) else flags_at (rm_head (lm_rm s)) x)) \<and>
     (\<exists>fps. lm_unmapped s' = lm_unmapped s @ fps \<and>
        (\<Union>(b, k) \<in> set fps. {unat b ..< unat b + 2 ^ k}) = {unat (rd_start r) .. unat (rd_end r)})"

lemma drop_region_ok:
  assumes inv: "lm_inv s" and u: "(p, r) \<in> used_regions (lm_rm s)" and s2: "lm_rm s2 = lm_rm s" "tree_inv (lm_tree s2)"
    "entries (lm_tree s2) = region_key ` (used_regions (lm_rm s) - {(p, r)})" "lm_frame s s2"
  shows "\<exists>fps m. region_at p s2 = Some r \<and> l4rm_unmap_region r = Some fps \<and> l4rm_free_region p (lm_rm s2) = Inr m \<and>
    lm_inv (s2\<lparr>lm_rm := m, lm_unmapped := lm_unmapped s2 @ fps\<rparr>) \<and>
    region_removed s (s2\<lparr>lm_rm := m, lm_unmapped := lm_unmapped s2 @ fps\<rparr>) p r"
proof -
  have ri: "rm_inv (lm_rm s)" and v: "vm_ok (lm_rm s)" using inv by (auto simp: lm_inv_def)
  have h: "(p, r) \<in> set (rm_head (lm_rm s))" "\<not> IS_FREE_REGION r" using u by (auto simp: used_regions_def)
  have t: "tiles (rm_vm_start (lm_rm s)) (rm_vm_end (lm_rm s)) (rm_head (lm_rm s))" using ri by (simp add: rm_inv_def)
  have se: "rm_vm_start (lm_rm s) \<le> rd_start r" "rd_start r \<le> rd_end r" using tiles_mem_bounds [OF t h(1)] by blast+
  have "0x1000 \<le> rd_start r" using order_trans [OF _ se(1)] v by (simp add: vm_ok_def)
  then have pos: "0 < rd_start r" by (simp add: word_less_unat word_le_unat)
  obtain fps where fps: "l4rm_unmap_region r = Some fps"
    "(\<Union>(b, k) \<in> set fps. {unat b ..< unat b + 2 ^ k}) = {unat (rd_start r) .. unat (rd_end r)}"
    using unmap_region_ok [OF se(2) pos] by blast
  obtain m where m: "l4rm_free_region p (lm_rm s) = Inr m" "reflagged p r (rd_flags r AND AREA_MASK) (lm_rm s) m"
    using free_region_ok [OF ri h] by blast
  have um: "used_regions m = used_regions (lm_rm s) - {(p, r)}" "rm_inv m" "vm_ok m" using m(2) free_flags [of r r] v by (auto simp: reflagged_def vm_ok_def)
  have "lm_inv (s2\<lparr>lm_rm := m, lm_unmapped := lm_unmapped s2 @ fps\<rparr>)" using inv s2 um by (auto simp: lm_inv_def)
  moreover have "region_removed s (s2\<lparr>lm_rm := m, lm_unmapped := lm_unmapped s2 @ fps\<rparr>) p r"
    using m(2) um(1) fps(2) s2(4) by (auto simp: region_removed_def reflagged_def lm_frame_def)
  moreover have "region_at p s2 = Some r" using region_at_iff [OF ri, of p r] h s2(1) by (simp add: region_at_def)
  ultimately show ?thesis using fps(1) m(1) s2(1) by auto
qed

lemma tree_remove_fail:
  assumes inv: "lm_inv s" and e: "ipc_ok e s" and n: "\<not> (\<exists>p r. used_at s addr = Some (p, r) \<and> REGION_TYPE r = type)"
  shows "\<exists>s'. l4rm_tree_remove_region e addr type 0 s = Inr (s', (if used_at s addr = None then - L4_ENOTFOUND else - L4_EINVAL), Some 0) \<and>
    lm_rm s' = lm_rm s \<and> lm_tree s' = lm_tree s \<and> lm_frame s s'"
proof (cases "used_at s addr")
  case None
  then have "remove_region (s\<lparr>arg_addr := addr, arg_type := type\<rparr>) = Inr (s\<lparr>arg_addr := addr, arg_type := type\<rparr>, - L4_ENOTFOUND)"
    using tree_find [OF inv, of addr] by (simp add: remove_region_def)
  then show ?thesis using e None
    by (simp add: l4rm_tree_remove_region_def Let_def ipc_ok_def l4_rm_remove_component_def lm_frame_def l4_const)
next
  case (Some x)
  obtain p r where x: "x = (p, r)" by force
  have ri: "rm_inv (lm_rm s)" using inv by (simp add: lm_inv_def)
  have "(p, r) \<in> set (rm_head (lm_rm s))" using Some x used_at_iff [OF ri] by (auto simp: used_regions_def)
  then have "region_at p (s\<lparr>arg_addr := addr, arg_type := type, arg_data := p\<rparr>) = Some r"
    using region_at_iff [OF ri, of p r] by (simp add: region_at_def)
  then have "remove_region (s\<lparr>arg_addr := addr, arg_type := type\<rparr>) = Inr (s\<lparr>arg_addr := addr, arg_type := type, arg_data := p\<rparr>, - L4_EINVAL)"
    using tree_find [OF inv, of addr] Some x n by (auto simp: remove_region_def Let_def)
  then show ?thesis using e Some
    by (simp add: l4rm_tree_remove_region_def Let_def ipc_ok_def l4_rm_remove_component_def lm_frame_def l4_const)
qed

lemma detach_ok:
  assumes inv: "lm_inv s" and e: "ipc_ok e s" and l: "lock_free_for (env_me e) (lm_lock s)"
  shows "\<exists>s' ret. l4rm_detach e addr s = Inr (s', ret) \<and> lm_inv s' \<and> lm_lock s' = lm_lock s \<and>
    (case used_at s addr of
       Some (p, r) \<Rightarrow> if REGION_TYPE r = REGION_DATASPACE then ret = 0 \<and> region_removed s s' p r
         else ret = - L4_EINVAL \<and> lm_rm s' = lm_rm s \<and> lm_tree s' = lm_tree s
     | None \<Rightarrow> ret = - L4_ENOTFOUND \<and> lm_rm s' = lm_rm s \<and> lm_tree s' = lm_tree s)"
proof -
  obtain k where k: "l4rm_lock_region_list (env_me e) s = Inr (s\<lparr>lm_lock := k\<rparr>)"
    "\<forall>s'. lm_lock s' = k \<longrightarrow> l4rm_unlock_region_list (env_me e) s' = s'\<lparr>lm_lock := lm_lock s\<rparr>" using lock_ok [OF l] by blast
  let ?s1 = "s\<lparr>lm_lock := k\<rparr>"
  have i1: "lm_inv ?s1" "ipc_ok e ?s1" "used_at ?s1 addr = used_at s addr" using inv e by (simp_all add: ipc_ok_def used_at_def)
  show ?thesis
  proof (cases "\<exists>p r. used_at s addr = Some (p, r) \<and> REGION_TYPE r = REGION_DATASPACE")
    case True
    then obtain p r where u: "used_at s addr = Some (p, r)" "REGION_TYPE r = REGION_DATASPACE" by blast
    obtain s2 where s2: "l4rm_tree_remove_region e addr REGION_DATASPACE 0 ?s1 = Inr (s2, 0, Some p)" "lm_rm s2 = lm_rm s" "tree_inv (lm_tree s2)"
      "entries (lm_tree s2) = region_key ` (used_regions (lm_rm s) - {(p, r)})" "lm_frame ?s1 s2"
      using tree_remove_ok [OF i1(1,2), of addr p r] u i1(3) by auto
    have "(p, r) \<in> used_regions (lm_rm ?s1)" using u used_at_iff [of s addr] inv by (auto simp: lm_inv_def)
    from drop_region_ok [OF i1(1) this, of s2] s2 obtain fps m where d: "region_at p s2 = Some r" "l4rm_unmap_region r = Some fps"
      "l4rm_free_region p (lm_rm s2) = Inr m" "lm_inv (s2\<lparr>lm_rm := m, lm_unmapped := lm_unmapped s2 @ fps\<rparr>)"
      "region_removed ?s1 (s2\<lparr>lm_rm := m, lm_unmapped := lm_unmapped s2 @ fps\<rparr>) p r" by auto
    let ?s3 = "s2\<lparr>lm_rm := m, lm_unmapped := lm_unmapped s2 @ fps\<rparr>"
    have "l4rm_unlock_region_list (env_me e) ?s3 = ?s3\<lparr>lm_lock := lm_lock s\<rparr>" using k(2) s2(5) by (simp add: lm_frame_def)
    then have "l4rm_detach e addr s = Inr (?s3\<lparr>lm_lock := lm_lock s\<rparr>, 0)" using k(1) s2(1) d by (simp add: l4rm_detach_def)
    moreover have "region_removed s (?s3\<lparr>lm_lock := lm_lock s\<rparr>) p r" using d(5) by (simp add: region_removed_def)
    ultimately show ?thesis using d(4) u by simp
  next
    case False
    then have n: "\<not> (\<exists>p r. used_at ?s1 addr = Some (p, r) \<and> REGION_TYPE r = REGION_DATASPACE)" using i1(3) by simp
    obtain s2 where s2: "l4rm_tree_remove_region e addr REGION_DATASPACE 0 ?s1 =
        Inr (s2, (if used_at s addr = None then - L4_ENOTFOUND else - L4_EINVAL), Some 0)"
      "lm_rm s2 = lm_rm s" "lm_tree s2 = lm_tree s" "lm_frame ?s1 s2" using tree_remove_fail [OF i1(1,2) n] i1(3) by auto
    have "l4rm_unlock_region_list (env_me e) s2 = s2\<lparr>lm_lock := lm_lock s\<rparr>" using k(2) s2(4) by (simp add: lm_frame_def)
    then have "l4rm_detach e addr s = Inr (s2\<lparr>lm_lock := lm_lock s\<rparr>, if used_at s addr = None then - L4_ENOTFOUND else - L4_EINVAL)"
      using k(1) s2(1) by (simp add: l4rm_detach_def l4_const)
    moreover have "lm_inv (s2\<lparr>lm_lock := lm_lock s\<rparr>)" using inv s2 by (simp add: lm_inv_def)
    ultimately show ?thesis using s2 False by (cases "used_at s addr") auto
  qed
qed

section \<open>Lookup\<close>

lemma used_in: "used_at s a = Some (p, r) \<Longrightarrow> lm_inv s \<Longrightarrow> (p, r) \<in> set (rm_head (lm_rm s)) \<and> in_region r a \<and> \<not> IS_FREE_REGION r \<and> data_ok r"
  using used_at_iff [of s a "(p, r)"] by (auto simp: lm_inv_def used_regions_def)

text \<open>The result of the switch for a region with the data its type asks for.\<close>

definition lookup_answer :: "l4_addr_t \<Rightarrow> region_desc \<Rightarrow> int \<times> lookup_out" where
  "lookup_answer a r = (case lookup_type a r of Inr x \<Rightarrow> x | Inl _ \<Rightarrow> (L4RM_REGION_UNKNOWN, lookup_init r))"

lemma lookup_type_ok: "data_ok r \<Longrightarrow> lookup_type a r = Inr (lookup_answer a r)"
  by (auto simp: lookup_answer_def lookup_type_def data_ok_def split: region_data.splits)

lemma lookup_ok:
  assumes inv: "lm_inv s" and l: "lock_free_for (env_me e) (lm_lock s)"
  shows "l4rm_lookup e a s = Inr (s, case used_at s a of
    Some (p, r) \<Rightarrow> (fst (lookup_answer a r), Some (snd (lookup_answer a r))) | None \<Rightarrow> (- L4_ENOTFOUND, None))"
proof -
  obtain k where k: "l4rm_lock_region_list (env_me e) s = Inr (s\<lparr>lm_lock := k\<rparr>)"
    "\<forall>s'. lm_lock s' = k \<longrightarrow> l4rm_unlock_region_list (env_me e) s' = s'\<lparr>lm_lock := lm_lock s\<rparr>" using lock_ok [OF l] by blast
  have un: "l4rm_unlock_region_list (env_me e) (s\<lparr>lm_lock := k\<rparr>) = s" using k(2) by simp
  have f: "l4rm_find_used_region a (s\<lparr>lm_lock := k\<rparr>) = map_option fst (used_at s a)" using find_used [of "s\<lparr>lm_lock := k\<rparr>" a] inv by (simp add: used_at_def)
  show ?thesis
  proof (cases "used_at s a")
    case None
    then show ?thesis using k(1) un f by (simp add: l4rm_lookup_def)
  next
    case (Some x)
    obtain p r where x: "x = (p, r)" by force
    have ri: "rm_inv (lm_rm s)" using inv by (simp add: lm_inv_def)
    note u = used_in [OF Some [unfolded x] inv]
    have "region_at p (s\<lparr>lm_lock := k\<rparr>) = Some r" using u region_at_iff [OF ri, of p r] by (simp add: region_at_def)
    then show ?thesis using k(1) un f Some x lookup_type_ok [of r a] u by (simp add: l4rm_lookup_def case_prod_unfold)
  qed
qed

lemma find_region_list:
  assumes "rm_inv m" "rm_vm_start m \<le> a" "a \<le> rm_vm_end m"
  shows "\<exists>p d. l4rm_find_region a m = Inr (Some (p, d)) \<and> (p, d) \<in> set (rm_head m) \<and> in_region d a \<and> region_from a (rm_head m) = Some (p, d)"
  using region_from_spec [of "rm_vm_start m" "rm_vm_end m" "rm_head m" a] assms by (auto simp: l4rm_find_region_def rm_inv_def not_less)

lemma lookup_region_ok:
  assumes inv: "lm_inv s" and l: "lock_free_for (env_me e) (lm_lock s)"
  shows "l4rm_lookup_region e a s = Inr (s,
    if a < rm_vm_start (lm_rm s) \<or> rm_vm_end (lm_rm s) < a then (- L4_ENOTFOUND, None)
    else case used_at s a of
      Some (p, r) \<Rightarrow> (fst (lookup_answer a r), Some (snd (lookup_answer a r)))
    | None \<Rightarrow> (if the (flags_at (rm_head (lm_rm s)) a) AND AREA_MASK = L4RM_DEFAULT_REGION_AREA then L4RM_REGION_FREE else L4RM_REGION_RESERVED,
        map_option (\<lambda>x. lookup_init (snd x)) (region_from a (rm_head (lm_rm s)))))"
proof -
  have ri: "rm_inv (lm_rm s)" using inv by (simp add: lm_inv_def)
  obtain k where k: "l4rm_lock_region_list (env_me e) s = Inr (s\<lparr>lm_lock := k\<rparr>)"
    "\<forall>s'. lm_lock s' = k \<longrightarrow> l4rm_unlock_region_list (env_me e) s' = s'\<lparr>lm_lock := lm_lock s\<rparr>" using lock_ok [OF l] by blast
  have un: "l4rm_unlock_region_list (env_me e) (s\<lparr>lm_lock := k\<rparr>) = s" using k(2) by simp
  show ?thesis
  proof (cases "a < rm_vm_start (lm_rm s) \<or> rm_vm_end (lm_rm s) < a")
    case True
    then show ?thesis using k(1) un by (simp add: l4rm_lookup_region_def l4rm_find_region_def)
  next
    case False
    then have b: "rm_vm_start (lm_rm s) \<le> a" "a \<le> rm_vm_end (lm_rm s)" by (auto simp: not_less)
    obtain p d where d: "l4rm_find_region a (lm_rm s) = Inr (Some (p, d))" "(p, d) \<in> set (rm_head (lm_rm s))" "in_region d a"
      "region_from a (rm_head (lm_rm s)) = Some (p, d)" using find_region_list [OF ri b] by blast
    have fl: "flags_at (rm_head (lm_rm s)) a = Some (rd_flags d)" by (rule flags_at_region [OF ri d(2,3)])
    show ?thesis
    proof (cases "IS_FREE_REGION d")
      case True
      then have n: "used_at s a = None" using d by (simp add: used_at_def)
      have "REGION_TYPE d = REGION_FREE" using True by (simp add: IS_FREE_REGION_def)
      then show ?thesis using k(1) un d fl n False by (simp add: l4rm_lookup_region_def REGION_AREA_def)
    next
      case nf: False
      then have u: "used_at s a = Some (p, d)" using d by (simp add: used_at_def)
      have "lookup_type a d = Inr (lookup_answer a d)" using lookup_type_ok used_in [OF u inv] by blast
      moreover have "REGION_TYPE d \<noteq> REGION_FREE" using nf by (simp add: IS_FREE_REGION_def)
      ultimately show ?thesis using k(1) un d u False by (simp add: l4rm_lookup_region_def case_prod_unfold)
    qed
  qed
qed

section \<open>Properties\<close>


text \<open>
  C12. Detaching: \<open>l4rm_detach\<close> returns, gives the lock back and leaves a well-formed region mapper. An address of an
  attached dataspace loses exactly its region: the addresses are free again in the area of the region, the flexpages
  that are unmapped cover them and nothing else, all other regions stay. Other addresses are errors that change nothing.
\<close>

theorem l4rm_detach_spec:
  assumes "lm_inv s" "ipc_ok e s" "lock_free_for (env_me e) (lm_lock s)"
  shows "\<exists>s' ret. l4rm_detach e addr s = Inr (s', ret) \<and> lm_inv s' \<and> lm_lock s' = lm_lock s \<and>
    (case used_at s addr of
       Some (p, r) \<Rightarrow> if REGION_TYPE r = REGION_DATASPACE then ret = 0 \<and> region_removed s s' p r
         else ret = - L4_EINVAL \<and> lm_rm s' = lm_rm s \<and> lm_tree s' = lm_tree s
     | None \<Rightarrow> ret = - L4_ENOTFOUND \<and> lm_rm s' = lm_rm s \<and> lm_tree s' = lm_tree s)"
  by (rule detach_ok [OF assms])

text \<open>
  C27. The two lookup functions agree: \<open>l4rm_lookup\<close>, which searches the tree, and \<open>l4rm_lookup_region\<close>, which walks the
  list, give the same answer for every address of a region in use; elsewhere in the address space the first one finds
  nothing and the second one reports a free or a reserved region. Both leave the state as it was.
\<close>

theorem l4rm_lookup_agrees:
  assumes "lm_inv s" "lock_free_for (env_me e) (lm_lock s)" "rm_vm_start (lm_rm s) \<le> a" "a \<le> rm_vm_end (lm_rm s)"
  shows "if used_at s a \<noteq> None
    then l4rm_lookup e a s = l4rm_lookup_region e a s \<and> (\<exists>ty out. l4rm_lookup e a s = Inr (s, ty, Some out) \<and> L4RM_REGION_DATASPACE \<le> ty)
    else l4rm_lookup e a s = Inr (s, - L4_ENOTFOUND, None) \<and>
      (\<exists>ty out. l4rm_lookup_region e a s = Inr (s, ty, Some out) \<and> ty \<in> {L4RM_REGION_FREE, L4RM_REGION_RESERVED})"
proof -
  have r: "\<not> (a < rm_vm_start (lm_rm s) \<or> rm_vm_end (lm_rm s) < a)" using assms(3,4) by (auto simp: not_less)
  note lk = lookup_ok [OF assms(1,2), of a] lookup_region_ok [OF assms(1,2), of a, unfolded if_not_P [OF r]]
  have ri: "rm_inv (lm_rm s)" using assms(1) by (simp add: lm_inv_def)
  obtain x where x: "region_from a (rm_head (lm_rm s)) = Some x" using find_region_list [OF ri assms(3,4)] by blast
  have "L4RM_REGION_DATASPACE \<le> fst (lookup_answer a d)" for d
    by (auto simp: lookup_answer_def lookup_type_def l4_const split: region_data.split sum.split)
  then show ?thesis using lk x by (cases "used_at s a") (auto simp: case_prod_unfold)
qed

text \<open>A region mapper for the witnesses: one page of address space, free or with a dataspace.\<close>

definition demo_env :: rm_env where
  "demo_env = \<lparr>env_me = 0x04000400, env_grow = None, env_grow_split = None, env_node = True, env_ipc = True\<rparr>"

definition demo_ds :: l4dm_dataspace_t where
  "demo_ds = \<lparr>ds_id = 5, ds_manager = 0x04020001\<rparr>"

definition demo_page :: "u32 \<Rightarrow> region_data \<Rightarrow> region_desc" where
  "demo_page f dt = \<lparr>rd_start = 0x1000, rd_end = 0x1FFF, rd_flags = f, rd_data = dt, rd_userptr = 0\<rparr>"

definition demo_lm :: "avlt \<Rightarrow> u32 \<Rightarrow> u32 \<Rightarrow> region_data \<Rightarrow> l4rm_state" where
  "demo_lm t h f dt = \<lparr>lm_rm = \<lparr>rm_vm_start = 0x1000, rm_vm_end = 0x1FFF, rm_head = [(0x10000, demo_page f dt)], rm_cache = demo_used\<rparr>,
     lm_tree = \<lparr>at_root = t, at_height = h\<rparr>, lm_lock = L4LOCK_UNLOCKED, lm_unmapped = [], lm_service_id = 0x04000000, lm_task_pager = 0x04020002,
     arg_key = \<lparr>k_start = 0, k_end = 0\<rparr>, arg_addr = 0, arg_type = 0, arg_data = 0\<rparr>"

abbreviation demo_free :: l4rm_state where "demo_free \<equiv> demo_lm Tip 0 0 Data_none"
abbreviation demo_attached :: l4rm_state where
  "demo_attached \<equiv> demo_lm (Nd Tip \<lparr>k_start = 0x1000, k_end = 0x1FFF\<rparr> 0x10000 0 Tip) 1 0x10000000 (Data_ds demo_ds 0x3000 1)"

lemma demo_lm_rm: "rm_inv (lm_rm (demo_lm t h f dt))" "vm_ok (lm_rm (demo_lm t h f dt))"
  by (simp_all add: rm_inv_def demo_lm_def demo_page_def slab_inv_used demo_in_use vm_ok_def)

lemma demo_free_inv: "lm_inv demo_free"
proof -
  have "used_regions (lm_rm demo_free) = {}" by (auto simp: used_regions_def demo_lm_def demo_page_def IS_FREE_REGION_def REGION_TYPE_def l4_const)
  then show ?thesis using demo_lm_rm [of Tip 0 0 Data_none] by (simp add: lm_inv_def) (simp add: demo_lm_def tree_inv_def entries_def ordered_def)
qed

lemma demo_attached_inv: "lm_inv demo_attached"
proof -
  have u: "used_regions (lm_rm demo_attached) = {(0x10000, demo_page 0x10000000 (Data_ds demo_ds 0x3000 1))}"
    by (auto simp: used_regions_def demo_lm_def demo_page_def IS_FREE_REGION_def REGION_TYPE_def l4_const)
  have "tree_inv (lm_tree demo_attached)" by (simp add: demo_lm_def tree_inv_def ordered_def key_ok_def)
  moreover have "entries (lm_tree demo_attached) = region_key ` used_regions (lm_rm demo_attached)"
    unfolding u by (simp add: demo_lm_def entries_def region_key_def demo_page_def)
  moreover have "data_ok (demo_page 0x10000000 (Data_ds demo_ds 0x3000 1))" by (simp add: data_ok_def demo_page_def REGION_TYPE_def l4_const)
  ultimately show ?thesis using demo_lm_rm u by (simp add: lm_inv_def)
qed

lemma demo_env_facts:
  "mem_ok demo_env (demo_lm t h f dt)" "env_ok demo_env (demo_lm t h f dt)" "ipc_ok demo_env (demo_lm t h f dt)"
  "lock_free_for (env_me demo_env) (lm_lock (demo_lm t h f dt))" "can_lock demo_env flags (demo_lm t h f dt)" "\<not> l4dm_is_invalid_ds demo_ds"
  by (auto simp: mem_ok_def demo_env_def grow_ok_def env_ok_def ipc_ok_def demo_lm_def l4_task_equal_def lock_free_for_def can_lock_def
    L4THREAD_INVALID_ID_def L4_INVALID_ID_def l4dm_is_invalid_ds_def demo_ds_def L4DM_INVALID_DATASPACE_def l4_const)

lemma demo_attach:
  "\<exists>s'. l4rm_do_attach demo_env demo_ds 0 L4RM_ADDR_FIND 0x1000 0x3000 1 demo_free = Inr (s', 0x1000, 0)"
  by (simp add: l4rm_do_attach_def l4dm_is_invalid_ds_def demo_ds_def L4DM_INVALID_DATASPACE_def L4_INVALID_ID_def l4_thread_equal_def Let_def
    alloc_desc_def l4rm_region_desc_alloc_def l4slab_alloc_def pick_slab_def take_object_def demo_used_def demo_cache_def demo_lm_def demo_env_def
    l4rm_lock_region_list_direct_def l4rm_lock_region_list_def l4lock_lock_def L4LOCK_UNLOCKED_def L4THREAD_INVALID_ID_def
    l4rm_new_region_def new_region_place_def new_region_align_def l4_round_page_def l4_trunc_page_def L4_PAGEMASK_def l4_const
    find_free_region_def free_region_from.simps demo_page_def IS_FREE_REGION_def REGION_TYPE_def REGION_AREA_def
    new_region_desc_def SET_AREA_def SET_REGION_TYPE_def region_fresh_def insert_region_def from_region_def before_region_def
    l4rm_region_desc_free_def l4slab_free_def put_object_def slab_from_pointer_def sizeof_slab_def
    l4rm_tree_insert_region_def l4_rm_add_component_def l4_task_equal_def add_region_def avlt_insert_def)


theorem l4rm_detach_spec_witness:
  "\<exists>s'. l4rm_detach demo_env 0x1800 demo_attached = Inr (s', 0) \<and> lm_inv s' \<and> used_regions (lm_rm s') = {} \<and> flags_at (rm_head (lm_rm s')) 0x1234 = Some 0"
proof -
  let ?r = "demo_page 0x10000000 (Data_ds demo_ds 0x3000 1)"
  have u: "used_at demo_attached 0x1800 = Some (0x10000, ?r)"
    by (simp add: used_at_def demo_lm_def demo_page_def in_region_def IS_FREE_REGION_def REGION_TYPE_def l4_const)
  have us: "used_regions (lm_rm demo_attached) = {(0x10000, ?r)}"
    by (auto simp: used_regions_def demo_lm_def demo_page_def IS_FREE_REGION_def REGION_TYPE_def l4_const)
  have ty: "REGION_TYPE ?r = REGION_DATASPACE" by (simp add: demo_page_def REGION_TYPE_def l4_const)
  from l4rm_detach_spec [OF demo_attached_inv demo_env_facts(3,4), of "0x1800"] u ty
  obtain s' where s': "l4rm_detach demo_env 0x1800 demo_attached = Inr (s', 0)" "lm_inv s'" "region_removed demo_attached s' 0x10000 ?r" by auto
  then show ?thesis using us by (simp add: region_removed_def) (simp add: in_region_def demo_page_def l4_const)
qed

theorem l4rm_lookup_agrees_witness:
  "l4rm_lookup demo_env 0x1800 demo_attached = l4rm_lookup_region demo_env 0x1800 demo_attached \<and> used_at demo_attached 0x1800 \<noteq> None"
proof -
  have u: "used_at demo_attached 0x1800 \<noteq> None"
    by (simp add: used_at_def demo_lm_def demo_page_def in_region_def IS_FREE_REGION_def REGION_TYPE_def l4_const)
  have "rm_vm_start (lm_rm demo_attached) \<le> 0x1800" "0x1800 \<le> rm_vm_end (lm_rm demo_attached)" by (simp_all add: demo_lm_def)
  from l4rm_lookup_agrees [OF demo_attached_inv demo_env_facts(4) this] u show ?thesis by simp
qed



end
