(* ===== verification/RmArea.thy ===== *)
theory RmArea
  imports RmMapper
begin

text \<open>
  Areas of the address space: what \<open>l4rm_do_reserve\<close>, \<open>l4rm_area_release\<close>, \<open>l4rm_area_release_addr\<close>,
  \<open>l4rm_do_area_setup\<close> and \<open>l4rm_area_clear_region\<close> do to a well-formed region mapper, and the user pointers of regions.
  The id of an area is the page number of its first page; \<open>area_inv\<close> says that this page is still in the area, so that a
  new area gets an id that no region has.
\<close>

section \<open>Clearing a region\<close>

lemma clear_ok:
  assumes inv: "lm_inv s" and e: "ipc_ok e s" and l: "lock_free_for (env_me e) (lm_lock s)"
  shows "\<exists>s' ret. l4rm_area_clear_region e addr s = Inr (s', ret) \<and> lm_inv s' \<and> lm_lock s' = lm_lock s \<and>
    (case used_at s addr of
       Some (p, r) \<Rightarrow> if REGION_TYPE r = REGION_DATASPACE then ret = - L4_EINVAL \<and> lm_rm s' = lm_rm s \<and> lm_tree s' = lm_tree s
         else ret = 0 \<and> region_removed s s' p r
     | None \<Rightarrow> ret = - L4_ENOTFOUND \<and> lm_rm s' = lm_rm s \<and> lm_tree s' = lm_tree s)"
proof -
  obtain k where k: "l4rm_lock_region_list (env_me e) s = Inr (s\<lparr>lm_lock := k\<rparr>)"
    "\<forall>s'. lm_lock s' = k \<longrightarrow> l4rm_unlock_region_list (env_me e) s' = s'\<lparr>lm_lock := lm_lock s\<rparr>" using lock_ok [OF l] by blast
  let ?s1 = "s\<lparr>lm_lock := k\<rparr>"
  have i1: "lm_inv ?s1" "ipc_ok e ?s1" "used_at ?s1 addr = used_at s addr" using inv e by (simp_all add: ipc_ok_def used_at_def)
  have un: "l4rm_unlock_region_list (env_me e) ?s1 = s" using k(2) by simp
  have fu: "l4rm_find_used_region addr ?s1 = map_option fst (used_at s addr)" using find_used [OF i1(1)] i1(3) by simp
  show ?thesis
  proof (cases "used_at s addr")
    case None
    then show ?thesis using k(1) un fu inv by (simp add: l4rm_area_clear_region_def)
  next
    case (Some x)
    obtain p r where x: "x = (p, r)" by force
    have u: "used_at s addr = Some (p, r)" using Some x by simp
    have ra: "region_at p ?s1 = Some r"
      using used_in [OF u inv] region_at_iff [of s p r] inv by (simp add: lm_inv_def region_at_def)
    show ?thesis
    proof (cases "REGION_TYPE r = REGION_DATASPACE")
      case True
      then show ?thesis using k(1) un fu u ra inv by (simp add: l4rm_area_clear_region_def)
    next
      case False
      obtain s2 where s2: "l4rm_tree_remove_region e addr (REGION_TYPE r) 0 ?s1 = Inr (s2, 0, Some p)" "lm_rm s2 = lm_rm s" "tree_inv (lm_tree s2)"
        "entries (lm_tree s2) = region_key ` (used_regions (lm_rm s) - {(p, r)})" "lm_frame ?s1 s2"
        using tree_remove_ok [OF i1(1,2), of addr p r] u i1(3) by auto
      have "(p, r) \<in> used_regions (lm_rm ?s1)" using u used_at_iff [of s addr] inv by (auto simp: lm_inv_def)
      from drop_region_ok [OF i1(1) this, of s2] s2 obtain fps m where d: "region_at p s2 = Some r" "l4rm_unmap_region r = Some fps"
        "l4rm_free_region p (lm_rm s2) = Inr m" "lm_inv (s2\<lparr>lm_rm := m, lm_unmapped := lm_unmapped s2 @ fps\<rparr>)"
        "region_removed ?s1 (s2\<lparr>lm_rm := m, lm_unmapped := lm_unmapped s2 @ fps\<rparr>) p r" by auto
      let ?s3 = "s2\<lparr>lm_rm := m, lm_unmapped := lm_unmapped s2 @ fps\<rparr>"
      have "l4rm_unlock_region_list (env_me e) ?s3 = ?s3\<lparr>lm_lock := lm_lock s\<rparr>" using k(2) s2(5) by (simp add: lm_frame_def)
      then have "l4rm_area_clear_region e addr s = Inr (?s3\<lparr>lm_lock := lm_lock s\<rparr>, 0)"
        using k(1) fu u ra False s2(1) d by (simp add: l4rm_area_clear_region_def)
      moreover have "region_removed s (?s3\<lparr>lm_lock := lm_lock s\<rparr>) p r" using d(5) by (simp add: region_removed_def)
      ultimately show ?thesis using d(4) u False by simp
    qed
  qed
qed

section \<open>Setting up a region\<close>

definition setup_type :: "int \<Rightarrow> u32" where
  "setup_type type = (if type = L4RM_REGION_PAGER then REGION_PAGER else if type = L4RM_REGION_EXCEPTION then REGION_EXCEPTION else REGION_BLOCKED)"

definition setup_pager :: "l4_threadid_t \<Rightarrow> l4rm_state \<Rightarrow> l4_threadid_t" where
  "setup_pager pager s = (if l4_is_invalid_id pager then lm_task_pager s else pager)"

lemma setup_ok:
  assumes inv: "lm_inv s" and m: "mem_ok e s" and e: "env_ok e s" and l: "can_lock e flags s"
    and ty: "type \<in> {L4RM_REGION_PAGER, L4RM_REGION_EXCEPTION, L4RM_REGION_BLOCKED}" and sz: "0 < unat sz" "unat sz \<le> 0x1FFFF000"
  shows "\<exists>s' a' ret. l4rm_do_area_setup e addr sz area type flags pager s = Inr (s', a', ret) \<and> lm_inv s' \<and> lm_frame s s' \<and>
    (ret = 0 \<and> (\<exists>p r. region_added s s' area p r \<and> REGION_TYPE r = setup_type type \<and>
        (type = L4RM_REGION_PAGER \<longrightarrow> rd_data r = Data_pager (setup_pager pager s)) \<and> a' = rd_start r \<and> unat a' + unat sz \<le> unat (rd_end r) + 1) \<or>
     ret \<in> {- L4_ENOMAP, - L4_EINVAL, - L4_EUSED, - L4_ENOMEM} \<and> a' = addr \<and> rm_head (lm_rm s') = rm_head (lm_rm s) \<and> lm_tree s' = lm_tree s)"
proof -
  define r where "r = (if type = L4RM_REGION_PAGER
      then SET_REGION_TYPE REGION_PAGER (region_fresh\<lparr>rd_data := Data_pager (setup_pager pager s)\<rparr>)
      else if type = L4RM_REGION_EXCEPTION then SET_REGION_TYPE REGION_EXCEPTION region_fresh else SET_REGION_TYPE REGION_BLOCKED region_fresh)"
  have rt: "REGION_TYPE r = setup_type type" by (simp add: r_def setup_type_def region_types)
  then have nf: "REGION_TYPE r \<noteq> REGION_FREE" by (simp add: setup_type_def region_types)
  have da: "data_ok r" unfolding data_ok_def rt by (auto simp: setup_type_def region_types r_def set_type_data)
  obtain s1 p where a: "alloc_desc e s = Inr (s1, p)" "lm_inv s1" "lm_frame s s1" "lm_tree s1 = lm_tree s" "rm_head (lm_rm s1) = rm_head (lm_rm s)"
    and n: "p \<noteq> 0 \<longrightarrow> (\<exists>k s3 r1 ret. l4rm_lock_region_list_direct (env_me e) flags s1 = Inr (s1\<lparr>lm_lock := k\<rparr>) \<and>
       l4rm_new_region e p r addr sz area (flags OR L4RM_TREE_INSERT) (s1\<lparr>lm_lock := k\<rparr>) = Inr (s3, r1, ret) \<and> lm_lock s3 = k \<and>
       lm_unmapped s3 = lm_unmapped s \<and> lm_service_id s3 = lm_service_id s \<and> lm_task_pager s3 = lm_task_pager s \<and>
       (\<forall>s'. lm_lock s' = k \<longrightarrow> l4rm_unlock_region_list_direct (env_me e) flags s' = s'\<lparr>lm_lock := lm_lock s\<rparr>) \<and>
       (ret = 0 \<and> attached sz area p r1 s s3 \<and> rd_data r1 = rd_data r \<and> REGION_TYPE r1 = REGION_TYPE r \<or>
        ret \<in> {- L4_ENOMAP, - L4_EINVAL, - L4_EUSED, - L4_ENOMEM} \<and> refused p s s3))"
    using add_region_ok [OF inv m e l sz nf da tree_insert_flag, of addr area flags] by blast
  have tp: "lm_task_pager s1 = lm_task_pager s" using a(3) by (simp add: lm_frame_def)
  have ty': "\<not> (type \<noteq> L4RM_REGION_PAGER \<and> type \<noteq> L4RM_REGION_EXCEPTION \<and> type \<noteq> L4RM_REGION_BLOCKED)" using ty by auto
  show ?thesis
  proof (cases "p = 0")
    case True
    then show ?thesis using a unfolding l4rm_do_area_setup_def if_not_P [OF ty'] by simp
  next
    case False
    then obtain k s3 r1 ret where h: "l4rm_lock_region_list_direct (env_me e) flags s1 = Inr (s1\<lparr>lm_lock := k\<rparr>)"
       "l4rm_new_region e p r addr sz area (flags OR L4RM_TREE_INSERT) (s1\<lparr>lm_lock := k\<rparr>) = Inr (s3, r1, ret)" "lm_lock s3 = k"
       "lm_unmapped s3 = lm_unmapped s" "lm_service_id s3 = lm_service_id s" "lm_task_pager s3 = lm_task_pager s"
       "\<forall>s'. lm_lock s' = k \<longrightarrow> l4rm_unlock_region_list_direct (env_me e) flags s' = s'\<lparr>lm_lock := lm_lock s\<rparr>"
       "ret = 0 \<and> attached sz area p r1 s s3 \<and> rd_data r1 = rd_data r \<and> REGION_TYPE r1 = REGION_TYPE r \<or>
        ret \<in> {- L4_ENOMAP, - L4_EINVAL, - L4_EUSED, - L4_ENOMEM} \<and> refused p s s3" using n by blast
    have un: "l4rm_unlock_region_list_direct (env_me e) flags s3 = s3\<lparr>lm_lock := lm_lock s\<rparr>" using h(3,7) by simp
    have reg: "(if type = L4RM_REGION_PAGER
        then SET_REGION_TYPE REGION_PAGER (region_fresh\<lparr>rd_data := Data_pager (if l4_is_invalid_id pager then lm_task_pager s1 else pager)\<rparr>)
        else if type = L4RM_REGION_EXCEPTION then SET_REGION_TYPE REGION_EXCEPTION region_fresh else SET_REGION_TYPE REGION_BLOCKED region_fresh) = r"
      by (simp add: r_def setup_pager_def tp)
    have body: "l4rm_do_area_setup e addr sz area type flags pager s =
        (if ret < 0 then bind_res (free_desc p (s3\<lparr>lm_lock := lm_lock s\<rparr>)) (\<lambda>s5. Inr (s5, addr, ret))
         else Inr (s3\<lparr>lm_lock := lm_lock s\<rparr>, rd_start r1, 0))"
      unfolding l4rm_do_area_setup_def if_not_P [OF ty'] Let_def a(1) bind_res_simps prod.case if_not_P [OF False] reg using h(1,2) un by simp
    from h(8) show ?thesis
    proof (elim disjE conjE)
      assume g: "ret = 0" "attached sz area p r1 s s3" "rd_data r1 = rd_data r" "REGION_TYPE r1 = REGION_TYPE r"
      have "type = L4RM_REGION_PAGER \<longrightarrow> rd_data r1 = Data_pager (setup_pager pager s)" using g(3) by (simp add: r_def set_type_data)
      then show ?thesis using body g(1,4) attachedD [OF g(2)] h(4-6) rt by (auto simp: lm_frame_def)
    next
      assume g: "ret \<in> {- L4_ENOMAP, - L4_EINVAL, - L4_EUSED, - L4_ENOMEM}" "refused p s s3"
      have neg: "ret < 0" using g(1) by (auto simp: l4_const)
      obtain s4 where s4: "free_desc p (s3\<lparr>lm_lock := lm_lock s\<rparr>) = Inr s4" "lm_inv s4" "lm_frame (s3\<lparr>lm_lock := lm_lock s\<rparr>) s4" "lm_tree s4 = lm_tree s3"
        "rm_head (lm_rm s4) = rm_head (lm_rm s3)"
        using free_desc_ok [of "s3\<lparr>lm_lock := lm_lock s\<rparr>" p] g(2) by (auto simp: refused_def)
      then show ?thesis using body neg g h(4-6) by (auto simp: lm_frame_def refused_def)
    qed
  qed
qed

section \<open>Reserving an area\<close>

definition area_inv :: "l4rm_state \<Rightarrow> bool" where
  "area_inv s \<longleftrightarrow> (\<forall>x f. flags_at (rm_head (lm_rm s)) x = Some f \<longrightarrow> f AND AREA_MASK \<noteq> 0 \<longrightarrow>
     (\<exists>g. flags_at (rm_head (lm_rm s)) (push_bit 12 (f AND AREA_MASK)) = Some g \<and> g AND AREA_MASK = f AND AREA_MASK))"

lemma page_no_mask: "drop_bit 12 a AND AREA_MASK = drop_bit 12 a" for a :: u32
proof -
  have "AREA_MASK = mask 20" by (simp add: l4_const mask_eq_exp_minus_1)
  moreover have "drop_bit 12 a AND mask 20 = drop_bit 12 a" by (rule bit_word_eqI) (auto simp: bit_simps dest: bit_imp_le_length)
  ultimately show ?thesis by simp
qed

lemma page_no_back: "4096 dvd unat a \<Longrightarrow> push_bit 12 (drop_bit 12 a) = a" for a :: u32
proof -
  assume "4096 dvd unat a"
  then have "unat (take_bit 12 a) = 0" by (simp add: unat_take_bit_mod)
  then have "take_bit 12 a = 0" by (simp only: unat_eq_0)
  then show ?thesis using bits_ident [of 12 a] by simp
qed

lemma page_no_nonzero: "0x1000 \<le> a \<Longrightarrow> 4096 dvd unat a \<Longrightarrow> drop_bit 12 a \<noteq> 0" for a :: u32
  using page_no_back [of a] by (auto simp: word_le_unat)

text \<open>The reserved region \<open>r\<close> as the client sees it.\<close>

definition reserved :: "u32 \<Rightarrow> region_desc \<Rightarrow> l4rm_state \<Rightarrow> l4rm_state \<Rightarrow> bool" where
  "reserved sz r s s' \<longleftrightarrow> lm_inv s' \<and> used_regions (lm_rm s') = used_regions (lm_rm s) \<and> lm_tree s' = lm_tree s \<and> 4096 dvd unat (rd_start r) \<and>
     0x1000 \<le> rd_start r \<and> rd_start r \<le> rd_end r \<and> unat (rd_start r) + unat sz \<le> unat (rd_end r) + 1 \<and> rd_flags r = drop_bit 12 (rd_start r) \<and>
     (\<forall>x. in_region r x \<longrightarrow> (\<exists>f. flags_at (rm_head (lm_rm s)) x = Some f \<and> f AND TYPE_MASK = REGION_FREE \<and> f AND AREA_MASK = 0)) \<and>
     (\<forall>x. flags_at (rm_head (lm_rm s')) x = (if in_region r x then Some (rd_flags r) else flags_at (rm_head (lm_rm s)) x))"

lemma set_area_flag: "(flags OR L4RM_SET_AREA) AND L4RM_SET_AREA \<noteq> 0" "(flags OR L4RM_SET_AREA) AND L4RM_TREE_INSERT = flags AND L4RM_TREE_INSERT"
  unfolding or_and_absorb bit.conj_disj_distrib2 by (simp_all add: l4_const)

lemma reserve_region_ok:
  assumes inv: "lm_inv s" and p: "loose_desc (lm_rm s) p" and g: "grow_ok (env_grow_split e) (lm_rm s)"
    and sz: "0 < unat sz" "unat sz \<le> 0x1FFFF000" and f: "flags AND L4RM_TREE_INSERT = 0"
  shows "\<exists>s' r' ret. l4rm_new_region e p (SET_REGION_TYPE REGION_FREE region_fresh) addr sz L4RM_DEFAULT_REGION_AREA (flags OR L4RM_SET_AREA) s = Inr (s', r', ret) \<and>
    lm_frame s s' \<and> (ret = 0 \<and> reserved sz r' s s' \<or> ret \<in> {- L4_ENOMAP, - L4_EINVAL, - L4_EUSED, - L4_ENOMEM} \<and> refused p s s')"
proof -
  let ?r = "SET_REGION_TYPE REGION_FREE region_fresh" and ?fl = "flags OR L4RM_SET_AREA" and ?d = L4RM_DEFAULT_REGION_AREA
  have ri: "rm_inv (lm_rm s)" and v: "vm_ok (lm_rm s)" using inv by (auto simp: lm_inv_def)
  obtain pl where pl: "new_region_place addr sz ?d ?fl s = Inr pl"
    "case pl of Inl ret \<Rightarrow> ret \<in> {- L4_ENOMAP, - L4_EINVAL, - L4_EUSED} | Inr x \<Rightarrow> place_ok (lm_rm s) sz ?d x"
    using new_region_place_ok [OF ri v sz] by blast
  show ?thesis
  proof (cases pl)
    case (Inl ret)
    then have "l4rm_new_region e p ?r addr sz ?d ?fl s = Inr (s, ?r, ret)" using pl by (simp add: l4rm_new_region_def)
    then show ?thesis using pl Inl inv p by (auto simp: refused_def lm_frame_def)
  next
    case (Inr x)
    obtain rp a sz1 where x: "x = (rp, a, sz1)" by (cases x) auto
    have po: "place_ok (lm_rm s) sz ?d (rp, a, sz1)" using pl Inr x by simp
    obtain d where d: "(rp, d) \<in> set (rm_head (lm_rm s))" "IS_FREE_REGION d" "REGION_AREA d = ?d" "rd_start d \<le> a" "a \<le> a + sz1 - 1" "a + sz1 - 1 \<le> rd_end d"
      "unat (a + sz1 - 1) = unat a + unat sz1 - 1" using desc_bounds [OF po ri] by metis
    have al: "4096 dvd unat a" "unat sz \<le> unat sz1" "0 < unat sz1" using po by (auto simp: place_ok_def)
    have lo: "0x1000 \<le> a"
    proof -
      have "rm_vm_start (lm_rm s) \<le> rd_start d" using tiles_mem_bounds [OF _ d(1)] ri unfolding rm_inv_def by blast
      then show ?thesis using v d(4) unfolding vm_ok_def by (meson order_trans)
    qed
    define r1 where "r1 = new_region_desc a sz1 ?d ?fl ?r"
    note r1 = new_desc_fields [of a sz1 ?d ?fl ?r, folded r1_def]
    have fr: "rd_flags r1 = drop_bit 12 a"
      unfolding r1_def new_region_desc_def using set_area_flag(1) page_no_mask [of a]
      by (simp add: SET_AREA_def SET_REGION_TYPE_def region_fresh_def L4_PAGESHIFT_def REGION_FREE_def)
    have ar: "REGION_AREA r1 \<noteq> 0" using fr page_no_mask [of a] page_no_nonzero [OF lo al(1)] by (simp add: REGION_AREA_def)
    have fl: "rd_flags r1 \<noteq> rd_flags d" using ar d(3) by (auto simp: REGION_AREA_def L4RM_DEFAULT_REGION_AREA_def)
    have free: "IS_FREE_REGION r1" using r1(4) by (simp add: IS_FREE_REGION_def REGION_TYPE_def SET_REGION_TYPE_def region_fresh_def l4_const)
    obtain m ret where m: "insert_region (env_grow_split e) p r1 rp (lm_rm s) = Inr (m, ret)"
      "ret = 0 \<and> inserted p r1 (lm_rm s) m \<or> ret = - L4_ENOMEM \<and> (\<exists>c. m = (lm_rm s)\<lparr>rm_cache := c\<rparr> \<and> slab_inv c \<and> in_use c = in_use (rm_cache (lm_rm s)))"
      using insert_region_ok [OF ri d(1) p g d(2), of r1] r1 d fl by auto
    let ?s1 = "s\<lparr>lm_rm := m\<rparr>"
    have body: "l4rm_new_region e p ?r addr sz ?d ?fl s = (if ret < 0 then Inr (?s1, r1, ret) else Inr (?s1, r1, 0))"
      using pl(1) Inr x m(1) f set_area_flag(2) [of flags] unfolding r1_def by (simp add: l4rm_new_region_def Let_def)
    from m(2) show ?thesis
    proof (elim disjE conjE exE)
      fix c assume h: "ret = - L4_ENOMEM" "m = (lm_rm s)\<lparr>rm_cache := c\<rparr>" "slab_inv c" "in_use c = in_use (rm_cache (lm_rm s))"
      have "rm_inv m" using ri h by (auto simp: rm_inv_def)
      then have "refused p s ?s1" using inv p h by (auto simp: refused_def lm_inv_def used_regions_def vm_ok_def loose_desc_def)
      then show ?thesis using body h(1) by (auto simp: L4_ENOMEM_def lm_frame_def)
    next
      assume h: "ret = 0" "inserted p r1 (lm_rm s) m"
      have iu: "used_regions m = used_regions (lm_rm s)" "rm_inv m" "vm_ok m" using h(2) free v by (auto simp: inserted_def vm_ok_def)
      have li: "lm_inv ?s1" using inv iu by (simp add: lm_inv_def)
      have fa: "\<forall>x. flags_at (rm_head m) x = (if in_region r1 x then Some (rd_flags r1) else flags_at (rm_head (lm_rm s)) x)"
        using h(2) by (simp add: inserted_def)
      have old: "\<exists>f. flags_at (rm_head (lm_rm s)) x = Some f \<and> f AND TYPE_MASK = REGION_FREE \<and> f AND AREA_MASK = 0" if "in_region r1 x" for x
      proof -
        have "in_region d x" using that r1 d by (auto simp: in_region_def)
        then show ?thesis using flags_at_region [OF ri d(1)] d(2,3)
          by (auto simp: IS_FREE_REGION_def REGION_TYPE_def REGION_AREA_def L4RM_DEFAULT_REGION_AREA_def)
      qed
      have "unat a + unat sz \<le> unat (a + sz1 - 1) + 1" using d(7) al by linarith
      then have "reserved sz r1 s ?s1" unfolding reserved_def using li iu(1) fa old fr al lo d(5) r1(1,2) by simp
      then show ?thesis using body h(1) by (auto simp: lm_frame_def)
    qed
  qed
qed

lemma reserved_area:
  assumes "reserved sz r s s'"
  shows "REGION_AREA r = drop_bit 12 (rd_start r)" "REGION_AREA r \<noteq> 0" "rd_flags r AND TYPE_MASK = REGION_FREE"
proof -
  have f: "rd_flags r = drop_bit 12 (rd_start r)" "4096 dvd unat (rd_start r)" "0x1000 \<le> rd_start r" using assms by (auto simp: reserved_def)
  show a: "REGION_AREA r = drop_bit 12 (rd_start r)" using f(1) page_no_mask by (simp add: REGION_AREA_def)
  show "REGION_AREA r \<noteq> 0" unfolding a by (rule page_no_nonzero [OF f(3,2)])
  have "AREA_MASK AND TYPE_MASK = 0" by (simp add: l4_const)
  then have "(drop_bit 12 (rd_start r) AND AREA_MASK) AND TYPE_MASK = 0" by (simp add: and.assoc)
  then show "rd_flags r AND TYPE_MASK = REGION_FREE" unfolding f(1) page_no_mask REGION_FREE_def .
qed

text \<open>The id of a new area is not the id of another one.\<close>

lemma reserved_fresh:
  assumes i: "area_inv s" and r: "reserved sz r s s'" and f: "flags_at (rm_head (lm_rm s)) x = Some f"
  shows "f AND AREA_MASK \<noteq> REGION_AREA r"
proof
  assume c: "f AND AREA_MASK = REGION_AREA r"
  note ra = reserved_area [OF r]
  have al: "push_bit 12 (drop_bit 12 (rd_start r)) = rd_start r" by (rule page_no_back) (use r in \<open>simp add: reserved_def\<close>)
  obtain g where g: "flags_at (rm_head (lm_rm s)) (rd_start r) = Some g" "g AND AREA_MASK = REGION_AREA r"
    using i f ra(2) c unfolding area_inv_def ra(1) [symmetric] by (metis al ra(1))
  have "in_region r (rd_start r)" using r by (auto simp: in_region_def reserved_def)
  then have "g AND AREA_MASK = 0" using r g(1) unfolding reserved_def by fastforce
  then show False using g(2) ra(2) by simp
qed

lemma reserved_area_inv: "area_inv s \<Longrightarrow> reserved sz r s s' \<Longrightarrow> area_inv s'"
proof -
  assume i: "area_inv s" and r: "reserved sz r s s'"
  note ra = reserved_area [OF r]
  have fa: "flags_at (rm_head (lm_rm s')) x = (if in_region r x then Some (rd_flags r) else flags_at (rm_head (lm_rm s)) x)" for x
    using r by (simp add: reserved_def)
  have al: "push_bit 12 (REGION_AREA r) = rd_start r" unfolding ra(1) by (rule page_no_back) (use r in \<open>simp add: reserved_def\<close>)
  have st: "in_region r (rd_start r)" using r by (auto simp: in_region_def reserved_def)
  have old: "f AND AREA_MASK = 0" if "in_region r y" "flags_at (rm_head (lm_rm s)) y = Some f" for y f
    using r that unfolding reserved_def by fastforce
  show "area_inv s'" unfolding area_inv_def
  proof (intro allI impI)
    fix x f assume f: "flags_at (rm_head (lm_rm s')) x = Some f" "f AND AREA_MASK \<noteq> 0"
    show "\<exists>g. flags_at (rm_head (lm_rm s')) (push_bit 12 (f AND AREA_MASK)) = Some g \<and> g AND AREA_MASK = f AND AREA_MASK"
    proof (cases "in_region r x")
      case True
      then have "f = rd_flags r" using f(1) fa by simp
      then show ?thesis using al st fa by (simp add: REGION_AREA_def)
    next
      case False
      then obtain g where g: "flags_at (rm_head (lm_rm s)) (push_bit 12 (f AND AREA_MASK)) = Some g" "g AND AREA_MASK = f AND AREA_MASK"
        using i f fa [of x] unfolding area_inv_def by auto
      then have "\<not> in_region r (push_bit 12 (f AND AREA_MASK))" using old f(2) by auto
      then show ?thesis using g fa by simp
    qed
  qed
qed

lemma reserve_ok:
  assumes inv: "lm_inv s" and m: "mem_ok e s" and l: "can_lock e flags s"
    and sz: "0 < unat sz" "unat sz \<le> 0x1FFFF000" and f: "flags AND L4RM_TREE_INSERT = 0"
  shows "\<exists>s' a' ar ret. l4rm_do_reserve e addr sz flags area s = Inr (s', a', ar, ret) \<and> lm_inv s' \<and> lm_frame s s' \<and>
    (ret = 0 \<and> (\<exists>r. reserved sz r s s' \<and> a' = rd_start r \<and> ar = REGION_AREA r) \<or>
     ret \<in> {- L4_ENOMAP, - L4_EINVAL, - L4_EUSED, - L4_ENOMEM} \<and> a' = addr \<and> ar = area \<and> rm_head (lm_rm s') = rm_head (lm_rm s) \<and> lm_tree s' = lm_tree s)"
proof -
  obtain s1 p where a: "alloc_desc e s = Inr (s1, p)" "lm_inv s1" "lm_frame s s1" "lm_tree s1 = lm_tree s" "rm_head (lm_rm s1) = rm_head (lm_rm s)"
    "p \<noteq> 0 \<longrightarrow> loose_desc (lm_rm s1) p"
    using alloc_desc_ok [OF inv, of e] m by (auto simp: mem_ok_def)
  show ?thesis
  proof (cases "p = 0")
    case True
    then show ?thesis using a by (simp add: l4rm_do_reserve_def)
  next
    case False
    have fr: "lm_lock s1 = lm_lock s" using a(3) by (simp add: lm_frame_def)
    have "can_lock e flags s1" using l fr by (simp add: can_lock_def)
    then obtain k where k: "l4rm_lock_region_list_direct (env_me e) flags s1 = Inr (s1\<lparr>lm_lock := k\<rparr>)"
      "\<forall>s'. lm_lock s' = k \<longrightarrow> l4rm_unlock_region_list_direct (env_me e) flags s' = s'\<lparr>lm_lock := lm_lock s\<rparr>"
      using lock_direct_ok [of e flags s1] fr by auto
    let ?s2 = "s1\<lparr>lm_lock := k\<rparr>"
    have g: "grow_ok (env_grow_split e) (lm_rm ?s2)" using m a(1) by (simp add: mem_ok_def)
    have i2: "lm_inv ?s2" "loose_desc (lm_rm ?s2) p" using a(2,6) False by simp_all
    obtain s3 r1 ret where n: "l4rm_new_region e p (SET_REGION_TYPE REGION_FREE region_fresh) addr sz L4RM_DEFAULT_REGION_AREA (flags OR L4RM_SET_AREA) ?s2 = Inr (s3, r1, ret)"
      "lm_frame ?s2 s3" "ret = 0 \<and> reserved sz r1 ?s2 s3 \<or> ret \<in> {- L4_ENOMAP, - L4_EINVAL, - L4_EUSED, - L4_ENOMEM} \<and> refused p ?s2 s3"
      using reserve_region_ok [OF i2 g sz f, of addr] by blast
    have un: "l4rm_unlock_region_list_direct (env_me e) flags s3 = s3\<lparr>lm_lock := lm_lock s\<rparr>" using k(2) n(2) by (simp add: lm_frame_def)
    have body: "l4rm_do_reserve e addr sz flags area s =
        (if ret < 0 then bind_res (free_desc p (s3\<lparr>lm_lock := lm_lock s\<rparr>)) (\<lambda>s5. Inr (s5, addr, area, ret))
         else Inr (s3\<lparr>lm_lock := lm_lock s\<rparr>, rd_start r1, REGION_AREA r1, 0))"
      unfolding l4rm_do_reserve_def Let_def using a(1) False k(1) n(1) un by simp
    have fm: "lm_frame s (s3\<lparr>lm_lock := lm_lock s\<rparr>)" using a(3) n(2) by (simp add: lm_frame_def)
    from n(3) show ?thesis
    proof (elim disjE conjE)
      assume h: "ret = 0" "reserved sz r1 ?s2 s3"
      have rs: "reserved sz r1 s (s3\<lparr>lm_lock := lm_lock s\<rparr>)" using h(2) a(4,5) by (simp add: reserved_def used_regions_def)
      then have "lm_inv (s3\<lparr>lm_lock := lm_lock s\<rparr>)" by (simp add: reserved_def)
      then show ?thesis using body h(1) fm rs by auto
    next
      assume h: "ret \<in> {- L4_ENOMAP, - L4_EINVAL, - L4_EUSED, - L4_ENOMEM}" "refused p ?s2 s3"
      have neg: "ret < 0" using h(1) by (auto simp: l4_const)
      obtain s4 where s4: "free_desc p (s3\<lparr>lm_lock := lm_lock s\<rparr>) = Inr s4" "lm_inv s4" "lm_frame (s3\<lparr>lm_lock := lm_lock s\<rparr>) s4" "lm_tree s4 = lm_tree s3"
        "rm_head (lm_rm s4) = rm_head (lm_rm s3)"
        using free_desc_ok [of "s3\<lparr>lm_lock := lm_lock s\<rparr>" p] h(2) by (auto simp: refused_def)
      then show ?thesis using body neg h fm a(4,5) by (auto simp: lm_frame_def refused_def)
    qed
  qed
qed

section \<open>Releasing an area\<close>

lemma reset_key: "region_key (apsnd (reset_desc area) x) = region_key x"
  by (simp add: region_key_def reset_desc_def)

lemma reset_type: "REGION_TYPE (reset_desc area r) = REGION_TYPE r"
proof -
  have "NOT AREA_MASK AND TYPE_MASK = TYPE_MASK" by (simp add: l4_const)
  then show ?thesis by (simp add: REGION_TYPE_def reset_desc_def reset_flags_def and.assoc)
qed

lemma reset_lm_inv:
  assumes "lm_inv s" "reset_done area (lm_rm s) m" shows "lm_inv (s\<lparr>lm_rm := m\<rparr>)"
proof -
  have "region_key ` apsnd (reset_desc area) ` used_regions (lm_rm s) = region_key ` used_regions (lm_rm s)"
    unfolding image_image reset_key ..
  moreover have "data_ok (reset_desc area r) = data_ok r" for r unfolding data_ok_def reset_type by (simp add: reset_desc_def)
  ultimately show ?thesis using assms by (auto simp: lm_inv_def reset_done_def vm_ok_def)
qed

lemma release_ok:
  assumes inv: "lm_inv s" and l: "lock_free_for (env_me e) (lm_lock s)" and a: "area \<noteq> 0"
  shows "\<exists>s'. l4rm_area_release e area s = Inr (s', 0) \<and> lm_inv s' \<and> lm_frame s s' \<and> lm_tree s' = lm_tree s \<and> reset_done area (lm_rm s) (lm_rm s')"
proof -
  obtain k where k: "l4rm_lock_region_list (env_me e) s = Inr (s\<lparr>lm_lock := k\<rparr>)"
    "\<forall>s'. lm_lock s' = k \<longrightarrow> l4rm_unlock_region_list (env_me e) s' = s'\<lparr>lm_lock := lm_lock s\<rparr>" using lock_ok [OF l] by blast
  have "rm_inv (lm_rm s)" using inv by (simp add: lm_inv_def)
  then obtain m where m: "l4rm_reset_area area (lm_rm s) = Some (Inr m)" "reset_done area (lm_rm s) m"
    using reset_area_ok [OF _ a] by (auto simp: l4rm_reset_area_def)
  have "l4rm_area_release e area s = Inr (s\<lparr>lm_rm := m\<rparr>, 0)" using k m(1) by (simp add: l4rm_area_release_def)
  then show ?thesis using reset_lm_inv [OF inv m(2)] m(2) by (auto simp: lm_frame_def)
qed

lemma release_addr_ok:
  assumes inv: "lm_inv s" and l: "lock_free_for (env_me e) (lm_lock s)" and f: "flags_at (rm_head (lm_rm s)) ptr = Some f" "f AND AREA_MASK \<noteq> 0"
  shows "l4rm_area_release_addr e ptr s = l4rm_area_release e (f AND AREA_MASK) s"
proof -
  obtain k where k: "l4rm_lock_region_list (env_me e) s = Inr (s\<lparr>lm_lock := k\<rparr>)" using lock_ok [OF l] by blast
  have ri: "rm_inv (lm_rm s)" using inv by (simp add: lm_inv_def)
  obtain y where y: "y \<in> set (rm_head (lm_rm s))" "in_region (snd y) ptr" "rd_flags (snd y) = f" using flags_at_mem [OF f(1)] by blast
  have t: "tiles (rm_vm_start (lm_rm s)) (rm_vm_end (lm_rm s)) (rm_head (lm_rm s))" using ri by (simp add: rm_inv_def)
  have "rm_vm_start (lm_rm s) \<le> rd_start (snd y)" "rd_end (snd y) \<le> rm_vm_end (lm_rm s)"
    using tiles_mem_bounds [OF t, of "fst y" "snd y"] y(1) by auto
  then have b: "rm_vm_start (lm_rm s) \<le> ptr" "ptr \<le> rm_vm_end (lm_rm s)" using y(2) by (auto simp: in_region_def)
  obtain p d where d: "l4rm_find_region ptr (lm_rm s) = Inr (Some (p, d))" "(p, d) \<in> set (rm_head (lm_rm s))" "in_region d ptr"
    using find_region_list [OF ri b] by blast
  have "d = snd y" using region_unique [OF ri d(2,3), of "fst y" "snd y"] y(1,2) by simp
  then have "REGION_AREA d = f AND AREA_MASK" using y(3) by (simp add: REGION_AREA_def)
  then show ?thesis using k d(1) f(2) by (simp add: l4rm_area_release_addr_def l4rm_area_release_def L4RM_DEFAULT_REGION_AREA_def)
qed

section \<open>User pointers\<close>

lemma set_userptr_map: "set_userptr_at p v l = map (\<lambda>x. (fst x, if fst x = p then (snd x)\<lparr>rd_userptr := v\<rparr> else snd x)) l"
  by (auto simp: set_userptr_at_def)

lemma tiles_userptr: "tiles lo hi (set_userptr_at p v l) = tiles lo hi l"
  unfolding set_userptr_map by (induction lo hi l rule: tiles.induct) auto

lemma region_from_userptr:
  "region_from a (set_userptr_at p v l) = map_option (\<lambda>x. (fst x, if fst x = p then (snd x)\<lparr>rd_userptr := v\<rparr> else snd x)) (region_from a l)"
  unfolding set_userptr_map by (induction a l rule: region_from.induct) auto

lemma userptr_ok:
  assumes inv: "lm_inv s" and l: "lock_free_for (env_me e) (lm_lock s)"
  shows "\<exists>s'. l4rm_set_userptr e addr v s = Inr (s', if used_at s addr = None then - L4_EINVAL else 0) \<and> lm_inv s' \<and> lm_lock s' = lm_lock s \<and>
    (used_at s addr = None \<longrightarrow> s' = s) \<and>
    (\<forall>b. used_at s' b = map_option (\<lambda>x. (fst x, if used_at s addr \<noteq> None \<and> fst x = fst (the (used_at s addr)) then (snd x)\<lparr>rd_userptr := v\<rparr> else snd x)) (used_at s b))"
proof -
  obtain k where k: "l4rm_lock_region_list (env_me e) s = Inr (s\<lparr>lm_lock := k\<rparr>)"
    "\<forall>s'. lm_lock s' = k \<longrightarrow> l4rm_unlock_region_list (env_me e) s' = s'\<lparr>lm_lock := lm_lock s\<rparr>" using lock_ok [OF l] by blast
  have un: "l4rm_unlock_region_list (env_me e) (s\<lparr>lm_lock := k\<rparr>) = s" using k(2) by simp
  have fu: "l4rm_find_used_region addr (s\<lparr>lm_lock := k\<rparr>) = map_option fst (used_at s addr)"
    using find_used [of "s\<lparr>lm_lock := k\<rparr>" addr] inv by (simp add: used_at_def)
  show ?thesis
  proof (cases "used_at s addr")
    case None
    then show ?thesis using k(1) un fu inv by (simp add: l4rm_set_userptr_def option.map_ident)
  next
    case (Some x)
    obtain p r where x: "x = (p, r)" by force
    let ?h = "set_userptr_at p v (rm_head (lm_rm s))" let ?s = "s\<lparr>lm_rm := (lm_rm s)\<lparr>rm_head := ?h\<rparr>\<rparr>"
    have ra: "region_at p (s\<lparr>lm_lock := k\<rparr>) = Some r"
      using used_in [OF Some [unfolded x] inv] region_at_iff [of s p r] inv by (simp add: lm_inv_def region_at_def)
    have r: "l4rm_set_userptr e addr v s = Inr (?s, 0)" using k fu Some x ra by (simp add: l4rm_set_userptr_def)
    define g where "g = (\<lambda>x. (fst x, if fst x = p then (snd x)\<lparr>rd_userptr := v\<rparr> else snd x) :: l4_addr_t \<times> region_desc)"
    have gm: "?h = map g (rm_head (lm_rm s))" unfolding set_userptr_map g_def ..
    have gf: "IS_FREE_REGION (snd (g y)) = IS_FREE_REGION (snd y)" "region_key (g y) = region_key y" "data_ok (snd (g y)) = data_ok (snd y)" for y
      by (simp_all add: g_def IS_FREE_REGION_def REGION_TYPE_def region_key_def data_ok_def)
    have us: "used_regions (lm_rm ?s) = g ` used_regions (lm_rm s)" unfolding used_regions_def using gm gf(1) by auto
    have mf: "map fst ?h = map fst (rm_head (lm_rm s))" by (simp add: gm g_def comp_def)
    have "rm_inv (lm_rm s)" using inv by (simp add: lm_inv_def)
    then have "rm_inv (lm_rm ?s)" unfolding rm_inv_def set_map [symmetric] by (simp add: mf tiles_userptr del: set_map)
    then have "lm_inv ?s" using inv us gf by (auto simp: lm_inv_def vm_ok_def image_image)
    moreover have "used_at ?s b = map_option g (used_at s b)" for b
      by (auto simp: used_at_def region_from_userptr g_def in_region_def IS_FREE_REGION_def REGION_TYPE_def split: option.split)
    ultimately show ?thesis using r Some x by (auto simp: g_def)
  qed
qed

lemma get_userptr_ok:
  assumes inv: "lm_inv s" and l: "lock_free_for (env_me e) (lm_lock s)"
  shows "l4rm_get_userptr e addr s = Inr (s, case used_at s addr of None \<Rightarrow> 0 | Some x \<Rightarrow> rd_userptr (snd x))"
proof -
  obtain k where k: "l4rm_lock_region_list (env_me e) s = Inr (s\<lparr>lm_lock := k\<rparr>)"
    "\<forall>s'. lm_lock s' = k \<longrightarrow> l4rm_unlock_region_list (env_me e) s' = s'\<lparr>lm_lock := lm_lock s\<rparr>" using lock_ok [OF l] by blast
  have un: "l4rm_unlock_region_list (env_me e) (s\<lparr>lm_lock := k\<rparr>) = s" using k(2) by simp
  have fu: "l4rm_find_used_region addr (s\<lparr>lm_lock := k\<rparr>) = map_option fst (used_at s addr)"
    using find_used [of "s\<lparr>lm_lock := k\<rparr>" addr] inv by (simp add: used_at_def)
  show ?thesis
  proof (cases "used_at s addr")
    case None
    then show ?thesis using k(1) un fu by (simp add: l4rm_get_userptr_def)
  next
    case (Some x)
    then have "region_at (fst x) (s\<lparr>lm_lock := k\<rparr>) = Some (snd x)"
      using used_in [of s addr "fst x" "snd x"] inv region_at_iff [of s "fst x" "snd x"] by (simp add: lm_inv_def region_at_def)
    then show ?thesis using k(1) un fu Some by (simp add: l4rm_get_userptr_def)
  qed
qed

section \<open>Properties\<close>



text \<open>
  Setting up and clearing a region: a region that was set up for a pager, for exceptions or as blocked is found under
  its type and, with its pager, at the returned address; \<open>l4rm_detach\<close> refuses it without changing the regions;
  \<open>l4rm_area_clear_region\<close> removes it and restores the regions in use.
\<close>

theorem l4rm_setup_roundtrip:
  assumes "lm_inv s" "mem_ok e s" "env_ok e s" "lock_free_for (env_me e) (lm_lock s)"
    "type \<in> {L4RM_REGION_PAGER, L4RM_REGION_EXCEPTION, L4RM_REGION_BLOCKED}" "0 < unat sz" "unat sz \<le> 0x1FFFF000"
    "l4rm_do_area_setup e addr sz area type flags pager s = Inr (s1, a, 0)"
  shows "(\<exists>out. l4rm_lookup e a s1 = Inr (s1, type, Some out) \<and>
      (type = L4RM_REGION_PAGER \<longrightarrow> lo_pager out = (if l4_is_invalid_id pager then lm_task_pager s else pager))) \<and>
    (\<exists>s2. l4rm_detach e a s1 = Inr (s2, - L4_EINVAL) \<and> lm_rm s2 = lm_rm s1 \<and> lm_tree s2 = lm_tree s1) \<and>
    (\<exists>s2. l4rm_area_clear_region e a s1 = Inr (s2, 0) \<and> lm_inv s2 \<and> lm_lock s2 = lm_lock s \<and> used_regions (lm_rm s2) = used_regions (lm_rm s))"
proof -
  have cl: "can_lock e flags s" using assms(4) by (simp add: can_lock_def)
  have e0: "(0 :: int) \<notin> {- L4_ENOMAP, - L4_EINVAL, - L4_EUSED, - L4_ENOMEM}" by (simp add: l4_const)
  obtain p r where at: "lm_inv s1" "lm_frame s s1" "region_added s s1 area p r" "REGION_TYPE r = setup_type type"
    "type = L4RM_REGION_PAGER \<longrightarrow> rd_data r = Data_pager (setup_pager pager s)" "a = rd_start r" "unat a + unat sz \<le> unat (rd_end r) + 1"
    using setup_ok [OF assms(1,2,3) cl assms(5-7), of addr area pager] assms(8) e0 by auto
  have ri: "rm_inv (lm_rm s1)" using at(1) by (simp add: lm_inv_def)
  have in1: "in_region r a" using at(6,7) assms(6) by (auto simp: in_region_def word_le_unat)
  have ur: "used_regions (lm_rm s1) = insert (p, r) (used_regions (lm_rm s))" using at(3) by (simp add: region_added_def)
  then have ua: "used_at s1 a = Some (p, r)" using used_at_iff [OF ri, of a "(p, r)"] in1 by simp
  have lk: "lock_free_for (env_me e) (lm_lock s1)" and ip: "ipc_ok e s1" using assms(3,4) at(2) by (auto simp: lm_frame_def ipc_ok_def env_ok_def)
  have nd: "REGION_TYPE r \<noteq> REGION_DATASPACE" "REGION_TYPE r \<noteq> REGION_FREE" using at(4) region_types by (auto simp: setup_type_def)
  have la: "fst (lookup_answer a r) = type \<and> (type = L4RM_REGION_PAGER \<longrightarrow> lo_pager (snd (lookup_answer a r)) = setup_pager pager s)"
  proof -
    have "REGION_PAGER \<noteq> REGION_EXCEPTION" "REGION_BLOCKED \<noteq> REGION_EXCEPTION" by (simp_all add: l4_const)
    then show ?thesis using assms(5) at(4,5) nd region_types
      by (auto simp: lookup_answer_def lookup_type_def setup_type_def L4RM_REGION_PAGER_def L4RM_REGION_EXCEPTION_def L4RM_REGION_BLOCKED_def)
  qed
  have n: "(p, r) \<notin> used_regions (lm_rm s)"
  proof
    assume u: "(p, r) \<in> used_regions (lm_rm s)"
    have "flags_at (rm_head (lm_rm s)) a = Some (rd_flags r)"
      by (rule flags_at_region [OF _ _ in1]) (use u assms(1) in \<open>auto simp: used_regions_def lm_inv_def\<close>)
    then have "REGION_TYPE r = REGION_FREE" using at(3) in1 unfolding region_added_def REGION_TYPE_def by fastforce
    then show False using nd(2) by simp
  qed
  have 1: "l4rm_lookup e a s1 = Inr (s1, type, Some (snd (lookup_answer a r)))" using lookup_ok [OF at(1) lk, of a] ua la by simp
  obtain s2 where s2: "l4rm_detach e a s1 = Inr (s2, - L4_EINVAL)" "lm_rm s2 = lm_rm s1" "lm_tree s2 = lm_tree s1"
    using detach_ok [OF at(1) ip lk, of a] ua nd(1) by auto
  obtain s3 where s3: "l4rm_area_clear_region e a s1 = Inr (s3, 0)" "lm_inv s3" "lm_lock s3 = lm_lock s1" "region_removed s1 s3 p r"
    using clear_ok [OF at(1) ip lk, of a] ua nd(1) by auto
  have "used_regions (lm_rm s3) = used_regions (lm_rm s)" using s3(4) ur n by (auto simp: region_removed_def)
  then show ?thesis using 1 la s2 s3(1-3) at(2) by (auto simp: setup_pager_def lm_frame_def)
qed

text \<open>
  User pointers: a pointer that is set for an address of a region in use is read back at every address of that region;
  the pointers of the other regions stay; for an address outside all regions in use the call is refused and changes nothing.
\<close>

theorem l4rm_userptr_roundtrip:
  assumes "lm_inv s" "lock_free_for (env_me e) (lm_lock s)"
  shows "\<exists>s' ret. l4rm_set_userptr e addr v s = Inr (s', ret) \<and> lm_inv s' \<and>
    (if used_at s addr = None then ret = - L4_EINVAL \<and> s' = s
     else ret = 0 \<and> (\<forall>b. l4rm_get_userptr e b s' =
       (if map_option fst (used_at s b) = map_option fst (used_at s addr) then Inr (s', v) else map_sum id (apfst (\<lambda>_. s')) (l4rm_get_userptr e b s))))"
proof -
  obtain s' where s': "l4rm_set_userptr e addr v s = Inr (s', if used_at s addr = None then - L4_EINVAL else 0)" "lm_inv s'" "lm_lock s' = lm_lock s"
    "used_at s addr = None \<longrightarrow> s' = s"
    "\<forall>b. used_at s' b = map_option (\<lambda>x. (fst x, if used_at s addr \<noteq> None \<and> fst x = fst (the (used_at s addr)) then (snd x)\<lparr>rd_userptr := v\<rparr> else snd x)) (used_at s b)"
    using userptr_ok [OF assms, of addr v] by (elim exE conjE) (rule that)
  have lk: "lock_free_for (env_me e) (lm_lock s')" using assms(2) s'(3) by simp
  have "l4rm_get_userptr e b s' =
       (if map_option fst (used_at s b) = map_option fst (used_at s addr) then Inr (s', v) else map_sum id (apfst (\<lambda>_. s')) (l4rm_get_userptr e b s))"
    if "used_at s addr \<noteq> None" for b
    unfolding get_userptr_ok [OF s'(2) lk] get_userptr_ok [OF assms] using s'(5) that by (cases "used_at s b") auto
  then show ?thesis using s' by auto
qed

section \<open>Witnesses\<close>

lemma demo_area_inv: "area_inv demo_free"
  by (simp add: area_inv_def demo_lm_def demo_page_def)

lemma demo_reserve:
  "\<exists>s'. l4rm_do_reserve demo_env L4RM_ADDR_FIND 0x1000 0 0 demo_free = Inr (s', 0x1000, 1, 0)"
  by (simp add: l4rm_do_reserve_def Let_def
    alloc_desc_def l4rm_region_desc_alloc_def l4slab_alloc_def pick_slab_def take_object_def demo_used_def demo_cache_def demo_lm_def demo_env_def
    l4rm_lock_region_list_direct_def l4rm_lock_region_list_def l4lock_lock_def L4LOCK_UNLOCKED_def L4THREAD_INVALID_ID_def
    l4rm_new_region_def new_region_place_def new_region_align_def l4_round_page_def l4_trunc_page_def L4_PAGEMASK_def l4_const
    find_free_region_def free_region_from.simps demo_page_def IS_FREE_REGION_def REGION_TYPE_def REGION_AREA_def L4_INVALID_ID_def
    new_region_desc_def SET_AREA_def SET_REGION_TYPE_def region_fresh_def insert_region_def from_region_def before_region_def
    l4rm_region_desc_free_def l4slab_free_def put_object_def slab_from_pointer_def sizeof_slab_def)

lemma demo_setup:
  "\<exists>s'. l4rm_do_area_setup demo_env L4RM_ADDR_FIND 0x1000 0 L4RM_REGION_PAGER 0 L4_INVALID_ID demo_free = Inr (s', 0x1000, 0)"
  by (simp add: l4rm_do_area_setup_def Let_def l4_is_invalid_id_def
    alloc_desc_def l4rm_region_desc_alloc_def l4slab_alloc_def pick_slab_def take_object_def demo_used_def demo_cache_def demo_lm_def demo_env_def
    l4rm_lock_region_list_direct_def l4rm_lock_region_list_def l4lock_lock_def L4LOCK_UNLOCKED_def L4THREAD_INVALID_ID_def
    l4rm_new_region_def new_region_place_def new_region_align_def l4_round_page_def l4_trunc_page_def L4_PAGEMASK_def l4_const
    find_free_region_def free_region_from.simps demo_page_def IS_FREE_REGION_def REGION_TYPE_def REGION_AREA_def L4_INVALID_ID_def
    new_region_desc_def SET_AREA_def SET_REGION_TYPE_def region_fresh_def insert_region_def from_region_def before_region_def
    l4rm_region_desc_free_def l4slab_free_def put_object_def slab_from_pointer_def sizeof_slab_def
    l4rm_tree_insert_region_def l4_rm_add_component_def l4_task_equal_def add_region_def avlt_insert_def)



theorem l4rm_setup_roundtrip_witness:
  "\<exists>s1 s2. l4rm_do_area_setup demo_env L4RM_ADDR_FIND 0x1000 0 L4RM_REGION_PAGER 0 L4_INVALID_ID demo_free = Inr (s1, 0x1000, 0) \<and>
    l4rm_area_clear_region demo_env 0x1000 s1 = Inr (s2, 0) \<and> used_regions (lm_rm s2) = used_regions (lm_rm demo_free)"
proof -
  have b: "L4RM_REGION_PAGER \<in> {L4RM_REGION_PAGER, L4RM_REGION_EXCEPTION, L4RM_REGION_BLOCKED}" "0 < unat (0x1000 :: u32)" "unat (0x1000 :: u32) \<le> 0x1FFFF000" by simp_all
  obtain s1 where s1: "l4rm_do_area_setup demo_env L4RM_ADDR_FIND 0x1000 0 L4RM_REGION_PAGER 0 L4_INVALID_ID demo_free = Inr (s1, 0x1000, 0)" using demo_setup by blast
  from l4rm_setup_roundtrip [OF demo_free_inv demo_env_facts(1,2,4) b s1] s1 show ?thesis by blast
qed

theorem l4rm_userptr_roundtrip_witness:
  "\<exists>s'. l4rm_set_userptr demo_env 0x1800 0x77 demo_attached = Inr (s', 0) \<and> l4rm_get_userptr demo_env 0x1800 s' = Inr (s', 0x77)"
proof -
  have u: "used_at demo_attached 0x1800 \<noteq> None"
    by (simp add: used_at_def demo_lm_def demo_page_def in_region_def IS_FREE_REGION_def REGION_TYPE_def l4_const)
  from l4rm_userptr_roundtrip [OF demo_attached_inv demo_env_facts(4), of "0x1800" "0x77"] u show ?thesis by auto
qed

section \<open>Error paths\<close>

text \<open>
  \<open>l4rm_area_release_addr\<close> returns an error for an address in no area without unlocking the region list: the next call of
  another thread waits for ever.
\<close>

lemma release_addr_keeps_lock:
  "\<exists>s'. l4rm_area_release_addr demo_env 0x1000 demo_free = Inr (s', - L4_EINVAL) \<and> l4rm_lock_region_list 0x04000800 s' = Inl Diverge"
  by (simp add: l4rm_area_release_addr_def demo_lm_def demo_env_def l4rm_lock_region_list_def l4lock_lock_def L4LOCK_UNLOCKED_def
    L4THREAD_INVALID_ID_def L4_INVALID_ID_def l4rm_find_region_def demo_page_def REGION_AREA_def l4_const L4SEMAPHORE_INIT_def down_counter_def)

text \<open>
  When the region tree cannot take the new region, \<open>l4rm_new_region\<close> leaves the descriptor in the region list, marked as
  free, and \<open>l4rm_do_attach\<close> frees it: the list then has a descriptor that the slab cache may hand out again.
\<close>

lemma attach_error_dangling:
  "\<exists>s' d. l4rm_do_attach (demo_env\<lparr>env_node := False\<rparr>) demo_ds 0 L4RM_ADDR_FIND 0x1000 0x3000 1 demo_free = Inr (s', L4RM_ADDR_FIND, - L4_ENOMEM) \<and>
    rm_head (lm_rm s') = [(0x101F4, d)] \<and> (\<exists>sl. sc_slab (rm_cache (lm_rm s')) 0x10FE8 = Some sl \<and> 0x101F4 \<in> set (sl_free_objs sl))"
  by (simp add: l4rm_do_attach_def l4dm_is_invalid_ds_def demo_ds_def L4DM_INVALID_DATASPACE_def L4_INVALID_ID_def l4_thread_equal_def Let_def
    alloc_desc_def l4rm_region_desc_alloc_def l4slab_alloc_def pick_slab_def take_object_def demo_used_def demo_cache_def demo_lm_def demo_env_def
    l4rm_lock_region_list_direct_def l4rm_lock_region_list_def l4lock_lock_def L4LOCK_UNLOCKED_def L4THREAD_INVALID_ID_def
    l4rm_new_region_def new_region_place_def new_region_align_def l4_round_page_def l4_trunc_page_def L4_PAGEMASK_def l4_const
    find_free_region_def free_region_from.simps demo_page_def IS_FREE_REGION_def REGION_TYPE_def REGION_AREA_def
    new_region_desc_def SET_AREA_def SET_REGION_TYPE_def region_fresh_def insert_region_def from_region_def before_region_def
    l4rm_region_desc_free_def l4slab_free_def put_object_def slab_from_pointer_def sizeof_slab_def
    l4rm_tree_insert_region_def l4_rm_add_component_def l4_task_equal_def add_region_def avlt_insert_def
    l4rm_free_region_def modify_region_def join_next_def free_desc_def
    l4rm_unlock_region_list_direct_def l4rm_unlock_region_list_def l4lock_unlock_def relink_def)

text \<open>The last page of the address space is refused when it is asked for by its address.\<close>

lemma last_page_refused:
  "find_region 0x1000 0x1000 0 (lm_rm demo_free) = Inr (- L4_EINVAL, 0) \<and> find_free_region 0x1000 0 12 (lm_rm demo_free) = Inr (Some (0x10000, 0x1000))"
  by (simp add: find_region_def find_free_region_def free_region_from.simps demo_lm_def demo_page_def l4_const IS_FREE_REGION_def REGION_TYPE_def REGION_AREA_def)

end
