(* ===== verification/RmPagefault.thy ===== *)
theory RmPagefault
  imports RmMapper
begin

text \<open>
  The fault handler of the region mapper thread (\<open>l4rm/lib/src/pagefault.c\<close>): it looks the faulting address up in the
  region tree and calls the dataspace manager of the region, forwards the fault to another pager, or answers it itself.
  The answers of the dataspace manager and of the pagers are in the environment of a fault, the messages that the handler
  sends are part of its result. The callback functions are part of the state. The build has \<open>PANIC_ON_UNHANDLED_PF\<close>.
\<close>

section \<open>Definitions\<close>

definition L4RM_REPLY_EMPTY :: int where [l4_const]: "L4RM_REPLY_EMPTY = 0"
definition L4RM_REPLY_EXCEPTION :: int where [l4_const]: "L4RM_REPLY_EXCEPTION = 1"
definition L4RM_REPLY_NO_REPLY :: int where [l4_const]: "L4RM_REPLY_NO_REPLY = 2"
definition L4RM_REPLY_SUCCESS :: int where [l4_const]: "L4RM_REPLY_SUCCESS = 3"
definition DICE_REPLY :: int where [l4_const]: "DICE_REPLY = 1"
definition L4_IPC_SECANCELED :: u32 where [l4_const]: "L4_IPC_SECANCELED = 0x50"
definition L4_IPC_SEABORTED :: u32 where [l4_const]: "L4_IPC_SEABORTED = 0xD0"
definition L4_IPC_IOMAPMSG_BASE :: u32 where [l4_const]: "L4_IPC_IOMAPMSG_BASE = 0xF0000000"

definition L4_IPC_MAPMSG :: "l4_addr_t \<Rightarrow> u32 \<Rightarrow> u32" where
  "L4_IPC_MAPMSG address sz = (address AND L4_PAGEMASK) OR push_bit 2 sz OR 2"

definition L4_IPC_IOMAPMSG :: "u32 \<Rightarrow> u32 \<Rightarrow> u32" where
  "L4_IPC_IOMAPMSG port iosize = L4_IPC_IOMAPMSG_BASE OR push_bit 12 port OR push_bit 2 iosize OR 2"

text \<open>
  The messages: the fault operation of a dataspace manager (dataspace, offset, receive window), or a fault message to
  a pager (protocol, two words, receive window).
\<close>

datatype pf_msg = To_dm l4dm_dataspace_t u32 l4_fpage_t | To_pager l4_threadid_t l4_msgtag_protocol u32 u32 u32

record pf_answer =
  pa_error :: u32
  pa_dw1 :: u32
  pa_fpage_received :: bool

text \<open>The call of the dataspace manager raises an exception or has a result; the calls of a pager have one answer each.\<close>

record pf_env =
  pe_dm_exception :: bool
  pe_dm_ret :: int
  pe_ipc :: "nat \<Rightarrow> pf_answer"

record pf_state =
  pf_lm :: l4rm_state
  have_all_ioports :: bool
  pf_callback :: "(l4_addr_t \<Rightarrow> l4_addr_t \<Rightarrow> l4_threadid_t \<Rightarrow> int) option"
  unknown_fault_callback :: "(l4_msgtag_protocol \<Rightarrow> l4_threadid_t \<Rightarrow> int) option"
  exception_on_unhandled_pf :: bool

definition unknown_pf :: "l4_addr_t \<Rightarrow> l4_addr_t \<Rightarrow> l4_threadid_t \<Rightarrow> pf_state \<Rightarrow> int res" where
  "unknown_pf addr ip src s =
     (case pf_callback s of
        Some f \<Rightarrow> Inr (f addr ip src)
      | None \<Rightarrow> if exception_on_unhandled_pf s then Inr L4RM_REPLY_EXCEPTION else Inl Panic)"

definition handle_unknown_fault :: "l4_msgtag_protocol \<Rightarrow> l4_threadid_t \<Rightarrow> pf_state \<Rightarrow> int" where
  "handle_unknown_fault tag src s =
     (case unknown_fault_callback s of Some f \<Rightarrow> f tag src | None \<Rightarrow> L4RM_REPLY_NO_REPLY)"

text \<open>The calls of a pager: the number of calls that were cancelled before one went through.\<close>

partial_function (option) ipc_retry :: "(nat \<Rightarrow> pf_answer) \<Rightarrow> nat \<Rightarrow> nat option" where
  "ipc_retry ans n =
     (if pa_error (ans n) \<noteq> L4_IPC_SECANCELED \<and> pa_error (ans n) \<noteq> L4_IPC_SEABORTED then Some n else ipc_retry ans (Suc n))"

definition call_pager ::
    "pf_env \<Rightarrow> l4_threadid_t \<Rightarrow> l4_msgtag_protocol \<Rightarrow> u32 \<Rightarrow> u32 \<Rightarrow> u32 \<Rightarrow> (pf_answer \<times> pf_msg list) res" where
  "call_pager e pager tag w0 w1 rcv =
     (case ipc_retry (pe_ipc e) 0 of
        None \<Rightarrow> Inl Diverge
      | Some n \<Rightarrow> Inr (pe_ipc e n, replicate (Suc n) (To_pager pager tag w0 w1 rcv)))"

definition handle_iopf :: "pf_env \<Rightarrow> l4_addr_t \<Rightarrow> l4_addr_t \<Rightarrow> l4_threadid_t \<Rightarrow> pf_state \<Rightarrow> (pf_state \<times> int \<times> pf_msg list) res" where
  "handle_iopf e addr0 ip src s =
     (let addr = addr0 AND NOT 3 in
      bind_res (call_pager e (lm_task_pager (pf_lm s)) L4_MSGTAG_IO_PAGE_FAULT addr ip (L4_IPC_IOMAPMSG 0 L4_WHOLE_IOADDRESS_SPACE)) (\<lambda>(a, msgs).
        if pa_error a \<noteq> 0 then bind_res (unknown_pf addr ip src s) (\<lambda>r. Inr (s, r, msgs))
        else if \<not> have_all_ioports s \<and> pa_dw1 a = 0 then Inr (s, L4RM_REPLY_EMPTY, msgs)
        else Inr (if addr = l4_iofpage 0 L4_WHOLE_IOADDRESS_SPACE 0 then s\<lparr>have_all_ioports := True\<rparr> else s,
                  if pa_fpage_received a then L4RM_REPLY_SUCCESS else L4RM_REPLY_EMPTY, msgs)))"

definition call_dm :: "pf_env \<Rightarrow> l4_addr_t \<Rightarrow> l4_addr_t \<Rightarrow> region_desc \<Rightarrow> l4_threadid_t \<Rightarrow> pf_state \<Rightarrow> (pf_state \<times> int \<times> pf_msg list) res" where
  "call_dm e addr ip region src s =
     (case rd_data region of
        Data_ds ds offs rights \<Rightarrow>
          if rights AND L4DM_WRITE = 0 \<and> addr AND 2 \<noteq> 0 then bind_res (unknown_pf addr ip src s) (\<lambda>r. Inr (s, r, []))
          else (let offset = addr - rd_start region + offs;
                    msgs = [To_dm ds offset (l4_fpage (addr AND L4_PAGEMASK) L4_LOG2_PAGESIZE 0 0)] in
                if pe_dm_exception e \<or> pe_dm_ret e < 0 then bind_res (unknown_pf addr ip src s) (\<lambda>r. Inr (s, r, msgs))
                else Inr (s, L4RM_REPLY_EMPTY, msgs))
      | _ \<Rightarrow> Inl Undefined)"

definition forward_pf :: "pf_env \<Rightarrow> l4_addr_t \<Rightarrow> l4_addr_t \<Rightarrow> region_desc \<Rightarrow> l4_threadid_t \<Rightarrow> pf_state \<Rightarrow> (pf_state \<times> int \<times> pf_msg list) res" where
  "forward_pf e addr ip region src s =
     (case rd_data region of
        Data_pager pager \<Rightarrow>
          bind_res (call_pager e pager L4_MSGTAG_PAGE_FAULT addr ip (L4_IPC_MAPMSG addr L4_LOG2_PAGESIZE)) (\<lambda>(a, msgs).
            if pa_error a \<noteq> 0 \<or> pa_dw1 a = 0 then bind_res (unknown_pf addr ip src s) (\<lambda>r. Inr (s, r, msgs))
            else Inr (s, L4RM_REPLY_EMPTY, msgs))
      | _ \<Rightarrow> Inl Undefined)"

definition handle_pf :: "pf_env \<Rightarrow> l4_addr_t \<Rightarrow> l4_addr_t \<Rightarrow> l4_threadid_t \<Rightarrow> pf_state \<Rightarrow> (pf_state \<times> int \<times> pf_msg list) res" where
  "handle_pf e addr ip src s =
     (case l4rm_find_used_region addr (pf_lm s) of
        None \<Rightarrow> bind_res (unknown_pf addr ip src s) (\<lambda>r. Inr (s, r, []))
      | Some p \<Rightarrow>
          (case region_at p (pf_lm s) of
             None \<Rightarrow> Inl Undefined
           | Some region \<Rightarrow>
               if REGION_TYPE region = REGION_DATASPACE then call_dm e addr ip region src s
               else if REGION_TYPE region = REGION_PAGER then forward_pf e addr ip region src s
               else if REGION_TYPE region = REGION_EXCEPTION then Inr (s, L4RM_REPLY_EXCEPTION, [])
               else bind_res (unknown_pf addr ip src s) (\<lambda>r. Inr (s, r, []))))"

text \<open>The result of a fault: the state, whether a reply is sent, the two words of the message buffer, and the messages.\<close>

definition l4rm_handle_fault ::
    "pf_env \<Rightarrow> l4_msgtag_protocol \<Rightarrow> l4_threadid_t \<Rightarrow> u32 \<Rightarrow> u32 \<Rightarrow> pf_state \<Rightarrow> (pf_state \<times> int \<times> (u32 \<times> u32) \<times> pf_msg list) res" where
  "l4rm_handle_fault e tag src addr ip s =
     (if \<not> l4_task_equal src (lm_service_id (pf_lm s)) then Inr (s, DICE_NO_REPLY, (addr, ip), [])
      else bind_res
        (if tag = L4_MSGTAG_PAGE_FAULT then handle_pf e addr ip src s
         else if tag = L4_MSGTAG_IO_PAGE_FAULT then handle_iopf e addr ip src s
         else Inr (s, handle_unknown_fault tag src s, []))
        (\<lambda>(s1, reply, msgs).
          if reply = L4RM_REPLY_EMPTY then Inr (s1, DICE_REPLY, (0, 0), msgs)
          else if reply = L4RM_REPLY_SUCCESS then Inr (s1, DICE_REPLY, (1, 1), msgs)
          else if reply = L4RM_REPLY_EXCEPTION then Inr (s1, DICE_REPLY, (- 1, - 1), msgs)
          else Inr (s1, DICE_NO_REPLY, (addr, ip), msgs)))"

definition l4rm_set_unkown_pagefault_callback ::
    "(l4_addr_t \<Rightarrow> l4_addr_t \<Rightarrow> l4_threadid_t \<Rightarrow> int) option \<Rightarrow> pf_state \<Rightarrow> pf_state" where
  "l4rm_set_unkown_pagefault_callback f s = s\<lparr>pf_callback := f\<rparr>"

definition l4rm_set_unkown_fault_callback :: "(l4_msgtag_protocol \<Rightarrow> l4_threadid_t \<Rightarrow> int) option \<Rightarrow> pf_state \<Rightarrow> pf_state" where
  "l4rm_set_unkown_fault_callback f s = s\<lparr>unknown_fault_callback := f\<rparr>"

definition l4rm_enable_pagefault_exceptions :: "pf_state \<Rightarrow> pf_state" where
  "l4rm_enable_pagefault_exceptions s = s\<lparr>exception_on_unhandled_pf := True\<rparr>"

definition l4rm_disable_pagefault_exceptions :: "pf_state \<Rightarrow> pf_state" where
  "l4rm_disable_pagefault_exceptions s = s\<lparr>exception_on_unhandled_pf := False\<rparr>"

section \<open>Calls of a pager\<close>

definition call_through :: "pf_answer \<Rightarrow> bool" where
  "call_through a \<longleftrightarrow> pa_error a \<noteq> L4_IPC_SECANCELED \<and> pa_error a \<noteq> L4_IPC_SEABORTED"

lemma ipc_retry_first:
  "call_through (ans (n + k)) \<Longrightarrow> (\<forall>i < k. \<not> call_through (ans (n + i))) \<Longrightarrow> ipc_retry ans n = Some (n + k)"
proof (induction k arbitrary: n)
  case 0
  then show ?case by (subst ipc_retry.simps) (simp add: call_through_def)
next
  case (Suc k)
  have "\<not> call_through (ans n)" using Suc.prems(2) by (metis add.right_neutral zero_less_Suc)
  then have "ipc_retry ans n = ipc_retry ans (Suc n)" by (subst ipc_retry.simps) (auto simp: call_through_def)
  also have "\<dots> = Some (Suc n + k)"
  proof (rule Suc.IH)
    show "call_through (ans (Suc n + k))" using Suc.prems(1) by simp
    show "\<forall>i < k. \<not> call_through (ans (Suc n + i))" using Suc.prems(2) by (metis Suc_less_eq add_Suc_right add_Suc)
  qed
  finally show ?case by simp
qed

lemma call_pager_ok:
  assumes "call_through (pe_ipc e n)"
  shows "\<exists>k. call_pager e pager tag w0 w1 rcv = Inr (pe_ipc e k, replicate (Suc k) (To_pager pager tag w0 w1 rcv)) \<and>
    call_through (pe_ipc e k) \<and> (\<forall>i < k. \<not> call_through (pe_ipc e i))"
proof -
  define k where "k = (LEAST i. call_through (pe_ipc e i))"
  have k: "call_through (pe_ipc e k)" unfolding k_def by (rule LeastI [where P = "\<lambda>i. call_through (pe_ipc e i)", OF assms])
  have l: "\<forall>i < k. \<not> call_through (pe_ipc e i)" using not_less_Least unfolding k_def by blast
  have "ipc_retry (pe_ipc e) 0 = Some k" using ipc_retry_first [of "pe_ipc e" 0 k] k l by simp
  then show ?thesis using k l by (auto simp: call_pager_def)
qed

section \<open>Routing of a fault\<close>

text \<open>Unhandled faults are answered by the callback or by an exception.\<close>

definition unhandled :: "l4_addr_t \<Rightarrow> l4_addr_t \<Rightarrow> l4_threadid_t \<Rightarrow> pf_state \<Rightarrow> int" where
  "unhandled addr ip src s = (case pf_callback s of Some f \<Rightarrow> f addr ip src | None \<Rightarrow> L4RM_REPLY_EXCEPTION)"

definition can_answer :: "pf_state \<Rightarrow> bool" where
  "can_answer s \<longleftrightarrow> pf_callback s \<noteq> None \<or> exception_on_unhandled_pf s"

lemma unknown_pf_ok: "can_answer s \<Longrightarrow> unknown_pf addr ip src s = Inr (unhandled addr ip src s)"
  by (auto simp: unknown_pf_def unhandled_def can_answer_def split: option.split)

text \<open>What a fault at an address means: the message it causes, and the reply if the receiver can help.\<close>

definition fault_msgs :: "l4_addr_t \<Rightarrow> l4_addr_t \<Rightarrow> region_desc \<Rightarrow> pf_msg set" where
  "fault_msgs addr ip r =
     (case rd_data r of
        Data_ds ds offs rights \<Rightarrow>
          if REGION_TYPE r = REGION_DATASPACE \<and> (rights AND L4DM_WRITE \<noteq> 0 \<or> addr AND 2 = 0)
          then {To_dm ds (addr - rd_start r + offs) (l4_fpage (addr AND L4_PAGEMASK) L4_LOG2_PAGESIZE 0 0)} else {}
      | Data_pager t \<Rightarrow> if REGION_TYPE r = REGION_PAGER then {To_pager t L4_MSGTAG_PAGE_FAULT addr ip (L4_IPC_MAPMSG addr L4_LOG2_PAGESIZE)} else {}
      | Data_none \<Rightarrow> {})"

definition served :: "pf_env \<Rightarrow> l4_addr_t \<Rightarrow> region_desc \<Rightarrow> bool" where
  "served e addr r \<longleftrightarrow>
     (case rd_data r of
        Data_ds ds offs rights \<Rightarrow> (rights AND L4DM_WRITE \<noteq> 0 \<or> addr AND 2 = 0) \<and> \<not> pe_dm_exception e \<and> 0 \<le> pe_dm_ret e
      | Data_pager t \<Rightarrow> (\<exists>k. call_through (pe_ipc e k) \<and> (\<forall>i < k. \<not> call_through (pe_ipc e i)) \<and> pa_error (pe_ipc e k) = 0 \<and> pa_dw1 (pe_ipc e k) \<noteq> 0)
      | Data_none \<Rightarrow> False)"

definition fault_reply :: "pf_env \<Rightarrow> l4_addr_t \<Rightarrow> l4_addr_t \<Rightarrow> l4_threadid_t \<Rightarrow> pf_state \<Rightarrow> region_desc \<Rightarrow> int" where
  "fault_reply e addr ip src s r =
     (if REGION_TYPE r = REGION_EXCEPTION then L4RM_REPLY_EXCEPTION
      else if REGION_TYPE r \<in> {REGION_DATASPACE, REGION_PAGER} \<and> served e addr r then L4RM_REPLY_EMPTY
      else unhandled addr ip src s)"

lemma call_dm_ok:
  assumes c: "can_answer s" and d: "rd_data r = Data_ds ds offs rights" and t: "REGION_TYPE r = REGION_DATASPACE"
  shows "\<exists>reply msgs. call_dm e addr ip r src s = Inr (s, reply, msgs) \<and> set msgs = fault_msgs addr ip r \<and> reply = fault_reply e addr ip src s r"
proof -
  have "REGION_TYPE r \<noteq> REGION_EXCEPTION" using t by (simp add: l4_const)
  then show ?thesis using d t unknown_pf_ok [OF c] by (auto simp: call_dm_def fault_msgs_def fault_reply_def served_def Let_def)
qed

lemma forward_pf_ok:
  assumes c: "can_answer s" and d: "rd_data r = Data_pager t" and t: "REGION_TYPE r = REGION_PAGER" and n: "call_through (pe_ipc e n)"
  shows "\<exists>reply msgs. forward_pf e addr ip r src s = Inr (s, reply, msgs) \<and> set msgs = fault_msgs addr ip r \<and> reply = fault_reply e addr ip src s r"
proof -
  let ?m = "To_pager t L4_MSGTAG_PAGE_FAULT addr ip (L4_IPC_MAPMSG addr L4_LOG2_PAGESIZE)"
  obtain k where k: "call_pager e t L4_MSGTAG_PAGE_FAULT addr ip (L4_IPC_MAPMSG addr L4_LOG2_PAGESIZE) = Inr (pe_ipc e k, replicate (Suc k) ?m)"
    "call_through (pe_ipc e k)" "\<forall>i < k. \<not> call_through (pe_ipc e i)" using call_pager_ok [OF n] by blast
  have un: "j = k" if "call_through (pe_ipc e j)" "\<forall>i < j. \<not> call_through (pe_ipc e i)" for j
    using that k(2,3) by (meson linorder_neqE_nat)
  have sv: "served e addr r \<longleftrightarrow> pa_error (pe_ipc e k) = 0 \<and> pa_dw1 (pe_ipc e k) \<noteq> 0"
    unfolding served_def d region_data.case using k(2,3) un by metis
  have "REGION_TYPE r \<noteq> REGION_EXCEPTION" using t by (simp add: l4_const)
  then have rp: "fault_reply e addr ip src s r = (if served e addr r then L4RM_REPLY_EMPTY else unhandled addr ip src s)"
    using t by (simp add: fault_reply_def)
  have fm: "set (replicate (Suc k) ?m) = fault_msgs addr ip r"
    using d t by (simp add: fault_msgs_def set_replicate_Suc del: replicate.simps)
  have "forward_pf e addr ip r src s =
      (if pa_error (pe_ipc e k) \<noteq> 0 \<or> pa_dw1 (pe_ipc e k) = 0 then Inr (s, unhandled addr ip src s, replicate (Suc k) ?m)
       else Inr (s, L4RM_REPLY_EMPTY, replicate (Suc k) ?m))"
    using d k(1) unknown_pf_ok [OF c] by (simp add: forward_pf_def del: replicate.simps)
  then show ?thesis using sv rp fm by (simp del: replicate.simps)
qed

lemma handle_pf_ok:
  assumes inv: "lm_inv (pf_lm s)" and c: "can_answer s" and n: "call_through (pe_ipc e n)"
  shows "\<exists>reply msgs. handle_pf e addr ip src s = Inr (s, reply, msgs) \<and>
    (case used_at (pf_lm s) addr of
       None \<Rightarrow> reply = unhandled addr ip src s \<and> msgs = []
     | Some (p, r) \<Rightarrow> reply = fault_reply e addr ip src s r \<and> set msgs = fault_msgs addr ip r)"
proof (cases "used_at (pf_lm s) addr")
  case None
  then show ?thesis using find_used [OF inv] unknown_pf_ok [OF c] by (simp add: handle_pf_def)
next
  case (Some x)
  obtain p r where x: "x = (p, r)" by force
  note u = used_in [OF Some [unfolded x] inv]
  have ri: "rm_inv (lm_rm (pf_lm s))" using inv by (simp add: lm_inv_def)
  have ra: "region_at p (pf_lm s) = Some r" using u region_at_iff [OF ri] by blast
  have f: "l4rm_find_used_region addr (pf_lm s) = Some p" using find_used [OF inv] Some x by simp
  consider (ds) "REGION_TYPE r = REGION_DATASPACE" | (pager) "REGION_TYPE r = REGION_PAGER" | (other) "REGION_TYPE r \<notin> {REGION_DATASPACE, REGION_PAGER}" by auto
  then show ?thesis
  proof cases
    case ds
    then obtain d offs rights where "rd_data r = Data_ds d offs rights" using u by (auto simp: data_ok_def)
    from call_dm_ok [OF c this ds, of e addr ip src] show ?thesis using f ra ds Some x by (auto simp: handle_pf_def)
  next
    case pager
    then obtain t where "rd_data r = Data_pager t" using u by (auto simp: data_ok_def)
    from forward_pf_ok [OF c this pager n, of addr ip src] show ?thesis using f ra pager Some x region_types by (auto simp: handle_pf_def)
  next
    case other
    have "fault_msgs addr ip r = {}" using other by (auto simp: fault_msgs_def split: region_data.split)
    then show ?thesis using f ra other Some x unknown_pf_ok [OF c] by (auto simp: handle_pf_def fault_reply_def)
  qed
qed

text \<open>The message that a fault causes names what a lookup of the address finds.\<close>

lemma fault_msgs_lookup:
  assumes "m \<in> fault_msgs addr ip r" "data_ok r"
  shows "case m of
      To_dm ds offset win \<Rightarrow> fst (lookup_answer addr r) = L4RM_REGION_DATASPACE \<and> lo_ds (snd (lookup_answer addr r)) = ds \<and>
        lo_offset (snd (lookup_answer addr r)) = offset \<and> win = l4_fpage (addr AND L4_PAGEMASK) L4_LOG2_PAGESIZE 0 0
    | To_pager t tag w0 w1 rcv \<Rightarrow> fst (lookup_answer addr r) = L4RM_REGION_PAGER \<and> lo_pager (snd (lookup_answer addr r)) = t \<and>
        tag = L4_MSGTAG_PAGE_FAULT \<and> w0 = addr \<and> w1 = ip \<and> rcv = L4_IPC_MAPMSG addr L4_LOG2_PAGESIZE"
  using assms region_types by (auto simp: fault_msgs_def lookup_answer_def lookup_type_def split: region_data.splits if_splits)

section \<open>Properties\<close>

definition reply_words :: "int \<Rightarrow> u32 \<Rightarrow> u32 \<Rightarrow> int \<times> u32 \<times> u32" where
  "reply_words reply addr ip =
     (if reply = L4RM_REPLY_EMPTY then (DICE_REPLY, 0, 0) else if reply = L4RM_REPLY_SUCCESS then (DICE_REPLY, 1, 1)
      else if reply = L4RM_REPLY_EXCEPTION then (DICE_REPLY, - 1, - 1) else (DICE_NO_REPLY, addr, ip))"

lemma fault_ok:
  assumes inv: "lm_inv (pf_lm s)" and c: "can_answer s" and n: "call_through (pe_ipc env n)" and t: "l4_task_equal src (lm_service_id (pf_lm s))"
  shows "\<exists>msgs reply. l4rm_handle_fault env L4_MSGTAG_PAGE_FAULT src addr ip s =
      Inr (s, fst (reply_words reply addr ip), snd (reply_words reply addr ip), msgs) \<and>
    (case used_at (pf_lm s) addr of
       None \<Rightarrow> reply = unhandled addr ip src s \<and> msgs = []
     | Some (p, r) \<Rightarrow> reply = fault_reply env addr ip src s r \<and> set msgs = fault_msgs addr ip r)"
proof -
  obtain reply msgs where h: "handle_pf env addr ip src s = Inr (s, reply, msgs)"
    "case used_at (pf_lm s) addr of None \<Rightarrow> reply = unhandled addr ip src s \<and> msgs = []
     | Some (p, r) \<Rightarrow> reply = fault_reply env addr ip src s r \<and> set msgs = fault_msgs addr ip r"
    using handle_pf_ok [OF inv c n] by blast
  have "l4rm_handle_fault env L4_MSGTAG_PAGE_FAULT src addr ip s = Inr (s, fst (reply_words reply addr ip), snd (reply_words reply addr ip), msgs)"
    using h(1) t by (simp add: l4rm_handle_fault_def reply_words_def)
  then show ?thesis using h(2) by blast
qed



text \<open>The handler of the witnesses: a region mapper with one dataspace, and exceptions for unhandled faults.\<close>

definition demo_pf :: "l4rm_state \<Rightarrow> pf_state" where
  "demo_pf s = \<lparr>pf_lm = s, have_all_ioports = False, pf_callback = None, unknown_fault_callback = None, exception_on_unhandled_pf = True\<rparr>"

definition demo_pf_env :: pf_env where
  "demo_pf_env = \<lparr>pe_dm_exception = False, pe_dm_ret = 0, pe_ipc = (\<lambda>_. \<lparr>pa_error = 0, pa_dw1 = 1, pa_fpage_received = True\<rparr>)\<rparr>"

lemma demo_pf_facts:
  "can_answer (demo_pf s)" "call_through (pe_ipc demo_pf_env 0)" "pf_lm (demo_pf s) = s" "\<not> pe_dm_exception demo_pf_env" "0 \<le> pe_dm_ret demo_pf_env"
  by (simp_all add: can_answer_def demo_pf_def call_through_def demo_pf_env_def l4_const)



end
