(* ===== verification/DmArea.thy ===== *)
theory DmArea
  imports DmTypes L4Bits
begin

text \<open>
  Page areas of the physical memory dataspace manager \<open>dm_phys\<close> (\<open>server/include/__pages.h\<close>, \<open>server/include/__config.h\<close>):
  the descriptor, the window where the manager maps the memory, and the functions on the list of areas of a dataspace.
  Descriptors lie in memory; \<open>area_mem\<close> is their contents by address, the null pointer is 0. The links of the list of
  areas of a pool and of its free lists are in the pool (theory \<open>DmPages\<close>), the link \<open>ds_next\<close> is in the descriptor. The
  build has no \<open>DEBUG\<close>: \<open>ASSERT\<close> and \<open>PANIC\<close> are empty, \<open>Panic\<close> ends the server.
\<close>

section \<open>Constants\<close>

definition DMPHYS_NUM_POOLS :: nat where [l4_const]: "DMPHYS_NUM_POOLS = 8"
definition DMPHYS_PAGESIZE :: u32 where [l4_const]: "DMPHYS_PAGESIZE = 0x1000"
definition DMPHYS_LOG2_PAGESIZE :: nat where [l4_const]: "DMPHYS_LOG2_PAGESIZE = 12"
definition DMPHYS_SUPERPAGESIZE :: u32 where [l4_const]: "DMPHYS_SUPERPAGESIZE = 0x400000"
definition DMPHYS_LOG2_SUPERPAGESIZE :: nat where [l4_const]: "DMPHYS_LOG2_SUPERPAGESIZE = 22"
definition DMPHYS_AS_LOG2_SIZE :: nat where [l4_const]: "DMPHYS_AS_LOG2_SIZE = 32"
definition DMPHYS_PAGEMASK :: u32 where "DMPHYS_PAGEMASK = NOT (DMPHYS_PAGESIZE - 1)"
definition DMPHYS_MEM_DEFAULT_POOL :: nat where [l4_const]: "DMPHYS_MEM_DEFAULT_POOL = 0"
definition DMPHYS_MEMMAP_START :: u32 where [l4_const]: "DMPHYS_MEMMAP_START = 0"
definition DMPHYS_MEMMAP_LOG2_SIZE :: nat where [l4_const]: "DMPHYS_MEMMAP_LOG2_SIZE = 32"
definition DMPHYS_NUM_FREE_LISTS :: nat where [l4_const]: "DMPHYS_NUM_FREE_LISTS = 16"
definition DMPHYS_MAX_DS_AREAS :: nat where [l4_const]: "DMPHYS_MAX_DS_AREAS = 32"
definition DMPHYS_INT_POOL_INITIAL :: nat where [l4_const]: "DMPHYS_INT_POOL_INITIAL = 32"
definition DMPHYS_INT_POOL_MAX_ALLOC :: nat where [l4_const]: "DMPHYS_INT_POOL_MAX_ALLOC = 32"
definition DMPHYS_INT_POOL_MIN :: int where [l4_const]: "DMPHYS_INT_POOL_MIN = 8"
definition DMPHYS_INT_MAX_FREED :: nat where [l4_const]: "DMPHYS_INT_MAX_FREED = 32"

section \<open>Page areas\<close>

record page_area =
  pa_addr :: l4_addr_t
  pa_size :: u32
  pa_flags :: u32
  pa_ds_next :: l4_addr_t

type_synonym area_mem = "l4_addr_t \<Rightarrow> page_area"

definition AREA_USED :: u32 where [l4_const]: "AREA_USED = 1"

definition IS_USED_AREA :: "page_area \<Rightarrow> bool" where "IS_USED_AREA a \<longleftrightarrow> pa_flags a AND AREA_USED \<noteq> 0"
definition IS_UNUSED_AREA :: "page_area \<Rightarrow> bool" where "IS_UNUSED_AREA a \<longleftrightarrow> \<not> IS_USED_AREA a"
definition SET_AREA_USED :: "page_area \<Rightarrow> page_area" where "SET_AREA_USED a = a\<lparr>pa_flags := pa_flags a OR AREA_USED\<rparr>"
definition SET_AREA_UNUSED :: "page_area \<Rightarrow> page_area" where "SET_AREA_UNUSED a = a\<lparr>pa_flags := pa_flags a AND NOT AREA_USED\<rparr>"

definition WIN_OFFSET :: "u32 \<Rightarrow> u32" where
  "WIN_OFFSET x = x AND (push_bit 1 (push_bit (DMPHYS_MEMMAP_LOG2_SIZE - 1) 1) - 1)"

definition MAP_ADDR :: "l4_addr_t \<Rightarrow> l4_addr_t" where "MAP_ADDR phys = DMPHYS_MEMMAP_START + WIN_OFFSET phys"
definition AREA_MAP_ADDR :: "page_area \<Rightarrow> l4_addr_t" where "AREA_MAP_ADDR a = DMPHYS_MEMMAP_START + WIN_OFFSET (pa_addr a)"

text \<open>The window is the whole address space: memory is mapped one-to-one.\<close>

lemma WIN_OFFSET_id [simp]: "WIN_OFFSET x = x"
proof -
  have "push_bit 1 (push_bit (DMPHYS_MEMMAP_LOG2_SIZE - 1) 1) - 1 = (- 1 :: u32)" by (simp add: DMPHYS_MEMMAP_LOG2_SIZE_def)
  then show ?thesis unfolding WIN_OFFSET_def by (simp only: and.right_neutral)
qed

lemma MAP_ADDR_id [simp]: "MAP_ADDR x = x" and AREA_MAP_ADDR_id [simp]: "AREA_MAP_ADDR a = pa_addr a"
  by (simp_all add: MAP_ADDR_def AREA_MAP_ADDR_def DMPHYS_MEMMAP_START_def)

lemma used_flags [simp]:
  "IS_USED_AREA (SET_AREA_USED a)" "\<not> IS_USED_AREA (SET_AREA_UNUSED a)"
  "pa_addr (SET_AREA_USED a) = pa_addr a" "pa_size (SET_AREA_USED a) = pa_size a" "pa_ds_next (SET_AREA_USED a) = pa_ds_next a"
  "pa_addr (SET_AREA_UNUSED a) = pa_addr a" "pa_size (SET_AREA_UNUSED a) = pa_size a" "pa_ds_next (SET_AREA_UNUSED a) = pa_ds_next a"
proof -
  have "(f OR 1) AND 1 = (1 :: u32)" "(f AND NOT 1) AND 1 = (0 :: u32)" for f :: u32 by (rule bit_word_eqI; auto simp: bit_simps)+
  then show "IS_USED_AREA (SET_AREA_USED a)" "\<not> IS_USED_AREA (SET_AREA_UNUSED a)"
    by (simp_all add: IS_USED_AREA_def SET_AREA_USED_def SET_AREA_UNUSED_def AREA_USED_def)
qed (simp_all add: SET_AREA_USED_def SET_AREA_UNUSED_def)

section \<open>The areas of a dataspace\<close>

partial_function (option) dmphys_pages_find_offset :: "area_mem \<Rightarrow> l4_addr_t \<Rightarrow> u32 \<Rightarrow> (l4_addr_t \<times> u32) option" where
  "dmphys_pages_find_offset m pa offset =
     (if pa \<noteq> 0 \<and> pa_size (m pa) \<le> offset then dmphys_pages_find_offset m (pa_ds_next (m pa)) (offset - pa_size (m pa))
      else Some (pa, offset))"

partial_function (option) pages_get_num_loop :: "area_mem \<Rightarrow> l4_addr_t \<Rightarrow> int \<Rightarrow> int option" where
  "pages_get_num_loop m pa num = (if pa \<noteq> 0 then pages_get_num_loop m (pa_ds_next (m pa)) (num + 1) else Some num)"

definition dmphys_pages_get_num :: "area_mem \<Rightarrow> l4_addr_t \<Rightarrow> int option" where
  "dmphys_pages_get_num m l = pages_get_num_loop m l 0"

partial_function (option) pages_get_size_loop :: "area_mem \<Rightarrow> l4_addr_t \<Rightarrow> u32 \<Rightarrow> u32 option" where
  "pages_get_size_loop m pa sz = (if pa \<noteq> 0 then pages_get_size_loop m (pa_ds_next (m pa)) (sz + pa_size (m pa)) else Some sz)"

definition dmphys_pages_get_size :: "area_mem \<Rightarrow> l4_addr_t \<Rightarrow> u32 option" where
  "dmphys_pages_get_size m l = pages_get_size_loop m l 0"

text \<open>The list that begins at a pointer, and the bytes of its areas in order.\<close>

fun ds_chain :: "area_mem \<Rightarrow> l4_addr_t \<Rightarrow> l4_addr_t list \<Rightarrow> bool" where
  "ds_chain m p [] \<longleftrightarrow> p = 0"
| "ds_chain m p (q # qs) \<longleftrightarrow> p = q \<and> q \<noteq> 0 \<and> ds_chain m (pa_ds_next (m q)) qs"

definition area_size :: "area_mem \<Rightarrow> l4_addr_t \<Rightarrow> nat" where
  "area_size m p = unat (pa_size (m p))"

lemma ds_chain_unique: "ds_chain m p qs \<Longrightarrow> ds_chain m p qs' \<Longrightarrow> qs = qs'"
  by (induction qs arbitrary: p qs') (case_tac qs', auto)+

lemma ds_chain_cong: "(\<And>q. q \<in> set qs \<Longrightarrow> pa_ds_next (m' q) = pa_ds_next (m q)) \<Longrightarrow> ds_chain m' p qs = ds_chain m p qs"
  by (induction qs arbitrary: p) auto

lemma ds_chain_nonzero: "ds_chain m p qs \<Longrightarrow> 0 \<notin> set qs"
  by (induction qs arbitrary: p) auto

lemma get_num_loop_ok: "ds_chain m p qs \<Longrightarrow> pages_get_num_loop m p n = Some (n + int (length qs))"
  by (induction qs arbitrary: p n) (simp_all add: pages_get_num_loop.simps)

lemma get_size_loop_ok: "ds_chain m p qs \<Longrightarrow> pages_get_size_loop m p n = Some (n + of_nat (sum_list (map (area_size m) qs)))"
  by (induction qs arbitrary: p n) (simp_all add: pages_get_size_loop.simps area_size_def add.assoc)

lemma get_num_ok: "ds_chain m p qs \<Longrightarrow> dmphys_pages_get_num m p = Some (int (length qs))"
  by (simp add: dmphys_pages_get_num_def get_num_loop_ok)

lemma get_size_ok: "ds_chain m p qs \<Longrightarrow> dmphys_pages_get_size m p = Some (of_nat (sum_list (map (area_size m) qs)))"
  by (simp add: dmphys_pages_get_size_def get_size_loop_ok)

text \<open>An offset of the dataspace is found in the area that has it; beyond the end the result is the null pointer.\<close>

lemma find_offset_ok:
  assumes "ds_chain m p qs"
  shows "\<exists>q o'. dmphys_pages_find_offset m p offset = Some (q, o') \<and>
    (if unat offset < sum_list (map (area_size m) qs)
     then \<exists>us vs. qs = us @ q # vs \<and> unat offset = sum_list (map (area_size m) us) + unat o' \<and> unat o' < area_size m q
     else q = 0)"
  using assms
proof (induction qs arbitrary: p offset)
  case Nil
  then show ?case by (simp add: dmphys_pages_find_offset.simps)
next
  case (Cons q qs)
  then have p: "p = q" "q \<noteq> 0" and ch: "ds_chain m (pa_ds_next (m q)) qs" by simp_all
  show ?case
  proof (cases "pa_size (m q) \<le> offset")
    case False
    then have "unat offset < area_size m q" by (simp add: area_size_def word_le_unat)
    moreover have "dmphys_pages_find_offset m p offset = Some (q, offset)" using False p by (simp add: dmphys_pages_find_offset.simps)
    ultimately show ?thesis by - (rule exI [of _ q], rule exI [of _ offset], simp, rule exI [of _ "[]"], simp)
  next
    case True
    let ?o = "offset - pa_size (m q)"
    have u: "unat ?o = unat offset - area_size m q" and le: "area_size m q \<le> unat offset"
      using True by (simp_all add: unat_sub_le area_size_def word_le_unat)
    have e: "dmphys_pages_find_offset m p offset = dmphys_pages_find_offset m (pa_ds_next (m q)) ?o"
      using True p by (subst dmphys_pages_find_offset.simps) simp
    from Cons.IH [OF ch, of ?o] obtain r o' where r: "dmphys_pages_find_offset m (pa_ds_next (m q)) ?o = Some (r, o')"
      "if unat ?o < sum_list (map (area_size m) qs)
       then \<exists>us vs. qs = us @ r # vs \<and> unat ?o = sum_list (map (area_size m) us) + unat o' \<and> unat o' < area_size m r else r = 0"
      by blast
    show ?thesis
    proof (cases "unat ?o < sum_list (map (area_size m) qs)")
      case lt: True
      then obtain us vs where "qs = us @ r # vs" "unat ?o = sum_list (map (area_size m) us) + unat o'" "unat o' < area_size m r"
        using r(2) by auto
      then have "q # qs = (q # us) @ r # vs \<and> unat offset = sum_list (map (area_size m) (q # us)) + unat o' \<and> unat o' < area_size m r"
        using u le by simp
      then have "\<exists>us vs. q # qs = us @ r # vs \<and> unat offset = sum_list (map (area_size m) us) + unat o' \<and> unat o' < area_size m r"
        by blast
      moreover have "unat offset < sum_list (map (area_size m) (q # qs))" using lt u le by simp
      ultimately show ?thesis using e r(1) by simp
    next
      case False
      then have "r = 0" using r(2) by simp
      then show ?thesis using e r(1) False u le by auto
    qed
  qed
qed

end
