(* ===== verification/DmMap.thy ===== *)
theory DmMap
  imports DmArea
begin

text \<open>
  Mapping and unmapping the pages of a dataspace: the flexpage calculation of \<open>dm_phys/server/src/map.c\<close>, with the check
  for superpages in the memory map (\<open>memmap.c\<close>). \<open>MAP_FPAGE_PARANOIA\<close> is set in \<open>__debug.h\<close>: the checks it switches on are
  part of the model. The list of the memory map is the list of its entries.
\<close>

section \<open>The memory map\<close>

record memmap =
  mm_addr :: l4_addr_t
  mm_size :: u32
  mm_pagesize :: nat
  mm_flags :: u16

definition MEMMAP_MAPPED :: u16 where [l4_const]: "MEMMAP_MAPPED = 2"
definition MEMMAP_IS_MAPPED :: "memmap \<Rightarrow> bool" where "MEMMAP_IS_MAPPED m \<longleftrightarrow> mm_flags m AND MEMMAP_MAPPED \<noteq> 0"

text \<open>The list from the entry that is found on; \<open>phys_mem_high\<close> is the end of the memory.\<close>

definition find_addr :: "l4_addr_t \<Rightarrow> memmap list \<Rightarrow> l4_addr_t \<Rightarrow> memmap list" where
  "find_addr phys_mem_high mem addr =
     (if phys_mem_high \<le> addr then [] else dropWhile (\<lambda>m. mm_addr m + mm_size m \<le> addr) mem)"

fun check_pagesize_loop :: "memmap list \<Rightarrow> l4_addr_t \<Rightarrow> u32 \<Rightarrow> u32 \<Rightarrow> nat \<Rightarrow> bool" where
  "check_pagesize_loop [] addr got sz pagesize = (\<not> got < sz)"
| "check_pagesize_loop (m # ms) addr got sz pagesize =
     (if \<not> got < sz then True
      else if \<not> MEMMAP_IS_MAPPED m then False
      else if mm_pagesize m < pagesize then False
      else check_pagesize_loop ms (addr + (mm_size m - (addr - mm_addr m))) (got + (mm_size m - (addr - mm_addr m))) sz pagesize)"

definition dmphys_memmap_check_pagesize :: "l4_addr_t \<Rightarrow> memmap list \<Rightarrow> l4_addr_t \<Rightarrow> u32 \<Rightarrow> nat \<Rightarrow> bool" where
  "dmphys_memmap_check_pagesize phys_mem_high mem addr sz pagesize =
     (if pagesize > 31 \<or> pagesize < 12 then False
      else (let align_mask = push_bit pagesize 1 - 1 in
            if addr AND align_mask \<noteq> 0 \<or> sz AND align_mask \<noteq> 0 then False
            else check_pagesize_loop (find_addr phys_mem_high mem addr) addr 0 sz pagesize))"

section \<open>The size of a flexpage\<close>

text \<open>\<open>1UL << n\<close>; a shift by the width of the type or more is not defined.\<close>

definition shl1 :: "nat \<Rightarrow> u32 res" where
  "shl1 n = (if n < 32 then Inr (push_bit n 1) else Inl Undefined)"

definition bit_scan :: "nat option \<Rightarrow> nat res" where
  "bit_scan r = (case r of None \<Rightarrow> Inl Undefined | Some n \<Rightarrow> Inr n)"

definition max_addr_align :: "l4_addr_t \<Rightarrow> l4_addr_t \<Rightarrow> nat res" where
  "max_addr_align start end' =
     (if start \<noteq> end' then bit_scan (l4util_bsr ((start - 1) XOR end'))
      else if start = 0 then Inr DMPHYS_AS_LOG2_SIZE
      else bit_scan (l4util_bsf start))"

definition max_size_area :: "page_area \<Rightarrow> u32 \<Rightarrow> nat \<Rightarrow> u32 \<Rightarrow> nat res" where
  "max_size_area area offset rcv_size2 rcv_offs =
     (let area_start = AREA_MAP_ADDR area; local_addr = area_start + offset; area_end = area_start + pa_size area in
      bind_res (if local_addr = rcv_offs then Inr rcv_size2
                else bind_res (bit_scan (l4util_bsf (local_addr XOR rcv_offs)))
                       (\<lambda>n. Inr (if n > rcv_size2 then rcv_size2 else n))) (\<lambda>align_addr.
      bind_res (max_addr_align area_start local_addr) (\<lambda>align_start.
      bind_res (max_addr_align local_addr area_end) (\<lambda>align_end.
        let align0 = (if align_start < align_end then align_start else align_end);
            align = (if align_addr < align0 then align_addr else align0) in
        bind_res (shl1 (align0 + 1)) (\<lambda>b.
          let map_start = local_addr AND NOT (b - 1); map_end = map_start + b in
          if area_start \<le> map_start \<and> map_end \<le> area_end then Inl Panic else Inr align)))))"

definition max_size_at_offs :: "page_area \<Rightarrow> u32 \<Rightarrow> nat \<Rightarrow> u32 \<Rightarrow> nat res" where
  "max_size_at_offs area offset rcv_size2 rcv_offs =
     (let a = (AREA_MAP_ADDR area + offset) OR rcv_offs in
      bind_res (if a = 0 then Inr rcv_size2
                else bind_res (bit_scan (l4util_bsf a)) (\<lambda>n. Inr (if n > rcv_size2 then rcv_size2 else n))) (\<lambda>max_align.
      bind_res (bit_scan (l4util_bsr (pa_size area - offset))) (\<lambda>max_size.
        Inr (if max_size < max_align then max_size else max_align))))"

section \<open>Building a flexpage\<close>

record l4_snd_fpage_t =
  snd_base :: u32
  snd_fpage :: l4_fpage_t

definition dummy_fpage :: l4_snd_fpage_t where
  "dummy_fpage = \<lparr>snd_base = 0, snd_fpage = l4_fpage 0 0 0 0\<rparr>"

definition build_map_fpage ::
    "(l4_addr_t \<Rightarrow> u32 \<Rightarrow> nat \<Rightarrow> bool) \<Rightarrow> page_area \<Rightarrow> u32 \<Rightarrow> nat \<Rightarrow> nat \<Rightarrow> u32 \<Rightarrow> u32 \<Rightarrow> l4_snd_fpage_t \<Rightarrow> (l4_snd_fpage_t \<times> int) res" where
  "build_map_fpage check_pagesize area offset size2 rcv_size2 rcv_offs flags fpage =
     (let addr = AREA_MAP_ADDR area + offset in
      bind_res (if flags AND L4DM_MAP_MORE \<noteq> 0 then max_size_area area offset rcv_size2 rcv_offs
                else bind_res (max_size_at_offs area offset rcv_size2 rcv_offs) (\<lambda>n. Inr (if n > size2 then size2 else n))) (\<lambda>fpage_size.
      bind_res (shl1 fpage_size) (\<lambda>b.
        let map_start = addr AND NOT (b - 1); map_end = map_start + b in
        if fpage_size < size2 \<and> flags AND L4DM_MAP_PARTIAL = 0 then Inr (fpage, - L4_EINVAL)
        else if flags AND L4DM_MEMPHYS_SUPERPAGES \<noteq> 0 \<and> \<not> check_pagesize map_start b DMPHYS_LOG2_SUPERPAGESIZE
        then Inr (fpage, - L4_EINVAL)
        else (let page = \<lparr>snd_base = rcv_offs - (addr - map_start),
                snd_fpage = l4_fpage map_start (of_nat fpage_size)
                  (if flags AND L4DM_WRITE \<noteq> 0 then L4_FPAGE_RW else L4_FPAGE_RO) L4_FPAGE_MAP\<rparr> in
              if map_start < AREA_MAP_ADDR area \<or> map_end > AREA_MAP_ADDR area + pa_size area \<or>
                 map_start \<noteq> addr \<and> flags AND L4DM_MAP_MORE = 0 \<or> fpage_size < 12
              then Inl Panic else Inr (page, 0)))))"

definition unmap_area :: "l4_addr_t \<Rightarrow> u32 \<Rightarrow> (l4_addr_t \<times> nat) list option" where
  "unmap_area adr sz = unmap_loop (MAP_ADDR adr) sz"

definition dmphys_unmap_area :: "l4_addr_t \<Rightarrow> u32 \<Rightarrow> (l4_addr_t \<times> nat) list option" where
  "dmphys_unmap_area addr sz = unmap_area addr sz"

partial_function (option) dmphys_unmap_areas :: "area_mem \<Rightarrow> l4_addr_t \<Rightarrow> (l4_addr_t \<times> nat) list option" where
  "dmphys_unmap_areas m a =
     (if a = 0 then Some []
      else Option.bind (unmap_area (pa_addr (m a)) (pa_size (m a))) (\<lambda>l.
           Option.bind (dmphys_unmap_areas m (pa_ds_next (m a))) (\<lambda>l'. Some (l @ l'))))"

section \<open>Flexpages stay inside their area\<close>

text \<open>A page area in memory: whole pages below the end of the address space.\<close>

definition area_ok :: "page_area \<Rightarrow> bool" where
  "area_ok a \<longleftrightarrow> 4096 dvd unat (pa_addr a) \<and> 4096 dvd unat (pa_size a) \<and> 0 < unat (pa_size a) \<and> unat (pa_addr a) + unat (pa_size a) < 2 ^ 32"

lemma exp_dvd_take_bit: "2 ^ k dvd unat x \<longleftrightarrow> take_bit k x = 0" for x :: u32
proof -
  have "2 ^ k dvd unat x \<longleftrightarrow> unat (take_bit k x) = 0" by (simp add: unat_take_bit_mod dvd_eq_mod_eq_0)
  then show ?thesis by (simp only: unat_eq_0)
qed

lemma round_down_exp: "k < 32 \<Longrightarrow> unat (x AND NOT (push_bit k 1 - 1)) = unat x div 2 ^ k * 2 ^ k" for x :: u32
  using and_not_mask_unat [of x k] by (simp add: mask_eq_exp_minus_1)

lemma div_mult_self: "2 ^ k dvd (n :: nat) \<Longrightarrow> n div 2 ^ k * 2 ^ k = n"
  by simp

lemma bit_scan_bsf:
  assumes "a \<noteq> 0"
  obtains n where "bit_scan (l4util_bsf a) = Inr n" "n < 32" "\<And>k. k \<le> n \<longleftrightarrow> k < 32 \<and> 2 ^ k dvd unat a"
proof -
  obtain n where n: "l4util_bsf a = Some n" "n < 32" "\<And>k. k \<le> n \<longleftrightarrow> k < 32 \<and> 2 ^ k dvd unat a" using bsf_spec [OF assms] by blast
  show ?thesis by (rule that [of n, OF _ n(2,3)]) (simp add: bit_scan_def n(1))
qed

lemma page_bits: "4096 dvd unat x \<longleftrightarrow> take_bit 12 x = 0" for x :: u32
  using exp_dvd_take_bit [of 12 x] by simp

lemma or_zero_iff: "x OR y = 0 \<longleftrightarrow> x = 0 \<and> y = 0" for x y :: u32
  unfolding bit_eq_iff by (auto simp: bit_simps)

lemma xor_zero_iff: "x XOR y = 0 \<longleftrightarrow> x = y" for x y :: u32
  unfolding bit_eq_iff by (auto simp: bit_simps)

lemma at_offs_ok:
  assumes ar: "area_ok area" and off: "4096 dvd unat offset" "offset < pa_size area" and rcv: "4096 dvd unat rcv_offs" "12 \<le> rcv2"
  shows "\<exists>n. max_size_at_offs area offset rcv2 rcv_offs = Inr n \<and> 12 \<le> n \<and> n < 32 \<and> n \<le> rcv2 \<and>
    2 ^ n dvd unat (pa_addr area + offset) \<and> 2 ^ n dvd unat rcv_offs \<and> 2 ^ n \<le> unat (pa_size area) - unat offset"
proof -
  let ?l = "pa_addr area + offset" let ?a = "?l OR rcv_offs" let ?rest = "pa_size area - offset"
  have lt: "unat offset < unat (pa_size area)" using off by (simp add: word_less_unat)
  have u: "unat ?rest = unat (pa_size area) - unat offset" using lt by (intro unat_sub_le) (simp add: word_le_unat)
  have "unat ?l = unat (pa_addr area) + unat offset" using ar lt by (intro unat_add_lt) (simp add: area_ok_def)
  then have l12: "4096 dvd unat ?l" using ar off by (simp add: area_ok_def)
  have a12: "2 ^ 12 dvd unat ?a" using l12 rcv by (simp add: exp_dvd_take_bit page_bits)
  have "4096 dvd unat ?rest" using ar off u by (simp add: area_ok_def)
  moreover have "0 < unat ?rest" using lt u by simp
  ultimately have r12: "4096 \<le> unat ?rest" by (rule dvd_imp_le)
  then have "?rest \<noteq> 0" by auto
  then obtain m where m: "l4util_bsr ?rest = Some m" using bsr_Some by blast
  note mb = bsr_bounds [OF m]
  have "(2 :: nat) ^ 12 < 2 ^ Suc m" using r12 mb(2) by simp
  then have m12: "12 \<le> m" using power_less_imp_less_exp [of "2 :: nat" 12 "Suc m"] by simp
  obtain al where al: "(if ?a = 0 then Inr rcv2 else bind_res (bit_scan (l4util_bsf ?a)) (\<lambda>n. Inr (if n > rcv2 then rcv2 else n))) = (Inr al :: nat res)"
    "12 \<le> al" "al \<le> rcv2" "\<And>k. k \<le> al \<Longrightarrow> k < 32 \<Longrightarrow> 2 ^ k dvd unat ?a"
  proof (cases "?a = 0")
    case True
    show thesis by (rule that [of rcv2]) (use True rcv in simp_all)
  next
    case False
    then obtain n where n: "bit_scan (l4util_bsf ?a) = Inr n" "\<And>k. k \<le> n \<longleftrightarrow> k < 32 \<and> 2 ^ k dvd unat ?a" using bit_scan_bsf by blast
    show thesis
    proof (rule that [of "min n rcv2"])
      show "12 \<le> min n rcv2" using n(2) [of 12] a12 rcv by simp
      show "2 ^ k dvd unat ?a" if "k \<le> min n rcv2" for k using n(2) [of k] that by simp
    qed (use False n(1) in \<open>simp_all add: min_def\<close>)
  qed
  define n where "n = (if m < al then m else al)"
  have n: "12 \<le> n" "n < 32" "n \<le> m" "n \<le> al" using m12 al(2) mb(1) by (auto simp: n_def)
  have d: "take_bit n ?l OR take_bit n rcv_offs = 0" using al(4) [OF n(4) n(2)] by (simp add: exp_dvd_take_bit)
  have "(2 :: nat) ^ n \<le> 2 ^ m" using n(3) by (intro power_increasing) simp_all
  then have "2 ^ n \<le> unat (pa_size area) - unat offset" using mb(3) unfolding u by (rule order_trans)
  moreover have "max_size_at_offs area offset rcv2 rcv_offs = Inr n"
    unfolding max_size_at_offs_def Let_def AREA_MAP_ADDR_id al(1) by (simp add: m bit_scan_def n_def)
  ultimately show ?thesis using n al(3) d mb(3) u by (intro exI [of _ n]) (simp add: exp_dvd_take_bit or_zero_iff)
qed

lemma max_size_area_aligned:
  assumes "max_size_area area offset rcv2 rcv_offs = Inr n"
  shows "n \<le> rcv2" "take_bit n (pa_addr area + offset) = take_bit n rcv_offs"
proof -
  let ?l = "pa_addr area + offset"
  obtain al where al: "(if ?l = rcv_offs then Inr rcv2 else bind_res (bit_scan (l4util_bsf (?l XOR rcv_offs)))
      (\<lambda>n. Inr (if n > rcv2 then rcv2 else n))) = (Inr al :: nat res)" "n \<le> al"
    using assms unfolding max_size_area_def Let_def AREA_MAP_ADDR_id bind_res_Inr_iff by (auto split: if_splits)
  have "al \<le> rcv2 \<and> take_bit n ?l = take_bit n rcv_offs"
  proof (cases "?l = rcv_offs")
    case True
    then show ?thesis using al by simp
  next
    case False
    then have "?l XOR rcv_offs \<noteq> 0" by (simp add: xor_zero_iff)
    then obtain k where k: "bit_scan (l4util_bsf (?l XOR rcv_offs)) = Inr k" "\<And>j. j \<le> k \<longleftrightarrow> j < 32 \<and> 2 ^ j dvd unat (?l XOR rcv_offs)"
      using bit_scan_bsf by blast
    have m: "al = min k rcv2" using al(1) False k(1) by (auto simp: min_def)
    then have "2 ^ n dvd unat (?l XOR rcv_offs)" using k(2) [of n] al(2) by simp
    then have "take_bit n ?l XOR take_bit n rcv_offs = 0" by (simp add: exp_dvd_take_bit)
    then show ?thesis using m by (simp add: xor_zero_iff)
  qed
  then show "n \<le> rcv2" "take_bit n ?l = take_bit n rcv_offs" using al(2) by auto
qed

text \<open>What a flexpage of size \<open>n\<close> from \<open>start\<close> on does: it maps memory of the area only, the page at the offset is in
  it, and the window of the receiver has place for it with the page at the place asked for.\<close>

definition fpage_fits :: "page_area \<Rightarrow> u32 \<Rightarrow> nat \<Rightarrow> u32 \<Rightarrow> l4_snd_fpage_t \<Rightarrow> l4_addr_t \<Rightarrow> nat \<Rightarrow> bool" where
  "fpage_fits area offset rcv2 rcv_offs page start n \<longleftrightarrow>
     12 \<le> n \<and> n \<le> rcv2 \<and> fp_page (snd_fpage page) = drop_bit 12 start \<and> fp_size (snd_fpage page) = of_nat n \<and> 2 ^ n dvd unat start \<and>
     unat (pa_addr area) \<le> unat start \<and> unat start + 2 ^ n \<le> unat (pa_addr area) + unat (pa_size area) \<and>
     unat start \<le> unat (pa_addr area) + unat offset \<and> unat (pa_addr area) + unat offset + 4096 \<le> unat start + 2 ^ n \<and>
     unat (snd_base page) + (unat (pa_addr area) + unat offset - unat start) = unat rcv_offs \<and>
     2 ^ n dvd unat (snd_base page) \<and> unat (snd_base page) + 2 ^ n \<le> 2 ^ rcv2"

lemma dvd_add_le_less: "d dvd a \<Longrightarrow> d dvd b \<Longrightarrow> a < b \<Longrightarrow> a + d \<le> b" for a b d :: nat
  by (metis dvd_diff_nat dvd_imp_le le_add_diff_inverse less_imp_le_nat nat_add_left_cancel_le zero_less_diff)

lemma fits_arith:
  fixes l r :: nat
  assumes "l mod 2 ^ n = r mod 2 ^ n" "12 \<le> n" "4096 dvd l" "r < 2 ^ w" "n \<le> w"
  shows "l div 2 ^ n * 2 ^ n \<le> l" "l + 4096 \<le> l div 2 ^ n * 2 ^ n + 2 ^ n" "l - l div 2 ^ n * 2 ^ n \<le> r"
    "r - (l - l div 2 ^ n * 2 ^ n) = r div 2 ^ n * 2 ^ n" "r div 2 ^ n * 2 ^ n + 2 ^ n \<le> 2 ^ w"
proof -
  let ?p = "(2 :: nat) ^ n"
  have ld: "l = l div ?p * ?p + l mod ?p" and rd: "r = r div ?p * ?p + r mod ?p" by (rule div_mult_mod_eq [symmetric])+
  show "l div ?p * ?p \<le> l" by simp
  have p: "?p = 4096 * 2 ^ (n - 12)" using assms(2) power_add [of "2 :: nat" 12 "n - 12"] by simp
  then have "4096 dvd l mod ?p" using assms(3) by (metis dvd_mod dvd_triv_left)
  moreover have "l mod ?p < ?p" by simp
  ultimately have "l mod ?p + 4096 \<le> ?p" using p by (metis dvd_triv_left dvd_add_le_less)
  then show "l + 4096 \<le> l div ?p * ?p + ?p" using ld by linarith
  have m: "l - l div ?p * ?p = r mod ?p" using assms(1) by (simp add: minus_div_mult_eq_mod)
  show "l - l div ?p * ?p \<le> r" using m by simp
  show "r - (l - l div ?p * ?p) = r div ?p * ?p" using m by (simp add: minus_mod_eq_div_mult)
  have w: "(2 :: nat) ^ w = ?p * 2 ^ (w - n)" using assms(5) by (simp flip: power_add)
  then have "r div ?p < 2 ^ (w - n)" using assms(4) by (simp add: less_mult_imp_div_less mult.commute)
  then have "(r div ?p + 1) * ?p \<le> 2 ^ (w - n) * ?p" by (intro mult_right_mono) simp_all
  then show "r div ?p * ?p + ?p \<le> 2 ^ w" using w by (simp add: algebra_simps)
qed

lemma l4_fpage_write: "bit (l4_fpage a n w g) 1 = bit w 0"
  unfolding l4_fpage_def L4_PAGEMASK_mask mask_6 mask_1 by (simp add: bit_simps bit_double_iff mult.commute [of _ "2 :: u32"])

lemma fits_intro:
  assumes ar: "area_ok area" and off: "4096 dvd unat offset" "offset < pa_size area" and rcv: "unat rcv_offs < 2 ^ rcv2"
    and n: "12 \<le> n" "n < 32" "n \<le> rcv2" "take_bit n (pa_addr area + offset) = take_bit n rcv_offs"
    and st: "start = (pa_addr area + offset) AND NOT (push_bit n 1 - 1)"
    and ins: "unat (pa_addr area) \<le> unat start" "unat start + 2 ^ n \<le> unat (pa_addr area) + unat (pa_size area)"
    and pg: "snd_base page = rcv_offs - (pa_addr area + offset - start)" "snd_fpage page = l4_fpage start (of_nat n) w 0"
  shows "fpage_fits area offset rcv2 rcv_offs page start n"
proof -
  let ?l = "pa_addr area + offset"
  have lt: "unat offset < unat (pa_size area)" using off by (simp add: word_less_unat)
  have l: "unat ?l = unat (pa_addr area) + unat offset" using ar lt by (intro unat_add_lt) (simp add: area_ok_def)
  have s: "unat start = unat ?l div 2 ^ n * 2 ^ n" unfolding st by (rule round_down_exp [OF n(2)])
  have e: "unat ?l mod 2 ^ n = unat rcv_offs mod 2 ^ n" using n(4) by (metis unat_take_bit_mod)
  have d: "4096 dvd unat ?l" using ar off l by (simp add: area_ok_def)
  note f = fits_arith [OF e n(1) d rcv n(3), folded s]
  have "unat (?l - start) = unat ?l - unat start" using f(1) by (intro unat_sub_le) (simp add: word_le_unat)
  then have "unat (snd_base page) = unat rcv_offs - (unat ?l - unat start)"
    unfolding pg(1) using f(3) by (subst unat_sub_le) (simp_all add: word_le_unat)
  then have b: "unat (snd_base page) = unat rcv_offs div 2 ^ n * 2 ^ n" "unat (snd_base page) + (unat ?l - unat start) = unat rcv_offs"
    using f(3,4) by simp_all
  have "(of_nat n :: u32) AND 0x3F = of_nat n"
  proof -
    have "unat (take_bit 6 (of_nat n :: u32)) = unat (of_nat n :: u32)" using n(2) by (simp add: unat_take_bit_mod unat_of_nat_lt)
    then have "take_bit 6 (of_nat n :: u32) = of_nat n" by (simp only: word_unat_eq_iff)
    then show ?thesis unfolding mask_6 by (simp only: take_bit_eq_mask)
  qed
  then have "fp_size (snd_fpage page) = of_nat n" by (simp add: pg(2) fp_size_l4_fpage)
  moreover have "2 ^ n dvd unat start" using s by simp
  ultimately show ?thesis
    unfolding fpage_fits_def l [symmetric] using n ins f(1,2,5) b s by (simp add: pg(2) fp_page_l4_fpage l)
qed

lemma wr_bit: "bit (if b then L4_FPAGE_RW else L4_FPAGE_RO) 0 = b"
  by (simp add: L4_FPAGE_RW_def L4_FPAGE_RO_def)

text \<open>The two ways to choose the size, up to the checks that follow.\<close>

lemma build_success:
  assumes "build_map_fpage chk area offset size2 rcv2 rcv_offs flags fp = Inr (page, 0)"
  obtains n start where "n < 32" "start = (pa_addr area + offset) AND NOT (push_bit n 1 - 1)" "12 \<le> n"
    "pa_addr area \<le> start" "start + push_bit n 1 \<le> pa_addr area + pa_size area" "size2 \<le> n \<or> flags AND L4DM_MAP_PARTIAL \<noteq> 0"
    "start \<noteq> pa_addr area + offset \<Longrightarrow> flags AND L4DM_MAP_MORE \<noteq> 0"
    "snd_base page = rcv_offs - (pa_addr area + offset - start)"
    "snd_fpage page = l4_fpage start (of_nat n) (if flags AND L4DM_WRITE \<noteq> 0 then L4_FPAGE_RW else L4_FPAGE_RO) 0"
    "if flags AND L4DM_MAP_MORE \<noteq> 0 then max_size_area area offset rcv2 rcv_offs = Inr n
     else \<exists>k. max_size_at_offs area offset rcv2 rcv_offs = Inr k \<and> n = min k size2"
proof -
  let ?sz = "if flags AND L4DM_MAP_MORE \<noteq> 0 then max_size_area area offset rcv2 rcv_offs
    else bind_res (max_size_at_offs area offset rcv2 rcv_offs) (\<lambda>n. Inr (if n > size2 then size2 else n))"
  obtain n where n: "?sz = Inr n" using assms unfolding build_map_fpage_def Let_def by (auto simp: bind_res_Inr_iff)
  have lt: "n < 32" using assms unfolding build_map_fpage_def Let_def n by (auto simp: shl1_def split: if_splits)
  define start where "start = (pa_addr area + offset) AND NOT (push_bit n 1 - 1)"
  note r = assms [unfolded build_map_fpage_def Let_def n AREA_MAP_ADDR_id bind_res_simps shl1_def if_P [OF lt],
    folded start_def]
  have sz: "if flags AND L4DM_MAP_MORE \<noteq> 0 then max_size_area area offset rcv2 rcv_offs = Inr n
     else \<exists>k. max_size_at_offs area offset rcv2 rcv_offs = Inr k \<and> n = min k size2"
    using n by (auto simp: bind_res_Inr_iff min_def split: if_splits)
  show ?thesis
    by (rule that [OF lt start_def _ _ _ _ _ _ _ sz])
      (use r in \<open>auto simp: L4_FPAGE_MAP_def L4_EINVAL_def not_less split: if_splits\<close>)
qed

lemma build_fits:
  assumes ar: "area_ok area" and off: "4096 dvd unat offset" "offset < pa_size area"
    and rcv: "4096 dvd unat rcv_offs" "unat rcv_offs < 2 ^ rcv2" "12 \<le> rcv2" "12 \<le> size2"
    and more: "flags AND L4DM_MAP_MORE = 0 \<or> unat (pa_addr area) + unat (pa_size area) \<le> 2 ^ 31"
    and b: "build_map_fpage chk area offset size2 rcv2 rcv_offs flags fp = Inr (page, 0)"
  shows "\<exists>start n. fpage_fits area offset rcv2 rcv_offs page start n \<and> bit (snd_fpage page) 1 = (flags AND L4DM_WRITE \<noteq> 0) \<and>
    (size2 \<le> n \<or> flags AND L4DM_MAP_PARTIAL \<noteq> 0) \<and> (flags AND L4DM_MAP_MORE = 0 \<longrightarrow> start = pa_addr area + offset \<and> n \<le> size2)"
proof -
  obtain n start where s: "n < 32" "start = (pa_addr area + offset) AND NOT (push_bit n 1 - 1)" "12 \<le> n"
    "pa_addr area \<le> start" "start + push_bit n 1 \<le> pa_addr area + pa_size area" "size2 \<le> n \<or> flags AND L4DM_MAP_PARTIAL \<noteq> 0"
    "start \<noteq> pa_addr area + offset \<Longrightarrow> flags AND L4DM_MAP_MORE \<noteq> 0"
    "snd_base page = rcv_offs - (pa_addr area + offset - start)"
    "snd_fpage page = l4_fpage start (of_nat n) (if flags AND L4DM_WRITE \<noteq> 0 then L4_FPAGE_RW else L4_FPAGE_RO) 0"
    "if flags AND L4DM_MAP_MORE \<noteq> 0 then max_size_area area offset rcv2 rcv_offs = Inr n
     else \<exists>k. max_size_at_offs area offset rcv2 rcv_offs = Inr k \<and> n = min k size2"
    using build_success [OF b] by blast
  have lt: "unat offset < unat (pa_size area)" using off by (simp add: word_less_unat)
  have l: "unat (pa_addr area + offset) = unat (pa_addr area) + unat offset" using ar lt by (intro unat_add_lt) (simp add: area_ok_def)
  have e: "unat (pa_addr area + pa_size area) = unat (pa_addr area) + unat (pa_size area)"
    using ar by (intro unat_add_lt) (simp add: area_ok_def)
  have x: "unat (push_bit n 1 :: u32) = 2 ^ n" using s(1) unat_exp32 by simp
  have st: "unat (pa_addr area) \<le> unat start" using s(4) by (simp add: word_le_unat)
  have fin: "n \<le> rcv2 \<and> take_bit n (pa_addr area + offset) = take_bit n rcv_offs \<and> unat start + 2 ^ n < 2 ^ 32"
  proof (cases "flags AND L4DM_MAP_MORE = 0")
    case False
    then have m: "max_size_area area offset rcv2 rcv_offs = Inr n" using s(10) by simp
    have "unat start \<le> unat (pa_addr area + offset)" unfolding s(2) round_down_exp [OF s(1)] by simp
    then have "unat start < 2 ^ 31" using l lt more False by auto
    moreover have "(2 :: nat) ^ n \<le> 2 ^ 31" using s(1) by (intro power_increasing) simp_all
    ultimately show ?thesis using max_size_area_aligned [OF m] by simp
  next
    case True
    then obtain k where k: "max_size_at_offs area offset rcv2 rcv_offs = Inr k" "n = min k size2" using s(10) by auto
    from at_offs_ok [OF ar off rcv(1,3)] k(1) have d: "k \<le> rcv2" "2 ^ k dvd unat (pa_addr area + offset)" "2 ^ k dvd unat rcv_offs"
      "2 ^ k \<le> unat (pa_size area) - unat offset" by auto
    have nk: "(2 :: nat) ^ n dvd 2 ^ k" using k(2) by (intro le_imp_power_dvd) simp
    have "2 ^ n dvd unat (pa_addr area + offset)" "2 ^ n dvd unat rcv_offs" using nk d(2,3) by (blast intro: dvd_trans)+
    then have "take_bit n (pa_addr area + offset) = take_bit n rcv_offs" by (simp add: exp_dvd_take_bit)
    moreover have "unat start = unat (pa_addr area) + unat offset" using s(7) True l by auto
    moreover have "(2 :: nat) ^ n \<le> 2 ^ k" using nk by (rule dvd_imp_le) simp
    then have "2 ^ n \<le> unat (pa_size area) - unat offset" using d(4) by (rule order_trans)
    moreover have "unat (pa_addr area) + unat (pa_size area) < 2 ^ 32" using ar by (simp add: area_ok_def)
    moreover have "n \<le> rcv2" using d(1) k(2) by simp
    ultimately show ?thesis using lt by linarith
  qed
  then have "unat (start + push_bit n 1) = unat start + 2 ^ n" using x by (subst unat_add_lt) simp_all
  then have "unat start + 2 ^ n \<le> unat (pa_addr area) + unat (pa_size area)" using s(5) e by (simp add: word_le_unat)
  then have "fpage_fits area offset rcv2 rcv_offs page start n"
    using fits_intro [OF ar off rcv(2) s(3,1) _ _ s(2) st _ s(8,9)] fin by simp
  moreover have "bit (snd_fpage page) 1 = (flags AND L4DM_WRITE \<noteq> 0)" unfolding s(9) l4_fpage_write wr_bit ..
  moreover have "flags AND L4DM_MAP_MORE = 0 \<longrightarrow> start = pa_addr area + offset \<and> n \<le> size2" using s(7,10) by auto
  ultimately show ?thesis using s(6) by blast
qed

text \<open>Without \<open>L4DM_MAP_MORE\<close> the checks never fail.\<close>

lemma build_returns:
  assumes ar: "area_ok area" and off: "4096 dvd unat offset" "offset < pa_size area"
    and rcv: "4096 dvd unat rcv_offs" "12 \<le> rcv2" "12 \<le> size2" and more: "flags AND L4DM_MAP_MORE = 0"
  shows "\<exists>page r. build_map_fpage chk area offset size2 rcv2 rcv_offs flags fp = Inr (page, r) \<and> (r = 0 \<or> r = - L4_EINVAL)"
proof -
  obtain k where k: "max_size_at_offs area offset rcv2 rcv_offs = Inr k" "12 \<le> k" "k < 32" "2 ^ k dvd unat (pa_addr area + offset)"
    "2 ^ k \<le> unat (pa_size area) - unat offset" using at_offs_ok [OF ar off rcv(1,2)] by blast
  define n where "n = (if k > size2 then size2 else k)"
  have n: "n < 32" "12 \<le> n" "n \<le> k" using k rcv by (auto simp: n_def)
  have lt: "unat offset < unat (pa_size area)" using off by (simp add: word_less_unat)
  have l: "unat (pa_addr area + offset) = unat (pa_addr area) + unat offset" using ar lt by (intro unat_add_lt) (simp add: area_ok_def)
  have e: "unat (pa_addr area + pa_size area) = unat (pa_addr area) + unat (pa_size area)"
    using ar by (intro unat_add_lt) (simp add: area_ok_def)
  have nk: "(2 :: nat) ^ n dvd 2 ^ k" using n(3) by (rule le_imp_power_dvd)
  then have "2 ^ n dvd unat (pa_addr area + offset)" using k(4) by (rule dvd_trans)
  then have s: "(pa_addr area + offset) AND NOT (push_bit n 1 - 1) = pa_addr area + offset"
    using round_down_exp [OF n(1), of "pa_addr area + offset"] by (simp add: word_unat_eq_iff)
  have "(2 :: nat) ^ n \<le> 2 ^ k" using nk by (rule dvd_imp_le) simp
  then have le: "2 ^ n \<le> unat (pa_size area) - unat offset" using k(5) by (rule order_trans)
  have sm: "unat (pa_addr area) + unat (pa_size area) < 2 ^ 32" using ar by (simp add: area_ok_def)
  have x: "unat (push_bit n 1 :: u32) = 2 ^ n" using n(1) unat_exp32 by simp
  have "unat (pa_addr area + offset + push_bit n 1) = unat (pa_addr area) + unat offset + 2 ^ n"
    using l le lt sm x by (subst unat_add_lt) simp_all
  then have end_ok: "pa_addr area + offset + push_bit n 1 \<le> pa_addr area + pa_size area"
    unfolding word_le_unat e using le lt by linarith
  have start_ok: "pa_addr area \<le> pa_addr area + offset" unfolding word_le_unat l by simp
  show ?thesis
    unfolding build_map_fpage_def Let_def AREA_MAP_ADDR_id using more start_ok end_ok n
    by (auto simp: k(1) shl1_def s [simplified] not_less simp flip: n_def)
qed

definition demo_area :: page_area where
  "demo_area = \<lparr>pa_addr = 0x204000, pa_size = 0x3000, pa_flags = 1, pa_ds_next = 0\<rparr>"

text \<open>C18: the flexpage that a client gets for a page of a dataspace lies inside the page area, is aligned to its size,
  holds the page asked for and lands in the receive window so that this page comes to the offset asked for. It is
  writable exactly when write access was asked for, and it has the size asked for unless smaller ones are allowed.
  Without \<open>L4DM_MAP_MORE\<close> the request is always answered: the checks of the calculation never stop the server. (With
  \<open>L4DM_MAP_MORE\<close> they can; the area is then taken to lie below 2 GB, beyond that the checks themselves wrap around.)\<close>

theorem build_map_fpage_inside:
  assumes "area_ok area" "4096 dvd unat offset" "offset < pa_size area"
    and "4096 dvd unat rcv_offs" "unat rcv_offs < 2 ^ rcv2" "12 \<le> rcv2" "12 \<le> size2"
  shows "(flags AND L4DM_MAP_MORE = 0 \<longrightarrow>
      (\<exists>page r. build_map_fpage chk area offset size2 rcv2 rcv_offs flags fp = Inr (page, r) \<and> (r = 0 \<or> r = - L4_EINVAL))) \<and>
    (\<forall>page. build_map_fpage chk area offset size2 rcv2 rcv_offs flags fp = Inr (page, 0) \<and>
      (flags AND L4DM_MAP_MORE = 0 \<or> unat (pa_addr area) + unat (pa_size area) \<le> 2 ^ 31) \<longrightarrow>
      (\<exists>start n. fpage_fits area offset rcv2 rcv_offs page start n \<and> bit (snd_fpage page) 1 = (flags AND L4DM_WRITE \<noteq> 0) \<and>
        (size2 \<le> n \<or> flags AND L4DM_MAP_PARTIAL \<noteq> 0) \<and> (flags AND L4DM_MAP_MORE = 0 \<longrightarrow> start = pa_addr area + offset \<and> n \<le> size2)))"
  using build_returns [OF assms(1-4,6,7)] build_fits [OF assms] by blast

theorem build_map_fpage_inside_witness:
  "\<exists>start n. fpage_fits demo_area 0x2000 22 0x6000
     \<lparr>snd_base = 0x6000, snd_fpage = l4_fpage 0x206000 12 L4_FPAGE_RW L4_FPAGE_MAP\<rparr> start n \<and> start = 0x206000 \<and> n \<le> 12"
proof -
  have b: "build_map_fpage (\<lambda>_ _ _. True) demo_area 0x2000 12 22 0x6000 L4DM_WRITE dummy_fpage =
      Inr (\<lparr>snd_base = 0x6000, snd_fpage = l4_fpage 0x206000 12 L4_FPAGE_RW L4_FPAGE_MAP\<rparr>, 0)"
    by code_simp
  have "area_ok demo_area" "(0x2000 :: u32) < pa_size demo_area" by (simp_all add: area_ok_def demo_area_def)
  then have "\<exists>start n. fpage_fits demo_area 0x2000 22 0x6000 \<lparr>snd_base = 0x6000, snd_fpage = l4_fpage 0x206000 12 L4_FPAGE_RW L4_FPAGE_MAP\<rparr> start n \<and>
      start = pa_addr demo_area + 0x2000 \<and> n \<le> 12"
    using build_map_fpage_inside [of demo_area "0x2000" "0x6000" 22 12 L4DM_WRITE "\<lambda>_ _ _. True" dummy_fpage] b
    by (fastforce simp: L4DM_WRITE_def L4DM_MAP_MORE_def)
  then show ?thesis by (simp add: demo_area_def)
qed

text \<open>\<open>__max_size\<close> calls \<open>__max_addr_align (local_addr, area_end)\<close> where its comment has \<open>local_addr + PAGESIZE\<close>: the
  last page of an area that is aligned to more than its size gives a flexpage that leaves the area, and the check that
  finds this ends the server. A client asks for one page of its dataspace of one page with \<open>L4DM_MAP_MORE\<close>.\<close>

lemma map_more_stops_server:
  "build_map_fpage (\<lambda>_ _ _. True) \<lparr>pa_addr = 0x204000, pa_size = 0x1000, pa_flags = 1, pa_ds_next = 0\<rparr> 0 12 22 0
     (L4DM_READ OR L4DM_MAP_MORE) dummy_fpage = Inl Panic"
  by code_simp

text \<open>At the end of the address space the sum of the check wraps around: memory outside of the area is mapped.\<close>

lemma map_more_wraps:
  "\<exists>page. build_map_fpage (\<lambda>_ _ _. True) \<lparr>pa_addr = 0xFFFF0000, pa_size = 0x1000, pa_flags = 1, pa_ds_next = 0\<rparr> 0 12 22 0
     (L4DM_READ OR L4DM_MAP_MORE) dummy_fpage = Inr (page, 0) \<and> fp_size (snd_fpage page) = 16"
proof -
  have "build_map_fpage (\<lambda>_ _ _. True) \<lparr>pa_addr = 0xFFFF0000, pa_size = 0x1000, pa_flags = 1, pa_ds_next = 0\<rparr> 0 12 22 0
     (L4DM_READ OR L4DM_MAP_MORE) dummy_fpage = Inr (\<lparr>snd_base = 0, snd_fpage = l4_fpage 0xFFFF0000 16 0 0\<rparr>, 0)"
    by code_simp
  then show ?thesis by (simp add: fp_size_l4_fpage)
qed


section \<open>Unmapping\<close>

definition area_range :: "page_area \<Rightarrow> nat set" where
  "area_range a = {unat (pa_addr a) ..< unat (pa_addr a) + unat (pa_size a)}"

lemma unmap_area_ok:
  assumes "area_ok a"
  shows "\<exists>l. unmap_area (pa_addr a) (pa_size a) = Some l \<and> (\<Union>(b, k) \<in> set l. {unat b ..< unat b + 2 ^ k}) = area_range a \<and>
    (\<forall>(b, k) \<in> set l. 12 \<le> k \<and> 2 ^ k dvd unat b)"
proof -
  have "unat (pa_addr a) + unat (pa_size a) \<le> 2 ^ 32" "2 ^ 12 dvd unat (pa_addr a)" "2 ^ 12 dvd unat (pa_size a)"
    using assms by (simp_all add: area_ok_def)
  then show ?thesis using unmap_loop_ok [of "pa_addr a" "pa_size a"] by (auto simp: unmap_area_def area_range_def)
qed

lemma unmap_areas_ok:
  "ds_chain m p qs \<Longrightarrow> (\<And>q. q \<in> set qs \<Longrightarrow> area_ok (m q)) \<Longrightarrow>
   \<exists>l. dmphys_unmap_areas m p = Some l \<and> (\<Union>(b, k) \<in> set l. {unat b ..< unat b + 2 ^ k}) = (\<Union>q \<in> set qs. area_range (m q)) \<and>
     (\<forall>(b, k) \<in> set l. 12 \<le> k \<and> 2 ^ k dvd unat b)"
proof (induction qs arbitrary: p)
  case Nil
  then show ?case by (simp add: dmphys_unmap_areas.simps)
next
  case (Cons q qs)
  obtain l where l: "unmap_area (pa_addr (m q)) (pa_size (m q)) = Some l"
    "(\<Union>(b, k) \<in> set l. {unat b ..< unat b + 2 ^ k}) = area_range (m q)" "\<forall>(b, k) \<in> set l. 12 \<le> k \<and> 2 ^ k dvd unat b"
    using unmap_area_ok Cons.prems(2) by (meson list.set_intros(1))
  obtain l' where l': "dmphys_unmap_areas m (pa_ds_next (m q)) = Some l'"
    "(\<Union>(b, k) \<in> set l'. {unat b ..< unat b + 2 ^ k}) = (\<Union>q \<in> set qs. area_range (m q))" "\<forall>(b, k) \<in> set l'. 12 \<le> k \<and> 2 ^ k dvd unat b"
    using Cons.IH [of "pa_ds_next (m q)"] Cons.prems by auto
  have "dmphys_unmap_areas m p = Some (l @ l')" using Cons.prems(1) l(1) l'(1) by (simp add: dmphys_unmap_areas.simps [of m q])
  then show ?case using l l' by auto
qed

end
