(* ===== verification/DmPages.thy ===== *)
theory DmPages
  imports DmMap Slab
begin

text \<open>
  Page pools of the dataspace manager (\<open>dm_phys/server/src/pages.c\<close>) and the memory for its descriptors
  (\<open>internal_alloc.c\<close>). The sequential list of the areas of a pool and its free lists are lists of addresses of
  descriptors in link order, so that the neighbours of an area are its \<open>area_prev\<close> and \<open>area_next\<close>. Descriptors come from
  the slab cache \<open>area_cache\<close>, whose callbacks are \<open>dmphys_internal_alloc_grow\<close> and \<open>dmphys_internal_alloc_release\<close>: pages
  of the internal pool. Releasing a descriptor may give pages back to the internal pool, and what has no place there goes
  to the table \<open>freed_areas\<close> (here a list, the last entry first), from where the areas are released to the default pool.
  The contents of the memory are \<open>dm_mem\<close>.
\<close>

section \<open>State\<close>

record page_pool =
  pp_name :: "string option"
  pp_size :: u32
  pp_free :: u32
  pp_reserved :: u32
  pp_areas :: "l4_addr_t list"
  pp_lists :: "nat \<Rightarrow> l4_addr_t list"

record int_pool =
  ip_available :: bool
  ip_map_addr :: l4_addr_t
  ip_area :: l4_addr_t

record dm_state =
  dm_area :: area_mem
  dm_pools :: "nat \<Rightarrow> page_pool"
  dm_cache :: "slab_cache option"
  dm_int :: "nat \<Rightarrow> int_pool"
  dm_num_free :: int
  dm_update :: bool
  dm_freed :: "l4_addr_t list"
  dm_mem :: "l4_addr_t \<Rightarrow> u8"

definition POOL_SIZE :: nat where "POOL_SIZE = DMPHYS_INT_POOL_INITIAL + DMPHYS_INT_POOL_MAX_ALLOC"
definition PAGES_USER :: int where [l4_const]: "PAGES_USER = 0"
definition PAGES_INTERNAL :: int where [l4_const]: "PAGES_INTERNAL = 1"
definition sizeof_page_area :: u32 where [l4_const]: "sizeof_page_area = 32"

definition set_area :: "l4_addr_t \<Rightarrow> (page_area \<Rightarrow> page_area) \<Rightarrow> dm_state \<Rightarrow> dm_state" where
  "set_area p f s = s\<lparr>dm_area := (dm_area s)(p := f (dm_area s p))\<rparr>"

definition set_pool :: "nat \<Rightarrow> (page_pool \<Rightarrow> page_pool) \<Rightarrow> dm_state \<Rightarrow> dm_state" where
  "set_pool k f s = s\<lparr>dm_pools := (dm_pools s)(k := f (dm_pools s k))\<rparr>"

section \<open>The internal memory pool\<close>

definition int_allocate :: "dm_state \<Rightarrow> (dm_state \<times> l4_addr_t \<times> l4_addr_t) res" where
  "int_allocate s =
     (case first_index (\<lambda>i. ip_available (dm_int s i)) 0 POOL_SIZE of
        None \<Rightarrow> Inl Panic
      | Some i \<Rightarrow>
          (let e = dm_int s i;
               e' = (if ip_area e = 0 then e\<lparr>ip_available := False\<rparr> else \<lparr>ip_available = False, ip_map_addr = - 1, ip_area = 0\<rparr>)
           in Inr (s\<lparr>dm_int := (dm_int s)(i := e'), dm_num_free := dm_num_free s - 1\<rparr>, ip_map_addr e, ip_area e)))"

definition int_release :: "l4_addr_t \<Rightarrow> l4_addr_t \<Rightarrow> dm_state \<Rightarrow> dm_state" where
  "int_release page area s =
     (if area \<noteq> 0
      then (case first_index (\<lambda>i. ip_map_addr (dm_int s i) = - 1) DMPHYS_INT_POOL_INITIAL DMPHYS_INT_POOL_MAX_ALLOC of
              Some i \<Rightarrow>
                s\<lparr>dm_int := (dm_int s)(i := \<lparr>ip_available = True, ip_map_addr = AREA_MAP_ADDR (dm_area s area), ip_area = area\<rparr>),
                  dm_num_free := dm_num_free s + 1\<rparr>
            | None \<Rightarrow> if DMPHYS_INT_MAX_FREED \<le> length (dm_freed s) then s else s\<lparr>dm_freed := area # dm_freed s\<rparr>)
      else (case first_index (\<lambda>i. ip_map_addr (dm_int s i) = page) 0 DMPHYS_INT_POOL_INITIAL of
              Some i \<Rightarrow>
                s\<lparr>dm_int := (dm_int s)(i := (dm_int s i)\<lparr>ip_available := True\<rparr>), dm_num_free := dm_num_free s + 1\<rparr>
            | None \<Rightarrow> s))"

text \<open>The callbacks of the slab caches and of the dataspace manager library.\<close>

definition dmphys_internal_alloc_grow :: "dm_state \<Rightarrow> (dm_state \<times> l4_addr_t \<times> l4_addr_t) res" where
  "dmphys_internal_alloc_grow s = int_allocate s"

definition dmphys_internal_alloc_release :: "l4_addr_t \<Rightarrow> l4_addr_t \<Rightarrow> dm_state \<Rightarrow> dm_state" where
  "dmphys_internal_alloc_release page area s = int_release page area s"

definition dmphys_internal_allocate :: "dm_state \<Rightarrow> (dm_state \<times> l4_addr_t \<times> l4_addr_t) res" where
  "dmphys_internal_allocate s = int_allocate s"

definition dmphys_internal_release :: "l4_addr_t \<Rightarrow> l4_addr_t \<Rightarrow> dm_state \<Rightarrow> dm_state" where
  "dmphys_internal_release page area s = int_release page area s"

section \<open>Area descriptors\<close>

text \<open>The cache calls its grow callback when it has no free object; a null pointer is no memory.\<close>

definition needs_grow :: "slab_cache option \<Rightarrow> bool" where
  "needs_grow cache = (case cache of None \<Rightarrow> False | Some c \<Rightarrow> sc_part c = [] \<and> sc_free c = [] \<and> sc_grow_fn c)"

definition alloc_area_desc :: "dm_state \<Rightarrow> (dm_state \<times> l4_addr_t) res" where
  "alloc_area_desc s =
     bind_res (if needs_grow (dm_cache s)
               then bind_res (dmphys_internal_alloc_grow s) (\<lambda>(s1, page, area). Inr (s1, if page = 0 then None else Some (page, area)))
               else Inr (s, None)) (\<lambda>(s1, g).
     bind_res (l4slab_alloc g (dm_cache s1)) (\<lambda>(c, pa).
       if pa = 0 then Inl Panic else Inr (s1\<lparr>dm_cache := c\<rparr>, pa)))"

text \<open>The release callback runs for the slabs that the cache gives up, in this order.\<close>

definition forget_released :: "slab_cache option \<Rightarrow> slab_cache option" where
  "forget_released cache = map_option (\<lambda>c. c\<lparr>sc_released := []\<rparr>) cache"

definition released :: "slab_cache option \<Rightarrow> (l4_addr_t \<times> u32) list" where
  "released cache = (case cache of None \<Rightarrow> [] | Some c \<Rightarrow> rev (sc_released c))"

definition release_area_desc :: "l4_addr_t \<Rightarrow> dm_state \<Rightarrow> dm_state res" where
  "release_area_desc area s =
     bind_res (l4slab_free (forget_released (dm_cache s)) area) (\<lambda>c.
       Inr (fold (\<lambda>(page, d). dmphys_internal_alloc_release page d) (released c) (s\<lparr>dm_cache := forget_released c\<rparr>)))"

section \<open>Alignment\<close>

definition max_alignment :: "l4_addr_t \<Rightarrow> u32 \<Rightarrow> u32" where
  "max_alignment addr sz =
     (case l4util_bsr sz of
        None \<Rightarrow> 0
      | Some m \<Rightarrow>
          (let alignment = push_bit m 1; offs_mask = alignment - 1 in
           if addr AND offs_mask \<noteq> 0 \<and> alignment + (alignment - (addr AND offs_mask)) > sz then drop_bit 1 alignment else alignment))"

definition dm_round_up :: "u32 \<Rightarrow> u32 \<Rightarrow> u32" where
  "dm_round_up val alignment = (val + alignment - 1) AND NOT (alignment - 1)"

definition dm_round_down :: "u32 \<Rightarrow> u32 \<Rightarrow> u32" where
  "dm_round_down val alignment = val AND NOT (alignment - 1)"

definition aligned_size :: "page_area \<Rightarrow> u32 \<Rightarrow> u32" where
  "aligned_size area alignment =
     (let offs_begin = dm_round_up (pa_addr area) alignment - pa_addr area in
      if offs_begin > pa_size area then 0
      else (let offs_end = pa_addr area + pa_size area - dm_round_down (pa_addr area + pa_size area) alignment in
            if offs_end > pa_size area then 0 else pa_size area - offs_begin - offs_end))"

text \<open>\<open>None\<close>: the bit scan of 0 has no result.\<close>

definition get_free_list :: "u32 \<Rightarrow> nat option" where
  "get_free_list sz =
     (case l4util_bsr sz of
        None \<Rightarrow> None
      | Some b \<Rightarrow> Some (let i = int b - int DMPHYS_LOG2_PAGESIZE in
          if i < 0 then 0 else if int DMPHYS_NUM_FREE_LISTS \<le> i then DMPHYS_NUM_FREE_LISTS - 1 else nat i))"

section \<open>Area list and free lists\<close>

definition area_end :: "area_mem \<Rightarrow> l4_addr_t \<Rightarrow> l4_addr_t" where "area_end m p = pa_addr (m p) + pa_size (m p)"

definition add_area :: "nat \<Rightarrow> l4_addr_t \<Rightarrow> dm_state \<Rightarrow> dm_state res" where
  "add_area k area s =
     (let m = dm_area s; start = pa_addr (m area); end' = area_end m area in
      case pp_areas (dm_pools s k) of
        [] \<Rightarrow> Inr (set_pool k (pp_areas_update (\<lambda>_. [area])) s)
      | q # qs \<Rightarrow>
          if end' \<le> pa_addr (m q) then Inr (set_pool k (pp_areas_update (\<lambda>_. area # q # qs)) s)
          else (let before = takeWhile (\<lambda>r. pa_addr (m r) < start) qs; after = dropWhile (\<lambda>r. pa_addr (m r) < start) qs;
                    pa = last (q # before) in
                if area_end m pa > start \<or> after \<noteq> [] \<and> end' > pa_addr (m (hd after)) then Inl Panic
                else Inr (set_pool k (pp_areas_update (\<lambda>_. q # before @ area # after)) s)))"

definition remove_area :: "nat \<Rightarrow> l4_addr_t \<Rightarrow> dm_state \<Rightarrow> dm_state res" where
  "remove_area k area s =
     (if area \<in> set (pp_areas (dm_pools s k)) then Inr (set_pool k (\<lambda>P. P\<lparr>pp_areas := remove1 area (pp_areas P)\<rparr>) s) else Inl Undefined)"

definition add_free :: "nat \<Rightarrow> l4_addr_t \<Rightarrow> dm_state \<Rightarrow> dm_state res" where
  "add_free k area s =
     (let m = dm_area s; sz = pa_size (m area) in
      case get_free_list sz of
        None \<Rightarrow> Inl Undefined
      | Some num \<Rightarrow>
          (let l = pp_lists (dm_pools s k) num;
               l' = (case l of
                       [] \<Rightarrow> [area]
                     | q # qs \<Rightarrow>
                         if pa_size (m q) > sz then area # q # qs
                         else q # takeWhile (\<lambda>r. pa_size (m r) < sz) qs @ area # dropWhile (\<lambda>r. pa_size (m r) < sz) qs) in
           Inr (set_pool k (\<lambda>P. P\<lparr>pp_free := pp_free P + sz, pp_lists := (pp_lists P)(num := l')\<rparr>) s)))"

definition remove_free :: "nat \<Rightarrow> l4_addr_t \<Rightarrow> dm_state \<Rightarrow> dm_state res" where
  "remove_free k area s =
     (let sz = pa_size (dm_area s area) in
      case get_free_list sz of
        None \<Rightarrow> Inl Undefined
      | Some num \<Rightarrow>
          if area \<in> set (pp_lists (dm_pools s k) num)
          then Inr (set_pool k (\<lambda>P. P\<lparr>pp_free := pp_free P - sz, pp_lists := (pp_lists P)(num := remove1 area (pp_lists P num))\<rparr>) s)
          else Inl Undefined)"

definition add_free_area :: "nat \<Rightarrow> l4_addr_t \<Rightarrow> u32 \<Rightarrow> dm_state \<Rightarrow> dm_state res" where
  "add_free_area k addr sz s =
     bind_res (alloc_area_desc s) (\<lambda>(s1, area).
     bind_res (add_area k area (set_area area (\<lambda>_. SET_AREA_UNUSED \<lparr>pa_addr = addr, pa_size = sz, pa_flags = 0, pa_ds_next = 0\<rparr>) s1)) (\<lambda>s2.
       add_free k area s2))"

definition add_rest :: "nat \<Rightarrow> l4_addr_t \<Rightarrow> u32 \<Rightarrow> dm_state \<Rightarrow> dm_state res" where
  "add_rest k addr sz s = (if sz > 0 then add_free_area k addr sz s else Inr s)"

definition split_at_beginning :: "page_area \<Rightarrow> u32 \<Rightarrow> u32 \<Rightarrow> bool" where
  "split_at_beginning a sz alignment =
     (let addr = pa_addr a; end' = pa_addr a + pa_size a;
          addr_sb = (addr + alignment - 1) AND NOT (alignment - 1);
          sb_size_b = addr_sb - addr; sb_addr_e = addr_sb + sz; sb_size_e = end' - sb_addr_e;
          sb_max_b = max_alignment addr sb_size_b; sb_max_e = max_alignment sb_addr_e sb_size_e;
          sb_max = (if sb_max_b > sb_max_e then sb_max_b else sb_max_e);
          sb_size = (if sb_size_b > sb_size_e then sb_size_b else sb_size_e);
          addr_se = (end' - sz) AND NOT (alignment - 1);
          se_size_b = addr_se - addr; se_addr_e = addr_se + sz; se_size_e = end' - se_addr_e;
          se_max_b = max_alignment addr se_size_b; se_max_e = max_alignment se_addr_e se_size_e;
          se_max = (if se_max_b > se_max_e then se_max_b else se_max_e);
          se_size = (if se_size_b > se_size_e then se_size_b else se_size_e)
      in if sb_max > se_max then True else if sb_max < se_max then False else sb_size \<ge> se_size)"

definition split_area :: "nat \<Rightarrow> l4_addr_t \<Rightarrow> u32 \<Rightarrow> u32 \<Rightarrow> dm_state \<Rightarrow> dm_state res" where
  "split_area k area sz alignment s =
     (let a = dm_area s area; addr = pa_addr a; end' = pa_addr a + pa_size a;
          addr' = (if split_at_beginning a sz alignment then (addr + alignment - 1) AND NOT (alignment - 1)
                   else (end' - sz) AND NOT (alignment - 1)) in
      bind_res (add_rest k addr (addr' - addr) (set_area area (\<lambda>a. a\<lparr>pa_addr := addr', pa_size := sz\<rparr>) s)) (\<lambda>s1.
        add_rest k (addr' + sz) (end' - (addr' + sz)) s1))"

section \<open>Releasing\<close>

text \<open>The area before and the area behind an area in the list of the pool.\<close>

fun area_prev :: "l4_addr_t list \<Rightarrow> l4_addr_t \<Rightarrow> l4_addr_t option" where
  "area_prev (p # q # qs) a = (if q = a then Some p else area_prev (q # qs) a)"
| "area_prev _ a = None"

fun area_next :: "l4_addr_t list \<Rightarrow> l4_addr_t \<Rightarrow> l4_addr_t option" where
  "area_next (p # q # qs) a = (if p = a then Some q else area_next (q # qs) a)"
| "area_next _ a = None"

definition merge_prev :: "nat \<Rightarrow> l4_addr_t \<Rightarrow> dm_state \<Rightarrow> dm_state res" where
  "merge_prev k area s =
     (case area_prev (pp_areas (dm_pools s k)) area of
        None \<Rightarrow> Inr s
      | Some pa \<Rightarrow>
          if IS_UNUSED_AREA (dm_area s pa) \<and> area_end (dm_area s) pa = pa_addr (dm_area s area)
          then bind_res (remove_free k pa s) (\<lambda>s1.
               bind_res (remove_area k pa s1) (\<lambda>s2.
                 release_area_desc pa
                   (set_area area (\<lambda>a. a\<lparr>pa_addr := pa_addr (dm_area s2 pa), pa_size := pa_size a + pa_size (dm_area s2 pa)\<rparr>) s2)))
          else Inr s)"

definition merge_next :: "nat \<Rightarrow> l4_addr_t \<Rightarrow> dm_state \<Rightarrow> dm_state res" where
  "merge_next k area s =
     (case area_next (pp_areas (dm_pools s k)) area of
        None \<Rightarrow> Inr s
      | Some pa \<Rightarrow>
          if IS_UNUSED_AREA (dm_area s pa) \<and> area_end (dm_area s) area = pa_addr (dm_area s pa)
          then bind_res (remove_free k pa s) (\<lambda>s1.
               bind_res (remove_area k pa s1) (\<lambda>s2.
                 release_area_desc pa (set_area area (\<lambda>a. a\<lparr>pa_size := pa_size a + pa_size (dm_area s2 pa)\<rparr>) s2)))
          else Inr s)"

text \<open>\<open>__release_area\<close> up to its call of \<open>dmphys_internal_alloc_update_free\<close>.\<close>

definition release_merge :: "nat \<Rightarrow> l4_addr_t \<Rightarrow> dm_state \<Rightarrow> dm_state res" where
  "release_merge k area s =
     bind_res (merge_prev k area (set_area area (\<lambda>a. (SET_AREA_UNUSED a)\<lparr>pa_ds_next := 0\<rparr>) s)) (\<lambda>s1.
     bind_res (merge_next k area s1) (\<lambda>s2. add_free k area s2))"

text \<open>
  \<open>__release_area\<close>, \<open>dmphys_pages_release\<close> and \<open>dmphys_internal_alloc_update_free\<close> call each other; the calls that are still to
  be made are a stack: one area, the rest of a list of areas, or the rest of the table of freed areas.
\<close>

datatype release_call = Release_area nat l4_addr_t | Pages_release nat l4_addr_t | Update_free

partial_function (option) run_release :: "release_call list \<Rightarrow> dm_state \<Rightarrow> dm_state res option" where
  "run_release calls s =
     (case calls of
        [] \<Rightarrow> Some (Inr s)
      | Release_area k area # cs \<Rightarrow>
          (case release_merge k area s of
             Inl e \<Rightarrow> Some (Inl e)
           | Inr s1 \<Rightarrow> run_release (Update_free # cs) s1)
      | Pages_release k areas # cs \<Rightarrow>
          if areas = 0 then run_release cs s
          else run_release (Release_area k areas # Pages_release k (pa_ds_next (dm_area s areas)) # cs) s
      | Update_free # cs \<Rightarrow>
          (case dm_freed s of
             [] \<Rightarrow> run_release cs s
           | pa # fs \<Rightarrow> run_release (Pages_release DMPHYS_MEM_DEFAULT_POOL pa # Update_free # cs) (s\<lparr>dm_freed := fs\<rparr>)))"

definition loop_res :: "'a res option \<Rightarrow> 'a res" where
  "loop_res r = (case r of None \<Rightarrow> Inl Diverge | Some x \<Rightarrow> x)"

definition release_area :: "nat \<Rightarrow> l4_addr_t \<Rightarrow> dm_state \<Rightarrow> dm_state res" where
  "release_area k area s = loop_res (run_release [Release_area k area] s)"

definition dmphys_internal_alloc_update_free :: "dm_state \<Rightarrow> dm_state res" where
  "dmphys_internal_alloc_update_free s = loop_res (run_release [Update_free] s)"

definition dmphys_pages_release :: "nat option \<Rightarrow> l4_addr_t \<Rightarrow> dm_state \<Rightarrow> dm_state res" where
  "dmphys_pages_release pool areas s =
     (case pool of None \<Rightarrow> Inr s | Some k \<Rightarrow> loop_res (run_release [Pages_release k areas] s))"

section \<open>Allocating\<close>

definition set_used :: "l4_addr_t \<Rightarrow> dm_state \<Rightarrow> dm_state" where
  "set_used p s = set_area p SET_AREA_USED s"

text \<open>The two loops of \<open>__find_single_area\<close>: the free lists from \<open>num\<close> on, and the areas of a list.\<close>

definition find_single_area :: "nat \<Rightarrow> u32 \<Rightarrow> u32 \<Rightarrow> dm_state \<Rightarrow> (dm_state \<times> l4_addr_t) res" where
  "find_single_area k sz alignment s =
     (case get_free_list sz of
        None \<Rightarrow> Inl Undefined
      | Some num \<Rightarrow>
          (case List.find (\<lambda>pa. sz \<le> aligned_size (dm_area s pa) alignment)
                  (concat (map (pp_lists (dm_pools s k)) [num ..< DMPHYS_NUM_FREE_LISTS])) of
             None \<Rightarrow> Inr (s, 0)
           | Some pa \<Rightarrow>
               bind_res (remove_free k pa s) (\<lambda>s1.
               bind_res (split_area k pa sz alignment s1) (\<lambda>s2.
                 Inr (set_used pa s2, pa)))))"

text \<open>The first free list from \<open>list\<close> on whose first area has place for an aligned piece.\<close>

definition take_first_area :: "nat \<Rightarrow> u32 \<Rightarrow> u32 \<Rightarrow> nat \<Rightarrow> dm_state \<Rightarrow> (dm_state \<times> l4_addr_t) res" where
  "take_first_area k sz alignment start s =
     (case first_index (\<lambda>i. pp_lists (dm_pools s k) i \<noteq> [] \<and> aligned_size (dm_area s (hd (pp_lists (dm_pools s k) i))) alignment \<noteq> 0)
            start (DMPHYS_NUM_FREE_LISTS - start) of
        None \<Rightarrow> Inr (s, 0)
      | Some i \<Rightarrow>
          (let pa = hd (pp_lists (dm_pools s k) i); pa_size_with_alignment = aligned_size (dm_area s pa) alignment in
           bind_res (remove_free k pa s) (\<lambda>s1.
           bind_res (if pa_size_with_alignment > sz then split_area k pa sz alignment s1
                     else if pa_size_with_alignment \<noteq> pa_size (dm_area s1 pa) then split_area k pa pa_size_with_alignment alignment s1
                     else Inr s1) (\<lambda>s2.
             Inr (set_used pa s2, pa)))))"

definition first_list :: "u32 \<Rightarrow> nat \<Rightarrow> nat option" where
  "first_list sz n =
     (case (get_free_list sz, l4util_bsr (of_nat n)) of
        (Some l, Some b) \<Rightarrow> Some (if l < b then 0 else l - b)
      | _ \<Rightarrow> None)"

text \<open>The loop of \<open>__allocate_pages\<close>: \<open>n\<close> areas may still be taken, \<open>pl\<close> is the list of the areas taken, \<open>sz\<close> is what
  is missing.\<close>

fun allocate_loop :: "nat \<Rightarrow> nat \<Rightarrow> u32 \<Rightarrow> l4_addr_t \<Rightarrow> u32 \<Rightarrow> dm_state \<Rightarrow> (dm_state \<times> l4_addr_t \<times> u32) res" where
  "allocate_loop k 0 alignment pl sz s = Inr (s, pl, sz)"
| "allocate_loop k (Suc n) alignment pl sz s =
     (if sz = 0 then Inr (s, pl, sz)
      else if n = 0
      then bind_res (find_single_area k sz alignment s) (\<lambda>(s1, pa).
             if pa = 0 then Inr (s1, pl, sz)
             else Inr (set_area pa (\<lambda>a. a\<lparr>pa_ds_next := pl\<rparr>) s1, pa, sz - pa_size (dm_area s1 pa)))
      else (case first_list sz (Suc n) of
              None \<Rightarrow> Inl Undefined
            | Some start \<Rightarrow>
                bind_res (take_first_area k sz alignment start s) (\<lambda>(s1, pa).
                  if pa = 0 then Inr (s1, pl, sz)
                  else allocate_loop k n alignment pa (sz - pa_size (dm_area s1 pa)) (set_area pa (\<lambda>a. a\<lparr>pa_ds_next := pl\<rparr>) s1))))"

definition allocate_pages :: "nat \<Rightarrow> u32 \<Rightarrow> nat \<Rightarrow> u32 \<Rightarrow> dm_state \<Rightarrow> (dm_state \<times> l4_addr_t) res" where
  "allocate_pages k sz max_areas alignment s =
     bind_res (allocate_loop k max_areas alignment 0 sz s) (\<lambda>(s1, pl, rest).
       if rest > 0 then bind_res (dmphys_pages_release (Some k) pl s1) (\<lambda>s2. Inr (s2, 0)) else Inr (s1, pl))"

definition allocate_area :: "nat \<Rightarrow> l4_addr_t \<Rightarrow> u32 \<Rightarrow> dm_state \<Rightarrow> (dm_state \<times> l4_addr_t) res" where
  "allocate_area k addr sz s =
     (case dropWhile (\<lambda>p. area_end (dm_area s) p \<le> addr) (pp_areas (dm_pools s k)) of
        [] \<Rightarrow> Inr (s, 0)
      | pa # _ \<Rightarrow>
          (let a = dm_area s pa; end' = area_end (dm_area s) pa in
           if addr < pa_addr a then Inr (s, 0)
           else if addr + sz > end' then Inr (s, 0)
           else if IS_USED_AREA a then Inr (s, 0)
           else bind_res (remove_free k pa s) (\<lambda>s1.
                bind_res (if addr > pa_addr a
                          then add_free_area k (pa_addr a) (addr - pa_addr a)
                                 (set_area pa (\<lambda>a. a\<lparr>pa_addr := addr, pa_size := pa_size a - (addr - pa_addr a)\<rparr>) s1)
                          else Inr s1) (\<lambda>s2.
                bind_res (if addr + sz < area_end (dm_area s2) pa
                          then add_free_area k (addr + sz) (area_end (dm_area s2) pa - (addr + sz))
                                 (set_area pa (\<lambda>a. a\<lparr>pa_size := sz\<rparr>) s2)
                          else Inr s2) (\<lambda>s3.
                  Inr (set_used pa s3, pa))))))"

text \<open>\<open>memset\<close> to 0 of the memory of an area, and of the areas of a list.\<close>

definition clear_area :: "page_area \<Rightarrow> (l4_addr_t \<Rightarrow> u8) \<Rightarrow> l4_addr_t \<Rightarrow> u8" where
  "clear_area a mem = (\<lambda>x. if x - AREA_MAP_ADDR a < pa_size a then 0 else mem x)"

partial_function (option) pages_clear_loop :: "area_mem \<Rightarrow> l4_addr_t \<Rightarrow> (l4_addr_t \<Rightarrow> u8) \<Rightarrow> (l4_addr_t \<Rightarrow> u8) option" where
  "pages_clear_loop m area mem = (if area \<noteq> 0 then pages_clear_loop m (pa_ds_next (m area)) (clear_area (m area) mem) else Some mem)"

definition dmphys_pages_clear :: "l4_addr_t \<Rightarrow> dm_state \<Rightarrow> dm_state res" where
  "dmphys_pages_clear area s =
     (case pages_clear_loop (dm_area s) area (dm_mem s) of None \<Rightarrow> Inl Diverge | Some mem \<Rightarrow> Inr (s\<lparr>dm_mem := mem\<rparr>))"

definition enlarge_area :: "nat \<Rightarrow> l4_addr_t \<Rightarrow> u32 \<Rightarrow> dm_state \<Rightarrow> (dm_state \<times> int) res" where
  "enlarge_area k area sz s =
     (case area_next (pp_areas (dm_pools s k)) area of
        None \<Rightarrow> Inr (s, -1)
      | Some pa \<Rightarrow>
          if IS_USED_AREA (dm_area s pa) then Inr (s, -1)
          else if area_end (dm_area s) area \<noteq> pa_addr (dm_area s pa) then Inr (s, -1)
          else if sz > pa_size (dm_area s pa) then Inr (s, -1)
          else bind_res (remove_free k pa s) (\<lambda>s1.
               bind_res (remove_area k pa s1) (\<lambda>s2.
               bind_res (dmphys_pages_clear pa s2) (\<lambda>s3.
                 let s4 = set_area area (\<lambda>a. a\<lparr>pa_size := pa_size a + sz\<rparr>) s3;
                     s5 = set_area pa (\<lambda>a. a\<lparr>pa_addr := pa_addr a + sz, pa_size := pa_size a - sz\<rparr>) s4 in
                 bind_res (if pa_size (dm_area s5 pa) > 0 then bind_res (add_area k pa s5) (add_free k pa) else release_area_desc pa s5)
                   (\<lambda>s6. Inr (s6, 0))))))"

section \<open>The interface of the page pools\<close>

text \<open>The memory that a request may take: all of it for internal requests, not the reserved part for the others.\<close>

definition enough_free :: "page_pool \<Rightarrow> u32 \<Rightarrow> int \<Rightarrow> bool" where
  "enough_free P sz prio =
     (if pp_free P < sz then False else if prio = PAGES_USER \<and> pp_free P - sz < pp_reserved P then False else True)"

definition superpage_size :: "u32 \<Rightarrow> u32 \<Rightarrow> u32" where
  "superpage_size flags sz =
     (if flags AND L4DM_MEMPHYS_SUPERPAGES \<noteq> 0 then (sz + DMPHYS_SUPERPAGESIZE - 1) AND NOT (DMPHYS_SUPERPAGESIZE - 1) else sz)"

definition pages_alignment :: "u32 \<Rightarrow> u32 \<Rightarrow> u32" where
  "pages_alignment flags alignment =
     (let al = (if alignment < DMPHYS_PAGESIZE then DMPHYS_PAGESIZE else alignment)
      in if flags AND L4DM_MEMPHYS_SUPERPAGES \<noteq> 0 \<and> al < DMPHYS_SUPERPAGESIZE then DMPHYS_SUPERPAGESIZE else al)"

definition dmphys_pages_allocate :: "nat \<Rightarrow> u32 \<Rightarrow> u32 \<Rightarrow> u32 \<Rightarrow> int \<Rightarrow> dm_state \<Rightarrow> (dm_state \<times> l4_addr_t \<times> int) res" where
  "dmphys_pages_allocate k sz0 alignment0 flags prio s =
     (if \<not> enough_free (dm_pools s k) sz0 prio then Inr (s, 0, - L4_ENOMEM)
      else (let alignment = pages_alignment flags alignment0; sz = superpage_size flags sz0 in
            bind_res (if flags AND L4DM_CONTIGUOUS \<noteq> 0 then find_single_area k sz alignment s
                      else allocate_pages k sz DMPHYS_MAX_DS_AREAS alignment s) (\<lambda>(s1, pa).
              Inr (s1, pa, if pa = 0 then - L4_ENOMEM else 0))))"

definition dmphys_pages_allocate_area :: "nat \<Rightarrow> l4_addr_t \<Rightarrow> u32 \<Rightarrow> int \<Rightarrow> dm_state \<Rightarrow> (dm_state \<times> l4_addr_t \<times> int) res" where
  "dmphys_pages_allocate_area k addr sz prio s =
     (if \<not> enough_free (dm_pools s k) sz prio then Inr (s, 0, - L4_ENOMEM)
      else bind_res (allocate_area k addr sz s) (\<lambda>(s1, pa). Inr (s1, pa, if pa = 0 then - L4_ENOMEM else 0)))"

definition dmphys_pages_enlarge :: "nat option \<Rightarrow> l4_addr_t \<Rightarrow> u32 \<Rightarrow> int \<Rightarrow> dm_state \<Rightarrow> (dm_state \<times> int) res" where
  "dmphys_pages_enlarge pool area sz prio s =
     (case pool of
        None \<Rightarrow> Inr (s, - L4_EINVAL)
      | Some k \<Rightarrow>
          if area = 0 then Inr (s, - L4_EINVAL)
          else if IS_UNUSED_AREA (dm_area s area) then Inr (s, - L4_EINVAL)
          else if \<not> enough_free (dm_pools s k) sz prio then Inr (s, - L4_ENOMEM)
          else if pa_ds_next (dm_area s area) \<noteq> 0 then Inl Panic
          else bind_res (enlarge_area k area sz s) (\<lambda>(s1, ret). Inr (s1, if ret < 0 then - L4_ENOMEM else 0)))"

text \<open>The last area of a list.\<close>

partial_function (option) last_area :: "area_mem \<Rightarrow> l4_addr_t \<Rightarrow> l4_addr_t option" where
  "last_area m pa = (if pa_ds_next (m pa) \<noteq> 0 then last_area m (pa_ds_next (m pa)) else Some pa)"

definition dmphys_pages_add :: "nat option \<Rightarrow> l4_addr_t \<Rightarrow> u32 \<Rightarrow> int \<Rightarrow> dm_state \<Rightarrow> (dm_state \<times> int) res" where
  "dmphys_pages_add pool pages sz prio s =
     (case pool of
        None \<Rightarrow> Inr (s, - L4_EINVAL)
      | Some k \<Rightarrow>
          if pages = 0 then Inr (s, - L4_EINVAL)
          else if \<not> enough_free (dm_pools s k) sz prio then Inr (s, - L4_ENOMEM)
          else (case dmphys_pages_get_num (dm_area s) pages of
                  None \<Rightarrow> Inl Diverge
                | Some num_old \<Rightarrow>
                    (let max_new = (if int DMPHYS_MAX_DS_AREAS \<le> num_old then 1 else nat (int DMPHYS_MAX_DS_AREAS - num_old)) in
                     bind_res (allocate_pages k sz max_new DMPHYS_PAGESIZE s) (\<lambda>(s1, new_pages).
                       if new_pages = 0 then Inr (s1, - L4_ENOMEM)
                       else bind_res (dmphys_pages_clear new_pages s1) (\<lambda>s2.
                            case last_area (dm_area s2) pages of
                              None \<Rightarrow> Inl Diverge
                            | Some pa \<Rightarrow> Inr (set_area pa (\<lambda>a. a\<lparr>pa_ds_next := new_pages\<rparr>) s2, 0))))))"

text \<open>The loop of \<open>dmphys_pages_shrink\<close> that releases the areas behind the new last one; the second component of the result
  is what was unmapped.\<close>

partial_function (option) shrink_pages_loop ::
    "nat \<Rightarrow> l4_addr_t \<Rightarrow> (l4_addr_t \<times> nat) list \<Rightarrow> dm_state \<Rightarrow> (dm_state \<times> (l4_addr_t \<times> nat) list) res option" where
  "shrink_pages_loop k lst um s =
     (let pa = pa_ds_next (dm_area s lst) in
      if pa = 0 then Some (Inr (s, um))
      else (let s1 = set_area lst (\<lambda>a. a\<lparr>pa_ds_next := pa_ds_next (dm_area s pa)\<rparr>) s in
            Option.bind (dmphys_unmap_area (pa_addr (dm_area s1 pa)) (pa_size (dm_area s1 pa))) (\<lambda>u.
              case release_area k pa s1 of
                Inl e \<Rightarrow> Some (Inl e)
              | Inr s2 \<Rightarrow> shrink_pages_loop k lst (um @ u) s2)))"

definition dmphys_pages_shrink :: "nat option \<Rightarrow> l4_addr_t \<Rightarrow> u32 \<Rightarrow> dm_state \<Rightarrow> (dm_state \<times> (l4_addr_t \<times> nat) list \<times> int) res" where
  "dmphys_pages_shrink pool pages sz s =
     (case pool of
        None \<Rightarrow> Inr (s, [], - L4_EINVAL)
      | Some k \<Rightarrow>
          (case dmphys_pages_find_offset (dm_area s) pages (sz - 1) of
             None \<Rightarrow> Inl Diverge
           | Some (lst, last_offs) \<Rightarrow>
               if lst = 0 then Inr (s, [], - L4_EINVAL)
               else (let last_size = last_offs + 1; a = dm_area s lst in
                     bind_res (if pa_size a > last_size
                               then (let ra = pa_addr a + last_size; rs = pa_size a - last_size in
                                     case dmphys_unmap_area ra rs of
                                       None \<Rightarrow> Inl Diverge
                                     | Some u \<Rightarrow>
                                         bind_res (add_free_area k ra rs (set_area lst (\<lambda>a. a\<lparr>pa_size := last_size\<rparr>) s)) (\<lambda>s1. Inr (s1, u)))
                               else Inr (s, [])) (\<lambda>(s1, um).
                     bind_res (loop_res (shrink_pages_loop k lst um s1)) (\<lambda>(s2, um'). Inr (s2, um', 0))))))"

definition dmphys_pages_add_free_area :: "int \<Rightarrow> l4_addr_t \<Rightarrow> u32 \<Rightarrow> dm_state \<Rightarrow> (dm_state \<times> int) res" where
  "dmphys_pages_add_free_area pool addr sz s =
     (if pool < 0 \<or> int DMPHYS_NUM_POOLS \<le> pool then Inr (s, -1)
      else bind_res (add_free_area (nat pool) addr sz s) (\<lambda>s1.
             Inr (set_pool (nat pool) (\<lambda>P. P\<lparr>pp_size := pp_size P + sz\<rparr>) s1, 0)))"

definition fresh_pool :: page_pool where
  "fresh_pool = \<lparr>pp_name = None, pp_size = 0, pp_free = 0, pp_reserved = 0, pp_areas = [], pp_lists = (\<lambda>_. [])\<rparr>"

definition dmphys_pages_init :: "dm_state \<Rightarrow> (dm_state \<times> int) res" where
  "dmphys_pages_init s =
     bind_res (l4slab_cache_init (dm_cache s) sizeof_page_area 0 True True) (\<lambda>(c, ret).
       if ret < 0 then Inr (s\<lparr>dm_cache := c\<rparr>, -1)
       else Inr (s\<lparr>dm_cache := c, dm_pools := (\<lambda>i. if i < DMPHYS_NUM_POOLS then fresh_pool else dm_pools s i)\<rparr>, 0))"

definition dmphys_pages_init_pool :: "int \<Rightarrow> u32 \<Rightarrow> string option \<Rightarrow> dm_state \<Rightarrow> dm_state" where
  "dmphys_pages_init_pool pool reserved name s =
     (if pool < 0 \<or> int DMPHYS_NUM_POOLS \<le> pool then s
      else set_pool (nat pool) (\<lambda>P. P\<lparr>pp_reserved := reserved, pp_name := name\<rparr>) s)"

definition dmphys_get_page_pool :: "int \<Rightarrow> nat option" where
  "dmphys_get_page_pool pool = (if pool < 0 \<or> int DMPHYS_NUM_POOLS \<le> pool then None else Some (nat pool))"

definition dmphys_get_default_pool :: nat where
  "dmphys_get_default_pool = DMPHYS_MEM_DEFAULT_POOL"

section \<open>Refilling the internal memory pool\<close>

text \<open>The loop over the entries for pages of the default pool: \<open>n\<close> entries from \<open>i\<close> on.\<close>

fun refill_loop :: "nat \<Rightarrow> nat \<Rightarrow> dm_state \<Rightarrow> dm_state res" where
  "refill_loop i 0 s = Inr s"
| "refill_loop i (Suc n) s =
     (if ip_map_addr (dm_int s i) = - 1
      then bind_res (dmphys_pages_allocate dmphys_get_default_pool L4_PAGESIZE 0 L4DM_CONTIGUOUS PAGES_INTERNAL s) (\<lambda>(s1, pa, ret).
             if ret < 0 then Inr s1
             else refill_loop (Suc i) n
                    (s1\<lparr>dm_int := (dm_int s1)(i := \<lparr>ip_available = True, ip_map_addr = AREA_MAP_ADDR (dm_area s1 pa), ip_area = pa\<rparr>),
                        dm_num_free := dm_num_free s1 + 1\<rparr>))
      else refill_loop (Suc i) n s)"

definition int_refill :: "dm_state \<Rightarrow> dm_state res" where
  "int_refill s =
     (if dm_update s then Inr s
      else bind_res (refill_loop DMPHYS_INT_POOL_INITIAL (POOL_SIZE - DMPHYS_INT_POOL_INITIAL) (s\<lparr>dm_update := True\<rparr>)) (\<lambda>s1.
             Inr (s1\<lparr>dm_update := False\<rparr>)))"

definition dmphys_internal_alloc_update :: "dm_state \<Rightarrow> dm_state res" where
  "dmphys_internal_alloc_update s =
     bind_res (if dm_num_free s < DMPHYS_INT_POOL_MIN then int_refill s else Inr s) dmphys_internal_alloc_update_free"

text \<open>The pages that \<open>sigma0\<close> gives are an argument, one for each of the initial entries; it gives \<open>~0UL\<close> for no page.\<close>

fun int_init_loop :: "l4_addr_t list \<Rightarrow> nat \<Rightarrow> dm_state \<Rightarrow> (dm_state \<times> int) res" where
  "int_init_loop [] i s = Inr (s, 0)"
| "int_init_loop (page # ps) i s =
     (if page = - 1 then Inl Panic
      else if page = 0 then int_init_loop ps (Suc i) s
      else int_init_loop ps (Suc i)
             (s\<lparr>dm_int := (dm_int s)(i := (dm_int s i)\<lparr>ip_map_addr := page, ip_available := True\<rparr>), dm_num_free := dm_num_free s + 1\<rparr>))"

definition dmphys_internal_alloc_init :: "l4_addr_t list \<Rightarrow> dm_state \<Rightarrow> (dm_state \<times> int) res" where
  "dmphys_internal_alloc_init pages s =
     int_init_loop (take DMPHYS_INT_POOL_INITIAL pages) 0
       (s\<lparr>dm_int := (\<lambda>i. if i < POOL_SIZE then \<lparr>ip_available = False, ip_map_addr = - 1, ip_area = 0\<rparr> else dm_int s i), dm_num_free := 0\<rparr>)"

end
