(* ===== verification/DmPool.thy ===== *)
theory DmPool
  imports DmPages
begin

text \<open>
  The invariant of a page pool and how the list operations of \<open>pages.c\<close> keep it. An operation takes an area out of the
  free lists, changes it and puts pieces back: \<open>pool_wf m H P\<close> says that the pool \<open>P\<close> is in order up to the areas in \<open>H\<close>,
  which are in the list of areas but in no free list.
\<close>

section \<open>The invariant of a pool\<close>

definition area_lo :: "area_mem \<Rightarrow> l4_addr_t \<Rightarrow> nat" where "area_lo m p = unat (pa_addr (m p))"
definition area_hi :: "area_mem \<Rightarrow> l4_addr_t \<Rightarrow> nat" where "area_hi m p = unat (pa_addr (m p)) + unat (pa_size (m p))"

definition areas_sorted :: "area_mem \<Rightarrow> l4_addr_t list \<Rightarrow> bool" where
  "areas_sorted m ps \<longleftrightarrow> sorted_wrt (\<lambda>p q. area_hi m p \<le> area_lo m q) ps"

definition frees :: "l4_addr_t set \<Rightarrow> area_mem \<Rightarrow> page_pool \<Rightarrow> l4_addr_t set" where
  "frees H m P = {p \<in> set (pp_areas P). IS_UNUSED_AREA (m p) \<and> p \<notin> H}"

definition pool_wf :: "area_mem \<Rightarrow> l4_addr_t set \<Rightarrow> page_pool \<Rightarrow> bool" where
  "pool_wf m H P \<longleftrightarrow>
     (\<forall>p \<in> set (pp_areas P). area_ok (m p) \<and> p \<noteq> 0 \<and> (IS_UNUSED_AREA (m p) \<longrightarrow> pa_ds_next (m p) = 0)) \<and>
     areas_sorted m (pp_areas P) \<and>
     (\<forall>n. distinct (pp_lists P n) \<and> set (pp_lists P n) = {p \<in> frees H m P. get_free_list (pa_size (m p)) = Some n}) \<and>
     unat (pp_free P) = (\<Sum>p \<in> frees H m P. area_size m p)"

lemma pool_wfD:
  assumes "pool_wf m H P"
  shows "\<And>p. p \<in> set (pp_areas P) \<Longrightarrow> area_ok (m p)" "\<And>p. p \<in> set (pp_areas P) \<Longrightarrow> p \<noteq> 0"
    "\<And>p. p \<in> set (pp_areas P) \<Longrightarrow> IS_UNUSED_AREA (m p) \<Longrightarrow> pa_ds_next (m p) = 0" "areas_sorted m (pp_areas P)"
    "\<And>n. distinct (pp_lists P n)" "\<And>n. set (pp_lists P n) = {p \<in> frees H m P. get_free_list (pa_size (m p)) = Some n}"
    "unat (pp_free P) = (\<Sum>p \<in> frees H m P. area_size m p)"
  using assms by (auto simp: pool_wf_def)

lemma area_hi_lo: "area_ok (m p) \<Longrightarrow> area_lo m p < area_hi m p \<and> area_hi m p < 2 ^ 32"
  by (auto simp: area_ok_def area_lo_def area_hi_def)

lemma area_end_unat: "area_ok (m p) \<Longrightarrow> unat (area_end m p) = area_hi m p"
  unfolding area_end_def area_hi_def by (intro unat_add_lt) (simp add: area_ok_def)

lemma area_range_lohi: "area_range (m p) = {area_lo m p ..< area_hi m p}"
  by (simp add: area_range_def area_lo_def area_hi_def)

lemma area_size_lohi: "area_size m p = area_hi m p - area_lo m p"
  by (simp add: area_size_def area_lo_def area_hi_def)

lemma areas_distinct:
  assumes "areas_sorted m ps" "\<And>p. p \<in> set ps \<Longrightarrow> area_ok (m p)"
  shows "distinct ps"
  using assms
proof (induction ps)
  case (Cons p ps)
  then have "p \<notin> set ps" using area_hi_lo [of m p] by (force simp: areas_sorted_def)
  then show ?case using Cons by (simp add: areas_sorted_def)
qed simp

lemma areas_disjoint:
  assumes "areas_sorted m ps" "\<And>p. p \<in> set ps \<Longrightarrow> area_ok (m p)" "p \<in> set ps" "q \<in> set ps" "p \<noteq> q"
  shows "area_range (m p) \<inter> area_range (m q) = {}"
proof -
  have "area_hi m p \<le> area_lo m q \<or> area_hi m q \<le> area_lo m p"
    using assms(1,3,4,5) by (induction ps) (auto simp: areas_sorted_def)
  then show ?thesis by (auto simp: area_range_lohi)
qed

lemma frees_finite [simp]: "finite (frees H m P)"
  by (simp add: frees_def)

lemma sum_areas_bound:
  assumes "areas_sorted m ps" "\<And>p. p \<in> set ps \<Longrightarrow> area_ok (m p)" "\<And>p. p \<in> set ps \<Longrightarrow> lo \<le> area_lo m p" "lo < 2 ^ 32"
  shows "lo + sum_list (map (area_size m) ps) < 2 ^ 32"
  using assms
proof (induction ps arbitrary: lo)
  case (Cons p ps)
  have h: "area_lo m p < area_hi m p" "area_hi m p < 2 ^ 32" "lo \<le> area_lo m p" using area_hi_lo [of m p] Cons.prems(2,3) by simp_all
  have "area_hi m p + sum_list (map (area_size m) ps) < 2 ^ 32"
    by (rule Cons.IH) (use Cons.prems h in \<open>auto simp: areas_sorted_def\<close>)
  then show ?case using h area_size_lohi [of m p] by simp
qed simp

lemma frees_sum_bound:
  assumes "pool_wf m H P"
  shows "(\<Sum>p \<in> frees H' m P. area_size m p) < 2 ^ 32"
proof -
  note w = pool_wfD [OF assms]
  have "(\<Sum>p \<in> frees H' m P. area_size m p) \<le> (\<Sum>p \<in> set (pp_areas P). area_size m p)"
    by (rule sum_mono2) (auto simp: frees_def)
  also have "\<dots> = sum_list (map (area_size m) (pp_areas P))"
    using areas_distinct [OF w(4,1)] by (simp add: sum_list_distinct_conv_sum_set)
  also have "\<dots> < 2 ^ 32" using sum_areas_bound [OF w(4,1), of 0] by simp
  finally show ?thesis .
qed

lemma get_free_list_Some: "sz \<noteq> 0 \<Longrightarrow> \<exists>n. get_free_list sz = Some n \<and> n < 16"
  using bsr_Some [of sz] by (auto simp: get_free_list_def Let_def l4_const)

lemma get_free_list_area: "area_ok a \<Longrightarrow> \<exists>n. get_free_list (pa_size a) = Some n \<and> n < 16"
  using get_free_list_Some [of "pa_size a"] by (auto simp: area_ok_def unat_gt_0)

section \<open>Free lists\<close>

lemma wf_remove_free:
  assumes wf: "pool_wf m H P" and p: "p \<in> frees H m P" and n: "get_free_list (pa_size (m p)) = Some n"
  shows "pool_wf m (insert p H) (P\<lparr>pp_free := pp_free P - pa_size (m p), pp_lists := (pp_lists P)(n := remove1 p (pp_lists P n))\<rparr>)"
proof -
  note w = pool_wfD [OF wf]
  have f: "frees (insert p H) m (P\<lparr>pp_free := x, pp_lists := l\<rparr>) = frees H m P - {p}" for x l by (auto simp: frees_def)
  have s: "(\<Sum>q \<in> frees H m P. area_size m q) = area_size m p + (\<Sum>q \<in> frees H m P - {p}. area_size m q)"
    using p by (intro sum.remove) simp_all
  have "unat (pp_free P - pa_size (m p)) = unat (pp_free P) - unat (pa_size (m p))"
    using s w(7) by (intro unat_sub_le) (simp add: word_le_unat area_size_def)
  then have "unat (pp_free P - pa_size (m p)) = (\<Sum>q \<in> frees H m P - {p}. area_size m q)" using s w(7) by (simp add: area_size_def)
  then show ?thesis using w n unfolding pool_wf_def f by auto
qed

lemma wf_add_free:
  assumes wf: "pool_wf m (insert p H) P" and p: "p \<in> set (pp_areas P)" "IS_UNUSED_AREA (m p)" "p \<notin> H"
    and n: "get_free_list (pa_size (m p)) = Some n" and l: "set l = insert p (set (pp_lists P n))" "distinct l"
  shows "pool_wf m H (P\<lparr>pp_free := pp_free P + pa_size (m p), pp_lists := (pp_lists P)(n := l)\<rparr>)"
proof -
  note w = pool_wfD [OF wf]
  have f: "frees H m (P\<lparr>pp_free := x, pp_lists := l'\<rparr>) = insert p (frees (insert p H) m P)" for x l' using p by (auto simp: frees_def)
  have f': "frees H m P = insert p (frees (insert p H) m P)" using p by (auto simp: frees_def)
  have np: "p \<notin> frees (insert p H) m P" by (simp add: frees_def)
  have s: "(\<Sum>q \<in> insert p (frees (insert p H) m P). area_size m q) = area_size m p + unat (pp_free P)"
    using np w(7) by simp
  have "area_size m p + unat (pp_free P) < 2 ^ 32" using frees_sum_bound [OF wf, of H] s f' by simp
  then have "unat (pp_free P + pa_size (m p)) = area_size m p + unat (pp_free P)" by (subst unat_add_lt) (simp_all add: area_size_def)
  then have "unat (pp_free P + pa_size (m p)) = (\<Sum>q \<in> insert p (frees (insert p H) m P). area_size m q)" using s by simp
  then show ?thesis using w n l unfolding pool_wf_def f by auto
qed

section \<open>The list of areas\<close>

text \<open>An area that is held may change as long as it meets its old place and no other area.\<close>

lemma area_order:
  assumes "x < (x' :: nat)" "a < b" "a' < b'" "x' \<le> a" "{a ..< b} \<inter> {a' ..< b'} \<noteq> {}" "{x ..< x'} \<inter> {a' ..< b'} = {}"
  shows "x' \<le> a'"
proof (rule ccontr)
  assume n: "\<not> x' \<le> a'"
  obtain y where "a \<le> y" "y < b'" using assms(5) by auto
  then have "max x a' \<in> {x ..< x'} \<inter> {a' ..< b'}" using assms n by auto
  then show False using assms(6) by blast
qed

lemma area_order':
  assumes "x < (x' :: nat)" "a < b" "a' < b'" "b \<le> x" "{a ..< b} \<inter> {a' ..< b'} \<noteq> {}" "{x ..< x'} \<inter> {a' ..< b'} = {}"
  shows "b' \<le> x"
proof (rule ccontr)
  assume n: "\<not> b' \<le> x"
  obtain y where "y < b" "a' \<le> y" using assms(5) by auto
  then have "x \<in> {x ..< x'} \<inter> {a' ..< b'}" using assms n by auto
  then show False using assms(6) by blast
qed

lemma sorted_set_held:
  assumes "areas_sorted m ps" "\<And>q. q \<in> set ps \<Longrightarrow> area_ok (m q)" "distinct ps" "area_ok a" "area_range (m p) \<inter> area_range a \<noteq> {}"
    "\<And>q. q \<in> set ps \<Longrightarrow> q \<noteq> p \<Longrightarrow> area_range (m q) \<inter> area_range a = {}"
  shows "areas_sorted (m(p := a)) ps"
proof -
  let ?m = "m(p := a)"
  have ok: "area_lo m q < area_hi m q" if "q \<in> set ps" for q using area_hi_lo [of m q] assms(2) [OF that] by simp
  have pa: "area_lo ?m p < area_hi ?m p" using area_hi_lo [of ?m p] assms(4) by simp
  have same: "area_lo ?m q = area_lo m q" "area_hi ?m q = area_hi m q" if "q \<noteq> p" for q using that by (simp_all add: area_lo_def area_hi_def)
  have r: "area_range a = {area_lo ?m p ..< area_hi ?m p}" by (simp add: area_range_def area_lo_def area_hi_def)
  have mono: "area_hi ?m x \<le> area_lo ?m y" if h: "area_hi m x \<le> area_lo m y" "x \<in> set ps" "y \<in> set ps" for x y
  proof (cases "x = p \<or> y = p")
    case True
    show ?thesis
    proof (cases "x = p")
      case x: True
      then have "y \<noteq> p" using h ok [of p] by auto
      then show ?thesis
        using area_order' [OF ok [OF h(3)] ok [of p] pa] h x assms(5) assms(6) [OF h(3)] same by (auto simp: r area_range_lohi)
    next
      case False
      then have "y = p" using True by simp
      then show ?thesis
        using area_order [OF ok [OF h(2)] ok [of p] pa] h False assms(5) assms(6) [OF h(2)] same by (auto simp: r area_range_lohi)
    qed
  qed (use h same in simp)
  show ?thesis unfolding areas_sorted_def by (rule sorted_wrt_mono_rel [OF _ assms(1) [unfolded areas_sorted_def]]) (rule mono)
qed

lemma wf_set_held:
  assumes wf: "pool_wf m H P" and p: "p \<in> H" "p \<in> set (pp_areas P)" and a: "area_ok a" "IS_UNUSED_AREA a \<longrightarrow> pa_ds_next a = 0"
    and r: "area_range (m p) \<inter> area_range a \<noteq> {}" "\<And>q. q \<in> set (pp_areas P) \<Longrightarrow> q \<noteq> p \<Longrightarrow> area_range (m q) \<inter> area_range a = {}"
  shows "pool_wf (m(p := a)) H P"
proof -
  note w = pool_wfD [OF wf]
  have f: "frees H (m(p := a)) P = frees H m P" using p by (auto simp: frees_def)
  have np: "p \<notin> frees H m P" using p by (simp add: frees_def)
  have "(\<Sum>q \<in> frees H m P. area_size (m(p := a)) q) = (\<Sum>q \<in> frees H m P. area_size m q)"
    using np by (intro sum.cong) (auto simp: area_size_def)
  moreover have "areas_sorted (m(p := a)) (pp_areas P)"
    by (rule sorted_set_held [OF w(4,1) areas_distinct [OF w(4,1)] a(1) r])
  moreover have "{q \<in> frees H m P. get_free_list (pa_size ((m(p := a)) q)) = Some n} = {q \<in> frees H m P. get_free_list (pa_size (m q)) = Some n}" for n
    using np by auto
  ultimately show ?thesis using w a unfolding pool_wf_def f by auto
qed

text \<open>Descriptors that are not in the pool do not matter.\<close>

lemma wf_other:
  assumes wf: "pool_wf m H P" and p: "p \<notin> set (pp_areas P)"
  shows "pool_wf (m(p := a)) H P"
proof -
  note w = pool_wfD [OF wf]
  have f: "frees H (m(p := a)) P = frees H m P" using p by (auto simp: frees_def)
  have np: "p \<notin> frees H m P" using p by (simp add: frees_def)
  have "(\<Sum>q \<in> frees H m P. area_size (m(p := a)) q) = (\<Sum>q \<in> frees H m P. area_size m q)"
    using np by (intro sum.cong) (auto simp: area_size_def)
  moreover have "areas_sorted (m(p := a)) (pp_areas P)"
    unfolding areas_sorted_def by (rule sorted_wrt_mono_rel [OF _ w(4) [unfolded areas_sorted_def]]) (use p in \<open>auto simp: area_lo_def area_hi_def\<close>)
  moreover have "{q \<in> frees H m P. get_free_list (pa_size ((m(p := a)) q)) = Some n} = {q \<in> frees H m P. get_free_list (pa_size (m q)) = Some n}" for n
    using np by auto
  ultimately show ?thesis using w p unfolding pool_wf_def f by auto
qed

lemma sorted_wrt_remove1: "sorted_wrt R xs \<Longrightarrow> sorted_wrt R (remove1 p xs)"
  by (induction xs) (auto dest: set_remove1_subset [THEN subsetD])

lemma wf_delete_area:
  assumes wf: "pool_wf m H P" and p: "p \<in> H"
  shows "pool_wf m H (P\<lparr>pp_areas := remove1 p (pp_areas P)\<rparr>)"
proof -
  note w = pool_wfD [OF wf]
  have d: "set (remove1 p (pp_areas P)) = set (pp_areas P) - {p}" using areas_distinct [OF w(4,1)] by simp
  then have f: "frees H m (P\<lparr>pp_areas := remove1 p (pp_areas P)\<rparr>) = frees H m P" using p by (auto simp: frees_def)
  have "areas_sorted m (remove1 p (pp_areas P))"
    using w(4) unfolding areas_sorted_def by (rule sorted_wrt_remove1)
  then show ?thesis using w unfolding pool_wf_def f by (simp add: d)
qed

lemma wf_insert_area:
  assumes wf: "pool_wf m H P" and p: "p \<in> H" "p \<noteq> 0" "area_ok (m p)" "IS_UNUSED_AREA (m p) \<longrightarrow> pa_ds_next (m p) = 0"
    and l: "set ps = insert p (set (pp_areas P))" "areas_sorted m ps"
  shows "pool_wf m H (P\<lparr>pp_areas := ps\<rparr>)"
proof -
  note w = pool_wfD [OF wf]
  have f: "frees H m (P\<lparr>pp_areas := ps\<rparr>) = frees H m P" using p l by (auto simp: frees_def)
  show ?thesis using w p l unfolding pool_wf_def f by auto
qed

section \<open>The operations on the lists\<close>

lemma set_pool_fields [simp]:
  "dm_pools (set_pool k f s) = (dm_pools s)(k := f (dm_pools s k))" "dm_area (set_pool k f s) = dm_area s"
  "dm_cache (set_pool k f s) = dm_cache s" "dm_int (set_pool k f s) = dm_int s" "dm_num_free (set_pool k f s) = dm_num_free s"
  "dm_update (set_pool k f s) = dm_update s" "dm_freed (set_pool k f s) = dm_freed s" "dm_mem (set_pool k f s) = dm_mem s"
  by (simp_all add: set_pool_def)

lemma set_area_fields [simp]:
  "dm_area (set_area p g s) = (dm_area s)(p := g (dm_area s p))" "dm_pools (set_area p g s) = dm_pools s"
  "dm_cache (set_area p g s) = dm_cache s" "dm_int (set_area p g s) = dm_int s" "dm_num_free (set_area p g s) = dm_num_free s"
  "dm_update (set_area p g s) = dm_update s" "dm_freed (set_area p g s) = dm_freed s" "dm_mem (set_area p g s) = dm_mem s"
  by (simp_all add: set_area_def)

lemma ranges_apart:
  assumes "area_ok (m p)" "area_ok (m q)" "area_range (m p) \<inter> area_range (m q) = {}"
  shows "area_hi m p \<le> area_lo m q \<or> area_hi m q \<le> area_lo m p"
proof (rule ccontr)
  assume "\<not> ?thesis"
  then have "max (area_lo m p) (area_lo m q) \<in> area_range (m p) \<inter> area_range (m q)"
    using area_hi_lo [of m p] area_hi_lo [of m q] assms(1,2) by (auto simp: area_range_lohi)
  then show False using assms(3) by blast
qed

lemma sorted_insert_mid:
  assumes "areas_sorted m (xs @ ys)" "\<And>q. q \<in> set xs \<Longrightarrow> area_hi m q \<le> area_lo m p" "\<And>q. q \<in> set ys \<Longrightarrow> area_hi m p \<le> area_lo m q"
  shows "areas_sorted m (xs @ p # ys)"
  using assms by (auto simp: areas_sorted_def sorted_wrt_append)

lemma add_area_ok:
  assumes wf: "pool_wf (dm_area s) H (dm_pools s k)" and ok: "area_ok (dm_area s p)"
    and dj: "\<And>q. q \<in> set (pp_areas (dm_pools s k)) \<Longrightarrow> area_range (dm_area s q) \<inter> area_range (dm_area s p) = {}"
  shows "\<exists>ps. add_area k p s = Inr (set_pool k (pp_areas_update (\<lambda>_. ps)) s) \<and> set ps = insert p (set (pp_areas (dm_pools s k))) \<and>
    areas_sorted (dm_area s) ps"
proof (cases "pp_areas (dm_pools s k)")
  case Nil
  then show ?thesis by (auto simp: add_area_def areas_sorted_def Let_def)
next
  case (Cons q qs)
  let ?m = "dm_area s"
  note w = pool_wfD [OF wf]
  have okq: "area_ok (?m r)" if "r \<in> set (q # qs)" for r using w(1) that Cons by simp
  have srt: "areas_sorted ?m (q # qs)" using w(4) Cons by simp
  have ap: "area_hi ?m r \<le> area_lo ?m p \<or> area_hi ?m p \<le> area_lo ?m r" if "r \<in> set (q # qs)" for r
    using ranges_apart [of ?m r p] okq [OF that] ok dj that Cons by auto
  have le: "area_end ?m r \<le> pa_addr (?m t) \<longleftrightarrow> area_hi ?m r \<le> area_lo ?m t" if "area_ok (?m r)" for r t
    by (simp add: word_le_unat area_end_unat [of ?m r, OF that] area_lo_def)
  have hl: "area_lo ?m r < area_hi ?m r" if "area_ok (?m r)" for r using area_hi_lo [of ?m r] that by simp
  show ?thesis
  proof (cases "area_hi ?m p \<le> area_lo ?m q")
    case True
    have "area_hi ?m p \<le> area_lo ?m r" if "r \<in> set qs" for r
      using srt that True hl [OF okq [of q]] by (auto simp: areas_sorted_def)
    then have "areas_sorted ?m (p # q # qs)" using srt True by (auto simp: areas_sorted_def)
    then show ?thesis using True le [OF ok, of q] Cons by (auto simp: add_area_def Let_def)
  next
    case False
    then have qp: "area_hi ?m q \<le> area_lo ?m p" using ap [of q] by simp
    let ?P = "\<lambda>r. pa_addr (?m r) < pa_addr (?m p)"
    define xs where "xs = takeWhile ?P qs"
    define ys where "ys = dropWhile ?P qs"
    have qs: "qs = xs @ ys" by (simp add: xs_def ys_def)
    have P: "?P r \<longleftrightarrow> area_lo ?m r < area_lo ?m p" for r by (simp add: word_less_unat area_lo_def)
    have x: "area_hi ?m r \<le> area_lo ?m p" if "r \<in> set (q # xs)" for r
    proof (cases "r = q")
      case False
      then have "?P r" using that set_takeWhileD [of r ?P qs] by (auto simp: xs_def)
      moreover have "r \<in> set (q # qs)" using that qs by auto
      ultimately show ?thesis using ap [of r] hl [OF ok] P by auto
    qed (use qp in simp)
    have y: "area_hi ?m p \<le> area_lo ?m r" if r: "r \<in> set ys" for r
    proof -
      obtain z zs where z: "ys = z # zs" using r by (cases ys) auto
      have "\<not> ?P z" using z unfolding ys_def dropWhile_eq_Cons_conv by simp
      moreover have zq: "z \<in> set (q # qs)" using z qs by auto
      ultimately have zp: "area_hi ?m p \<le> area_lo ?m z" using ap [OF zq] hl [OF okq [OF zq]] P by fastforce
      have "r = z \<or> area_hi ?m z \<le> area_lo ?m r" using srt r z qs by (auto simp: areas_sorted_def sorted_wrt_append)
      then show ?thesis using zp hl [OF okq [OF zq]] by auto
    qed
    have "areas_sorted ?m ((q # xs) @ p # ys)" by (rule sorted_insert_mid) (use srt qs x y in auto)
    moreover have "last (q # xs) \<in> set (q # xs)" by simp
    then have "\<not> area_end ?m (last (q # xs)) > pa_addr (?m p)"
      using x okq qs le by (metis Cons_eq_appendI Un_iff not_le set_append)
    moreover have "\<not> (ys \<noteq> [] \<and> area_end ?m p > pa_addr (?m (hd ys)))" using y [of "hd ys"] le [OF ok] by (cases "ys = []") (auto simp: not_less)
    ultimately have "add_area k p s = Inr (set_pool k (pp_areas_update (\<lambda>_. q # xs @ p # ys)) s)" "areas_sorted ?m (q # xs @ p # ys)"
      using False le [OF ok, of q] by (simp_all add: add_area_def Let_def Cons flip: xs_def ys_def)
    then show ?thesis using Cons qs by (intro exI [of _ "q # xs @ p # ys"]) auto
  qed
qed

lemma add_free_ok:
  assumes wf: "pool_wf (dm_area s) (insert p H) (dm_pools s k)" and p: "p \<in> set (pp_areas (dm_pools s k))" "IS_UNUSED_AREA (dm_area s p)" "p \<notin> H"
  shows "\<exists>P. add_free k p s = Inr (set_pool k (\<lambda>_. P) s) \<and> pool_wf (dm_area s) H P \<and> pp_areas P = pp_areas (dm_pools s k) \<and>
    pp_free P = pp_free (dm_pools s k) + pa_size (dm_area s p) \<and> pp_reserved P = pp_reserved (dm_pools s k) \<and> pp_size P = pp_size (dm_pools s k)"
proof -
  let ?m = "dm_area s" and ?P = "dm_pools s k"
  note w = pool_wfD [OF wf]
  obtain n where n: "get_free_list (pa_size (?m p)) = Some n" using get_free_list_area [OF w(1) [OF p(1)]] by blast
  define l where "l = (case pp_lists ?P n of
                       [] \<Rightarrow> [p]
                     | q # qs \<Rightarrow>
                         if pa_size (?m q) > pa_size (?m p) then p # q # qs
                         else q # takeWhile (\<lambda>r. pa_size (?m r) < pa_size (?m p)) qs @ p # dropWhile (\<lambda>r. pa_size (?m r) < pa_size (?m p)) qs)"
  have np: "p \<notin> set (pp_lists ?P n)" using w(6) [of n] by (simp add: frees_def)
  have "set l = insert p (set (pp_lists ?P n)) \<and> distinct l"
  proof (cases "pp_lists ?P n")
    case (Cons q qs)
    define xs where "xs = takeWhile (\<lambda>r. pa_size (?m r) < pa_size (?m p)) qs"
    define ys where "ys = dropWhile (\<lambda>r. pa_size (?m r) < pa_size (?m p)) qs"
    have e: "qs = xs @ ys" by (simp add: xs_def ys_def)
    have l: "l = (if pa_size (?m q) > pa_size (?m p) then p # q # xs @ ys else q # xs @ p # ys)"
      unfolding l_def Cons xs_def ys_def by simp
    have "distinct (q # xs @ ys)" "p \<notin> set (q # xs @ ys)" using w(5) [of n] np Cons e by simp_all
    then show ?thesis unfolding l Cons e by auto
  qed (simp add: l_def)
  then have "pool_wf ?m H (?P\<lparr>pp_free := pp_free ?P + pa_size (?m p), pp_lists := (pp_lists ?P)(n := l)\<rparr>)"
    using wf_add_free [OF wf p n] by blast
  moreover have "add_free k p s = Inr (set_pool k (\<lambda>_. ?P\<lparr>pp_free := pp_free ?P + pa_size (?m p), pp_lists := (pp_lists ?P)(n := l)\<rparr>) s)"
    by (simp add: add_free_def Let_def n set_pool_def flip: l_def)
  ultimately show ?thesis by (intro exI [of _ "?P\<lparr>pp_free := pp_free ?P + pa_size (?m p), pp_lists := (pp_lists ?P)(n := l)\<rparr>"]) simp
qed

lemma remove_free_ok:
  assumes wf: "pool_wf (dm_area s) H (dm_pools s k)" and p: "p \<in> frees H (dm_area s) (dm_pools s k)"
  shows "\<exists>P. remove_free k p s = Inr (set_pool k (\<lambda>_. P) s) \<and> pool_wf (dm_area s) (insert p H) P \<and> pp_areas P = pp_areas (dm_pools s k) \<and>
    pp_free P = pp_free (dm_pools s k) - pa_size (dm_area s p) \<and> pp_reserved P = pp_reserved (dm_pools s k) \<and> pp_size P = pp_size (dm_pools s k)"
proof -
  let ?m = "dm_area s" and ?P = "dm_pools s k"
  note w = pool_wfD [OF wf]
  have "p \<in> set (pp_areas ?P)" using p by (simp add: frees_def)
  then obtain n where n: "get_free_list (pa_size (?m p)) = Some n" using get_free_list_area [OF w(1)] by blast
  have "p \<in> set (pp_lists ?P n)" using w(6) [of n] p n by simp
  then have "remove_free k p s =
    Inr (set_pool k (\<lambda>_. ?P\<lparr>pp_free := pp_free ?P - pa_size (?m p), pp_lists := (pp_lists ?P)(n := remove1 p (pp_lists ?P n))\<rparr>) s)"
    by (simp add: remove_free_def Let_def n set_pool_def)
  then show ?thesis using wf_remove_free [OF wf p n] by auto
qed

lemma remove_area_ok:
  assumes wf: "pool_wf (dm_area s) H (dm_pools s k)" and p: "p \<in> H" "p \<in> set (pp_areas (dm_pools s k))"
  shows "\<exists>P. remove_area k p s = Inr (set_pool k (\<lambda>_. P) s) \<and> pool_wf (dm_area s) H P \<and> pp_areas P = remove1 p (pp_areas (dm_pools s k)) \<and>
    set (pp_areas P) = set (pp_areas (dm_pools s k)) - {p} \<and>
    pp_free P = pp_free (dm_pools s k) \<and> pp_reserved P = pp_reserved (dm_pools s k) \<and> pp_size P = pp_size (dm_pools s k)"
proof -
  note w = pool_wfD [OF wf]
  have "distinct (pp_areas (dm_pools s k))" by (rule areas_distinct [OF w(4,1)])
  then show ?thesis using wf_delete_area [OF wf p(1)] p(2)
    by (intro exI [of _ "(dm_pools s k)\<lparr>pp_areas := remove1 p (pp_areas (dm_pools s k))\<rparr>"]) (simp add: remove_area_def set_pool_def)
qed

end
