(* ===== verification/SlabPages.thy ===== *)
theory SlabPages
  imports Slab "HOL-Library.Multiset"
begin

text \<open>
  The memory of a slab cache as its clients see it: the pages it has from the grow callback and gives back with the
  release callback, each with the data pointer, and the number of objects it can hand out without growing.
\<close>

definition slab_data :: "slab_cache \<Rightarrow> l4_addr_t \<Rightarrow> u32" where
  "slab_data c t = (case sc_slab c t of None \<Rightarrow> 0 | Some sl \<Rightarrow> sl_data sl)"

definition slab_pages :: "slab_cache \<Rightarrow> (l4_addr_t \<times> u32) multiset" where
  "slab_pages c = image_mset (\<lambda>t. (buffer_from_pointer c t, slab_data c t)) (mset (all_slabs c))"

definition spare :: "slab_cache \<Rightarrow> nat" where
  "spare c = (\<Sum>t \<in># mset (all_slabs c). length (free_of c t))"

definition slab_config :: "slab_cache \<Rightarrow> bool \<times> bool \<times> u32 \<times> u32 \<times> int" where
  "slab_config c = (sc_grow_fn c, sc_release_fn c, sc_max_free c, sc_slab_size c, sc_num_objs c)"

lemma relink_config [simp]:
  "slab_config (relink s ol nl c) = slab_config c" "sc_released (relink s ol nl c) = sc_released c"
  by (cases ol; cases nl; simp add: relink_def Let_def slab_config_def)+

lemma all_slabs_mset:
  "slab_inv c \<Longrightarrow> slab_inv c' \<Longrightarrow> set (all_slabs c') = set (all_slabs c) \<Longrightarrow> mset (all_slabs c') = mset (all_slabs c)"
  using slab_invD(1) by (simp add: set_eq_iff_mset_eq_distinct)

lemma slab_pages_same:
  assumes "slab_inv c" "slab_inv c'" "same_geo c c'" "set (all_slabs c') = set (all_slabs c)" "slab_data c' = slab_data c"
  shows "slab_pages c' = slab_pages c"
  unfolding slab_pages_def all_slabs_mset [OF assms(1,2,4)] same_geo_eqs(5) [OF assms(3)] assms(5) ..

text \<open>A change of the free objects of one slab.\<close>

lemma spare_upd:
  assumes "slab_inv c" "slab_inv c'" "set (all_slabs c') = set (all_slabs c)" "s \<in> set (all_slabs c)"
    "\<And>t. t \<noteq> s \<Longrightarrow> free_of c' t = free_of c t"
  shows "spare c' + length (free_of c s) = spare c + length (free_of c' s)"
proof -
  obtain M where M: "mset (all_slabs c) = add_mset s M" using assms(4) by (metis in_multiset_in_set multi_member_split)
  have "s \<notin># M"
  proof
    assume "s \<in># M"
    then have "2 \<le> count (mset (all_slabs c)) s" using M by simp
    moreover have "count (mset (all_slabs c)) s \<le> 1" using slab_invD(1) [OF assms(1)] by (simp add: distinct_count_atmost_1)
    ultimately show False by simp
  qed
  then have "(\<Sum>t \<in># M. length (free_of c' t)) = (\<Sum>t \<in># M. length (free_of c t))"
    using assms(5) by (intro arg_cong [of _ _ sum_mset] image_mset_cong) metis
  then show ?thesis unfolding spare_def all_slabs_mset [OF assms(1-3)] M by simp
qed

lemma take_object_pages:
  assumes inv: "slab_inv c" and s: "(olist = Part \<and> s \<in> set (sc_part c)) \<or> (olist = Free \<and> s \<in> set (sc_free c))"
  obtains c' p where "take_object s olist c = Inr (c', p)" "slab_inv c'" "p \<in> slots c s" "\<not> in_use c p" "in_use c' = (in_use c)(p := True)"
    "slab_pages c' = slab_pages c" "spare c = Suc (spare c')" "slab_config c' = slab_config c" "sc_released c' = sc_released c"
proof -
  have mem: "s \<in> set (all_slabs c)" using s by (auto simp: all_slabs_def)
  obtain c' p where t: "take_object s olist c = Inr (c', p)" "slab_inv c'" "same_geo c c'" "set (all_slabs c') = set (all_slabs c)"
    "p \<in> slots c s" "\<not> in_use c p" "in_use c' = (in_use c)(p := True)" using take_object_spec [OF inv s] by blast
  obtain sl rest where sl: "sc_slab c s = Some sl" "sl_free_objs sl = p # rest"
    "sc_slab c' = (sc_slab c)(s \<mapsto> sl\<lparr>sl_free_objs := rest, sl_num_free := sl_num_free sl - 1\<rparr>)"
    "slab_config c' = slab_config c" "sc_released c' = sc_released c"
    using t(1) by (auto simp: take_object_def Let_def slab_config_def [of "_ \<lparr>sc_num_free := _\<rparr>"] slab_config_def [of "_ \<lparr>sc_slab := _\<rparr>"]
        slab_config_def [of c] split: option.splits list.splits if_splits)
  have "slab_data c' = slab_data c" using sl by (auto simp: slab_data_def fun_eq_iff)
  then have "slab_pages c' = slab_pages c" by (rule slab_pages_same [OF inv t(2,3,4)])
  moreover have "spare c = Suc (spare c')"
    using spare_upd [OF inv t(2) t(4) mem] sl by (simp add: free_of_def)
  ultimately show ?thesis using that t sl by blast
qed

lemma add_slab_pages:
  assumes "slab_inv c" "fresh_buffer c b"
  shows "slab_pages (add_slab c b d) = add_mset (b, d) (slab_pages c)" "spare (add_slab c b d) = spare c + nat (sc_num_objs c)"
    "slab_config (add_slab c b d) = slab_config c" "sc_released (add_slab c b d) = sc_released c"
proof -
  let ?s = "slab_from_pointer c b" and ?c = "add_slab c b d"
  obtain m where g: "slab_geo c m" using assms(1) by (auto simp: slab_inv_def)
  have f: "b AND (sc_slab_size c - 1) = 0" "?s \<notin> set (all_slabs c)" using assms(2) by (simp_all add: fresh_buffer_def)
  have e: "buffer_from_pointer ?c = buffer_from_pointer c" by (rule same_geo_eqs(5)) simp
  have b: "buffer_from_pointer c ?s = b" using slab_of_aligned [OF g f(1)] by simp
  have m: "mset (all_slabs ?c) = add_mset ?s (mset (all_slabs c))" by (simp add: all_slabs_def)
  have "image_mset (\<lambda>t. (buffer_from_pointer c t, slab_data ?c t)) (mset (all_slabs c)) = slab_pages c"
    unfolding slab_pages_def using f(2) by (intro image_mset_cong) (auto simp: slab_data_def)
  then show "slab_pages ?c = add_mset (b, d) (slab_pages c)"
    unfolding slab_pages_def [of ?c] m e using b by (simp add: slab_data_def)
  have "(\<Sum>t \<in># mset (all_slabs c). length (free_of ?c t)) = spare c"
    unfolding spare_def using f(2) by (intro arg_cong [of _ _ sum_mset] image_mset_cong) (auto simp: free_of_def)
  moreover have "length (obj_chain x n q) = Suc n" for x n q by (induction n arbitrary: q) auto
  then have "length (free_of ?c ?s) = nat (sc_num_objs c)" using slab_invD(2) [OF assms(1)] by (simp add: free_of_def Suc_nat_eq_nat_zadd1)
  ultimately show "spare ?c = spare c + nat (sc_num_objs c)" unfolding spare_def [of ?c] m by simp
qed (simp_all add: add_slab_def Let_def slab_config_def)

text \<open>Allocation: the cache grows when it has nothing to spare, and only then.\<close>

lemma spare_zero: "slab_inv c \<Longrightarrow> sc_part c = [] \<Longrightarrow> sc_free c = [] \<Longrightarrow> spare c = 0"
  using slab_invD(4) [of c] by (simp add: spare_def all_slabs_def)

lemma slab_alloc_pages:
  assumes inv: "slab_inv c" and g: "if sc_part c = [] \<and> sc_free c = [] then sc_grow_fn c \<and> (\<exists>b d. g = Some (b, d) \<and> fresh_buffer c b) else g = None"
  obtains c' p where "l4slab_alloc g (Some c) = Inr (Some c', p)" "slab_inv c'" "p \<noteq> 0" "\<not> in_use c p" "in_use c' = (in_use c)(p := True)"
    "slab_pages c' = (case g of None \<Rightarrow> slab_pages c | Some x \<Rightarrow> add_mset x (slab_pages c))"
    "Suc (spare c') = (case g of None \<Rightarrow> spare c | Some x \<Rightarrow> spare c + nat (sc_num_objs c))" "slab_config c' = slab_config c" "sc_released c' = sc_released c"
proof -
  obtain c1 s ol where c1: "pick_slab g c = Inr (c1, Some (s, ol))" "slab_inv c1" "in_use c1 = in_use c"
    "(ol = Part \<and> s \<in> set (sc_part c1)) \<or> (ol = Free \<and> s \<in> set (sc_free c1))"
    "slab_pages c1 = (case g of None \<Rightarrow> slab_pages c | Some x \<Rightarrow> add_mset x (slab_pages c))"
    "spare c1 = (case g of None \<Rightarrow> spare c | Some x \<Rightarrow> spare c + nat (sc_num_objs c))" "slab_config c1 = slab_config c" "sc_released c1 = sc_released c"
  proof (cases "sc_part c = [] \<and> sc_free c = []")
    case True
    then obtain b d where bd: "g = Some (b, d)" "fresh_buffer c b" "sc_grow_fn c" using g by auto
    have "pick_slab g c = Inr (add_slab c b d, Some (slab_from_pointer c b, Free))"
      using True bd by (simp add: pick_slab_def grow_cache_def fresh_buffer_def)
    moreover have "slab_inv (add_slab c b d)" "in_use (add_slab c b d) = in_use c"
      using add_slab_spec [OF inv] bd(2) by (simp_all add: fresh_buffer_def)
    ultimately show thesis using add_slab_pages [OF inv bd(2)] bd(1)
      by - (rule that [of "add_slab c b d" "slab_from_pointer c b" Free], simp_all)
  next
    case False
    then have "g = None" using g by (auto split: if_splits)
    then show thesis
      using that [of c] inv False by (cases "sc_part c"; cases "sc_free c") (auto simp: pick_slab_def)
  qed
  obtain c' p where t: "take_object s ol c1 = Inr (c', p)" "slab_inv c'" "p \<in> slots c1 s" "\<not> in_use c1 p" "in_use c' = (in_use c1)(p := True)"
    "slab_pages c' = slab_pages c1" "spare c1 = Suc (spare c')" "slab_config c' = slab_config c1" "sc_released c' = sc_released c1"
    using take_object_pages [OF c1(2,4)] by blast
  have "s \<in> set (all_slabs c1)" using c1(4) by (auto simp: all_slabs_def)
  then have "desc_ok c1 s" using slab_invD(3) [OF c1(2)] by (simp add: slab_ok_def)
  moreover obtain k where "slab_geo c1 k" using c1(2) by (auto simp: slab_inv_def)
  ultimately have "p \<noteq> 0" using slots_nonzero t(3) by blast
  then show ?thesis using that [of c' p] c1 t by (simp add: l4slab_alloc_def)
qed

text \<open>Freeing: every page the cache has before it still has afterwards, or it was given to the release callback.\<close>

lemma put_object_pages:
  assumes inv: "slab_inv c" and u: "in_use c p"
  obtains c' where "put_object p c = Inr c'" "slab_inv c'" "in_use c' = (in_use c)(p := False)" "slab_pages c' = slab_pages c"
    "slab_config c' = slab_config c" "sc_released c' = sc_released c"
proof -
  obtain c' where t: "put_object p c = Inr c'" "slab_inv c'" "in_use c' = (in_use c)(p := False)" using put_object_spec [OF inv u] by blast
  let ?s = "slab_from_pointer c p"
  obtain s where s: "s \<in> set (all_slabs c)" "p \<in> slots c s" using u by (auto simp: in_use_def)
  obtain m where m: "slab_geo c m" using inv by (auto simp: slab_inv_def)
  have sp: "?s = s" using slots_slab [OF m _ s(2)] slab_invD(3) [OF inv s(1)] by (simp add: slab_ok_def)
  obtain sl where sl: "sc_slab c ?s = Some sl" "sc_slab c' = (sc_slab c)(?s \<mapsto> sl\<lparr>sl_free_objs := p # sl_free_objs sl, sl_num_free := sl_num_free sl + 1\<rparr>)"
    "slab_config c' = slab_config c" "sc_released c' = sc_released c" "same_geo c c'"
    using t(1) by (auto simp: put_object_def Let_def slab_config_def [of "_ \<lparr>sc_num_free := _\<rparr>"] slab_config_def [of "_ \<lparr>sc_slab := _\<rparr>"]
        slab_config_def [of c] same_geo_def [of c "_ \<lparr>sc_num_free := _\<rparr>"] same_geo_def [of c "_ \<lparr>sc_slab := _\<rparr>"] split: option.splits if_splits)
  have "set (all_slabs c') = set (all_slabs c)"
  proof -
    have n: "sl_num_free sl = int (length (sl_free_objs sl))" using slab_invD(3) [OF inv s(1)] sl(1) sp by (auto simp: slab_ok_def)
    have "s \<notin> set (sc_free c)" using free_slab_unused [OF inv, of s] s u m sp sl(1) in_use_upd [OF inv s(1), of c p] by (auto simp: same_geo_def)
    then have "if sl_free_objs sl = [] then s \<in> set (sc_full c) else s \<in> set (sc_part c)"
      using s(1) slab_invD(4,5) [OF inv, of s] sl(1) sp by (auto simp: all_slabs_def free_of_def)
    then show ?thesis using t(1) sl(1) sp n slab_invD(1) [OF inv]
      by (auto simp: put_object_def Let_def relink_lists all_slabs_def split: if_splits)
  qed
  moreover have "slab_data c' = slab_data c" using sl by (auto simp: slab_data_def fun_eq_iff)
  ultimately have "slab_pages c' = slab_pages c" by (rule slab_pages_same [OF inv t(2) sl(5)])
  then show ?thesis using that t sl by blast
qed

lemma shrink_loop_pages:
  assumes "slab_inv c" "sc_free c = ss"
  shows "\<exists>c'. shrink_loop ss c = Inr c' \<and> slab_inv c' \<and> in_use c' = in_use c \<and> slab_config c' = slab_config c \<and>
    slab_pages c' + mset (sc_released c') = slab_pages c + mset (sc_released c)"
  using assms
proof (induction ss arbitrary: c)
  case Nil
  then show ?case using slab_invD(7) by force
next
  case (Cons s ss)
  show ?case
  proof (cases "of_int (sc_num_free c) > sc_max_free c")
    case True
    have m: "s \<in> set (sc_free c)" "s \<in> set (all_slabs c)" using Cons.prems by (simp_all add: all_slabs_def)
    obtain sl where sl: "sc_slab c s = Some sl" "sl_num_free sl = sc_num_objs c"
      using slab_invD(3) [OF Cons.prems(1) m(2)] slab_invD(6) [OF Cons.prems(1) m(1)] by (auto simp: slab_ok_def free_of_def)
    let ?c = "c\<lparr>sc_free := ss, sc_num_slabs := sc_num_slabs c - 1, sc_num_free := sc_num_free c - 1,
      sc_slab := (sc_slab c)(s := None), sc_released := (buffer_from_pointer c s, sl_data sl) # sc_released c\<rparr>"
    have i: "slab_inv ?c" "in_use ?c = in_use c" using drop_free_slab [OF Cons.prems refl] by simp_all
    have a: "mset (all_slabs c) = add_mset s (mset (all_slabs ?c))" using Cons.prems(2) by (simp add: all_slabs_def)
    have "s \<notin> set (all_slabs ?c)" using slab_invD(1) [OF Cons.prems(1)] Cons.prems(2) by (auto simp: all_slabs_def)
    then have "slab_pages c = add_mset (buffer_from_pointer c s, sl_data sl) (slab_pages ?c)"
      unfolding slab_pages_def a using sl(1)
      by (auto simp: slab_data_def buffer_from_pointer_def intro!: image_mset_cong)
    then show ?thesis using Cons.IH [OF i(1)] i(2) True sl by (auto simp: slab_config_def)
  next
    case False
    then show ?thesis using Cons.prems by auto
  qed
qed

lemma slab_free_pages:
  assumes inv: "slab_inv c" and u: "in_use c p" and r: "sc_release_fn c" "sc_released c = []"
  obtains c' where "l4slab_free (Some c) p = Inr (Some c')" "slab_inv c'" "in_use c' = (in_use c)(p := False)"
    "slab_pages c' + mset (sc_released c') = slab_pages c" "slab_config c' = slab_config c"
proof -
  obtain c1 where c1: "put_object p c = Inr c1" "slab_inv c1" "in_use c1 = (in_use c)(p := False)" "slab_pages c1 = slab_pages c"
    "slab_config c1 = slab_config c" "sc_released c1 = sc_released c" using put_object_pages [OF inv u] by blast
  obtain c2 where c2: "shrink_loop (sc_free c1) c1 = Inr c2" "slab_inv c2" "in_use c2 = in_use c1" "slab_config c2 = slab_config c1"
    "slab_pages c2 + mset (sc_released c2) = slab_pages c1 + mset (sc_released c1)" using shrink_loop_pages [OF c1(2) refl] by blast
  have "p \<noteq> 0"
  proof -
    obtain s m where "s \<in> set (all_slabs c)" "p \<in> slots c s" "slab_geo c m" using inv u by (auto simp: in_use_def slab_inv_def)
    then show ?thesis using slab_invD(3) [OF inv, of s] slots_nonzero [of c m s p] by (simp add: slab_ok_def)
  qed
  moreover have "sc_release_fn c1" using c1(5) r(1) by (simp add: slab_config_def)
  ultimately have "l4slab_free (Some c) p = Inr (Some (if of_int (sc_num_free c1) > sc_max_free c1 then c2 else c1))"
    using c1(1) c2(1) by (simp add: l4slab_free_def shrink_cache_def)
  then show ?thesis using that c1 c2 r(2) by (cases "of_int (sc_num_free c1) > sc_max_free c1") auto
qed

end
