(* ===== verification/DmInt.thy ===== *)
theory DmInt
  imports DmPool SlabPages
begin

text \<open>
  The memory for area descriptors: pages of the internal pool, pages in the slab cache of the descriptors and areas in the
  table of freed areas are disjoint pages. A page that does not come from \<open>sigma0\<close> is a used area of one page of the
  default pool. \<open>X\<close> are the pages that other slab caches of the server have.
\<close>

section \<open>The invariant\<close>

definition avail :: "dm_state \<Rightarrow> nat set" where
  "avail s = {i. i < POOL_SIZE \<and> ip_available (dm_int s i)}"

definition int_entry :: "dm_state \<Rightarrow> nat \<Rightarrow> l4_addr_t \<times> u32" where
  "int_entry s i = (ip_map_addr (dm_int s i), ip_area (dm_int s i))"

definition cache_pages :: "slab_cache option \<Rightarrow> (l4_addr_t \<times> u32) multiset" where
  "cache_pages c = (case c of None \<Rightarrow> {#} | Some c \<Rightarrow> slab_pages c)"

definition int_pages :: "dm_state \<Rightarrow> (l4_addr_t \<times> u32) multiset" where
  "int_pages s = image_mset (int_entry s) (mset_set (avail s)) + cache_pages (dm_cache s) +
     image_mset (\<lambda>a. (pa_addr (dm_area s a), a)) (mset (dm_freed s))"

definition cache_ok :: "slab_cache option \<Rightarrow> bool" where
  "cache_ok cache \<longleftrightarrow> (\<exists>c. cache = Some c \<and> slab_inv c \<and> slab_config c = (True, True, 0, 4096, 127))"

definition page_ok :: "(nat \<Rightarrow> nat set) \<Rightarrow> dm_state \<Rightarrow> l4_addr_t \<times> u32 \<Rightarrow> bool" where
  "page_ok C s = (\<lambda>(page, d). 4096 dvd unat page \<and> page \<noteq> 0 \<and>
     (if d = 0 then \<forall>k. {unat page ..< unat page + 4096} \<inter> C k = {}
      else d \<in> set (pp_areas (dm_pools s 0)) \<and> IS_USED_AREA (dm_area s d) \<and> pa_addr (dm_area s d) = page \<and>
        pa_size (dm_area s d) = 4096 \<and> pa_ds_next (dm_area s d) = 0))"

definition int_inv :: "(nat \<Rightarrow> nat set) \<Rightarrow> (l4_addr_t \<times> u32) multiset \<Rightarrow> dm_state \<Rightarrow> bool" where
  "int_inv C X s \<longleftrightarrow> cache_ok (dm_cache s) \<and> (\<forall>p. count (image_mset fst (int_pages s + X)) p \<le> 1) \<and>
     (\<forall>x \<in># int_pages s + X. page_ok C s x) \<and> (\<forall>i < DMPHYS_INT_POOL_INITIAL. ip_area (dm_int s i) = 0) \<and>
     (\<forall>i < POOL_SIZE. ip_map_addr (dm_int s i) = - 1 \<longrightarrow> \<not> ip_available (dm_int s i)) \<and>
     dm_num_free s = int (card (avail s)) \<and> 0 \<notin> set (dm_freed s)"

definition cache_used :: "dm_state \<Rightarrow> l4_addr_t \<Rightarrow> bool" where
  "cache_used s p = (case dm_cache s of None \<Rightarrow> False | Some c \<Rightarrow> in_use c p)"

definition descs :: "dm_state \<Rightarrow> nat" where
  "descs s = (case dm_cache s of None \<Rightarrow> 0 | Some c \<Rightarrow> spare c) + 127 * card (avail s)"

text \<open>What no operation on descriptors touches.\<close>

definition int_frame :: "dm_state \<Rightarrow> dm_state \<Rightarrow> bool" where
  "int_frame s s' \<longleftrightarrow> dm_area s' = dm_area s \<and> dm_pools s' = dm_pools s \<and> dm_mem s' = dm_mem s \<and> dm_update s' = dm_update s"

lemma int_frame_refl [simp]: "int_frame s s"
  by (simp add: int_frame_def)

lemma int_frame_trans: "int_frame s s' \<Longrightarrow> int_frame s' s'' \<Longrightarrow> int_frame s s''"
  by (simp add: int_frame_def)

lemma page_ok_frame: "int_frame s s' \<Longrightarrow> page_ok C s' = page_ok C s"
  by (auto simp: page_ok_def int_frame_def fun_eq_iff)

lemma finite_avail [simp]: "finite (avail s)"
  by (simp add: avail_def)

lemma int_entry_fields [simp]:
  "int_entry (s\<lparr>dm_freed := x\<rparr>) = int_entry s" "int_entry (s\<lparr>dm_cache := y\<rparr>) = int_entry s"
  "avail (s\<lparr>dm_freed := x\<rparr>) = avail s" "avail (s\<lparr>dm_cache := y\<rparr>) = avail s"
  by (simp_all add: int_entry_def avail_def fun_eq_iff)

lemma count_sub:
  assumes "\<forall>p. count (image_mset fst (M :: ('a \<times> 'b) multiset)) p \<le> 1" "N \<subseteq># M"
  shows "\<forall>p. count (image_mset fst N) p \<le> 1"
  using assms image_mset_subseteq_mono [OF assms(2), of fst] by (meson mset_subset_eq_count order_trans)

lemma count_one_neq:
  assumes "\<forall>p. count (image_mset fst (add_mset (a, x) (add_mset (b, y) M))) p \<le> 1"
  shows "a \<noteq> b"
proof
  assume "a = b"
  then have "count (image_mset fst (add_mset (a, x) (add_mset (b, y) M))) a \<ge> 2" by simp
  then show False using assms by (metis Suc_1 not_less_eq_eq)
qed

section \<open>Pages of the internal pool\<close>

lemma int_entry_upd:
  "i \<notin> A \<Longrightarrow> image_mset (int_entry (s\<lparr>dm_int := (dm_int s)(i := e), dm_num_free := n\<rparr>)) (mset_set A) = image_mset (int_entry s) (mset_set A)"
  by (cases "finite A") (auto simp: int_entry_def intro!: image_mset_cong)

lemma int_allocate_ok:
  assumes inv: "int_inv C X s" and av: "avail s \<noteq> {}"
  obtains s' page d where "int_allocate s = Inr (s', page, d)" "int_inv C (add_mset (page, d) X) s'" "int_frame s s'"
    "dm_cache s' = dm_cache s" "dm_freed s' = dm_freed s" "card (avail s) = Suc (card (avail s'))" "int_pages s = add_mset (page, d) (int_pages s')"
proof -
  obtain j where j: "j < POOL_SIZE" "ip_available (dm_int s j)" using av by (auto simp: avail_def)
  then have "first_index (\<lambda>i. ip_available (dm_int s i)) 0 POOL_SIZE \<noteq> None" using first_index_None_iff by (metis add_0 zero_le)
  then obtain i where i: "first_index (\<lambda>i. ip_available (dm_int s i)) 0 POOL_SIZE = Some i" by blast
  have ia: "i < POOL_SIZE" "ip_available (dm_int s i)" using first_index_SomeD [OF i] by simp_all
  define e where "e = (if ip_area (dm_int s i) = 0 then (dm_int s i)\<lparr>ip_available := False\<rparr> else \<lparr>ip_available = False, ip_map_addr = - 1, ip_area = 0\<rparr>)"
  define s' where "s' = s\<lparr>dm_int := (dm_int s)(i := e), dm_num_free := dm_num_free s - 1\<rparr>"
  have r: "int_allocate s = Inr (s', ip_map_addr (dm_int s i), ip_area (dm_int s i))"
    by (simp add: int_allocate_def i Let_def s'_def e_def)
  have ne: "\<not> ip_available e" by (simp add: e_def)
  have a: "avail s = insert i (avail s')" "i \<notin> avail s'" using ia ne by (auto simp: avail_def s'_def)
  have ip: "int_pages s = add_mset (int_entry s i) (int_pages s')"
  proof -
    have "image_mset (int_entry s') (mset_set (avail s')) = image_mset (int_entry s) (mset_set (avail s'))"
      unfolding s'_def by (rule int_entry_upd) (use a s'_def in simp)
    then show ?thesis using a by (simp add: int_pages_def) (simp add: s'_def)
  qed
  have fr: "int_frame s s'" by (simp add: int_frame_def s'_def)
  have "int_inv C (add_mset (int_entry s i) X) s'"
    using inv ip page_ok_frame [OF fr, of C] a ne unfolding int_inv_def
    by (auto simp: s'_def e_def)
  then show ?thesis
    using that [OF r] fr ip a by (simp add: int_entry_def s'_def [symmetric]) (simp add: s'_def)
qed

lemma int_release_ok:
  assumes inv: "int_inv C (add_mset (page, d) X) s"
  shows "int_inv C X (int_release page d s)" "int_frame s (int_release page d s)" "dm_cache (int_release page d s) = dm_cache s"
    "int_pages (int_release page d s) \<subseteq># add_mset (page, d) (int_pages s)" "avail s \<subseteq> avail (int_release page d s)"
proof -
  let ?s = "int_release page d s"
  have pd: "page_ok C s (page, d)" using inv by (simp add: int_inv_def)
  show fr: "int_frame s ?s" by (auto simp: int_frame_def int_release_def split: option.splits)
  show "dm_cache ?s = dm_cache s" by (auto simp: int_release_def split: option.splits)
  have main: "int_pages ?s \<subseteq># add_mset (page, d) (int_pages s) \<and> avail s \<subseteq> avail ?s \<and> (\<forall>i < DMPHYS_INT_POOL_INITIAL. ip_area (dm_int ?s i) = 0) \<and>
     (\<forall>i < POOL_SIZE. ip_map_addr (dm_int ?s i) = - 1 \<longrightarrow> \<not> ip_available (dm_int ?s i)) \<and> dm_num_free ?s = int (card (avail ?s)) \<and>
     0 \<notin> set (dm_freed ?s)"
  proof -
    have put: ?thesis if r: "?s = s\<lparr>dm_int := (dm_int s)(i := e), dm_num_free := dm_num_free s + 1\<rparr>"
      and e: "ip_available e" "ip_map_addr e = page" "ip_area e = d" "i < POOL_SIZE" "\<not> ip_available (dm_int s i)" "i < DMPHYS_INT_POOL_INITIAL \<longrightarrow> d = 0" for i e
    proof -
      have a: "avail ?s = insert i (avail s)" "i \<notin> avail s" using e by (auto simp: avail_def r)
      have "image_mset (int_entry ?s) (mset_set (avail s)) = image_mset (int_entry s) (mset_set (avail s))"
        unfolding r by (rule int_entry_upd) (rule a(2))
      moreover have "int_entry ?s i = (page, d)" using e by (simp add: int_entry_def r)
      moreover have "dm_cache ?s = dm_cache s" "dm_freed ?s = dm_freed s" "dm_area ?s = dm_area s" by (simp_all add: r)
      ultimately have "int_pages ?s = add_mset (page, d) (int_pages s)" using a by (simp add: int_pages_def)
      moreover have "page \<noteq> - 1"
      proof
        assume "page = - 1"
        then have "4096 dvd unat (- 1 :: u32)" using pd by (simp add: page_ok_def)
        then show False by (simp add: unsigned_minus_1_eq_mask mask_eq_exp_minus_1)
      qed
      ultimately show ?thesis using inv a e unfolding int_inv_def by (auto simp: r)
    qed
    show ?thesis
    proof (cases "d = 0")
      case False
      then have ad: "pa_addr (dm_area s d) = page" using pd by (simp add: page_ok_def)
      show ?thesis
      proof (cases "first_index (\<lambda>i. ip_map_addr (dm_int s i) = - 1) DMPHYS_INT_POOL_INITIAL DMPHYS_INT_POOL_MAX_ALLOC")
        case None
        then show ?thesis using False inv ad unfolding int_inv_def by (auto simp: int_release_def int_pages_def)
      next
        case (Some i)
        note f = first_index_SomeD [OF Some]
        have lt: "i < POOL_SIZE" "\<not> i < DMPHYS_INT_POOL_INITIAL" using f by (simp_all add: POOL_SIZE_def)
        moreover have "\<not> ip_available (dm_int s i)" using inv f lt by (auto simp: int_inv_def)
        ultimately show ?thesis
          using False Some ad by (intro put [of i "\<lparr>ip_available = True, ip_map_addr = page, ip_area = d\<rparr>"]) (simp_all add: int_release_def)
      qed
    next
      case True
      show ?thesis
      proof (cases "first_index (\<lambda>i. ip_map_addr (dm_int s i) = page) 0 DMPHYS_INT_POOL_INITIAL")
        case None
        then show ?thesis using True inv unfolding int_inv_def by (auto simp: int_release_def)
      next
        case (Some i)
        note f = first_index_SomeD [OF Some]
        have lt: "i < POOL_SIZE" "i < DMPHYS_INT_POOL_INITIAL" using f by (simp_all add: POOL_SIZE_def)
        have "\<not> ip_available (dm_int s i)"
        proof
          assume "ip_available (dm_int s i)"
          then have "i \<in> avail s" using lt by (simp add: avail_def)
          then have "int_entry s i \<in># int_pages s" by (simp add: int_pages_def)
          then obtain M where "int_pages s = add_mset (int_entry s i) M" by (metis multi_member_split)
          then have "\<forall>p. count (image_mset fst (add_mset (page, d) (add_mset (page, ip_area (dm_int s i)) (M + X)))) p \<le> 1"
            using inv f unfolding int_inv_def by (simp add: int_entry_def add_mset_commute)
          from count_one_neq [OF this] show False by simp
        qed
        then show ?thesis
          using True Some lt f inv by (intro put [of i "(dm_int s i)\<lparr>ip_available := True\<rparr>"]) (simp_all add: int_release_def int_inv_def)
      qed
    qed
  qed
  show "int_pages ?s \<subseteq># add_mset (page, d) (int_pages s)" "avail s \<subseteq> avail ?s" using main by simp_all
  then have sub: "int_pages ?s + X \<subseteq># int_pages s + add_mset (page, d) X" using subset_mset.add_right_mono [of "int_pages ?s" "add_mset (page, d) (int_pages s)" X] by simp
  have "\<forall>x \<in># int_pages ?s + X. page_ok C ?s x"
    using inv mset_subset_eqD [OF sub] unfolding page_ok_frame [OF fr] int_inv_def by blast
  moreover have "\<forall>p. count (image_mset fst (int_pages ?s + X)) p \<le> 1" by (rule count_sub [OF _ sub]) (use inv in \<open>simp add: int_inv_def\<close>)
  moreover have "cache_ok (dm_cache ?s)" using inv \<open>dm_cache ?s = dm_cache s\<close> by (simp add: int_inv_def)
  ultimately show "int_inv C X ?s" using main unfolding int_inv_def by blast
qed

lemma int_release_fold:
  "int_inv C (mset L + X) s \<Longrightarrow>
   int_inv C X (fold (\<lambda>(page, d). dmphys_internal_alloc_release page d) L s) \<and> int_frame s (fold (\<lambda>(page, d). dmphys_internal_alloc_release page d) L s) \<and>
   dm_cache (fold (\<lambda>(page, d). dmphys_internal_alloc_release page d) L s) = dm_cache s \<and>
   int_pages (fold (\<lambda>(page, d). dmphys_internal_alloc_release page d) L s) \<subseteq># int_pages s + mset L"
proof (induction L arbitrary: s)
  case (Cons x L)
  obtain page d where x: "x = (page, d)" by force
  let ?s = "int_release page d s"
  have "int_inv C (add_mset (page, d) (mset L + X)) s" using Cons.prems x by simp
  note r = int_release_ok [OF this]
  note ih = Cons.IH [OF r(1)]
  have "int_pages ?s + mset L \<subseteq># int_pages s + add_mset (page, d) (mset L)"
    using subset_mset.add_right_mono [OF r(4), of "mset L"] by simp
  then show ?case using ih r(2,3) x int_frame_trans by (auto simp: dmphys_internal_alloc_release_def intro: subset_mset.order_trans)
qed simp

section \<open>Descriptors\<close>

lemma fresh_page:
  assumes c: "slab_inv c" "sc_slab_size c = 4096" and p: "4096 dvd unat page" "page \<noteq> 0"
    and n: "\<forall>p. count (image_mset fst (add_mset (page, d) (slab_pages c + M))) p \<le> 1"
  shows "fresh_buffer c page"
proof -
  obtain m where g: "slab_geo c m" using c(1) by (auto simp: slab_inv_def)
  have "take_bit 12 page = 0" using p(1) by (simp add: page_bits)
  then have al: "page AND (sc_slab_size c - 1) = 0" using c(2) by (simp add: take_bit_eq_mask mask_eq_exp_minus_1)
  have "slab_from_pointer c page \<notin> set (all_slabs c)"
  proof
    assume "slab_from_pointer c page \<in> set (all_slabs c)"
    then have "(buffer_from_pointer c (slab_from_pointer c page), slab_data c (slab_from_pointer c page)) \<in># slab_pages c"
      by (simp add: slab_pages_def)
    then obtain N x where "slab_pages c = add_mset (page, x) N" using slab_of_aligned [OF g al] by (metis multi_member_split)
    then show False using n count_one_neq [of page d page x "N + M"] by simp
  qed
  then show ?thesis using al p(2) by (simp add: fresh_buffer_def)
qed

lemma cache_okD:
  assumes "cache_ok cache"
  obtains c where "cache = Some c" "slab_inv c" "sc_grow_fn c" "sc_release_fn c" "sc_max_free c = 0" "sc_slab_size c = 4096" "sc_num_objs c = 127"
  using assms by (auto simp: cache_ok_def slab_config_def)

text \<open>The cache of an invariant state exchanged for one with other pages.\<close>

lemma int_inv_cache:
  assumes "int_inv C X s" "cache_ok (Some c)" "int_pages s + X = int_pages (s\<lparr>dm_cache := Some c\<rparr>) + Y"
  shows "int_inv C Y (s\<lparr>dm_cache := Some c\<rparr>)"
proof -
  have "page_ok C (s\<lparr>dm_cache := Some c\<rparr>) = page_ok C s" by (rule page_ok_frame) (simp add: int_frame_def)
  then show ?thesis using assms unfolding int_inv_def by (simp add: avail_def)
qed

lemma int_pages_cache: "dm_cache s = Some c \<Longrightarrow> int_pages (s\<lparr>dm_cache := Some c'\<rparr>) + slab_pages c = int_pages s + slab_pages c'"
  by (simp add: int_pages_def cache_pages_def algebra_simps)

lemma alloc_area_desc_ok:
  assumes inv: "int_inv C X s" and d: "0 < descs s"
  obtains s' p where "alloc_area_desc s = Inr (s', p)" "int_inv C X s'" "int_frame s s'" "p \<noteq> 0" "\<not> cache_used s p"
    "cache_used s' = (cache_used s)(p := True)" "descs s = Suc (descs s')" "int_pages s' = int_pages s" "dm_freed s' = dm_freed s"
proof -
  obtain c where c: "dm_cache s = Some c" "slab_inv c" "sc_grow_fn c" "sc_release_fn c" "sc_max_free c = 0" "sc_slab_size c = 4096" "sc_num_objs c = 127"
    using inv cache_okD unfolding int_inv_def by metis
  show ?thesis
  proof (cases "sc_part c = [] \<and> sc_free c = []")
    case True
    then have "spare c = 0" using spare_zero c(2) by blast
    then have "avail s \<noteq> {}" using d c(1) by (auto simp: descs_def)
    from int_allocate_ok [OF inv this] obtain s1 page x where s1: "int_allocate s = Inr (s1, page, x)" "int_inv C (add_mset (page, x) X) s1" "int_frame s s1"
      "dm_cache s1 = dm_cache s" "dm_freed s1 = dm_freed s" "card (avail s) = Suc (card (avail s1))" "int_pages s = add_mset (page, x) (int_pages s1)" .
    have pg: "4096 dvd unat page" "page \<noteq> 0" using s1(2) by (auto simp: int_inv_def page_ok_def)
    obtain M where M: "int_pages s1 = slab_pages c + M"
      using s1(4) c(1) by (metis (no_types, lifting) add.assoc add.left_commute cache_pages_def int_pages_def option.simps(5))
    have "\<forall>p. count (image_mset fst (add_mset (page, x) (slab_pages c + (M + X)))) p \<le> 1"
      using s1(2) M unfolding int_inv_def by (simp add: add.assoc)
    then have fb: "fresh_buffer c page" by (rule fresh_page [OF c(2,6) pg])
    have "if sc_part c = [] \<and> sc_free c = [] then sc_grow_fn c \<and> (\<exists>b d. Some (page, x) = Some (b, d) \<and> fresh_buffer c b) else Some (page, x) = None"
      using True c(3) fb by simp
    from slab_alloc_pages [OF c(2) this] obtain c' p where a: "l4slab_alloc (Some (page, x)) (Some c) = Inr (Some c', p)" "slab_inv c'" "p \<noteq> 0" "\<not> in_use c p" "in_use c' = (in_use c)(p := True)"
      "slab_pages c' = add_mset (page, x) (slab_pages c)" "Suc (spare c') = spare c + nat (sc_num_objs c)" "slab_config c' = slab_config c" by (metis option.simps(5))
    let ?s = "s1\<lparr>dm_cache := Some c'\<rparr>"
    have "cache_ok (Some c')" using a(2,8) c by (simp add: cache_ok_def slab_config_def)
    moreover have ip: "int_pages ?s = add_mset (page, x) (int_pages s1)"
      using int_pages_cache [of s1 c c'] s1(4) c(1) a(6) by simp
    ultimately have "int_inv C X ?s" using s1(2) by (intro int_inv_cache [OF s1(2)]) simp_all
    moreover have "alloc_area_desc s = Inr (?s, p)"
      using True c(1,3) s1(1,4) a(1,3) pg by (simp add: alloc_area_desc_def needs_grow_def dmphys_internal_alloc_grow_def)
    moreover have "int_frame s ?s" using s1(3) by (simp add: int_frame_def)
    moreover have "descs s = Suc (descs ?s)" using a(7) c(1,7) s1(6) \<open>spare c = 0\<close> by (simp add: descs_def avail_def)
    ultimately show ?thesis using a c(1) ip s1(5,7) by (intro that [of ?s p]) (simp_all add: cache_used_def fun_eq_iff)
  next
    case False
    have "if sc_part c = [] \<and> sc_free c = [] then sc_grow_fn c \<and> (\<exists>b d. None = Some (b, d) \<and> fresh_buffer c b) else (None :: (l4_addr_t \<times> u32) option) = None"
      using False by simp
    from slab_alloc_pages [OF c(2) this] obtain c' p where a: "l4slab_alloc None (Some c) = Inr (Some c', p)" "slab_inv c'" "p \<noteq> 0" "\<not> in_use c p" "in_use c' = (in_use c)(p := True)"
      "slab_pages c' = slab_pages c" "Suc (spare c') = spare c" "slab_config c' = slab_config c" by (metis option.simps(4))
    let ?s = "s\<lparr>dm_cache := Some c'\<rparr>"
    have "cache_ok (Some c')" using a(2,8) c by (simp add: cache_ok_def slab_config_def)
    moreover have ip: "int_pages ?s = int_pages s" using int_pages_cache [of s c c'] c(1) a(6) by simp
    ultimately have "int_inv C X ?s" by (intro int_inv_cache [OF inv]) simp_all
    moreover have "alloc_area_desc s = Inr (?s, p)"
      using False c(1) a(1,3) by (auto simp: alloc_area_desc_def needs_grow_def)
    moreover have "descs s = Suc (descs ?s)" using a(7) c(1) by (simp add: descs_def avail_def)
    ultimately show ?thesis using a c(1) ip by (intro that [of ?s p]) (simp_all add: cache_used_def fun_eq_iff int_frame_def)
  qed
qed

lemma released_irrelevant:
  "slab_inv (c\<lparr>sc_released := x\<rparr>) = slab_inv c" "in_use (c\<lparr>sc_released := x\<rparr>) = in_use c"
  "slab_pages (c\<lparr>sc_released := x\<rparr>) = slab_pages c" "slab_config (c\<lparr>sc_released := x\<rparr>) = slab_config c" "spare (c\<lparr>sc_released := x\<rparr>) = spare c"
proof -
  let ?c = "c\<lparr>sc_released := x\<rparr>"
  have g: "same_geo c ?c" by (simp add: same_geo_def)
  have f: "free_of ?c = free_of c" "all_slabs ?c = all_slabs c" "slab_data ?c = slab_data c"
    by (simp_all add: free_of_def all_slabs_def slab_data_def fun_eq_iff)
  show "in_use ?c = in_use c" unfolding in_use_def f same_geo_eqs [OF g] ..
  show "slab_pages ?c = slab_pages c" "spare ?c = spare c" unfolding slab_pages_def spare_def f same_geo_eqs [OF g] by rule+
  have "slab_ok ?c = slab_ok c" unfolding slab_ok_def f same_geo_eqs [OF g] by simp
  then show "slab_inv ?c = slab_inv c" unfolding slab_inv_def f same_geo_eqs [OF g] by simp
qed (simp add: slab_config_def)

lemma release_area_desc_ok:
  assumes inv: "int_inv C X s" and u: "cache_used s p"
  obtains s' where "release_area_desc p s = Inr s'" "int_inv C X s'" "int_frame s s'"
    "cache_used s' = (cache_used s)(p := False)" "int_pages s' \<subseteq># int_pages s"
proof -
  obtain c where c: "dm_cache s = Some c" "slab_inv c" "sc_release_fn c" and cfg: "slab_config c = (True, True, 0, 4096, 127)"
    using inv unfolding int_inv_def cache_ok_def by (auto simp: slab_config_def)
  let ?c = "c\<lparr>sc_released := []\<rparr>"
  have "slab_inv ?c" "in_use ?c p" "sc_release_fn ?c" "sc_released ?c = []" using c u by (simp_all add: released_irrelevant cache_used_def)
  from slab_free_pages [OF this] obtain c1 where c1: "l4slab_free (Some ?c) p = Inr (Some c1)" "slab_inv c1" "in_use c1 = (in_use c)(p := False)"
    "slab_pages c1 + mset (sc_released c1) = slab_pages c" "slab_config c1 = slab_config c" unfolding released_irrelevant by blast
  let ?c1 = "c1\<lparr>sc_released := []\<rparr>" and ?L = "rev (sc_released c1)"
  let ?s = "s\<lparr>dm_cache := Some ?c1\<rparr>"
  have ok: "cache_ok (Some ?c1)" using c1 cfg by (simp add: cache_ok_def released_irrelevant)
  have ip: "int_pages s = int_pages ?s + mset ?L"
  proof -
    have "int_pages ?s + slab_pages c = int_pages s + slab_pages c1" using int_pages_cache [OF c(1), of ?c1] by (simp add: released_irrelevant)
    then have "int_pages ?s + (slab_pages c1 + mset (sc_released c1)) = int_pages s + slab_pages c1" unfolding c1(4) .
    then have "int_pages ?s + mset ?L + slab_pages c1 = int_pages s + slab_pages c1" by (simp add: ac_simps)
    then show ?thesis by simp
  qed
  have "int_inv C (mset ?L + X) ?s" by (rule int_inv_cache [OF inv ok]) (use ip in \<open>simp add: ac_simps\<close>)
  note f = int_release_fold [OF this]
  let ?s' = "fold (\<lambda>(page, d). dmphys_internal_alloc_release page d) ?L ?s"
  have "release_area_desc p s = Inr ?s'"
    using c(1) c1(1) by (simp add: release_area_desc_def forget_released_def released_def)
  moreover have "int_frame s ?s'" using f int_frame_trans [of s ?s ?s'] by (simp add: int_frame_def)
  moreover have "cache_used ?s' = (cache_used s)(p := False)"
    using f c(1) c1(3) by (simp add: cache_used_def released_irrelevant fun_eq_iff)
  moreover have "int_pages ?s' \<subseteq># int_pages s" using f ip by simp
  ultimately show ?thesis using f that by blast
qed

section \<open>The state of the pools\<close>

text \<open>\<open>C k\<close> is the memory of pool \<open>k\<close>. In the middle of an operation on pool \<open>k\<close> the areas in \<open>H\<close> are in no free list.\<close>

definition cover :: "dm_state \<Rightarrow> nat \<Rightarrow> nat set" where
  "cover s k = (\<Union>p \<in> set (pp_areas (dm_pools s k)). area_range (dm_area s p))"

definition dm_ok :: "(nat \<Rightarrow> nat set) \<Rightarrow> (l4_addr_t \<times> u32) multiset \<Rightarrow> nat \<Rightarrow> l4_addr_t set \<Rightarrow> dm_state \<Rightarrow> bool" where
  "dm_ok C X k H s \<longleftrightarrow> int_inv C X s \<and> (\<forall>j. pool_wf (dm_area s) (if j = k then H else {}) (dm_pools s j)) \<and>
     (\<forall>j. \<forall>p \<in> set (pp_areas (dm_pools s j)). cache_used s p) \<and>
     (\<forall>i j. i \<noteq> j \<longrightarrow> set (pp_areas (dm_pools s i)) \<inter> set (pp_areas (dm_pools s j)) = {}) \<and> (\<forall>j. cover s j \<subseteq> C j)"

definition dm_inv :: "(nat \<Rightarrow> nat set) \<Rightarrow> (l4_addr_t \<times> u32) multiset \<Rightarrow> dm_state \<Rightarrow> bool" where
  "dm_inv C X s \<longleftrightarrow> dm_ok C X 0 {} s \<and> (\<forall>j. cover s j = C j)"

lemma dm_okD:
  assumes "dm_ok C X k H s"
  shows "int_inv C X s" "pool_wf (dm_area s) H (dm_pools s k)" "\<And>j. j \<noteq> k \<Longrightarrow> pool_wf (dm_area s) {} (dm_pools s j)"
    "\<And>j p. p \<in> set (pp_areas (dm_pools s j)) \<Longrightarrow> cache_used s p"
    "\<And>i j p. p \<in> set (pp_areas (dm_pools s i)) \<Longrightarrow> p \<in> set (pp_areas (dm_pools s j)) \<Longrightarrow> i = j" "\<And>j. cover s j \<subseteq> C j"
proof -
  show "int_inv C X s" "\<And>j p. p \<in> set (pp_areas (dm_pools s j)) \<Longrightarrow> cache_used s p" "\<And>j. cover s j \<subseteq> C j"
    using assms by (simp_all add: dm_ok_def)
  show "pool_wf (dm_area s) H (dm_pools s k)" using assms unfolding dm_ok_def by metis
  show "pool_wf (dm_area s) {} (dm_pools s j)" if "j \<noteq> k" for j using assms that unfolding dm_ok_def by metis
  show "i = j" if "p \<in> set (pp_areas (dm_pools s i))" "p \<in> set (pp_areas (dm_pools s j))" for i j p
    using assms that unfolding dm_ok_def by blast
qed

lemma dm_ok_empty: "dm_ok C X k {} s = dm_ok C X j {} s"
  by (simp add: dm_ok_def)

lemma dm_okI:
  assumes "int_inv C X s" "pool_wf (dm_area s) H (dm_pools s k)" "\<And>j. j \<noteq> k \<Longrightarrow> pool_wf (dm_area s) {} (dm_pools s j)"
    "\<And>j p. p \<in> set (pp_areas (dm_pools s j)) \<Longrightarrow> cache_used s p"
    "\<And>i j p. p \<in> set (pp_areas (dm_pools s i)) \<Longrightarrow> p \<in> set (pp_areas (dm_pools s j)) \<Longrightarrow> i = j" "\<And>j. cover s j \<subseteq> C j"
  shows "dm_ok C X k H s"
proof -
  have "pool_wf (dm_area s) (if j = k then H else {}) (dm_pools s j)" for j using assms(2,3) by simp
  then show ?thesis using assms(1,4,5,6) unfolding dm_ok_def by blast
qed

text \<open>The areas of internal pages.\<close>

definition int_areas :: "(l4_addr_t \<times> u32) multiset \<Rightarrow> dm_state \<Rightarrow> l4_addr_t set" where
  "int_areas X s = snd ` set_mset (int_pages s + X) - {0}"

lemma int_areas_used:
  assumes "int_inv C X s" "d \<in> int_areas X s"
  shows "d \<in> set (pp_areas (dm_pools s 0))" "IS_USED_AREA (dm_area s d)" "pa_ds_next (dm_area s d) = 0"
proof -
  obtain x where "x \<in># int_pages s + X" "snd x = d" "d \<noteq> 0" using assms(2) unfolding int_areas_def by blast
  then obtain page where "(page, d) \<in># int_pages s + X" by (cases x) auto
  then have "page_ok C s (page, d)" using assms(1) by (auto simp: int_inv_def)
  then show "d \<in> set (pp_areas (dm_pools s 0))" "IS_USED_AREA (dm_area s d)" "pa_ds_next (dm_area s d) = 0"
    using \<open>d \<noteq> 0\<close> by (auto simp: page_ok_def)
qed

text \<open>A change of pools and areas that leaves the internal areas alone.\<close>

lemma int_inv_areas:
  assumes inv: "int_inv C X s" and same: "dm_int s' = dm_int s" "dm_num_free s' = dm_num_free s" "dm_freed s' = dm_freed s" "dm_cache s' = dm_cache s"
    and keep: "\<And>d. d \<in> int_areas X s \<Longrightarrow> d \<in> set (pp_areas (dm_pools s' 0)) \<and> dm_area s' d = dm_area s d"
  shows "int_inv C X s' \<and> int_pages s' = int_pages s"
proof -
  have fr: "d \<in> int_areas X s" if "d \<in> set (dm_freed s)" for d using that inv by (force simp: int_areas_def int_pages_def int_inv_def)
  have e: "int_entry s' = int_entry s" "avail s' = avail s" using same by (simp_all add: int_entry_def avail_def fun_eq_iff)
  have "image_mset (\<lambda>a. (pa_addr (dm_area s' a), a)) (mset (dm_freed s)) = image_mset (\<lambda>a. (pa_addr (dm_area s a), a)) (mset (dm_freed s))"
    using keep fr by (intro image_mset_cong) auto
  then have ip: "int_pages s' = int_pages s" using same e by (simp add: int_pages_def)
  have "page_ok C s' (page, d)" if "(page, d) \<in># int_pages s + X" for page d
  proof -
    have "page_ok C s (page, d)" using inv that by (auto simp: int_inv_def)
    moreover have "d \<noteq> 0 \<Longrightarrow> d \<in> int_areas X s" using that by (force simp: int_areas_def)
    ultimately show ?thesis using keep [of d] by (auto simp: page_ok_def)
  qed
  then show ?thesis using inv ip same e unfolding int_inv_def by auto
qed

end
