(* ===== verification/DmAlloc.thy ===== *)
theory DmAlloc
  imports DmInt
begin

text \<open>
  Allocation and release of page areas: what the operations of \<open>pages.c\<close> do to the memory of a pool. The free memory of a
  pool is a set of addresses, its used areas are descriptors that only their owner changes.
\<close>

definition free_mem :: "l4_addr_t set \<Rightarrow> dm_state \<Rightarrow> nat \<Rightarrow> nat set" where
  "free_mem H s k = (\<Union>p \<in> frees H (dm_area s) (dm_pools s k). area_range (dm_area s p))"

definition used_areas :: "dm_state \<Rightarrow> nat \<Rightarrow> l4_addr_t set" where
  "used_areas s k = {p \<in> set (pp_areas (dm_pools s k)). IS_USED_AREA (dm_area s p)}"

text \<open>What stays as it is outside of the pool that an operation works on.\<close>

definition outside_same :: "nat \<Rightarrow> dm_state \<Rightarrow> dm_state \<Rightarrow> bool" where
  "outside_same k s s' \<longleftrightarrow> (\<forall>j. j \<noteq> k \<longrightarrow> dm_pools s' j = dm_pools s j) \<and> dm_mem s' = dm_mem s \<and> dm_update s' = dm_update s \<and>
     pp_reserved (dm_pools s' k) = pp_reserved (dm_pools s k) \<and> pp_size (dm_pools s' k) = pp_size (dm_pools s k) \<and>
     (\<forall>j p. j \<noteq> k \<longrightarrow> p \<in> set (pp_areas (dm_pools s j)) \<longrightarrow> dm_area s' p = dm_area s p)"

lemma outside_same_refl [simp]: "outside_same k s s"
  by (simp add: outside_same_def)

lemma outside_same_trans: "outside_same k s s' \<Longrightarrow> outside_same k s' s'' \<Longrightarrow> outside_same k s s''"
  by (auto simp: outside_same_def)

lemma wf_not_area: "p \<notin> set (pp_areas P) \<Longrightarrow> pool_wf m (insert p H) P = pool_wf m H P"
proof -
  assume "p \<notin> set (pp_areas P)"
  then have "frees (insert p H) m P = frees H m P" by (auto simp: frees_def)
  then show ?thesis by (simp add: pool_wf_def)
qed

section \<open>New free areas\<close>

definition new_area :: "l4_addr_t \<Rightarrow> u32 \<Rightarrow> page_area" where
  "new_area addr sz = \<lparr>pa_addr = addr, pa_size = sz, pa_flags = 0, pa_ds_next = 0\<rparr>"

lemma new_area_unused [simp]: "IS_UNUSED_AREA (new_area addr sz)" "pa_ds_next (new_area addr sz) = 0" "pa_addr (new_area addr sz) = addr" "pa_size (new_area addr sz) = sz"
  by (simp_all add: new_area_def IS_UNUSED_AREA_def IS_USED_AREA_def)

lemma add_free_area_ok:
  assumes ok: "dm_ok C X k H s" and d: "0 < descs s" and a: "area_ok (new_area addr sz)" and rg: "area_range (new_area addr sz) \<subseteq> C k"
    and dj: "\<And>q. q \<in> set (pp_areas (dm_pools s k)) \<Longrightarrow> area_range (dm_area s q) \<inter> area_range (new_area addr sz) = {}"
    and Hk: "H \<subseteq> set (pp_areas (dm_pools s k))"
  obtains s' q where "add_free_area k addr sz s = Inr s'" "dm_ok C X k H s'" "\<not> cache_used s q"
    "set (pp_areas (dm_pools s' k)) = insert q (set (pp_areas (dm_pools s k)))" "dm_area s' = (dm_area s)(q := new_area addr sz)"
    "outside_same k s s'" "descs s = Suc (descs s')" "int_pages s' = int_pages s" "dm_freed s' = dm_freed s"
    "cache_used s' = (cache_used s)(q := True)"
proof -
  note o = dm_okD [OF ok]
  obtain s1 p where s1: "alloc_area_desc s = Inr (s1, p)" "int_inv C X s1" "int_frame s s1" "p \<noteq> 0" "\<not> cache_used s p"
    "cache_used s1 = (cache_used s)(p := True)" "descs s = Suc (descs s1)" "int_pages s1 = int_pages s" "dm_freed s1 = dm_freed s"
    using alloc_area_desc_ok [OF o(1) d] by blast
  have f1: "dm_area s1 = dm_area s" "dm_pools s1 = dm_pools s" "dm_mem s1 = dm_mem s" "dm_update s1 = dm_update s" using s1(3) by (simp_all add: int_frame_def)
  have np: "p \<notin> set (pp_areas (dm_pools s j))" for j using o(4) s1(5) by blast
  let ?a = "new_area addr sz"
  define s2 where "s2 = set_area p (\<lambda>_. ?a) s1"
  have m2: "dm_area s2 = (dm_area s)(p := ?a)" "dm_pools s2 = dm_pools s" by (simp_all add: s2_def f1)
  have wf2: "pool_wf (dm_area s2) H (dm_pools s2 k)" unfolding m2 by (rule wf_other [OF o(2) np])
  have "area_range (dm_area s2 q) \<inter> area_range (dm_area s2 p) = {}" if "q \<in> set (pp_areas (dm_pools s2 k))" for q
    using dj [of q] that np [of k] m2 by auto
  from add_area_ok [OF wf2 _ this] a m2 obtain ps where ps: "add_area k p s2 = Inr (set_pool k (pp_areas_update (\<lambda>_. ps)) s2)"
    "set ps = insert p (set (pp_areas (dm_pools s k)))" "areas_sorted (dm_area s2) ps" by auto
  define s3 where "s3 = set_pool k (pp_areas_update (\<lambda>_. ps)) s2"
  have p3: "dm_pools s3 k = (dm_pools s2 k)\<lparr>pp_areas := ps\<rparr>" "dm_area s3 = dm_area s2" by (simp_all add: s3_def)
  have "pool_wf (dm_area s2) (insert p H) (dm_pools s2 k)" using wf_not_area [of p "dm_pools s2 k"] wf2 np m2 by simp
  then have wf3: "pool_wf (dm_area s3) (insert p H) (dm_pools s3 k)"
    unfolding p3 by (rule wf_insert_area) (use s1(4) a ps m2 in auto)
  have pH: "p \<notin> H" using Hk np by blast
  from add_free_ok [OF wf3 _ _ pH] ps(2) m2 obtain P where P: "add_free k p s3 = Inr (set_pool k (\<lambda>_. P) s3)" "pool_wf (dm_area s3) H P"
    "pp_areas P = ps" "pp_reserved P = pp_reserved (dm_pools s k)" "pp_size P = pp_size (dm_pools s k)" by (auto simp: p3)
  define s' where "s' = set_pool k (\<lambda>_. P) s3"
  have r: "add_free_area k addr sz s = Inr s'"
    using s1(1) ps(1) P(1) by (simp add: add_free_area_def s'_def SET_AREA_UNUSED_def flip: s2_def s3_def new_area_def)
      (simp add: s2_def new_area_def)
  have f: "dm_area s' = (dm_area s)(p := ?a)" "dm_pools s' = (dm_pools s)(k := P)" "dm_cache s' = dm_cache s1" "dm_int s' = dm_int s1"
    "dm_num_free s' = dm_num_free s1" "dm_freed s' = dm_freed s1" "dm_mem s' = dm_mem s" "dm_update s' = dm_update s"
    by (simp_all add: s'_def s3_def s2_def f1)
  have ii: "int_inv C X s' \<and> int_pages s' = int_pages s1"
  proof (rule int_inv_areas [OF s1(2) f(4,5,6,3)])
    fix e assume "e \<in> int_areas X s1"
    then have "e \<in> set (pp_areas (dm_pools s 0))" using int_areas_used(1) [OF s1(2)] f1 by simp
    then show "e \<in> set (pp_areas (dm_pools s' 0)) \<and> dm_area s' e = dm_area s1 e" using np [of 0] f f1 P(3) ps(2) by auto
  qed
  have cu: "cache_used s' = cache_used s1" "descs s' = descs s1" using f by (simp_all add: cache_used_def descs_def avail_def fun_eq_iff)
  have ok': "dm_ok C X k H s'"
  proof (rule dm_okI)
    show "int_inv C X s'" using ii by simp
    show "pool_wf (dm_area s') H (dm_pools s' k)" using P(2) f m2 p3(2) by simp
    show "pool_wf (dm_area s') {} (dm_pools s' j)" if "j \<noteq> k" for j using wf_other [OF o(3) [OF that] np] f that by simp
    show "cache_used s' q" if "q \<in> set (pp_areas (dm_pools s' j))" for j q
      using that o(4) cu s1(6) f P(3) ps(2) by (auto split: if_splits)
    show "i = j" if "q \<in> set (pp_areas (dm_pools s' i))" "q \<in> set (pp_areas (dm_pools s' j))" for i j q
      using that o(5) np f P(3) ps(2) by (auto split: if_splits)
    have cv: "(\<Union>q \<in> set (pp_areas (dm_pools s j)). area_range (((dm_area s)(p := ?a)) q)) = cover s j" for j
      unfolding cover_def by (rule SUP_cong) (use np in auto)
    have "cover s' j = (if j = k then area_range ?a \<union> cover s k else cover s j)" for j
      unfolding cover_def [of s'] f(1,2) cv [symmetric] using P(3) ps(2) by simp
    then show "cover s' j \<subseteq> C j" for j using o(6) [of j] rg by (cases "j = k") simp_all
  qed
  have "outside_same k s s'" using f P np by (auto simp: outside_same_def)
  then show ?thesis using that [OF r ok' s1(5)] f P(3) ps(2) s1(6-9) cu ii by simp
qed

section \<open>Splitting\<close>

lemma pow32: "(2 :: nat) ^ 32 = 4294967296"
  by simp

lemma round_up_ok:
  assumes "m < 32"
  shows "unat (((x :: u32) + 2 ^ m - 1) AND NOT (2 ^ m - 1)) =
    (if unat x + 2 ^ m - 1 < 2 ^ 32 then (unat x + 2 ^ m - 1) div 2 ^ m * 2 ^ m else 0)"
proof -
  have e: "unat (2 ^ m :: u32) = 2 ^ m" by (rule unat_exp32 [OF assms])
  have pos: "(0 :: nat) < 2 ^ m" "(2 :: nat) ^ m \<le> 2 ^ 31" using assms power_increasing [of m 31 "2 :: nat"] by simp_all
  have b: "unat (2 ^ m - 1 :: u32) = 2 ^ m - 1" using e pos by (subst unat_sub_le) (simp_all add: word_le_unat)
  have r: "unat (y AND NOT (2 ^ m - 1)) = unat y div 2 ^ m * 2 ^ m" for y :: u32 using round_down_exp [OF assms, of y] by simp
  have x: "x + 2 ^ m - 1 = x + (2 ^ m - 1)" by simp
  show ?thesis
  proof (cases "unat x + 2 ^ m - 1 < 2 ^ 32")
    case True
    then have "unat (x + (2 ^ m - 1)) = unat x + (2 ^ m - 1)" using b pos by (subst unat_add_lt) simp_all
    then show ?thesis using True pos unfolding r x by simp
  next
    case False
    have "unat (x + (2 ^ m - 1)) = (unat x + (2 ^ m - 1)) mod 2 ^ 32" using b by (simp add: unat_word_ariths)
    also have "\<dots> = unat x + (2 ^ m - 1) - 2 ^ 32" 
    proof -
      have "(2 :: nat) ^ m \<le> 2147483648" using pos(2) by simp
      then have "unat x + (2 ^ m - 1) - 4294967296 < 4294967296" using unat_lt32 [of x] by linarith
      then show ?thesis using False pos by (subst le_mod_geq) simp_all
    qed
    also have "\<dots> < 2 ^ m" using unat_lt32 [of x] pos(1) pow32 by linarith
    finally show ?thesis using False unfolding r x by simp
  qed
qed

lemma aligned_size_fits:
  assumes a: "area_ok a" and m: "m < 32" and sz: "0 < unat sz" "sz \<le> aligned_size a (2 ^ m)"
  obtains up where "unat ((pa_addr a + 2 ^ m - 1) AND NOT (2 ^ m - 1)) = up" "2 ^ m dvd up" "unat (pa_addr a) \<le> up"
    "up + unat sz \<le> (unat (pa_addr a) + unat (pa_size a)) div 2 ^ m * 2 ^ m"
    "unat (aligned_size a (2 ^ m)) = (unat (pa_addr a) + unat (pa_size a)) div 2 ^ m * 2 ^ m - up"
proof -
  let ?x = "unat (pa_addr a)" and ?hi = "unat (pa_addr a) + unat (pa_size a)" and ?p = "(2 :: nat) ^ m"
  let ?ru = "(pa_addr a + 2 ^ m - 1) AND NOT (2 ^ m - 1)" and ?rd = "(pa_addr a + pa_size a) AND NOT (2 ^ m - 1)"
  have hi: "?hi < 2 ^ 32" using a by (simp add: area_ok_def)
  have pos: "0 < ?p" by simp
  have ue: "unat (pa_addr a + pa_size a) = ?hi" using hi by (intro unat_add_lt) simp
  have rd: "unat ?rd = ?hi div ?p * ?p" using round_down_exp [OF m, of "pa_addr a + pa_size a"] ue by simp
  have nz: "aligned_size a (2 ^ m) \<noteq> 0" using sz by (auto simp: word_le_unat)
  have ru: "unat ?ru = (?x + ?p - 1) div ?p * ?p" "?x + ?p - 1 < 2 ^ 32"
  proof -
    show lt: "?x + ?p - 1 < 2 ^ 32"
    proof (rule ccontr)
      assume n: "\<not> ?thesis"
      then have z: "?ru = 0" using round_up_ok [OF m, of "pa_addr a"] by (simp add: unat_eq_0)
      have "0 < ?x"
      proof (rule ccontr)
        assume "\<not> 0 < ?x"
        then show False using n m power_increasing [of m 31 "2 :: nat"] by simp
      qed
      then have "\<not> unat (- pa_addr a) + ?x < 2 ^ 32" using unat_add_lt [of "- pa_addr a" "pa_addr a"] by auto
      then have "dm_round_up (pa_addr a) (2 ^ m) - pa_addr a > pa_size a" using z hi by (simp add: dm_round_up_def word_less_unat)
      then show False using nz by (simp add: aligned_size_def Let_def)
    qed
    then show "unat ?ru = (?x + ?p - 1) div ?p * ?p" using round_up_ok [OF m, of "pa_addr a"] by simp
  qed
  define up where "up = (?x + ?p - 1) div ?p * ?p"
  have ge: "?x \<le> up" "2 ^ m dvd up" "up \<le> ?x + ?p - 1"
  proof -
    have "?x + ?p - 1 = up + (?x + ?p - 1) mod ?p" unfolding up_def by (rule div_mult_mod_eq [symmetric])
    moreover have "(?x + ?p - 1) mod ?p < ?p" by simp
    ultimately show "?x \<le> up" "up \<le> ?x + ?p - 1" using pos by linarith+
  qed (simp add: up_def)
  have ob: "unat (dm_round_up (pa_addr a) (2 ^ m) - pa_addr a) = up - ?x"
    unfolding dm_round_up_def using ge ru(1) by (subst unat_sub_le) (simp_all add: word_le_unat up_def)
  have "up \<le> ?hi"
  proof (rule ccontr)
    assume "\<not> ?thesis"
    then have "dm_round_up (pa_addr a) (2 ^ m) - pa_addr a > pa_size a" using ob by (simp add: word_less_unat)
    then show False using nz by (simp add: aligned_size_def Let_def)
  qed
  then have down: "up \<le> ?hi div ?p * ?p" using ge(2) by (metis div_le_mono dvd_div_mult_self mult_le_mono1)
  have dh: "?hi div ?p * ?p \<le> ?hi" by simp
  have oe: "unat (pa_addr a + pa_size a - dm_round_down (pa_addr a + pa_size a) (2 ^ m)) = ?hi - ?hi div ?p * ?p"
    unfolding dm_round_down_def using dh rd ue by (subst unat_sub_le) (simp_all add: word_le_unat)
  have s1: "unat (pa_size a - (dm_round_up (pa_addr a) (2 ^ m) - pa_addr a)) = unat (pa_size a) - (up - ?x)"
    using ob \<open>up \<le> ?hi\<close> by (subst unat_sub_le) (simp_all add: word_le_unat)
  have "\<not> dm_round_up (pa_addr a) (2 ^ m) - pa_addr a > pa_size a" using ob \<open>up \<le> ?hi\<close> by (simp add: word_less_unat)
  moreover have "\<not> pa_addr a + pa_size a - dm_round_down (pa_addr a + pa_size a) (2 ^ m) > pa_size a"
    using oe down ge(1) unfolding word_less_unat by linarith
  ultimately have "aligned_size a (2 ^ m) = pa_size a - (dm_round_up (pa_addr a) (2 ^ m) - pa_addr a) -
      (pa_addr a + pa_size a - dm_round_down (pa_addr a + pa_size a) (2 ^ m))" by (simp add: aligned_size_def Let_def)
  also have "unat \<dots> = unat (pa_size a) - (up - ?x) - (?hi - ?hi div ?p * ?p)"
    using s1 oe down ge(1) dh by (subst unat_sub_le) (simp_all add: word_le_unat)
  also have "\<dots> = ?hi div ?p * ?p - up" using down ge(1) dh by linarith
  finally have as: "unat (aligned_size a (2 ^ m)) = ?hi div ?p * ?p - up" .
  then have "up + unat sz \<le> ?hi div ?p * ?p" using sz down unfolding word_le_unat by linarith
  then show ?thesis using that [of up] ru(1) ge as by (simp add: up_def)
qed

lemma set_held_ok:
  assumes ok: "dm_ok C X k H s" and p: "p \<in> H" "p \<in> set (pp_areas (dm_pools s k))" "p \<notin> int_areas X s"
    and a: "area_ok (f (dm_area s p))" "IS_UNUSED_AREA (f (dm_area s p)) \<longrightarrow> pa_ds_next (f (dm_area s p)) = 0"
    and r: "area_range (dm_area s p) \<inter> area_range (f (dm_area s p)) \<noteq> {}" "area_range (f (dm_area s p)) \<subseteq> C k"
      "\<And>q. q \<in> set (pp_areas (dm_pools s k)) \<Longrightarrow> q \<noteq> p \<Longrightarrow> area_range (dm_area s q) \<inter> area_range (f (dm_area s p)) = {}"
  shows "dm_ok C X k H (set_area p f s)" "int_pages (set_area p f s) = int_pages s"
proof -
  note o = dm_okD [OF ok]
  let ?s = "set_area p f s" and ?a = "f (dm_area s p)"
  have ii: "int_inv C X ?s \<and> int_pages ?s = int_pages s"
  proof (rule int_inv_areas [OF o(1)])
    fix d assume "d \<in> int_areas X s"
    then show "d \<in> set (pp_areas (dm_pools ?s 0)) \<and> dm_area ?s d = dm_area s d" using int_areas_used(1) [OF o(1)] p(3) by auto
  qed simp_all
  then show "int_pages ?s = int_pages s" by simp
  have other: "p \<notin> set (pp_areas (dm_pools s j))" if "j \<noteq> k" for j using o(5) p(2) that by blast
  have cu: "cache_used ?s = cache_used s" by (simp add: cache_used_def fun_eq_iff)
  show "dm_ok C X k H ?s"
  proof (rule dm_okI)
    show "int_inv C X ?s" using ii by simp
    show "pool_wf (dm_area ?s) H (dm_pools ?s k)" using wf_set_held [OF o(2) p(1,2) a r(1,3)] by simp
    show "pool_wf (dm_area ?s) {} (dm_pools ?s j)" if "j \<noteq> k" for j using wf_other [OF o(3) [OF that] other [OF that]] by simp
    show "cache_used ?s q" if "q \<in> set (pp_areas (dm_pools ?s j))" for j q using that o(4) cu by simp
    show "i = j" if "q \<in> set (pp_areas (dm_pools ?s i))" "q \<in> set (pp_areas (dm_pools ?s j))" for i j q using that o(5) by simp
    show "cover ?s j \<subseteq> C j" for j
    proof
      fix x assume "x \<in> cover ?s j"
      then obtain q where q: "q \<in> set (pp_areas (dm_pools s j))" "x \<in> area_range (if q = p then ?a else dm_area s q)" by (auto simp: cover_def)
      then show "x \<in> C j" using o(6) [of j] other [of j] r(2) by (cases "q = p"; cases "j = k") (auto simp: cover_def)
    qed
  qed
qed

text \<open>Free areas that cover \<open>R\<close> are added, the other areas stay.\<close>

definition adds :: "nat \<Rightarrow> l4_addr_t set \<Rightarrow> dm_state \<Rightarrow> dm_state \<Rightarrow> nat set \<Rightarrow> bool" where
  "adds k H s s' R \<longleftrightarrow> outside_same k s s' \<and> set (pp_areas (dm_pools s k)) \<subseteq> set (pp_areas (dm_pools s' k)) \<and>
     (\<forall>q \<in> set (pp_areas (dm_pools s k)). dm_area s' q = dm_area s q) \<and> used_areas s' k = used_areas s k \<and>
     free_mem H s' k = free_mem H s k \<union> R \<and> cover s' k = cover s k \<union> R \<and> int_pages s' = int_pages s \<and> dm_freed s' = dm_freed s"

lemma adds_refl: "adds k H s s {}"
  by (simp add: adds_def)

lemma adds_trans: "adds k H s s' R \<Longrightarrow> adds k H s' s'' R' \<Longrightarrow> adds k H s s'' (R \<union> R')"
  by (auto simp: adds_def intro: outside_same_trans)

lemma cover_disjoint: "cover s k \<inter> R = {} \<Longrightarrow> q \<in> set (pp_areas (dm_pools s k)) \<Longrightarrow> area_range (dm_area s q) \<inter> R = {}"
  by (auto simp: cover_def)

lemma add_free_area_adds:
  assumes ok: "dm_ok C X k H s" and d: "0 < descs s" and a: "area_ok (new_area addr sz)" and rg: "area_range (new_area addr sz) \<subseteq> C k"
    and dj: "cover s k \<inter> area_range (new_area addr sz) = {}" and Hk: "H \<subseteq> set (pp_areas (dm_pools s k))"
  obtains s' where "add_free_area k addr sz s = Inr s'" "dm_ok C X k H s'" "adds k H s s' (area_range (new_area addr sz))" "descs s = Suc (descs s')"
    "\<exists>q \<in> frees H (dm_area s') (dm_pools s' k). dm_area s' q = new_area addr sz"
proof -
  obtain s' q where s': "add_free_area k addr sz s = Inr s'" "dm_ok C X k H s'" "\<not> cache_used s q"
    "set (pp_areas (dm_pools s' k)) = insert q (set (pp_areas (dm_pools s k)))" "dm_area s' = (dm_area s)(q := new_area addr sz)"
    "outside_same k s s'" "descs s = Suc (descs s')" "int_pages s' = int_pages s" "dm_freed s' = dm_freed s"
    using add_free_area_ok [OF ok d a rg cover_disjoint [OF dj] Hk] by blast
  have nq: "q \<notin> set (pp_areas (dm_pools s k))" using dm_okD(4) [OF ok] s'(3) by blast
  let ?a = "new_area addr sz"
  have f: "frees H (dm_area s') (dm_pools s' k) = insert q (frees H (dm_area s) (dm_pools s k))"
    using s'(4,5) nq Hk by (auto simp: frees_def)
  have "free_mem H s' k = free_mem H s k \<union> area_range ?a"
  proof -
    have "(\<Union>p \<in> frees H (dm_area s) (dm_pools s k). area_range (dm_area s' p)) = free_mem H s k"
      unfolding free_mem_def by (rule SUP_cong) (use nq s'(5) in \<open>auto simp: frees_def\<close>)
    then show ?thesis unfolding free_mem_def [of H s'] f using s'(5) by auto
  qed
  moreover have "cover s' k = cover s k \<union> area_range ?a"
  proof -
    have "(\<Union>p \<in> set (pp_areas (dm_pools s k)). area_range (dm_area s' p)) = cover s k"
      unfolding cover_def by (rule SUP_cong) (use nq s'(5) in auto)
    then show ?thesis unfolding cover_def [of s'] s'(4) using s'(5) by auto
  qed
  moreover have "used_areas s' k = used_areas s k"
    using s'(4,5) nq new_area_unused(1) [of addr sz] by (auto simp: used_areas_def IS_UNUSED_AREA_def)
  ultimately have "adds k H s s' (area_range ?a)" using s' nq by (auto simp: adds_def)
  moreover have "q \<in> frees H (dm_area s') (dm_pools s' k)" "dm_area s' q = ?a" using f s'(5) by simp_all
  ultimately show ?thesis using that s' by blast
qed

lemma add_rest_ok:
  assumes ok: "dm_ok C X k H s" and d: "0 < descs s" and al: "4096 dvd unat addr" "4096 dvd unat sz" "unat addr + unat sz < 2 ^ 32"
    and rg: "{unat addr ..< unat addr + unat sz} \<subseteq> C k" and dj: "cover s k \<inter> {unat addr ..< unat addr + unat sz} = {}"
    and Hk: "H \<subseteq> set (pp_areas (dm_pools s k))"
  obtains s' where "add_rest k addr sz s = Inr s'" "dm_ok C X k H s'" "adds k H s s' {unat addr ..< unat addr + unat sz}" "descs s \<le> Suc (descs s')"
proof (cases "sz = 0")
  case True
  then show ?thesis using that [of s] ok by (simp add: add_rest_def adds_refl)
next
  case False
  then have pos: "sz > 0" "0 < unat sz" by (simp_all add: word_neq_0_conv unat_gt_0)
  have "area_ok (new_area addr sz)" using al pos by (simp add: area_ok_def)
  moreover have "area_range (new_area addr sz) = {unat addr ..< unat addr + unat sz}" by (simp add: area_range_def)
  ultimately obtain s' where "add_free_area k addr sz s = Inr s'" "dm_ok C X k H s'" "adds k H s s' {unat addr ..< unat addr + unat sz}" "descs s = Suc (descs s')"
    using add_free_area_adds [OF ok d _ _ _ Hk, of addr sz] rg dj by metis
  then show ?thesis using that pos by (simp add: add_rest_def)
qed

text \<open>The piece that is cut out of an area, for both ways to split.\<close>

lemma split_place:
  assumes a: "area_ok a" and m: "12 \<le> m" "m < 32" and sz: "0 < unat sz" "sz \<le> aligned_size a (2 ^ m)"
    and ad: "addr' = (if b then (pa_addr a + 2 ^ m - 1) AND NOT (2 ^ m - 1) else (pa_addr a + pa_size a - sz) AND NOT (2 ^ m - 1))"
  shows "2 ^ m dvd unat addr'" "unat (pa_addr a) \<le> unat addr'" "unat addr' + unat sz \<le> unat (pa_addr a) + unat (pa_size a)"
proof -
  let ?hi = "unat (pa_addr a) + unat (pa_size a)" and ?p = "(2 :: nat) ^ m"
  obtain up where up: "unat ((pa_addr a + 2 ^ m - 1) AND NOT (2 ^ m - 1)) = up" "2 ^ m dvd up" "unat (pa_addr a) \<le> up" "up + unat sz \<le> ?hi div ?p * ?p"
    using aligned_size_fits [OF a m(2) sz] by blast
  have dh: "?hi div ?p * ?p \<le> ?hi" by simp
  have ue: "unat (pa_addr a + pa_size a) = ?hi" using a by (intro unat_add_lt) (simp add: area_ok_def)
  have szh: "unat sz \<le> ?hi" using up(4) dh by linarith
  have us: "unat (pa_addr a + pa_size a - sz) = ?hi - unat sz" unfolding ue [symmetric]
    by (rule unat_sub_le) (use szh ue in \<open>simp add: word_le_unat\<close>)
  have se: "unat ((pa_addr a + pa_size a - sz) AND NOT (2 ^ m - 1)) = (?hi - unat sz) div ?p * ?p"
    using round_down_exp [OF m(2), of "pa_addr a + pa_size a - sz"] us by simp
  have "up \<le> ?hi - unat sz" using up(4) dh by linarith
  then have le: "up \<le> (?hi - unat sz) div ?p * ?p" using up(2) by (metis div_le_mono dvd_div_mult_self mult_le_mono1)
  have "(?hi - unat sz) div ?p * ?p \<le> ?hi - unat sz" by simp
  then have "(?hi - unat sz) div ?p * ?p + unat sz \<le> ?hi" using szh by linarith
  then show "2 ^ m dvd unat addr'" "unat (pa_addr a) \<le> unat addr'" "unat addr' + unat sz \<le> ?hi"
    using up se le dh unfolding ad by (auto split: if_splits)
qed

lemma cover_others:
  assumes "dm_ok C X k H s" "p \<in> set (pp_areas (dm_pools s k))" "area_range a \<subseteq> area_range (dm_area s p)"
  shows "cover (set_area p (\<lambda>_. a) s) k \<inter> (area_range (dm_area s p) - area_range a) = {}"
    "\<And>q. q \<in> set (pp_areas (dm_pools s k)) \<Longrightarrow> q \<noteq> p \<Longrightarrow> area_range (dm_area s q) \<inter> area_range a = {}"
proof -
  note w = pool_wfD [OF dm_okD(2) [OF assms(1)]]
  have d: "area_range (dm_area s q) \<inter> area_range (dm_area s p) = {}" if "q \<in> set (pp_areas (dm_pools s k))" "q \<noteq> p" for q
    using areas_disjoint [OF w(4,1) that(1) assms(2) that(2)] .
  then show "area_range (dm_area s q) \<inter> area_range a = {}" if "q \<in> set (pp_areas (dm_pools s k))" "q \<noteq> p" for q
    using that assms(3) by blast
  show "cover (set_area p (\<lambda>_. a) s) k \<inter> (area_range (dm_area s p) - area_range a) = {}"
  proof (rule equals0I)
    fix x assume x: "x \<in> cover (set_area p (\<lambda>_. a) s) k \<inter> (area_range (dm_area s p) - area_range a)"
    then obtain q where "q \<in> set (pp_areas (dm_pools s k))" "x \<in> area_range (if q = p then a else dm_area s q)" by (auto simp: cover_def)
    then show False using x d [of q] by (cases "q = p") auto
  qed
qed

lemma split_area_ok:
  assumes ok: "dm_ok C X k H s" and p: "p \<in> H" "p \<in> set (pp_areas (dm_pools s k))" "IS_UNUSED_AREA (dm_area s p)"
    and Hk: "H \<subseteq> set (pp_areas (dm_pools s k))" and d: "2 \<le> descs s"
    and m: "12 \<le> m" "m < 32" and sz: "0 < unat sz" "4096 dvd unat sz" "sz \<le> aligned_size (dm_area s p) (2 ^ m)"
  obtains s' a where "split_area k p sz (2 ^ m) s = Inr s'" "dm_ok C X k H s'" "descs s \<le> descs s' + 2"
    "a = (dm_area s p)\<lparr>pa_addr := pa_addr a, pa_size := sz\<rparr>" "area_ok a" "2 ^ m dvd unat (pa_addr a)" "area_range a \<subseteq> area_range (dm_area s p)"
    "adds k H (set_area p (\<lambda>_. a) s) s' (area_range (dm_area s p) - area_range a)"
proof -
  note o = dm_okD [OF ok]
  let ?a = "dm_area s p"
  define addr' where "addr' = (if split_at_beginning ?a sz (2 ^ m) then (pa_addr ?a + 2 ^ m - 1) AND NOT (2 ^ m - 1)
    else (pa_addr ?a + pa_size ?a - sz) AND NOT (2 ^ m - 1))"
  have aok: "area_ok ?a" using pool_wfD(1) [OF o(2) p(2)] .
  note pl = split_place [OF aok m sz(1,3) addr'_def]
  define a where "a = ?a\<lparr>pa_addr := addr', pa_size := sz\<rparr>"
  have fl: "IS_UNUSED_AREA a" "pa_ds_next a = 0" using p(3) pool_wfD(3) [OF o(2) p(2)] by (simp_all add: a_def IS_UNUSED_AREA_def IS_USED_AREA_def)
  have "(4096 :: nat) dvd 2 ^ m" using le_imp_power_dvd [OF m(1), of "2 :: nat"] by simp
  then have d4: "4096 dvd unat addr'" using pl(1) by (rule dvd_trans)
  have hi: "unat (pa_addr ?a) + unat (pa_size ?a) < 2 ^ 32" "4096 dvd unat (pa_addr ?a)" "4096 dvd unat (pa_size ?a)" using aok by (simp_all add: area_ok_def)
  have a_ok: "area_ok a" using pl d4 sz hi by (simp add: a_def area_ok_def)
  have sub: "area_range a \<subseteq> area_range ?a" using pl by (auto simp: a_def area_range_def)
  have ne: "area_range ?a \<inter> area_range a \<noteq> {}"
  proof -
    have "unat addr' \<in> area_range a" using sz by (simp add: a_def area_range_def)
    then show ?thesis using sub by blast
  qed
  have pint: "p \<notin> int_areas X s" using int_areas_used(2) [OF o(1)] p(3) by (auto simp: IS_UNUSED_AREA_def)
  have ck: "area_range ?a \<subseteq> C k" using o(6) [of k] p(2) by (auto simp: cover_def)
  note co = cover_others [OF ok p(2) sub]
  let ?s1 = "set_area p (\<lambda>_. a) s"
  have s1: "dm_ok C X k H ?s1" by (rule set_held_ok [OF ok p(1,2) pint]) (use a_ok fl ne sub ck co(2) in auto)
  have d1: "descs ?s1 = descs s" by (simp add: descs_def avail_def)
  have H1: "H \<subseteq> set (pp_areas (dm_pools ?s1 k))" using Hk by simp
  have u1: "unat (addr' - pa_addr ?a) = unat addr' - unat (pa_addr ?a)" using pl(2) by (intro unat_sub_le) (simp add: word_le_unat)
  have ue: "unat (pa_addr ?a + pa_size ?a) = unat (pa_addr ?a) + unat (pa_size ?a)" using hi by (intro unat_add_lt) simp
  have ua: "unat (addr' + sz) = unat addr' + unat sz" using pl(3) hi by (intro unat_add_lt) simp
  have u2: "unat (pa_addr ?a + pa_size ?a - (addr' + sz)) = unat (pa_addr ?a) + unat (pa_size ?a) - (unat addr' + unat sz)"
    unfolding ue [symmetric] ua [symmetric] by (rule unat_sub_le) (use pl(3) ue ua in \<open>simp add: word_le_unat\<close>)
  define R1 where "R1 = {unat (pa_addr ?a) ..< unat addr'}"
  define R2 where "R2 = {unat addr' + unat sz ..< unat (pa_addr ?a) + unat (pa_size ?a)}"
  have R: "R1 \<union> R2 = area_range ?a - area_range a" "R1 \<inter> R2 = {}" using pl by (auto simp: R1_def R2_def a_def area_range_def)
  have e1: "{unat (pa_addr ?a) ..< unat (pa_addr ?a) + unat (addr' - pa_addr ?a)} = R1" using u1 pl(2) by (simp add: R1_def)
  have e2: "{unat (addr' + sz) ..< unat (addr' + sz) + unat (pa_addr ?a + pa_size ?a - (addr' + sz))} = R2" using u2 ua pl(3) by (simp add: R2_def)
  have c1: "cover ?s1 k \<inter> R1 = {}" "cover ?s1 k \<inter> R2 = {}" "R1 \<subseteq> C k" "R2 \<subseteq> C k" using co(1) ck R(1) by blast+
  have v1: "4096 dvd unat (addr' - pa_addr ?a)" "unat (pa_addr ?a) + unat (addr' - pa_addr ?a) < 2 ^ 32"
    using u1 d4 hi(2) pl(2) by (auto intro: dvd_diff_nat)
  have dp: "0 < descs ?s1" using d d1 by simp
  obtain s2 where s2: "add_rest k (pa_addr ?a) (addr' - pa_addr ?a) ?s1 = Inr s2" "dm_ok C X k H s2" "adds k H ?s1 s2 R1" "descs ?s1 \<le> Suc (descs s2)"
    using add_rest_ok [OF s1 dp hi(2) v1 _ _ H1, unfolded e1, OF c1(3,1)] .
  have cov2: "cover s2 k \<inter> R2 = {}" using s2(3) c1(2) R(2) unfolding adds_def by blast
  have H2: "H \<subseteq> set (pp_areas (dm_pools s2 k))" using s2(3) H1 by (auto simp: adds_def)
  have v2: "4096 dvd unat (addr' + sz)" "4096 dvd unat (pa_addr ?a + pa_size ?a - (addr' + sz))"
    "unat (addr' + sz) + unat (pa_addr ?a + pa_size ?a - (addr' + sz)) < 2 ^ 32"
    using ua u2 d4 sz(2) hi pl(3) by (auto intro!: dvd_diff_nat dvd_add)
  have dp2: "0 < descs s2" using d d1 s2(4) by linarith
  obtain s3 where s3: "add_rest k (addr' + sz) (pa_addr ?a + pa_size ?a - (addr' + sz)) s2 = Inr s3" "dm_ok C X k H s3" "adds k H s2 s3 R2" "descs s2 \<le> Suc (descs s3)"
    using add_rest_ok [OF s2(2) dp2 v2 _ _ H2, unfolded e2, OF c1(4) cov2] .
  have sa: "set_area p (\<lambda>a. a\<lparr>pa_addr := addr', pa_size := sz\<rparr>) s = ?s1" by (simp add: set_area_def a_def)
  have "split_area k p sz (2 ^ m) s = Inr s3"
    unfolding split_area_def Let_def addr'_def [symmetric] sa using s2(1) s3(1) by simp
  moreover have "adds k H ?s1 s3 (area_range ?a - area_range a)" using adds_trans [OF s2(3) s3(3)] R by simp
  ultimately show ?thesis
    using that [of s3 a] s3(2,4) s2(4) d1 a_ok pl(1) sub by (simp add: a_def)
qed

section \<open>Taking an area\<close>

text \<open>The area \<open>p\<close> is taken from the free memory of pool \<open>k\<close>: nothing else of the memory changes hands.\<close>

definition taken :: "nat \<Rightarrow> dm_state \<Rightarrow> dm_state \<Rightarrow> l4_addr_t \<Rightarrow> bool" where
  "taken k s s' p \<longleftrightarrow> outside_same k s s' \<and> p \<noteq> 0 \<and> p \<notin> used_areas s k \<and> used_areas s' k = insert p (used_areas s k) \<and>
     (\<forall>q \<in> used_areas s k. dm_area s' q = dm_area s q) \<and> pa_ds_next (dm_area s' p) = 0 \<and>
     area_range (dm_area s' p) \<subseteq> free_mem {} s k \<and> free_mem {} s' k = free_mem {} s k - area_range (dm_area s' p) \<and>
     cover s' k = cover s k \<and> int_pages s' = int_pages s \<and> dm_freed s' = dm_freed s"

lemma wf_used_held: "IS_USED_AREA (m p) \<Longrightarrow> pool_wf m (insert p H) P = pool_wf m H P"
proof -
  assume "IS_USED_AREA (m p)"
  then have "frees (insert p H) m P = frees H m P" by (auto simp: frees_def IS_UNUSED_AREA_def)
  then show ?thesis by (simp add: pool_wf_def)
qed

lemma free_mem_hold:
  assumes ok: "dm_ok C X k {} s" and p: "p \<in> frees {} (dm_area s) (dm_pools s k)"
  shows "free_mem {} s k = area_range (dm_area s p) \<union> free_mem {p} s k" "area_range (dm_area s p) \<inter> free_mem {p} s k = {}"
proof -
  note w = pool_wfD [OF dm_okD(2) [OF ok]]
  have f: "frees {} (dm_area s) (dm_pools s k) = insert p (frees {p} (dm_area s) (dm_pools s k))" using p by (auto simp: frees_def)
  then show "free_mem {} s k = area_range (dm_area s p) \<union> free_mem {p} s k" by (simp add: free_mem_def)
  have "area_range (dm_area s p) \<inter> area_range (dm_area s q) = {}" if "q \<in> frees {p} (dm_area s) (dm_pools s k)" for q
    by (rule areas_disjoint [OF w(4,1)]) (use that p in \<open>auto simp: frees_def\<close>)
  then show "area_range (dm_area s p) \<inter> free_mem {p} s k = {}" by (auto simp: free_mem_def)
qed

lemma hold_ok:
  assumes ok: "dm_ok C X k {} s" and p: "p \<in> frees {} (dm_area s) (dm_pools s k)"
  obtains s1 where "remove_free k p s = Inr s1" "dm_ok C X k {p} s1" "dm_area s1 = dm_area s" "\<And>j. pp_areas (dm_pools s1 j) = pp_areas (dm_pools s j)"
    "outside_same k s s1" "descs s1 = descs s" "int_pages s1 = int_pages s" "dm_freed s1 = dm_freed s" "cache_used s1 = cache_used s"
proof -
  note o = dm_okD [OF ok]
  from remove_free_ok [OF o(2) p] obtain P where P: "remove_free k p s = Inr (set_pool k (\<lambda>_. P) s)" "pool_wf (dm_area s) {p} P"
    "pp_areas P = pp_areas (dm_pools s k)" "pp_reserved P = pp_reserved (dm_pools s k)" "pp_size P = pp_size (dm_pools s k)" by auto
  define s1 where "s1 = set_pool k (\<lambda>_. P) s"
  have pa: "pp_areas (dm_pools s1 j) = pp_areas (dm_pools s j)" for j using P(3) by (simp add: s1_def)
  have ii: "int_inv C X s1 \<and> int_pages s1 = int_pages s"
  proof (rule int_inv_areas [OF o(1)])
    fix d assume "d \<in> int_areas X s"
    then show "d \<in> set (pp_areas (dm_pools s1 0)) \<and> dm_area s1 d = dm_area s d" using int_areas_used(1) [OF o(1)] pa by simp (simp add: s1_def)
  qed (simp_all add: s1_def)
  have cu: "cache_used s1 = cache_used s" "descs s1 = descs s" "cover s1 = cover s"
    using pa by (simp_all add: cache_used_def descs_def avail_def cover_def fun_eq_iff) (simp_all add: s1_def)
  have "dm_ok C X k {p} s1"
  proof (rule dm_okI)
    show "pool_wf (dm_area s1) {p} (dm_pools s1 k)" using P(2) by (simp add: s1_def)
    show "pool_wf (dm_area s1) {} (dm_pools s1 j)" if "j \<noteq> k" for j using o(3) [OF that] that by (simp add: s1_def)
    show "cache_used s1 q" if "q \<in> set (pp_areas (dm_pools s1 j))" for j q using o(4) that pa cu by simp
    show "i = j" if "q \<in> set (pp_areas (dm_pools s1 i))" "q \<in> set (pp_areas (dm_pools s1 j))" for i j q using o(5) that pa by simp
  qed (use ii cu o(6) in simp_all)
  moreover have "outside_same k s s1" using P by (simp add: outside_same_def s1_def)
  moreover have "dm_area s1 = dm_area s" "dm_freed s1 = dm_freed s" by (simp_all add: s1_def)
  ultimately show ?thesis using that [of s1] P(1) pa ii cu by (simp add: s1_def)
qed

lemma use_held_ok:
  assumes ok: "dm_ok C X k {p} s" and p: "p \<in> set (pp_areas (dm_pools s k))" "IS_UNUSED_AREA (dm_area s p)"
  shows "dm_ok C X k {} (set_used p s)" "free_mem {} (set_used p s) k = free_mem {p} s k" "used_areas (set_used p s) k = insert p (used_areas s k)"
    "cover (set_used p s) k = cover s k" "int_pages (set_used p s) = int_pages s" "outside_same k s (set_used p s)" "descs (set_used p s) = descs s"
proof -
  note o = dm_okD [OF ok]
  note w = pool_wfD [OF o(2)]
  let ?s = "set_used p s"
  have f: "dm_area ?s = (dm_area s)(p := SET_AREA_USED (dm_area s p))" "dm_pools ?s = dm_pools s" by (simp_all add: set_used_def)
  have r: "area_range (SET_AREA_USED (dm_area s p)) = area_range (dm_area s p)" "area_ok (SET_AREA_USED (dm_area s p))"
    "area_range (dm_area s p) \<noteq> {}" using w(1) [OF p(1)] by (simp_all add: area_range_def area_ok_def)
  have pint: "p \<notin> int_areas X s" using int_areas_used(2) [OF o(1)] p(2) by (auto simp: IS_UNUSED_AREA_def)
  have ck: "area_range (dm_area s p) \<subseteq> C k" using o(6) [of k] p(1) by (auto simp: cover_def)
  have "dm_ok C X k {p} ?s \<and> int_pages ?s = int_pages s"
    unfolding set_used_def
    by (intro conjI set_held_ok [OF ok _ p(1) pint]) (use r ck areas_disjoint [OF w(4,1) _ p(1)] in \<open>auto simp: IS_UNUSED_AREA_def\<close>)
  then have ok': "dm_ok C X k {p} ?s" and "int_pages ?s = int_pages s" by simp_all
  then show "int_pages ?s = int_pages s" by simp
  have "IS_USED_AREA (dm_area ?s p)" by (simp add: f)
  then have "pool_wf (dm_area ?s) {} (dm_pools ?s k)" using dm_okD(2) [OF ok'] wf_used_held by blast
  then show "dm_ok C X k {} ?s" using dm_okD [OF ok'] by (intro dm_okI) simp_all
  have "frees {} (dm_area ?s) (dm_pools ?s k) = frees {p} (dm_area s) (dm_pools s k)" by (auto simp: frees_def f IS_UNUSED_AREA_def)
  then show "free_mem {} ?s k = free_mem {p} s k" unfolding free_mem_def by (intro SUP_cong) (auto simp: f frees_def)
  show "used_areas ?s k = insert p (used_areas s k)" using p(1) by (auto simp: used_areas_def f)
  show "cover ?s k = cover s k" unfolding cover_def f(2) by (rule SUP_cong) (auto simp: f r)
  have "p \<notin> set (pp_areas (dm_pools s j))" if "j \<noteq> k" for j using o(5) p(1) that by blast
  then show "outside_same k s ?s" by (auto simp: outside_same_def f) (simp_all add: set_used_def)
  show "descs ?s = descs s" by (simp add: descs_def avail_def set_used_def)
qed

text \<open>A free area is taken out of its list, cut to an aligned piece of the size wanted and marked as used.\<close>

lemma UN_replace:
  assumes "p \<in> A" "R \<subseteq> f p"
  shows "(\<Union>q \<in> A. if q = p then R else f q) \<union> (f p - R) = (\<Union>q \<in> A. f q)"
proof -
  have "(\<Union>q \<in> A - {p}. if q = p then R else f q) = (\<Union>q \<in> A - {p}. f q)" by (rule SUP_cong) auto
  then have "(\<Union>q \<in> insert p (A - {p}). if q = p then R else f q) \<union> (f p - R) = (\<Union>q \<in> insert p (A - {p}). f q)" using assms(2) by auto
  then show ?thesis using assms(1) by (simp add: insert_absorb)
qed

lemma find_SomeD: "List.find P xs = Some x \<Longrightarrow> x \<in> set xs \<and> P x"
  by (induction xs) (auto split: if_splits)

lemma carve_ok:
  assumes ok: "dm_ok C X k {} s" and p: "p \<in> frees {} (dm_area s) (dm_pools s k)" and d: "2 \<le> descs s"
    and m: "12 \<le> m" "m < 32" and sz: "0 < unat sz" "4096 dvd unat sz" "sz \<le> aligned_size (dm_area s p) (2 ^ m)"
  obtains s1 s2 where "remove_free k p s = Inr s1" "dm_area s1 = dm_area s" "split_area k p sz (2 ^ m) s1 = Inr s2"
    "dm_ok C X k {} (set_used p s2)" "taken k s (set_used p s2) p" "pa_size (dm_area (set_used p s2) p) = sz"
    "2 ^ m dvd unat (pa_addr (dm_area (set_used p s2) p))" "descs s \<le> descs (set_used p s2) + 2"
proof -
  obtain s1 where s1: "remove_free k p s = Inr s1" "dm_ok C X k {p} s1" "dm_area s1 = dm_area s" "\<And>j. pp_areas (dm_pools s1 j) = pp_areas (dm_pools s j)"
    "outside_same k s s1" "descs s1 = descs s" "int_pages s1 = int_pages s" "dm_freed s1 = dm_freed s"
    using hold_ok [OF ok p] by blast
  have pp: "p \<in> set (pp_areas (dm_pools s k))" "IS_UNUSED_AREA (dm_area s p)" "p \<noteq> 0"
    using p pool_wfD(2) [OF dm_okD(2) [OF ok]] by (auto simp: frees_def)
  have q: "p \<in> {p}" "p \<in> set (pp_areas (dm_pools s1 k))" "IS_UNUSED_AREA (dm_area s1 p)" "{p} \<subseteq> set (pp_areas (dm_pools s1 k))" "2 \<le> descs s1"
    "sz \<le> aligned_size (dm_area s1 p) (2 ^ m)" using pp s1 d sz by simp_all
  obtain s2 a where s2: "split_area k p sz (2 ^ m) s1 = Inr s2" "dm_ok C X k {p} s2" "descs s1 \<le> descs s2 + 2"
    "a = (dm_area s1 p)\<lparr>pa_addr := pa_addr a, pa_size := sz\<rparr>" "2 ^ m dvd unat (pa_addr a)" "area_range a \<subseteq> area_range (dm_area s1 p)"
    "adds k {p} (set_area p (\<lambda>_. a) s1) s2 (area_range (dm_area s1 p) - area_range a)"
    using split_area_ok [OF s1(2) q(1-5) m sz(1,2) q(6)] by metis
  let ?s = "set_area p (\<lambda>_. a) s1" and ?r = "area_range (dm_area s p)"
  have "pa_flags a = pa_flags (dm_area s p)" "pa_ds_next a = pa_ds_next (dm_area s p)" "pa_size a = sz"
    by (subst s2(4); simp add: s1(3))+
  then have a: "IS_UNUSED_AREA a" "pa_ds_next a = 0" "pa_size a = sz"
    using pp(2) pool_wfD(3) [OF dm_okD(2) [OF ok] pp(1,2)] by (simp_all add: IS_UNUSED_AREA_def IS_USED_AREA_def)
  have ad: "outside_same k ?s s2" "set (pp_areas (dm_pools s k)) \<subseteq> set (pp_areas (dm_pools s2 k))"
    "\<And>q. q \<in> set (pp_areas (dm_pools s k)) \<Longrightarrow> dm_area s2 q = dm_area ?s q" "used_areas s2 k = used_areas ?s k"
    "free_mem {p} s2 k = free_mem {p} ?s k \<union> (?r - area_range a)" "cover s2 k = cover ?s k \<union> (?r - area_range a)"
    "int_pages s2 = int_pages ?s" "dm_freed s2 = dm_freed s"
    using s2(7) s1(3,4,8) unfolding adds_def by auto
  have up: "used_areas ?s k = used_areas s k" using a(1) pp s1(3,4) by (auto simp: used_areas_def IS_UNUSED_AREA_def)
  have np: "p \<notin> used_areas s k" using pp by (simp add: used_areas_def IS_UNUSED_AREA_def)
  have "free_mem {p} ?s k = free_mem {p} s k"
    unfolding free_mem_def using s1(3,4) by (intro SUP_cong) (auto simp: frees_def)
  then have fm: "free_mem {p} s2 k = free_mem {} s k - area_range a" "area_range a \<subseteq> free_mem {} s k"
    using free_mem_hold [OF ok p] ad(5) s2(6) s1(3) by auto
  have "cover ?s k \<union> (?r - area_range a) = cover s k"
  proof -
    have "cover ?s k = (\<Union>q \<in> set (pp_areas (dm_pools s k)). if q = p then area_range a else area_range (dm_area s q))"
      unfolding cover_def using s1(3,4) by (intro SUP_cong) auto
    then show ?thesis unfolding cover_def [of s] using UN_replace [OF pp(1), where R = "area_range a" and f = "\<lambda>q. area_range (dm_area s q)"] s2(6) s1(3) by simp
  qed
  then have cv: "cover s2 k = cover s k" using ad(6) by simp
  have p2: "p \<in> set (pp_areas (dm_pools s2 k))" "dm_area s2 p = a" using ad(2) ad(3) [of p] pp by auto
  have os: "outside_same k s1 ?s" using dm_okD(5) [OF ok] pp(1) s1(4) by (auto simp: outside_same_def)
  have ip: "int_pages ?s = int_pages s1"
  proof -
    have "p \<notin> int_areas X s1" using int_areas_used(2) [OF dm_okD(1) [OF s1(2)]] q(3) by (auto simp: IS_UNUSED_AREA_def)
    then show ?thesis by (intro int_inv_areas [OF dm_okD(1) [OF s1(2)], THEN conjunct2]) (use int_areas_used(1) [OF dm_okD(1) [OF s1(2)]] in auto)
  qed
  note u = use_held_ok [OF s2(2) p2(1), unfolded p2(2), OF a(1)]
  have e: "dm_area (set_used p s2) q = (if q = p then SET_AREA_USED a else dm_area s2 q)" "dm_freed (set_used p s2) = dm_freed s2" for q using p2 by (simp_all add: set_used_def)
  have rg: "area_range (SET_AREA_USED a) = area_range a" by (simp add: area_range_def)
  have "dm_area s2 q = dm_area s q" if "q \<in> used_areas s k" for q using that ad(3) [of q] np s1(3) by (auto simp: used_areas_def)
  then have "taken k s (set_used p s2) p"
    unfolding taken_def using pp(3) np u ad(4,7,8) up fm cv a(2) ip s1(7) e rg outside_same_trans [OF outside_same_trans [OF outside_same_trans [OF s1(5) os] ad(1)] u(6)]
    by auto
  then show ?thesis using that [OF s1(1,3) s2(1) u(1)] e a s2(3,5) s1(6) u(7) by simp
qed

lemma get_free_list_mono:
  assumes "get_free_list x = Some n" "get_free_list y = Some i" "x \<le> y"
  shows "n \<le> i"
proof -
  obtain a b where ab: "l4util_bsr x = Some a" "l4util_bsr y = Some b" using assms(1,2) by (auto simp: get_free_list_def split: option.splits)
  have "(2 :: nat) ^ a < 2 ^ Suc b" using bsr_bounds(3) [OF ab(1)] bsr_bounds(2) [OF ab(2)] assms(3) unfolding word_le_unat by linarith
  then have "a < Suc b" by (rule power_less_imp_less_exp [rotated]) simp
  then show ?thesis using assms(1,2) ab by (auto simp: get_free_list_def Let_def l4_const split: if_splits)
qed

lemma aligned_size_le:
  assumes "area_ok a" "m < 32" "0 < unat sz" "sz \<le> aligned_size a (2 ^ m)"
  shows "sz \<le> pa_size a"
proof -
  obtain up where up: "unat (pa_addr a) \<le> up" "up + unat sz \<le> (unat (pa_addr a) + unat (pa_size a)) div 2 ^ m * 2 ^ m"
    using aligned_size_fits [OF assms] by metis
  have "(unat (pa_addr a) + unat (pa_size a)) div 2 ^ m * 2 ^ m \<le> unat (pa_addr a) + unat (pa_size a)" by simp
  then show ?thesis using up unfolding word_le_unat by linarith
qed

lemma find_single_area_ok:
  assumes ok: "dm_ok C X k {} s" and d: "2 \<le> descs s" and m: "12 \<le> m" "m < 32" and sz: "0 < unat sz" "4096 dvd unat sz"
  obtains s' p where "find_single_area k sz (2 ^ m) s = Inr (s', p)" "p = 0 \<Longrightarrow> s' = s"
    "p = 0 \<Longrightarrow> \<forall>q \<in> frees {} (dm_area s) (dm_pools s k). aligned_size (dm_area s q) (2 ^ m) < sz"
    "p \<noteq> 0 \<Longrightarrow> dm_ok C X k {} s' \<and> taken k s s' p \<and> pa_size (dm_area s' p) = sz \<and> 2 ^ m dvd unat (pa_addr (dm_area s' p)) \<and> descs s \<le> descs s' + 2"
proof -
  note w = pool_wfD [OF dm_okD(2) [OF ok]]
  have "sz \<noteq> 0" using sz(1) by auto
  then obtain n where n: "get_free_list sz = Some n" "n < 16" using get_free_list_Some [of sz] by blast
  let ?l = "concat (map (pp_lists (dm_pools s k)) [n ..< DMPHYS_NUM_FREE_LISTS])" and ?P = "\<lambda>q. sz \<le> aligned_size (dm_area s q) (2 ^ m)"
  show ?thesis
  proof (cases "List.find ?P ?l")
    case None
    have "aligned_size (dm_area s q) (2 ^ m) < sz" if q: "q \<in> frees {} (dm_area s) (dm_pools s k)" for q
    proof (rule ccontr)
      assume "\<not> ?thesis"
      then have le: "sz \<le> aligned_size (dm_area s q) (2 ^ m)" by simp
      have aq: "area_ok (dm_area s q)" using w(1) q by (simp add: frees_def)
      obtain i where i: "get_free_list (pa_size (dm_area s q)) = Some i" "i < 16" using get_free_list_area [OF aq] by blast
      then have "q \<in> set (pp_lists (dm_pools s k) i)" using w(6) [of i] q by simp
      moreover have "n \<le> i" using get_free_list_mono [OF n(1) i(1)] aligned_size_le [OF aq m(2) sz(1) le] by simp
      ultimately have "q \<in> set ?l" using i(2) by (auto simp: l4_const)
      then show False using None le by (auto simp: find_None_iff)
    qed
    then show ?thesis using None n that [of s 0] by (simp add: find_single_area_def)
  next
    case (Some p)
    then have "p \<in> set ?l" and P: "?P p" using find_SomeD by fast+
    then have pf: "p \<in> frees {} (dm_area s) (dm_pools s k)" using w(6) by auto
    from carve_ok [OF ok pf d m sz P] obtain s1 s2 where s: "remove_free k p s = Inr s1" "split_area k p sz (2 ^ m) s1 = Inr s2"
      "dm_ok C X k {} (set_used p s2)" "taken k s (set_used p s2) p" "pa_size (dm_area (set_used p s2) p) = sz"
      "2 ^ m dvd unat (pa_addr (dm_area (set_used p s2) p))" "descs s \<le> descs (set_used p s2) + 2" by blast
    have "find_single_area k sz (2 ^ m) s = Inr (set_used p s2, p)" using Some n s(1,2) by (simp add: find_single_area_def)
    moreover have "p \<noteq> 0" using s(4) by (simp add: taken_def)
    ultimately show ?thesis using s that by blast
  qed
qed

end
