(* ===== verification/DmRelease.thy ===== *)
theory DmRelease
  imports DmAlloc
begin

text \<open>
  Release of page areas (\<open>__release_area\<close>, \<open>dmphys_pages_release\<close>, \<open>dmphys_internal_alloc_update_free\<close>): an area is merged with
  its free neighbours, the descriptors of the neighbours are released, and pages that lose their last descriptor are
  released in turn. The calls return, and only the areas to be released and pages of the internal pool become free.
\<close>

section \<open>What a release keeps\<close>

text \<open>The areas in \<open>D\<close> are used no more, the other used areas stay, and so does the memory of the pools.\<close>

definition gives_back :: "l4_addr_t set \<Rightarrow> dm_state \<Rightarrow> dm_state \<Rightarrow> bool" where
  "gives_back D s s' \<longleftrightarrow> (\<forall>j. cover s' j = cover s j) \<and> (\<forall>j. used_areas s' j = used_areas s j - D) \<and>
     (\<forall>j. \<forall>q \<in> used_areas s' j. dm_area s' q = dm_area s q) \<and> dm_mem s' = dm_mem s \<and> dm_update s' = dm_update s \<and>
     (\<forall>j. pp_reserved (dm_pools s' j) = pp_reserved (dm_pools s j) \<and> pp_size (dm_pools s' j) = pp_size (dm_pools s j)) \<and>
     int_pages s' \<subseteq># int_pages s"

lemma gives_back_refl: "gives_back {} s s"
  by (simp add: gives_back_def)

lemma gives_back_trans: "gives_back D s s' \<Longrightarrow> gives_back E s' s'' \<Longrightarrow> gives_back (D \<union> E) s s''"
  by (auto simp: gives_back_def intro: subset_mset.order_trans)

lemma gives_back_int_areas: "gives_back D s s' \<Longrightarrow> int_areas X s' \<subseteq> int_areas X s"
  unfolding int_areas_def gives_back_def by (auto dest!: mset_subset_eqD)

text \<open>The free memory is the memory of the pool without that of the used areas.\<close>

lemma free_mem_cover:
  assumes ok: "dm_ok C X k {} s"
  shows "free_mem {} s j = cover s j - (\<Union>p \<in> used_areas s j. area_range (dm_area s p))"
proof -
  have "dm_ok C X j {} s" using ok dm_ok_empty by blast
  note w = pool_wfD [OF dm_okD(2) [OF this]]
  have d: "area_range (dm_area s p) \<inter> area_range (dm_area s q) = {}" if "p \<in> frees {} (dm_area s) (dm_pools s j)" "q \<in> used_areas s j" for p q
    by (rule areas_disjoint [OF w(4,1)]) (use that in \<open>auto simp: frees_def used_areas_def IS_UNUSED_AREA_def\<close>)
  have "cover s j = free_mem {} s j \<union> (\<Union>p \<in> used_areas s j. area_range (dm_area s p))"
    by (auto simp: cover_def free_mem_def frees_def used_areas_def IS_UNUSED_AREA_def)
  then show ?thesis using d by (auto simp: free_mem_def)
qed

section \<open>Neighbours\<close>

lemma area_prev_split: "area_prev ps a = Some p \<Longrightarrow> \<exists>us vs. ps = us @ p # a # vs"
proof (induction ps a rule: area_prev.induct)
  case (1 x q qs a)
  show ?case
  proof (cases "q = a")
    case True
    then show ?thesis using 1 by (intro exI [of _ "[]"] exI [of _ qs]) simp
  next
    case False
    then obtain us vs where "q # qs = us @ p # a # vs" using 1 by auto
    then show ?thesis by (intro exI [of _ "x # us"] exI [of _ vs]) simp
  qed
qed simp_all

lemma area_next_split: "area_next ps a = Some p \<Longrightarrow> \<exists>us vs. ps = us @ a # p # vs"
proof (induction ps a rule: area_next.induct)
  case (1 x q qs a)
  show ?case
  proof (cases "x = a")
    case True
    then show ?thesis using 1 by (intro exI [of _ "[]"] exI [of _ qs]) simp
  next
    case False
    then obtain us vs where "q # qs = us @ a # p # vs" using 1 by auto
    then show ?thesis by (intro exI [of _ "x # us"] exI [of _ vs]) simp
  qed
qed simp_all

section \<open>Merging\<close>

text \<open>
  The area \<open>p\<close> becomes part of its neighbour \<open>a\<close>, which is held: \<open>p\<close> is taken out of the lists, \<open>a\<close> is enlarged to \<open>f\<close>, and
  the descriptor of \<open>p\<close> is released.
\<close>

lemma merge_areas_ok:
  assumes ok: "dm_ok C X k {a} s" and a: "a \<in> set (pp_areas (dm_pools s k))" "IS_UNUSED_AREA (dm_area s a)"
    and p: "p \<in> set (pp_areas (dm_pools s k))" "IS_UNUSED_AREA (dm_area s p)" "p \<noteq> a"
    and f: "area_ok (f (dm_area s a))" "pa_flags (f (dm_area s a)) = pa_flags (dm_area s a)" "pa_ds_next (f (dm_area s a)) = pa_ds_next (dm_area s a)"
      "area_range (f (dm_area s a)) = area_range (dm_area s a) \<union> area_range (dm_area s p)"
  obtains s1 s2 s3 where "remove_free k p s = Inr s1" "remove_area k p s1 = Inr s2" "dm_area s2 = dm_area s" "release_area_desc p (set_area a f s2) = Inr s3"
    "dm_ok C X k {a} s3" "a \<in> set (pp_areas (dm_pools s3 k))" "IS_UNUSED_AREA (dm_area s3 a)" "gives_back {} s s3"
proof -
  note o = dm_okD [OF ok]
  have pf: "p \<in> frees {a} (dm_area s) (dm_pools s k)" using p by (simp add: frees_def)
  from remove_free_ok [OF o(2) pf] obtain P where P: "remove_free k p s = Inr (set_pool k (\<lambda>_. P) s)" "pool_wf (dm_area s) {p, a} P"
    "pp_areas P = pp_areas (dm_pools s k)" "pp_reserved P = pp_reserved (dm_pools s k)" "pp_size P = pp_size (dm_pools s k)" by auto
  define s1 where "s1 = set_pool k (\<lambda>_. P) s"
  have "pool_wf (dm_area s1) {p, a} (dm_pools s1 k)" "p \<in> set (pp_areas (dm_pools s1 k))" using P(2,3) p(1) by (simp_all add: s1_def)
  from remove_area_ok [OF this(1) _ this(2)] obtain Q where Q: "remove_area k p s1 = Inr (set_pool k (\<lambda>_. Q) s1)" "pool_wf (dm_area s) {p, a} Q"
    "set (pp_areas Q) = set (pp_areas (dm_pools s k)) - {p}" "pp_reserved Q = pp_reserved (dm_pools s k)" "pp_size Q = pp_size (dm_pools s k)"
    using P by (auto simp: s1_def)
  define s2 where "s2 = set_pool k (\<lambda>_. Q) s1"
  have m2: "dm_area s2 = dm_area s" "dm_pools s2 = (dm_pools s)(k := Q)" by (simp_all add: s2_def s1_def)
  have ar: "set (pp_areas (dm_pools s2 j)) = (if j = k then set (pp_areas (dm_pools s k)) - {p} else set (pp_areas (dm_pools s j)))" for j
    using Q(3) by (simp add: m2)
  have pint: "p \<notin> int_areas X s" "a \<notin> int_areas X s" using int_areas_used(2) [OF o(1)] p(2) a(2) by (auto simp: IS_UNUSED_AREA_def)
  have i2: "int_inv C X s2 \<and> int_pages s2 = int_pages s"
  proof (rule int_inv_areas [OF o(1)])
    fix d assume d: "d \<in> int_areas X s"
    then have "d \<noteq> p" using pint by blast
    then show "d \<in> set (pp_areas (dm_pools s2 0)) \<and> dm_area s2 d = dm_area s d" using int_areas_used(1) [OF o(1) d] ar [of 0] m2 by auto
  qed (simp_all add: s2_def s1_def)
  have "pool_wf (dm_area s) {a} Q" using Q(2,3) wf_not_area [of p Q] by simp
  have cu2: "cache_used s2 = cache_used s" by (simp add: cache_used_def s2_def s1_def fun_eq_iff)
  have ok2: "dm_ok C X k {a} s2"
  proof (rule dm_okI)
    show "pool_wf (dm_area s2) {a} (dm_pools s2 k)" using \<open>pool_wf (dm_area s) {a} Q\<close> by (simp add: m2)
    show "pool_wf (dm_area s2) {} (dm_pools s2 j)" if "j \<noteq> k" for j using o(3) [OF that] that by (simp add: m2)
    show "cache_used s2 q" if "q \<in> set (pp_areas (dm_pools s2 j))" for j q using o(4) that cu2 unfolding ar by (auto split: if_splits)
    show "i = j" if "q \<in> set (pp_areas (dm_pools s2 i))" "q \<in> set (pp_areas (dm_pools s2 j))" for i j q
      using o(5) that unfolding ar by (auto split: if_splits)
    show "cover s2 j \<subseteq> C j" for j using o(6) [of j] m2(1) ar [of j] by (auto simp: cover_def split: if_splits)
  qed (use i2 in simp)
  have a2: "a \<in> set (pp_areas (dm_pools s2 k))" "a \<notin> int_areas X s2" using a p(3) ar pint(2) i2 by (simp_all add: int_areas_def)
  note w = pool_wfD [OF o(2)]
  let ?s = "set_area a f s2" and ?a = "f (dm_area s a)"
  have un: "IS_UNUSED_AREA ?a" "pa_ds_next ?a = 0" using f(2,3) a(2) w(3) [OF a] by (simp_all add: IS_UNUSED_AREA_def IS_USED_AREA_def)
  have rs: "area_range ?a \<subseteq> C k" using o(6) [of k] f(4) a(1) p(1) by (auto simp: cover_def)
  have ne: "area_range (dm_area s a) \<noteq> {}" using w(1) [OF a(1)] by (simp add: area_range_def area_ok_def)
  have dj: "area_range (dm_area s q) \<inter> area_range ?a = {}" if "q \<in> set (pp_areas (dm_pools s2 k))" "q \<noteq> a" for q
    using areas_disjoint [OF w(4,1) _ a(1), of q] areas_disjoint [OF w(4,1) _ p(1), of q] that ar [of k] f(4) by auto
  have ok3: "dm_ok C X k {a} ?s" and ip3: "int_pages ?s = int_pages s2"
    by (rule set_held_ok [OF ok2 _ a2]; use f(1,4) un rs ne dj m2(1) in auto)+
  have "cache_used ?s p" using o(4) [OF p(1)] cu2 by (simp add: cache_used_def s2_def s1_def)
  from release_area_desc_ok [OF dm_okD(1) [OF ok3] this] obtain s3 where s3: "release_area_desc p ?s = Inr s3" "int_inv C X s3" "int_frame ?s s3"
    "cache_used s3 = (cache_used ?s)(p := False)" "int_pages s3 \<subseteq># int_pages ?s" by blast
  have m3: "dm_area s3 = (dm_area s)(a := ?a)" "dm_pools s3 = (dm_pools s)(k := Q)" "dm_mem s3 = dm_mem s" "dm_update s3 = dm_update s"
    using s3(3) m2 by (simp_all add: int_frame_def s2_def s1_def)
  note o3 = dm_okD [OF ok3]
  have np: "p \<notin> set (pp_areas (dm_pools ?s j))" for j using o(5) [of p j k] p(1) ar [of j] by (cases "j = k") (simp, metis set_area_fields(2))
  have ok4: "dm_ok C X k {a} s3"
  proof (rule dm_okI)
    show "cache_used s3 q" if "q \<in> set (pp_areas (dm_pools s3 j))" for j q using o3(4) [of q j] that np [of j] s3(3,4) by (auto simp: int_frame_def)
    show "i = j" if "q \<in> set (pp_areas (dm_pools s3 i))" "q \<in> set (pp_areas (dm_pools s3 j))" for i j q
      using o3(5) that s3(3) by (simp add: int_frame_def)
    show "cover s3 j \<subseteq> C j" for j using o3(6) [of j] s3(3) by (simp add: int_frame_def cover_def)
  qed (use s3 o3 in \<open>simp_all add: int_frame_def\<close>)
  have cv: "cover s3 j = cover s j" for j
  proof -
    have same: "cover s3 j = cover s j" if "j \<noteq> k"
      unfolding cover_def using that o(5) [of a j k] a(1) by (intro SUP_cong) (auto simp: m3)
    have "cover s3 k = (\<Union>q \<in> set (pp_areas (dm_pools s k)) - {p}. if q = a then area_range ?a else area_range (dm_area s q))"
      unfolding cover_def using Q(3) by (intro SUP_cong) (auto simp: m3)
    also have "\<dots> = (\<Union>q \<in> set (pp_areas (dm_pools s k)). area_range (dm_area s q))"
      using a(1) p(1,3) f(4) by (auto split: if_splits)
    finally show ?thesis using same by (cases "j = k") (auto simp: cover_def)
  qed
  have us: "used_areas s3 j = used_areas s j" for j
    using Q(3) p(2) a(2) un(1) by (auto simp: used_areas_def m3 IS_UNUSED_AREA_def split: if_splits)
  have "gives_back {} s s3"
    unfolding gives_back_def using cv us m3 a(2) Q s3(5) ip3 i2 by (auto simp: used_areas_def IS_UNUSED_AREA_def)
  then show ?thesis
    using that [of s1 s2 s3] P(1) Q(1) s3(1) ok4 m2(1) m3 a2(1) un(1) Q(3) a(1) p(3) by (simp add: s1_def [symmetric] s2_def [symmetric])
qed

lemma area_join:
  assumes "area_ok a" "area_ok b" "pa_addr a + pa_size a = pa_addr b"
  shows "area_ok (c\<lparr>pa_addr := pa_addr a, pa_size := pa_size b + pa_size a\<rparr>)"
    "area_range (c\<lparr>pa_addr := pa_addr a, pa_size := pa_size b + pa_size a\<rparr>) = area_range a \<union> area_range b"
proof -
  have u: "unat (pa_addr a) + unat (pa_size a) = unat (pa_addr b)"
    using assms(1,3) unat_add_lt [of "pa_addr a" "pa_size a"] by (simp add: area_ok_def)
  have "unat (pa_size b + pa_size a) = unat (pa_size b) + unat (pa_size a)"
    using assms(2) u by (intro unat_add_lt) (simp add: area_ok_def)
  then show "area_ok (c\<lparr>pa_addr := pa_addr a, pa_size := pa_size b + pa_size a\<rparr>)"
    "area_range (c\<lparr>pa_addr := pa_addr a, pa_size := pa_size b + pa_size a\<rparr>) = area_range a \<union> area_range b"
    using assms(1,2) u by (auto simp: area_ok_def area_range_def)
qed

lemma merge_prev_ok:
  assumes ok: "dm_ok C X k {a} s" and a: "a \<in> set (pp_areas (dm_pools s k))" "IS_UNUSED_AREA (dm_area s a)"
  obtains s' where "merge_prev k a s = Inr s'" "dm_ok C X k {a} s'" "a \<in> set (pp_areas (dm_pools s' k))" "IS_UNUSED_AREA (dm_area s' a)" "gives_back {} s s'"
proof (cases "\<exists>p. area_prev (pp_areas (dm_pools s k)) a = Some p \<and> IS_UNUSED_AREA (dm_area s p) \<and> area_end (dm_area s) p = pa_addr (dm_area s a)")
  case False
  then have "merge_prev k a s = Inr s" by (auto simp: merge_prev_def split: option.splits)
  then show ?thesis using that ok a gives_back_refl by blast
next
  case True
  then obtain p where p: "area_prev (pp_areas (dm_pools s k)) a = Some p" "IS_UNUSED_AREA (dm_area s p)" "area_end (dm_area s) p = pa_addr (dm_area s a)" by blast
  note w = pool_wfD [OF dm_okD(2) [OF ok]]
  obtain us vs where l: "pp_areas (dm_pools s k) = us @ p # a # vs" using area_prev_split [OF p(1)] by blast
  then have q: "p \<in> set (pp_areas (dm_pools s k))" "p \<noteq> a" using areas_distinct [OF w(4,1)] by auto
  let ?f = "\<lambda>x. x\<lparr>pa_addr := pa_addr (dm_area s p), pa_size := pa_size x + pa_size (dm_area s p)\<rparr>"
  note j = area_join [OF w(1) [OF q(1)] w(1) [OF a(1)] p(3) [unfolded area_end_def], of "dm_area s a"]
  have "area_range (?f (dm_area s a)) = area_range (dm_area s a) \<union> area_range (dm_area s p)" unfolding j(2) by (rule Un_commute)
  from merge_areas_ok [OF ok a q(1) p(2) q(2), of ?f, OF j(1) _ _ this] obtain s1 s2 s3 where
    s: "remove_free k p s = Inr s1" "remove_area k p s1 = Inr s2" "dm_area s2 = dm_area s" "release_area_desc p (set_area a ?f s2) = Inr s3"
    "dm_ok C X k {a} s3" "a \<in> set (pp_areas (dm_pools s3 k))" "IS_UNUSED_AREA (dm_area s3 a)" "gives_back {} s s3" by auto
  have "merge_prev k a s = Inr s3" using p s by (simp add: merge_prev_def)
  then show ?thesis using that s by blast
qed

lemma merge_next_ok:
  assumes ok: "dm_ok C X k {a} s" and a: "a \<in> set (pp_areas (dm_pools s k))" "IS_UNUSED_AREA (dm_area s a)"
  obtains s' where "merge_next k a s = Inr s'" "dm_ok C X k {a} s'" "a \<in> set (pp_areas (dm_pools s' k))" "IS_UNUSED_AREA (dm_area s' a)" "gives_back {} s s'"
proof (cases "\<exists>p. area_next (pp_areas (dm_pools s k)) a = Some p \<and> IS_UNUSED_AREA (dm_area s p) \<and> area_end (dm_area s) a = pa_addr (dm_area s p)")
  case False
  then have "merge_next k a s = Inr s" by (auto simp: merge_next_def split: option.splits)
  then show ?thesis using that ok a gives_back_refl by blast
next
  case True
  then obtain p where p: "area_next (pp_areas (dm_pools s k)) a = Some p" "IS_UNUSED_AREA (dm_area s p)" "area_end (dm_area s) a = pa_addr (dm_area s p)" by blast
  note w = pool_wfD [OF dm_okD(2) [OF ok]]
  obtain us vs where l: "pp_areas (dm_pools s k) = us @ a # p # vs" using area_next_split [OF p(1)] by blast
  then have q: "p \<in> set (pp_areas (dm_pools s k))" "p \<noteq> a" using areas_distinct [OF w(4,1)] by auto
  let ?f = "\<lambda>x. x\<lparr>pa_size := pa_size x + pa_size (dm_area s p)\<rparr>"
  have e: "(dm_area s a)\<lparr>pa_addr := pa_addr (dm_area s a), pa_size := pa_size (dm_area s p) + pa_size (dm_area s a)\<rparr> = ?f (dm_area s a)"
    by (simp add: add.commute)
  note j = area_join [OF w(1) [OF a(1)] w(1) [OF q(1)] p(3) [unfolded area_end_def], of "dm_area s a", unfolded e]
  from merge_areas_ok [OF ok a q(1) p(2) q(2), of ?f, OF j(1) _ _ j(2)] obtain s1 s2 s3 where
    s: "remove_free k p s = Inr s1" "remove_area k p s1 = Inr s2" "dm_area s2 = dm_area s" "release_area_desc p (set_area a ?f s2) = Inr s3"
    "dm_ok C X k {a} s3" "a \<in> set (pp_areas (dm_pools s3 k))" "IS_UNUSED_AREA (dm_area s3 a)" "gives_back {} s s3" by auto
  have "merge_next k a s = Inr s3" using p s by (simp add: merge_next_def)
  then show ?thesis using that s by blast
qed

lemma unuse_ok:
  assumes ok: "dm_ok C X k {} s" and a: "a \<in> used_areas s k" "a \<notin> int_areas X s"
  defines "s' \<equiv> set_area a (\<lambda>x. (SET_AREA_UNUSED x)\<lparr>pa_ds_next := 0\<rparr>) s"
  shows "dm_ok C X k {a} s'" "a \<in> set (pp_areas (dm_pools s' k))" "IS_UNUSED_AREA (dm_area s' a)" "gives_back {a} s s'"
proof -
  note o = dm_okD [OF ok]
  note w = pool_wfD [OF o(2)]
  let ?a = "(SET_AREA_UNUSED (dm_area s a))\<lparr>pa_ds_next := 0\<rparr>"
  have ak: "a \<in> set (pp_areas (dm_pools s k))" "IS_USED_AREA (dm_area s a)" using a(1) by (simp_all add: used_areas_def)
  then have oka: "dm_ok C X k {a} s" using o wf_used_held [of "dm_area s" a "{}"] by (intro dm_okI) simp_all
  have un: "IS_UNUSED_AREA ?a" using used_flags(2) [of "dm_area s a"] by (simp add: IS_UNUSED_AREA_def IS_USED_AREA_def)
  have r: "area_range ?a = area_range (dm_area s a)" "area_ok ?a" "area_range (dm_area s a) \<noteq> {}" "area_range (dm_area s a) \<subseteq> C k"
    using w(1) [OF ak(1)] o(6) [of k] ak(1) by (auto simp: area_range_def area_ok_def cover_def)
  have m: "dm_ok C X k {a} s' \<and> int_pages s' = int_pages s" unfolding s'_def
    by (intro conjI set_held_ok [OF oka _ ak(1) a(2)]) (use r un areas_disjoint [OF w(4,1) _ ak(1)] in auto)
  then show "dm_ok C X k {a} s'" by simp
  show "a \<in> set (pp_areas (dm_pools s' k))" "IS_UNUSED_AREA (dm_area s' a)" using ak un by (simp_all add: s'_def)
  have f: "dm_area s' = (dm_area s)(a := ?a)" "dm_pools s' = dm_pools s" "dm_mem s' = dm_mem s" "dm_update s' = dm_update s" by (simp_all add: s'_def)
  have "cover s' j = cover s j" for j unfolding cover_def f by (rule SUP_cong) (use r in auto)
  moreover have "used_areas s' j = used_areas s j - {a}" for j using un by (auto simp: used_areas_def f IS_UNUSED_AREA_def)
  ultimately show "gives_back {a} s s'" using m f by (simp add: gives_back_def)
qed

lemma release_merge_ok:
  assumes ok: "dm_ok C X k {} s" and a: "a \<in> used_areas s k" "a \<notin> int_areas X s"
  obtains s' where "release_merge k a s = Inr s'" "dm_ok C X k {} s'" "gives_back {a} s s'"
proof -
  let ?s0 = "set_area a (\<lambda>x. (SET_AREA_UNUSED x)\<lparr>pa_ds_next := 0\<rparr>) s"
  note u = unuse_ok [OF ok a]
  obtain s1 where s1: "merge_prev k a ?s0 = Inr s1" "dm_ok C X k {a} s1" "a \<in> set (pp_areas (dm_pools s1 k))" "IS_UNUSED_AREA (dm_area s1 a)" "gives_back {} ?s0 s1"
    by (rule merge_prev_ok [OF u(1-3)])
  obtain s2 where s2: "merge_next k a s1 = Inr s2" "dm_ok C X k {a} s2" "a \<in> set (pp_areas (dm_pools s2 k))" "IS_UNUSED_AREA (dm_area s2 a)" "gives_back {} s1 s2"
    by (rule merge_next_ok [OF s1(2-4)])
  note o = dm_okD [OF s2(2)]
  from add_free_ok [of s2 a "{}" k] o(2) s2(3,4) obtain P where P: "add_free k a s2 = Inr (set_pool k (\<lambda>_. P) s2)" "pool_wf (dm_area s2) {} P"
    "pp_areas P = pp_areas (dm_pools s2 k)" "pp_reserved P = pp_reserved (dm_pools s2 k)" "pp_size P = pp_size (dm_pools s2 k)" by auto
  define s3 where "s3 = set_pool k (\<lambda>_. P) s2"
  have pa: "pp_areas (dm_pools s3 j) = pp_areas (dm_pools s2 j)" for j using P(3) by (simp add: s3_def)
  have ii: "int_inv C X s3 \<and> int_pages s3 = int_pages s2"
  proof (rule int_inv_areas [OF o(1)])
    fix d assume "d \<in> int_areas X s2"
    then show "d \<in> set (pp_areas (dm_pools s3 0)) \<and> dm_area s3 d = dm_area s2 d" using int_areas_used(1) [OF o(1)] pa by simp (simp add: s3_def)
  qed (simp_all add: s3_def)
  have e: "dm_area s3 = dm_area s2" "cache_used s3 = cache_used s2" by (simp_all add: s3_def cache_used_def fun_eq_iff)
  have cv: "cover s3 = cover s2" "used_areas s3 = used_areas s2" using pa e by (simp_all add: cover_def used_areas_def fun_eq_iff)
  have "dm_ok C X k {} s3"
  proof (rule dm_okI)
    show "pool_wf (dm_area s3) {} (dm_pools s3 k)" using P(2) by (simp add: s3_def)
    show "pool_wf (dm_area s3) {} (dm_pools s3 j)" if "j \<noteq> k" for j using o(3) [OF that] that by (simp add: s3_def)
    show "cache_used s3 q" if "q \<in> set (pp_areas (dm_pools s3 j))" for j q using o(4) that pa e by simp
    show "i = j" if "q \<in> set (pp_areas (dm_pools s3 i))" "q \<in> set (pp_areas (dm_pools s3 j))" for i j q using o(5) that pa by simp
  qed (use ii cv o(6) in simp_all)
  moreover have "gives_back {} s2 s3" using cv e P ii unfolding gives_back_def by (auto simp: s3_def)
  then have "gives_back {a} s s3" using gives_back_trans [OF gives_back_trans [OF gives_back_trans [OF u(4) s1(5)] s2(5)]] by simp
  ultimately show ?thesis using that s1(1) s2(1) P(1) by (simp add: release_merge_def s3_def)
qed

section \<open>The calls return\<close>

lemma pop_freed_ok:
  assumes ok: "dm_ok C X k {} s" and fr: "dm_freed s = p # fs"
  defines "s1 \<equiv> s\<lparr>dm_freed := fs\<rparr>"
  shows "dm_ok C X 0 {} s1" "p \<in> used_areas s1 0" "p \<notin> int_areas X s1" "p \<in> int_areas X s" "p \<noteq> 0" "pa_ds_next (dm_area s1 p) = 0"
    "gives_back {} s s1" "size (int_pages s1) < size (int_pages s)"
proof -
  note o = dm_okD [OF ok [unfolded dm_ok_empty [of C X k s 0]]]
  let ?x = "(pa_addr (dm_area s p), p)"
  have f: "dm_area s1 = dm_area s" "dm_pools s1 = dm_pools s" "dm_cache s1 = dm_cache s" by (simp_all add: s1_def)
  have ip: "int_pages s = add_mset ?x (int_pages s1)" by (simp add: int_pages_def s1_def fr)
  show p0: "p \<noteq> 0" using o(1) fr by (auto simp: int_inv_def)
  then show pi: "p \<in> int_areas X s" by (simp add: int_areas_def ip)
  note u = int_areas_used [OF o(1) pi]
  show "p \<in> used_areas s1 0" "pa_ds_next (dm_area s1 p) = 0" using u by (simp_all add: used_areas_def f)
  have po: "page_ok C s1 = page_ok C s" by (rule page_ok_frame) (simp add: int_frame_def s1_def)
  have "\<forall>p. count (image_mset fst (int_pages s1 + X)) p \<le> 1" by (rule count_sub [of "int_pages s + X"]) (use o(1) ip in \<open>simp_all add: int_inv_def\<close>)
  then have "int_inv C X s1" using o(1) fr ip unfolding int_inv_def po by (auto simp: s1_def)
  moreover have "cache_used s1 = cache_used s" "cover s1 = cover s" by (simp_all add: cache_used_def cover_def f fun_eq_iff)
  ultimately show "dm_ok C X 0 {} s1" using o by (intro dm_okI) (simp_all add: f)
  show "p \<notin> int_areas X s1"
  proof
    assume "p \<in> int_areas X s1"
    then obtain page where pg: "(page, p) \<in># int_pages s1 + X" by (force simp: int_areas_def)
    then have "(page, p) \<in># int_pages s + X" using ip by auto
    then have "page_ok C s (page, p)" using o(1) by (auto simp: int_inv_def)
    then have "page = pa_addr (dm_area s p)" using p0 by (simp add: page_ok_def)
    then obtain M where "int_pages s1 + X = add_mset ?x M" using pg by (metis multi_member_split)
    then have "int_pages s + X = add_mset ?x (add_mset ?x M)" using ip by simp
    then show False using o(1) count_one_neq [of "pa_addr (dm_area s p)" p "pa_addr (dm_area s p)" p M] by (simp add: int_inv_def)
  qed
  show "gives_back {} s s1" using ip by (simp add: gives_back_def f cover_def used_areas_def) (simp add: s1_def)
  show "size (int_pages s1) < size (int_pages s)" using ip by simp
qed

lemma gives_back_size: "gives_back D s s' \<Longrightarrow> size (int_pages s') \<le> size (int_pages s)"
  by (simp add: gives_back_def size_mset_mono)

lemma run_update_free:
  assumes "dm_ok C X k {} s"
  shows "\<exists>s' D. run_release (Update_free # cs) s = run_release cs s' \<and> dm_ok C X k {} s' \<and> gives_back D s s' \<and> D \<subseteq> int_areas X s \<and> dm_freed s' = []"
  using assms
proof (induction "size (int_pages s)" arbitrary: s cs k rule: less_induct)
  case less
  show ?case
  proof (cases "dm_freed s")
    case Nil
    then show ?thesis using less.prems gives_back_refl [of s] by (intro exI [of _ s] exI [of _ "{}"]) (simp add: run_release.simps)
  next
    case (Cons p fs)
    let ?s1 = "s\<lparr>dm_freed := fs\<rparr>" and ?cs = "Pages_release 0 0 # Update_free # cs"
    note p = pop_freed_ok [OF less.prems Cons]
    obtain s2 where s2: "release_merge 0 p ?s1 = Inr s2" "dm_ok C X 0 {} s2" "gives_back {p} ?s1 s2" by (rule release_merge_ok [OF p(1-3)])
    have e: "run_release (Update_free # cs) s = run_release (Update_free # ?cs) s2"
      using Cons p(5,6) s2(1) by (subst run_release.simps, simp add: DMPHYS_MEM_DEFAULT_POOL_def, subst run_release.simps, simp, subst run_release.simps, simp)
    have lt: "size (int_pages s2) < size (int_pages s)" using gives_back_size [OF s2(3)] p(8) by simp
    from less.hyps [OF lt s2(2), of ?cs] obtain s3 D where s3: "run_release (Update_free # ?cs) s2 = run_release ?cs s3" "dm_ok C X 0 {} s3"
      "gives_back D s2 s3" "D \<subseteq> int_areas X s2" by blast
    have lt3: "size (int_pages s3) < size (int_pages s)" using gives_back_size [OF s3(3)] lt by simp
    from less.hyps [OF lt3 s3(2), of cs] obtain s4 E where s4: "run_release (Update_free # cs) s3 = run_release cs s4" "dm_ok C X 0 {} s4"
      "gives_back E s3 s4" "E \<subseteq> int_areas X s3" "dm_freed s4 = []" by blast
    have "run_release ?cs s3 = run_release (Update_free # cs) s3" by (subst run_release.simps) simp
    then have "run_release (Update_free # cs) s = run_release cs s4" using e s3(1) s4(1) by simp
    moreover have "gives_back ({p} \<union> D \<union> E) s s4" using gives_back_trans [OF p(7) gives_back_trans [OF gives_back_trans [OF s2(3) s3(3)] s4(3)]] by simp
    moreover have "{p} \<union> D \<union> E \<subseteq> int_areas X s"
      using s3(4) s4(4) p(4) gives_back_int_areas [OF p(7), of X] gives_back_int_areas [OF s2(3), of X] gives_back_int_areas [OF s3(3), of X] by blast
    ultimately show ?thesis using s4(2,5) dm_ok_empty [of C X k s4 0] by blast
  qed
qed

text \<open>A list of areas that belongs to nobody else is released, whatever calls are still to be made.\<close>

lemma run_pages_release:
  assumes "dm_ok C X k {} s" "ds_chain (dm_area s) p qs" "set qs \<subseteq> used_areas s k" "set qs \<inter> int_areas X s = {}" "distinct qs"
  shows "\<exists>s' D. run_release (Pages_release k p # cs) s = run_release cs s' \<and> dm_ok C X k {} s' \<and> gives_back (set qs \<union> D) s s' \<and> D \<subseteq> int_areas X s"
  using assms
proof (induction qs arbitrary: s p)
  case Nil
  then show ?case using gives_back_refl [of s] by (intro exI [of _ s] exI [of _ "{}"]) (simp add: run_release.simps)
next
  case (Cons q qs)
  have q: "p = q" "q \<noteq> 0" "ds_chain (dm_area s) (pa_ds_next (dm_area s q)) qs" using Cons.prems(2) by simp_all
  have qu: "q \<in> used_areas s k" "q \<notin> int_areas X s" using Cons.prems(3,4) by auto
  obtain s1 where s1: "release_merge k q s = Inr s1" "dm_ok C X k {} s1" "gives_back {q} s s1" by (rule release_merge_ok [OF Cons.prems(1) qu])
  let ?cs = "Pages_release k (pa_ds_next (dm_area s q)) # cs"
  have e: "run_release (Pages_release k p # cs) s = run_release (Update_free # ?cs) s1"
    using q s1(1) by (subst run_release.simps, simp, subst run_release.simps, simp)
  from run_update_free [OF s1(2), of ?cs] obtain s2 D where s2: "run_release (Update_free # ?cs) s1 = run_release ?cs s2" "dm_ok C X k {} s2"
    "gives_back D s1 s2" "D \<subseteq> int_areas X s1" by blast
  have d: "gives_back ({q} \<union> D) s s2" by (rule gives_back_trans [OF s1(3) s2(3)])
  have D: "D \<subseteq> int_areas X s" using s2(4) gives_back_int_areas [OF s1(3), of X] by blast
  have us: "set qs \<subseteq> used_areas s2 k" "set qs \<inter> int_areas X s2 = {}"
    using d D Cons.prems(3-5) gives_back_int_areas [OF d, of X] by (auto simp: gives_back_def)
  have "dm_area s2 r = dm_area s r" if "r \<in> set qs" for r using that us(1) d unfolding gives_back_def by blast
  then have "ds_chain (dm_area s2) (pa_ds_next (dm_area s q)) qs" using q(3) ds_chain_cong [of qs "dm_area s2" "dm_area s"] by simp
  from Cons.IH [OF s2(2) this us] Cons.prems(5) obtain s3 E where s3: "run_release ?cs s2 = run_release cs s3" "dm_ok C X k {} s3"
    "gives_back (set qs \<union> E) s2 s3" "E \<subseteq> int_areas X s2" by auto
  have "gives_back (set (q # qs) \<union> (D \<union> E)) s s3" using gives_back_trans [OF d s3(3)] by (simp add: Un_ac)
  moreover have "D \<union> E \<subseteq> int_areas X s" using D s3(4) gives_back_int_areas [OF d, of X] by blast
  ultimately show ?case using e s2(1) s3(1,2) by (intro exI [of _ s3] exI [of _ "D \<union> E"]) simp
qed

lemma pages_release_ok:
  assumes "dm_ok C X k {} s" "ds_chain (dm_area s) p qs" "set qs \<subseteq> used_areas s k" "set qs \<inter> int_areas X s = {}" "distinct qs"
  obtains s' D where "dmphys_pages_release (Some k) p s = Inr s'" "dm_ok C X k {} s'" "gives_back (set qs \<union> D) s s'" "D \<subseteq> int_areas X s"
proof -
  from run_pages_release [OF assms, of "[]"] obtain s' D where s': "run_release [Pages_release k p] s = run_release [] s'" "dm_ok C X k {} s'"
    "gives_back (set qs \<union> D) s s'" "D \<subseteq> int_areas X s" by blast
  have "dmphys_pages_release (Some k) p s = Inr s'" using s'(1) by (simp add: dmphys_pages_release_def loop_res_def run_release.simps)
  then show ?thesis using that s' by blast
qed

end
