(* ===== verification/DmAllocate.thy ===== *)
theory DmAllocate
  imports DmRelease
begin

text \<open>
  Allocation of the areas of a dataspace (\<open>__find_single_area\<close>, \<open>__allocate_pages\<close>, \<open>dmphys_pages_allocate\<close>): the areas are
  taken from the free memory of the pool, and when the memory is not enough what was taken goes back.
\<close>

section \<open>Lists of areas\<close>

definition took :: "nat \<Rightarrow> dm_state \<Rightarrow> dm_state \<Rightarrow> l4_addr_t list \<Rightarrow> bool" where
  "took k s s' qs \<longleftrightarrow> outside_same k s s' \<and> distinct qs \<and> set qs \<inter> used_areas s k = {} \<and> used_areas s' k = used_areas s k \<union> set qs \<and>
     (\<forall>q \<in> used_areas s k. dm_area s' q = dm_area s q) \<and> (\<Union>q \<in> set qs. area_range (dm_area s' q)) \<subseteq> free_mem {} s k \<and>
     free_mem {} s' k = free_mem {} s k - (\<Union>q \<in> set qs. area_range (dm_area s' q)) \<and>
     cover s' k = cover s k \<and> int_pages s' = int_pages s \<and> dm_freed s' = dm_freed s"

lemma took_refl: "took k s s []"
  by (simp add: took_def)

lemma taken_took: "taken k s s' p \<Longrightarrow> took k s s' [p]"
  by (auto simp: taken_def took_def)

lemma used_cached: "dm_ok C X k {} s \<Longrightarrow> int_areas X s \<subseteq> used_areas s 0"
  using int_areas_used dm_okD(1) by (fastforce simp: used_areas_def)

lemma link_ok:
  fixes x :: l4_addr_t
  assumes ok: "dm_ok C X k {} s" and p: "p \<in> used_areas s k" "p \<notin> int_areas X s"
  defines "s' \<equiv> set_area p (\<lambda>a. a\<lparr>pa_ds_next := x\<rparr>) s"
  shows "dm_ok C X k {} s'" "int_pages s' = int_pages s" "used_areas s' j = used_areas s j" "free_mem {} s' j = free_mem {} s j"
    "cover s' j = cover s j" "outside_same k s s'" "descs s' = descs s"
proof -
  note o = dm_okD [OF ok]
  note w = pool_wfD [OF o(2)]
  let ?a = "(dm_area s p)\<lparr>pa_ds_next := x\<rparr>"
  have pk: "p \<in> set (pp_areas (dm_pools s k))" "IS_USED_AREA (dm_area s p)" using p(1) by (simp_all add: used_areas_def)
  then have okp: "dm_ok C X k {p} s" using o wf_used_held [of "dm_area s" p "{}"] by (intro dm_okI) simp_all
  have us: "IS_USED_AREA ?a" using pk(2) by (simp add: IS_USED_AREA_def)
  have r: "area_range ?a = area_range (dm_area s p)" "area_ok ?a" "area_range (dm_area s p) \<noteq> {}" "area_range (dm_area s p) \<subseteq> C k"
    using w(1) [OF pk(1)] o(6) [of k] pk(1) by (auto simp: area_range_def area_ok_def cover_def)
  have m: "dm_ok C X k {p} s' \<and> int_pages s' = int_pages s" unfolding s'_def
    by (intro conjI set_held_ok [OF okp _ pk(1) p(2)]) (use r us areas_disjoint [OF w(4,1) _ pk(1)] in \<open>auto simp: IS_UNUSED_AREA_def\<close>)
  then show "int_pages s' = int_pages s" by simp
  have f: "dm_area s' = (dm_area s)(p := ?a)" "dm_pools s' = dm_pools s" by (simp_all add: s'_def)
  have "IS_USED_AREA (dm_area s' p)" using us by (simp add: f)
  then show "dm_ok C X k {} s'" using dm_okD [of C X k "{p}" s'] m wf_used_held [of "dm_area s'" p "{}"] by (intro dm_okI) simp_all
  show "used_areas s' j = used_areas s j" using us pk(2) by (auto simp: used_areas_def f)
  have "frees {} (dm_area s') (dm_pools s' j) = frees {} (dm_area s) (dm_pools s j)" using us pk(2) by (auto simp: frees_def f IS_UNUSED_AREA_def)
  then show "free_mem {} s' j = free_mem {} s j" unfolding free_mem_def by (intro SUP_cong) (use r in \<open>auto simp: f\<close>)
  show "cover s' j = cover s j" unfolding cover_def f(2) by (rule SUP_cong) (use r in \<open>auto simp: f\<close>)
  show "outside_same k s s'" using o(5) pk(1) by (auto simp: outside_same_def s'_def)
  show "descs s' = descs s" by (simp add: descs_def avail_def s'_def)
qed

lemma took_step:
  assumes t: "took k s0 s qs" and p: "taken k s s' p" and ok: "dm_ok C X k {} s'" "p \<notin> int_areas X s'"
    and ch: "ds_chain (dm_area s) pl qs"
  defines "s'' \<equiv> set_area p (\<lambda>a. a\<lparr>pa_ds_next := pl\<rparr>) s'"
  shows "took k s0 s'' (p # qs)" "ds_chain (dm_area s'') p (p # qs)" "\<And>q. q \<in> set qs \<Longrightarrow> dm_area s'' q = dm_area s q"
proof -
  have p': "p \<noteq> 0" "p \<notin> used_areas s k" "used_areas s' k = insert p (used_areas s k)" using p by (simp_all add: taken_def)
  note l = link_ok [OF ok(1) _ ok(2), of pl, folded s''_def]
  have pu: "p \<in> used_areas s' k" using p' by simp
  have a: "dm_area s'' q = (if q = p then (dm_area s' p)\<lparr>pa_ds_next := pl\<rparr> else dm_area s' q)" for q by (simp add: s''_def)
  have qs: "set qs \<subseteq> used_areas s k" "used_areas s0 k \<subseteq> used_areas s k" "p \<notin> set qs" using t p'(2) by (auto simp: took_def)
  have same: "dm_area s'' q = dm_area s q" if "q \<in> used_areas s k" for q using that p p'(2) a by (auto simp: taken_def)
  then show sq: "\<And>q. q \<in> set qs \<Longrightarrow> dm_area s'' q = dm_area s q" using qs by blast
  have rp: "area_range (dm_area s'' p) = area_range (dm_area s' p)" by (simp add: a area_range_def)
  have U: "(\<Union>q \<in> set qs. area_range (dm_area s'' q)) = (\<Union>q \<in> set qs. area_range (dm_area s q))" by (rule SUP_cong) (use sq in auto)
  have f: "free_mem {} s'' k = free_mem {} s k - area_range (dm_area s' p)" "area_range (dm_area s' p) \<subseteq> free_mem {} s k"
    using p l(4) [OF pu, of k] by (simp_all add: taken_def)
  have d: "dm_freed s'' = dm_freed s'" by (simp add: s''_def)
  have fs: "free_mem {} s k = free_mem {} s0 k - (\<Union>q \<in> set qs. area_range (dm_area s q))" "(\<Union>q \<in> set qs. area_range (dm_area s q)) \<subseteq> free_mem {} s0 k"
    using t by (simp_all add: took_def)
  have os: "outside_same k s0 s''" using outside_same_trans [of k s0 s s''] outside_same_trans [of k s s' s''] t p l(6) [OF pu] by (simp add: took_def taken_def)
  have "set (p # qs) \<inter> used_areas s0 k = {}" "distinct (p # qs)" "used_areas s'' k = used_areas s0 k \<union> set (p # qs)"
    using t p' qs l(3) [OF pu, of k] by (auto simp: took_def)
  moreover have "\<forall>q \<in> used_areas s0 k. dm_area s'' q = dm_area s0 q" using t same qs(2) by (auto simp: took_def)
  moreover have "(\<Union>q \<in> set (p # qs). area_range (dm_area s'' q)) \<subseteq> free_mem {} s0 k" using f fs rp U by auto
  moreover have "free_mem {} s'' k = free_mem {} s0 k - (\<Union>q \<in> set (p # qs). area_range (dm_area s'' q))" using f fs rp U by auto
  moreover have "cover s'' k = cover s0 k" "int_pages s'' = int_pages s0" "dm_freed s'' = dm_freed s0"
    using t p l(2,5) [OF pu] d by (simp_all add: took_def taken_def)
  ultimately show "took k s0 s'' (p # qs)" using os unfolding took_def by blast
  show "ds_chain (dm_area s'') p (p # qs)" using ch p'(1) sq ds_chain_cong [of qs "dm_area s''" "dm_area s"] by (simp add: a)
qed

section \<open>The first area of a free list\<close>

lemma aligned_size_exact:
  assumes "area_ok a" "12 \<le> m" "m < 32" "aligned_size a (2 ^ m) \<noteq> 0"
  shows "4096 dvd unat (aligned_size a (2 ^ m))" "aligned_size a (2 ^ m) = pa_size a \<Longrightarrow> 2 ^ m dvd unat (pa_addr a)"
proof -
  have z: "0 < unat (aligned_size a (2 ^ m))" using assms(4) by (simp add: unat_gt_0)
  let ?hi = "unat (pa_addr a) + unat (pa_size a)"
  obtain up where up: "2 ^ m dvd up" "unat (pa_addr a) \<le> up" "unat (aligned_size a (2 ^ m)) = ?hi div 2 ^ m * 2 ^ m - up" 
    using aligned_size_fits [OF assms(1,3) z order_refl] by blast
  have "2 ^ m dvd unat (aligned_size a (2 ^ m))" unfolding up(3) using up(1) by (simp add: dvd_diff_nat)
  then show "4096 dvd unat (aligned_size a (2 ^ m))" using le_imp_power_dvd [OF assms(2), of "2 :: nat"] by (simp add: dvd_trans)
  assume e: "aligned_size a (2 ^ m) = pa_size a"
  have "?hi div 2 ^ m * 2 ^ m \<le> ?hi" by simp
  then have "up = unat (pa_addr a)" using up(2,3) z unfolding e by linarith
  then show "2 ^ m dvd unat (pa_addr a)" using up(1) by simp
qed

lemma take_first_area_ok:
  assumes ok: "dm_ok C X k {} s" and d: "2 \<le> descs s" and m: "12 \<le> m" "m < 32" and sz: "0 < unat sz" "4096 dvd unat sz"
  obtains s' p where "take_first_area k sz (2 ^ m) start s = Inr (s', p)" "p = 0 \<Longrightarrow> s' = s"
    "p \<noteq> 0 \<Longrightarrow> dm_ok C X k {} s' \<and> taken k s s' p \<and> 0 < unat (pa_size (dm_area s' p)) \<and> 4096 dvd unat (pa_size (dm_area s' p)) \<and>
      pa_size (dm_area s' p) \<le> sz \<and> 2 ^ m dvd unat (pa_addr (dm_area s' p)) \<and> descs s \<le> descs s' + 2"
proof -
  note w = pool_wfD [OF dm_okD(2) [OF ok]]
  let ?l = "pp_lists (dm_pools s k)" and ?as = "\<lambda>p. aligned_size (dm_area s p) (2 ^ m)"
  show ?thesis
  proof (cases "first_index (\<lambda>i. ?l i \<noteq> [] \<and> ?as (hd (?l i)) \<noteq> 0) start (DMPHYS_NUM_FREE_LISTS - start)")
    case None
    then show ?thesis using that [of s 0] by (simp add: take_first_area_def)
  next
    case (Some i)
    define p where "p = hd (?l i)"
    have i: "?l i \<noteq> []" "?as p \<noteq> 0" using first_index_SomeD [OF Some] by (simp_all add: p_def)
    then have "p \<in> set (?l i)" by (simp add: p_def)
    then have pf: "p \<in> frees {} (dm_area s) (dm_pools s k)" using w(6) by auto
    then have pp: "p \<in> set (pp_areas (dm_pools s k))" "IS_UNUSED_AREA (dm_area s p)" by (simp_all add: frees_def)
    have aok: "area_ok (dm_area s p)" and p0: "p \<noteq> 0" using w(1,2) [OF pp(1)] by simp_all
    note ex = aligned_size_exact [OF aok m i(2)]
    define t where "t = (if ?as p > sz then sz else ?as p)"
    have t: "0 < unat t" "4096 dvd unat t" "t \<le> ?as p" "t \<le> sz" using sz i(2) ex(1) by (auto simp: t_def unat_gt_0)
    show ?thesis
    proof (cases "?as p > sz \<or> ?as p \<noteq> pa_size (dm_area s p)")
      case True
      from carve_ok [OF ok pf d m t(1-3)] obtain s1 s2 where s: "remove_free k p s = Inr s1" "dm_area s1 = dm_area s" "split_area k p t (2 ^ m) s1 = Inr s2"
        "dm_ok C X k {} (set_used p s2)" "taken k s (set_used p s2) p" "pa_size (dm_area (set_used p s2) p) = t"
        "2 ^ m dvd unat (pa_addr (dm_area (set_used p s2) p))" "descs s \<le> descs (set_used p s2) + 2" by blast
      have "take_first_area k sz (2 ^ m) start s = Inr (set_used p s2, p)"
        using Some s(1-3) True by (auto simp: take_first_area_def Let_def t_def simp flip: p_def split: if_splits)
      then show ?thesis using that [of "set_used p s2" p] s t p0 by simp
    next
      case False
      then have e: "?as p = pa_size (dm_area s p)" "t = pa_size (dm_area s p)" by (auto simp: t_def)
      from hold_ok [OF ok pf] obtain s1 where s1: "remove_free k p s = Inr s1" "dm_ok C X k {p} s1" "dm_area s1 = dm_area s"
        "\<And>j. pp_areas (dm_pools s1 j) = pp_areas (dm_pools s j)" "outside_same k s s1" "descs s1 = descs s" "int_pages s1 = int_pages s"
        "dm_freed s1 = dm_freed s" by blast
      have q: "p \<in> set (pp_areas (dm_pools s1 k))" "IS_UNUSED_AREA (dm_area s1 p)" using s1(3,4) pp by simp_all
      note u = use_held_ok [OF s1(2) q]
      have "cover s1 k = cover s k" "used_areas s1 k = used_areas s k" using s1(3,4) by (simp_all add: cover_def used_areas_def)
      moreover have "free_mem {p} s1 k = free_mem {p} s k" using s1(3,4) by (simp add: free_mem_def frees_def)
      moreover have "p \<notin> used_areas s k" using pp by (simp add: used_areas_def IS_UNUSED_AREA_def)
      moreover have a: "dm_area (set_used p s1) = (dm_area s)(p := SET_AREA_USED (dm_area s p))" "dm_freed (set_used p s1) = dm_freed s"
        using s1(3,8) by (simp_all add: set_used_def)
      moreover have "area_range (SET_AREA_USED (dm_area s p)) = area_range (dm_area s p)" by (simp add: area_range_def)
      ultimately have "taken k s (set_used p s1) p"
        unfolding taken_def using u s1(5,7) p0 free_mem_hold [OF ok pf] w(3) [OF pp] outside_same_trans [OF s1(5) u(6)] by auto
      moreover have "take_first_area k sz (2 ^ m) start s = Inr (set_used p s1, p)"
        using Some s1(1,3) False e(1) by (auto simp: take_first_area_def Let_def simp flip: p_def)
      ultimately show ?thesis using that [of "set_used p s1" p] u(1,7) a s1(6) t e ex(2) p0 by simp
    qed
  qed
qed

section \<open>The loop over the areas\<close>

definition loop_inv :: "(nat \<Rightarrow> nat set) \<Rightarrow> (l4_addr_t \<times> u32) multiset \<Rightarrow> nat \<Rightarrow> nat \<Rightarrow> dm_state \<Rightarrow> nat \<Rightarrow> dm_state \<Rightarrow> l4_addr_t \<Rightarrow> l4_addr_t list \<Rightarrow> u32 \<Rightarrow> bool" where
  "loop_inv C X k m s0 tot s pl qs sz \<longleftrightarrow> dm_ok C X k {} s0 \<and> dm_ok C X k {} s \<and> took k s0 s qs \<and> ds_chain (dm_area s) pl qs \<and>
     (\<forall>q \<in> set qs. 2 ^ m dvd unat (pa_addr (dm_area s q))) \<and> sum_list (map (area_size (dm_area s)) qs) + unat sz = tot \<and> 4096 dvd unat sz"

lemma took_not_int:
  assumes ok: "dm_ok C X k {} s0" "dm_ok C X k {} s" and t: "took k s0 s qs"
  shows "set qs \<inter> int_areas X s = {}"
proof (rule equals0I)
  fix q assume q: "q \<in> set qs \<inter> int_areas X s"
  then have q0: "q \<in> used_areas s0 0" "q \<in> used_areas s 0" using used_cached [OF ok(1)] used_cached [OF ok(2)] t by (auto simp: took_def int_areas_def)
  have "q \<in> used_areas s k" using q t by (auto simp: took_def)
  then have "k = 0" using dm_okD(5) [OF ok(2)] q0(2) by (auto simp: used_areas_def)
  then show False using q q0(1) t by (auto simp: took_def)
qed

lemma loop_step:
  assumes l: "loop_inv C X k m s0 tot s pl qs sz" and ok: "dm_ok C X k {} s1" and p: "taken k s s1 p" "2 ^ m dvd unat (pa_addr (dm_area s1 p))"
    and t: "4096 dvd unat (pa_size (dm_area s1 p))" "pa_size (dm_area s1 p) \<le> sz"
  defines "s2 \<equiv> set_area p (\<lambda>a. a\<lparr>pa_ds_next := pl\<rparr>) s1"
  shows "loop_inv C X k m s0 tot s2 p (p # qs) (sz - pa_size (dm_area s1 p))" "descs s2 = descs s1"
proof -
  have l': "dm_ok C X k {} s0" "dm_ok C X k {} s" "took k s0 s qs" "ds_chain (dm_area s) pl qs" "\<forall>q \<in> set qs. 2 ^ m dvd unat (pa_addr (dm_area s q))"
    "sum_list (map (area_size (dm_area s)) qs) + unat sz = tot" "4096 dvd unat sz" using l by (simp_all add: loop_inv_def)
  have pi: "p \<notin> int_areas X s1" using took_not_int [OF l'(2) ok taken_took [OF p(1)]] by simp
  have pu: "p \<in> used_areas s1 k" using p(1) by (simp add: taken_def)
  note st = took_step [OF l'(3) p(1) ok pi l'(4), folded s2_def]
  note lk = link_ok [OF ok pu pi, of pl, folded s2_def]
  show "descs s2 = descs s1" by (rule lk(7))
  have u: "unat (sz - pa_size (dm_area s1 p)) = unat sz - unat (pa_size (dm_area s1 p))" "unat (pa_size (dm_area s1 p)) \<le> unat sz"
    using t(2) by (simp_all add: unat_sub_le word_le_unat)
  have a: "pa_addr (dm_area s2 p) = pa_addr (dm_area s1 p)" "area_size (dm_area s2) p = unat (pa_size (dm_area s1 p))" by (simp_all add: s2_def area_size_def)
  have "sum_list (map (area_size (dm_area s2)) qs) = sum_list (map (area_size (dm_area s)) qs)"
    using st(3) by (intro arg_cong [of _ _ sum_list] map_cong) (simp_all add: area_size_def)
  then have "sum_list (map (area_size (dm_area s2)) (p # qs)) + unat (sz - pa_size (dm_area s1 p)) = tot" using l'(6) u a(2) by simp
  then show "loop_inv C X k m s0 tot s2 p (p # qs) (sz - pa_size (dm_area s1 p))"
    unfolding loop_inv_def using l'(1,5,7) lk(1) st u t(1) a(1) p(2) by (auto intro: dvd_diff_nat)
qed

lemma first_list_Some: "sz \<noteq> 0 \<Longrightarrow> 0 < n \<Longrightarrow> n < 2 ^ 32 \<Longrightarrow> \<exists>l. first_list sz n = Some l"
proof -
  assume "sz \<noteq> 0" "0 < n" "n < 2 ^ 32"
  moreover from this have "unat (of_nat n :: u32) = n" by (simp add: unat_of_nat)
  then have "(of_nat n :: u32) \<noteq> 0" using \<open>0 < n\<close> by auto
  ultimately show ?thesis using get_free_list_Some [of sz] bsr_Some [of "of_nat n"] by (auto simp: first_list_def)
qed

lemma allocate_loop_ok:
  assumes "loop_inv C X k m s0 tot s pl qs sz" "n \<le> 32" "2 * n \<le> descs s" "12 \<le> m" "m < 32"
  shows "\<exists>s' pl' qs' rest. allocate_loop k n (2 ^ m) pl sz s = Inr (s', pl', rest) \<and> loop_inv C X k m s0 tot s' pl' qs' rest \<and>
    length qs' \<le> length qs + n \<and> descs s \<le> descs s' + 2 * n"
  using assms(1-3)
proof (induction n arbitrary: s pl qs sz)
  case 0
  then show ?case by (intro exI [of _ s] exI [of _ pl] exI [of _ qs] exI [of _ sz]) simp
next
  case (Suc n)
  have stay: ?case if "allocate_loop k (Suc n) (2 ^ m) pl sz s = Inr (s, pl, sz)"
    using that Suc.prems(1) by (intro exI [of _ s] exI [of _ pl] exI [of _ qs] exI [of _ sz]) simp
  have l: "dm_ok C X k {} s" "4096 dvd unat sz" using Suc.prems(1) by (simp_all add: loop_inv_def)
  have d: "2 \<le> descs s" using Suc.prems(3) by simp
  show ?case
  proof (cases "sz = 0")
    case True
    then show ?thesis using stay by simp
  next
    case False
    then have z: "0 < unat sz" by (simp add: unat_gt_0)
    show ?thesis
    proof (cases "n = 0")
      case n: True
      obtain s1 p where s1: "find_single_area k sz (2 ^ m) s = Inr (s1, p)" "p = 0 \<Longrightarrow> s1 = s"
        "p \<noteq> 0 \<Longrightarrow> dm_ok C X k {} s1 \<and> taken k s s1 p \<and> pa_size (dm_area s1 p) = sz \<and> 2 ^ m dvd unat (pa_addr (dm_area s1 p)) \<and> descs s \<le> descs s1 + 2"
        using find_single_area_ok [OF l(1) d assms(4,5) z l(2)] by metis
      show ?thesis
      proof (cases "p = 0")
        case True
        then show ?thesis using s1(1,2) n False by (intro stay) simp
      next
        case p: False
        let ?s2 = "set_area p (\<lambda>a. a\<lparr>pa_ds_next := pl\<rparr>) s1"
        note st = loop_step [OF Suc.prems(1), of s1 p]
        have "allocate_loop k (Suc n) (2 ^ m) pl sz s = Inr (?s2, p, sz - pa_size (dm_area s1 p))" using s1(1) p n False by simp
        then show ?thesis using st s1(3) [OF p] l(2) by (intro exI [of _ ?s2] exI [of _ p] exI [of _ "p # qs"] exI [of _ "sz - pa_size (dm_area s1 p)"]) simp
      qed
    next
      case n: False
      obtain start where f: "first_list sz (Suc n) = Some start" using first_list_Some [OF False, of "Suc n"] Suc.prems(2) by auto
      obtain s1 p where s1: "take_first_area k sz (2 ^ m) start s = Inr (s1, p)" "p = 0 \<Longrightarrow> s1 = s"
        "p \<noteq> 0 \<Longrightarrow> dm_ok C X k {} s1 \<and> taken k s s1 p \<and> 0 < unat (pa_size (dm_area s1 p)) \<and> 4096 dvd unat (pa_size (dm_area s1 p)) \<and>
          pa_size (dm_area s1 p) \<le> sz \<and> 2 ^ m dvd unat (pa_addr (dm_area s1 p)) \<and> descs s \<le> descs s1 + 2"
        using take_first_area_ok [OF l(1) d assms(4,5) z l(2)] by metis
      show ?thesis
      proof (cases "p = 0")
        case True
        then show ?thesis using s1(1,2) n f False by (intro stay) simp
      next
        case p: False
        let ?s2 = "set_area p (\<lambda>a. a\<lparr>pa_ds_next := pl\<rparr>) s1" and ?sz = "sz - pa_size (dm_area s1 p)"
        have s2: "loop_inv C X k m s0 tot ?s2 p (p # qs) ?sz" "descs ?s2 = descs s1"
          using loop_step [OF Suc.prems(1), of s1 p] s1(3) [OF p] by simp_all
        have d2: "descs s \<le> descs ?s2 + 2" using s2(2) s1(3) [OF p] by simp
        have "n \<le> 32" "2 * n \<le> descs ?s2" using Suc.prems(2,3) d2 by simp_all
        from Suc.IH [OF s2(1) this] obtain s' pl' qs' rest where "allocate_loop k n (2 ^ m) p ?sz ?s2 = Inr (s', pl', rest)"
          "loop_inv C X k m s0 tot s' pl' qs' rest" "length qs' \<le> length (p # qs) + n" "descs ?s2 \<le> descs s' + 2 * n" by blast
        moreover have "allocate_loop k (Suc n) (2 ^ m) pl sz s = allocate_loop k n (2 ^ m) p ?sz ?s2" using s1(1) p n f False by simp
        ultimately show ?thesis using d2 by (intro exI [of _ s'] exI [of _ pl'] exI [of _ qs'] exI [of _ rest]) simp
      qed
    qed
  qed
qed

section \<open>Allocation\<close>

text \<open>What was taken goes back: the used areas and the memory of the pools are those of the beginning again.\<close>

lemma took_gives_back:
  assumes ok: "dm_ok C X k {} s1" and t: "took k s s1 qs" and d: "gives_back (set qs \<union> D) s1 s2"
  shows "gives_back D s s2"
proof -
  have os: "outside_same k s s1" using t by (simp add: took_def)
  have qk: "q \<notin> used_areas s1 j" if "q \<in> set qs" "j \<noteq> k" for q j
    using dm_okD(5) [OF ok, of q j k] that t by (auto simp: took_def used_areas_def)
  have u: "used_areas s1 j = (if j = k then used_areas s k \<union> set qs else used_areas s j)" "cover s1 j = cover s j" for j
  proof -
    have "used_areas s1 j = used_areas s j \<and> cover s1 j = cover s j" if "j \<noteq> k"
      using os that by (auto simp: outside_same_def used_areas_def cover_def)
    then show "used_areas s1 j = (if j = k then used_areas s k \<union> set qs else used_areas s j)" "cover s1 j = cover s j"
      using t unfolding took_def by (cases "j = k"; simp)+
  qed
  have "used_areas s2 j = used_areas s j - D" for j
  proof (cases "j = k")
    case True
    then show ?thesis using d u(1) [of k] t by (auto simp: gives_back_def took_def)
  next
    case False
    then show ?thesis using d u(1) [of j] qk [of _ j] by (auto simp: gives_back_def)
  qed
  moreover have "dm_area s2 q = dm_area s q" if "q \<in> used_areas s2 j" for q j
  proof -
    have q: "dm_area s2 q = dm_area s1 q" "q \<in> used_areas s j" using d that \<open>\<And>j. used_areas s2 j = used_areas s j - D\<close> by (auto simp: gives_back_def)
    then show ?thesis using t os by (cases "j = k") (auto simp: took_def outside_same_def used_areas_def)
  qed
  moreover have "pp_reserved (dm_pools s1 j) = pp_reserved (dm_pools s j) \<and> pp_size (dm_pools s1 j) = pp_size (dm_pools s j)" for j
    using os by (cases "j = k") (auto simp: outside_same_def)
  ultimately show ?thesis using d u(2) os t unfolding gives_back_def by (auto simp: outside_same_def took_def)
qed

text \<open>A dataspace gets the areas \<open>qs\<close>: they were free, each begins at a multiple of the alignment, and together they have the size.\<close>

definition allocated :: "nat \<Rightarrow> nat \<Rightarrow> nat \<Rightarrow> dm_state \<Rightarrow> dm_state \<Rightarrow> l4_addr_t \<Rightarrow> l4_addr_t list \<Rightarrow> bool" where
  "allocated k al sz s s' p qs \<longleftrightarrow> took k s s' qs \<and> ds_chain (dm_area s') p qs \<and> (\<forall>q \<in> set qs. al dvd unat (pa_addr (dm_area s' q))) \<and>
     sum_list (map (area_size (dm_area s')) qs) = sz"

lemma allocate_pages_ok:
  assumes ok: "dm_ok C X k {} s" and n: "n \<le> 32" "2 * n \<le> descs s" and m: "12 \<le> m" "m < 32" and sz: "0 < unat sz" "4096 dvd unat sz"
  obtains s' p where "allocate_pages k sz n (2 ^ m) s = Inr (s', p)" "dm_ok C X k {} s'"
    "p = 0 \<Longrightarrow> \<exists>D \<subseteq> int_areas X s. gives_back D s s'" "p \<noteq> 0 \<Longrightarrow> \<exists>qs. allocated k (2 ^ m) (unat sz) s s' p qs \<and> length qs \<le> n"
proof -
  have "loop_inv C X k m s (unat sz) s 0 [] sz" using ok sz(2) by (simp add: loop_inv_def took_refl)
  from allocate_loop_ok [OF this n m] obtain s1 pl qs rest where r: "allocate_loop k n (2 ^ m) 0 sz s = Inr (s1, pl, rest)"
    "loop_inv C X k m s (unat sz) s1 pl qs rest" "length qs \<le> n" by auto
  have l: "dm_ok C X k {} s1" "took k s s1 qs" "ds_chain (dm_area s1) pl qs" "\<forall>q \<in> set qs. 2 ^ m dvd unat (pa_addr (dm_area s1 q))"
    "sum_list (map (area_size (dm_area s1)) qs) + unat rest = unat sz" using r(2) by (simp_all add: loop_inv_def)
  show ?thesis
  proof (cases "rest = 0")
    case True
    then have e: "allocate_pages k sz n (2 ^ m) s = Inr (s1, pl)" using r(1) by (simp add: allocate_pages_def)
    have "pl \<noteq> 0" using l(3,5) sz(1) True by (cases qs) auto
    then show ?thesis using that [OF e l(1)] l(2-5) r(3) True by (auto simp: allocated_def)
  next
    case False
    have q: "set qs \<subseteq> used_areas s1 k" "distinct qs" "int_areas X s1 = int_areas X s" using l(2) by (auto simp: took_def int_areas_def)
    obtain s2 D where s2: "dmphys_pages_release (Some k) pl s1 = Inr s2" "dm_ok C X k {} s2" "gives_back (set qs \<union> D) s1 s2" "D \<subseteq> int_areas X s1"
      using pages_release_ok [OF l(1,3) q(1) took_not_int [OF ok l(1,2)] q(2)] by blast
    have "rest > 0" using False by (simp add: word_neq_0_conv)
    then have e: "allocate_pages k sz n (2 ^ m) s = Inr (s2, 0)" using r(1) s2(1) by (simp add: allocate_pages_def)
    have "\<exists>D \<subseteq> int_areas X s. gives_back D s s2" using took_gives_back [OF l(1,2) s2(3)] s2(4) q(3) by blast
    then show ?thesis using that [OF e s2(2)] by simp
  qed
qed

lemma descs_num_free:
  assumes "int_inv C X s" "DMPHYS_INT_POOL_MIN \<le> dm_num_free s"
  shows "64 \<le> descs s"
proof -
  have "8 \<le> card (avail s)" using assms by (simp add: int_inv_def l4_const)
  then show ?thesis by (simp add: descs_def)
qed

lemma superpage_size_ok:
  assumes "4096 dvd unat sz" "0 < unat sz" "flags AND L4DM_MEMPHYS_SUPERPAGES \<noteq> 0 \<Longrightarrow> unat sz + 2 ^ 22 \<le> 2 ^ 32"
  shows "0 < unat (superpage_size flags sz)" "4096 dvd unat (superpage_size flags sz)" "sz \<le> superpage_size flags sz"
proof -
  have "0 < unat (superpage_size flags sz) \<and> 4096 dvd unat (superpage_size flags sz) \<and> sz \<le> superpage_size flags sz"
  proof (cases "flags AND L4DM_MEMPHYS_SUPERPAGES = 0")
    case True
    then show ?thesis using assms by (simp add: superpage_size_def)
  next
    case False
    let ?x = "(unat sz + 2 ^ 22 - 1) div 2 ^ 22 * 2 ^ 22"
    have "unat ((sz + 2 ^ 22 - 1) AND NOT (2 ^ 22 - 1)) = ?x" using round_up_ok [of 22 sz] assms(3) [OF False] by simp
    then have u: "unat (superpage_size flags sz) = ?x" using False by (simp add: superpage_size_def DMPHYS_SUPERPAGESIZE_def)
    have "unat sz + 2 ^ 22 - 1 = ?x + (unat sz + 2 ^ 22 - 1) mod 2 ^ 22" by (rule div_mult_mod_eq [symmetric])
    moreover have "(unat sz + 2 ^ 22 - 1) mod 2 ^ 22 < (2 :: nat) ^ 22" by simp
    ultimately have "unat sz \<le> ?x" by linarith
    moreover have "(4096 :: nat) dvd 2 ^ 22" by simp
    then have "4096 dvd ?x" by (rule dvd_mult)
    ultimately show ?thesis unfolding u word_le_unat using assms(2) by linarith
  qed
  then show "0 < unat (superpage_size flags sz)" "4096 dvd unat (superpage_size flags sz)" "sz \<le> superpage_size flags sz" by simp_all
qed

lemma pages_alignment_exp:
  assumes "m < 32"
  obtains m' where "pages_alignment flags (2 ^ m) = 2 ^ m'" "12 \<le> m'" "m' < 32" "m \<le> m'" "flags AND L4DM_MEMPHYS_SUPERPAGES \<noteq> 0 \<Longrightarrow> 22 \<le> m'"
proof -
  have lt: "(2 ^ j :: u32) < 2 ^ i \<longleftrightarrow> j < i" if "i < 32" "j < 32" for i j
    unfolding word_less_unat unat_exp32 [OF that(1)] unat_exp32 [OF that(2)] by (simp add: power_strict_increasing_iff)
  have e: "DMPHYS_PAGESIZE = 2 ^ 12" "DMPHYS_SUPERPAGESIZE = 2 ^ 22" by (simp_all add: l4_const)
  define i where "i = max m 12"
  have al: "(if (2 ^ m :: u32) < 2 ^ 12 then 2 ^ 12 else 2 ^ m) = (2 :: u32) ^ i" using lt [of 12 m] assms by (auto simp: i_def max_def)
  have lt': "(2 ^ i :: u32) < 2 ^ 22 \<longleftrightarrow> i < 22" by (rule lt) (use assms in \<open>simp_all add: i_def\<close>)
  have "pages_alignment flags (2 ^ m) = 2 ^ (if flags AND L4DM_MEMPHYS_SUPERPAGES \<noteq> 0 then max i 22 else i)"
    unfolding pages_alignment_def e Let_def al lt' by auto
  then show ?thesis using that assms by (auto simp: i_def split: if_splits)
qed

end
