(* ===== verification/DmStart.thy ===== *)
theory DmStart
  imports DmRelease
begin

text \<open>
  The start of the dataspace manager (\<open>__init\<close> in \<open>main.c\<close>): the pages of \<open>sigma0\<close> go into the internal pool, the page pools
  are empty, and the memory of the machine is added to the pools as free areas. This gives the invariant that the
  operations on the pools keep.
\<close>

section \<open>The internal pool\<close>

lemma int_init_loop_ok:
  assumes "\<forall>p \<in> set ps. p \<noteq> 0 \<and> p \<noteq> - 1"
  shows "int_init_loop ps i s = Inr (s\<lparr>dm_int := (\<lambda>j. if i \<le> j \<and> j < i + length ps then (dm_int s j)\<lparr>ip_map_addr := ps ! (j - i), ip_available := True\<rparr> else dm_int s j),
    dm_num_free := dm_num_free s + int (length ps)\<rparr>, 0)"
  using assms
proof (induction ps arbitrary: i s)
  case Nil
  have "(\<lambda>j. if i \<le> j \<and> j < i then x j else dm_int s j) = dm_int s" for x by (rule ext) auto
  then show ?case by simp
next
  case (Cons p ps)
  let ?s = "s\<lparr>dm_int := (dm_int s)(i := (dm_int s i)\<lparr>ip_map_addr := p, ip_available := True\<rparr>), dm_num_free := dm_num_free s + 1\<rparr>"
  have "int_init_loop (p # ps) i s = int_init_loop ps (Suc i) ?s" using Cons.prems by simp
  also have "\<dots> = Inr (?s\<lparr>dm_int := (\<lambda>j. if Suc i \<le> j \<and> j < Suc i + length ps then (dm_int ?s j)\<lparr>ip_map_addr := ps ! (j - Suc i), ip_available := True\<rparr> else dm_int ?s j),
    dm_num_free := dm_num_free ?s + int (length ps)\<rparr>, 0)" using Cons by simp
  also have "(\<lambda>j. if Suc i \<le> j \<and> j < Suc i + length ps then (dm_int ?s j)\<lparr>ip_map_addr := ps ! (j - Suc i), ip_available := True\<rparr> else dm_int ?s j) =
    (\<lambda>j. if i \<le> j \<and> j < i + length (p # ps) then (dm_int s j)\<lparr>ip_map_addr := (p # ps) ! (j - i), ip_available := True\<rparr> else dm_int s j)"
  proof (rule ext)
    fix j
    consider "j = i" | "i < j" | "j < i" by linarith
    then show "(if Suc i \<le> j \<and> j < Suc i + length ps then (dm_int ?s j)\<lparr>ip_map_addr := ps ! (j - Suc i), ip_available := True\<rparr> else dm_int ?s j) =
      (if i \<le> j \<and> j < i + length (p # ps) then (dm_int s j)\<lparr>ip_map_addr := (p # ps) ! (j - i), ip_available := True\<rparr> else dm_int s j)"
    proof cases
      case 2
      then have "(p # ps) ! (j - i) = ps ! (j - Suc i)" by (simp add: nth_Cons')
      then show ?thesis using 2 by auto
    qed auto
  qed
  finally show ?case by (simp add: algebra_simps)
qed

lemma pages_init_ok:
  assumes c: "dm_cache s = Some c"
  obtains c' where "dmphys_pages_init s = Inr (s\<lparr>dm_cache := Some c', dm_pools := (\<lambda>i. if i < DMPHYS_NUM_POOLS then fresh_pool else dm_pools s i)\<rparr>, 0)"
    "slab_inv c'" "slab_config c' = (True, True, 0, 4096, 127)" "all_slabs c' = []"
proof -
  have sz: "slab_size_for 32 = Some 4096" by (simp add: slab_size_for_def Let_def l4util_bsr_def l4util_bsf_def l4_const) code_simp
  have o: "(32 + 3) AND NOT 3 = (32 :: u32)" by code_simp
  from l4slab_cache_init_spec [of sizeof_page_area c 0 True True] obtain c' where i: "l4slab_cache_init (Some c) sizeof_page_area 0 True True = Inr (Some c', 0)" "slab_inv c'"
    by (auto simp: l4_const)
  have "c' = c\<lparr>sc_obj_size := 32, sc_slab_size := 4096, sc_num_objs := 127, sc_num_slabs := 0, sc_num_free := 0, sc_max_free := 0,
     sc_full := [], sc_part := [], sc_free := [], sc_grow_fn := True, sc_release_fn := True, sc_data := 0\<rparr>"
    using i(1) by (simp add: l4slab_cache_init_def o sz l4_const)
  then have "slab_config c' = (True, True, 0, 4096, 127)" "all_slabs c' = []" by (simp_all add: slab_config_def all_slabs_def)
  then show ?thesis using that [of c'] i c by (simp add: dmphys_pages_init_def)
qed

text \<open>The pages that \<open>sigma0\<close> gives are different aligned pages that are in no pool.\<close>

lemma start_ok:
  assumes pg: "distinct pages" "\<forall>p \<in> set pages. p \<noteq> 0 \<and> 4096 dvd unat p" "length pages \<le> DMPHYS_INT_POOL_INITIAL"
    and s: "dm_cache s = Some c" "dm_freed s = []" "\<forall>j \<ge> DMPHYS_NUM_POOLS. dm_pools s j = fresh_pool"
  obtains s1 s2 where "dmphys_internal_alloc_init pages s = Inr (s1, 0)" "dmphys_pages_init s1 = Inr (s2, 0)" "dm_inv (\<lambda>_. {}) {#} s2"
    "descs s2 = 127 * length pages" "int_pages s2 = image_mset (\<lambda>p. (p, 0)) (mset pages)" "dm_freed s2 = []"
proof -
  have m1: "(- 1 :: u32) \<notin> set pages"
  proof
    assume "(- 1 :: u32) \<in> set pages"
    then have "4096 dvd unat (- 1 :: u32)" using pg(2) by blast
    then show False by (simp add: unsigned_minus_1_eq_mask mask_eq_exp_minus_1)
  qed
  let ?e = "\<lparr>ip_available = False, ip_map_addr = - 1, ip_area = 0\<rparr>"
  define s1 where "s1 = s\<lparr>dm_int := (\<lambda>j. if j < length pages then \<lparr>ip_available = True, ip_map_addr = pages ! j, ip_area = 0\<rparr>
    else if j < POOL_SIZE then ?e else dm_int s j), dm_num_free := int (length pages)\<rparr>"
  have ps: "length pages < POOL_SIZE" "length pages \<le> 32" using pg(3) by (simp_all add: POOL_SIZE_def l4_const)
  have "\<forall>p \<in> set pages. p \<noteq> 0 \<and> p \<noteq> - 1" using pg(2) m1 by blast
  note il = int_init_loop_ok [OF this, of 0 "s\<lparr>dm_int := (\<lambda>i. if i < POOL_SIZE then ?e else dm_int s i), dm_num_free := 0\<rparr>"]
  have ai: "dmphys_internal_alloc_init pages s = Inr (s1, 0)"
    unfolding dmphys_internal_alloc_init_def using ps(2) il
    by (simp add: l4_const s1_def) (rule arg_cong2 [of _ _ _ _ "\<lambda>f n. s\<lparr>dm_int := f, dm_num_free := n\<rparr>"]; use ps in \<open>auto simp: fun_eq_iff\<close>)
  obtain c' where c': "dmphys_pages_init s1 = Inr (s1\<lparr>dm_cache := Some c', dm_pools := (\<lambda>i. if i < DMPHYS_NUM_POOLS then fresh_pool else dm_pools s1 i)\<rparr>, 0)"
    "slab_inv c'" "slab_config c' = (True, True, 0, 4096, 127)" "all_slabs c' = []"
    using pages_init_ok [of s1 c] s(1) by (auto simp: s1_def)
  define s2 where "s2 = s1\<lparr>dm_cache := Some c', dm_pools := (\<lambda>i. if i < DMPHYS_NUM_POOLS then fresh_pool else dm_pools s1 i)\<rparr>"
  have pools: "dm_pools s2 j = fresh_pool" for j using s(3) by (simp add: s2_def s1_def)
  have av: "avail s2 = {..< length pages}" using ps by (auto simp: avail_def s2_def s1_def split: if_splits)
  have sp: "slab_pages c' = {#}" "spare c' = 0" using c'(4) by (simp_all add: slab_pages_def spare_def)
  have ip: "int_pages s2 = image_mset (\<lambda>p. (p, 0)) (mset pages)"
  proof -
    have "image_mset (int_entry s2) (mset_set {..< length pages}) = image_mset (\<lambda>i. (pages ! i, 0)) (mset_set {..< length pages})"
      by (rule image_mset_cong) (simp add: int_entry_def s2_def s1_def)
    also have "\<dots> = image_mset (\<lambda>p. (p, 0)) (image_mset ((!) pages) (mset_set {..< length pages}))" by (simp add: image_mset.compositionality o_def)
    also have "image_mset ((!) pages) (mset_set {..< length pages}) = mset pages"
      by (metis atLeast_upt map_nth mset_map mset_upt lessThan_atLeast0)
    finally show ?thesis using sp s(2) by (simp add: int_pages_def av cache_pages_def) (simp add: s2_def s1_def s(2))
  qed
  have cn: "count (image_mset fst (int_pages s2 + {#})) p \<le> 1" for p
    using pg(1) by (simp add: ip image_mset.compositionality o_def distinct_count_atmost_1)
  have ii: "dm_int s2 j = (if j < length pages then \<lparr>ip_available = True, ip_map_addr = pages ! j, ip_area = 0\<rparr> else if j < POOL_SIZE then ?e else dm_int s j)"
    "dm_num_free s2 = int (length pages)" "dm_freed s2 = []" "dm_cache s2 = Some c'" for j using s(2) by (simp_all add: s2_def s1_def)
  have ne: "pages ! j \<noteq> - 1" if "j < length pages" for j using m1 nth_mem [OF that] by auto
  have small: "i < POOL_SIZE" if "i < DMPHYS_INT_POOL_INITIAL" for i using that by (simp add: POOL_SIZE_def)
  have "int_inv (\<lambda>_. {}) {#} s2"
    unfolding int_inv_def
  proof (intro conjI allI ballI impI)
    show "cache_ok (dm_cache s2)" using c'(2,3) by (simp add: cache_ok_def ii)
    show "page_ok (\<lambda>_. {}) s2 x" if "x \<in># int_pages s2 + {#}" for x using that pg(2) by (auto simp: ip page_ok_def)
  qed (use cn av ne small in \<open>auto simp: ii\<close>)
  moreover have "pool_wf (dm_area s2) {} (dm_pools s2 j)" for j by (simp add: pools fresh_pool_def pool_wf_def areas_sorted_def frees_def)
  moreover have cov: "cover s2 j = {}" "set (pp_areas (dm_pools s2 j)) = {}" for j by (simp_all add: cover_def pools fresh_pool_def)
  ultimately have "dm_inv (\<lambda>_. {}) {#} s2" unfolding dm_inv_def by (intro conjI dm_okI) simp_all
  moreover have "descs s2 = 127 * length pages" using sp av by (simp add: descs_def) (simp add: s2_def sp)
  moreover have "dm_freed s2 = []" using s(2) by (simp add: s2_def s1_def)
  ultimately show ?thesis using that [of s1 s2] ai c'(1) ip by (simp add: s2_def)
qed

section \<open>Adding memory to a pool\<close>

lemma dm_ok_more:
  assumes ok: "dm_ok C X k H s" and C: "\<And>j. C j \<subseteq> C' j" and d: "\<And>x j. x \<in># int_pages s + X \<Longrightarrow> snd x = 0 \<Longrightarrow> {unat (fst x) ..< unat (fst x) + 4096} \<inter> C' j = {}"
  shows "dm_ok C' X k H s"
proof -
  note o = dm_okD [OF ok]
  have "page_ok C' s x" if "x \<in># int_pages s + X" for x
  proof -
    have "page_ok C s x" using o(1) that by (auto simp: int_inv_def)
    then show ?thesis using d [OF that] by (cases x) (auto simp: page_ok_def)
  qed
  then have "int_inv C' X s" using o(1) unfolding int_inv_def by blast
  moreover have "cover s j \<subseteq> C' j" for j using o(6) [of j] C [of j] by (rule order_trans)
  ultimately show ?thesis using o(2-5) by (intro dm_okI)
qed

lemma add_memory_ok:
  assumes inv: "dm_inv C X s" and d: "0 < descs s" and k: "0 \<le> pool" "pool < int DMPHYS_NUM_POOLS" and a: "area_ok (new_area addr sz)"
    and dj: "C (nat pool) \<inter> area_range (new_area addr sz) = {}"
    and pg: "\<And>x. x \<in># int_pages s + X \<Longrightarrow> snd x = 0 \<Longrightarrow> {unat (fst x) ..< unat (fst x) + 4096} \<inter> area_range (new_area addr sz) = {}"
  obtains s' where "dmphys_pages_add_free_area pool addr sz s = Inr (s', 0)"
    "dm_inv (C(nat pool := C (nat pool) \<union> area_range (new_area addr sz))) X s'" "descs s = Suc (descs s')" "int_pages s' = int_pages s" "dm_freed s' = dm_freed s"
    "pp_size (dm_pools s' (nat pool)) = pp_size (dm_pools s (nat pool)) + sz"
    "used_areas s' (nat pool) = used_areas s (nat pool)" "free_mem {} s' (nat pool) = free_mem {} s (nat pool) \<union> area_range (new_area addr sz)"
    "\<exists>q \<in> frees {} (dm_area s') (dm_pools s' (nat pool)). dm_area s' q = new_area addr sz"
proof -
  let ?k = "nat pool" and ?R = "area_range (new_area addr sz)"
  let ?C = "C(?k := C ?k \<union> ?R)"
  have ok: "dm_ok C X ?k {} s" and cv: "\<And>j. cover s j = C j" using inv dm_ok_empty [of C X 0 s ?k] by (auto simp: dm_inv_def)
  have pc: "{unat (fst x) ..< unat (fst x) + 4096} \<inter> C j = {}" if "x \<in># int_pages s + X" "snd x = 0" for x j
  proof -
    have "page_ok C s x" using dm_okD(1) [OF ok] that(1) by (auto simp: int_inv_def)
    then show ?thesis using that(2) by (cases x) (simp add: page_ok_def)
  qed
  have ok1: "dm_ok ?C X ?k {} s"
  proof (rule dm_ok_more [OF ok])
    show "{unat (fst x) ..< unat (fst x) + 4096} \<inter> ?C j = {}" if "x \<in># int_pages s + X" "snd x = 0" for x j
      using pc [OF that, of j] pc [OF that, of ?k] pg [OF that] by (cases "j = ?k") (simp_all add: Int_Un_distrib)
  qed auto
  obtain s1 where s1: "add_free_area ?k addr sz s = Inr s1" "dm_ok ?C X ?k {} s1" "adds ?k {} s s1 ?R" "descs s = Suc (descs s1)"
    "\<exists>q \<in> frees {} (dm_area s1) (dm_pools s1 ?k). dm_area s1 q = new_area addr sz"
    by (rule add_free_area_adds [OF ok1 d a]) (use cv dj in auto)
  have ad: "outside_same ?k s s1" "used_areas s1 ?k = used_areas s ?k" "free_mem {} s1 ?k = free_mem {} s ?k \<union> ?R" "cover s1 ?k = cover s ?k \<union> ?R"
    "int_pages s1 = int_pages s" "dm_freed s1 = dm_freed s" using s1(3) by (simp_all add: adds_def)
  define s2 where "s2 = set_pool ?k (\<lambda>P. P\<lparr>pp_size := pp_size P + sz\<rparr>) s1"
  have e: "dmphys_pages_add_free_area pool addr sz s = Inr (s2, 0)" using s1(1) k by (simp add: dmphys_pages_add_free_area_def s2_def)
  have f: "dm_area s2 = dm_area s1" "dm_int s2 = dm_int s1" "dm_num_free s2 = dm_num_free s1" "dm_freed s2 = dm_freed s1" "dm_cache s2 = dm_cache s1"
    "\<And>j. pp_areas (dm_pools s2 j) = pp_areas (dm_pools s1 j)" by (simp_all add: s2_def)
  have g: "frees H (dm_area s2) (dm_pools s2 j) = frees H (dm_area s1) (dm_pools s1 j)" "cover s2 j = cover s1 j" "used_areas s2 j = used_areas s1 j"
    "free_mem H s2 j = free_mem H s1 j" "descs s2 = descs s1" "cache_used s2 = cache_used s1" for H j
    using f by (simp_all add: frees_def cover_def used_areas_def free_mem_def descs_def avail_def cache_used_def fun_eq_iff)
  note o = dm_okD [OF s1(2)]
  have wf: "pool_wf (dm_area s2) {} (dm_pools s2 j)" for j
  proof -
    have "pool_wf (dm_area s1) {} (dm_pools s1 j)" using o(2,3) by (cases "j = ?k") auto
    then show ?thesis by (auto simp: pool_wf_def s2_def frees_def)
  qed
  have ii: "int_inv ?C X s2 \<and> int_pages s2 = int_pages s1"
    by (rule int_inv_areas [OF o(1)]) (use f int_areas_used(1) [OF o(1)] in auto)
  then have ip: "int_pages s2 = int_pages s1" by simp
  have "dm_ok ?C X 0 {} s2"
  proof (rule dm_okI)
    show "cache_used s2 p" if "p \<in> set (pp_areas (dm_pools s2 j))" for j p using that o(4) f g(6) by simp
    show "i = j" if "p \<in> set (pp_areas (dm_pools s2 i))" "p \<in> set (pp_areas (dm_pools s2 j))" for i j p using that o(5) f by simp
    show "cover s2 j \<subseteq> ?C j" for j using o(6) [of j] g(2) [of j] by (simp only:)
  qed (use ii wf in simp_all)
  moreover have "cover s2 j = ?C j" for j using ad(1,4) cv [of j] cv [of ?k] g(2) [of j] unfolding outside_same_def cover_def by (cases "j = ?k") auto
  ultimately have "dm_inv ?C X s2" by (simp add: dm_inv_def)
  moreover have "pp_size (dm_pools s2 ?k) = pp_size (dm_pools s ?k) + sz" using ad(1) by (simp add: s2_def outside_same_def)
  ultimately show ?thesis using that [of s2] e s1(4,5) g ip ad f by simp
qed

end
