(* ===== verification/DmSpec.thy ===== *)
theory DmSpec
  imports DmAllocate DmStart
begin

text \<open>
  The contract of the page pools of \<open>dm_phys\<close>: what allocation and release do to the memory, for every state that the
  operations can reach from the start of the server.
\<close>

section \<open>A server with one pool\<close>

text \<open>Eight pages from \<open>sigma0\<close>, and 4 MB of memory at 1 MB for the default pool.\<close>

definition demo_dm :: dm_state where
  "demo_dm = \<lparr>dm_area = (\<lambda>_. new_area 0 0), dm_pools = (\<lambda>_. fresh_pool), dm_cache = Some demo_cache,
     dm_int = (\<lambda>_. \<lparr>ip_available = False, ip_map_addr = - 1, ip_area = 0\<rparr>), dm_num_free = 0, dm_update = False, dm_freed = [], dm_mem = (\<lambda>_. 0)\<rparr>"

definition demo_pages :: "l4_addr_t list" where
  "demo_pages = [0x1000, 0x2000, 0x3000, 0x4000, 0x5000, 0x6000, 0x7000, 0x8000]"

definition dm_demo :: "dm_state res" where
  "dm_demo =
     bind_res (dmphys_internal_alloc_init demo_pages demo_dm) (\<lambda>(s1, _).
     bind_res (dmphys_pages_init s1) (\<lambda>(s2, _).
     bind_res (dmphys_pages_add_free_area 0 0x100000 0x400000 s2) (\<lambda>(s3, _). Inr s3)))"

definition demo_mem :: "nat \<Rightarrow> nat set" where
  "demo_mem = (\<lambda>_. {})(0 := {0x100000 ..< 0x500000})"

lemma demo_started:
  "\<exists>s. dm_demo = Inr s \<and> dm_inv demo_mem {#} s \<and> 64 \<le> descs s \<and> used_areas s 0 = {} \<and> dm_freed s = [] \<and>
    (\<exists>q \<in> frees {} (dm_area s) (dm_pools s 0). dm_area s q = new_area 0x100000 0x400000)"
proof -
  have u: "unat (0x1000 :: u32) = 4096" "unat (0x2000 :: u32) = 8192" "unat (0x3000 :: u32) = 12288" "unat (0x4000 :: u32) = 16384"
    "unat (0x5000 :: u32) = 20480" "unat (0x6000 :: u32) = 24576" "unat (0x7000 :: u32) = 28672" "unat (0x8000 :: u32) = 32768" by simp_all
  obtain s1 s2 where s: "dmphys_internal_alloc_init demo_pages demo_dm = Inr (s1, 0)" "dmphys_pages_init s1 = Inr (s2, 0)" "dm_inv (\<lambda>_. {}) {#} s2"
    "descs s2 = 127 * length demo_pages" "int_pages s2 = image_mset (\<lambda>p. (p, 0)) (mset demo_pages)" "dm_freed s2 = []"
    by (rule start_ok [of demo_pages demo_dm demo_cache]) (simp_all add: demo_pages_def demo_dm_def u l4_const)
  have r: "area_range (new_area 0x100000 0x400000) = {0x100000 ..< 0x500000}" by (simp add: area_range_def)
  have d: "unat (fst x) + 4096 \<le> 0x100000" if "x \<in># int_pages s2 + {#}" for x using that by (auto simp: s(5) demo_pages_def)
  obtain s3 where s3: "dmphys_pages_add_free_area 0 0x100000 0x400000 s2 = Inr (s3, 0)"
    "dm_inv ((\<lambda>_. {})(nat 0 := {} \<union> area_range (new_area 0x100000 0x400000))) {#} s3" "descs s2 = Suc (descs s3)" "dm_freed s3 = dm_freed s2"
    "used_areas s3 (nat 0) = used_areas s2 (nat 0)" "\<exists>q \<in> frees {} (dm_area s3) (dm_pools s3 (nat 0)). dm_area s3 q = new_area 0x100000 0x400000"
  proof (rule add_memory_ok [OF s(3), of 0 "0x100000" "0x400000"])
    show "{unat (fst x) ..< unat (fst x) + 4096} \<inter> area_range (new_area 0x100000 0x400000) = {}" if "x \<in># int_pages s2 + {#}" for x
      using d [OF that] unfolding r by auto
  qed (use s(4) in \<open>simp_all add: area_ok_def demo_pages_def DMPHYS_NUM_POOLS_def\<close>)
  have "used_areas s2 0 = {}"
  proof -
    have "cover s2 0 = {}" using s(3) by (simp add: dm_inv_def)
    moreover have "area_ok (dm_area s2 p)" if "p \<in> set (pp_areas (dm_pools s2 0))" for p
      using that s(3) dm_okD(2) pool_wfD(1) unfolding dm_inv_def by blast
    ultimately show ?thesis by (force simp: cover_def used_areas_def area_range_def area_ok_def)
  qed
  moreover have "dm_demo = Inr s3" using s s3(1) by (simp add: dm_demo_def)
  ultimately show ?thesis using s3 s(4,6) r by (intro exI [of _ s3]) (simp add: demo_mem_def demo_pages_def)
qed

section \<open>Allocation\<close>

lemma took_inv: "dm_inv C X s \<Longrightarrow> dm_ok C X k {} s' \<Longrightarrow> took k s s' qs \<Longrightarrow> dm_inv C X s'"
proof -
  assume i: "dm_inv C X s" "dm_ok C X k {} s'" "took k s s' qs"
  have "cover s' j = cover s j" for j
    using i(3) by (cases "j = k") (auto simp: took_def outside_same_def cover_def)
  then show ?thesis using i(1,2) dm_ok_empty [of C X k s' 0] by (simp add: dm_inv_def)
qed

lemma gives_back_inv: "dm_inv C X s \<Longrightarrow> dm_ok C X k {} s' \<Longrightarrow> gives_back D s s' \<Longrightarrow> dm_inv C X s'"
  using dm_ok_empty [of C X k s' 0] by (simp add: dm_inv_def gives_back_def)



section \<open>Release\<close>

lemma gives_back_free_mem:
  assumes ok: "dm_ok C X k {} s" "dm_ok C X k {} s'" and d: "gives_back D s s'"
  shows "free_mem {} s' j = free_mem {} s j \<union> (\<Union>q \<in> used_areas s j \<inter> D. area_range (dm_area s q))"
proof -
  have u: "used_areas s' j = used_areas s j - D" "cover s' j = cover s j" "\<forall>q \<in> used_areas s' j. dm_area s' q = dm_area s q"
    using d unfolding gives_back_def by blast+
  have "dm_ok C X j {} s" using ok(1) dm_ok_empty by blast
  note w = pool_wfD [OF dm_okD(2) [OF this]]
  have dj: "area_range (dm_area s p) \<inter> area_range (dm_area s q) = {}" if "p \<in> used_areas s j" "q \<in> used_areas s j" "p \<noteq> q" for p q
    by (rule areas_disjoint [OF w(4,1)]) (use that in \<open>auto simp: used_areas_def\<close>)
  let ?f = "\<lambda>q. area_range (dm_area s q)" and ?U = "used_areas s j"
  have "(\<Union>q \<in> used_areas s' j. area_range (dm_area s' q)) = (\<Union>q \<in> ?U - D. ?f q)" using u(1,3) by (intro SUP_cong) simp_all
  then have e: "free_mem {} s' j = cover s j - (\<Union>q \<in> ?U - D. ?f q)" "free_mem {} s j = cover s j - (\<Union>q \<in> ?U. ?f q)"
    using free_mem_cover [OF ok(1), of j] free_mem_cover [OF ok(2), of j] u(2) by simp_all
  have "(\<Union>q \<in> ?U. ?f q) = (\<Union>q \<in> ?U - D. ?f q) \<union> (\<Union>q \<in> ?U \<inter> D. ?f q)" by blast
  moreover have "(\<Union>q \<in> ?U - D. ?f q) \<inter> (\<Union>q \<in> ?U \<inter> D. ?f q) = {}" using dj by blast
  moreover have "(\<Union>q \<in> ?U \<inter> D. ?f q) \<subseteq> cover s j" by (auto simp: cover_def used_areas_def)
  ultimately show ?thesis unfolding e by blast
qed

text \<open>Three pages of the server with one pool.\<close>

lemma demo_allocated:
  "\<exists>s s1 p. dm_demo = Inr s \<and> dm_inv demo_mem {#} s \<and> 64 \<le> descs s \<and> find_single_area 0 0x3000 (2 ^ 12) s = Inr (s1, p) \<and> p \<noteq> 0 \<and>
    pa_size (dm_area s1 p) = 0x3000 \<and> dm_inv demo_mem {#} s1 \<and> taken 0 s s1 p"
proof -
  obtain s q where s: "dm_demo = Inr s" "dm_inv demo_mem {#} s" "64 \<le> descs s" "q \<in> frees {} (dm_area s) (dm_pools s 0)"
    "dm_area s q = new_area 0x100000 0x400000" using demo_started by blast
  have ok: "dm_ok demo_mem {#} 0 {} s" "2 \<le> descs s" using s(2,3) by (simp_all add: dm_inv_def)
  have z: "0 < unat (0x3000 :: u32)" "4096 dvd unat (0x3000 :: u32)" and zz: "12 < (32 :: nat)" by simp_all
  obtain s1 p where f: "find_single_area 0 0x3000 (2 ^ 12) s = Inr (s1, p)"
    "p = 0 \<Longrightarrow> \<forall>q \<in> frees {} (dm_area s) (dm_pools s 0). aligned_size (dm_area s q) (2 ^ 12) < 0x3000"
    "p \<noteq> 0 \<Longrightarrow> dm_ok demo_mem {#} 0 {} s1 \<and> taken 0 s s1 p \<and> pa_size (dm_area s1 p) = 0x3000"
    using find_single_area_ok [OF ok _ _ z] by (metis order_refl zz)
  have "\<not> aligned_size (new_area 0x100000 0x400000) (2 ^ 12) < 0x3000" by code_simp
  then have p: "p \<noteq> 0" using bspec [OF f(2) s(4)] s(5) by auto
  then have "dm_inv demo_mem {#} s1" using took_inv [OF s(2) _ taken_took] f(3) by blast
  then show ?thesis using s f(1) f(3) [OF p] p by blast
qed

text \<open>
  C4: the release of the areas of a dataspace returns and keeps the pools in order. The areas of the list become free memory
  that the next allocation can have; besides them only pages of the internal pool become free, which held the descriptors of
  areas that were merged. All other used areas, in every pool, are as they were.
\<close>

theorem pages_release_spec:
  assumes inv: "dm_inv C X s" and ch: "ds_chain (dm_area s) p qs" "set qs \<subseteq> used_areas s k" "set qs \<inter> int_areas X s = {}" "distinct qs"
  shows "\<exists>s' D. dmphys_pages_release (Some k) p s = Inr s' \<and> dm_inv C X s' \<and> D \<subseteq> int_areas X s \<and> gives_back (set qs \<union> D) s s' \<and>
    free_mem {} s k \<union> (\<Union>q \<in> set qs. area_range (dm_area s q)) \<subseteq> free_mem {} s' k"
proof -
  have ok: "dm_ok C X k {} s" using inv dm_ok_empty [of C X 0 s k] by (simp add: dm_inv_def)
  obtain s' D where r: "dmphys_pages_release (Some k) p s = Inr s'" "dm_ok C X k {} s'" "gives_back (set qs \<union> D) s s'" "D \<subseteq> int_areas X s"
    by (rule pages_release_ok [OF ok ch])
  have "free_mem {} s k \<union> (\<Union>q \<in> set qs. area_range (dm_area s q)) \<subseteq> free_mem {} s' k"
    unfolding gives_back_free_mem [OF ok r(2,3)] using ch(2) by blast
  then show ?thesis using r gives_back_inv [OF inv r(2,3)] by blast
qed

theorem pages_release_spec_witness:
  "\<exists>s s1 p s2 D. dm_demo = Inr s \<and> find_single_area 0 0x3000 (2 ^ 12) s = Inr (s1, p) \<and> p \<in> used_areas s1 0 \<and>
    dmphys_pages_release (Some 0) p s1 = Inr s2 \<and> dm_inv demo_mem {#} s2 \<and> gives_back ({p} \<union> D) s1 s2 \<and> area_range (dm_area s1 p) \<subseteq> free_mem {} s2 0"
proof -
  obtain s s1 p where s: "dm_demo = Inr s" "dm_inv demo_mem {#} s" "find_single_area 0 0x3000 (2 ^ 12) s = Inr (s1, p)" "dm_inv demo_mem {#} s1" "taken 0 s s1 p"
    using demo_allocated by blast
  have t: "p \<noteq> 0" "p \<in> used_areas s1 0" "pa_ds_next (dm_area s1 p) = 0" using s(5) by (simp_all add: taken_def)
  have "p \<notin> int_areas {#} s1" using took_not_int [OF _ _ taken_took [OF s(5)], of demo_mem "{#}"] s(2,4) by (simp add: dm_inv_def)
  with pages_release_spec [OF s(4), of p "[p]" 0] t obtain s2 D where "dmphys_pages_release (Some 0) p s1 = Inr s2" "dm_inv demo_mem {#} s2"
    "gives_back ({p} \<union> D) s1 s2" "area_range (dm_area s1 p) \<subseteq> free_mem {} s2 0" by auto
  then show ?thesis using t s(1,3) by (intro exI [of _ s] exI [of _ s1] exI [of _ p] exI [of _ s2] exI [of _ D]) simp
qed

text \<open>
  C19: pages that are allocated and released again leave nothing behind: the same areas are in use as before, with their
  contents, up to pages of the internal pool that became free, and all memory that was free is free again.
\<close>

theorem pages_roundtrip:
  assumes inv: "dm_inv C X s" and d: "64 \<le> descs s" and m: "12 \<le> m" "m < 32" and sz: "4096 dvd unat sz" "0 < unat sz" and n: "n \<le> 32"
    and r: "allocate_pages k sz n (2 ^ m) s = Inr (s1, p)"
  shows "\<exists>s2 D. dmphys_pages_release (Some k) p s1 = Inr s2 \<and> dm_inv C X s2 \<and> D \<subseteq> int_areas X s \<and> gives_back D s s2 \<and> free_mem {} s j \<subseteq> free_mem {} s2 j"
proof -
  have ok: "dm_ok C X k {} s" using inv dm_ok_empty [of C X 0 s k] by (simp add: dm_inv_def)
  have dn: "2 * n \<le> descs s" using d n by linarith
  obtain t q where a: "allocate_pages k sz n (2 ^ m) s = Inr (t, q)" "dm_ok C X k {} t" "q = 0 \<Longrightarrow> \<exists>D \<subseteq> int_areas X s. gives_back D s t"
    "q \<noteq> 0 \<Longrightarrow> \<exists>qs. allocated k (2 ^ m) (unat sz) s t q qs \<and> length qs \<le> n"
    using allocate_pages_ok [OF ok n dn m sz(2,1)] by metis
  have "t = s1" "q = p" using a(1) r by simp_all
  then have s1: "dm_ok C X k {} s1" "p = 0 \<Longrightarrow> \<exists>D \<subseteq> int_areas X s. gives_back D s s1" "p \<noteq> 0 \<Longrightarrow> \<exists>qs. allocated k (2 ^ m) (unat sz) s s1 p qs"
    using a(2-4) by blast+
  show ?thesis
  proof (cases "p = 0")
    case True
    then obtain D where D: "D \<subseteq> int_areas X s" "gives_back D s s1" using s1(2) by blast
    have "dmphys_pages_release (Some k) p s1 = Inr s1" using True by (simp add: dmphys_pages_release_def loop_res_def run_release.simps)
    moreover have "free_mem {} s j \<subseteq> free_mem {} s1 j" using gives_back_free_mem [OF ok s1(1) D(2), of j] by simp
    ultimately show ?thesis using D gives_back_inv [OF inv s1(1) D(2)] by blast
  next
    case False
    then obtain qs where t: "took k s s1 qs" "ds_chain (dm_area s1) p qs" using s1(3) by (auto simp: allocated_def)
    then have q: "set qs \<subseteq> used_areas s1 k" "distinct qs" "int_areas X s1 = int_areas X s" by (auto simp: took_def int_areas_def)
    obtain s2 D where s2: "dmphys_pages_release (Some k) p s1 = Inr s2" "dm_ok C X k {} s2" "gives_back (set qs \<union> D) s1 s2" "D \<subseteq> int_areas X s1"
      by (rule pages_release_ok [OF s1(1) t(2) q(1) took_not_int [OF ok s1(1) t(1)] q(2)])
    have dr: "gives_back D s s2" by (rule took_gives_back [OF s1(1) t(1) s2(3)])
    have "free_mem {} s j \<subseteq> free_mem {} s2 j" using gives_back_free_mem [OF ok s2(2) dr, of j] by simp
    then show ?thesis using s2(1,4) q(3) dr gives_back_inv [OF inv s2(2) dr] by (intro exI [of _ s2] exI [of _ D]) simp
  qed
qed

theorem pages_roundtrip_witness:
  "\<exists>s s1 p s2 D. dm_demo = Inr s \<and> allocate_pages 0 0x3000 1 (2 ^ 12) s = Inr (s1, p) \<and> p \<noteq> 0 \<and>
    dmphys_pages_release (Some 0) p s1 = Inr s2 \<and> dm_inv demo_mem {#} s2 \<and> gives_back D s s2 \<and> free_mem {} s 0 \<subseteq> free_mem {} s2 0"
proof -
  obtain s t p where s: "dm_demo = Inr s" "dm_inv demo_mem {#} s" "64 \<le> descs s" "find_single_area 0 0x3000 (2 ^ 12) s = Inr (t, p)" "p \<noteq> 0"
    "pa_size (dm_area t p) = 0x3000" using demo_allocated by blast
  have a: "allocate_pages 0 0x3000 1 (2 ^ 12) s = Inr (set_area p (\<lambda>a. a\<lparr>pa_ds_next := 0\<rparr>) t, p)"
    using s(4-6) by (simp add: allocate_pages_def)
  with pages_roundtrip [OF s(2,3), of 12 "0x3000" 1 0 _ p 0] obtain s2 D where
    "dmphys_pages_release (Some 0) p (set_area p (\<lambda>a. a\<lparr>pa_ds_next := 0\<rparr>) t) = Inr s2" "dm_inv demo_mem {#} s2" "gives_back D s s2" "free_mem {} s 0 \<subseteq> free_mem {} s2 0"
    by auto
  then show ?thesis using a s(1,5) by blast
qed

end
