(* ===== verification/Spec2Isabelle.thy ===== *)
theory Spec2Isabelle
  imports MemmapSearch RtRmgr RtLock NameServer Base64 BitAlloc ListAlloc Slab RmArea RmPagefault DmSpec
begin

text \<open>
  Verification of the core of L4Env, the operating system environment on top of the L4 microkernel. The repository holds
  the kernel (C++), an IDL compiler and some hundred packages; this development is about the C code that the other
  packages stand on. The build that is modelled is x86 with the L4 v2 interface: addresses and \<open>unsigned long\<close> are 32-bit
  words, a thread id is one word.

  \<^bold>\<open>Parts and how they interact.\<close>

  The \<^emph>\<open>roottask\<close> (\<open>l4/pkg/roottask/server/src\<close>) is the first server. It owns all resources: physical pages, tasks,
  interrupts, small address spaces and I/O ports, each a table of owners, and a quota per task. Its pager thread maps
  pages to the tasks that own them; its resource manager thread hands resources out and takes them back. Both threads use
  the memory map, under the lock of \<open>memmap_lock.c\<close>. The \<^emph>\<open>names\<close> server maps names to threads. The \<^emph>\<open>region mapper\<close>
  library \<open>l4rm\<close> runs in every task: it keeps the regions of the address space in a list and, those in use, in an AVL tree.
  Its descriptors come from the \<^emph>\<open>slab\<close> allocator, its list is protected by a \<^emph>\<open>lock\<close>, which is built on a
  \<^emph>\<open>semaphore\<close>, whose blocked threads wait at the semaphore thread of the task. What is attached at a region is a dataspace; the
  dataspace manager \<open>dm_phys\<close> gives physical memory as dataspaces and maps their pages. It keeps the memory in \<^emph>\<open>page
  pools\<close>, whose descriptors come from a slab cache that takes its pages from the pools. \<open>l4util\<close> has small utilities.

  \<^bold>\<open>Theories.\<close> A C function is the definition of its name; static functions lose their leading underscores.

  \<^item> \<open>L4Prelude\<close>, \<open>L4Sys\<close>: machine words, the result type \<open>'a res\<close> (\<open>Inl\<close> is leaving defined behaviour: a panic, an
    access out of bounds, a loop that does not end), arrays as functions; thread ids, flexpages and constants of \<open>l4sys\<close>.
  \<^item> \<open>RtState\<close>, \<open>Quota\<close>: the tables of the roottask as one record \<open>rt_state\<close>; \<open>quota.c\<close>, \<open>bootquota.c\<close>.
  \<^item> \<open>Memmap\<close>, \<open>MemmapSearch\<close>: \<open>memmap.c\<close>, page and superpage tables with their invariant \<open>mm_inv\<close>, and the searches of
    \<open>find_free_chunk\<close> and \<open>reserve_range\<close>.
  \<^item> \<open>OwnerTable\<close>, \<open>MemmapSpec\<close>, \<open>RtTables\<close>: the contract of a table of owners as the locale \<open>owner_table\<close>, with the
    client lemma that what a task holds stays with it until it gives it back; the memory map refines it for pages and for
    superpages, and the tables of \<open>task.c\<close>, \<open>irq.c\<close>, \<open>small.c\<close> and \<open>iomap.c\<close> are instances.
  \<^item> \<open>RtLock\<close>: the protocol of \<open>memmap_lock.c\<close> as steps of two threads; exclusion and progress.
  \<^item> \<open>RtPager\<close>, \<open>RtRmgr\<close>, \<open>RtMisc\<close>: \<open>pager.c\<close>, \<open>rmgr.c\<close>, \<open>l4ts_if.c\<close>, \<open>irq_thread.c\<close>, \<open>region.c\<close>, \<open>vm.c\<close>, \<open>names.c\<close>, \<open>misc.c\<close>.
    What the pager maps belongs to the client that gets it; requests of one task leave the others their resources.
  \<^item> \<open>NameServer\<close>: \<open>names/server/src/names.c\<close> and the polling client function, behind the locale \<open>name_service\<close>.
  \<^item> \<open>Base64\<close>, \<open>BitAlloc\<close>, \<open>ListAlloc\<close>, \<open>Slab\<close>: \<open>base64.c\<close>, \<open>alloc.c\<close>, \<open>list_alloc.c\<close> of \<open>l4util\<close>, and \<open>slab.c\<close>.
  \<^item> \<open>Semaphore\<close>, \<open>L4Lock\<close>: \<open>semaphore.c\<close> with the wait queues linked in memory, and the counter operations of the
    clients as steps that interleave; \<open>lock.h\<close> on top. The locale \<open>semaphore_contract\<close> is what the lock relies on.
  \<^item> \<open>RmAvl\<close>, \<open>RmRegion\<close>, \<open>RmMapper\<close>: \<open>avl_tree.c\<close>, \<open>region.c\<close> and the calls of the region mapper library. The
    invariant \<open>lm_inv\<close> says that the list covers the address space and that the tree has exactly the regions in use.
  \<^item> \<open>RmArea\<close>: \<open>reserve.c\<close>, \<open>release.c\<close>, \<open>setup.c\<close> and \<open>userptr.c\<close> of the library. What an area reserves stays outside the
    regions of other areas, and releasing it gives back what was there before.
  \<^item> \<open>RmPagefault\<close>: \<open>pagefault.c\<close>. A fault goes to the dataspace that is attached at its address, with the offset and the
    rights of the region, and to nobody else; after an attach a fault in the range reaches the dataspace attached.

  \<^item> \<open>L4Bits\<close>, \<open>DmTypes\<close>: bit scans and the loop that unmaps a range; error codes, dataspace ids and flags.
  \<^item> \<open>DmArea\<close>, \<open>DmMap\<close>: page areas, the list of areas of a dataspace, and the flexpages of \<open>dm_phys/server/src/map.c\<close>. A
    flexpage lies inside its area and lands where the client asked for.
  \<^item> \<open>DmPages\<close>: the definitions of \<open>pages.c\<close> and \<open>internal_alloc.c\<close>. \<open>DmPool\<close> is the invariant of one pool (areas in order
    and disjoint, free lists by size, the sum of the free memory), \<open>SlabPages\<close> and \<open>DmInt\<close> are about the pages of the
    descriptors, \<open>DmAlloc\<close> about splitting and taking areas, \<open>DmRelease\<close> about merging and the calls that release pages of
    descriptors in turn, \<open>DmAllocate\<close> about the loop that collects areas, \<open>DmStart\<close> about the start of the server.
    \<open>DmSpec\<close> has the contract: allocations give memory that was free and aligned, a release gives it back and ends, and
    the areas of other dataspaces are untouched. The invariant \<open>dm_inv C X\<close> takes the memory \<open>C\<close> of the pools and the pages
    \<open>X\<close> that other slab caches of the server have.

  \<^bold>\<open>State and calls from outside.\<close> A server's global variables are one record that its operations return updated. What
  comes from outside (the answer of an IPC, memory from a grow callback, the calling thread) is an argument of the
  operation. Code that runs in several threads (the two locks, the semaphore, the interrupt threads) is a step relation;
  one step is one atomic access. The other operations run to their end.

  \<^bold>\<open>Loops and bounds.\<close> Loops over arrays are structural recursion on the number of entries left. A loop that may not end
  is a \<open>partial_function\<close> into \<open>option\<close>; where it ends there is a theorem that says so (for example
  \<open>reserve_range_terminates\<close>, \<open>avlt_remove_spec\<close>, \<open>l4rm_reset_area_spec\<close>), and where it does not there is a lemma that
  shows the input. No fuel is used.

  \<^bold>\<open>Not modelled.\<close> The Fiasco kernel and the DICE compiler are C++. Start-up, module loading and the configuration
  parser of the roottask are kernel calls, copying of boot modules and generated code. Output, dump and debug functions
  have no effect on the state. Of \<open>dm_phys\<close> the table of dataspaces with the server functions on top of the pools and the
  setup of the memory map at start-up are left out. The remaining packages are servers on top of these parts, adapted Linux drivers,
  applications and third-party libraries.
\<close>

end
